(* ===== verification/Dex_Prelude.thy ===== *)
theory Dex_Prelude
  imports Main "HOL-Library.Word"
begin

text \<open>
  Shared vocabulary of the development: the machine integers of the C++ sources as words,
  the block copies \<open>memcpy\<close> and \<open>memmove\<close> on arrays modelled as lists, and the facts on
  strictly sorted association lists that every page of the index relies on.
\<close>

unbundle bit_operations_syntax

section \<open>Machine types\<close>

type_synonym u8 = "8 word"
type_synonym u16 = "16 word"
type_synonym u32 = "32 word"
type_synonym u64 = "64 word"

text \<open>\<open>Key\<close> and \<open>Value\<close> of \<open>dex/include/Common.h\<close>; a pointer is its 64-bit address.\<close>

type_synonym Key = u64
type_synonym Value = u64
type_synonym ptr = u64

named_theorems page_defs "definitions of the page operations"
named_theorems lock_defs "definitions of the lock words"

section \<open>Arrays\<close>

text \<open>
  \<open>mem_copy d src s n dst\<close> is \<open>memcpy(dst + d, src + s, n)\<close>; with \<open>src = dst\<close> it is
  \<open>memmove\<close>, since the source is read before the destination is written.
\<close>

definition mem_copy :: "nat \<Rightarrow> 'a list \<Rightarrow> nat \<Rightarrow> nat \<Rightarrow> 'a list \<Rightarrow> 'a list" where
  "mem_copy d src s n dst = take d dst @ take n (drop s src) @ drop (d + n) dst"

lemma length_mem_copy [simp]:
  "s + n \<le> length src \<Longrightarrow> d + n \<le> length dst \<Longrightarrow> length (mem_copy d src s n dst) = length dst"
  by (simp add: mem_copy_def)

lemma take_mem_copy_less: "m \<le> d \<Longrightarrow> d \<le> length dst \<Longrightarrow> take m (mem_copy d src s n dst) = take m dst"
  by (simp add: mem_copy_def)

lemma take_mem_copy_end:
  "s + n \<le> length src \<Longrightarrow> d \<le> length dst \<Longrightarrow>
   take (d + n) (mem_copy d src s n dst) = take d dst @ take n (drop s src)"
  by (simp add: mem_copy_def)

lemma nth_mem_copy:
  assumes "s + n \<le> length src" "d + n \<le> length dst" "i < length dst"
  shows "mem_copy d src s n dst ! i =
    (if i < d then dst ! i else if i < d + n then src ! (s + (i - d)) else dst ! i)"
  using assms by (auto simp: mem_copy_def nth_append min_absorb2)

text \<open>Opening a gap at \<open>pos\<close> and closing one: the two block moves of a sorted page.\<close>

lemma take_open_gap:
  assumes "pos \<le> n" "n < length xs"
  shows "take (Suc n) ((mem_copy (Suc pos) xs pos (n - pos) xs)[pos := x]) =
    take pos xs @ x # drop pos (take n xs)"
proof (rule nth_equalityI)
  show "length (take (Suc n) ((mem_copy (Suc pos) xs pos (n - pos) xs)[pos := x])) =
    length (take pos xs @ x # drop pos (take n xs))"
    using assms by simp
next
  fix i
  assume "i < length (take (Suc n) ((mem_copy (Suc pos) xs pos (n - pos) xs)[pos := x]))"
  then have "i < Suc n" using assms by simp
  then show "take (Suc n) ((mem_copy (Suc pos) xs pos (n - pos) xs)[pos := x]) ! i =
    (take pos xs @ x # drop pos (take n xs)) ! i"
    using assms
    by (auto simp: nth_append nth_list_update nth_mem_copy nth_Cons' min_def
        intro: arg_cong [of _ _ "nth xs"])
qed

lemma take_close_gap:
  assumes "pos < n" "n \<le> length xs"
  shows "take (n - 1) (mem_copy pos xs (Suc pos) (n - pos - 1) xs) =
    take pos xs @ drop (Suc pos) (take n xs)"
proof -
  have "n - 1 = pos + (n - pos - 1)" using assms by simp
  then have "take (n - 1) (mem_copy pos xs (Suc pos) (n - pos - 1) xs) =
      take (pos + (n - pos - 1)) (mem_copy pos xs (Suc pos) (n - pos - 1) xs)"
    by (rule arg_cong [of _ _ "\<lambda>k. take k (mem_copy pos xs (Suc pos) (n - pos - 1) xs)"])
  also have "\<dots> = take pos xs @ take (n - pos - 1) (drop (Suc pos) xs)"
    using assms by (intro take_mem_copy_end) auto
  also have "take (n - pos - 1) (drop (Suc pos) xs) = drop (Suc pos) (take n xs)"
    using assms by (simp add: drop_take)
  finally show ?thesis .
qed

section \<open>Strictly sorted association lists\<close>

abbreviation sorted_keys :: "('k::linorder \<times> 'v) list \<Rightarrow> bool" where
  "sorted_keys ps \<equiv> sorted_wrt (<) (map fst ps)"

lemma sorted_keys_distinct: "sorted_keys ps \<Longrightarrow> distinct (map fst ps)"
  by (simp add: strict_sorted_iff)

text \<open>
  \<open>is_lower_bound ks k r\<close>: \<open>r\<close> splits the list into the keys below \<open>k\<close> and the others,
  what every binary search of the code is meant to return.
\<close>

definition is_lower_bound :: "'k::linorder list \<Rightarrow> 'k \<Rightarrow> nat \<Rightarrow> bool" where
  "is_lower_bound ks k r \<longleftrightarrow>
     r \<le> length ks \<and> (\<forall>x \<in> set (take r ks). x < k) \<and> (\<forall>x \<in> set (drop r ks). k \<le> x)"

lemma is_lower_bound_unique:
  assumes "is_lower_bound ks k r" "is_lower_bound ks k s"
  shows "r = s"
proof (rule ccontr)
  assume "r \<noteq> s"
  then consider "r < s" | "s < r" by arith
  then show False
  proof cases
    case 1
    then have "ks ! r \<in> set (drop r ks)" "ks ! r \<in> set (take s ks)"
      using assms(2) by (auto simp: is_lower_bound_def in_set_conv_nth intro: exI [of _ 0] exI [of _ r])
    then show False using assms by (force simp: is_lower_bound_def)
  next
    case 2
    then have "ks ! s \<in> set (drop s ks)" "ks ! s \<in> set (take r ks)"
      using assms(1) by (auto simp: is_lower_bound_def in_set_conv_nth intro: exI [of _ 0] exI [of _ s])
    then show False using assms by (force simp: is_lower_bound_def)
  qed
qed

lemma is_lower_bound_nthI:
  assumes "r \<le> length ks" "\<And>j. j < r \<Longrightarrow> ks ! j < k"
    "\<And>j. r \<le> j \<Longrightarrow> j < length ks \<Longrightarrow> k \<le> ks ! j"
  shows "is_lower_bound ks k r"
proof -
  have "x < k" if "x \<in> set (take r ks)" for x
    using that assms(1,2) by (auto simp: in_set_conv_nth)
  moreover have "k \<le> x" if "x \<in> set (drop r ks)" for x
    using that assms(3) by (auto simp: in_set_conv_nth)
  ultimately show ?thesis using assms(1) by (simp add: is_lower_bound_def)
qed

lemma is_lower_bound_nthD:
  assumes "is_lower_bound ks k r"
  shows "j < r \<Longrightarrow> ks ! j < k" "r \<le> j \<Longrightarrow> j < length ks \<Longrightarrow> k \<le> ks ! j"
proof -
  show "ks ! j < k" if "j < r"
  proof -
    have "take r ks ! j \<in> set (take r ks)"
      using assms that by (intro nth_mem) (simp add: is_lower_bound_def)
    then show ?thesis using assms that by (simp add: is_lower_bound_def)
  qed
  show "k \<le> ks ! j" if "r \<le> j" "j < length ks"
  proof -
    have "ks ! j \<in> set (drop r ks)"
      using that by (auto simp: in_set_conv_nth intro: exI [of _ "j - r"])
    then show ?thesis using assms by (simp add: is_lower_bound_def)
  qed
qed

lemma sorted_keys_insert:
  assumes "sorted_keys ps" "is_lower_bound (map fst ps) k r" "k \<notin> fst ` set ps"
  shows "sorted_keys (take r ps @ (k, v) # drop r ps)"
proof -
  have "sorted_keys (take r ps @ drop r ps)" using assms(1) by simp
  moreover have "\<forall>x \<in> set (drop r ps). k < fst x"
  proof
    fix x assume x: "x \<in> set (drop r ps)"
    then have "k \<le> fst x" using assms(2) by (auto simp: is_lower_bound_def drop_map)
    moreover have "fst x \<noteq> k" using x assms(3) in_set_dropD by fastforce
    ultimately show "k < fst x" by simp
  qed
  moreover have "\<forall>x \<in> set (take r ps). fst x < k"
    using assms(2) by (auto simp: is_lower_bound_def take_map)
  ultimately show ?thesis
    unfolding map_append sorted_wrt_append by auto
qed

lemma map_of_insert_middle:
  "k \<notin> fst ` set ps \<Longrightarrow> map_of (take r ps @ (k, v) # drop r ps) = (map_of ps)(k \<mapsto> v)"
proof -
  assume "k \<notin> fst ` set ps"
  then have "map_of (take r ps) k = None"
    unfolding map_of_eq_None_iff by (metis image_mono set_take_subset subsetD)
  then have "map_of (take r ps @ (k, v) # drop r ps) = (map_of (take r ps @ drop r ps))(k \<mapsto> v)"
    unfolding map_of_append by (auto simp: fun_eq_iff map_add_def split: option.splits)
  then show ?thesis by simp
qed

lemma map_of_update_nth:
  assumes "distinct (map fst ps)" "i < length ps" "fst (ps ! i) = k"
  shows "map_of (ps[i := (k, v)]) = (map_of ps)(k \<mapsto> v)"
proof -
  have ps: "ps = take i ps @ (k, snd (ps ! i)) # drop (Suc i) ps"
    using assms(2,3) by (metis id_take_nth_drop prod.collapse)
  have "map_of (take i ps) k = None"
  proof -
    have "distinct (map fst (take i ps @ (k, snd (ps ! i)) # drop (Suc i) ps))"
      using assms(1) ps by metis
    then show ?thesis by (auto simp: map_of_eq_None_iff)
  qed
  moreover have "ps[i := (k, v)] = take i ps @ (k, v) # drop (Suc i) ps"
    using assms(2) by (simp add: upd_conv_take_nth_drop)
  ultimately show ?thesis
    by (subst (2) ps) (auto simp: map_add_def split: option.splits)
qed

lemma map_of_remove_nth:
  assumes "distinct (map fst ps)" "i < length ps" "fst (ps ! i) = k"
  shows "map_of (take i ps @ drop (Suc i) ps) = (map_of ps)(k := None)"
proof -
  have ps: "ps = take i ps @ (k, snd (ps ! i)) # drop (Suc i) ps"
    using assms(2,3) by (metis id_take_nth_drop prod.collapse)
  have "distinct (map fst (take i ps @ (k, snd (ps ! i)) # drop (Suc i) ps))"
    using assms(1) ps by metis
  then have "map_of (take i ps) k = None" "map_of (drop (Suc i) ps) k = None"
    by (auto simp: map_of_eq_None_iff)
  then show ?thesis
    by (subst (3) ps) (auto simp: map_add_def split: option.splits)
qed

lemma sorted_keys_remove_nth:
  "sorted_keys ps \<Longrightarrow> sorted_keys (take i ps @ drop (Suc i) ps)"
proof -
  assume "sorted_keys ps"
  then have s: "sorted_keys (take i ps @ drop i ps)" by simp
  have "set (drop (Suc i) ps) \<subseteq> set (drop i ps)" by (simp add: set_drop_subset_set_drop)
  moreover have "sorted_keys (drop (Suc i) ps)"
    using \<open>sorted_keys ps\<close> by (simp add: drop_map [symmetric] sorted_wrt_drop)
  ultimately show ?thesis using s unfolding map_append sorted_wrt_append by auto
qed

lemma map_of_append_disjoint:
  "fst ` set ps \<inter> fst ` set qs = {} \<Longrightarrow> map_of (ps @ qs) = map_of ps ++ map_of qs"
  by (metis map_add_comm dom_map_of_conv_image_fst map_of_append)

section \<open>Results\<close>

text \<open>A computation that may stop at an error: the next one runs on the value of the first.\<close>

fun rbind :: "'e + 'a \<Rightarrow> ('a \<Rightarrow> 'e + 'b) \<Rightarrow> 'e + 'b" where
  "rbind (Inl e) f = Inl e"
| "rbind (Inr x) f = f x"

lemma rbind_eq_Inr: "rbind r f = Inr y \<longleftrightarrow> (\<exists>x. r = Inr x \<and> f x = Inr y)"
  by (cases r) auto

text \<open>\<open>assert(b)\<close>: the program goes on only when \<open>b\<close> holds.\<close>

definition check :: "bool \<Rightarrow> 'e \<Rightarrow> 'e + unit" where
  "check b e = (if b then Inr () else Inl e)"

lemma check_simps [simp]: "b \<Longrightarrow> check b e = Inr ()" "\<not> b \<Longrightarrow> check b e = Inl e"
  "check b e = Inr u \<longleftrightarrow> b"
  by (auto simp: check_def)

section \<open>Words\<close>

lemma unat_Suc_lt: "Suc (unat (w :: 'a::len word)) < 2 ^ LENGTH('a) \<Longrightarrow> unat (w + 1) = Suc (unat w)"
  by (simp add: unat_word_ariths)

lemma unat_and_mask: "unat (w AND mask n) = unat w mod 2 ^ n"
  for w :: "'a::len word"
  unfolding take_bit_eq_mask [symmetric] unsigned_take_bit_eq by (simp add: take_bit_eq_mod)

lemma unat_pred: "0 < unat (w :: 'a::len word) \<Longrightarrow> unat (w - 1) = unat w - 1"
  by (simp add: unat_minus_one unat_gt_0)

lemma unat_of_nat_lt: "n < 2 ^ LENGTH('a) \<Longrightarrow> unat (of_nat n :: 'a::len word) = n"
  by (simp add: unsigned_of_nat take_bit_nat_eq_self)

lemma unat_add_lt: "unat x + unat y < 2 ^ LENGTH('a) \<Longrightarrow> unat (x + y :: 'a::len word) = unat x + unat y"
  by (simp add: unat_word_ariths)

lemma unat_mult_lt: "unat x * unat y < 2 ^ LENGTH('a) \<Longrightarrow> unat (x * y :: 'a::len word) = unat x * unat y"
  by (simp add: unat_word_ariths)

end
