(* ===== verification/Kv_Store.thy ===== *)
theory Kv_Store
  imports Dex_Prelude
begin

text \<open>
  The contract every key-value structure of the index promises: the sorted leaf of DEX, the
  unsorted leaf page of Sherman and the page table all implement a finite map through a
  lookup, a put and a delete.  The contract is a locale over the three operations, an
  invariant and an abstraction function; sequences of operations are reasoned about once.
\<close>

section \<open>Operation sequences and their meaning on maps\<close>

datatype ('k, 'v) kv_op = Put 'k 'v | Del 'k

fun kv_apply :: "('k, 'v) kv_op \<Rightarrow> ('k \<rightharpoonup> 'v) \<Rightarrow> ('k \<rightharpoonup> 'v)" where
  "kv_apply (Put k v) m = m(k \<mapsto> v)"
| "kv_apply (Del k) m = m(k := None)"

text \<open>The last operation on a key decides what a lookup returns.\<close>

fun last_write :: "('k, 'v) kv_op list \<Rightarrow> 'k \<Rightarrow> 'v option option" where
  "last_write [] k = None"
| "last_write (Put k' v # ops) k =
     (case last_write ops k of Some r \<Rightarrow> Some r | None \<Rightarrow> if k' = k then Some (Some v) else None)"
| "last_write (Del k' # ops) k =
     (case last_write ops k of Some r \<Rightarrow> Some r | None \<Rightarrow> if k' = k then Some None else None)"

lemma fold_kv_apply_last_write:
  "fold kv_apply ops m k = (case last_write ops k of None \<Rightarrow> m k | Some r \<Rightarrow> r)"
  by (induction ops k arbitrary: m rule: last_write.induct) (auto split: option.splits)

fun run_ops :: "('s \<Rightarrow> 'k \<Rightarrow> 'v \<Rightarrow> 's) \<Rightarrow> ('s \<Rightarrow> 'k \<Rightarrow> 's) \<Rightarrow> ('k, 'v) kv_op list \<Rightarrow> 's \<Rightarrow> 's" where
  "run_ops put del [] s = s"
| "run_ops put del (Put k v # ops) s = run_ops put del ops (put s k v)"
| "run_ops put del (Del k # ops) s = run_ops put del ops (del s k)"

text \<open>Every put of the sequence is accepted in the state it meets.\<close>

fun all_accepted :: "('s \<Rightarrow> 'k \<Rightarrow> 'v \<Rightarrow> bool) \<Rightarrow> ('s \<Rightarrow> 'k \<Rightarrow> 'v \<Rightarrow> 's) \<Rightarrow> ('s \<Rightarrow> 'k \<Rightarrow> 's) \<Rightarrow>
    ('k, 'v) kv_op list \<Rightarrow> 's \<Rightarrow> bool" where
  "all_accepted acc put del [] s = True"
| "all_accepted acc put del (Put k v # ops) s = (acc s k v \<and> all_accepted acc put del ops (put s k v))"
| "all_accepted acc put del (Del k # ops) s = all_accepted acc put del ops (del s k)"

section \<open>The contract\<close>

locale kv_store =
  fixes inv :: "'s \<Rightarrow> bool"
    and abs :: "'s \<Rightarrow> ('k \<rightharpoonup> 'v)"
    and lookup :: "'s \<Rightarrow> 'k \<Rightarrow> 'v option"
    and acc :: "'s \<Rightarrow> 'k \<Rightarrow> 'v \<Rightarrow> bool"
    and put :: "'s \<Rightarrow> 'k \<Rightarrow> 'v \<Rightarrow> 's"
    and del :: "'s \<Rightarrow> 'k \<Rightarrow> 's"
  assumes lookup_abs: "inv s \<Longrightarrow> lookup s k = abs s k"
    and put_inv: "inv s \<Longrightarrow> acc s k v \<Longrightarrow> inv (put s k v)"
    and put_abs: "inv s \<Longrightarrow> acc s k v \<Longrightarrow> abs (put s k v) = (abs s)(k \<mapsto> v)"
    and del_inv: "inv s \<Longrightarrow> inv (del s k)"
    and del_abs: "inv s \<Longrightarrow> abs (del s k) = (abs s)(k := None)"
begin

lemma run_inv: "inv s \<Longrightarrow> all_accepted acc put del ops s \<Longrightarrow> inv (run_ops put del ops s)"
proof (induction ops arbitrary: s)
  case (Cons oper ops)
  then show ?case by (cases oper) (auto intro: put_inv del_inv)
qed simp

lemma run_abs:
  "inv s \<Longrightarrow> all_accepted acc put del ops s \<Longrightarrow>
   abs (run_ops put del ops s) = fold kv_apply ops (abs s)"
proof (induction ops arbitrary: s)
  case (Cons oper ops)
  then show ?case
    by (cases oper) (auto simp: put_abs del_abs put_inv del_inv simp del: fun_upd_apply)
qed simp

lemma lookup_run:
  assumes "inv s" "all_accepted acc put del ops s"
  shows "lookup (run_ops put del ops s) k =
    (case last_write ops k of None \<Rightarrow> lookup s k | Some r \<Rightarrow> r)"
  using assms
  by (simp add: lookup_abs run_inv run_abs fold_kv_apply_last_write split: option.splits)

end

text \<open>A store that leaves its contents alone when it refuses a put.\<close>

locale kv_store_bounded = kv_store +
  assumes put_refused: "inv s \<Longrightarrow> \<not> acc s k v \<Longrightarrow> inv (put s k v) \<and> abs (put s k v) = abs s"
begin

lemma run_inv_always: "inv s \<Longrightarrow> inv (run_ops put del ops s)"
proof (induction ops arbitrary: s)
  case (Cons oper ops)
  have "inv (put s k v)" for k v
    using Cons.prems put_refused put_inv by (cases "acc s k v") auto
  then show ?case
    using Cons by (cases oper) (auto intro: del_inv)
qed simp

lemma put_lookup:
  "inv s \<Longrightarrow> lookup (put s k v) j = (if acc s k v \<and> j = k then Some v else lookup s j)"
proof (cases "acc s k v")
  case True
  assume "inv s"
  with True show ?thesis by (simp add: lookup_abs put_inv put_abs)
next
  case False
  assume "inv s"
  with False put_refused [of s k v] show ?thesis by (simp add: lookup_abs)
qed

end

end
