(* ===== verification/Global_Addr.thy ===== *)
theory Global_Addr
  imports Dex_Prelude
begin

text \<open>
  \<open>dex/include/GlobalAddress.h\<close>: a 64-bit address of the distributed shared memory, the union
  of \<open>val\<close> and the bit fields \<open>nodeID\<close> (16 bits, low on this ABI) and \<open>offset\<close> (48 bits).
  The model keeps \<open>val\<close> and reads and writes the fields by masks and shifts.
\<close>

type_synonym GlobalAddress = u64

definition nodeID :: "GlobalAddress \<Rightarrow> u64" where
  "nodeID a = a AND mask 16"

definition offset :: "GlobalAddress \<Rightarrow> u64" where
  "offset a = drop_bit 16 a"

text \<open>The constructor \<open>GlobalAddress(nodeID, offset)\<close>: both arguments are cut to their width.\<close>

definition mk_GlobalAddress :: "u64 \<Rightarrow> u64 \<Rightarrow> GlobalAddress" where
  "mk_GlobalAddress n off = (n AND mask 16) OR push_bit 16 off"

definition Null :: GlobalAddress where
  "Null = 0"

definition set_nodeID :: "GlobalAddress \<Rightarrow> u64 \<Rightarrow> GlobalAddress" where
  "set_nodeID a n = mk_GlobalAddress n (offset a)"

definition set_offset :: "GlobalAddress \<Rightarrow> u64 \<Rightarrow> GlobalAddress" where
  "set_offset a off = mk_GlobalAddress (nodeID a) off"

text \<open>\<open>GADD\<close>: \<open>ret.offset += off\<close> with a signed \<open>int\<close>.\<close>

definition GADD :: "GlobalAddress \<Rightarrow> int \<Rightarrow> GlobalAddress" where
  "GADD addr off = set_offset addr (offset addr + word_of_int off)"

definition addr_eq :: "GlobalAddress \<Rightarrow> GlobalAddress \<Rightarrow> bool" where
  "addr_eq lhs rhs \<longleftrightarrow> nodeID lhs = nodeID rhs \<and> offset lhs = offset rhs"

section \<open>The fields are independent and determine the address\<close>

lemma nodeID_mk [simp]: "nodeID (mk_GlobalAddress n off) = n AND mask 16"
  unfolding nodeID_def mk_GlobalAddress_def
  by (rule bit_word_eqI) (auto simp: bit_simps)

lemma offset_mk: "offset (mk_GlobalAddress n off) = off AND mask 48"
  unfolding offset_def mk_GlobalAddress_def
  by (rule bit_word_eqI) (auto simp: bit_simps)

lemma mk_GlobalAddress_fields [simp]: "mk_GlobalAddress (nodeID a) (offset a) = a"
  unfolding nodeID_def offset_def mk_GlobalAddress_def
  by (rule bit_word_eqI) (auto simp: bit_simps intro: ccontr)

lemma nodeID_masked [simp]: "nodeID a AND mask 16 = nodeID a"
  unfolding nodeID_def by (rule bit_word_eqI) (auto simp: bit_simps)

lemma nodeID_set_offset [simp]: "nodeID (set_offset a off) = nodeID a"
  by (simp add: set_offset_def)

lemma unat_offset_mk: "unat (offset (mk_GlobalAddress n off)) = unat off mod 2 ^ 48"
  by (simp add: offset_mk unat_and_mask)

lemma unat_offset_set [simp]: "unat (offset (set_offset a off)) = unat off mod 2 ^ 48"
  by (simp add: set_offset_def unat_offset_mk)

lemma offset_bound: "unat (offset a) < 2 ^ 48"
proof -
  have "unat (offset a) = unat a div 2 ^ 16"
    unfolding offset_def unat_drop_bit_eq by (simp add: drop_bit_eq_div)
  moreover have "unat a < 2 ^ 64" using unsigned_less [of a] by simp
  ultimately show ?thesis by (simp add: div_less_iff_less_mult flip: power_add)
qed

lemma addr_eqI: "nodeID a = nodeID b \<Longrightarrow> offset a = offset b \<Longrightarrow> a = b"
  by (metis mk_GlobalAddress_fields)

end
