(* ===== verification/Version_Lock.thy ===== *)
theory Version_Lock
  imports Dex_Prelude
begin

text \<open>
  The version locks of DEX: \<open>Lock\<close> and \<open>Lock32\<close> of \<open>dex/util/lock.h\<close> (the bucket locks of the
  cooling table and the page table), \<open>OptLock\<close> of \<open>dex/include/cache/btree_node.h\<close> (the node
  lock of optimistic lock coupling) and the reader-writer lock of \<open>dex/include/WRLock.h\<close>.
  Every atomic access is one step of an interleaving machine; the version locks share one
  machine and one contract, a locale that each of them interprets.
\<close>

section \<open>The lock words\<close>

subsection \<open>Lock and Lock32\<close>

definition lockSet :: u64 where
  "lockSet = push_bit 63 1"

definition lockMask :: u64 where
  "lockMask = push_bit 63 1 - 1"

definition lockSet32 :: u32 where
  "lockSet32 = push_bit 31 1"

definition lockMask32 :: u32 where
  "lockMask32 = push_bit 31 1 - 1"

text \<open>
  \<open>CAS(&w, &expected, desired)\<close>: the success flag and the new content of the word.  The
  functions below take the current word \<open>w\<close> and, where the code loads it first, the loaded
  value \<open>v\<close>, since another thread may run in between.
\<close>

definition CAS :: "'w \<Rightarrow> 'w \<Rightarrow> 'w \<Rightarrow> bool \<times> 'w" where
  "CAS w expected desired = (if w = expected then (True, desired) else (False, w))"

definition Lock_test_lock_set :: "u64 \<Rightarrow> bool" where
  "Lock_test_lock_set w \<longleftrightarrow> w AND lockSet \<noteq> 0"

definition Lock_test_lock_version_change :: "u64 \<Rightarrow> u64 \<Rightarrow> bool" where
  "Lock_test_lock_version_change old_version w \<longleftrightarrow> old_version \<noteq> w"

text \<open>The value \<open>get_lock\<close> installs over a loaded value whose lock bit is clear.\<close>

definition Lock_get_lock :: "u64 \<Rightarrow> u64" where
  "Lock_get_lock v = (v AND lockMask) OR lockSet"

definition Lock_try_get_lock :: "u64 \<Rightarrow> u64 \<Rightarrow> bool \<times> u64" where
  "Lock_try_get_lock v w =
     (if v AND lockSet \<noteq> 0 then (False, w)
      else CAS w (v AND lockMask) (v OR lockSet))"

definition Lock_release_lock :: "u64 \<Rightarrow> u64" where
  "Lock_release_lock v = v + 1 - lockSet"

definition Lock32_test_lock_set :: "u32 \<Rightarrow> bool" where
  "Lock32_test_lock_set w \<longleftrightarrow> w AND lockSet32 \<noteq> 0"

definition Lock32_test_lock_version_change :: "u32 \<Rightarrow> u32 \<Rightarrow> bool" where
  "Lock32_test_lock_version_change old_version w \<longleftrightarrow> old_version \<noteq> w"

definition Lock32_get_lock :: "u32 \<Rightarrow> u32" where
  "Lock32_get_lock v = (v AND lockMask32) OR lockSet32"

definition Lock32_try_get_lock :: "u32 \<Rightarrow> u32 \<Rightarrow> bool \<times> u32" where
  "Lock32_try_get_lock v w =
     (if v AND lockSet32 \<noteq> 0 then (False, w)
      else CAS w (v AND lockMask32) (v OR lockSet32))"

definition Lock32_release_lock :: "u32 \<Rightarrow> u32" where
  "Lock32_release_lock v = v + 1 - lockSet32"

text \<open>
  \<open>upgrade_to_exclusive_lock\<close> computes in 64 bits with the 64-bit \<open>lockSet\<close>; the CAS on the
  32-bit word stores the low half.
\<close>

definition Lock32_upgrade_to_exclusive_lock :: "u32 \<Rightarrow> u32 \<Rightarrow> u32 \<Rightarrow> bool \<times> u32" where
  "Lock32_upgrade_to_exclusive_lock old_version v w =
     (let cur_value = (ucast v :: u64) in
      if cur_value \<noteq> ucast old_version then (False, w)
      else CAS w (ucast cur_value) (ucast (cur_value OR lockSet)))"

subsection \<open>OptLock\<close>

definition isLocked :: "u64 \<Rightarrow> bool" where
  "isLocked version \<longleftrightarrow> version AND 0b100 = 0b100"

definition isObsolete :: "u64 \<Rightarrow> bool" where
  "isObsolete version \<longleftrightarrow> version AND 0b10 = 0b10"

definition isIO :: "u64 \<Rightarrow> bool" where
  "isIO version \<longleftrightarrow> version AND 1 = 1"

text \<open>\<open>readLockOrRestart\<close>: the loaded version and \<open>needRestart\<close>.\<close>

definition readLockOrRestart :: "u64 \<Rightarrow> bool \<Rightarrow> u64 \<times> bool" where
  "readLockOrRestart w needRestart =
     (let version = w in (version, if isLocked version \<or> isObsolete version then True else needRestart))"

definition readUnlockOrRestart :: "u64 \<Rightarrow> u64 \<Rightarrow> bool" where
  "readUnlockOrRestart startRead w \<longleftrightarrow> startRead OR 1 \<noteq> w OR 1"

definition checkOrRestart :: "u64 \<Rightarrow> u64 \<Rightarrow> bool" where
  "checkOrRestart startRead w = readUnlockOrRestart startRead w"

text \<open>
  \<open>upgradeToWriteLockOrRestart(version, needRestart)\<close>: the new \<open>version\<close>, \<open>needRestart\<close> and
  the lock word.  A failing \<open>compare_exchange_strong\<close> loads the word into \<open>version\<close>.
\<close>

definition upgradeToWriteLockOrRestart :: "u64 \<Rightarrow> bool \<Rightarrow> u64 \<Rightarrow> u64 \<times> bool \<times> u64" where
  "upgradeToWriteLockOrRestart version needRestart w =
     (if isIO version then (version, True, w)
      else case CAS w version (version + 0b100) of
        (True, w') \<Rightarrow> (version + 0b100, needRestart, w')
      | (False, w') \<Rightarrow> (w, True, w'))"

definition writeLockOrRestart :: "u64 \<Rightarrow> bool \<Rightarrow> u64 \<Rightarrow> bool \<times> u64" where
  "writeLockOrRestart version needRestart w =
     (if version AND 0b111 \<noteq> 0 then (True, w)
      else case upgradeToWriteLockOrRestart version needRestart w of (_, r, w') \<Rightarrow> (r, w'))"

definition IOUpgradeToWriteLockOrRestart :: "u64 \<Rightarrow> bool \<Rightarrow> bool \<times> u64" where
  "IOUpgradeToWriteLockOrRestart w needRestart =
     (let version = w in
      if \<not> isIO version then (True, w) else (needRestart, version - 1 + 0b100))"

definition upgradeToIOLockOrRestart :: "u64 \<Rightarrow> bool \<Rightarrow> u64 \<Rightarrow> u64 \<times> bool \<times> u64" where
  "upgradeToIOLockOrRestart version needRestart w =
     (if isIO version then (version, True, w)
      else case CAS w version (version + 1) of
        (True, w') \<Rightarrow> (version + 1, needRestart, w')
      | (False, w') \<Rightarrow> (w, True, w'))"

definition IOLockOrRestart :: "u64 \<Rightarrow> bool \<Rightarrow> u64 \<Rightarrow> bool \<times> u64" where
  "IOLockOrRestart version needRestart w =
     (if version AND 0b111 \<noteq> 0 then (True, w)
      else case upgradeToIOLockOrRestart version needRestart w of (_, r, w') \<Rightarrow> (r, w'))"

definition IOUnlock :: "u64 \<Rightarrow> u64" where
  "IOUnlock w = w - 1"

definition writeUnlock :: "u64 \<Rightarrow> u64" where
  "writeUnlock w = w + 0b100"

definition setLockState :: "u64 \<Rightarrow> u64" where
  "setLockState w = 0b100"

definition writeUnlockObsolete :: "u64 \<Rightarrow> u64" where
  "writeUnlockObsolete w = w + 0b110"

section \<open>The interleaving machine of the version locks\<close>

text \<open>
  A thread loads the word while its lock bit is clear (\<open>Loaded\<close>), tries the CAS, writes the
  protected data while it holds the lock, and releases by a load (\<open>Releasing\<close>) and a store.
  A reader remembers the word it tested (\<open>Reading\<close>).  \<open>writes\<close> and \<open>releases\<close> are ghost
  counters: the modifications of the protected data and the completed releases; a reader
  also remembers both as they were when it started.
\<close>

datatype 'w lock_pc = Idle | Loaded 'w | Holding | Releasing 'w | Reading 'w nat nat

record 'w lock_sys =
  lock_word :: 'w
  pcs :: "nat \<Rightarrow> 'w lock_pc"
  writes :: nat
  releases :: nat

abbreviation set_pc :: "'w lock_sys \<Rightarrow> nat \<Rightarrow> 'w lock_pc \<Rightarrow> 'w lock_sys" where
  "set_pc s t p \<equiv> s\<lparr>pcs := (pcs s)(t := p)\<rparr>"

definition owns :: "'w lock_pc \<Rightarrow> bool" where
  "owns p \<longleftrightarrow> (case p of Holding \<Rightarrow> True | Releasing _ \<Rightarrow> True | _ \<Rightarrow> False)"

lemma owns_simps [simp]:
  "owns Holding" "owns (Releasing v)" "\<not> owns Idle" "\<not> owns (Loaded v)" "\<not> owns (Reading v w r)"
  by (simp_all add: owns_def)

inductive lock_step :: "('w \<Rightarrow> bool) \<Rightarrow> ('w \<Rightarrow> 'w) \<Rightarrow> ('w \<Rightarrow> 'w) \<Rightarrow> 'w lock_sys \<Rightarrow> 'w lock_sys \<Rightarrow> bool"
  for locked :: "'w \<Rightarrow> bool" and get :: "'w \<Rightarrow> 'w" and rel :: "'w \<Rightarrow> 'w"
where
  load: "pcs s t = Idle \<Longrightarrow> \<not> locked (lock_word s) \<Longrightarrow>
    lock_step locked get rel s (set_pc s t (Loaded (lock_word s)))"
| cas_success: "pcs s t = Loaded v \<Longrightarrow> lock_word s = v \<Longrightarrow>
    lock_step locked get rel s ((set_pc s t Holding)\<lparr>lock_word := get v\<rparr>)"
| cas_failure: "pcs s t = Loaded v \<Longrightarrow> lock_word s \<noteq> v \<Longrightarrow>
    lock_step locked get rel s (set_pc s t Idle)"
| data_write: "pcs s t = Holding \<Longrightarrow>
    lock_step locked get rel s (s\<lparr>writes := Suc (writes s)\<rparr>)"
| release_load: "pcs s t = Holding \<Longrightarrow>
    lock_step locked get rel s (set_pc s t (Releasing (lock_word s)))"
| release_store: "pcs s t = Releasing v \<Longrightarrow>
    lock_step locked get rel s ((set_pc s t Idle)\<lparr>lock_word := rel v, releases := Suc (releases s)\<rparr>)"
| read_begin: "pcs s t = Idle \<Longrightarrow> \<not> locked (lock_word s) \<Longrightarrow>
    lock_step locked get rel s (set_pc s t (Reading (lock_word s) (writes s) (releases s)))"
| read_end: "pcs s t = Reading v w r \<Longrightarrow>
    lock_step locked get rel s (set_pc s t Idle)"

definition lock_init :: "'w \<Rightarrow> 'w lock_sys" where
  "lock_init w = \<lparr>lock_word = w, pcs = (\<lambda>_. Idle), writes = 0, releases = 0\<rparr>"

lemma lock_step_releases_mono: "lock_step locked get rel s s' \<Longrightarrow> releases s \<le> releases s'"
  by (induction rule: lock_step.induct) simp_all

text \<open>
  The contract of a version lock: its words encode the number of releases and whether the
  lock is held, faithfully as long as the number of releases stays below \<open>bound\<close>.
\<close>

locale version_lock =
  fixes locked :: "'w \<Rightarrow> bool" and get :: "'w \<Rightarrow> 'w" and rel :: "'w \<Rightarrow> 'w"
    and enc :: "nat \<Rightarrow> bool \<Rightarrow> 'w" and bound :: nat
  assumes locked_enc: "n < bound \<Longrightarrow> locked (enc n h) \<longleftrightarrow> h"
    and enc_inj: "n < bound \<Longrightarrow> m < bound \<Longrightarrow> enc n h = enc m g \<Longrightarrow> n = m \<and> h = g"
    and get_enc: "n < bound \<Longrightarrow> get (enc n False) = enc n True"
    and rel_enc: "Suc n < bound \<Longrightarrow> rel (enc n True) = enc (Suc n) False"
begin

definition lock_inv :: "'w lock_sys \<Rightarrow> bool" where
  "lock_inv s \<longleftrightarrow>
     lock_word s = enc (releases s) (\<exists>t. owns (pcs s t)) \<and>
     (\<forall>t u. owns (pcs s t) \<longrightarrow> owns (pcs s u) \<longrightarrow> t = u) \<and>
     (\<forall>t v. pcs s t = Releasing v \<longrightarrow> v = enc (releases s) True) \<and>
     (\<forall>t v. pcs s t = Loaded v \<longrightarrow> (\<exists>n \<le> releases s. v = enc n False)) \<and>
     (\<forall>t v w r. pcs s t = Reading v w r \<longrightarrow>
        r \<le> releases s \<and> v = enc r False \<and>
        (releases s = r \<longrightarrow> \<not> (\<exists>u. owns (pcs s u)) \<longrightarrow> writes s = w))"

lemma lock_inv_init: "lock_inv (lock_init (enc 0 False))"
  by (simp add: lock_inv_def lock_init_def)

lemma lock_invD:
  assumes "lock_inv s"
  shows "lock_word s = enc (releases s) (\<exists>t. owns (pcs s t))"
    and "owns (pcs s t) \<Longrightarrow> owns (pcs s u) \<Longrightarrow> t = u"
    and "pcs s t = Releasing v \<Longrightarrow> v = enc (releases s) True"
    and "pcs s t = Loaded v \<Longrightarrow> \<exists>n \<le> releases s. v = enc n False"
    and "pcs s t = Reading v w r \<Longrightarrow> r \<le> releases s \<and> v = enc r False \<and>
      (releases s = r \<longrightarrow> \<not> (\<exists>u. owns (pcs s u)) \<longrightarrow> writes s = w)"
  using assms unfolding lock_inv_def by blast+

lemma lock_inv_move:
  assumes "lock_inv s" "owns p = owns (pcs s t)"
    and "\<And>v. p = Releasing v \<Longrightarrow> v = enc (releases s) True"
    and "\<And>v. p = Loaded v \<Longrightarrow> \<exists>n \<le> releases s. v = enc n False"
    and "\<And>v w r. p = Reading v w r \<Longrightarrow> r = releases s \<and> v = enc r False \<and> w = writes s"
  shows "lock_inv (set_pc s t p)"
proof -
  have own: "owns (pcs (set_pc s t p) u) = owns (pcs s u)" for u
    using assms(2) by simp
  have other: "pcs (set_pc s t p) u = (if u = t then p else pcs s u)" for u by simp
  have same: "releases (set_pc s t p) = releases s" "writes (set_pc s t p) = writes s"
    "lock_word (set_pc s t p) = lock_word s" by simp_all
  show ?thesis
    unfolding lock_inv_def own same
  proof (intro conjI)
    show "lock_word s = enc (releases s) (\<exists>t. owns (pcs s t))" by (rule lock_invD(1) [OF assms(1)])
    show "\<forall>t u. owns (pcs s t) \<longrightarrow> owns (pcs s u) \<longrightarrow> t = u" using lock_invD(2) [OF assms(1)] by blast
    show "\<forall>u v. pcs (set_pc s t p) u = Releasing v \<longrightarrow> v = enc (releases s) True"
      unfolding other using lock_invD(3) [OF assms(1)] assms(3) by metis
    show "\<forall>u v. pcs (set_pc s t p) u = Loaded v \<longrightarrow> (\<exists>n \<le> releases s. v = enc n False)"
      unfolding other using lock_invD(4) [OF assms(1)] assms(4) by metis
    show "\<forall>u v w r. pcs (set_pc s t p) u = Reading v w r \<longrightarrow> r \<le> releases s \<and> v = enc r False \<and>
        (releases s = r \<longrightarrow> \<not> (\<exists>u. owns (pcs s u)) \<longrightarrow> writes s = w)"
      unfolding other using lock_invD(5) [OF assms(1)] assms(5) by (metis order_refl)
  qed
qed

lemma lock_inv_step:
  assumes "lock_step locked get rel s s'" "lock_inv s" "releases s' < bound"
  shows "lock_inv s'"
  using assms
proof (induction rule: lock_step.induct)
  case (load s t)
  from lock_invD(1) [OF load.prems(1)] load have "lock_word s = enc (releases s) False"
    by (simp add: locked_enc)
  with load show ?case by (intro lock_inv_move) auto
next
  case (read_begin s t)
  from lock_invD(1) [OF read_begin.prems(1)] read_begin have "lock_word s = enc (releases s) False"
    by (simp add: locked_enc)
  with read_begin show ?case by (intro lock_inv_move) auto
next
  case (cas_success s t v)
  obtain n where n: "n \<le> releases s" "v = enc n False"
    using lock_invD(4) [OF cas_success.prems(1) cas_success.hyps(1)] by blast
  have "enc (releases s) (\<exists>u. owns (pcs s u)) = enc n False"
    using lock_invD(1) [OF cas_success.prems(1)] cas_success.hyps(2) n(2) by (simp only:)
  then have free: "\<not> (\<exists>u. owns (pcs s u))" "n = releases s"
    using n(1) cas_success.prems(2) enc_inj [of "releases s" n "\<exists>u. owns (pcs s u)" False] by simp_all
  have own: "owns (((pcs s)(t := Holding)) u) \<longleftrightarrow> u = t" for u
    using free(1) by simp
  show ?case
    unfolding lock_inv_def
    using lock_invD [OF cas_success.prems(1)] n free(2) get_enc [OF cas_success.prems(2)] free(1)
    by (simp add: own)
next
  case (release_load s t)
  then have "\<exists>u. owns (pcs s u)" by (metis owns_simps(1))
  with lock_invD(1) [OF release_load.prems(1)] have "lock_word s = enc (releases s) True" by simp
  with release_load show ?case by (intro lock_inv_move) simp_all
next
  case (release_store s t v)
  have own: "u = t" if "owns (pcs s u)" for u
    using lock_invD(2) [OF release_store.prems(1) that, of t] release_store.hyps by simp
  have free: "\<not> owns (((pcs s)(t := Idle)) u)" for u using own by auto
  have idle: "pcs s u \<noteq> Releasing w" if "u \<noteq> t" for u w using own [of u] that by auto
  have v: "rel v = enc (Suc (releases s)) False"
    using lock_invD(3) [OF release_store.prems(1) release_store.hyps] release_store.prems(2) rel_enc
    by simp
  have ld: "\<exists>n \<le> Suc (releases s). w = enc n False" if "pcs s u = Loaded w" for u w
    using lock_invD(4) [OF release_store.prems(1) that] le_SucI by blast
  have rd: "r \<le> Suc (releases s) \<and> w = enc r False \<and> Suc (releases s) \<noteq> r"
    if "pcs s u = Reading w x r" for u w x r
    using lock_invD(5) [OF release_store.prems(1) that] by auto
  show ?case
    unfolding lock_inv_def
    by (intro conjI allI impI) (use free v idle in \<open>auto split: if_splits dest: rd ld\<close>)
next
  case (data_write s t)
  then have own: "\<exists>u. owns (pcs s u)" by (metis owns_simps(1))
  show ?case
    unfolding lock_inv_def using lock_invD [OF data_write.prems(1)] own by simp
qed (auto intro!: lock_inv_move)

lemma lock_inv_reachable:
  assumes "(lock_step locked get rel)\<^sup>*\<^sup>* (lock_init (enc 0 False)) s" "releases s < bound"
  shows "lock_inv s"
  using assms
proof (induction rule: rtranclp_induct)
  case base
  show ?case by (rule lock_inv_init)
next
  case (step s s')
  then have "releases s < bound" using lock_step_releases_mono le_less_trans by blast
  with step show ?case by (blast intro: lock_inv_step)
qed

lemma mutual_exclusion:
  assumes "(lock_step locked get rel)\<^sup>*\<^sup>* (lock_init (enc 0 False)) s" "releases s < bound"
    and "owns (pcs s t)" "owns (pcs s u)"
  shows "t = u"
  using lock_inv_reachable [OF assms(1,2)] assms(3,4) by (auto simp: lock_inv_def)

lemma validated_read:
  assumes "(lock_step locked get rel)\<^sup>*\<^sup>* (lock_init (enc 0 False)) s" "releases s < bound"
    and "pcs s t = Reading v w r" "lock_word s = v"
  shows "writes s = w \<and> (\<forall>u. \<not> owns (pcs s u))"
proof -
  have inv: "lock_inv s" by (rule lock_inv_reachable [OF assms(1,2)])
  have rd: "r \<le> releases s \<and> v = enc r False \<and>
      (releases s = r \<longrightarrow> \<not> (\<exists>u. owns (pcs s u)) \<longrightarrow> writes s = w)"
    using inv assms(3) by (simp add: lock_inv_def)
  have "lock_word s = enc (releases s) (\<exists>t. owns (pcs s t))"
    using inv by (simp only: lock_inv_def)
  then have "enc (releases s) (\<exists>t. owns (pcs s t)) = enc r False"
    using rd assms(4) by (simp only:)
  moreover have "r < bound" using rd assms(2) by linarith
  ultimately have "releases s = r \<and> (\<exists>t. owns (pcs s t)) = False"
    using assms(2) by (blast dest: enc_inj)
  then show ?thesis using rd by blast
qed

text \<open>A free lock can be taken: a lone thread that loads and swaps becomes the owner.\<close>

lemma free_lock_acquired:
  assumes "(lock_step locked get rel)\<^sup>*\<^sup>* (lock_init (enc 0 False)) s" "releases s < bound"
    and "\<forall>u. \<not> owns (pcs s u)" "pcs s t = Idle"
  shows "\<exists>s'. (lock_step locked get rel)\<^sup>*\<^sup>* s s' \<and> pcs s' t = Holding"
proof -
  have "\<not> locked (lock_word s)"
    using lock_inv_reachable [OF assms(1,2)] assms(2,3) by (simp add: lock_inv_def locked_enc)
  then have 1: "lock_step locked get rel s (set_pc s t (Loaded (lock_word s)))"
    using assms(4) by (rule lock_step.load [rotated])
  let ?s1 = "set_pc s t (Loaded (lock_word s))"
  have 2: "lock_step locked get rel ?s1 ((set_pc ?s1 t Holding)\<lparr>lock_word := get (lock_word s)\<rparr>)"
    by (rule lock_step.cas_success) simp_all
  have "(lock_step locked get rel)\<^sup>*\<^sup>* s ((set_pc ?s1 t Holding)\<lparr>lock_word := get (lock_word s)\<rparr>)"
    using 1 2 by (meson converse_rtranclp_into_rtranclp r_into_rtranclp)
  then show ?thesis by (intro exI conjI) auto
qed

end

section \<open>Lock and Lock32 keep the contract below their wrap-around\<close>

text \<open>Facts on the top bit of a word.\<close>

lemma bit_unat: "bit (w :: 'a::len word) n \<longleftrightarrow> odd (unat w div 2 ^ n)"
  by (metis bit_iff_odd bit_unsigned_iff possible_bit_nat possible_bit_def)

lemma odd_div_top: "(x :: nat) < 2 * 2 ^ n \<Longrightarrow> odd (x div 2 ^ n) \<longleftrightarrow> 2 ^ n \<le> x"
proof (cases "2 ^ n \<le> x")
  case True
  moreover assume "x < 2 * 2 ^ n"
  ultimately have "x div 2 ^ n = 1" by (intro div_nat_eqI) auto
  with True show ?thesis by simp
qed simp

lemma and_top_bit_64: "w AND lockSet \<noteq> 0 \<longleftrightarrow> 2 ^ 63 \<le> unat w"
proof -
  have "w AND lockSet \<noteq> 0 \<longleftrightarrow> bit w 63"
    unfolding lockSet_def using and_exp_eq_0_iff_not_bit [of w 63] by (simp add: push_bit_eq_mult)
  then show ?thesis
    using odd_div_top [of "unat w" 63] unsigned_less [of w, where ?'a = nat] by (simp add: bit_unat)
qed

lemma and_top_bit_32: "w AND lockSet32 \<noteq> 0 \<longleftrightarrow> 2 ^ 31 \<le> unat w"
proof -
  have "w AND lockSet32 \<noteq> 0 \<longleftrightarrow> bit w 31"
    unfolding lockSet32_def using and_exp_eq_0_iff_not_bit [of w 31] by (simp add: push_bit_eq_mult)
  then show ?thesis
    using odd_div_top [of "unat w" 31] unsigned_less [of w, where ?'a = nat] by (simp add: bit_unat)
qed

lemma mask_below: "unat w < 2 ^ n \<Longrightarrow> w AND mask n = w"
  for w :: "'a::len word"
  by (simp add: word_unat_eq_iff unat_and_mask)

lemma get_lock_64: "unat w < 2 ^ 63 \<Longrightarrow> Lock_get_lock w = w + lockSet"
proof -
  assume w: "unat w < 2 ^ 63"
  have "lockMask = mask 63" by (simp add: lockMask_def mask_eq_exp_minus_1 push_bit_eq_mult)
  moreover have "w AND lockSet = 0" using w and_top_bit_64 [of w] by simp
  ultimately show ?thesis
    using w unfolding Lock_get_lock_def by (metis mask_below disjunctive_add_eq_or)
qed

lemma get_lock_32: "unat w < 2 ^ 31 \<Longrightarrow> Lock32_get_lock w = w + lockSet32"
proof -
  assume w: "unat w < 2 ^ 31"
  have "lockMask32 = mask 31" by (simp add: lockMask32_def mask_eq_exp_minus_1 push_bit_eq_mult)
  moreover have "w AND lockSet32 = 0" using w and_top_bit_32 [of w] by simp
  ultimately show ?thesis
    using w unfolding Lock32_get_lock_def by (metis mask_below disjunctive_add_eq_or)
qed

definition enc64 :: "nat \<Rightarrow> bool \<Rightarrow> u64" where
  "enc64 n h = of_nat n + (if h then lockSet else 0)"

definition enc32 :: "nat \<Rightarrow> bool \<Rightarrow> u32" where
  "enc32 n h = of_nat n + (if h then lockSet32 else 0)"

lemma unat_enc64: "n < 2 ^ 63 \<Longrightarrow> unat (enc64 n h) = n + (if h then 2 ^ 63 else 0)"
  by (simp add: enc64_def lockSet_def unat_word_ariths unat_of_nat push_bit_eq_mult)

lemma unat_enc32: "n < 2 ^ 31 \<Longrightarrow> unat (enc32 n h) = n + (if h then 2 ^ 31 else 0)"
  by (simp add: enc32_def lockSet32_def unat_word_ariths unat_of_nat push_bit_eq_mult)

lemma enc64_inj: "n < 2 ^ 63 \<Longrightarrow> m < 2 ^ 63 \<Longrightarrow> enc64 n h = enc64 m g \<Longrightarrow> n = m \<and> h = g"
  by (drule arg_cong [of _ _ unat], cases h; cases g; simp only: unat_enc64 if_True if_False)
    linarith+

lemma enc32_inj: "n < 2 ^ 31 \<Longrightarrow> m < 2 ^ 31 \<Longrightarrow> enc32 n h = enc32 m g \<Longrightarrow> n = m \<and> h = g"
  by (drule arg_cong [of _ _ unat], cases h; cases g; simp only: unat_enc32 if_True if_False)
    linarith+

interpretation lock64: version_lock Lock_test_lock_set Lock_get_lock Lock_release_lock enc64 "2 ^ 63"
proof
  fix n h assume "n < (2::nat) ^ 63"
  then show "Lock_test_lock_set (enc64 n h) \<longleftrightarrow> h"
    by (simp add: Lock_test_lock_set_def and_top_bit_64 unat_enc64)
next
  fix n assume "n < (2::nat) ^ 63"
  then show "Lock_get_lock (enc64 n False) = enc64 n True"
    by (simp add: get_lock_64 unat_enc64) (simp add: enc64_def)
next
  fix n
  show "Lock_release_lock (enc64 n True) = enc64 (Suc n) False"
    by (simp add: Lock_release_lock_def enc64_def)
qed (rule enc64_inj)

interpretation lock32: version_lock Lock32_test_lock_set Lock32_get_lock Lock32_release_lock enc32 "2 ^ 31"
proof
  fix n h assume "n < (2::nat) ^ 31"
  then show "Lock32_test_lock_set (enc32 n h) \<longleftrightarrow> h"
    by (simp add: Lock32_test_lock_set_def and_top_bit_32 unat_enc32)
next
  fix n assume "n < (2::nat) ^ 31"
  then show "Lock32_get_lock (enc32 n False) = enc32 n True"
    by (simp add: get_lock_32 unat_enc32) (simp add: enc32_def)
next
  fix n
  show "Lock32_release_lock (enc32 n True) = enc32 (Suc n) False"
    by (simp add: Lock32_release_lock_def enc32_def)
qed (rule enc32_inj)

section \<open>Properties of Lock and Lock32\<close>

lemma Lock_try_get_lock_success:
  "Lock_try_get_lock v w = (True, w') \<Longrightarrow> w = v \<and> w' = Lock_get_lock v \<and> \<not> Lock_test_lock_set v"
proof -
  assume a: "Lock_try_get_lock v w = (True, w')"
  then have v: "v AND lockSet = 0" by (auto simp: Lock_try_get_lock_def split: if_splits)
  then have "unat v < 2 ^ 63" using and_top_bit_64 [of v] by simp
  then have "v AND lockMask = v"
    using mask_below [of v 63] by (simp add: lockMask_def mask_eq_exp_minus_1 push_bit_eq_mult)
  with a v show ?thesis
    by (auto simp: Lock_try_get_lock_def CAS_def Lock_get_lock_def Lock_test_lock_set_def split: if_splits)
qed

section \<open>The OptLock machine\<close>

text \<open>
  The node lock adds the IO bit (one thread is fetching a child) and the obsolete bit (the
  node has been replaced) to the write lock.  The machine interleaves writers
  (\<open>writeLockOrRestart\<close>, \<open>upgradeToWriteLockOrRestart\<close> from a version read before), IO
  lockers (\<open>IOLockOrRestart\<close>, \<open>upgradeToIOLockOrRestart\<close>, the two-step
  \<open>IOUpgradeToWriteLockOrRestart\<close>) and optimistic readers.
\<close>

datatype opt_pc =
    OIdle
  | WLoaded u64
  | ILoaded u64
  | WHeld
  | IHeld
  | IUpgrading u64
  | OReading u64 nat nat

datatype opt_mode = Free | Wr | Io | Obs

record opt_sys =
  olock :: u64
  opcs :: "nat \<Rightarrow> opt_pc"
  owrites :: nat
  oreleases :: nat

abbreviation set_opc :: "opt_sys \<Rightarrow> nat \<Rightarrow> opt_pc \<Rightarrow> opt_sys" where
  "set_opc s t p \<equiv> s\<lparr>opcs := (opcs s)(t := p)\<rparr>"

inductive opt_step :: "opt_sys \<Rightarrow> opt_sys \<Rightarrow> bool" where
  write_load: "opcs s t = OIdle \<Longrightarrow> olock s AND 0b111 = 0 \<Longrightarrow>
    opt_step s (set_opc s t (WLoaded (olock s)))"
| write_upgrade: "opcs s t = OReading v w r \<Longrightarrow> \<not> isIO v \<Longrightarrow>
    opt_step s (set_opc s t (WLoaded v))"
| write_cas: "opcs s t = WLoaded v \<Longrightarrow> upgradeToWriteLockOrRestart v False (olock s) = (v', restart, l) \<Longrightarrow>
    opt_step s ((set_opc s t (if restart then OIdle else WHeld))\<lparr>olock := l\<rparr>)"
| io_load: "opcs s t = OIdle \<Longrightarrow> olock s AND 0b111 = 0 \<Longrightarrow>
    opt_step s (set_opc s t (ILoaded (olock s)))"
| io_upgrade: "opcs s t = OReading v w r \<Longrightarrow> \<not> isIO v \<Longrightarrow>
    opt_step s (set_opc s t (ILoaded v))"
| io_cas: "opcs s t = ILoaded v \<Longrightarrow> upgradeToIOLockOrRestart v False (olock s) = (v', restart, l) \<Longrightarrow>
    opt_step s ((set_opc s t (if restart then OIdle else IHeld))\<lparr>olock := l\<rparr>)"
| io_unlock: "opcs s t = IHeld \<Longrightarrow>
    opt_step s ((set_opc s t OIdle)\<lparr>olock := IOUnlock (olock s)\<rparr>)"
| io_to_write_load: "opcs s t = IHeld \<Longrightarrow> opt_step s (set_opc s t (IUpgrading (olock s)))"
| io_to_write_store: "opcs s t = IUpgrading v \<Longrightarrow> IOUpgradeToWriteLockOrRestart v False = (restart, l) \<Longrightarrow>
    opt_step s ((set_opc s t (if restart then IHeld else WHeld))\<lparr>olock := (if restart then olock s else l)\<rparr>)"
| modify: "opcs s t = WHeld \<Longrightarrow> opt_step s (s\<lparr>owrites := Suc (owrites s)\<rparr>)"
| write_unlock: "opcs s t = WHeld \<Longrightarrow>
    opt_step s ((set_opc s t OIdle)\<lparr>olock := writeUnlock (olock s), oreleases := Suc (oreleases s)\<rparr>)"
| write_unlock_obsolete: "opcs s t = WHeld \<Longrightarrow>
    opt_step s ((set_opc s t OIdle)\<lparr>olock := writeUnlockObsolete (olock s), oreleases := Suc (oreleases s)\<rparr>)"
| read_lock: "opcs s t = OIdle \<Longrightarrow> readLockOrRestart (olock s) False = (v, False) \<Longrightarrow>
    opt_step s (set_opc s t (OReading v (owrites s) (oreleases s)))"
| read_done: "opcs s t = OReading v w r \<Longrightarrow> opt_step s (set_opc s t OIdle)"

text \<open>The constructor stores \<open>0b1000\<close>.\<close>

definition opt_init :: opt_sys where
  "opt_init = \<lparr>olock = 0b1000, opcs = (\<lambda>_. OIdle), owrites = 0, oreleases = 0\<rparr>"

fun mode_code :: "opt_mode \<Rightarrow> nat" where
  "mode_code Free = 0" | "mode_code Wr = 4" | "mode_code Io = 1" | "mode_code Obs = 2"

definition opt_enc :: "nat \<Rightarrow> opt_mode \<Rightarrow> u64" where
  "opt_enc n m = of_nat (8 * Suc n + mode_code m)"

abbreviation opt_bound :: nat where
  "opt_bound \<equiv> 2 ^ 60"

lemma mode_code_less: "mode_code m < 8"
  by (cases m) simp_all

lemma mode_code_inj: "mode_code m = mode_code m' \<longleftrightarrow> m = m'"
  by (cases m; cases m') simp_all

lemma unat_opt_enc: "n < opt_bound \<Longrightarrow> unat (opt_enc n m) = 8 * Suc n + mode_code m"
  using mode_code_less [of m] unfolding opt_enc_def unat_of_nat by (intro mod_less) simp

lemma opt_enc_inj:
  assumes "n < opt_bound" "n' < opt_bound" "opt_enc n m = opt_enc n' m'"
  shows "n = n' \<and> m = m'"
proof -
  have "8 * Suc n + mode_code m = 8 * Suc n' + mode_code m'"
    using assms unat_opt_enc by metis
  then have "n = n'" "mode_code m = mode_code m'"
    using mode_code_less [of m] mode_code_less [of m'] by presburger+
  then show ?thesis by (simp add: mode_code_inj)
qed

lemma opt_enc_low: "n < opt_bound \<Longrightarrow> opt_enc n m AND 0b111 = of_nat (mode_code m)"
proof -
  assume "n < opt_bound"
  have eight: "(2::nat) ^ 3 = 8" by simp
  have "unat (opt_enc n m AND mask 3) = mode_code m"
    unfolding unat_and_mask unat_opt_enc [OF \<open>n < opt_bound\<close>] eight
    using mode_code_less [of m] by presburger
  moreover have "(mask 3 :: u64) = 0b111" by (simp add: mask_eq_exp_minus_1)
  ultimately show ?thesis
    using mode_code_less [of m] by (simp add: word_unat_eq_iff unat_of_nat)
qed

lemma opt_enc_bits:
  assumes "n < opt_bound"
  shows "isLocked (opt_enc n m) \<longleftrightarrow> m = Wr" "isObsolete (opt_enc n m) \<longleftrightarrow> m = Obs"
    "isIO (opt_enc n m) \<longleftrightarrow> m = Io" "opt_enc n m AND 0b111 = 0 \<longleftrightarrow> m = Free"
proof -
  have "w AND 0b100 = (w AND 0b111) AND 0b100" "w AND 0b10 = (w AND 0b111) AND 0b10"
    "w AND 1 = (w AND 0b111) AND 1" for w :: u64
    by (simp_all add: and.assoc)
  note * = this [of "opt_enc n m", unfolded opt_enc_low [OF assms]]
  show "isLocked (opt_enc n m) \<longleftrightarrow> m = Wr" unfolding isLocked_def * by (cases m) simp_all
  show "isObsolete (opt_enc n m) \<longleftrightarrow> m = Obs" unfolding isObsolete_def * by (cases m) simp_all
  show "isIO (opt_enc n m) \<longleftrightarrow> m = Io" unfolding isIO_def * by (cases m) simp_all
  show "opt_enc n m AND 0b111 = 0 \<longleftrightarrow> m = Free" unfolding opt_enc_low [OF assms] by (cases m) simp_all
qed

lemma opt_enc_moves:
  "opt_enc n Free + 0b100 = opt_enc n Wr" "opt_enc n Free + 1 = opt_enc n Io"
  "IOUnlock (opt_enc n Io) = opt_enc n Free" "opt_enc n Io - 1 + 0b100 = opt_enc n Wr"
  "writeUnlock (opt_enc n Wr) = opt_enc (Suc n) Free"
  "writeUnlockObsolete (opt_enc n Wr) = opt_enc (Suc n) Obs"
  by (simp_all add: opt_enc_def IOUnlock_def writeUnlock_def writeUnlockObsolete_def)

definition oholds :: "opt_pc \<Rightarrow> bool" where
  "oholds p \<longleftrightarrow> p = WHeld \<or> p = IHeld \<or> (\<exists>v. p = IUpgrading v)"

definition iholds :: "opt_pc \<Rightarrow> bool" where
  "iholds p \<longleftrightarrow> p = IHeld \<or> (\<exists>v. p = IUpgrading v)"

definition pc_inv :: "opt_sys \<Rightarrow> opt_pc \<Rightarrow> bool" where
  "pc_inv s p \<longleftrightarrow> (case p of
       IUpgrading v \<Rightarrow> v = opt_enc (oreleases s) Io
     | WLoaded v \<Rightarrow> (\<exists>n \<le> oreleases s. v = opt_enc n Free)
     | ILoaded v \<Rightarrow> (\<exists>n \<le> oreleases s. v = opt_enc n Free)
     | OReading v w r \<Rightarrow> r \<le> oreleases s \<and> (v = opt_enc r Free \<or> v = opt_enc r Io) \<and>
         (oreleases s = r \<longrightarrow> (\<forall>u. opcs s u \<noteq> WHeld) \<longrightarrow> owrites s = w)
     | _ \<Rightarrow> True)"

definition opt_inv :: "opt_sys \<Rightarrow> opt_mode \<Rightarrow> bool" where
  "opt_inv s m \<longleftrightarrow>
     olock s = opt_enc (oreleases s) m \<and>
     (m = Wr \<longleftrightarrow> (\<exists>t. opcs s t = WHeld)) \<and>
     (m = Io \<longleftrightarrow> (\<exists>t. iholds (opcs s t))) \<and>
     (\<forall>t u. oholds (opcs s t) \<longrightarrow> oholds (opcs s u) \<longrightarrow> t = u) \<and>
     (\<forall>t. pc_inv s (opcs s t))"

lemma holds_simps [simp]:
  "oholds WHeld" "oholds IHeld" "oholds (IUpgrading v)"
  "\<not> oholds OIdle" "\<not> oholds (WLoaded v)" "\<not> oholds (ILoaded v)" "\<not> oholds (OReading v w r)"
  "\<not> iholds WHeld" "iholds IHeld" "iholds (IUpgrading v)"
  "\<not> iholds OIdle" "\<not> iholds (WLoaded v)" "\<not> iholds (ILoaded v)" "\<not> iholds (OReading v w r)"
  by (simp_all add: oholds_def iholds_def)

lemma oholds_iff: "oholds p \<longleftrightarrow> p = WHeld \<or> iholds p"
  by (auto simp: oholds_def iholds_def)

text \<open>A step of one thread that changes neither the word nor what it holds.\<close>

lemma opt_inv_move:
  assumes inv: "opt_inv s m" and p: "p = WHeld \<longleftrightarrow> opcs s t = WHeld" "iholds p = iholds (opcs s t)"
    and pc: "pc_inv s p"
  shows "opt_inv (set_opc s t p) m"
proof -
  have W: "opcs (set_opc s t p) u = WHeld \<longleftrightarrow> opcs s u = WHeld" for u using p(1) by auto
  have I: "iholds (opcs (set_opc s t p) u) = iholds (opcs s u)" for u using p(2) by auto
  have "pc_inv (set_opc s t p) q \<longleftrightarrow> pc_inv s q" for q
    unfolding pc_inv_def W by (cases q) simp_all
  then have "pc_inv (set_opc s t p) (opcs (set_opc s t p) u)" for u
    using inv pc unfolding opt_inv_def by simp
  then show ?thesis
    using inv unfolding opt_inv_def oholds_iff W I by simp
qed

text \<open>A step of the only holder (or of a thread when nobody holds) that installs a new word.\<close>

lemma opt_inv_change:
  assumes inv: "opt_inv s m" and alone: "\<And>u. u \<noteq> t \<Longrightarrow> \<not> oholds (opcs s u)"
    and s': "s' = s\<lparr>opcs := (opcs s)(t := p), olock := opt_enc n' m', oreleases := n'\<rparr>"
    and n': "n' = oreleases s \<and> (p = WHeld \<or> m \<noteq> Wr) \<or> n' = Suc (oreleases s)"
    and p: "p = OIdle \<or> p = WHeld \<or> p = IHeld" "m' = Wr \<longleftrightarrow> p = WHeld" "m' = Io \<longleftrightarrow> p = IHeld"
  shows "opt_inv s' m'"
proof -
  have old: "\<not> iholds (opcs s u)" "opcs s u \<noteq> WHeld" if "u \<noteq> t" for u
    using alone [OF that] by (auto simp: oholds_iff)
  have "pc_inv s' (opcs s' u)" for u
  proof (cases "u = t")
    case True
    then show ?thesis using p(1) by (auto simp: s' pc_inv_def)
  next
    case False
    have pu: "pc_inv s (opcs s u)" using inv by (simp add: opt_inv_def)
    have nw: "m \<noteq> Wr \<Longrightarrow> opcs s x \<noteq> WHeld" for x using inv by (auto simp: opt_inv_def)
    have hw: "p = WHeld \<Longrightarrow> \<not> (\<forall>x. opcs s' x \<noteq> WHeld)" by (auto simp: s')
    have le: "oreleases s \<le> n'" "oreleases s = n' \<or> oreleases s < n'" using n' by auto
    have ou: "opcs s' u = opcs s u" using False by (simp add: s')
    show ?thesis
    proof (cases "opcs s u")
      case (OReading v w r)
      have "owrites s' = w" if "n' = r" "\<forall>x. opcs s' x \<noteq> WHeld"
      proof -
        have "r \<le> oreleases s" using pu OReading by (simp add: pc_inv_def)
        with that n' hw nw have "n' = oreleases s" "\<forall>x. opcs s x \<noteq> WHeld" by auto
        then show ?thesis using pu OReading that by (simp add: pc_inv_def s')
      qed
      then show ?thesis
        using pu OReading le(1) unfolding ou by (auto simp: pc_inv_def s')
    next
      case (WLoaded v)
      then show ?thesis
        using pu le(1) unfolding ou by (auto simp: pc_inv_def s' intro: order_trans)
    next
      case (ILoaded v)
      then show ?thesis
        using pu le(1) unfolding ou by (auto simp: pc_inv_def s' intro: order_trans)
    qed (use old [OF False] in \<open>simp_all add: ou pc_inv_def\<close>)
  qed
  moreover have W: "opcs s' u = WHeld \<longleftrightarrow> u = t \<and> p = WHeld" for u
    using old(2) by (auto simp: s')
  moreover have I: "iholds (opcs s' u) \<longleftrightarrow> u = t \<and> p = IHeld" for u
    using old(1) p(1) by (auto simp: s')
  moreover have "olock s' = opt_enc (oreleases s') m'" by (simp add: s')
  ultimately show ?thesis using p(2,3) unfolding opt_inv_def oholds_iff W I by simp
qed

lemma opt_inv_alone:
  assumes "opt_inv s m" "oholds (opcs s t)" "u \<noteq> t"
  shows "\<not> oholds (opcs s u)"
  using assms by (auto simp: opt_inv_def)

lemma opt_inv_free: "opt_inv s m \<Longrightarrow> m = Free \<or> m = Obs \<Longrightarrow> \<not> oholds (opcs s u)"
  by (auto simp: opt_inv_def oholds_iff)

lemma opt_inv_pc: "opt_inv s m \<Longrightarrow> opcs s t = p \<Longrightarrow> pc_inv s p"
  by (auto simp: opt_inv_def)

lemma opt_inv_lock: "opt_inv s m \<Longrightarrow> olock s = opt_enc (oreleases s) m"
  by (simp add: opt_inv_def)

lemma opt_step_releases_mono: "opt_step s s' \<Longrightarrow> oreleases s \<le> oreleases s'"
  by (induction rule: opt_step.induct) simp_all

lemma opt_cas_fails:
  "\<lbrakk>opt_inv s m; oreleases s < opt_bound; n \<le> oreleases s; opt_enc n Free = olock s\<rbrakk> \<Longrightarrow>
   m = Free \<and> n = oreleases s"
  using opt_enc_inj [of n "oreleases s" Free m] opt_inv_lock [of s m] by simp

lemma opt_inv_write_cas:
  assumes inv: "opt_inv s m" and b: "oreleases s < opt_bound" and pc: "opcs s t = WLoaded v"
    and up: "upgradeToWriteLockOrRestart v False (olock s) = (v', restart, l)"
  shows "\<exists>m'. opt_inv ((set_opc s t (if restart then OIdle else WHeld))\<lparr>olock := l\<rparr>) m' \<and> (m = Obs \<longrightarrow> m' = Obs)"
proof -
  obtain n where n: "n \<le> oreleases s" "v = opt_enc n Free"
    using opt_inv_pc [OF inv pc] by (auto simp: pc_inv_def)
  show ?thesis
  proof (cases "olock s = v")
    case True
    then have f: "m = Free" "n = oreleases s" using opt_cas_fails [OF inv b n(1)] n(2) by auto
    have "\<not> isIO v" using n f b by (simp add: opt_enc_bits)
    then have l: "\<not> restart" "l = opt_enc (oreleases s) Wr"
      using up True n f by (auto simp: upgradeToWriteLockOrRestart_def CAS_def opt_enc_moves)
    have "opt_inv ((set_opc s t WHeld)\<lparr>olock := l\<rparr>) Wr"
      by (rule opt_inv_change [OF inv, where t = t and p = WHeld and n' = "oreleases s"])
        (use f l opt_inv_free [OF inv] in auto)
    with l f show ?thesis by auto
  next
    case False
    then have "restart" "l = olock s"
      using up by (auto simp: upgradeToWriteLockOrRestart_def CAS_def split: if_splits)
    moreover have "opt_inv (set_opc s t OIdle) m"
      by (rule opt_inv_move [OF inv]) (simp_all add: pc pc_inv_def)
    ultimately show ?thesis by (intro exI [of _ m]) simp
  qed
qed

lemma opt_inv_io_cas:
  assumes inv: "opt_inv s m" and b: "oreleases s < opt_bound" and pc: "opcs s t = ILoaded v"
    and up: "upgradeToIOLockOrRestart v False (olock s) = (v', restart, l)"
  shows "\<exists>m'. opt_inv ((set_opc s t (if restart then OIdle else IHeld))\<lparr>olock := l\<rparr>) m' \<and> (m = Obs \<longrightarrow> m' = Obs)"
proof -
  obtain n where n: "n \<le> oreleases s" "v = opt_enc n Free"
    using opt_inv_pc [OF inv pc] by (auto simp: pc_inv_def)
  show ?thesis
  proof (cases "olock s = v")
    case True
    then have f: "m = Free" "n = oreleases s" using opt_cas_fails [OF inv b n(1)] n(2) by auto
    have "\<not> isIO v" using n f b by (simp add: opt_enc_bits)
    then have l: "\<not> restart" "l = opt_enc (oreleases s) Io"
      using up True n f by (auto simp: upgradeToIOLockOrRestart_def CAS_def opt_enc_moves)
    have "opt_inv ((set_opc s t IHeld)\<lparr>olock := l\<rparr>) Io"
      by (rule opt_inv_change [OF inv, where t = t and p = IHeld and n' = "oreleases s"])
        (use f l opt_inv_free [OF inv] in auto)
    with l f show ?thesis by auto
  next
    case False
    then have "restart" "l = olock s"
      using up by (auto simp: upgradeToIOLockOrRestart_def CAS_def split: if_splits)
    moreover have "opt_inv (set_opc s t OIdle) m"
      by (rule opt_inv_move [OF inv]) (simp_all add: pc pc_inv_def)
    ultimately show ?thesis by (intro exI [of _ m]) simp
  qed
qed

lemma opt_inv_io_to_write:
  assumes inv: "opt_inv s m" and b: "oreleases s < opt_bound" and pc: "opcs s t = IUpgrading v"
    and up: "IOUpgradeToWriteLockOrRestart v False = (restart, l)"
  shows "\<exists>m'. opt_inv ((set_opc s t (if restart then IHeld else WHeld))
      \<lparr>olock := (if restart then olock s else l)\<rparr>) m' \<and> (m = Obs \<longrightarrow> m' = Obs)"
proof -
  have v: "v = opt_enc (oreleases s) Io" using opt_inv_pc [OF inv pc] by (simp add: pc_inv_def)
  have m: "m = Io" using inv pc unfolding opt_inv_def by (metis holds_simps(10))
  have l: "\<not> restart" "l = opt_enc (oreleases s) Wr"
    using up v b by (auto simp: IOUpgradeToWriteLockOrRestart_def opt_enc_bits opt_enc_moves)
  have "opt_inv ((set_opc s t WHeld)\<lparr>olock := l\<rparr>) Wr"
    by (rule opt_inv_change [OF inv, where t = t and p = WHeld and n' = "oreleases s"])
      (use l pc opt_inv_alone [OF inv, of t] in auto)
  with l m show ?thesis by auto
qed

lemma opt_inv_unlock:
  assumes inv: "opt_inv s m" and pc: "opcs s t = WHeld"
  shows "opt_inv ((set_opc s t OIdle)\<lparr>olock := writeUnlock (olock s), oreleases := Suc (oreleases s)\<rparr>) Free"
    and "opt_inv ((set_opc s t OIdle)\<lparr>olock := writeUnlockObsolete (olock s), oreleases := Suc (oreleases s)\<rparr>) Obs"
    and "m = Wr"
proof -
  show m: "m = Wr" using inv pc unfolding opt_inv_def by metis
  have lock: "olock s = opt_enc (oreleases s) Wr" using opt_inv_lock [OF inv] m by simp
  show "opt_inv ((set_opc s t OIdle)\<lparr>olock := writeUnlock (olock s), oreleases := Suc (oreleases s)\<rparr>) Free"
    by (rule opt_inv_change [OF inv, where t = t and p = OIdle and n' = "Suc (oreleases s)"])
      (use lock pc opt_inv_alone [OF inv, of t] in \<open>auto simp: opt_enc_moves\<close>)
  show "opt_inv ((set_opc s t OIdle)\<lparr>olock := writeUnlockObsolete (olock s), oreleases := Suc (oreleases s)\<rparr>) Obs"
    by (rule opt_inv_change [OF inv, where t = t and p = OIdle and n' = "Suc (oreleases s)"])
      (use lock pc opt_inv_alone [OF inv, of t] in \<open>auto simp: opt_enc_moves\<close>)
qed

lemma opt_inv_io_unlock:
  assumes inv: "opt_inv s m" and pc: "opcs s t = IHeld"
  shows "opt_inv ((set_opc s t OIdle)\<lparr>olock := IOUnlock (olock s)\<rparr>) Free" and "m = Io"
proof -
  show m: "m = Io" using inv pc unfolding opt_inv_def by (metis holds_simps(9))
  have lock: "olock s = opt_enc (oreleases s) Io" using opt_inv_lock [OF inv] m by simp
  show "opt_inv ((set_opc s t OIdle)\<lparr>olock := IOUnlock (olock s)\<rparr>) Free"
    by (rule opt_inv_change [OF inv, where t = t and p = OIdle and n' = "oreleases s"])
      (use lock pc m opt_inv_alone [OF inv, of t] in \<open>auto simp: opt_enc_moves\<close>)
qed

lemma opt_inv_modify:
  assumes inv: "opt_inv s m" and pc: "opcs s t = WHeld"
  shows "opt_inv (s\<lparr>owrites := Suc (owrites s)\<rparr>) m"
proof -
  have "pc_inv (s\<lparr>owrites := Suc (owrites s)\<rparr>) q" if "pc_inv s q" for q
    using that pc by (cases q) (auto simp: pc_inv_def)
  then show ?thesis using inv by (simp add: opt_inv_def)
qed

lemma opt_inv_step:
  assumes "opt_step s s'" "opt_inv s m" "oreleases s' < opt_bound"
  shows "\<exists>m'. opt_inv s' m' \<and> (m = Obs \<longrightarrow> m' = Obs)"
  using assms
proof (induction rule: opt_step.induct)
  case (write_cas s t v v' restart l)
  then show ?case by (intro opt_inv_write_cas) simp_all
next
  case (io_cas s t v v' restart l)
  then show ?case by (intro opt_inv_io_cas) simp_all
next
  case (io_to_write_store s t v restart l)
  then show ?case by (intro opt_inv_io_to_write) simp_all
next
  case (io_unlock s t)
  then show ?case using opt_inv_io_unlock by blast
next
  case (modify s t)
  then show ?case using opt_inv_modify by blast
next
  case (write_unlock s t)
  then show ?case using opt_inv_unlock(1,3) by blast
next
  case (write_unlock_obsolete s t)
  then show ?case using opt_inv_unlock(2,3) by blast
next
  case (write_load s t)
  then have "m = Free" using opt_inv_lock [of s m] by (simp add: opt_enc_bits)
  then have "opt_inv (set_opc s t (WLoaded (olock s))) m"
    using write_load opt_inv_lock [of s m] by (intro opt_inv_move) (auto simp: pc_inv_def)
  then show ?case by blast
next
  case (io_load s t)
  then have "m = Free" using opt_inv_lock [of s m] by (simp add: opt_enc_bits)
  then have "opt_inv (set_opc s t (ILoaded (olock s))) m"
    using io_load opt_inv_lock [of s m] by (intro opt_inv_move) (auto simp: pc_inv_def)
  then show ?case by blast
next
  case (write_upgrade s t v w r)
  then have "pc_inv s (WLoaded v)"
    using opt_inv_pc [of s m t] by (auto simp: pc_inv_def opt_enc_bits)
  then have "opt_inv (set_opc s t (WLoaded v)) m"
    using write_upgrade by (intro opt_inv_move) simp_all
  then show ?case by blast
next
  case (io_upgrade s t v w r)
  then have "pc_inv s (ILoaded v)"
    using opt_inv_pc [of s m t] by (auto simp: pc_inv_def opt_enc_bits)
  then have "opt_inv (set_opc s t (ILoaded v)) m"
    using io_upgrade by (intro opt_inv_move) simp_all
  then show ?case by blast
next
  case (io_to_write_load s t)
  then have "pc_inv s (IUpgrading (olock s))"
    using opt_inv_io_unlock(2) opt_inv_lock [of s m] by (auto simp: pc_inv_def)
  then have "opt_inv (set_opc s t (IUpgrading (olock s))) m"
    using io_to_write_load by (intro opt_inv_move) simp_all
  then show ?case by blast
next
  case (read_lock s t v)
  then have v: "v = olock s" "m \<noteq> Wr" "m \<noteq> Obs"
    using opt_inv_lock [of s m] by (auto simp: readLockOrRestart_def opt_enc_bits split: if_splits)
  then have "pc_inv s (OReading v (owrites s) (oreleases s))"
    using opt_inv_lock [of s m] read_lock by (cases m) (auto simp: pc_inv_def)
  then have "opt_inv (set_opc s t (OReading v (owrites s) (oreleases s))) m"
    using read_lock by (intro opt_inv_move) simp_all
  then show ?case by blast
next
  case (read_done s t v w r)
  then have "opt_inv (set_opc s t OIdle) m" by (intro opt_inv_move) (auto simp: pc_inv_def)
  then show ?case by blast
qed

lemma opt_inv_init: "opt_inv opt_init Free"
  by (simp add: opt_inv_def opt_init_def pc_inv_def opt_enc_def)

lemma opt_inv_reachable:
  assumes "opt_step\<^sup>*\<^sup>* opt_init s" "oreleases s < opt_bound"
  shows "\<exists>m. opt_inv s m"
  using assms
proof (induction rule: rtranclp_induct)
  case base
  show ?case using opt_inv_init by blast
next
  case (step s s')
  then have "oreleases s < opt_bound" using opt_step_releases_mono le_less_trans by blast
  with step show ?case using opt_inv_step by blast
qed

lemma opt_enc_or_one:
  assumes "n < opt_bound"
  shows "opt_enc n m OR 1 = (case m of Io \<Rightarrow> opt_enc n Io | _ \<Rightarrow> opt_enc n m + 1)"
proof -
  have "even (opt_enc n m) \<longleftrightarrow> m \<noteq> Io"
    using opt_enc_bits(3) [OF assms, of m]
    unfolding isIO_def and_one_eq odd_iff_mod_2_eq_one [symmetric] by blast
  then show ?thesis by (cases m) (simp_all add: or_one_eq)
qed

lemma opt_validate:
  assumes "n < opt_bound" "r < opt_bound" "k = Free \<or> k = Io"
    and "\<not> readUnlockOrRestart (opt_enc r k) (opt_enc n m)"
  shows "n = r \<and> (m = Free \<or> m = Io)"
proof -
  have "opt_enc r k OR 1 = opt_enc r Io"
    using assms(2,3) opt_enc_or_one opt_enc_moves(2) by (auto simp: opt_enc_or_one)
  moreover have "unat (opt_enc n m OR 1) = 8 * Suc n + (if m = Io then 1 else mode_code m + 1)"
  proof (cases m)
    case Io
    then show ?thesis using assms(1) by (simp add: opt_enc_or_one unat_opt_enc)
  qed (use assms(1) in \<open>simp_all add: opt_enc_or_one unat_Suc_lt unat_opt_enc\<close>)
  ultimately have "8 * Suc n + (if m = Io then 1 else mode_code m + 1) = 8 * Suc r + 1"
    using assms(2,4) unat_opt_enc [of r Io] unfolding readUnlockOrRestart_def by (metis mode_code.simps(3))
  then show ?thesis by (cases m) (simp_all, presburger+)
qed

text \<open>An obsolete node stays obsolete: no later step changes its lock word.\<close>

lemma opt_obsolete_frozen:
  assumes "opt_step s s'" "opt_inv s Obs" "oreleases s' < opt_bound"
  shows "opt_inv s' Obs \<and> olock s' = olock s \<and> owrites s' = owrites s"
proof -
  have inv': "opt_inv s' Obs" using opt_inv_step [OF assms] by blast
  have free: "\<not> oholds (opcs s u)" for u using opt_inv_free [OF assms(2)] by blast
  have "oreleases s' = oreleases s \<and> owrites s' = owrites s"
    using assms(1) free by (induction rule: opt_step.induct) (auto simp: oholds_def)
  then show ?thesis using inv' opt_inv_lock [OF assms(2)] opt_inv_lock [OF inv'] by simp
qed

section \<open>The reader-writer lock\<close>

definition UNLOCKED :: u16 where "UNLOCKED = 0"

definition LOCKED :: u16 where "LOCKED = 1"

text \<open>
  The operations on a loaded value \<open>v\<close> and the current word \<open>l\<close>; the loops of \<open>rLock\<close>,
  \<open>wLock\<close> and \<open>rUnlock\<close> repeat the load and the swap until it succeeds.
\<close>

definition wr_is_unlock :: "u16 \<Rightarrow> bool" where
  "wr_is_unlock l \<longleftrightarrow> l = UNLOCKED"

definition wr_try_wLock :: "u16 \<Rightarrow> u16 \<Rightarrow> bool \<times> u16" where
  "wr_try_wLock v l = (if v \<noteq> UNLOCKED then (False, l) else CAS l UNLOCKED LOCKED)"

definition wr_rLock_attempt :: "u16 \<Rightarrow> u16 \<Rightarrow> bool \<times> u16" where
  "wr_rLock_attempt v l = (if v = LOCKED then (False, l) else CAS l v (v + 2))"

definition wr_rUnlock_attempt :: "u16 \<Rightarrow> u16 \<Rightarrow> bool \<times> u16" where
  "wr_rUnlock_attempt v l = CAS l v (v - 2)"

definition wr_wUnlock :: "u16 \<Rightarrow> u16" where
  "wr_wUnlock l = UNLOCKED"

datatype wr_pc = WrIdle | WrWLoaded u16 | WrWriter | WrRLoaded u16 | WrReader | WrRReleasing u16

record wr_sys =
  wr_word :: u16
  wr_pcs :: "nat \<Rightarrow> wr_pc"

definition wr_reads :: "wr_pc \<Rightarrow> bool" where
  "wr_reads p \<longleftrightarrow> (case p of WrReader \<Rightarrow> True | WrRReleasing _ \<Rightarrow> True | _ \<Rightarrow> False)"

abbreviation set_wr :: "wr_sys \<Rightarrow> nat \<Rightarrow> wr_pc \<Rightarrow> wr_sys" where
  "set_wr s t p \<equiv> s\<lparr>wr_pcs := (wr_pcs s)(t := p)\<rparr>"

text \<open>\<open>N\<close> threads share the lock.\<close>

inductive wr_step :: "nat \<Rightarrow> wr_sys \<Rightarrow> wr_sys \<Rightarrow> bool" for N :: nat where
  w_load: "t < N \<Longrightarrow> wr_pcs s t = WrIdle \<Longrightarrow> wr_step N s (set_wr s t (WrWLoaded (wr_word s)))"
| w_swap: "t < N \<Longrightarrow> wr_pcs s t = WrWLoaded v \<Longrightarrow> wr_try_wLock v (wr_word s) = (ok, l) \<Longrightarrow>
    wr_step N s ((set_wr s t (if ok then WrWriter else WrIdle))\<lparr>wr_word := l\<rparr>)"
| w_unlock: "t < N \<Longrightarrow> wr_pcs s t = WrWriter \<Longrightarrow>
    wr_step N s ((set_wr s t WrIdle)\<lparr>wr_word := wr_wUnlock (wr_word s)\<rparr>)"
| r_load: "t < N \<Longrightarrow> wr_pcs s t = WrIdle \<Longrightarrow> wr_step N s (set_wr s t (WrRLoaded (wr_word s)))"
| r_swap: "t < N \<Longrightarrow> wr_pcs s t = WrRLoaded v \<Longrightarrow> wr_rLock_attempt v (wr_word s) = (ok, l) \<Longrightarrow>
    wr_step N s ((set_wr s t (if ok then WrReader else WrIdle))\<lparr>wr_word := l\<rparr>)"
| r_unlock_load: "t < N \<Longrightarrow> wr_pcs s t = WrReader \<Longrightarrow>
    wr_step N s (set_wr s t (WrRReleasing (wr_word s)))"
| r_unlock_swap: "t < N \<Longrightarrow> wr_pcs s t = WrRReleasing v \<Longrightarrow> wr_rUnlock_attempt v (wr_word s) = (ok, l) \<Longrightarrow>
    wr_step N s ((set_wr s t (if ok then WrIdle else WrReader))\<lparr>wr_word := l\<rparr>)"

definition wr_init :: wr_sys where
  "wr_init = \<lparr>wr_word = UNLOCKED, wr_pcs = (\<lambda>_. WrIdle)\<rparr>"

definition wr_readers :: "wr_sys \<Rightarrow> nat set" where
  "wr_readers s = {t. wr_reads (wr_pcs s t)}"

definition wr_inv :: "nat \<Rightarrow> wr_sys \<Rightarrow> bool" where
  "wr_inv N s \<longleftrightarrow>
     wr_readers s \<subseteq> {..<N} \<and>
     (if \<exists>t. wr_pcs s t = WrWriter
      then wr_word s = LOCKED \<and> wr_readers s = {} \<and> (\<forall>t u. wr_pcs s t = WrWriter \<longrightarrow> wr_pcs s u = WrWriter \<longrightarrow> t = u)
      else wr_word s = of_nat (2 * card (wr_readers s)))"

lemma wr_reads_simps [simp]:
  "wr_reads WrReader" "wr_reads (WrRReleasing v)" "\<not> wr_reads WrIdle" "\<not> wr_reads (WrWLoaded v)"
  "\<not> wr_reads WrWriter" "\<not> wr_reads (WrRLoaded v)"
  by (simp_all add: wr_reads_def)

lemma wr_readers_set: "wr_readers ((set_wr s t p)\<lparr>wr_word := l\<rparr>) =
    (if wr_reads p then insert t (wr_readers s) else wr_readers s - {t})"
  and wr_readers_set': "wr_readers (set_wr s t p) =
    (if wr_reads p then insert t (wr_readers s) else wr_readers s - {t})"
  by (auto simp: wr_readers_def)

text \<open>A thread that neither becomes nor stops being a reader or a writer.\<close>

lemma wr_inv_move:
  assumes "wr_inv N s" "wr_reads p = wr_reads (wr_pcs s t)" "p = WrWriter \<longleftrightarrow> wr_pcs s t = WrWriter"
  shows "wr_inv N (set_wr s t p)"
proof -
  have W: "wr_pcs (set_wr s t p) u = WrWriter \<longleftrightarrow> wr_pcs s u = WrWriter" for u using assms(3) by simp
  have R: "wr_readers (set_wr s t p) = wr_readers s" using assms(2) by (auto simp: wr_readers_def)
  show ?thesis using assms(1) unfolding wr_inv_def W R by simp
qed

lemma wr_readers_few:
  assumes "wr_inv N s" "N < 2 ^ 15"
  shows "finite (wr_readers s)" "card (wr_readers s) \<le> N"
proof -
  have "wr_readers s \<subseteq> {..<N}" using assms(1) by (simp add: wr_inv_def)
  then show "finite (wr_readers s)" "card (wr_readers s) \<le> N"
    using finite_subset card_mono [of "{..<N}"] by (auto simp: subset_eq_atLeast0_lessThan_finite)
qed

lemma wr_word_even:
  assumes "wr_inv N s" "N < 2 ^ 15" "\<not> (\<exists>t. wr_pcs s t = WrWriter)"
  shows "unat (wr_word s) = 2 * card (wr_readers s)" "wr_word s \<noteq> LOCKED"
proof -
  have "wr_word s = of_nat (2 * card (wr_readers s))" using assms by (simp add: wr_inv_def)
  moreover have "2 * card (wr_readers s) < 2 ^ 16" using wr_readers_few [OF assms(1,2)] assms(2) by simp
  ultimately show u: "unat (wr_word s) = 2 * card (wr_readers s)"
    by (simp only: unat_of_nat) simp
  show "wr_word s \<noteq> LOCKED" using u by (auto simp: LOCKED_def)
qed

lemma wr_inv_r_swap:
  assumes inv: "wr_inv N s" and N: "N < 2 ^ 15" and t: "t < N" and pc: "wr_pcs s t = WrRLoaded v"
    and up: "wr_rLock_attempt v (wr_word s) = (ok, l)"
  shows "wr_inv N ((set_wr s t (if ok then WrReader else WrIdle))\<lparr>wr_word := l\<rparr>)"
proof (cases ok)
  case True
  then have v: "v \<noteq> LOCKED" "wr_word s = v" "l = v + 2"
    using up by (auto simp: wr_rLock_attempt_def CAS_def split: if_splits)
  then have nw: "\<not> (\<exists>u. wr_pcs s u = WrWriter)" using inv by (auto simp: wr_inv_def split: if_splits)
  have "t \<notin> wr_readers s" using pc by (simp add: wr_readers_def)
  then have "card (insert t (wr_readers s)) = Suc (card (wr_readers s))"
    using wr_readers_few(1) [OF inv N] by simp
  moreover have "v = of_nat (2 * card (wr_readers s))" using inv nw v(2) by (simp add: wr_inv_def)
  ultimately show ?thesis
    using inv True t nw v(3) unfolding wr_inv_def wr_readers_set by auto
next
  case False
  then have "l = wr_word s" using up by (auto simp: wr_rLock_attempt_def CAS_def split: if_splits)
  moreover have "wr_inv N (set_wr s t WrIdle)" by (rule wr_inv_move [OF inv]) (simp_all add: pc)
  ultimately show ?thesis using False by simp
qed

lemma wr_inv_w_swap:
  assumes inv: "wr_inv N s" and N: "N < 2 ^ 15" and pc: "wr_pcs s t = WrWLoaded v"
    and up: "wr_try_wLock v (wr_word s) = (ok, l)"
  shows "wr_inv N ((set_wr s t (if ok then WrWriter else WrIdle))\<lparr>wr_word := l\<rparr>)"
proof (cases ok)
  case True
  then have v: "wr_word s = UNLOCKED" "l = LOCKED"
    using up by (auto simp: wr_try_wLock_def CAS_def split: if_splits)
  then have nw: "\<not> (\<exists>u. wr_pcs s u = WrWriter)"
    using inv by (auto simp: wr_inv_def UNLOCKED_def LOCKED_def split: if_splits)
  have "wr_readers s = {}"
    using wr_word_even(1) [OF inv N nw] wr_readers_few(1) [OF inv N] v(1) by (simp add: UNLOCKED_def)
  then show ?thesis using True v(2) nw unfolding wr_inv_def wr_readers_set by auto
next
  case False
  then have "l = wr_word s" using up by (auto simp: wr_try_wLock_def CAS_def split: if_splits)
  moreover have "wr_inv N (set_wr s t WrIdle)" by (rule wr_inv_move [OF inv]) (simp_all add: pc)
  ultimately show ?thesis using False by simp
qed

lemma wr_inv_r_unlock_swap:
  assumes inv: "wr_inv N s" and N: "N < 2 ^ 15" and pc: "wr_pcs s t = WrRReleasing v"
    and up: "wr_rUnlock_attempt v (wr_word s) = (ok, l)"
  shows "wr_inv N ((set_wr s t (if ok then WrIdle else WrReader))\<lparr>wr_word := l\<rparr>)"
proof (cases ok)
  case True
  then have v: "wr_word s = v" "l = v - 2"
    using up by (auto simp: wr_rUnlock_attempt_def CAS_def split: if_splits)
  have r: "t \<in> wr_readers s" using pc by (simp add: wr_readers_def)
  then have nw: "\<not> (\<exists>u. wr_pcs s u = WrWriter)" using inv by (auto simp: wr_inv_def split: if_splits)
  have "card (wr_readers s) = Suc (card (wr_readers s - {t}))"
    using r wr_readers_few(1) [OF inv N] by (metis card_Suc_Diff1)
  moreover have "v = of_nat (2 * card (wr_readers s))" using inv nw v(1) by (simp add: wr_inv_def)
  ultimately show ?thesis
    using inv True nw v(2) unfolding wr_inv_def wr_readers_set by auto
next
  case False
  then have "l = wr_word s" using up by (auto simp: wr_rUnlock_attempt_def CAS_def split: if_splits)
  moreover have "wr_inv N (set_wr s t WrReader)" by (rule wr_inv_move [OF inv]) (simp_all add: pc)
  ultimately show ?thesis using False by simp
qed

lemma wr_inv_step: "wr_step N s s' \<Longrightarrow> wr_inv N s \<Longrightarrow> N < 2 ^ 15 \<Longrightarrow> wr_inv N s'"
proof (induction rule: wr_step.induct)
  case (w_unlock t s)
  then have "wr_readers s = {}" "\<And>u. wr_pcs s u = WrWriter \<Longrightarrow> u = t"
    by (auto simp: wr_inv_def split: if_splits)
  then show ?case
    unfolding wr_inv_def wr_readers_set by (auto simp: wr_wUnlock_def UNLOCKED_def)
next
  case (w_swap t s v ok l)
  then show ?case by (intro wr_inv_w_swap)
next
  case (r_swap t s v ok l)
  then show ?case by (intro wr_inv_r_swap)
next
  case (r_unlock_swap t s v ok l)
  then show ?case by (intro wr_inv_r_unlock_swap)
qed (auto intro!: wr_inv_move)

lemma wr_inv_init: "wr_inv N wr_init"
  by (simp add: wr_inv_def wr_init_def wr_readers_def UNLOCKED_def)

lemma wr_inv_reachable: "(wr_step N)\<^sup>*\<^sup>* wr_init s \<Longrightarrow> N < 2 ^ 15 \<Longrightarrow> wr_inv N s"
  by (induction rule: rtranclp_induct) (blast intro: wr_inv_init wr_inv_step)+

section \<open>Correctness of the locks\<close>

text \<open>
  C19: in every interleaving of writers, IO lockers and optimistic readers of a node's
  \<open>OptLock\<close>, at most one thread holds the write lock or the IO lock (for fewer than \<open>2^60\<close>
  completed write sections, far below the wrap-around of the version).
\<close>

theorem optlock_mutual_exclusion:
  assumes "opt_step\<^sup>*\<^sup>* opt_init s" "oreleases s < opt_bound"
    and "oholds (opcs s t)" "oholds (opcs s u)"
  shows "t = u"
proof -
  obtain m where "opt_inv s m" using opt_inv_reachable [OF assms(1,2)] by blast
  then show ?thesis using assms(3,4) by (auto simp: opt_inv_def)
qed

lemma opt_example_run:
  "opt_step\<^sup>*\<^sup>* opt_init (opt_init\<lparr>olock := 0b1100, opcs := (\<lambda>_. OIdle)(0 := WHeld)\<rparr>)"
proof -
  let ?s1 = "set_opc opt_init 0 (WLoaded 0b1000)"
  have "opt_step opt_init (set_opc opt_init 0 (WLoaded (olock opt_init)))"
    by (rule opt_step.write_load) (simp_all add: opt_init_def)
  then have 1: "opt_step opt_init ?s1" by (simp add: opt_init_def)
  have "opt_step ?s1 ((set_opc ?s1 0 (if False then OIdle else WHeld))\<lparr>olock := 0b1100\<rparr>)"
    by (rule opt_step.write_cas [where v = "0b1000" and v' = "0b1100"])
      (simp_all add: opt_init_def upgradeToWriteLockOrRestart_def isIO_def CAS_def)
  then have 2: "opt_step ?s1 (opt_init\<lparr>olock := 0b1100, opcs := (\<lambda>_. OIdle)(0 := WHeld)\<rparr>)"
    by (simp add: opt_init_def)
  show ?thesis using 1 2 by (meson converse_rtranclp_into_rtranclp r_into_rtranclp)
qed

theorem optlock_mutual_exclusion_witness:
  "\<exists>s. opt_step\<^sup>*\<^sup>* opt_init s \<and> oholds (opcs s 0) \<and> (\<forall>u. oholds (opcs s u) \<longrightarrow> (0::nat) = u)"
proof -
  let ?s = "opt_init\<lparr>olock := 0b1100, opcs := (\<lambda>_. OIdle)(0 := WHeld)\<rparr>"
  have b: "oreleases ?s < opt_bound" by (simp add: opt_init_def)
  have h: "oholds (opcs ?s 0)" by simp
  show ?thesis
    using opt_example_run h optlock_mutual_exclusion [OF opt_example_run b h] by blast
qed

text \<open>
  C20: a reader of a node whose final \<open>readUnlockOrRestart\<close> does not ask for a restart has
  read a consistent node: the node was not modified since \<open>readLockOrRestart\<close> and no thread
  holds its write lock.  An IO lock taken meanwhile does not invalidate the read.
\<close>

theorem optlock_validated_read:
  assumes "opt_step\<^sup>*\<^sup>* opt_init s" "oreleases s < opt_bound"
    and "opcs s t = OReading v w r" "\<not> readUnlockOrRestart v (olock s)"
  shows "owrites s = w \<and> (\<forall>u. opcs s u \<noteq> WHeld)"
proof -
  obtain m where inv: "opt_inv s m" using opt_inv_reachable [OF assms(1,2)] by blast
  have pc: "pc_inv s (OReading v w r)" by (rule opt_inv_pc [OF inv assms(3)])
  then obtain k where k: "k = Free \<or> k = Io" "v = opt_enc r k" "r \<le> oreleases s"
    by (auto simp: pc_inv_def)
  then have "oreleases s = r \<and> (m = Free \<or> m = Io)"
    using opt_validate [OF assms(2), of r k m] assms(2,4) opt_inv_lock [OF inv] by simp
  moreover from this have "\<forall>u. opcs s u \<noteq> WHeld" using inv by (auto simp: opt_inv_def)
  ultimately show ?thesis using pc by (simp add: pc_inv_def)
qed

theorem optlock_validated_read_witness:
  "\<exists>s. opt_step\<^sup>*\<^sup>* opt_init s \<and> opcs s 0 = OReading 8 0 0 \<and> owrites s = 0 \<and> (\<forall>u. opcs s u \<noteq> WHeld)"
proof -
  let ?s = "set_opc opt_init 0 (OReading 8 0 0)"
  have "opt_step opt_init (set_opc opt_init 0 (OReading 8 (owrites opt_init) (oreleases opt_init)))"
    by (rule opt_step.read_lock)
      (simp_all add: opt_init_def readLockOrRestart_def isLocked_def isObsolete_def)
  then have r: "opt_step\<^sup>*\<^sup>* opt_init ?s" by (simp add: opt_init_def)
  have "owrites ?s = 0 \<and> (\<forall>u. opcs ?s u \<noteq> WHeld)"
    by (rule optlock_validated_read [OF r, of 0 8 0 0])
      (simp_all add: opt_init_def readUnlockOrRestart_def)
  with r show ?thesis by (intro exI [of _ ?s]) simp
qed

text \<open>
  a node retired by \<open>writeUnlockObsolete\<close> stays retired: whatever threads do afterwards,
  its lock word never changes again, its contents are never modified again, and both
  \<open>readLockOrRestart\<close> and \<open>writeLockOrRestart\<close> ask for a restart.
\<close>

theorem optlock_obsolete_permanent:
  assumes "opt_step\<^sup>*\<^sup>* opt_init s" "isObsolete (olock s)" "opt_step\<^sup>*\<^sup>* s s'" "oreleases s' < opt_bound"
  shows "olock s' = olock s \<and> owrites s' = owrites s \<and> snd (readLockOrRestart (olock s') False) \<and>
    fst (writeLockOrRestart (olock s') False (olock s'))"
proof -
  have frozen: "opt_inv s' Obs \<and> olock s' = olock s \<and> owrites s' = owrites s"
    if "opt_step\<^sup>*\<^sup>* s s'" "oreleases s' < opt_bound" for s'
    using that
  proof (induction rule: rtranclp_induct)
    case base
    then obtain m where inv: "opt_inv s m" using opt_inv_reachable [OF assms(1)] by blast
    with base assms(2) have "m = Obs" using opt_inv_lock [OF inv] by (simp add: opt_enc_bits)
    with inv show ?case by simp
  next
    case (step y z)
    then have "oreleases y < opt_bound" using opt_step_releases_mono le_less_trans by blast
    with step have y: "opt_inv y Obs \<and> olock y = olock s \<and> owrites y = owrites s" by blast
    then show ?case using opt_obsolete_frozen [OF step.hyps(2) _ step.prems] by simp
  qed
  have s': "opt_inv s' Obs \<and> olock s' = olock s \<and> owrites s' = owrites s"
    by (rule frozen [OF assms(3,4)])
  then have l: "olock s' = opt_enc (oreleases s') Obs" using opt_inv_lock by blast
  then show ?thesis
    using s' assms(4) opt_enc_bits [OF assms(4), of Obs]
    by (simp add: readLockOrRestart_def writeLockOrRestart_def)
qed

theorem optlock_obsolete_permanent_witness:
  "\<exists>s. opt_step\<^sup>*\<^sup>* opt_init s \<and> isObsolete (olock s) \<and> snd (readLockOrRestart (olock s) False)"
proof -
  let ?h = "opt_init\<lparr>olock := 0b1100, opcs := (\<lambda>_. OIdle)(0 := WHeld)\<rparr>"
  let ?s = "(set_opc ?h 0 OIdle)\<lparr>olock := writeUnlockObsolete (olock ?h), oreleases := Suc (oreleases ?h)\<rparr>"
  have "opt_step ?h ?s" by (rule opt_step.write_unlock_obsolete) simp
  with opt_example_run have r: "opt_step\<^sup>*\<^sup>* opt_init ?s" by (rule rtranclp.rtrancl_into_rtrancl)
  have o: "isObsolete (olock ?s)" by (simp add: writeUnlockObsolete_def isObsolete_def)
  have "snd (readLockOrRestart (olock ?s) False)"
    using optlock_obsolete_permanent [OF r o rtranclp.rtrancl_refl] by (simp add: opt_init_def)
  with r o show ?thesis by blast
qed

text \<open>
  the bucket lock \<open>Lock32\<close> of the page table: below \<open>2^31\<close> releases at most one thread
  owns the lock, and a reader whose \<open>test_lock_version_change\<close> reports no change has seen the
  bucket unmodified and unowned.
\<close>

theorem lock32_safe:
  assumes "(lock_step Lock32_test_lock_set Lock32_get_lock Lock32_release_lock)\<^sup>*\<^sup>* (lock_init 0) s"
    and "releases s < 2 ^ 31"
  shows "(owns (pcs s t) \<and> owns (pcs s u) \<longrightarrow> t = u) \<and>
    (pcs s t = Reading v w r \<and> \<not> Lock32_test_lock_version_change v (lock_word s) \<longrightarrow>
      writes s = w \<and> (\<forall>u. \<not> owns (pcs s u)))"
proof -
  have e: "enc32 0 False = 0" by (simp add: enc32_def)
  show ?thesis
    using lock32.mutual_exclusion [unfolded e, OF assms]
      lock32.validated_read [unfolded e, OF assms]
    unfolding Lock32_test_lock_version_change_def by metis
qed

theorem lock32_safe_witness:
  "\<exists>s. (lock_step Lock32_test_lock_set Lock32_get_lock Lock32_release_lock)\<^sup>*\<^sup>* (lock_init 0) s \<and>
     pcs s 0 = Reading 0 0 0 \<and> writes s = 0 \<and> (\<forall>u. \<not> owns (pcs s u))"
proof -
  let ?i = "lock_init (0 :: u32)"
  let ?s = "set_pc ?i 0 (Reading 0 0 0)"
  have "lock_step Lock32_test_lock_set Lock32_get_lock Lock32_release_lock ?i
      (set_pc ?i 0 (Reading (lock_word ?i) (writes ?i) (releases ?i)))"
    by (rule lock_step.read_begin) (simp_all add: lock_init_def Lock32_test_lock_set_def)
  then have r: "(lock_step Lock32_test_lock_set Lock32_get_lock Lock32_release_lock)\<^sup>*\<^sup>* ?i ?s"
    by (simp add: lock_init_def)
  have "writes ?s = 0 \<and> (\<forall>u. \<not> owns (pcs ?s u))"
    using lock32_safe [OF r, of 0 0 0 0 0]
    by (simp add: lock_init_def Lock32_test_lock_version_change_def)
  with r show ?thesis by (intro exI [of _ ?s]) simp
qed

text \<open>
  \<open>Lock32::release_lock\<close> computes \<open>v + 1 - lockSet32\<close>.  At the last version the carry
  sets the lock bit again: the word after the release still tests as locked, so every later
  \<open>get_lock\<close> spins and every \<open>try_get_lock\<close> fails.  At every earlier version the release frees the lock.
\<close>

theorem lock32_release_wraps_locked:
  "Lock32_test_lock_set (Lock32_release_lock (v OR lockSet32)) \<longleftrightarrow> v OR lockSet32 = - 1"
proof -
  have top: "2 ^ 31 \<le> unat (v OR lockSet32)"
    using and_top_bit_32 [of "v OR lockSet32"]
    by (simp add: lockSet32_def push_bit_eq_mult bit.conj_disj_distrib2 and.commute or.commute)
  show ?thesis
  proof (cases "v OR lockSet32 = - 1")
    case True
    then show ?thesis by (simp add: Lock32_release_lock_def Lock32_test_lock_set_def lockSet32_def push_bit_eq_mult)
  next
    case False
    have "unat (v OR lockSet32) \<noteq> 2 ^ 32 - 1"
      using False unfolding word_unat_eq_iff by (simp add: unsigned_minus_1_eq_mask mask_eq_exp_minus_1)
    moreover have "unat (v OR lockSet32) < 2 ^ 32" using unsigned_less [of "v OR lockSet32", where ?'a = nat] by simp
    ultimately have lt: "Suc (unat (v OR lockSet32)) < 2 ^ 32" by linarith
    have s: "unat ((v OR lockSet32) + 1) = Suc (unat (v OR lockSet32))"
      using lt by (intro unat_Suc_lt) simp
    have "unat (Lock32_release_lock (v OR lockSet32)) = Suc (unat (v OR lockSet32)) - 2 ^ 31"
    proof -
      have "lockSet32 \<le> (v OR lockSet32) + 1"
        using top s unfolding word_le_nat_alt by (simp add: lockSet32_def push_bit_eq_mult)
      then have "unat ((v OR lockSet32) + 1 - lockSet32) = unat ((v OR lockSet32) + 1) - unat lockSet32"
        by (rule unat_sub)
      then show ?thesis using s by (simp add: Lock32_release_lock_def lockSet32_def push_bit_eq_mult)
    qed
    then show ?thesis
      using False lt and_top_bit_32 by (simp add: Lock32_test_lock_set_def)
  qed
qed

text \<open>
  with fewer than \<open>2^15\<close> threads the 16-bit \<open>WRLock\<close> excludes: while a thread is the
  writer no other thread is a writer and no thread is a reader.
\<close>

theorem wrlock_exclusion:
  assumes "(wr_step N)\<^sup>*\<^sup>* wr_init s" "N < 2 ^ 15" "wr_pcs s t = WrWriter"
  shows "\<not> wr_reads (wr_pcs s u) \<and> (wr_pcs s u = WrWriter \<longrightarrow> u = t)"
proof -
  have "wr_inv N s" by (rule wr_inv_reachable [OF assms(1,2)])
  then have "wr_readers s = {}" "wr_pcs s u = WrWriter \<longrightarrow> u = t"
    using assms(3) by (auto simp: wr_inv_def split: if_splits)
  then show ?thesis by (auto simp: wr_readers_def)
qed

theorem wrlock_exclusion_witness:
  "\<exists>s. (wr_step 2)\<^sup>*\<^sup>* wr_init s \<and> wr_pcs s 0 = WrWriter \<and> (\<forall>u. \<not> wr_reads (wr_pcs s u))"
proof -
  let ?a = "\<lparr>wr_word = 0, wr_pcs = (\<lambda>_. WrIdle)(0 := WrWLoaded 0)\<rparr>"
  let ?s = "\<lparr>wr_word = 1, wr_pcs = (\<lambda>_. WrIdle)(0 := WrWriter)\<rparr>"
  have "wr_step 2 wr_init (set_wr wr_init 0 (WrWLoaded (wr_word wr_init)))"
    by (rule wr_step.w_load) (simp_all add: wr_init_def)
  then have 1: "wr_step 2 wr_init ?a" by (simp add: wr_init_def UNLOCKED_def)
  have "wr_step 2 ?a ((set_wr ?a 0 (if True then WrWriter else WrIdle))\<lparr>wr_word := 1\<rparr>)"
    by (rule wr_step.w_swap [where v = 0])
      (simp_all add: wr_try_wLock_def CAS_def UNLOCKED_def LOCKED_def)
  then have 2: "wr_step 2 ?a ?s" by simp
  from 1 have "(wr_step 2)\<^sup>*\<^sup>* wr_init ?a" by (rule r_into_rtranclp)
  from this 2 have r: "(wr_step 2)\<^sup>*\<^sup>* wr_init ?s" by (rule rtranclp.rtrancl_into_rtrancl)
  have w: "wr_pcs ?s 0 = WrWriter" by simp
  have two: "(2::nat) < 2 ^ 15" by simp
  have nr: "\<not> wr_reads (wr_pcs ?s u)" for u
    using wrlock_exclusion [OF r two w, of u] by (rule conjunct1)
  show ?thesis by (intro exI [of _ ?s] conjI allI) (fact r, fact w, fact nr)
qed

end
