(* ===== verification/Page_Table.thy ===== *)
theory Page_Table
  imports Kv_Store Global_Addr Version_Lock
begin

text \<open>
  The page table of the compute-side cache, \<open>dex/include/tree/page_table.h\<close>: a chained hash table
  from remote addresses to cached pages, three frames per 64-byte bucket.  A chain of buckets is the
  list from the head bucket along \<open>next_\<close>.
\<close>

section \<open>Data\<close>

definition num_entry_in_page_bucket :: nat where "num_entry_in_page_bucket = 3"

definition IO_FLAG :: u64 where "IO_FLAG = push_bit 63 1"

abbreviation nullptr :: ptr where "nullptr \<equiv> 0"

record page_frame =
  page_id :: GlobalAddress
  buffer_page :: ptr

record page_bucket =
  pb_lock :: u32
  pb_count :: u32
  pb_frames :: "page_frame list"

type_synonym chain = "page_bucket list"

definition zero_frame :: page_frame where
  "zero_frame = \<lparr>page_id = 0, buffer_page = nullptr\<rparr>"

definition zero_bucket :: page_bucket where
  "zero_bucket = \<lparr>pb_lock = 0, pb_count = 0, pb_frames = replicate num_entry_in_page_bucket zero_frame\<rparr>"

section \<open>Operations on a chain\<close>

text \<open>The \<open>for\<close> loop over the frames of a bucket: the first index that satisfies the test.\<close>

fun first_frame :: "(page_frame \<Rightarrow> bool) \<Rightarrow> page_frame list \<Rightarrow> nat option" where
  "first_frame P [] = None"
| "first_frame P (f # fs) = (if P f then Some 0 else map_option Suc (first_frame P fs))"

text \<open>The \<open>while\<close> loop over the chain around it, as a search and as an update of the frame it stops at.\<close>

fun first_match :: "(page_frame \<Rightarrow> bool) \<Rightarrow> chain \<Rightarrow> page_frame option" where
  "first_match P [] = None"
| "first_match P (b # bs) =
     (case first_frame P (pb_frames b) of Some i \<Rightarrow> Some (pb_frames b ! i) | None \<Rightarrow> first_match P bs)"

fun on_first :: "(page_frame \<Rightarrow> bool) \<Rightarrow> (page_frame \<Rightarrow> page_frame) \<Rightarrow> (u32 \<Rightarrow> u32) \<Rightarrow> chain \<Rightarrow> chain option" where
  "on_first P upd cnt [] = None"
| "on_first P upd cnt (b # bs) =
     (case first_frame P (pb_frames b) of
        Some i \<Rightarrow> Some (b\<lparr>pb_frames := (pb_frames b)[i := upd (pb_frames b ! i)], pb_count := cnt (pb_count b)\<rparr> # bs)
      | None \<Rightarrow> map_option ((#) b) (on_first P upd cnt bs))"

definition holds_page :: "GlobalAddress \<Rightarrow> page_frame \<Rightarrow> bool" where
  "holds_page key f \<longleftrightarrow> page_id f = key \<and> buffer_page f \<noteq> nullptr"

definition is_free :: "page_frame \<Rightarrow> bool" where
  "is_free f \<longleftrightarrow> buffer_page f = nullptr"

text \<open>The second half of \<open>insert\<close> and \<open>upsert\<close>: the first free frame, or a new bucket at the end.\<close>

definition pt_place :: "chain \<Rightarrow> GlobalAddress \<Rightarrow> ptr \<Rightarrow> chain" where
  "pt_place c key v =
     (case on_first is_free (\<lambda>f. f\<lparr>page_id := key, buffer_page := v\<rparr>) (\<lambda>n. n + 1) c of
        Some c' \<Rightarrow> c'
      | None \<Rightarrow> c @ [zero_bucket\<lparr>pb_count := 1,
                  pb_frames := (pb_frames zero_bucket)[0 := \<lparr>page_id = key, buffer_page = v\<rparr>]\<rparr>])"

text \<open>
  \<open>insert\<close> and \<open>upsert\<close> return the flag, the caller's \<open>value\<close> and the chain.  The build keeps
  assertions (\<open>-UNDEBUG\<close>): \<open>upsert\<close> aborts when it fills a free frame with a page whose header
  carries another address; \<open>remote_of\<close> reads that header.
\<close>

datatype pt_error = WrongRemoteAddress

definition pt_insert :: "chain \<Rightarrow> GlobalAddress \<Rightarrow> ptr \<Rightarrow> bool \<times> ptr \<times> chain" where
  "pt_insert c key v =
     (case first_match (holds_page key) c of
        Some f \<Rightarrow> (False, buffer_page f, c)
      | None \<Rightarrow> (True, v, pt_place c key v))"

definition pt_insert_io_flag :: "chain \<Rightarrow> GlobalAddress \<Rightarrow> bool \<times> chain" where
  "pt_insert_io_flag c key = (let (ret, v, c') = pt_insert c key IO_FLAG in (ret, c'))"

definition pt_upsert ::
  "(ptr \<Rightarrow> GlobalAddress) \<Rightarrow> chain \<Rightarrow> GlobalAddress \<Rightarrow> ptr \<Rightarrow> pt_error + bool \<times> ptr \<times> chain" where
  "pt_upsert remote_of c key v =
     (case first_match (holds_page key) c of
        Some f \<Rightarrow>
          Inr (False, buffer_page f,
           case on_first (holds_page key) (\<lambda>f. f\<lparr>buffer_page := v\<rparr>) id c of Some c' \<Rightarrow> c' | None \<Rightarrow> c)
      | None \<Rightarrow>
          if first_match is_free c \<noteq> None \<and> remote_of v \<noteq> key then Inl WrongRemoteAddress
          else Inr (True, v, pt_place c key v))"

text \<open>
  The loop of both \<open>remove\<close>: the frame found is emptied and a bucket other than the head whose
  \<open>count_\<close> drops to zero is unlinked.
\<close>

fun remove_first :: "(page_frame \<Rightarrow> bool) \<Rightarrow> bool \<Rightarrow> chain \<Rightarrow> chain option" where
  "remove_first P is_head [] = None"
| "remove_first P is_head (b # bs) =
     (case first_frame P (pb_frames b) of
        Some i \<Rightarrow>
          (let b' = b\<lparr>pb_frames := (pb_frames b)[i := (pb_frames b ! i)\<lparr>buffer_page := nullptr\<rparr>],
                      pb_count := pb_count b - 1\<rparr>
           in if pb_count b' = 0 \<and> \<not> is_head then Some bs else Some (b' # bs))
      | None \<Rightarrow> map_option ((#) b) (remove_first P False bs))"

definition pt_remove_value :: "chain \<Rightarrow> GlobalAddress \<Rightarrow> ptr \<Rightarrow> bool \<times> chain" where
  "pt_remove_value c key v =
     (case remove_first (\<lambda>f. page_id f = key \<and> buffer_page f = v) True c of
        Some c' \<Rightarrow> (True, c') | None \<Rightarrow> (False, c))"

definition pt_remove :: "chain \<Rightarrow> GlobalAddress \<Rightarrow> bool \<times> chain" where
  "pt_remove c key =
     (case remove_first (\<lambda>f. page_id f = key) True c of Some c' \<Rightarrow> (True, c') | None \<Rightarrow> (False, c))"

definition pt_get :: "chain \<Rightarrow> GlobalAddress \<Rightarrow> ptr" where
  "pt_get c key = (case first_match (holds_page key) c of Some f \<Rightarrow> buffer_page f | None \<Rightarrow> nullptr)"

text \<open>
  \<open>update\<close> stores the new page, reports the old one and then spins for ever when the new page's
  header carries another address.
\<close>

definition pt_update ::
  "(ptr \<Rightarrow> GlobalAddress) \<Rightarrow> chain \<Rightarrow> GlobalAddress \<Rightarrow> ptr \<Rightarrow> ptr \<Rightarrow> pt_error + bool \<times> ptr \<times> chain" where
  "pt_update remote_of c key new_value old_value =
     (case first_match (holds_page key) c of
        Some f \<Rightarrow>
          if remote_of new_value \<noteq> key then Inl WrongRemoteAddress
          else Inr (True, buffer_page f,
            case on_first (holds_page key) (\<lambda>f. f\<lparr>buffer_page := new_value\<rparr>) id c of Some c' \<Rightarrow> c' | None \<Rightarrow> c)
      | None \<Rightarrow> Inr (False, old_value, c))"

definition pt_RMW :: "chain \<Rightarrow> GlobalAddress \<Rightarrow> ptr \<Rightarrow> ptr \<Rightarrow> bool \<times> chain" where
  "pt_RMW c key new_value old_value =
     (case on_first (\<lambda>f. page_id f = key \<and> buffer_page f = old_value) (\<lambda>f. f\<lparr>buffer_page := new_value\<rparr>) id c of
        Some c' \<Rightarrow> (True, c') | None \<Rightarrow> (False, c))"

section \<open>The table\<close>

record page_table =
  bucket_num :: nat
  entry_num :: nat
  pt_table :: "chain list"

definition page_table_new :: "nat \<Rightarrow> page_table" where
  "page_table_new entries =
     (let n = (if entries mod num_entry_in_page_bucket = 0 then entries div num_entry_in_page_bucket
               else entries div num_entry_in_page_bucket + 1)
      in \<lparr>bucket_num = n, entry_num = entries, pt_table = replicate n [zero_bucket]\<rparr>)"

text \<open>\<open>reset\<close> frees every overflow bucket and zeroes the heads.\<close>

definition pt_reset :: "page_table \<Rightarrow> page_table" where
  "pt_reset t = t\<lparr>pt_table := replicate (bucket_num t) [zero_bucket]\<rparr>"

text \<open>\<open>std::_Hash_bytes\<close> over the eight bytes of the address is the parameter \<open>hash\<close>.\<close>

definition get_bucket_idx :: "(u64 \<Rightarrow> u64) \<Rightarrow> page_table \<Rightarrow> GlobalAddress \<Rightarrow> nat" where
  "get_bucket_idx hash t key = unat (hash key) mod bucket_num t"

text \<open>
  Taking the head's lock around an operation; \<open>None\<close> when the lock is already set, where \<open>get_lock\<close>
  spins until its owner releases it.
\<close>

definition with_lock :: "(u64 \<Rightarrow> u64) \<Rightarrow> page_table \<Rightarrow> GlobalAddress \<Rightarrow> (chain \<Rightarrow> 'r \<times> chain) \<Rightarrow> ('r \<times> page_table) option" where
  "with_lock hash t key body =
     (let i = get_bucket_idx hash t key; c = pt_table t ! i in
      if Lock32_test_lock_set (pb_lock (hd c)) then None
      else
        (let locked = (hd c)\<lparr>pb_lock := Lock32_get_lock (pb_lock (hd c))\<rparr> # tl c;
             (ret, c') = body locked
         in Some (ret, t\<lparr>pt_table := (pt_table t)[i := (hd c')\<lparr>pb_lock := Lock32_release_lock (pb_lock (hd c'))\<rparr> # tl c']\<rparr>)))"

definition insert_with_lock :: "(u64 \<Rightarrow> u64) \<Rightarrow> page_table \<Rightarrow> GlobalAddress \<Rightarrow> ptr \<Rightarrow> ((bool \<times> ptr) \<times> page_table) option" where
  "insert_with_lock hash t key v = with_lock hash t key (\<lambda>c. let (ret, v', c') = pt_insert c key v in ((ret, v'), c'))"

definition insert_io_flag_with_lock :: "(u64 \<Rightarrow> u64) \<Rightarrow> page_table \<Rightarrow> GlobalAddress \<Rightarrow> (bool \<times> page_table) option" where
  "insert_io_flag_with_lock hash t key = with_lock hash t key (\<lambda>c. pt_insert_io_flag c key)"

definition upsert_with_lock ::
  "(u64 \<Rightarrow> u64) \<Rightarrow> (ptr \<Rightarrow> GlobalAddress) \<Rightarrow> page_table \<Rightarrow> GlobalAddress \<Rightarrow> ptr \<Rightarrow> ((pt_error + bool \<times> ptr) \<times> page_table) option" where
  "upsert_with_lock hash remote_of t key v =
     with_lock hash t key (\<lambda>c. case pt_upsert remote_of c key v of
         Inl e \<Rightarrow> (Inl e, c) | Inr (ret, v', c') \<Rightarrow> (Inr (ret, v'), c'))"

definition remove_with_lock :: "(u64 \<Rightarrow> u64) \<Rightarrow> page_table \<Rightarrow> GlobalAddress \<Rightarrow> ptr \<Rightarrow> (bool \<times> page_table) option" where
  "remove_with_lock hash t key v = with_lock hash t key (\<lambda>c. pt_remove_value c key v)"

text \<open>The optimistic read of one thread alone: it spins while the lock is set and finds no change after.\<close>

definition get_with_lock :: "(u64 \<Rightarrow> u64) \<Rightarrow> page_table \<Rightarrow> GlobalAddress \<Rightarrow> ptr option" where
  "get_with_lock hash t key =
     (let c = pt_table t ! get_bucket_idx hash t key in
      if Lock32_test_lock_set (pb_lock (hd c)) then None else Some (pt_get c key))"

definition check_and_remove :: "(u64 \<Rightarrow> u64) \<Rightarrow> page_table \<Rightarrow> GlobalAddress \<Rightarrow> (bool \<times> page_table) option" where
  "check_and_remove hash t key =
     (case get_with_lock hash t key of
        None \<Rightarrow> None
      | Some page_ptr \<Rightarrow>
          if page_ptr = nullptr then Some (False, t) else with_lock hash t key (\<lambda>c. pt_remove c key))"

definition RMW_with_lock :: "(u64 \<Rightarrow> u64) \<Rightarrow> page_table \<Rightarrow> GlobalAddress \<Rightarrow> ptr \<Rightarrow> ptr \<Rightarrow> (bool \<times> page_table) option" where
  "RMW_with_lock hash t key new_value old_value = with_lock hash t key (\<lambda>c. pt_RMW c key new_value old_value)"

definition update_with_lock ::
  "(u64 \<Rightarrow> u64) \<Rightarrow> (ptr \<Rightarrow> GlobalAddress) \<Rightarrow> page_table \<Rightarrow> GlobalAddress \<Rightarrow> ptr \<Rightarrow> ptr \<Rightarrow> ((pt_error + bool \<times> ptr) \<times> page_table) option" where
  "update_with_lock hash remote_of t key new_value old_value =
     with_lock hash t key (\<lambda>c. case pt_update remote_of c key new_value old_value of
         Inl e \<Rightarrow> (Inl e, c) | Inr (ret, old, c') \<Rightarrow> (Inr (ret, old), c'))"

section \<open>The frames of a chain\<close>

definition flat :: "chain \<Rightarrow> page_frame list" where
  "flat c = concat (map pb_frames c)"

lemma flat_simps [simp]: "flat [] = []" "flat (b # bs) = pb_frames b @ flat bs" "flat (c @ d) = flat c @ flat d"
  by (simp_all add: flat_def)

lemma first_frame_Some:
  "first_frame P fs = Some i \<Longrightarrow> i < length fs \<and> P (fs ! i) \<and> (\<forall>x \<in> set (take i fs). \<not> P x)"
  by (induction fs arbitrary: i) (auto split: if_splits)

lemma first_frame_None: "first_frame P fs = None \<longleftrightarrow> (\<forall>x \<in> set fs. \<not> P x)"
  by (induction fs) auto

lemma first_frame_split:
  assumes "first_frame P fs = Some i"
  shows "fs = take i fs @ fs ! i # drop (Suc i) fs" "P (fs ! i)" "\<forall>x \<in> set (take i fs). \<not> P x"
    "fs[i := f'] = take i fs @ f' # drop (Suc i) fs"
  using first_frame_Some [OF assms] by (simp_all add: id_take_nth_drop [symmetric] upd_conv_take_nth_drop)

lemma first_match_None: "first_match P c = None \<longleftrightarrow> (\<forall>x \<in> set (flat c). \<not> P x)"
  by (induction c) (auto simp: first_frame_None split: option.splits dest!: first_frame_Some)

lemma first_match_split:
  "first_match P c = Some f \<Longrightarrow> \<exists>xs ys. flat c = xs @ f # ys \<and> P f \<and> (\<forall>x \<in> set xs. \<not> P x)"
proof (induction c)
  case (Cons b c)
  show ?case
  proof (cases "first_frame P (pb_frames b)")
    case (Some i)
    note S = first_frame_split [OF Some]
    have "flat (b # c) = take i (pb_frames b) @ pb_frames b ! i # (drop (Suc i) (pb_frames b) @ flat c)"
      using S(1) by (metis append.assoc append_Cons flat_simps(2))
    moreover have "f = pb_frames b ! i" using Some Cons.prems by simp
    ultimately show ?thesis using S(2,3) by blast
  next
    case None
    then obtain xs ys where "flat c = xs @ f # ys" "P f" "\<forall>x \<in> set xs. \<not> P x" using Cons by auto
    then have "flat (b # c) = (pb_frames b @ xs) @ f # ys" "\<forall>x \<in> set (pb_frames b @ xs). \<not> P x"
      using None by (auto simp: first_frame_None)
    then show ?thesis using \<open>P f\<close> by blast
  qed
qed simp

lemma on_first_None: "on_first P upd cnt c = None \<longleftrightarrow> (\<forall>x \<in> set (flat c). \<not> P x)"
  by (induction c) (auto simp: first_frame_None split: option.splits dest!: first_frame_Some)

lemma on_first_split:
  "on_first P upd cnt c = Some c' \<Longrightarrow>
   \<exists>xs f ys. flat c = xs @ f # ys \<and> P f \<and> (\<forall>x \<in> set xs. \<not> P x) \<and> flat c' = xs @ upd f # ys"
proof (induction c arbitrary: c')
  case (Cons b c)
  show ?case
  proof (cases "first_frame P (pb_frames b)")
    case (Some i)
    note S = first_frame_split [OF Some]
    have "flat (b # c) = take i (pb_frames b) @ pb_frames b ! i # (drop (Suc i) (pb_frames b) @ flat c)"
      using S(1) by (metis append.assoc append_Cons flat_simps(2))
    moreover have "flat c' = take i (pb_frames b) @ upd (pb_frames b ! i) # (drop (Suc i) (pb_frames b) @ flat c)"
      using Cons.prems Some S(4) by auto
    ultimately show ?thesis using S(2,3) by blast
  next
    case None
    then obtain d where d: "on_first P upd cnt c = Some d" "c' = b # d" using Cons.prems by auto
    obtain xs f ys where x: "flat c = xs @ f # ys" "P f" "\<forall>x \<in> set xs. \<not> P x" "flat d = xs @ upd f # ys"
      using Cons.IH [OF d(1)] by auto
    have "flat (b # c) = (pb_frames b @ xs) @ f # ys" "flat c' = (pb_frames b @ xs) @ upd f # ys"
      "\<forall>x \<in> set (pb_frames b @ xs). \<not> P x" using x d None by (auto simp: first_frame_None)
    then show ?thesis using x(2) by blast
  qed
qed simp

section \<open>The invariant and the map of a chain\<close>

definition live :: "page_frame \<Rightarrow> bool" where
  "live f \<longleftrightarrow> buffer_page f \<noteq> nullptr"

definition bucket_ok :: "page_bucket \<Rightarrow> bool" where
  "bucket_ok b \<longleftrightarrow> length (pb_frames b) = 3 \<and> unat (pb_count b) = length (filter live (pb_frames b))"

text \<open>A live frame's page is in no frame before it, live or stale: the searches by page alone rely on it.\<close>

definition chain_ok :: "chain \<Rightarrow> bool" where
  "chain_ok c \<longleftrightarrow> c \<noteq> [] \<and> list_all bucket_ok c \<and>
     sorted_wrt (\<lambda>f g. live g \<longrightarrow> page_id f \<noteq> page_id g) (flat c)"

definition entry :: "page_frame \<Rightarrow> GlobalAddress \<times> ptr" where
  "entry f = (page_id f, buffer_page f)"

definition frames_map :: "page_frame list \<Rightarrow> (GlobalAddress \<rightharpoonup> ptr)" where
  "frames_map fs = map_of (map entry (filter live fs))"

definition chain_map :: "chain \<Rightarrow> (GlobalAddress \<rightharpoonup> ptr)" where
  "chain_map c = frames_map (flat c)"

abbreviation fresh_order :: "page_frame list \<Rightarrow> bool" where
  "fresh_order \<equiv> sorted_wrt (\<lambda>f g. live g \<longrightarrow> page_id f \<noteq> page_id g)"

lemma frames_map_simps [simp]:
  "frames_map [] = Map.empty"
  "frames_map (f # fs) = (if live f then (frames_map fs)(page_id f \<mapsto> buffer_page f) else frames_map fs)"
  "frames_map (xs @ ys) = frames_map ys ++ frames_map xs"
  by (simp_all add: frames_map_def entry_def)

lemma frames_map_None: "frames_map fs k = None \<longleftrightarrow> (\<forall>f \<in> set fs. \<not> holds_page k f)"
  by (induction fs) (auto simp: live_def holds_page_def)

lemma frames_map_middle:
  assumes "\<forall>x \<in> set xs. \<not> holds_page k x" "holds_page k f"
  shows "frames_map (xs @ f # ys) k = Some (buffer_page f)"
  using assms frames_map_None [of xs k] by (simp add: map_add_def holds_page_def live_def)

lemma chain_map_get: "pt_get c key = (case chain_map c key of Some v \<Rightarrow> v | None \<Rightarrow> nullptr)"
proof (cases "first_match (holds_page key) c")
  case None
  then have "chain_map c key = None" by (simp add: chain_map_def frames_map_None first_match_None)
  then show ?thesis using None by (simp add: pt_get_def)
next
  case (Some f)
  obtain xs ys where s: "flat c = xs @ f # ys" "holds_page key f" "\<forall>x \<in> set xs. \<not> holds_page key x"
    using first_match_split [OF Some] by blast
  then have "chain_map c key = Some (buffer_page f)" unfolding chain_map_def s(1) by (intro frames_map_middle)
  then show ?thesis using Some by (simp add: pt_get_def)
qed

lemma set_page:
  assumes "fresh_order (xs @ f # ys)" "holds_page k f" "v \<noteq> nullptr"
  shows "frames_map (xs @ f\<lparr>buffer_page := v\<rparr> # ys) = (frames_map (xs @ f # ys))(k \<mapsto> v)"
    "fresh_order (xs @ f\<lparr>buffer_page := v\<rparr> # ys)"
proof -
  have f: "live f" "page_id f = k" using assms(2) by (auto simp: holds_page_def live_def)
  have "\<forall>x \<in> set xs. page_id x \<noteq> k" using assms(1) f by (auto simp: sorted_wrt_append)
  then have "frames_map xs k = None" by (auto simp: frames_map_None holds_page_def)
  then show "frames_map (xs @ f\<lparr>buffer_page := v\<rparr> # ys) = (frames_map (xs @ f # ys))(k \<mapsto> v)"
    using f assms(3) by (auto simp: fun_eq_iff map_add_def live_def split: option.splits)
  show "fresh_order (xs @ f\<lparr>buffer_page := v\<rparr> # ys)"
    using assms(1) f by (auto simp: sorted_wrt_append)
qed

lemma fill_free:
  assumes "fresh_order (xs @ f # ys)" "\<not> live f" "\<forall>x \<in> set xs. live x" "frames_map (xs @ f # ys) k = None" "v \<noteq> nullptr"
  shows "frames_map (xs @ f\<lparr>page_id := k, buffer_page := v\<rparr> # ys) = (frames_map (xs @ f # ys))(k \<mapsto> v)"
    "fresh_order (xs @ f\<lparr>page_id := k, buffer_page := v\<rparr> # ys)"
proof -
  have n: "\<not> holds_page k x" if "x \<in> set xs \<union> set ys" for x
    using assms(4) that unfolding frames_map_None by auto
  have "frames_map xs k = None" "frames_map ys k = None" using n by (auto simp: frames_map_None)
  then show "frames_map (xs @ f\<lparr>page_id := k, buffer_page := v\<rparr> # ys) = (frames_map (xs @ f # ys))(k \<mapsto> v)"
    using assms(2,5) by (auto simp: fun_eq_iff map_add_def live_def split: option.splits)
  have "page_id x \<noteq> k" if "x \<in> set xs" for x using n [of x] assms(3) that by (auto simp: holds_page_def live_def)
  moreover have "live y \<longrightarrow> page_id y \<noteq> k" if "y \<in> set ys" for y using n [of y] that by (auto simp: holds_page_def live_def)
  ultimately show "fresh_order (xs @ f\<lparr>page_id := k, buffer_page := v\<rparr> # ys)"
    using assms(1) by (auto simp: sorted_wrt_append)
qed

lemma append_frames:
  assumes "fresh_order xs" "\<forall>x \<in> set xs. live x" "frames_map xs k = None" "v \<noteq> nullptr"
  shows "frames_map (xs @ [\<lparr>page_id = k, buffer_page = v\<rparr>, zero_frame, zero_frame]) = (frames_map xs)(k \<mapsto> v)"
    "fresh_order (xs @ [\<lparr>page_id = k, buffer_page = v\<rparr>, zero_frame, zero_frame])"
proof -
  have "page_id x \<noteq> k" if "x \<in> set xs" for x
    using assms(2,3) that unfolding frames_map_None by (auto simp: holds_page_def live_def)
  then show "fresh_order (xs @ [\<lparr>page_id = k, buffer_page = v\<rparr>, zero_frame, zero_frame])"
    using assms(1) by (auto simp: sorted_wrt_append live_def zero_frame_def)
  show "frames_map (xs @ [\<lparr>page_id = k, buffer_page = v\<rparr>, zero_frame, zero_frame]) = (frames_map xs)(k \<mapsto> v)"
    using assms(3,4) by (auto simp: fun_eq_iff map_add_def live_def zero_frame_def split: option.splits)
qed

lemma clear_page:
  assumes "fresh_order (xs @ f # ys)" "\<forall>x \<in> set xs. page_id x \<noteq> k" "holds_page k f"
  shows "frames_map (xs @ f\<lparr>buffer_page := nullptr\<rparr> # ys) = (frames_map (xs @ f # ys))(k := None)"
    "fresh_order (xs @ f\<lparr>buffer_page := nullptr\<rparr> # ys)"
proof -
  have f: "live f" "page_id f = k" using assms(3) by (auto simp: holds_page_def live_def)
  have "frames_map xs k = None" using assms(2) by (auto simp: frames_map_None holds_page_def)
  moreover have "frames_map ys k = None" using assms(1) f by (auto simp: frames_map_None holds_page_def sorted_wrt_append live_def)
  ultimately show "frames_map (xs @ f\<lparr>buffer_page := nullptr\<rparr> # ys) = (frames_map (xs @ f # ys))(k := None)"
    using f by (auto simp: fun_eq_iff map_add_def live_def split: option.splits)
  show "fresh_order (xs @ f\<lparr>buffer_page := nullptr\<rparr> # ys)"
    using assms(1) f by (auto simp: sorted_wrt_append live_def)
qed

text \<open>The bucket counters.\<close>

lemma count_live_update:
  assumes "i < length fs"
  shows "length (filter live (fs[i := f'])) + of_bool (live (fs ! i)) = length (filter live fs) + of_bool (live f')"
proof -
  have "filter live fs = filter live (take i fs) @ filter live [fs ! i] @ filter live (drop (Suc i) fs)"
    using id_take_nth_drop [OF assms] by (metis append_Cons append_Nil filter_append)
  then show ?thesis by (simp add: upd_conv_take_nth_drop [OF assms])
qed

lemma bucket_ok_upd:
  assumes "bucket_ok b" "i < length (pb_frames b)"
    and "unat n + of_bool (live (pb_frames b ! i)) = unat (pb_count b) + of_bool (live f')"
  shows "bucket_ok (b\<lparr>pb_frames := (pb_frames b)[i := f'], pb_count := n\<rparr>)"
  using assms count_live_update [OF assms(2), of f'] by (simp add: bucket_ok_def)

lemma bucket_count_le: "bucket_ok b \<Longrightarrow> unat (pb_count b) \<le> 3"
  using length_filter_le [of live "pb_frames b"] by (simp add: bucket_ok_def)

lemma on_first_buckets:
  assumes "on_first P upd cnt c = Some c'" "list_all bucket_ok c"
    and "\<And>f n. P f \<Longrightarrow> unat n \<le> 3 \<Longrightarrow> unat (cnt n) + of_bool (live f) = unat n + of_bool (live (upd f))"
  shows "list_all bucket_ok c' \<and> (c \<noteq> [] \<longrightarrow> c' \<noteq> [])"
  using assms(1,2)
proof (induction c arbitrary: c')
  case (Cons b c)
  show ?case
  proof (cases "first_frame P (pb_frames b)")
    case (Some i)
    have "bucket_ok (b\<lparr>pb_frames := (pb_frames b)[i := upd (pb_frames b ! i)], pb_count := cnt (pb_count b)\<rparr>)"
      using Cons.prems(2) first_frame_Some [OF Some] assms(3) bucket_count_le [of b] by (intro bucket_ok_upd) auto
    then show ?thesis using Cons.prems Some by auto
  next
    case None
    then show ?thesis using Cons by auto
  qed
qed simp

lemma drop_dead:
  assumes "\<forall>x \<in> set block. \<not> live x"
  shows "frames_map (pre @ block @ post) = frames_map (pre @ post)"
    "fresh_order (pre @ block @ post) \<Longrightarrow> fresh_order (pre @ post)"
  using assms by (auto simp: sorted_wrt_append frames_map_def)

lemma remove_first_None: "remove_first P h c = None \<longleftrightarrow> (\<forall>x \<in> set (flat c). \<not> P x)"
  by (induction c arbitrary: h) (auto simp: first_frame_None Let_def split: option.splits dest!: first_frame_Some)

lemma remove_first_split:
  assumes "remove_first P h c = Some c'" "list_all bucket_ok c" "\<And>f. first_match P c = Some f \<Longrightarrow> live f"
  shows "\<exists>xs f ys pre block post. flat c = xs @ f # ys \<and> P f \<and> (\<forall>x \<in> set xs. \<not> P x) \<and>
      xs @ f\<lparr>buffer_page := nullptr\<rparr> # ys = pre @ block @ post \<and> (\<forall>x \<in> set block. \<not> live x) \<and>
      flat c' = pre @ post \<and> list_all bucket_ok c' \<and> (h \<longrightarrow> c' \<noteq> [])"
  using assms
proof (induction c arbitrary: c' h)
  case (Cons b c)
  show ?case
  proof (cases "first_frame P (pb_frames b)")
    case (Some i)
    note S = first_frame_split [OF Some] and I = first_frame_Some [OF Some]
    let ?f = "pb_frames b ! i"
    let ?cleared = "?f\<lparr>buffer_page := nullptr\<rparr>"
    let ?b' = "b\<lparr>pb_frames := (pb_frames b)[i := ?cleared], pb_count := pb_count b - 1\<rparr>"
    have lv: "live ?f" using Cons.prems(3) [of ?f] Some by simp
    have ok: "bucket_ok b" "list_all bucket_ok c" using Cons.prems(2) by auto
    have pos: "0 < unat (pb_count b)" using ok(1) lv I unfolding bucket_ok_def
      by (metis filter_empty_conv length_greater_0_conv nth_mem)
    then have cnt: "unat (pb_count b - 1) = unat (pb_count b) - 1" by (rule unat_pred)
    have b': "bucket_ok ?b'" using ok(1) I lv pos cnt by (intro bucket_ok_upd) (auto simp: live_def)
    let ?xs = "take i (pb_frames b)" and ?ys = "drop (Suc i) (pb_frames b) @ flat c"
    have fl: "flat (b # c) = ?xs @ ?f # ?ys" using S(1) by (metis append.assoc append_Cons flat_simps(2))
    have fl': "?xs @ ?cleared # ?ys = pb_frames ?b' @ flat c" using S(4) by simp
    show ?thesis
    proof (cases "pb_count b - 1 = 0 \<and> \<not> h")
      case True
      then have c': "c' = c" using Cons.prems(1) Some by (simp add: Let_def)
      have "filter live (pb_frames ?b') = []" using b' True by (simp add: bucket_ok_def)
      then have dead: "\<forall>x \<in> set (pb_frames ?b'). \<not> live x" by (simp add: filter_empty_conv)
      have eq: "?xs @ ?cleared # ?ys = [] @ pb_frames ?b' @ flat c" using fl' by simp
      have rest: "flat c' = [] @ flat c" "list_all bucket_ok c'" "h \<longrightarrow> c' \<noteq> []" using c' ok(2) True by auto
      show ?thesis
        by (intro exI [of _ ?xs] exI [of _ ?f] exI [of _ ?ys] exI [of _ "[]"] exI [of _ "pb_frames ?b'"] exI [of _ "flat c"] conjI;
            fact fl S(2) S(3) eq dead rest)
    next
      case False
      then have c': "c' = ?b' # c" using Cons.prems(1) Some by (auto simp: Let_def)
      have eq: "?xs @ ?cleared # ?ys = (pb_frames ?b' @ flat c) @ [] @ []" using fl' by simp
      have dead: "\<forall>x \<in> set []. \<not> live x" by simp
      have rest: "flat c' = (pb_frames ?b' @ flat c) @ []" "list_all bucket_ok c'" "h \<longrightarrow> c' \<noteq> []" using c' ok(2) b' by simp_all
      show ?thesis
        by (intro exI [of _ ?xs] exI [of _ ?f] exI [of _ ?ys] exI [of _ "pb_frames ?b' @ flat c"] exI [of _ "[]"] conjI;
            fact fl S(2) S(3) eq dead rest)
    qed
  next
    case None
    then obtain d where d: "remove_first P False c = Some d" "c' = b # d" using Cons.prems by auto
    have fm: "live f" if "first_match P c = Some f" for f using Cons.prems(3) [of f] None that by simp
    obtain xs f ys pre block post where x: "flat c = xs @ f # ys" "P f" "\<forall>x \<in> set xs. \<not> P x"
        "xs @ f\<lparr>buffer_page := nullptr\<rparr> # ys = pre @ block @ post" "\<forall>x \<in> set block. \<not> live x"
        "flat d = pre @ post" "list_all bucket_ok d"
      using Cons.IH [OF d(1) _ fm] Cons.prems(2) by auto
    have "flat (b # c) = (pb_frames b @ xs) @ f # ys" "\<forall>x \<in> set (pb_frames b @ xs). \<not> P x"
      "(pb_frames b @ xs) @ f\<lparr>buffer_page := nullptr\<rparr> # ys = (pb_frames b @ pre) @ block @ post"
      "flat c' = (pb_frames b @ pre) @ post" "list_all bucket_ok c'" "h \<longrightarrow> c' \<noteq> []"
      using x d(2) None Cons.prems(2) by (auto simp: first_frame_None)
    with x(2,5) show ?thesis by blast
  qed
qed simp

lemma chain_okD:
  assumes "chain_ok c" shows "c \<noteq> []" "list_all bucket_ok c" "fresh_order (flat c)"
  using assms by (auto simp: chain_ok_def)

lemma unat_inc_small: "unat n \<le> 3 \<Longrightarrow> unat (n + 1 :: u32) = Suc (unat n)"
  by (intro unat_Suc_lt) simp

lemma pt_place_ok:
  assumes "chain_ok c" "chain_map c k = None" "v \<noteq> nullptr"
  shows "chain_ok (pt_place c k v)" "chain_map (pt_place c k v) = (chain_map c)(k \<mapsto> v)"
proof -
  note C = chain_okD [OF assms(1)]
  let ?upd = "\<lambda>f. f\<lparr>page_id := k, buffer_page := v\<rparr>"
  have "chain_ok (pt_place c k v) \<and> chain_map (pt_place c k v) = (chain_map c)(k \<mapsto> v)"
  proof (cases "on_first is_free ?upd (\<lambda>n. n + 1) c")
    case (Some c')
    then have p: "pt_place c k v = c'" by (simp add: pt_place_def)
    obtain xs f ys where x: "flat c = xs @ f # ys" "is_free f" "\<forall>x \<in> set xs. \<not> is_free x" "flat c' = xs @ ?upd f # ys"
      using on_first_split [OF Some] by blast
    have "list_all bucket_ok c' \<and> (c \<noteq> [] \<longrightarrow> c' \<noteq> [])"
      by (rule on_first_buckets [OF Some C(2)]) (use assms(3) in \<open>simp add: unat_inc_small is_free_def live_def\<close>)
    then show ?thesis
      using fill_free [of xs f ys k v] C assms(2,3) x by (simp add: p chain_ok_def chain_map_def is_free_def live_def)
  next
    case None
    then have lv: "\<forall>x \<in> set (flat c). live x" by (simp add: on_first_None is_free_def live_def)
    let ?n = "zero_bucket\<lparr>pb_count := 1, pb_frames := (pb_frames zero_bucket)[0 := \<lparr>page_id = k, buffer_page = v\<rparr>]\<rparr>"
    have p: "pt_place c k v = c @ [?n]" using None by (simp add: pt_place_def)
    have n: "pb_frames ?n = [\<lparr>page_id = k, buffer_page = v\<rparr>, zero_frame, zero_frame]"
      by (simp add: zero_bucket_def num_entry_in_page_bucket_def numeral_3_eq_3)
    then have "bucket_ok ?n" using assms(3) unfolding bucket_ok_def n by (simp add: live_def zero_frame_def)
    then show ?thesis
      using append_frames [of "flat c" k v] C lv assms(2,3) n by (simp add: p chain_ok_def chain_map_def)
  qed
  then show "chain_ok (pt_place c k v)" "chain_map (pt_place c k v) = (chain_map c)(k \<mapsto> v)" by auto
qed

lemma set_page_ok:
  assumes "chain_ok c" "chain_map c k \<noteq> None" "v \<noteq> nullptr"
    and "on_first (holds_page k) (\<lambda>f. f\<lparr>buffer_page := v\<rparr>) id c = Some c'"
  shows "chain_ok c'" "chain_map c' = (chain_map c)(k \<mapsto> v)"
proof -
  note C = chain_okD [OF assms(1)]
  obtain xs f ys where x: "flat c = xs @ f # ys" "holds_page k f" "flat c' = xs @ f\<lparr>buffer_page := v\<rparr> # ys"
    using on_first_split [OF assms(4)] by blast
  have b: "list_all bucket_ok c' \<and> (c \<noteq> [] \<longrightarrow> c' \<noteq> [])"
    by (rule on_first_buckets [OF assms(4) C(2)]) (use assms(3) in \<open>simp add: holds_page_def live_def\<close>)
  have fo: "fresh_order (xs @ f # ys)" using C(3) x(1) by simp
  note S = set_page [OF fo x(2) assms(3)]
  show "chain_ok c'" using S(2) b C(1) x(3) by (simp add: chain_ok_def)
  show "chain_map c' = (chain_map c)(k \<mapsto> v)" unfolding chain_map_def x(1,3) by (rule S(1))
qed

lemma chain_map_match: "chain_map c k = map_option buffer_page (first_match (holds_page k) c)"
proof (cases "first_match (holds_page k) c")
  case None
  then have "frames_map (flat c) k = None" by (simp add: frames_map_None first_match_None)
  then show ?thesis using None by (simp add: chain_map_def)
next
  case (Some f)
  obtain xs ys where "flat c = xs @ f # ys" "holds_page k f" "\<forall>x \<in> set xs. \<not> holds_page k x"
    using first_match_split [OF Some] by blast
  then show ?thesis using Some by (simp add: chain_map_def frames_map_middle del: frames_map_simps)
qed

lemma pt_upsert_ok:
  assumes "chain_ok c" "v \<noteq> nullptr" "pt_upsert remote_of c k v = Inr (ret, old, c')"
  shows "chain_ok c' \<and> chain_map c' = (chain_map c)(k \<mapsto> v)"
proof (cases "first_match (holds_page k) c")
  case None
  then have "c' = pt_place c k v" "chain_map c k = None"
    using assms(3) by (auto simp: pt_upsert_def chain_map_match split: if_splits)
  then show ?thesis using pt_place_ok [OF assms(1) _ assms(2)] by simp
next
  case (Some f)
  then have "on_first (holds_page k) (\<lambda>f. f\<lparr>buffer_page := v\<rparr>) id c \<noteq> None"
    by (metis first_match_None on_first_None option.distinct(1))
  then obtain d where d: "on_first (holds_page k) (\<lambda>f. f\<lparr>buffer_page := v\<rparr>) id c = Some d" by blast
  then have "c' = d" using Some assms(3) by (simp add: pt_upsert_def)
  moreover have "chain_map c k \<noteq> None" using Some by (simp add: chain_map_match)
  ultimately show ?thesis using set_page_ok [OF assms(1) _ assms(2) d] by simp
qed

text \<open>Removing the frame a test finds, when the test can only stop at a live frame of the page.\<close>

lemma remove_first_ok:
  assumes ok: "chain_ok c" and rm: "remove_first P True c = Some c'"
    and stop: "\<And>xs f ys. flat c = xs @ f # ys \<Longrightarrow> P f \<Longrightarrow> \<forall>x \<in> set xs. \<not> P x \<Longrightarrow>
      holds_page k f \<and> (\<forall>x \<in> set xs. page_id x \<noteq> k)"
  shows "chain_ok c'" "chain_map c' = (chain_map c)(k := None)"
proof -
  note C = chain_okD [OF ok]
  have fm: "live f" if f: "first_match P c = Some f" for f
  proof -
    obtain xs ys where "flat c = xs @ f # ys" "P f" "\<forall>x \<in> set xs. \<not> P x" using first_match_split [OF f] by blast
    then show ?thesis using stop by (auto simp: holds_page_def live_def)
  qed
  obtain xs f ys pre block post where x: "flat c = xs @ f # ys" "P f" "\<forall>x \<in> set xs. \<not> P x"
      "xs @ f\<lparr>buffer_page := nullptr\<rparr> # ys = pre @ block @ post" "\<forall>x \<in> set block. \<not> live x"
      "flat c' = pre @ post" "list_all bucket_ok c'" "c' \<noteq> []"
    using remove_first_split [OF rm C(2) fm] by auto
  have s: "holds_page k f" "\<forall>x \<in> set xs. page_id x \<noteq> k" using stop [OF x(1-3)] by auto
  have fo: "fresh_order (xs @ f # ys)" using C(3) x(1) by simp
  note cl = clear_page [OF fo s(2,1), unfolded x(4)] and dr = drop_dead [OF x(5)]
  show "chain_ok c'" using dr(2) [OF cl(2)] x(6-8) by (simp add: chain_ok_def)
  show "chain_map c' = (chain_map c)(k := None)" unfolding chain_map_def x(6) x(1) using cl(1) dr(1) by simp
qed

lemma pt_remove_ok:
  assumes ok: "chain_ok c" and has: "chain_map c k \<noteq> None"
  shows "\<exists>c'. pt_remove c k = (True, c') \<and> chain_ok c' \<and> chain_map c' = (chain_map c)(k := None)"
proof -
  let ?P = "\<lambda>f. page_id f = k"
  obtain g where g: "g \<in> set (flat c)" "holds_page k g" using has by (auto simp: chain_map_def frames_map_None)
  then have "remove_first ?P True c \<noteq> None" unfolding remove_first_None by (auto simp: holds_page_def)
  then obtain c' where c': "remove_first ?P True c = Some c'" by blast
  have stop: "holds_page k f \<and> (\<forall>x \<in> set xs. page_id x \<noteq> k)"
    if x: "flat c = xs @ f # ys" "?P f" "\<forall>x \<in> set xs. \<not> ?P x" for xs f ys
  proof -
    have "fresh_order (xs @ f # ys)" using chain_okD(3) [OF ok] x(1) by simp
    then have "\<not> (g \<in> set ys)" using g(2) x(2) by (auto simp: sorted_wrt_append holds_page_def live_def)
    moreover have "g \<notin> set xs" using x(3) g(2) by (auto simp: holds_page_def)
    ultimately have "g = f" using g(1) unfolding x(1) by auto
    then show ?thesis using g(2) x(3) by blast
  qed
  have "chain_ok c'" by (rule remove_first_ok(1) [OF ok c']) (rule stop)
  moreover have "chain_map c' = (chain_map c)(k := None)" by (rule remove_first_ok(2) [OF ok c']) (rule stop)
  moreover have "pt_remove c k = (True, c')" using c' by (simp add: pt_remove_def)
  ultimately show ?thesis by blast
qed

lemma pt_remove_value_ok:
  assumes ok: "chain_ok c" and v: "v \<noteq> nullptr"
  shows "\<exists>c'. pt_remove_value c k v = (chain_map c k = Some v, c') \<and> chain_ok c' \<and>
    chain_map c' = (if chain_map c k = Some v then (chain_map c)(k := None) else chain_map c)"
proof -
  let ?P = "\<lambda>f. page_id f = k \<and> buffer_page f = v"
  have hp: "?P f \<Longrightarrow> holds_page k f" for f using v by (simp add: holds_page_def)
  have uniq: "\<forall>x \<in> set xs. page_id x \<noteq> k" if x: "flat c = xs @ f # ys" "?P f" for xs f ys
  proof -
    have "fresh_order (xs @ f # ys)" using chain_okD(3) [OF ok] x(1) by simp
    then show ?thesis using hp [OF x(2)] by (auto simp: sorted_wrt_append holds_page_def live_def)
  qed
  show ?thesis
  proof (cases "remove_first ?P True c")
    case None
    then have "\<forall>x \<in> set (flat c). \<not> ?P x" by (simp add: remove_first_None)
    moreover have "chain_map c k \<noteq> Some v"
    proof
      assume "chain_map c k = Some v"
      then obtain f where "first_match (holds_page k) c = Some f" "buffer_page f = v" by (auto simp: chain_map_match)
      moreover from this(1) obtain xs ys where "flat c = xs @ f # ys" "holds_page k f" using first_match_split by blast
      then have "f \<in> set (flat c)" "page_id f = k" by (simp_all add: holds_page_def)
      ultimately show False using \<open>\<forall>x \<in> set (flat c). \<not> ?P x\<close> by blast
    qed
    ultimately show ?thesis using None ok by (simp add: pt_remove_value_def)
  next
    case (Some c')
    have "\<not> (\<forall>x \<in> set (flat c). \<not> ?P x)" using Some remove_first_None [of ?P True c] by auto
    then obtain f where f: "f \<in> set (flat c)" "?P f" by blast
    then obtain xs ys where s: "flat c = xs @ f # ys" by (meson split_list)
    have "\<forall>x \<in> set xs. \<not> holds_page k x" using uniq [OF s f(2)] by (auto simp: holds_page_def)
    then have "chain_map c k = Some (buffer_page f)"
      unfolding chain_map_def s by (intro frames_map_middle hp f(2))
    then have "chain_map c k = Some v" using f(2) by simp
    moreover have stop: "holds_page k f \<and> (\<forall>x \<in> set xs. page_id x \<noteq> k)"
      if "flat c = xs @ f # ys" "?P f" "\<forall>x \<in> set xs. \<not> ?P x" for xs f ys using hp uniq that by blast
    have "chain_ok c'" by (rule remove_first_ok(1) [OF ok Some]) (rule stop)
    moreover have "chain_map c' = (chain_map c)(k := None)" by (rule remove_first_ok(2) [OF ok Some]) (rule stop)
    moreover have "pt_remove_value c k v = (True, c')" using Some by (simp add: pt_remove_value_def)
    ultimately show ?thesis by simp
  qed
qed

text \<open>A chain keeps the contract of a key-value store; null is not a page.\<close>

definition chain_lookup :: "chain \<Rightarrow> GlobalAddress \<Rightarrow> ptr option" where
  "chain_lookup c k = (if pt_get c k = nullptr then None else Some (pt_get c k))"

definition chain_accepts :: "(ptr \<Rightarrow> GlobalAddress) \<Rightarrow> chain \<Rightarrow> GlobalAddress \<Rightarrow> ptr \<Rightarrow> bool" where
  "chain_accepts remote_of c k v \<longleftrightarrow> v \<noteq> nullptr \<and> remote_of v = k"

definition chain_put :: "(ptr \<Rightarrow> GlobalAddress) \<Rightarrow> chain \<Rightarrow> GlobalAddress \<Rightarrow> ptr \<Rightarrow> chain" where
  "chain_put remote_of c k v = (case pt_upsert remote_of c k v of Inr (ret, old, c') \<Rightarrow> c' | Inl e \<Rightarrow> c)"

definition chain_del :: "chain \<Rightarrow> GlobalAddress \<Rightarrow> chain" where
  "chain_del c k = (if pt_get c k = nullptr then c else snd (pt_remove c k))"

lemma chain_map_not_null: "chain_map c k \<noteq> Some nullptr"
  using first_match_split [of "holds_page k" c] by (auto simp: chain_map_match holds_page_def)

lemma chain_lookup_map: "chain_lookup c k = chain_map c k"
  using chain_map_not_null [of c k] by (auto simp: chain_lookup_def chain_map_get split: option.splits)

lemma chain_put_ok:
  assumes "chain_ok c" "chain_accepts remote_of c k v"
  shows "chain_ok (chain_put remote_of c k v) \<and> chain_map (chain_put remote_of c k v) = (chain_map c)(k \<mapsto> v)"
proof -
  have "\<exists>ret old c'. pt_upsert remote_of c k v = Inr (ret, old, c')"
    using assms(2) by (auto simp: pt_upsert_def chain_accepts_def split: option.splits)
  then obtain ret old c' where u: "pt_upsert remote_of c k v = Inr (ret, old, c')" by blast
  then show ?thesis using pt_upsert_ok [OF assms(1) _ u] assms(2) by (simp add: chain_put_def chain_accepts_def)
qed

lemma chain_del_ok:
  assumes "chain_ok c"
  shows "chain_ok (chain_del c k) \<and> chain_map (chain_del c k) = (chain_map c)(k := None)"
proof (cases "chain_map c k")
  case None
  then show ?thesis using assms by (simp add: chain_del_def chain_map_get fun_upd_idem)
next
  case (Some v)
  then show ?thesis using pt_remove_ok [OF assms, of k] chain_map_not_null [of c k]
    by (auto simp: chain_del_def chain_map_get)
qed

interpretation dex_chain: kv_store chain_ok chain_map chain_lookup "chain_accepts remote_of" "chain_put remote_of" chain_del
  for remote_of
  by unfold_locales (simp_all add: chain_lookup_map chain_put_ok chain_del_ok)

section \<open>The table\<close>

definition table_ok :: "page_table \<Rightarrow> bool" where
  "table_ok t \<longleftrightarrow> 0 < bucket_num t \<and> length (pt_table t) = bucket_num t \<and> (\<forall>c \<in> set (pt_table t). chain_ok c)"

definition table_map :: "(u64 \<Rightarrow> u64) \<Rightarrow> page_table \<Rightarrow> (GlobalAddress \<rightharpoonup> ptr)" where
  "table_map hash t key = chain_map (pt_table t ! get_bucket_idx hash t key) key"

lemma get_bucket_idx_less: "table_ok t \<Longrightarrow> get_bucket_idx hash t key < length (pt_table t)"
  by (simp add: get_bucket_idx_def table_ok_def)

lemma chain_lock [simp]:
  "chain_map (b\<lparr>pb_lock := w\<rparr> # bs) = chain_map (b # bs)" "chain_ok (b\<lparr>pb_lock := w\<rparr> # bs) = chain_ok (b # bs)"
  by (simp_all add: chain_map_def chain_ok_def bucket_ok_def)

lemma with_lock_ok:
  assumes ok: "table_ok t" and wl: "with_lock hash t key body = Some (r, t')"
    and body: "\<And>c r c'. chain_ok c \<Longrightarrow> chain_map c = chain_map (pt_table t ! get_bucket_idx hash t key) \<Longrightarrow>
      body c = (r, c') \<Longrightarrow> Q r \<Longrightarrow> chain_ok c' \<and> chain_map c' = (chain_map c)(key := x)"
    and q: "Q r"
  shows "table_ok t' \<and> table_map hash t' = (table_map hash t)(key := x)"
proof -
  let ?i = "get_bucket_idx hash t key"
  let ?c = "pt_table t ! ?i"
  let ?locked = "(hd ?c)\<lparr>pb_lock := Lock32_get_lock (pb_lock (hd ?c))\<rparr> # tl ?c"
  have i: "?i < length (pt_table t)" by (rule get_bucket_idx_less [OF ok])
  have c: "chain_ok ?c" using ok i by (simp add: table_ok_def)
  then have ne: "hd ?c # tl ?c = ?c" using chain_okD(1) by simp
  obtain c' where b: "body ?locked = (r, c')"
    and t': "t' = t\<lparr>pt_table := (pt_table t)[?i := (hd c')\<lparr>pb_lock := Lock32_release_lock (pb_lock (hd c'))\<rparr> # tl c']\<rparr>"
    using wl by (auto simp: with_lock_def Let_def split: if_splits prod.splits)
  have l: "chain_ok ?locked" "chain_map ?locked = chain_map ?c" using c ne by simp_all
  have c': "chain_ok c'" "chain_map c' = (chain_map ?c)(key := x)" using body [OF l b q] l(2) by auto
  let ?d = "(hd c')\<lparr>pb_lock := Lock32_release_lock (pb_lock (hd c'))\<rparr> # tl c'"
  have d: "chain_ok ?d" "chain_map ?d = (chain_map ?c)(key := x)" using c' chain_okD(1) [OF c'(1)] by simp_all
  have idx: "get_bucket_idx hash t' k = get_bucket_idx hash t k" for k by (simp add: t' get_bucket_idx_def)
  have "table_map hash t' k = ((table_map hash t)(key := x)) k" for k
    using d(2) i unfolding table_map_def idx by (cases "get_bucket_idx hash t k = ?i") (auto simp: t')
  moreover have "table_ok t'" using ok d(1) set_update_subset_insert [of "pt_table t" ?i ?d] by (auto simp: table_ok_def t')
  ultimately show ?thesis by blast
qed

section \<open>Properties of the page table\<close>

text \<open>
  C29: \<open>upsert_with_lock\<close> of a page, when it neither waits for ever nor aborts, maps the address to
  the page, keeps every other address, and keeps the table well-formed (counters exact, no page in
  two frames, no stale frame in front of a live one).
\<close>

theorem upsert_with_lock_correct:
  assumes "table_ok t" "v \<noteq> nullptr" "upsert_with_lock hash remote_of t key v = Some (Inr r, t')"
  shows "table_ok t' \<and> table_map hash t' = (table_map hash t)(key \<mapsto> v)"
  by (rule with_lock_ok [OF assms(1) assms(3) [unfolded upsert_with_lock_def], where Q = "\<lambda>r. \<exists>x. r = Inr x"])
    (use pt_upsert_ok [OF _ assms(2)] in \<open>auto split: sum.splits\<close>)

text \<open>
  \<open>check_and_remove\<close> removes exactly the given address: it reports whether the address was
  there, and the search by address alone stops at the live frame although stale frames keep their
  old addresses.
\<close>

theorem check_and_remove_correct:
  assumes "table_ok t" "check_and_remove hash t key = Some (ret, t')"
  shows "ret = (table_map hash t key \<noteq> None) \<and> table_ok t' \<and> table_map hash t' = (table_map hash t)(key := None)"
proof -
  let ?c = "pt_table t ! get_bucket_idx hash t key"
  have get: "pt_get ?c key = nullptr \<longleftrightarrow> table_map hash t key = None"
    using chain_map_not_null [of ?c key] by (auto simp: chain_map_get table_map_def split: option.splits)
  show ?thesis
  proof (cases "table_map hash t key = None")
    case True
    then show ?thesis
      using assms get by (auto simp: check_and_remove_def get_with_lock_def Let_def fun_upd_idem split: if_splits)
  next
    case False
    then have wl: "with_lock hash t key (\<lambda>c. pt_remove c key) = Some (ret, t')"
      using assms(2) get by (auto simp: check_and_remove_def get_with_lock_def Let_def split: if_splits)
    have rm: "r = True \<and> chain_ok c' \<and> chain_map c' = (chain_map c)(key := None)"
      if "chain_ok c" "chain_map c = chain_map ?c" "pt_remove c key = (r, c')" for c r c'
    proof -
      have "chain_map c key \<noteq> None" using False that(2) by (simp add: table_map_def)
      from pt_remove_ok [OF that(1) this] that(3) show ?thesis by auto
    qed
    have "table_ok t' \<and> table_map hash t' = (table_map hash t)(key := None)"
      by (rule with_lock_ok [OF assms(1) wl, where Q = "\<lambda>_. True"], drule (2) rm, simp_all)
    moreover have ret
    proof -
      let ?locked = "(hd ?c)\<lparr>pb_lock := Lock32_get_lock (pb_lock (hd ?c))\<rparr> # tl ?c"
      have "chain_ok ?c" using assms(1) get_bucket_idx_less [OF assms(1)] by (simp add: table_ok_def)
      then have l: "chain_ok ?locked" "chain_map ?locked = chain_map ?c" using chain_okD(1) by simp_all
      obtain c' where b: "pt_remove ?locked key = (ret, c')"
        using wl by (auto simp: with_lock_def Let_def split: if_splits prod.splits)
      show ret using rm [OF l b] by simp
    qed
    ultimately show ?thesis using False by simp
  qed
qed

text \<open>
  C30: a chain of buckets under any sequence of \<open>upsert\<close> and guarded \<open>remove\<close> behaves as a map: a
  lookup returns what the last operation on the address left.
\<close>

theorem chain_is_map:
  assumes "chain_ok c" "all_accepted (chain_accepts remote_of) (chain_put remote_of) chain_del ops c"
  shows "chain_ok (run_ops (chain_put remote_of) chain_del ops c) \<and>
    chain_lookup (run_ops (chain_put remote_of) chain_del ops c) k =
      (case last_write ops k of None \<Rightarrow> chain_lookup c k | Some r \<Rightarrow> r)"
  by (intro conjI dex_chain.run_inv dex_chain.lookup_run assms)

text \<open>
  \<open>remove(head_bucket, key)\<close> tests the address alone.  Called for an address whose only frame is
  stale it reports success and takes one from a counter that does not count that frame: on a
  bucket that once held the page and is empty, \<open>count_\<close> becomes \<open>2^32 - 1\<close>.
\<close>

theorem remove_stale_underflow:
  assumes "pb_frames b = f # fs" "page_id f = key" "buffer_page f = nullptr" "pb_count b = 0"
  shows "\<exists>b'. pt_remove [b] key = (True, [b']) \<and> pb_count b' = 2 ^ 32 - 1 \<and> pt_get [b'] key = pt_get [b] key"
proof -
  have s: "f\<lparr>buffer_page := nullptr\<rparr> = f" using assms(3) by (cases f) simp
  have "(0 :: u32) - 1 = 2 ^ 32 - 1" by simp
  moreover have "pb_frames b = pb_frames (b\<lparr>pb_frames := f\<lparr>buffer_page := nullptr\<rparr> # fs, pb_count := - 1\<rparr>)"
    using assms(1) s by simp
  then have "pt_get [b\<lparr>pb_frames := f\<lparr>buffer_page := nullptr\<rparr> # fs, pb_count := - 1\<rparr>] key = pt_get [b] key"
    by (simp only: pt_get_def first_match.simps)
  ultimately show ?thesis using assms by (simp add: pt_remove_def Let_def)
qed

definition sample_table :: page_table where
  "sample_table = page_table_new 6"

lemma zero_chain_ok: "chain_ok [zero_bucket]"
  by (simp add: chain_ok_def bucket_ok_def zero_bucket_def num_entry_in_page_bucket_def zero_frame_def live_def numeral_3_eq_3)

lemma sample_table_ok: "table_ok sample_table"
  using zero_chain_ok by (simp add: table_ok_def sample_table_def page_table_new_def num_entry_in_page_bucket_def Let_def)

theorem upsert_with_lock_correct_witness:
  "\<exists>r t'. upsert_with_lock id id sample_table 64 64 = Some (Inr r, t') \<and> table_map id t' 64 = Some 64"
proof -
  have "case upsert_with_lock id id sample_table 64 64 of Some (Inr r, t') \<Rightarrow> True | _ \<Rightarrow> False" by code_simp
  then obtain r t' where u: "upsert_with_lock id id sample_table 64 64 = Some (Inr r, t')"
    by (auto split: option.splits sum.splits)
  from upsert_with_lock_correct [OF sample_table_ok _ u] u show ?thesis by auto
qed

theorem check_and_remove_correct_witness:
  "\<exists>t'. check_and_remove id sample_table 64 = Some (False, t') \<and> table_ok t'"
proof -
  have "case check_and_remove id sample_table 64 of Some (ret, t') \<Rightarrow> ret = False | _ \<Rightarrow> False" by code_simp
  then obtain t' where u: "check_and_remove id sample_table 64 = Some (False, t')"
    by (auto split: option.splits)
  from check_and_remove_correct [OF sample_table_ok u] u show ?thesis by auto
qed

theorem chain_is_map_witness:
  "chain_lookup (run_ops (chain_put id) chain_del [Put 8 8, Put 16 16, Del 8, Put 24 24, Put 32 32, Put 8 8] [zero_bucket]) 8 = Some 8"
proof -
  have "all_accepted (chain_accepts id) (chain_put id) chain_del
      [Put 8 8, Put 16 16, Del 8, Put 24 24, Put 32 32, Put 8 8] [zero_bucket]" by code_simp
  from chain_is_map [OF zero_chain_ok this, of 8] show ?thesis by simp
qed

theorem remove_stale_underflow_witness:
  "\<exists>b'. pt_remove [zero_bucket] 0 = (True, [b']) \<and> pb_count b' = 2 ^ 32 - 1"
proof -
  have z: "pb_frames zero_bucket = zero_frame # [zero_frame, zero_frame]" "pb_count zero_bucket = 0"
    by (simp_all add: zero_bucket_def num_entry_in_page_bucket_def numeral_3_eq_3)
  have f: "page_id zero_frame = 0" "buffer_page zero_frame = nullptr" by (simp_all add: zero_frame_def)
  show ?thesis using remove_stale_underflow [OF z(1) f z(2)] by blast
qed

end
