(* ===== verification/Btree_Node.thy ===== *)
theory Btree_Node
  imports Kv_Store Global_Addr
begin

text \<open>
  The pages of the DEX tree, \<open>dex/include/cache/btree_node.h\<close>: the 64-byte header \<open>NodeBase\<close>,
  the sorted leaf \<open>BTreeLeaf\<close> and the inner node \<open>BTreeInner\<close> with its swizzle bitmap.  Arrays are
  lists of their full capacity, so slots beyond \<open>count\<close> keep whatever they held.
\<close>

section \<open>Data\<close>

definition pageSize :: nat where "pageSize = 1024"

definition swizzle_tag :: u64 where "swizzle_tag = push_bit 63 1"

definition swizzle_hide :: u64 where "swizzle_hide = push_bit 63 1 - 1"

datatype PageType = BTreeInner | BTreeLeaf

record NodeBase =
  typeVersionLockObsolete :: u64
  front_version :: u64
  remote_address :: GlobalAddress
  bitmap :: u64
  parent_ptr :: ptr
  node_type :: PageType
  count :: u8
  level :: u8
  pos_state :: u8
  obsolete :: bool
  shared :: bool
  is_smo :: bool
  dirty :: bool
  min_limit :: Key
  max_limit :: Key

record BTreeLeafNode = NodeBase +
  data :: "(Key \<times> Value) list"
  next_leaf :: GlobalAddress
  leaf_back_version :: u64

record BTreeInnerNode = NodeBase +
  children :: "GlobalAddress list"
  keys :: "Key list"
  inner_back_version :: u64

text \<open>\<open>sizeof(NodeBase)\<close> is 64, a key-value pair and a key with its child take 16 bytes.\<close>

definition leaf_maxEntries :: nat where
  "leaf_maxEntries = (pageSize - (8 * 2 + 8 * 2) - 64) div 16"

definition inner_maxEntries :: nat where
  "inner_maxEntries = (pageSize - 8 - 64) div 16"

lemma maxEntries_values [simp]: "leaf_maxEntries = 58" "inner_maxEntries = 59"
  by (simp_all add: leaf_maxEntries_def inner_maxEntries_def pageSize_def)

section \<open>Operations of the leaf\<close>

text \<open>
  The constructor runs in place on a buffer: the array, \<open>next_leaf\<close> apart, and the lock word's
  initialiser \<open>0b1000\<close> are all it leaves to the members' own initialisation.
\<close>

definition new_leaf :: "(Key \<times> Value) list \<Rightarrow> GlobalAddress \<Rightarrow> BTreeLeafNode" where
  "new_leaf garbage remote =
     \<lparr>typeVersionLockObsolete = 0b1000, front_version = 0, remote_address = remote, bitmap = 0,
      parent_ptr = 0, node_type = BTreeLeaf, count = 0, level = 0, pos_state = 0,
      obsolete = False, shared = False, is_smo = False, dirty = True,
      min_limit = 0, max_limit = - 1,
      data = garbage, next_leaf = Null, leaf_back_version = 0\<rparr>"

definition leaf_isFull :: "BTreeLeafNode \<Rightarrow> bool" where
  "leaf_isFull l \<longleftrightarrow> unat (count l) = leaf_maxEntries"

definition leaf_check_consistent :: "BTreeLeafNode \<Rightarrow> bool" where
  "leaf_check_consistent l \<longleftrightarrow> front_version l = leaf_back_version l"

text \<open>
  The do-while loop of \<open>lowerBound\<close>, over the keys of the whole array: one round looks at the
  middle and either returns it or narrows the interval and tests \<open>lower < upper\<close>.
\<close>

function lowerBound_loop :: "Key list \<Rightarrow> Key \<Rightarrow> nat \<Rightarrow> nat \<Rightarrow> nat" where
  "lowerBound_loop ks k lower upper =
     (let mid = (upper - lower) div 2 + lower in
      if k < ks ! mid then (if lower < mid then lowerBound_loop ks k lower mid else lower)
      else if ks ! mid < k then
        (if mid + 1 < upper then lowerBound_loop ks k (mid + 1) upper else mid + 1)
      else mid)"
  by pat_completeness auto
termination
  by (relation "measure (\<lambda>(ks, k, lower, upper). upper - lower)") auto

declare lowerBound_loop.simps [simp del]

definition leaf_lowerBound :: "BTreeLeafNode \<Rightarrow> Key \<Rightarrow> nat" where
  "leaf_lowerBound l k = lowerBound_loop (map fst (data l)) k 0 (unat (count l))"

definition leaf_hit :: "BTreeLeafNode \<Rightarrow> nat \<Rightarrow> Key \<Rightarrow> bool" where
  "leaf_hit l pos k \<longleftrightarrow> pos < unat (count l) \<and> fst (data l ! pos) = k"

definition leaf_find :: "BTreeLeafNode \<Rightarrow> Key \<Rightarrow> Value option" where
  "leaf_find l k =
     (let pos = leaf_lowerBound l k in
      if leaf_hit l pos k then Some (snd (data l ! pos)) else None)"

text \<open>\<open>range_scan\<close> copies into the caller's array and returns the number of copied pairs.\<close>

definition leaf_range_scan :: "BTreeLeafNode \<Rightarrow> Key \<Rightarrow> nat \<Rightarrow> (Key \<times> Value) list" where
  "leaf_range_scan l k num =
     (let pos = leaf_lowerBound l k in
      if leaf_hit l pos k then
        (let remain_count = unat (count l) - pos; copy_count = min remain_count num in
         take copy_count (drop pos (data l)))
      else [])"

definition leaf_bump :: "BTreeLeafNode \<Rightarrow> BTreeLeafNode" where
  "leaf_bump l = l\<lparr>front_version := front_version l + 1, leaf_back_version := leaf_back_version l + 1\<rparr>"

definition leaf_insert :: "BTreeLeafNode \<Rightarrow> Key \<Rightarrow> Value \<Rightarrow> bool \<times> BTreeLeafNode" where
  "leaf_insert l0 k p =
     (let l = l0\<lparr>dirty := True\<rparr> in
      if count l \<noteq> 0 then
        (let pos = leaf_lowerBound l k in
         if leaf_hit l pos k then
           (False, leaf_bump (l\<lparr>data := (data l)[pos := (fst (data l ! pos), p)]\<rparr>))
         else if leaf_maxEntries \<le> unat (count l) then (False, l)
         else
           (True, leaf_bump (l\<lparr>
              data := (mem_copy (pos + 1) (data l) pos (unat (count l) - pos) (data l))[pos := (k, p)],
              count := count l + 1\<rparr>)))
      else
        (True, leaf_bump (l\<lparr>data := (data l)[0 := (k, p)], count := count l + 1\<rparr>)))"

definition leaf_remove :: "BTreeLeafNode \<Rightarrow> Key \<Rightarrow> bool \<times> BTreeLeafNode" where
  "leaf_remove l k =
     (if count l \<noteq> 0 then
        (let pos = leaf_lowerBound l k in
         if leaf_hit l pos k then
           (True, leaf_bump (l\<lparr>dirty := True,
              data := mem_copy pos (data l) (pos + 1) (unat (count l) - pos - 1) (data l),
              count := count l - 1\<rparr>))
         else (False, l))
      else (False, l))"

definition leaf_update :: "BTreeLeafNode \<Rightarrow> Key \<Rightarrow> Value \<Rightarrow> bool \<times> BTreeLeafNode" where
  "leaf_update l k p =
     (let pos = leaf_lowerBound l k in
      if leaf_hit l pos k then
        (True, leaf_bump (l\<lparr>dirty := True, data := (data l)[pos := (fst (data l ! pos), p)]\<rparr>))
      else (False, l))"

text \<open>\<open>split(sep, newLeaf, remote_node)\<close>: the separator, this leaf and the new one.\<close>

definition leaf_split ::
  "BTreeLeafNode \<Rightarrow> BTreeLeafNode \<Rightarrow> GlobalAddress \<Rightarrow> Key \<times> BTreeLeafNode \<times> BTreeLeafNode" where
  "leaf_split l newLeaf remote_node =
     (let new_count = count l - count l div 2;
          left_count = count l - new_count;
          new_data = mem_copy 0 (data l) (unat left_count) (unat new_count) (data newLeaf);
          sep = fst (data l ! (unat left_count - 1))
      in (sep,
          l\<lparr>front_version := front_version l + 1, is_smo := True, count := left_count,
            next_leaf := remote_node, max_limit := sep, dirty := True,
            leaf_back_version := leaf_back_version l + 1\<rparr>,
          newLeaf\<lparr>count := new_count, data := new_data, min_limit := sep, max_limit := max_limit l\<rparr>))"

definition rangeValid :: "('a NodeBase_scheme) \<Rightarrow> Key \<Rightarrow> bool" where
  "rangeValid n k \<longleftrightarrow>
     (if 0 = k \<and> k = min_limit n then True
      else if k \<le> min_limit n \<or> max_limit n < k then False else True)"

section \<open>Operations of the inner node\<close>

definition new_inner :: "GlobalAddress list \<Rightarrow> Key list \<Rightarrow> u8 \<Rightarrow> GlobalAddress \<Rightarrow> BTreeInnerNode" where
  "new_inner garbage_children garbage_keys cur_level remote =
     \<lparr>typeVersionLockObsolete = 0b1000, front_version = 0, remote_address = remote, bitmap = 0,
      parent_ptr = 0, node_type = BTreeInner, count = 0, level = cur_level, pos_state = 0,
      obsolete = False, shared = False, is_smo = False, dirty = True,
      min_limit = 0, max_limit = - 1,
      children = garbage_children, keys = garbage_keys, inner_back_version = 0\<rparr>"

definition inner_isFull :: "BTreeInnerNode \<Rightarrow> bool" where
  "inner_isFull n \<longleftrightarrow> unat (count n) = inner_maxEntries - 1"

definition inner_check_consistent :: "BTreeInnerNode \<Rightarrow> bool" where
  "inner_check_consistent n \<longleftrightarrow> front_version n = inner_back_version n"

definition inner_lowerBound :: "BTreeInnerNode \<Rightarrow> Key \<Rightarrow> nat" where
  "inner_lowerBound n k = lowerBound_loop (keys n) k 0 (unat (count n))"

text \<open>The loop of \<open>findIdx\<close> from index \<open>i\<close> up to \<open>end\<close>; \<open>-1\<close> when nothing matches.\<close>

function findIdx_loop :: "GlobalAddress list \<Rightarrow> u64 \<Rightarrow> nat \<Rightarrow> nat \<Rightarrow> int" where
  "findIdx_loop cs target_addr i e =
     (if i < e then (if cs ! i = target_addr then int i else findIdx_loop cs target_addr (i + 1) e)
      else - 1)"
  by pat_completeness auto
termination
  by (relation "measure (\<lambda>(cs, a, i, e). e - i)") auto

declare findIdx_loop.simps [simp del]

definition findIdx :: "BTreeInnerNode \<Rightarrow> u64 \<Rightarrow> int" where
  "findIdx n target_addr = findIdx_loop (children n) target_addr 0 (unat (count n) + 1)"

definition set_bitmap :: "('a NodeBase_scheme) \<Rightarrow> nat \<Rightarrow> ('a NodeBase_scheme)" where
  "set_bitmap n idx = n\<lparr>bitmap := bitmap n OR push_bit idx 1\<rparr>"

definition unset_bitmap :: "('a NodeBase_scheme) \<Rightarrow> nat \<Rightarrow> ('a NodeBase_scheme)" where
  "unset_bitmap n idx = n\<lparr>bitmap := bitmap n AND NOT (push_bit idx 1)\<rparr>"

definition test_bimap :: "('a NodeBase_scheme) \<Rightarrow> nat \<Rightarrow> bool" where
  "test_bimap n idx \<longleftrightarrow> bitmap n AND push_bit idx 1 \<noteq> 0"

text \<open>The instructions \<open>tzcnt\<close> and \<open>lzcnt\<close>: the zeros below the lowest and above the highest set bit.\<close>

definition tzcnt_u64 :: "u64 \<Rightarrow> nat" where
  "tzcnt_u64 w = length (takeWhile (\<lambda>i. \<not> bit w i) [0..<64])"

definition lzcnt_u64 :: "u64 \<Rightarrow> nat" where
  "lzcnt_u64 w = length (takeWhile (\<lambda>i. \<not> bit w i) (rev [0..<64]))"

definition closest_set :: "BTreeInnerNode \<Rightarrow> nat \<Rightarrow> int" where
  "closest_set n pos =
     (if bitmap n = 0 then - 1
      else
        (let bit_pos = min pos 63;
             bitmap_right_sets = bitmap n AND NOT (push_bit bit_pos 1 - 1);
             closest_right_gap_distance =
               (if bitmap_right_sets \<noteq> 0 then int (tzcnt_u64 bitmap_right_sets) - int bit_pos else 64);
             bitmap_left_sets = bitmap n AND (push_bit bit_pos 1 - 1);
             closest_left_gap_distance =
               (if bitmap_left_sets \<noteq> 0 then int bit_pos - (63 - int (lzcnt_u64 bitmap_left_sets)) else 64)
         in if closest_right_gap_distance < closest_left_gap_distance \<and>
               int pos + closest_right_gap_distance < int (unat (count n)) + 1
            then int pos + closest_right_gap_distance
            else int pos - closest_left_gap_distance))"

text \<open>\<open>split(sep, newInner)\<close>: the separator, this node and the new one.\<close>

definition inner_split :: "BTreeInnerNode \<Rightarrow> BTreeInnerNode \<Rightarrow> Key \<times> BTreeInnerNode \<times> BTreeInnerNode" where
  "inner_split n newInner =
     (let new_count = count n - count n div 2;
          left_count = count n - new_count - 1;
          c = unat left_count;
          sep = keys n ! c
      in (sep,
          n\<lparr>front_version := front_version n + 1, count := left_count, max_limit := sep,
            bitmap := bitmap n AND (push_bit (c + 1) 1 - 1), dirty := True, is_smo := True,
            inner_back_version := inner_back_version n + 1\<rparr>,
          newInner\<lparr>count := new_count,
            keys := mem_copy 0 (keys n) (c + 1) (unat new_count + 1) (keys newInner),
            children := mem_copy 0 (children n) (c + 1) (unat new_count + 1) (children newInner),
            min_limit := sep, max_limit := max_limit n,
            bitmap := drop_bit (c + 1) (bitmap n)\<rparr>))"

text \<open>\<open>insert\<close> asserts \<open>count < maxEntries - 1\<close>; its callers split full nodes first.\<close>

definition inner_insert :: "BTreeInnerNode \<Rightarrow> Key \<Rightarrow> GlobalAddress \<Rightarrow> BTreeInnerNode" where
  "inner_insert n k child =
     (let pos = inner_lowerBound n k;
          m = unat (count n) + 1 - pos;
          ks = (mem_copy (pos + 1) (keys n) pos m (keys n))[pos := k];
          cs = (mem_copy (pos + 1) (children n) pos m (children n))[pos := child];
          cs' = cs[pos := cs ! (pos + 1), pos + 1 := cs ! pos];
          upper_part = push_bit (pos + 2) (drop_bit (pos + 1) (bitmap n));
          bm = (bitmap n AND (push_bit (pos + 1) 1 - 1)) OR upper_part;
          n' = n\<lparr>front_version := front_version n + 1, keys := ks, children := cs', bitmap := bm\<rparr>;
          n'' = (if child AND swizzle_tag \<noteq> 0 then set_bitmap n' (pos + 1) else n')
      in n''\<lparr>count := count n + 1, dirty := True, inner_back_version := inner_back_version n + 1\<rparr>)"

text \<open>
  \<open>validate_bitmap_correctness\<close> exits the process at the first child whose tag and bit differ;
  the model returns whether it comes back.
\<close>

definition validate_bitmap_correctness :: "BTreeInnerNode \<Rightarrow> bool" where
  "validate_bitmap_correctness n \<longleftrightarrow>
     list_all (\<lambda>i. (children n ! i AND swizzle_tag \<noteq> 0) = test_bimap n i) [0..<unat (count n) + 1]"

section \<open>The binary search\<close>

lemma sorted_take_nth: "sorted_wrt (<) (take n ks) \<Longrightarrow> i < j \<Longrightarrow> j < n \<Longrightarrow> n \<le> length ks \<Longrightarrow> ks ! i < (ks ! j :: 'a::linorder)"
  using sorted_wrt_nth_less [of "(<)" "take n ks" i j] by simp

lemma lowerBound_loop_correct:
  assumes "sorted_wrt (<) (take n ks)" "n \<le> length ks" "lower < upper" "upper \<le> n"
    and "\<And>j. j < lower \<Longrightarrow> ks ! j < k" "\<And>j. upper \<le> j \<Longrightarrow> j < n \<Longrightarrow> k < ks ! j"
  shows "is_lower_bound (take n ks) k (lowerBound_loop ks k lower upper)"
  using assms
proof (induction ks k lower upper rule: lowerBound_loop.induct)
  case (1 ks k lower upper)
  let ?mid = "(upper - lower) div 2 + lower"
  have mid: "lower \<le> ?mid" "?mid < upper" using "1.prems"(3) by auto
  have srt: "ks ! i < ks ! j" if "i < j" "j < n" for i j
    using sorted_take_nth [OF "1.prems"(1) that "1.prems"(2)] .
  consider (lt) "k < ks ! ?mid" | (gt) "ks ! ?mid < k" | (eq) "ks ! ?mid = k" by fastforce
  then show ?case
  proof cases
    case lt
    have up: "k < ks ! j" if "?mid \<le> j" "j < n" for j
      using lt srt [of ?mid j] that by (cases "?mid = j") auto
    show ?thesis
    proof (cases "lower < ?mid")
      case True
      have "is_lower_bound (take n ks) k (lowerBound_loop ks k lower ?mid)"
        by (rule "1.IH"(1) [OF refl lt True]) (use "1.prems" mid True up in auto)
      then show ?thesis using lt True by (simp add: lowerBound_loop.simps [of ks k lower upper] Let_def)
    next
      case False
      then have "lowerBound_loop ks k lower upper = lower"
        using lt by (simp add: lowerBound_loop.simps [of ks k lower upper] Let_def)
      moreover have "is_lower_bound (take n ks) k lower"
        by (rule is_lower_bound_nthI) (use False mid "1.prems" up in \<open>auto intro: less_imp_le\<close>)
      ultimately show ?thesis by simp
    qed
  next
    case gt
    have lo: "ks ! j < k" if "j < ?mid + 1" for j
      using gt srt [of j ?mid] that mid "1.prems"(4) by (cases "?mid = j") auto
    show ?thesis
    proof (cases "?mid + 1 < upper")
      case True
      have "is_lower_bound (take n ks) k (lowerBound_loop ks k (?mid + 1) upper)"
        by (rule "1.IH"(2) [OF refl less_not_sym [OF gt] gt True]) (use "1.prems" True lo in auto)
      then show ?thesis
        using gt less_not_sym [OF gt] True by (simp add: lowerBound_loop.simps [of ks k lower upper] Let_def)
    next
      case False
      then have "lowerBound_loop ks k lower upper = ?mid + 1"
        using gt less_not_sym [OF gt] by (simp add: lowerBound_loop.simps [of ks k lower upper] Let_def)
      moreover have "is_lower_bound (take n ks) k (?mid + 1)"
        by (rule is_lower_bound_nthI) (use False mid "1.prems" lo in \<open>auto intro: less_imp_le\<close>)
      ultimately show ?thesis by simp
    qed
  next
    case eq
    then have "lowerBound_loop ks k lower upper = ?mid"
      by (simp add: lowerBound_loop.simps [of ks k lower upper] Let_def)
    moreover have "is_lower_bound (take n ks) k ?mid"
    proof (rule is_lower_bound_nthI)
      fix j assume "?mid \<le> j" "j < length (take n ks)"
      then show "k \<le> take n ks ! j"
        using eq srt [of ?mid j] by (cases "?mid = j") (auto intro: less_imp_le)
    qed (use mid "1.prems" eq srt in auto)
    ultimately show ?thesis by simp
  qed
qed

section \<open>The leaf is a bounded sorted map\<close>

definition entries :: "BTreeLeafNode \<Rightarrow> (Key \<times> Value) list" where
  "entries l = take (unat (count l)) (data l)"

definition leaf_wf :: "BTreeLeafNode \<Rightarrow> bool" where
  "leaf_wf l \<longleftrightarrow> length (data l) = leaf_maxEntries \<and> unat (count l) \<le> leaf_maxEntries \<and>
     sorted_keys (entries l)"

definition leaf_map :: "BTreeLeafNode \<Rightarrow> (Key \<rightharpoonup> Value)" where
  "leaf_map l = map_of (entries l)"

definition leaf_accepts :: "BTreeLeafNode \<Rightarrow> Key \<Rightarrow> Value \<Rightarrow> bool" where
  "leaf_accepts l k v \<longleftrightarrow> leaf_map l k \<noteq> None \<or> unat (count l) < leaf_maxEntries"

lemma leaf_wfD:
  assumes "leaf_wf l"
  shows "length (data l) = 58" "unat (count l) \<le> 58" "sorted_keys (entries l)"
    "length (entries l) = unat (count l)" "distinct (map fst (entries l))"
  using assms by (auto simp: leaf_wf_def entries_def sorted_keys_distinct)

lemma leaf_lowerBound_correct:
  assumes "leaf_wf l" "count l \<noteq> 0"
  shows "is_lower_bound (map fst (entries l)) k (leaf_lowerBound l k)"
proof -
  have "0 < unat (count l)" using assms(2) by (simp add: unat_gt_0)
  then show ?thesis
    using leaf_wfD [OF assms(1)] unfolding entries_def leaf_lowerBound_def take_map [symmetric]
    by (intro lowerBound_loop_correct) auto
qed

text \<open>A hit is exactly a key of the leaf, and then the position is its own.\<close>

lemma leaf_hit_iff:
  assumes "leaf_wf l"
  shows "leaf_hit l (leaf_lowerBound l k) k \<longleftrightarrow> k \<in> fst ` set (entries l)"
proof (cases "count l = 0")
  case True
  then show ?thesis by (simp add: leaf_hit_def entries_def)
next
  case False
  let ?pos = "leaf_lowerBound l k"
  note lb = leaf_lowerBound_correct [OF assms False, of k]
  show ?thesis
  proof
    assume "leaf_hit l ?pos k"
    then have "?pos < length (entries l)" "fst (entries l ! ?pos) = k"
      using leaf_wfD [OF assms] by (auto simp: leaf_hit_def entries_def)
    then show "k \<in> fst ` set (entries l)" by (metis image_eqI nth_mem)
  next
    assume "k \<in> fst ` set (entries l)"
    then obtain i where i: "i < length (entries l)" "map fst (entries l) ! i = k"
      by (auto simp: in_set_conv_nth)
    then have "?pos \<le> i" using is_lower_bound_nthD(1) [OF lb, of i] by fastforce
    then have "?pos < length (entries l)" using i by simp
    moreover have "map fst (entries l) ! ?pos = k"
    proof (cases "?pos = i")
      case False
      then have "map fst (entries l) ! ?pos < k"
        using \<open>?pos \<le> i\<close> i leaf_wfD(3) [OF assms] sorted_wrt_nth_less [of "(<)" "map fst (entries l)" ?pos i]
        by simp
      then show ?thesis
        using is_lower_bound_nthD(2) [OF lb order_refl] calculation by simp
    qed (use i in simp)
    ultimately show "leaf_hit l ?pos k"
      using leaf_wfD [OF assms] by (simp add: leaf_hit_def entries_def)
  qed
qed

lemma leaf_hit_entry:
  assumes "leaf_wf l" "leaf_hit l pos k"
  shows "pos < length (entries l)" "entries l ! pos = data l ! pos" "fst (data l ! pos) = k"
    "leaf_map l k = Some (snd (data l ! pos))"
proof -
  show p: "pos < length (entries l)" "entries l ! pos = data l ! pos" "fst (data l ! pos) = k"
    using assms leaf_wfD [OF assms(1)] by (auto simp: leaf_hit_def entries_def)
  have "(k, snd (data l ! pos)) \<in> set (entries l)"
    using p by (metis nth_mem prod.collapse)
  then show "leaf_map l k = Some (snd (data l ! pos))"
    using leaf_wfD(5) [OF assms(1)] by (simp add: leaf_map_def)
qed

lemma leaf_map_None_iff: "leaf_map l k = None \<longleftrightarrow> k \<notin> fst ` set (entries l)"
  by (simp add: leaf_map_def map_of_eq_None_iff)

lemma leaf_find_map: "leaf_wf l \<Longrightarrow> leaf_find l k = leaf_map l k"
  using leaf_hit_iff [of l k] leaf_hit_entry(4) [of l "leaf_lowerBound l k" k] leaf_map_None_iff [of l k]
  by (auto simp: leaf_find_def Let_def)

lemma entries_update:
  "leaf_wf l \<Longrightarrow> pos < unat (count l) \<Longrightarrow> entries (l\<lparr>data := (data l)[pos := x]\<rparr>) = (entries l)[pos := x]"
  by (simp add: entries_def take_update_swap)

lemma entries_bump [simp]: "entries (leaf_bump l) = entries l" "data (leaf_bump l) = data l"
  "count (leaf_bump l) = count l"
  by (simp_all add: entries_def leaf_bump_def)

lemma leaf_map_cong: "entries l = entries l' \<Longrightarrow> leaf_map l = leaf_map l'"
  by (simp add: leaf_map_def)

lemma leaf_search_dirty [simp]:
  "leaf_lowerBound (l\<lparr>dirty := b\<rparr>) k = leaf_lowerBound l k"
  "leaf_hit (l\<lparr>dirty := b\<rparr>) pos k = leaf_hit l pos k"
  by (simp_all add: leaf_lowerBound_def leaf_hit_def)

text \<open>The three outcomes of an insert: overwrite, refuse, open a gap.\<close>

lemma leaf_insert_hit:
  assumes "leaf_wf l" "leaf_map l k \<noteq> None"
  shows "fst (leaf_insert l k v) = False" "leaf_wf (snd (leaf_insert l k v))"
    "leaf_map (snd (leaf_insert l k v)) = (leaf_map l)(k \<mapsto> v)"
proof -
  let ?l = "l\<lparr>dirty := True\<rparr>" and ?pos = "leaf_lowerBound l k"
  have hit: "leaf_hit l ?pos k" using leaf_hit_iff [OF assms(1)] assms(2) by (simp add: leaf_map_None_iff)
  have c: "count l \<noteq> 0" using hit by (auto simp: leaf_hit_def)
  have p: "?pos < unat (count l)" "fst (data l ! ?pos) = k" using hit by (auto simp: leaf_hit_def)
  have lb: "leaf_lowerBound ?l k = ?pos" "leaf_hit ?l ?pos k" using hit by (simp_all add: leaf_lowerBound_def leaf_hit_def)
  have ins: "leaf_insert l k v = (False, leaf_bump (?l\<lparr>data := (data l)[?pos := (k, v)]\<rparr>))"
    using c lb p by (simp add: leaf_insert_def Let_def)
  have e: "entries (snd (leaf_insert l k v)) = (entries l)[?pos := (k, v)]"
    using p(1) unfolding ins by (simp add: entries_def take_update_swap)
  have m: "map fst ((entries l)[?pos := (k, v)]) = map fst (entries l)"
    using leaf_hit_entry [OF assms(1) hit] by (simp add: map_update list_update_same_conv)
  show "fst (leaf_insert l k v) = False" by (simp add: ins)
  show "leaf_wf (snd (leaf_insert l k v))"
    using leaf_wfD [OF assms(1)] e m unfolding leaf_wf_def by (simp add: ins)
  show "leaf_map (snd (leaf_insert l k v)) = (leaf_map l)(k \<mapsto> v)"
    unfolding leaf_map_def e
    using leaf_hit_entry [OF assms(1) hit] leaf_wfD(5) [OF assms(1)] by (intro map_of_update_nth) auto
qed

lemma leaf_insert_full:
  assumes "leaf_wf l" "leaf_map l k = None" "unat (count l) = leaf_maxEntries"
  shows "leaf_insert l k v = (False, l\<lparr>dirty := True\<rparr>)"
proof -
  have "\<not> leaf_hit l (leaf_lowerBound l k) k"
    using leaf_hit_iff [OF assms(1)] assms(2) by (simp add: leaf_map_None_iff)
  moreover have "count l \<noteq> 0" using assms(3) by auto
  ultimately show ?thesis
    using assms(3) by (simp add: leaf_insert_def Let_def)
qed

lemma leaf_insert_new:
  assumes "leaf_wf l" "leaf_map l k = None" "unat (count l) < leaf_maxEntries"
  shows "fst (leaf_insert l k v) = True"
    "\<exists>r. is_lower_bound (map fst (entries l)) k r \<and>
       entries (snd (leaf_insert l k v)) = take r (entries l) @ (k, v) # drop r (entries l)"
    "unat (count (snd (leaf_insert l k v))) = Suc (unat (count l))"
    "length (data (snd (leaf_insert l k v))) = length (data l)"
proof -
  let ?l = "l\<lparr>dirty := True\<rparr>" and ?pos = "leaf_lowerBound l k" and ?n = "unat (count l)"
  have miss: "\<not> leaf_hit l ?pos k"
    using leaf_hit_iff [OF assms(1)] assms(2) by (simp add: leaf_map_None_iff)
  have uc: "unat (count l + 1) = Suc ?n" using assms(3) by (intro unat_Suc_lt) simp
  have len: "length (data l) = 58" "?n < 58" using leaf_wfD [OF assms(1)] assms(3) by simp_all
  define r where "r = (if count l = 0 then 0 else ?pos)"
  define d where "d = (mem_copy (r + 1) (data l) r (?n - r) (data l))[r := (k, v)]"
  have r: "is_lower_bound (map fst (entries l)) k r"
    using leaf_lowerBound_correct [OF assms(1)]
    by (cases "count l = 0") (auto simp: r_def entries_def is_lower_bound_def)
  have rn: "r \<le> ?n" using r leaf_wfD(4) [OF assms(1)] by (simp add: is_lower_bound_def)
  have ins: "leaf_insert l k v = (True, leaf_bump (?l\<lparr>data := d, count := count l + 1\<rparr>))"
  proof (cases "count l = 0")
    case True
    then show ?thesis
      by (simp add: leaf_insert_def d_def r_def mem_copy_def take_Suc drop_Suc)
        (cases "data l", simp_all)
  next
    case False
    then show ?thesis
      using miss len(2) by (simp add: leaf_insert_def Let_def d_def r_def)
  qed
  show "fst (leaf_insert l k v) = True" by (simp add: ins)
  show "unat (count (snd (leaf_insert l k v))) = Suc (unat (count l))" using uc by (simp add: ins)
  show "length (data (snd (leaf_insert l k v))) = length (data l)"
    using rn len by (simp add: ins d_def)
  have "entries (snd (leaf_insert l k v)) = take (Suc ?n) d"
    using uc by (simp add: ins entries_def)
  also have "\<dots> = take r (entries l) @ (k, v) # drop r (entries l)"
    using take_open_gap [OF rn, of "data l" "(k, v)"] len rn
    by (simp add: d_def entries_def min_absorb1)
  finally show "\<exists>r. is_lower_bound (map fst (entries l)) k r \<and>
       entries (snd (leaf_insert l k v)) = take r (entries l) @ (k, v) # drop r (entries l)"
    using r by blast
qed

lemma leaf_insert_accepted:
  assumes "leaf_wf l" "leaf_accepts l k v"
  shows "leaf_wf (snd (leaf_insert l k v))" "leaf_map (snd (leaf_insert l k v)) = (leaf_map l)(k \<mapsto> v)"
proof -
  have *: "leaf_wf (snd (leaf_insert l k v)) \<and> leaf_map (snd (leaf_insert l k v)) = (leaf_map l)(k \<mapsto> v)"
  proof (cases "leaf_map l k = None")
    case True
    then have room: "unat (count l) < leaf_maxEntries" using assms(2) by (simp add: leaf_accepts_def)
    obtain r where r: "is_lower_bound (map fst (entries l)) k r"
      "entries (snd (leaf_insert l k v)) = take r (entries l) @ (k, v) # drop r (entries l)"
      using leaf_insert_new(2) [OF assms(1) True room] by blast
    have out: "k \<notin> fst ` set (entries l)" using True by (simp add: leaf_map_None_iff)
    have "sorted_keys (entries (snd (leaf_insert l k v)))"
      unfolding r(2) by (rule sorted_keys_insert [OF leaf_wfD(3) [OF assms(1)] r(1) out])
    then have "leaf_wf (snd (leaf_insert l k v))"
      using leaf_insert_new(3,4) [OF assms(1) True room] leaf_wfD [OF assms(1)] room by (simp add: leaf_wf_def)
    moreover have "leaf_map (snd (leaf_insert l k v)) = (leaf_map l)(k \<mapsto> v)"
      unfolding leaf_map_def r(2) by (rule map_of_insert_middle [OF out])
    ultimately show ?thesis ..
  qed (use leaf_insert_hit [OF assms(1)] in blast)
  then show "leaf_wf (snd (leaf_insert l k v))" "leaf_map (snd (leaf_insert l k v)) = (leaf_map l)(k \<mapsto> v)"
    by blast+
qed

lemma leaf_insert_refused:
  assumes "leaf_wf l" "\<not> leaf_accepts l k v"
  shows "leaf_wf (snd (leaf_insert l k v)) \<and> leaf_map (snd (leaf_insert l k v)) = leaf_map l"
proof -
  have "leaf_map l k = None" "unat (count l) = leaf_maxEntries"
    using assms(2) leaf_wfD(2) [OF assms(1)] by (simp_all add: leaf_accepts_def)
  then have "leaf_insert l k v = (False, l\<lparr>dirty := True\<rparr>)"
    by (rule leaf_insert_full [OF assms(1)])
  then show ?thesis using assms(1) by (simp add: leaf_wf_def leaf_map_def entries_def)
qed

lemma leaf_remove_miss: "leaf_wf l \<Longrightarrow> leaf_map l k = None \<Longrightarrow> leaf_remove l k = (False, l)"
  using leaf_hit_iff [of l k] by (simp add: leaf_remove_def leaf_map_None_iff)

lemma leaf_remove_hit:
  assumes "leaf_wf l" "leaf_map l k \<noteq> None"
  shows "fst (leaf_remove l k) = True" "leaf_wf (snd (leaf_remove l k))"
    "leaf_map (snd (leaf_remove l k)) = (leaf_map l)(k := None)"
    "unat (count (snd (leaf_remove l k))) = unat (count l) - 1"
proof -
  let ?pos = "leaf_lowerBound l k" and ?n = "unat (count l)"
  let ?d = "mem_copy ?pos (data l) (?pos + 1) (?n - ?pos - 1) (data l)"
  have hit: "leaf_hit l ?pos k" using leaf_hit_iff [OF assms(1)] assms(2) by (simp add: leaf_map_None_iff)
  have p: "?pos < ?n" "0 < ?n" using hit by (auto simp: leaf_hit_def)
  then have c0: "count l \<noteq> 0" by auto
  have uc: "unat (count l - 1) = ?n - 1" using p by (intro unat_pred)
  have len: "length (data l) = 58" "?n \<le> 58" using leaf_wfD [OF assms(1)] by simp_all
  have rem: "leaf_remove l k = (True, leaf_bump (l\<lparr>dirty := True, data := ?d, count := count l - 1\<rparr>))"
    using c0 hit by (simp add: leaf_remove_def Let_def)
  have "entries (snd (leaf_remove l k)) = take (?n - 1) ?d"
    by (simp add: rem entries_def uc)
  also have "\<dots> = take ?pos (data l) @ drop (Suc ?pos) (take ?n (data l))"
    using take_close_gap [OF p(1), of "data l"] len by simp
  finally have e: "entries (snd (leaf_remove l k)) = take ?pos (entries l) @ drop (Suc ?pos) (entries l)"
    using p(1) by (simp add: entries_def min_absorb1)
  show "fst (leaf_remove l k) = True" by (simp add: rem)
  show c: "unat (count (snd (leaf_remove l k))) = ?n - 1" by (simp add: rem uc)
  show "leaf_wf (snd (leaf_remove l k))"
    unfolding leaf_wf_def e using sorted_keys_remove_nth [OF leaf_wfD(3) [OF assms(1)]] len p c
    by (simp add: rem)
  show "leaf_map (snd (leaf_remove l k)) = (leaf_map l)(k := None)"
    unfolding leaf_map_def e
    using leaf_hit_entry [OF assms(1) hit] leaf_wfD(5) [OF assms(1)] by (intro map_of_remove_nth) auto
qed

lemma leaf_update_map:
  assumes "leaf_wf l"
  shows "fst (leaf_update l k v) \<longleftrightarrow> leaf_map l k \<noteq> None" "leaf_wf (snd (leaf_update l k v))"
    "leaf_map (snd (leaf_update l k v)) = (if leaf_map l k = None then leaf_map l else (leaf_map l)(k \<mapsto> v))"
proof -
  let ?pos = "leaf_lowerBound l k"
  have hit: "leaf_hit l ?pos k \<longleftrightarrow> leaf_map l k \<noteq> None"
    using leaf_hit_iff [OF assms, of k] by (simp add: leaf_map_None_iff)
  show "fst (leaf_update l k v) \<longleftrightarrow> leaf_map l k \<noteq> None" using hit by (simp add: leaf_update_def Let_def)
  have up: "snd (leaf_update l k v) = l" if "leaf_map l k = None"
    using hit that by (simp add: leaf_update_def Let_def)
  have up': "snd (leaf_update l k v) = snd (leaf_insert l k v)" if "leaf_map l k \<noteq> None"
  proof -
    have h: "leaf_hit l ?pos k" using hit that by simp
    then have "count l \<noteq> 0" by (auto simp: leaf_hit_def)
    with h show ?thesis
      by (simp add: leaf_update_def leaf_insert_def Let_def)
  qed
  show "leaf_wf (snd (leaf_update l k v))"
    using up up' leaf_insert_hit(2) [OF assms] assms by (cases "leaf_map l k = None") auto
  show "leaf_map (snd (leaf_update l k v)) = (if leaf_map l k = None then leaf_map l else (leaf_map l)(k \<mapsto> v))"
    using up up' leaf_insert_hit(3) [OF assms] by (cases "leaf_map l k = None") auto
qed

text \<open>The leaf keeps the contract of a bounded key-value store.\<close>

definition leaf_put :: "BTreeLeafNode \<Rightarrow> Key \<Rightarrow> Value \<Rightarrow> BTreeLeafNode" where
  "leaf_put l k v = snd (leaf_insert l k v)"

definition leaf_del :: "BTreeLeafNode \<Rightarrow> Key \<Rightarrow> BTreeLeafNode" where
  "leaf_del l k = snd (leaf_remove l k)"

interpretation dex_leaf: kv_store_bounded leaf_wf leaf_map leaf_find leaf_accepts leaf_put leaf_del
proof
  fix l :: BTreeLeafNode and k assume wf: "leaf_wf l"
  show "leaf_wf (leaf_del l k)"
    using leaf_remove_miss [OF wf] leaf_remove_hit(2) [OF wf] wf
    by (cases "leaf_map l k = None") (auto simp: leaf_del_def)
  show "leaf_map (leaf_del l k) = (leaf_map l)(k := None)"
    using leaf_remove_miss [OF wf, of k] leaf_remove_hit(3) [OF wf, of k]
    by (cases "leaf_map l k = None") (auto simp: leaf_del_def fun_upd_idem)
qed (simp_all add: leaf_find_map leaf_put_def leaf_insert_accepted leaf_insert_refused)

section \<open>Splitting a leaf\<close>

definition leaf_in_range :: "BTreeLeafNode \<Rightarrow> bool" where
  "leaf_in_range l \<longleftrightarrow> (\<forall>k \<in> fst ` set (entries l). rangeValid l k)"

lemma unat_half:
  fixes c :: u8
  shows "unat (c div 2) = unat c div 2" "unat (c - c div 2) = unat c - unat c div 2" "unat (c - (c - c div 2)) = unat c div 2"
proof -
  show h: "unat (c div 2) = unat c div 2" by (simp add: unat_div)
  have "c div 2 \<le> c" unfolding word_le_nat_alt h by simp
  then show *: "unat (c - c div 2) = unat c - unat c div 2" by (simp add: unat_sub h)
  have "c - c div 2 \<le> c" unfolding word_le_nat_alt * by simp
  then show "unat (c - (c - c div 2)) = unat c div 2" by (simp add: unat_sub * h)
qed

lemma leaf_split_entries:
  assumes "leaf_wf l" "length (data r0) = leaf_maxEntries" "2 \<le> unat (count l)"
    and "leaf_split l r0 remote = (sep, l', r')"
  shows "entries l' = take (unat (count l) div 2) (entries l)"
    "entries r' = drop (unat (count l) div 2) (entries l)"
    "sep = fst (entries l ! (unat (count l) div 2 - 1))"
    "leaf_wf l'" "leaf_wf r'"
proof -
  let ?n = "unat (count l)"
  have len: "length (data l) = 58" "?n \<le> 58" using leaf_wfD [OF assms(1)] by simp_all
  have l': "l' = l\<lparr>front_version := front_version l + 1, is_smo := True, count := count l - (count l - count l div 2),
      next_leaf := remote, max_limit := sep, dirty := True, leaf_back_version := leaf_back_version l + 1\<rparr>"
    and r': "r' = r0\<lparr>count := count l - count l div 2,
      data := mem_copy 0 (data l) (?n div 2) (?n - ?n div 2) (data r0), min_limit := sep, max_limit := max_limit l\<rparr>"
    and sep: "sep = fst (data l ! (?n div 2 - 1))"
    using assms(4) by (auto simp: leaf_split_def Let_def unat_half)
  show el: "entries l' = take (?n div 2) (entries l)"
    by (simp add: l' entries_def unat_half min_absorb1)
  show er: "entries r' = drop (?n div 2) (entries l)"
    using take_mem_copy_end [of "?n div 2" "?n - ?n div 2" "data l" 0 "data r0"] len
    by (simp add: r' entries_def unat_half drop_take)
  show "sep = fst (entries l ! (?n div 2 - 1))"
    using assms(3) by (simp add: sep entries_def)
  have "sorted_keys (entries l)" by (rule leaf_wfD(3) [OF assms(1)])
  then have "sorted_keys (entries l')" "sorted_keys (entries r')"
    unfolding el er by (simp_all add: take_map [symmetric] drop_map [symmetric] sorted_wrt_take sorted_wrt_drop)
  then show "leaf_wf l'" "leaf_wf r'"
    using len assms(2) by (simp_all add: leaf_wf_def, simp_all add: l' r' unat_half)
qed

lemma leaf_split_limits:
  assumes "leaf_split l r0 remote = (sep, l', r')"
  shows "min_limit l' = min_limit l" "max_limit l' = sep" "min_limit r' = sep" "max_limit r' = max_limit l"
    "next_leaf l' = remote" "leaf_check_consistent l' = leaf_check_consistent l"
    "leaf_check_consistent r' = leaf_check_consistent r0"
  using assms by (auto simp: leaf_split_def Let_def leaf_check_consistent_def)

lemma rangeValid_bounds: "rangeValid n k \<Longrightarrow> min_limit n \<le> k \<and> k \<le> max_limit n"
  by (auto simp: rangeValid_def split: if_splits)

section \<open>Inner nodes\<close>

definition seps :: "BTreeInnerNode \<Rightarrow> Key list" where
  "seps n = take (unat (count n)) (keys n)"

definition kids :: "BTreeInnerNode \<Rightarrow> GlobalAddress list" where
  "kids n = take (unat (count n) + 1) (children n)"

definition swizzled :: "GlobalAddress \<Rightarrow> bool" where
  "swizzled a \<longleftrightarrow> a AND swizzle_tag \<noteq> 0"

definition bitmap_ok :: "BTreeInnerNode \<Rightarrow> bool" where
  "bitmap_ok n \<longleftrightarrow> (\<forall>i < 64. bit (bitmap n) i \<longleftrightarrow> i < length (kids n) \<and> swizzled (kids n ! i))"

definition inner_wf :: "BTreeInnerNode \<Rightarrow> bool" where
  "inner_wf n \<longleftrightarrow> length (keys n) = inner_maxEntries \<and> length (children n) = inner_maxEntries \<and>
     unat (count n) < inner_maxEntries \<and> sorted_wrt (<) (seps n) \<and> bitmap_ok n"

lemma inner_wfD:
  assumes "inner_wf n"
  shows "length (keys n) = 59" "length (children n) = 59" "unat (count n) \<le> 58"
    "sorted_wrt (<) (seps n)" "bitmap_ok n" "length (seps n) = unat (count n)"
    "length (kids n) = unat (count n) + 1"
  using assms by (auto simp: inner_wf_def seps_def kids_def)

lemma inner_lowerBound_correct:
  assumes "inner_wf n" "count n \<noteq> 0"
  shows "is_lower_bound (seps n) k (inner_lowerBound n k)"
proof -
  have "0 < unat (count n)" using assms(2) by (simp add: unat_gt_0)
  then show ?thesis
    using inner_wfD [OF assms(1)] unfolding seps_def inner_lowerBound_def
    by (intro lowerBound_loop_correct) auto
qed

lemma push_one_minus: "push_bit n 1 - 1 = (mask n :: 'a::len word)"
  by (simp add: mask_eq_exp_minus_1 push_bit_eq_mult)

lemma set_bit_iff: "bit (bitmap (set_bitmap n j)) i \<longleftrightarrow> bit (bitmap n) i \<or> (i = j \<and> j < 64)"
  by (auto simp: set_bitmap_def bit_simps)

lemma unset_bit_iff: "bit (bitmap (unset_bitmap n j)) i \<longleftrightarrow> bit (bitmap n) i \<and> i \<noteq> j"
  by (auto simp: unset_bitmap_def bit_simps dest: bit_imp_le_length)

lemma test_bimap_bit: "j < 64 \<Longrightarrow> test_bimap n j \<longleftrightarrow> bit (bitmap n) j"
  unfolding test_bimap_def using and_exp_eq_0_iff_not_bit [of "bitmap n" j] by (simp add: push_bit_eq_mult)

lemma validate_bitmap_iff:
  "unat (count n) \<le> 58 \<Longrightarrow> length (children n) = 59 \<Longrightarrow>
   validate_bitmap_correctness n \<longleftrightarrow> (\<forall>i < length (kids n). bit (bitmap n) i = swizzled (kids n ! i))"
  by (auto simp: validate_bitmap_correctness_def list_all_iff kids_def swizzled_def test_bimap_bit
      simp del: upt_Suc)

text \<open>The arrays after an insert: the new child goes to the right of the new separator.\<close>

lemma inner_insert_arrays:
  fixes n :: BTreeInnerNode and k :: Key
  assumes "inner_wf n" "count n \<noteq> 0" "unat (count n) < 58"
  defines "r \<equiv> inner_lowerBound n k"
  shows "seps (inner_insert n k c) = take r (seps n) @ k # drop r (seps n)"
    "kids (inner_insert n k c) = take (r + 1) (kids n) @ c # drop (r + 1) (kids n)"
    "length (keys (inner_insert n k c)) = 59" "length (children (inner_insert n k c)) = 59"
    "unat (count (inner_insert n k c)) = Suc (unat (count n))"
proof -
  let ?n = "unat (count n)" and ?n' = "inner_insert n k c"
  have len: "length (keys n) = 59" "length (children n) = 59" using inner_wfD [OF assms(1)] by simp_all
  have r: "r \<le> ?n" using inner_lowerBound_correct [OF assms(1,2), of k] inner_wfD(6) [OF assms(1)]
    by (simp add: r_def is_lower_bound_def)
  show cnt: "unat (count ?n') = Suc ?n"
    using assms(3) by (simp add: inner_insert_def Let_def set_bitmap_def unat_Suc_lt)
  have ks: "keys ?n' = (mem_copy (r + 1) (keys n) r (?n + 1 - r) (keys n))[r := k]"
    by (simp add: inner_insert_def Let_def set_bitmap_def r_def)
  define cs where "cs = (mem_copy (r + 1) (children n) r (?n + 1 - r) (children n))[r := c]"
  have ch: "children ?n' = cs[r := cs ! (r + 1), r + 1 := cs ! r]"
    by (simp add: inner_insert_def Let_def set_bitmap_def r_def cs_def)
  show "length (keys ?n') = 59" "length (children ?n') = 59"
    using len r assms(3) by (simp_all add: ks ch cs_def)
  show "seps ?n' = take r (seps n) @ k # drop r (seps n)"
  proof (rule nth_equalityI)
    show "length (seps ?n') = length (take r (seps n) @ k # drop r (seps n))"
      using r len assms(3) inner_wfD(6) [OF assms(1)] by (simp add: seps_def cnt ks)
    fix i assume "i < length (seps ?n')"
    then have "i < Suc ?n" using cnt by (simp add: seps_def)
    then show "seps ?n' ! i = (take r (seps n) @ k # drop r (seps n)) ! i"
      using r len assms(3)
      by (auto simp: seps_def cnt ks nth_append nth_Cons' nth_list_update nth_mem_copy min_def)
  qed
  show "kids ?n' = take (r + 1) (kids n) @ c # drop (r + 1) (kids n)"
  proof (rule nth_equalityI)
    show "length (kids ?n') = length (take (r + 1) (kids n) @ c # drop (r + 1) (kids n))"
      using r len assms(3) inner_wfD(7) [OF assms(1)] by (simp add: kids_def cnt ch cs_def)
    fix i assume "i < length (kids ?n')"
    then have "i < ?n + 2" using cnt by (simp add: kids_def)
    moreover have "Suc (i - 2) = i - 1" if "r + 1 < i" using that by simp
    ultimately show "kids ?n' ! i = (take (r + 1) (kids n) @ c # drop (r + 1) (kids n)) ! i"
      using r len assms(3)
      by (auto simp: kids_def cnt ch cs_def nth_append nth_Cons' nth_list_update nth_mem_copy min_def)
  qed
qed

lemma open_bitmap_gap:
  fixes w :: u64
  assumes "m = Suc (Suc r)" "r + 1 < 64" "i < 64"
  shows "bit (let bm = (w AND mask (r + 1)) OR push_bit (r + 2) (drop_bit (r + 1) w)
              in if b then bm OR push_bit (r + 1) 1 else bm) i \<longleftrightarrow>
    (if i \<le> r then bit w i else if i = r + 1 then b else bit w (i - 1))"
proof -
  obtain d where d: "d = r + 1" by simp
  have "bit ((w AND mask d) OR push_bit (Suc d) (drop_bit d w)) i \<longleftrightarrow>
      (if i < d then bit w i else if i = d then False else bit w (i - 1))"
    using assms(3) by (auto simp: bit_push_bit_iff bit_drop_bit_eq bit_and_iff bit_or_iff bit_mask_iff simp del: push_bit_Suc)
  moreover have "bit (push_bit d (1 :: u64)) i \<longleftrightarrow> i = d" if "d < 64"
    using that assms(3) unfolding bit_push_bit_iff by (auto simp: bit_1_iff)
  ultimately show ?thesis
    using assms(2) unfolding Let_def d by (auto simp: bit_or_iff simp del: push_bit_Suc)
qed

lemma sorted_insert_lower_bound:
  assumes "sorted_wrt (<) ks" "is_lower_bound ks k r" "k \<notin> set ks"
  shows "sorted_wrt (<) (take r ks @ k # drop r ks)"
  using sorted_keys_insert [of "map (\<lambda>x. (x, ())) ks" k r "()"] assms
  by (simp add: comp_def take_map drop_map image_image)

lemma inner_insert_bitmap:
  fixes n :: BTreeInnerNode and k :: Key
  assumes "inner_wf n" "count n \<noteq> 0" "unat (count n) < 58" "i < 64"
  defines "r \<equiv> inner_lowerBound n k"
  shows "bit (bitmap (inner_insert n k c)) i \<longleftrightarrow>
    (if i \<le> r then bit (bitmap n) i else if i = r + 1 then swizzled c else bit (bitmap n) (i - 1))"
proof -
  have "r \<le> unat (count n)" using inner_lowerBound_correct [OF assms(1,2), of k] inner_wfD(6) [OF assms(1)]
    by (simp add: r_def is_lower_bound_def)
  then have r: "r + 1 < 64" using assms(3) by simp
  have bm: "bitmap (inner_insert n k c) =
      (let bm = (bitmap n AND mask (r + 1)) OR push_bit (r + 2) (drop_bit (r + 1) (bitmap n))
       in if swizzled c then bm OR push_bit (r + 1) 1 else bm)"
    unfolding inner_insert_def Let_def set_bitmap_def r_def swizzled_def push_one_minus by simp
  show ?thesis
    unfolding bm by (rule open_bitmap_gap [OF refl r assms(4)])
qed

lemma inner_insert_wf:
  assumes "inner_wf n" "count n \<noteq> 0" "unat (count n) < 58" "k \<notin> set (seps n)"
  shows "inner_wf (inner_insert n k c)"
proof -
  let ?r = "inner_lowerBound n k" and ?n' = "inner_insert n k c"
  note arr = inner_insert_arrays [OF assms(1-3), of k c]
  have lb: "is_lower_bound (seps n) k ?r" by (rule inner_lowerBound_correct [OF assms(1,2)])
  have r: "?r \<le> unat (count n)" using lb inner_wfD(6) [OF assms(1)] by (simp add: is_lower_bound_def)
  have "sorted_wrt (<) (seps ?n')"
    unfolding arr(1) by (rule sorted_insert_lower_bound [OF inner_wfD(4) [OF assms(1)] lb assms(4)])
  moreover have "bitmap_ok ?n'"
    unfolding bitmap_ok_def
  proof (intro allI impI)
    fix i :: nat assume i: "i < 64"
    have kid: "kids ?n' ! i = (if i \<le> ?r then kids n ! i else if i = ?r + 1 then c else kids n ! (i - 1))"
      using r inner_wfD(7) [OF assms(1)] Suc_diff_Suc [of 1 i]
      by (auto simp: arr(2) nth_append nth_Cons' min_def numeral_2_eq_2)
    have len: "length (kids ?n') = unat (count n) + 2" using r inner_wfD(7) [OF assms(1)] by (simp add: arr(2))
    have old: "bit (bitmap n) j \<longleftrightarrow> j < length (kids n) \<and> swizzled (kids n ! j)" if "j < 64" for j
      using inner_wfD(5) [OF assms(1)] that by (simp add: bitmap_ok_def)
    show "bit (bitmap ?n') i \<longleftrightarrow> i < length (kids ?n') \<and> swizzled (kids ?n' ! i)"
      using inner_insert_bitmap [OF assms(1-3) i, of k c] r i old [of i] old [of "i - 1"]
        inner_wfD(7) [OF assms(1)]
      unfolding kid len by auto
  qed
  ultimately show ?thesis using arr(3-5) assms(3) by (simp add: inner_wf_def)
qed

text \<open>
  A split of an inner node moves the upper half, the separator itself apart, to the new node, with
  the children to the right of the separator and their bits.
\<close>

lemma inner_split_arrays:
  assumes "inner_wf n" "length (keys n0) = inner_maxEntries" "length (children n0) = inner_maxEntries"
    and "2 \<le> unat (count n)" and "inner_split n n0 = (sep, l, r)"
  shows "unat (count l) = unat (count n) div 2 - 1" "unat (count r) = unat (count n) - unat (count n) div 2"
    "seps l = take (unat (count n) div 2 - 1) (seps n)" "sep = seps n ! (unat (count n) div 2 - 1)"
    "seps r = drop (unat (count n) div 2) (seps n)"
    "kids l = take (unat (count n) div 2) (kids n)" "kids r = drop (unat (count n) div 2) (kids n)"
    "length (keys l) = 59" "length (children l) = 59" "length (keys r) = 59" "length (children r) = 59"
    "bitmap l = bitmap n AND mask (unat (count n) div 2)" "bitmap r = drop_bit (unat (count n) div 2) (bitmap n)"
proof -
  let ?n = "unat (count n)" and ?lc = "count n - (count n - count n div 2) - 1"
  have len: "length (keys n) = 59" "length (children n) = 59" "?n \<le> 58" using inner_wfD [OF assms(1)] by simp_all
  have c: "unat ?lc = ?n div 2 - 1" using assms(4) by (subst unat_pred) (simp_all add: unat_half)
  have h: "?n div 2 - 1 + 1 = ?n div 2" using assms(4) by simp
  define h where "h = ?n div 2"
  have l: "l = n\<lparr>front_version := front_version n + 1, count := ?lc, max_limit := sep,
            bitmap := bitmap n AND mask h, dirty := True, is_smo := True,
            inner_back_version := inner_back_version n + 1\<rparr>"
    and r: "r = n0\<lparr>count := count n - count n div 2,
            keys := mem_copy 0 (keys n) h (?n - h + 1) (keys n0),
            children := mem_copy 0 (children n) h (?n - h + 1) (children n0),
            min_limit := sep, max_limit := max_limit n, bitmap := drop_bit h (bitmap n)\<rparr>"
    and sep: "sep = keys n ! (h - 1)"
    using assms(5) unfolding inner_split_def Let_def c h push_one_minus unat_half h_def by auto
  have hn: "1 \<le> h" "h \<le> ?n" using assms(4) by (auto simp: h_def)
  have "count l = ?lc" by (simp add: l)
  then show cl: "unat (count l) = ?n div 2 - 1" using c by simp
  have arrs: "keys l = keys n" "children l = children n" by (simp_all add: l)
  show cr: "unat (count r) = ?n - ?n div 2" by (simp add: r unat_half)
  show "seps l = take (?n div 2 - 1) (seps n)" "kids l = take (?n div 2) (kids n)"
    using hn by (simp_all add: seps_def kids_def cl arrs min_absorb1 h_def [symmetric])
  show "sep = seps n ! (?n div 2 - 1)" using hn by (simp add: sep seps_def h_def [symmetric])
  show "length (keys l) = 59" "length (children l) = 59" "length (keys r) = 59" "length (children r) = 59"
    "bitmap l = bitmap n AND mask (?n div 2)" "bitmap r = drop_bit (?n div 2) (bitmap n)"
    using len assms(2,3) by (simp_all add: l r h_def)
  have mv: "take m (mem_copy 0 xs h (?n - h + 1) ys) = drop h (take (h + m) xs)"
    if "m \<le> ?n - h + 1" "length xs = 59" "length ys = 59" for m and xs ys :: "u64 list"
    using that len hn by (intro nth_equalityI) (auto simp: nth_mem_copy)
  show "seps r = drop (?n div 2) (seps n)" "kids r = drop (?n div 2) (kids n)"
    using mv [of "?n - h" "keys n" "keys n0"] mv [of "?n - h + 1" "children n" "children n0"] len assms(2,3) hn
    unfolding seps_def kids_def cr by (simp_all add: r h_def [symmetric])
qed

lemma inner_split_wf:
  assumes "inner_wf n" "length (keys n0) = inner_maxEntries" "length (children n0) = inner_maxEntries"
    and "2 \<le> unat (count n)" and "inner_split n n0 = (sep, l, r)"
  shows "inner_wf l" "inner_wf r"
proof -
  note arr = inner_split_arrays [OF assms]
  let ?h = "unat (count n) div 2"
  have len: "length (kids n) = unat (count n) + 1" "unat (count n) \<le> 58" using inner_wfD [OF assms(1)] by simp_all
  have bits: "bit (bitmap n) i \<longleftrightarrow> i < length (kids n) \<and> swizzled (kids n ! i)" if "i < 64" for i
    using inner_wfD(5) [OF assms(1)] that by (simp add: bitmap_ok_def)
  have out: "\<not> bit (bitmap n) i" if "64 \<le> i" for i using that by (auto dest: bit_imp_le_length)
  have "bitmap_ok l"
    unfolding bitmap_ok_def arr(6,12) using bits len by (auto simp: bit_and_iff bit_mask_iff)
  moreover have "bitmap_ok r"
    unfolding bitmap_ok_def arr(7,13)
  proof (intro allI impI)
    fix i :: nat assume "i < 64"
    show "bit (drop_bit ?h (bitmap n)) i \<longleftrightarrow> i < length (drop ?h (kids n)) \<and> swizzled (drop ?h (kids n) ! i)"
      using bits [of "?h + i"] out [of "?h + i"] len by (cases "?h + i < 64") (auto simp: bit_drop_bit_eq)
  qed
  moreover have "sorted_wrt (<) (seps l)" "sorted_wrt (<) (seps r)"
    unfolding arr(3,5) using inner_wfD(4) [OF assms(1)] by (simp_all add: sorted_wrt_take sorted_wrt_drop)
  ultimately show "inner_wf l" "inner_wf r"
    using arr(1,2,8-11) len by (simp_all add: inner_wf_def)
qed

lemma inner_split_partition:
  assumes "inner_wf n" "length (keys n0) = inner_maxEntries" "length (children n0) = inner_maxEntries"
    and "2 \<le> unat (count n)" and "inner_split n n0 = (sep, l, r)"
  shows "seps l @ sep # seps r = seps n" "kids l @ kids r = kids n"
proof -
  note arr = inner_split_arrays [OF assms]
  let ?h = "unat (count n) div 2"
  have "?h - 1 < length (seps n)" "Suc (?h - 1) = ?h" using assms(4) inner_wfD(6) [OF assms(1)] by auto
  then show "seps l @ sep # seps r = seps n"
    unfolding arr(3-5) using id_take_nth_drop [of "?h - 1" "seps n"] by simp
  show "kids l @ kids r = kids n" unfolding arr(6,7) by simp
qed

text \<open>The closest swizzled child.\<close>

lemma first_index:
  assumes "\<exists>x \<in> set xs. P x"
  shows "length (takeWhile (\<lambda>x. \<not> P x) xs) < length xs" "P (xs ! length (takeWhile (\<lambda>x. \<not> P x) xs))"
    "i < length (takeWhile (\<lambda>x. \<not> P x) xs) \<Longrightarrow> \<not> P (xs ! i)"
proof -
  show *: "length (takeWhile (\<lambda>x. \<not> P x) xs) < length xs"
    using assms by (metis length_takeWhile_le nat_less_le takeWhile_eq_all_conv takeWhile_eq_take take_all)
  show "P (xs ! length (takeWhile (\<lambda>x. \<not> P x) xs))" using nth_length_takeWhile [OF *] by simp
  show "\<not> P (xs ! i)" if "i < length (takeWhile (\<lambda>x. \<not> P x) xs)"
    using that nth_mem [OF that] by (metis set_takeWhileD takeWhile_nth)
qed

lemma word_nonzero_bit: "w \<noteq> 0 \<Longrightarrow> \<exists>i < LENGTH('a). bit (w :: 'a::len word) i"
  using bit_imp_le_length [of w] by (auto simp: bit_eq_iff)

lemma tzcnt_lowest:
  assumes "w \<noteq> 0"
  shows "tzcnt_u64 w < 64" "bit w (tzcnt_u64 w)" "bit w i \<Longrightarrow> tzcnt_u64 w \<le> i"
proof -
  have ex: "\<exists>i \<in> set [0..<64]. bit w i" using word_nonzero_bit [OF assms] by auto
  note f = first_index [OF ex, folded tzcnt_u64_def]
  show "tzcnt_u64 w < 64" "bit w (tzcnt_u64 w)" using f(1,2) by simp_all
  show "tzcnt_u64 w \<le> i" if "bit w i" using f(1) f(3) [of i] that by (cases "i < 64") (auto simp: not_less [symmetric])
qed

lemma lzcnt_highest:
  assumes "w \<noteq> 0"
  shows "lzcnt_u64 w < 64" "bit w (63 - lzcnt_u64 w)" "bit w i \<Longrightarrow> i \<le> 63 - lzcnt_u64 w"
proof -
  have ex: "\<exists>i \<in> set (rev [0..<64]). bit w i" using word_nonzero_bit [OF assms] by auto
  have nth: "rev [0..<64] ! j = 63 - j" if "j < 64" for j :: nat using that by (simp add: rev_nth)
  note f = first_index [OF ex, folded lzcnt_u64_def]
  show lt: "lzcnt_u64 w < 64" using f(1) by simp
  show "bit w (63 - lzcnt_u64 w)" using f(2) lt by (simp add: nth)
  show "i \<le> 63 - lzcnt_u64 w" if "bit w i"
  proof (rule ccontr)
    assume c: "\<not> i \<le> 63 - lzcnt_u64 w"
    have "i < 64" using that by (auto dest: bit_imp_le_length)
    moreover have "63 - i < lzcnt_u64 w" using c lt \<open>i < 64\<close> by linarith
    ultimately show False using f(3) [of "63 - i"] nth [of "63 - i"] that by simp
  qed
qed

lemma closest_set_nearest:
  assumes "bitmap n \<noteq> 0" "\<And>i. bit (bitmap n) i \<Longrightarrow> i \<le> unat (count n)" "pos \<le> unat (count n)"
    and "unat (count n) \<le> 58"
  shows "\<exists>j. closest_set n pos = int j \<and> bit (bitmap n) j \<and>
    (\<forall>i. bit (bitmap n) i \<longrightarrow> \<bar>int j - int pos\<bar> \<le> \<bar>int i - int pos\<bar>)"
proof -
  define R where "R = bitmap n AND NOT (mask pos)"
  define L where "L = bitmap n AND mask pos"
  have bR: "bit R i \<longleftrightarrow> bit (bitmap n) i \<and> pos \<le> i" for i
    using bit_imp_le_length [of "bitmap n" i] by (auto simp: R_def bit_simps)
  have bL: "bit L i \<longleftrightarrow> bit (bitmap n) i \<and> i < pos" for i
    using bit_imp_le_length [of "bitmap n" i] by (auto simp: L_def bit_simps)
  define rg where "rg = (if R \<noteq> 0 then int (tzcnt_u64 R) - int pos else 64)"
  define lg where "lg = (if L \<noteq> 0 then int pos - (63 - int (lzcnt_u64 L)) else 64)"
  have mp: "min pos 63 = pos" using assms(3,4) by simp
  have cs: "closest_set n pos = (if rg < lg \<and> int pos + rg < int (unat (count n)) + 1 then int pos + rg else int pos - lg)"
    using assms(1) unfolding closest_set_def Let_def mp push_one_minus rg_def lg_def R_def L_def by simp
  have right: "bit (bitmap n) (tzcnt_u64 R)" "pos \<le> tzcnt_u64 R" "tzcnt_u64 R \<le> unat (count n)" if "R \<noteq> 0"
    using tzcnt_lowest(2) [OF that] assms(2) by (auto simp: bR)
  have right_min: "tzcnt_u64 R \<le> i" "R \<noteq> 0" if "bit (bitmap n) i" "pos \<le> i" for i
    using that tzcnt_lowest(3) [of R i] bR [of i] by (cases "R = 0"; simp)+
  have left: "bit (bitmap n) (63 - lzcnt_u64 L)" "63 - lzcnt_u64 L < pos" "lzcnt_u64 L \<le> 63" if "L \<noteq> 0"
    using lzcnt_highest(1,2) [OF that] by (auto simp: bL)
  have left_max: "i \<le> 63 - lzcnt_u64 L" "L \<noteq> 0" if "bit (bitmap n) i" "i < pos" for i
    using that lzcnt_highest(3) [of L i] bL [of i] by (cases "L = 0"; simp)+
  have near: "min rg lg \<le> \<bar>int i - int pos\<bar>" if "bit (bitmap n) i" for i
    using right_min [OF that] left_max [OF that] left(3) by (cases "pos \<le> i") (auto simp: rg_def lg_def)
  show ?thesis
  proof (cases "rg < lg")
    case True
    then have R0: "R \<noteq> 0" using left assms(3,4) by (auto simp: rg_def lg_def split: if_splits)
    then have "closest_set n pos = int (tzcnt_u64 R)" using right [OF R0] True R0
      unfolding cs rg_def by (simp del: of_nat_unat)
    then show ?thesis using right [OF R0] near True R0 by (intro exI [of _ "tzcnt_u64 R"]) (auto simp: rg_def min_def)
  next
    case False
    have L0: "L \<noteq> 0"
    proof
      assume "L = 0"
      then have "R = 0" using False right assms(3,4) by (cases "R = 0") (auto simp: rg_def lg_def)
      obtain i where "bit (bitmap n) i" using word_nonzero_bit [OF assms(1)] by auto
      then show False using \<open>L = 0\<close> \<open>R = 0\<close> right_min(2) [of i] left_max(2) [of i] by (cases "pos \<le> i") auto
    qed
    then have "closest_set n pos = int (63 - lzcnt_u64 L)" using left [OF L0] False by (simp add: cs lg_def of_nat_diff)
    moreover have "\<bar>int (63 - lzcnt_u64 L) - int pos\<bar> = min rg lg"
      using left [OF L0] False L0 by (simp add: lg_def of_nat_diff)
    ultimately show ?thesis using left(1) [OF L0] near by (intro exI [of _ "63 - lzcnt_u64 L"]) simp
  qed
qed

section \<open>Properties of the pages\<close>

lemma new_leaf_wf: "length g = leaf_maxEntries \<Longrightarrow> leaf_wf (new_leaf g a)"
  by (simp add: leaf_wf_def new_leaf_def entries_def)

text \<open>
  C11: a DEX leaf behaves as a map of at most 58 keys.  After any sequence of inserts and removes,
  each insert either overwriting or finding room, a lookup returns the outcome of the last
  operation on its key and what the leaf held before when there is none; the array stays sorted.
\<close>

theorem leaf_is_map:
  assumes "leaf_wf l" "all_accepted leaf_accepts leaf_put leaf_del ops l"
  shows "leaf_wf (run_ops leaf_put leaf_del ops l) \<and>
    leaf_find (run_ops leaf_put leaf_del ops l) k =
      (case last_write ops k of None \<Rightarrow> leaf_find l k | Some r \<Rightarrow> r)"
  by (intro conjI dex_leaf.run_inv dex_leaf.lookup_run assms)

theorem leaf_is_map_witness:
  "leaf_find (run_ops leaf_put leaf_del [Put 7 70, Put 3 30, Del 7, Put 3 31]
     (new_leaf (replicate 58 (0, 0)) 0)) 3 = Some 31"
proof -
  have "all_accepted leaf_accepts leaf_put leaf_del
      [Put 7 70, Put 3 30, Del 7, Put 3 31] (new_leaf (replicate 58 (0, 0)) 0)"
    by code_simp
  from leaf_is_map [OF new_leaf_wf this, of 3] show ?thesis by simp
qed

text \<open>
  C12: splitting a leaf of at least four entries, all within the leaf's limits, loses nothing and
  routes every key to one side: both halves are sorted and within their new limits, together they
  hold the old map, and every key the leaf was responsible for is valid in exactly one of them.
\<close>

theorem leaf_split_correct:
  assumes "leaf_wf l" "leaf_in_range l" "length (data r0) = leaf_maxEntries" "4 \<le> unat (count l)"
    and "leaf_split l r0 remote = (sep, l', r')"
  shows "leaf_wf l' \<and> leaf_wf r' \<and> leaf_in_range l' \<and> leaf_in_range r' \<and>
    leaf_map l = leaf_map l' ++ leaf_map r' \<and> dom (leaf_map l') \<inter> dom (leaf_map r') = {} \<and>
    (\<forall>k. rangeValid l k \<longrightarrow> (rangeValid l' k \<longleftrightarrow> \<not> rangeValid r' k))"
proof -
  let ?h = "unat (count l) div 2" and ?E = "entries l"
  have two: "2 \<le> unat (count l)" using assms(4) by simp
  note sp = leaf_split_entries [OF assms(1,3) two assms(5)] and lim = leaf_split_limits [OF assms(5)]
  have len: "length ?E = unat (count l)" by (rule leaf_wfD(4) [OF assms(1)])
  have srt: "fst (?E ! i) < fst (?E ! j)" if "i < j" "j < length ?E" for i j
    using sorted_wrt_nth_less [OF leaf_wfD(3) [OF assms(1)], of i j] that by simp
  have "fst (?E ! 0) < sep" using srt [of 0 "?h - 1"] assms(4) len unfolding sp(3) by linarith
  then have sep0: "0 < sep" by (simp add: word_gt_0) (metis word_not_simps(1))
  have left: "fst x \<le> sep" if x: "x \<in> set (entries l')" for x
  proof -
    obtain i where i: "i < ?h" "x = ?E ! i" using x len by (auto simp: sp(1) in_set_conv_nth)
    have "?h - 1 < length ?E" using len assms(4) by linarith
    moreover have "i = ?h - 1 \<or> i < ?h - 1" using i(1) by linarith
    ultimately show ?thesis using srt [of i "?h - 1"] i(2) sp(3) by auto
  qed
  have right: "sep < fst x" if x: "x \<in> set (entries r')" for x
  proof -
    obtain i where "i < length ?E - ?h" "x = ?E ! (?h + i)" using x len by (auto simp: sp(2) in_set_conv_nth)
    then have i: "?h + i < length ?E" "x = ?E ! (?h + i)" by auto
    show ?thesis using srt [of "?h - 1" "?h + i"] i sp(3) assms(4) by simp
  qed
  have sub: "set (entries l') \<subseteq> set ?E" "set (entries r') \<subseteq> set ?E" unfolding sp(1,2) by (auto dest: in_set_takeD in_set_dropD)
  have "leaf_in_range l'" "leaf_in_range r'"
    using assms(2) sub left right lim(1-4) unfolding leaf_in_range_def rangeValid_def by (fastforce split: if_splits)+
  moreover have "leaf_map l = leaf_map l' ++ leaf_map r' \<and> dom (leaf_map l') \<inter> dom (leaf_map r') = {}"
  proof -
    have dis: "dom (leaf_map l') \<inter> dom (leaf_map r') = {}"
      unfolding leaf_map_def dom_map_of_conv_image_fst
      by (auto dest!: left right)
    have "leaf_map l = map_of (entries l' @ entries r')" by (simp add: leaf_map_def sp(1,2))
    also have "\<dots> = leaf_map r' ++ leaf_map l'" by (simp add: leaf_map_def)
    also have "\<dots> = leaf_map l' ++ leaf_map r'" using dis by (simp add: map_add_comm Int_commute)
    finally show ?thesis using dis by simp
  qed
  moreover have "\<forall>k. rangeValid l k \<longrightarrow> (rangeValid l' k \<longleftrightarrow> \<not> rangeValid r' k)"
    using lim(1-4) sep0 unfolding rangeValid_def by (auto split: if_splits)
  ultimately show ?thesis using sp(4,5) by blast
qed

definition sample_leaf :: BTreeLeafNode where
  "sample_leaf = run_ops leaf_put leaf_del [Put 7 70, Put 3 30, Put 9 90, Put 5 50] (new_leaf (replicate 58 (0, 0)) 0)"

theorem leaf_split_correct_witness:
  "case leaf_split sample_leaf (new_leaf (replicate 58 (0, 0)) 64) 64 of (sep, l', r') \<Rightarrow>
     sep = 5 \<and> leaf_map sample_leaf = leaf_map l' ++ leaf_map r' \<and> leaf_find r' 7 = Some 70"
proof -
  obtain sep l' r' where sp: "leaf_split sample_leaf (new_leaf (replicate 58 (0, 0)) 64) 64 = (sep, l', r')"
    by (cases "leaf_split sample_leaf (new_leaf (replicate 58 (0, 0)) 64) 64") auto
  have "leaf_wf sample_leaf" unfolding sample_leaf_def by (intro dex_leaf.run_inv_always new_leaf_wf) simp
  moreover have "leaf_in_range sample_leaf" "4 \<le> unat (count sample_leaf)" by code_simp+
  moreover have "length (data (new_leaf (replicate 58 (0, 0)) 64)) = leaf_maxEntries" by (simp add: new_leaf_def)
  moreover have "case leaf_split sample_leaf (new_leaf (replicate 58 (0, 0)) 64) 64 of (sep, l', r') \<Rightarrow>
      sep = 5 \<and> leaf_find r' 7 = Some 70" by code_simp
  ultimately show ?thesis using leaf_split_correct [OF _ _ _ _ sp] sp by simp
qed

text \<open>
  C26: inserting a new separator into an inner node that is neither empty nor full keeps it
  well-formed: the separators stay strictly sorted, the new child sits directly to the right of the
  new separator with every other child in place, and the swizzle bitmap again marks exactly the
  children that are local pointers.
\<close>

theorem inner_insert_correct:
  assumes "inner_wf n" "count n \<noteq> 0" "\<not> inner_isFull n" "k \<notin> set (seps n)"
  shows "inner_wf (inner_insert n k c) \<and>
    (\<exists>i. is_lower_bound (seps n) k i \<and>
      seps (inner_insert n k c) = take i (seps n) @ k # drop i (seps n) \<and>
      kids (inner_insert n k c) = take (i + 1) (kids n) @ c # drop (i + 1) (kids n)) \<and>
    validate_bitmap_correctness (inner_insert n k c)"
proof -
  have room: "unat (count n) < 58" using assms(3) inner_wfD(3) [OF assms(1)] by (simp add: inner_isFull_def)
  note arr = inner_insert_arrays [OF assms(1,2) room, of k c]
  have wf: "inner_wf (inner_insert n k c)" by (rule inner_insert_wf [OF assms(1,2) room assms(4)])
  have "validate_bitmap_correctness (inner_insert n k c)"
    using inner_wfD [OF wf] by (subst validate_bitmap_iff) (auto simp: bitmap_ok_def)
  then show ?thesis using wf arr(1,2) inner_lowerBound_correct [OF assms(1,2)] by blast
qed

definition sample_inner :: BTreeInnerNode where
  "sample_inner = (new_inner (replicate 59 0) (replicate 59 0) 1 0)
     \<lparr>count := 2, keys := 10 # 20 # replicate 57 0,
      children := 4096 # (swizzle_tag OR 8) # 8192 # replicate 56 0, bitmap := 2\<rparr>"

lemma bitmap_ok_code:
  "bitmap_ok n \<longleftrightarrow> list_all (\<lambda>i. bit (bitmap n) i = (i < length (kids n) \<and> swizzled (kids n ! i))) [0..<64]"
  by (auto simp: bitmap_ok_def list_all_iff)

lemma sample_inner_wf: "inner_wf sample_inner"
  unfolding inner_wf_def bitmap_ok_code by code_simp

theorem inner_insert_correct_witness:
  "inner_wf (inner_insert sample_inner 15 (swizzle_tag OR 16)) \<and>
   seps (inner_insert sample_inner 15 (swizzle_tag OR 16)) = [10, 15, 20]"
proof -
  have "count sample_inner \<noteq> 0" "\<not> inner_isFull sample_inner" "15 \<notin> set (seps sample_inner)"
    "seps (inner_insert sample_inner 15 (swizzle_tag OR 16)) = [10, 15, 20]" by code_simp+
  with inner_insert_correct [OF sample_inner_wf] show ?thesis by blast
qed

text \<open>
  C27: splitting an inner node of at least two separators partitions it: the left separators, the
  promoted one and the right separators are the old ones in order, the children of the two nodes
  are the old children in order, the limits meet at the promoted separator, and in both nodes the
  bitmap marks exactly the swizzled children.
\<close>

theorem inner_split_correct:
  assumes "inner_wf n" "length (keys n0) = inner_maxEntries" "length (children n0) = inner_maxEntries"
    and "2 \<le> unat (count n)" and "inner_split n n0 = (sep, l, r)"
  shows "inner_wf l \<and> inner_wf r \<and> seps l @ sep # seps r = seps n \<and> kids l @ kids r = kids n \<and>
    min_limit l = min_limit n \<and> max_limit l = sep \<and> min_limit r = sep \<and> max_limit r = max_limit n"
proof -
  have "min_limit l = min_limit n" "max_limit l = sep" "min_limit r = sep" "max_limit r = max_limit n"
    using assms(5) by (auto simp: inner_split_def Let_def)
  then show ?thesis using inner_split_wf [OF assms] inner_split_partition [OF assms] by blast
qed

theorem inner_split_correct_witness:
  "case inner_split sample_inner (new_inner (replicate 59 0) (replicate 59 0) 1 0) of (sep, l, r) \<Rightarrow>
     inner_wf l \<and> inner_wf r \<and> seps l @ sep # seps r = [10, 20] \<and> kids r = [swizzle_tag OR 8, 8192]"
proof -
  obtain sep l r where sp: "inner_split sample_inner (new_inner (replicate 59 0) (replicate 59 0) 1 0) = (sep, l, r)"
    by (cases "inner_split sample_inner (new_inner (replicate 59 0) (replicate 59 0) 1 0)") auto
  have "2 \<le> unat (count sample_inner)" "seps sample_inner = [10, 20]"
    "case inner_split sample_inner (new_inner (replicate 59 0) (replicate 59 0) 1 0) of (sep, l, r) \<Rightarrow>
       kids r = [swizzle_tag OR 8, 8192]" by code_simp+
  then show ?thesis using inner_split_correct [OF sample_inner_wf _ _ _ sp] sp by (simp add: new_inner_def)
qed

text \<open>
  On a well-formed inner node with a swizzled child, \<open>closest_set\<close> returns the index of a
  swizzled child, and no other swizzled child is nearer to the given position.
\<close>

theorem closest_set_correct:
  assumes "inner_wf n" "bitmap n \<noteq> 0" "pos \<le> unat (count n)"
  shows "\<exists>j. closest_set n pos = int j \<and> j < length (kids n) \<and> swizzled (kids n ! j) \<and>
    (\<forall>i < length (kids n). swizzled (kids n ! i) \<longrightarrow> \<bar>int j - int pos\<bar> \<le> \<bar>int i - int pos\<bar>)"
proof -
  have bits: "bit (bitmap n) i \<longleftrightarrow> i < length (kids n) \<and> swizzled (kids n ! i)" for i
    using inner_wfD(3,5,7) [OF assms(1)] bit_imp_le_length [of "bitmap n" i]
    by (cases "i < 64") (auto simp: bitmap_ok_def)
  have "i \<le> unat (count n)" if "bit (bitmap n) i" for i
    using that inner_wfD(7) [OF assms(1)] by (simp add: bits)
  from closest_set_nearest [OF assms(2) this assms(3) inner_wfD(3) [OF assms(1)]]
  show ?thesis unfolding bits by auto
qed

theorem closest_set_correct_witness:
  "closest_set sample_inner 2 = 1 \<and> swizzled (kids sample_inner ! 1)"
proof -
  have "bitmap sample_inner \<noteq> 0" "2 \<le> unat (count sample_inner)" "closest_set sample_inner 2 = 1" by code_simp+
  with closest_set_correct [OF sample_inner_wf, of 2] show ?thesis by auto
qed

text \<open>
  C28: the binary search of \<open>lowerBound\<close>, in leaves and inner nodes alike, returns what a linear scan for the first key that is not
  below the searched one returns.
\<close>

theorem lowerBound_linear:
  assumes "sorted_wrt (<) (take n ks)" "0 < n" "n \<le> length ks"
  shows "lowerBound_loop ks k 0 n = length (takeWhile (\<lambda>x. x < k) (take n ks))"
proof (rule is_lower_bound_unique)
  show "is_lower_bound (take n ks) k (lowerBound_loop ks k 0 n)"
    using assms by (intro lowerBound_loop_correct) auto
  show "is_lower_bound (take n ks) k (length (takeWhile (\<lambda>x. x < k) (take n ks)))"
    unfolding is_lower_bound_def
  proof (intro conjI ballI)
    show "length (takeWhile (\<lambda>x. x < k) (take n ks)) \<le> length (take n ks)" by (rule length_takeWhile_le)
    fix x assume "x \<in> set (take (length (takeWhile (\<lambda>x. x < k) (take n ks))) (take n ks))"
    then show "x < k" unfolding takeWhile_eq_take [symmetric] by (rule set_takeWhileD [THEN conjunct2])
  next
    fix x assume "x \<in> set (drop (length (takeWhile (\<lambda>x. x < k) (take n ks))) (take n ks))"
    then have "x \<in> set (dropWhile (\<lambda>x. x < k) (take n ks))" by (simp add: dropWhile_eq_drop)
    moreover obtain y ys where y: "dropWhile (\<lambda>x. x < k) (take n ks) = y # ys" using calculation by (cases "dropWhile (\<lambda>x. x < k) (take n ks)") auto
    moreover have "\<not> y < k" using hd_dropWhile [of "\<lambda>x. x < k" "take n ks"] y by simp
    moreover have "sorted_wrt (<) (y # ys)" using sorted_wrt_drop [OF assms(1)] y by (metis dropWhile_eq_drop)
    ultimately show "k \<le> x" by auto
  qed
qed

theorem lowerBound_linear_witness: "lowerBound_loop [10, 20, 30, 0] 20 0 3 = 1"
proof -
  have "sorted_wrt (<) (take 3 [10, 20, 30, 0 :: Key])" by simp
  from lowerBound_linear [OF this, of 20] show ?thesis by simp
qed

end
