(* ===== verification/Dex_Alloc.thy ===== *)
theory Dex_Alloc
  imports Global_Addr
begin

text \<open>
  Remote memory allocation.  A memory node's directory threads hand out 32 MB chunks
  (\<open>GlobalAllocator\<close>, \<open>Directory\<close>); every compute thread cuts its chunks into blocks with bump
  allocators of its own (\<open>LocalAllocator\<close>, \<open>MultiAllocator\<close>, \<open>SmartLocalAllocator\<close>), and
  \<open>DSM::alloc\<close> joins the two with a \<open>MALLOC\<close> call.  The theory models both levels and proves that
  no two blocks ever handed out share a byte.  \<open>PAGE_OFFSET\<close> is not defined in \<open>Common.h\<close>, so the
  model follows the other branch.
\<close>

section \<open>The chunk allocator of a directory\<close>

definition kChunkSize :: u64 where "kChunkSize = 32 * (1024 * 1024)"

definition kRootPointerStoreOffest :: u64 where "kRootPointerStoreOffest = kChunkSize div 2"

datatype alloc_error = OutOfBounds | SharedMemoryRunOut | ChunkInUse

record GlobalAllocator =
  ga_start :: GlobalAddress
  ga_size :: u64
  ga_bitmap :: "bool list"
  bitmap_len :: nat
  bitmap_tail :: nat

text \<open>The constructor writes \<open>bitmap[0]\<close>, out of bounds when the region holds no chunk.\<close>

definition GlobalAllocator_new :: "GlobalAddress \<Rightarrow> u64 \<Rightarrow> alloc_error + GlobalAllocator" where
  "GlobalAllocator_new start sz =
     (let len = unat (sz div kChunkSize) in
      if len = 0 then Inl OutOfBounds
      else Inr \<lparr>ga_start = start, ga_size = sz, ga_bitmap = (replicate len False)[0 := True],
                bitmap_len = len, bitmap_tail = 1\<rparr>)"

text \<open>Both \<open>assert(false)\<close> stop the memory node; they are the error values.\<close>

definition alloc_chunck :: "GlobalAllocator \<Rightarrow> alloc_error + (GlobalAddress \<times> GlobalAllocator)" where
  "alloc_chunck g =
     (let res = ga_start g in
      if bitmap_tail g \<ge> bitmap_len g then Inl SharedMemoryRunOut
      else if ga_bitmap g ! bitmap_tail g = False then
        Inr (set_offset res (offset res + of_nat (bitmap_tail g) * kChunkSize),
             g\<lparr>ga_bitmap := (ga_bitmap g)[bitmap_tail g := True], bitmap_tail := bitmap_tail g + 1\<rparr>)
      else Inl ChunkInUse)"

definition free_chunk :: "GlobalAllocator \<Rightarrow> GlobalAddress \<Rightarrow> alloc_error + GlobalAllocator" where
  "free_chunk g addr =
     (let i = unat ((offset addr - offset (ga_start g)) div kChunkSize) in
      if i < bitmap_len g then Inr (g\<lparr>ga_bitmap := (ga_bitmap g)[i := False]\<rparr>) else Inl OutOfBounds)"

section \<open>The bump allocators of a compute thread\<close>

record LocalAllocator =
  la_head :: GlobalAddress
  la_cur :: GlobalAddress
  la_log_heads :: "GlobalAddress list"
  la_head_offset :: u64

definition LocalAllocator_new :: LocalAllocator where
  "LocalAllocator_new = \<lparr>la_head = Null, la_cur = Null, la_log_heads = [], la_head_offset = 0\<rparr>"

text \<open>\<open>malloc\<close> returns the address, \<open>need_chunck\<close> and the allocator.\<close>

definition LocalAllocator_malloc :: "LocalAllocator \<Rightarrow> u64 \<Rightarrow> GlobalAddress \<times> bool \<times> LocalAllocator" where
  "LocalAllocator_malloc a sz =
     (let res = la_cur a in
      if la_log_heads a = [] \<or> offset (la_cur a) + sz + 8 > offset (la_head a) + kChunkSize
      then (res, True, a)
      else (res, False, a\<lparr>la_cur := set_offset (la_cur a) (offset (la_cur a) + sz)\<rparr>))"

definition LocalAllocator_set_chunck :: "LocalAllocator \<Rightarrow> GlobalAddress \<Rightarrow> LocalAllocator" where
  "LocalAllocator_set_chunck a addr =
     (let addr' = set_offset addr (offset addr + la_head_offset a) in
      a\<lparr>la_log_heads := la_log_heads a @ [addr], la_head := addr', la_cur := addr'\<rparr>)"

record MultiAllocator =
  ma_cur :: "GlobalAddress list"
  ma_head :: "GlobalAddress list"
  ma_log_heads :: "GlobalAddress list list"
  ma_head_offset :: "u64 list"

definition MultiAllocator_new :: MultiAllocator where
  "MultiAllocator_new = \<lparr>ma_cur = replicate 128 Null, ma_head = replicate 128 Null,
     ma_log_heads = replicate 128 [], ma_head_offset = replicate 128 0\<rparr>"

definition MultiAllocator_malloc ::
  "MultiAllocator \<Rightarrow> u64 \<Rightarrow> nat \<Rightarrow> GlobalAddress \<times> bool \<times> MultiAllocator" where
  "MultiAllocator_malloc a sz node_id =
     (let res = ma_cur a ! node_id in
      if ma_log_heads a ! node_id = [] \<or>
         offset (ma_cur a ! node_id) + sz + 8 > offset (ma_head a ! node_id) + kChunkSize
      then (res, True, a)
      else (res, False, a\<lparr>ma_cur := (ma_cur a)[node_id :=
              set_offset (ma_cur a ! node_id) (offset (ma_cur a ! node_id) + sz)]\<rparr>))"

definition MultiAllocator_set_chunck :: "MultiAllocator \<Rightarrow> GlobalAddress \<Rightarrow> nat \<Rightarrow> MultiAllocator" where
  "MultiAllocator_set_chunck a addr node_id =
     (let addr' = set_offset addr (offset addr + ma_head_offset a ! node_id) in
      a\<lparr>ma_log_heads := (ma_log_heads a)[node_id := ma_log_heads a ! node_id @ [addr]],
        ma_head := (ma_head a)[node_id := addr'], ma_cur := (ma_cur a)[node_id := addr']\<rparr>)"

text \<open>The allocator of the SMART build, with a free list; \<open>ALLOC_ALLIGN_BIT\<close> is 8.\<close>

record SmartLocalAllocator =
  sa_head :: GlobalAddress
  sa_cur :: GlobalAddress
  free_list :: "(GlobalAddress \<times> u64) list"

definition ROUND_UP :: "u64 \<Rightarrow> nat \<Rightarrow> u64" where
  "ROUND_UP x n = (x + push_bit n 1 - 1) AND NOT (push_bit n 1 - 1)"

definition SmartLocalAllocator_new :: SmartLocalAllocator where
  "SmartLocalAllocator_new = \<lparr>sa_head = Null, sa_cur = Null, free_list = []\<rparr>"

text \<open>The loop over the free list: the first block that is large enough, and the list without it.\<close>

fun take_first_fit :: "(GlobalAddress \<times> u64) list \<Rightarrow> u64 \<Rightarrow> (GlobalAddress \<times> (GlobalAddress \<times> u64) list) option" where
  "take_first_fit [] sz = None"
| "take_first_fit (b # bs) sz =
     (if snd b \<ge> sz then Some (fst b, bs)
      else case take_first_fit bs sz of None \<Rightarrow> None | Some (a, bs') \<Rightarrow> Some (a, b # bs'))"

definition SmartLocalAllocator_malloc ::
  "SmartLocalAllocator \<Rightarrow> u64 \<Rightarrow> bool \<Rightarrow> GlobalAddress \<times> bool \<times> SmartLocalAllocator" where
  "SmartLocalAllocator_malloc a0 sz align =
     (let a = (if align then a0\<lparr>sa_cur := set_offset (sa_cur a0) (ROUND_UP (offset (sa_cur a0)) 8)\<rparr> else a0);
          res = sa_cur a
      in if addr_eq (sa_head a) Null \<or> offset (sa_cur a) + sz > offset (sa_head a) + kChunkSize
         then (case take_first_fit (free_list a) sz of
                 Some (b, fl) \<Rightarrow> (b, False, a\<lparr>free_list := fl\<rparr>)
               | None \<Rightarrow> (res, True, a))
         else (res, False, a\<lparr>sa_cur := set_offset (sa_cur a) (offset (sa_cur a) + sz)\<rparr>))"

definition SmartLocalAllocator_set_chunck :: "SmartLocalAllocator \<Rightarrow> GlobalAddress \<Rightarrow> SmartLocalAllocator" where
  "SmartLocalAllocator_set_chunck a addr = a\<lparr>sa_head := addr, sa_cur := addr\<rparr>"

definition SmartLocalAllocator_free :: "SmartLocalAllocator \<Rightarrow> GlobalAddress \<Rightarrow> u64 \<Rightarrow> SmartLocalAllocator" where
  "SmartLocalAllocator_free a addr sz = a\<lparr>free_list := free_list a @ [(addr, sz)]\<rparr>"

section \<open>The cluster\<close>

text \<open>
  The configuration, the directories of every memory node, and every compute thread's allocators
  with the \<open>thread_local\<close> round-robin counters of the two \<open>DSM::alloc\<close>.  \<open>blocks\<close> is a ghost: all
  blocks ever returned, latest first.
\<close>

record dsm_conf =
  machineNR :: nat
  memThreadCount :: nat
  dsm_bytes :: u64

record alloc_thread =
  local_allocator :: LocalAllocator
  multi_allocator :: MultiAllocator
  next_target_node :: nat
  next_target_dir_id :: nat
  next_target_dir_id2 :: nat

record dsm =
  dirs :: "nat \<Rightarrow> nat \<Rightarrow> GlobalAllocator"
  thrs :: "nat \<Rightarrow> alloc_thread"
  blocks :: "(GlobalAddress \<times> u64) list"

definition per_directory_dsm_size :: "dsm_conf \<Rightarrow> u64" where
  "per_directory_dsm_size conf = dsm_bytes conf div of_nat (memThreadCount conf)"

text \<open>The chunk allocator the constructor of \<open>Directory\<close> makes.\<close>

definition Directory_chunckAlloc :: "dsm_conf \<Rightarrow> nat \<Rightarrow> nat \<Rightarrow> alloc_error + GlobalAllocator" where
  "Directory_chunckAlloc conf node dirID =
     (let dsm_start = set_offset (set_nodeID Null (of_nat node)) (per_directory_dsm_size conf * of_nat dirID)
      in GlobalAllocator_new dsm_start (per_directory_dsm_size conf))"

definition alloc_thread_new :: "dsm_conf \<Rightarrow> nat \<Rightarrow> nat \<Rightarrow> alloc_thread" where
  "alloc_thread_new conf threadID myNodeID =
     \<lparr>local_allocator = LocalAllocator_new, multi_allocator = MultiAllocator_new,
      next_target_node = (threadID + myNodeID) mod machineNR conf,
      next_target_dir_id = (threadID + myNodeID) mod memThreadCount conf,
      next_target_dir_id2 = (threadID + myNodeID) mod memThreadCount conf\<rparr>"

text \<open>The \<open>MALLOC\<close> message to a directory and its answer.\<close>

definition rpc_malloc :: "dsm \<Rightarrow> nat \<Rightarrow> nat \<Rightarrow> alloc_error + (GlobalAddress \<times> dsm)" where
  "rpc_malloc s node dir =
     (case alloc_chunck (dirs s node dir) of
        Inl e \<Rightarrow> Inl e
      | Inr (addr, g) \<Rightarrow> Inr (addr, s\<lparr>dirs := (dirs s)(node := (dirs s node)(dir := g))\<rparr>))"

definition DSM_alloc :: "dsm_conf \<Rightarrow> dsm \<Rightarrow> nat \<Rightarrow> u64 \<Rightarrow> alloc_error + (GlobalAddress \<times> dsm)" where
  "DSM_alloc conf s t sz =
     (let th = thrs s t; (addr, need_chunk, la) = LocalAllocator_malloc (local_allocator th) sz in
      if need_chunk then
        (case rpc_malloc s (next_target_node th) (next_target_dir_id th) of
           Inl e \<Rightarrow> Inl e
         | Inr (chunk, s') \<Rightarrow>
             (let la' = LocalAllocator_set_chunck la chunk;
                  dir = next_target_dir_id th + 1;
                  (node', dir') = (if dir = memThreadCount conf
                                   then ((next_target_node th + 1) mod machineNR conf, 0)
                                   else (next_target_node th, dir));
                  (addr', need', la'') = LocalAllocator_malloc la' sz
              in Inr (addr', s'\<lparr>thrs := (thrs s)(t := th\<lparr>local_allocator := la'',
                       next_target_node := node', next_target_dir_id := dir'\<rparr>),
                     blocks := (addr', sz) # blocks s\<rparr>)))
      else Inr (addr, s\<lparr>thrs := (thrs s)(t := th\<lparr>local_allocator := la\<rparr>), blocks := (addr, sz) # blocks s\<rparr>))"

definition DSM_alloc_node :: "dsm_conf \<Rightarrow> dsm \<Rightarrow> nat \<Rightarrow> u64 \<Rightarrow> nat \<Rightarrow> alloc_error + (GlobalAddress \<times> dsm)" where
  "DSM_alloc_node conf s t sz node_id0 =
     (let th = thrs s t; node_id = node_id0 mod machineNR conf;
          (addr, need_chunk, ma) = MultiAllocator_malloc (multi_allocator th) sz node_id in
      if need_chunk then
        (case rpc_malloc s node_id (next_target_dir_id2 th) of
           Inl e \<Rightarrow> Inl e
         | Inr (chunk, s') \<Rightarrow>
             (let ma' = MultiAllocator_set_chunck ma chunk node_id;
                  dir = next_target_dir_id2 th + 1;
                  dir' = (if dir = memThreadCount conf then 0 else dir);
                  (addr', need', ma'') = MultiAllocator_malloc ma' sz node_id
              in Inr (addr', s'\<lparr>thrs := (thrs s)(t := th\<lparr>multi_allocator := ma'', next_target_dir_id2 := dir'\<rparr>),
                     blocks := (addr', sz) # blocks s\<rparr>)))
      else Inr (addr, s\<lparr>thrs := (thrs s)(t := th\<lparr>multi_allocator := ma\<rparr>), blocks := (addr, sz) # blocks s\<rparr>))"

text \<open>
  The cluster runs: any thread calls either \<open>alloc\<close>, in any order.  A call holds at most one
  message to a directory, which serves its messages one at a time, so a call is one step.
\<close>

inductive alloc_step :: "dsm_conf \<Rightarrow> dsm \<Rightarrow> dsm \<Rightarrow> bool" for conf :: dsm_conf where
  alloc: "sz \<le> kChunkSize - 8 \<Longrightarrow> DSM_alloc conf s t sz = Inr (a, s') \<Longrightarrow> alloc_step conf s s'"
| alloc_node: "sz \<le> kChunkSize - 8 \<Longrightarrow> DSM_alloc_node conf s t sz n = Inr (a, s') \<Longrightarrow> alloc_step conf s s'"

definition dsm_init :: "dsm_conf \<Rightarrow> dsm \<Rightarrow> bool" where
  "dsm_init conf s \<longleftrightarrow>
     (\<forall>n < machineNR conf. \<forall>d < memThreadCount conf. Directory_chunckAlloc conf n d = Inr (dirs s n d)) \<and>
     (\<forall>t. \<exists>tid nid. thrs s t = alloc_thread_new conf tid nid) \<and> blocks s = []"

text \<open>
  What the deployment has to give: at least one machine and directory, no more machines than
  \<open>MultiAllocator\<close> has slots for, a region that holds a chunk and addresses of 48 bits.
\<close>

definition dsm_conf_ok :: "dsm_conf \<Rightarrow> bool" where
  "dsm_conf_ok conf \<longleftrightarrow> 0 < machineNR conf \<and> machineNR conf \<le> 128 \<and>
     0 < memThreadCount conf \<and> memThreadCount conf < 2 ^ 16 \<and>
     dsm_bytes conf \<le> 2 ^ 47 \<and> kChunkSize \<le> per_directory_dsm_size conf"

section \<open>Cutting chunks into blocks, abstractly\<close>

text \<open>
  Regions \<open>'r\<close> own at most one chunk each and a position in it.  A location is a node and a byte
  offset.
\<close>

type_synonym loc = "nat \<times> nat"

record 'r bump =
  issued :: "loc set"
  act :: "'r \<Rightarrow> (loc \<times> nat) option"
  blks :: "(loc \<times> nat) list"

definition apart :: "nat \<Rightarrow> loc \<Rightarrow> loc \<Rightarrow> bool" where
  "apart K b b' \<longleftrightarrow> fst b \<noteq> fst b' \<or> snd b + K \<le> snd b' \<or> snd b' + K \<le> snd b"

fun disjoint_blocks :: "loc \<times> nat \<Rightarrow> loc \<times> nat \<Rightarrow> bool" where
  "disjoint_blocks (a, n) (a', n') \<longleftrightarrow> fst a \<noteq> fst a' \<or> snd a + n \<le> snd a' \<or> snd a' + n' \<le> snd a"

definition in_chunk :: "nat \<Rightarrow> loc \<Rightarrow> loc \<times> nat \<Rightarrow> bool" where
  "in_chunk K b x \<longleftrightarrow> fst (fst x) = fst b \<and> snd b \<le> snd (fst x) \<and> snd (fst x) + snd x \<le> snd b + K"

definition bump_inv :: "nat \<Rightarrow> 'r bump \<Rightarrow> bool" where
  "bump_inv K s \<longleftrightarrow>
     (\<forall>b \<in> issued s. \<forall>b' \<in> issued s. b \<noteq> b' \<longrightarrow> apart K b b') \<and>
     (\<forall>r b c. act s r = Some (b, c) \<longrightarrow> b \<in> issued s \<and> snd b \<le> c \<and> c \<le> snd b + K) \<and>
     (\<forall>r r' b c c'. act s r = Some (b, c) \<and> act s r' = Some (b, c') \<longrightarrow> r = r') \<and>
     (\<forall>x \<in> set (blks s). \<exists>b \<in> issued s. in_chunk K b x \<and>
        (\<forall>r c. act s r = Some (b, c) \<longrightarrow> snd (fst x) + snd x \<le> c)) \<and>
     sorted_wrt disjoint_blocks (blks s)"

definition bump_grab :: "'r bump \<Rightarrow> 'r \<Rightarrow> loc \<Rightarrow> 'r bump" where
  "bump_grab s r b = s\<lparr>issued := insert b (issued s), act := (act s)(r \<mapsto> (b, snd b))\<rparr>"

definition bump_cut :: "'r bump \<Rightarrow> 'r \<Rightarrow> loc \<Rightarrow> nat \<Rightarrow> nat \<Rightarrow> 'r bump" where
  "bump_cut s r b c n = s\<lparr>act := (act s)(r \<mapsto> (b, c + n)), blks := ((fst b, c), n) # blks s\<rparr>"

lemma bump_invD:
  assumes "bump_inv K s"
  shows "b \<in> issued s \<Longrightarrow> b' \<in> issued s \<Longrightarrow> b \<noteq> b' \<Longrightarrow> apart K b b'"
    "act s r = Some (b, c) \<Longrightarrow> b \<in> issued s" "act s r = Some (b, c) \<Longrightarrow> snd b \<le> c"
    "act s r = Some (b, c) \<Longrightarrow> c \<le> snd b + K"
    "act s r = Some (b, c) \<Longrightarrow> act s r' = Some (b, c') \<Longrightarrow> r = r'"
    "x \<in> set (blks s) \<Longrightarrow> \<exists>b \<in> issued s. in_chunk K b x \<and> (\<forall>r c. act s r = Some (b, c) \<longrightarrow> snd (fst x) + snd x \<le> c)"
    "sorted_wrt disjoint_blocks (blks s)"
  using assms unfolding bump_inv_def by blast+

lemma bump_invI:
  assumes "\<And>b b'. b \<in> issued s \<Longrightarrow> b' \<in> issued s \<Longrightarrow> b \<noteq> b' \<Longrightarrow> apart K b b'"
    and "\<And>r b c. act s r = Some (b, c) \<Longrightarrow> b \<in> issued s \<and> snd b \<le> c \<and> c \<le> snd b + K"
    and "\<And>r r' b c c'. act s r = Some (b, c) \<Longrightarrow> act s r' = Some (b, c') \<Longrightarrow> r = r'"
    and "\<And>x. x \<in> set (blks s) \<Longrightarrow>
      \<exists>b \<in> issued s. in_chunk K b x \<and> (\<forall>r c. act s r = Some (b, c) \<longrightarrow> snd (fst x) + snd x \<le> c)"
    and "sorted_wrt disjoint_blocks (blks s)"
  shows "bump_inv K s"
  using assms unfolding bump_inv_def by blast

lemma apart_sym: "apart K b b' \<Longrightarrow> apart K b' b"
  by (auto simp: apart_def)

lemma bump_grab_inv:
  assumes inv: "bump_inv K s" and new: "b \<notin> issued s" and far: "\<And>b'. b' \<in> issued s \<Longrightarrow> apart K b b'"
  shows "bump_inv K (bump_grab s r b)"
proof -
  note D = bump_invD [OF inv]
  have own: "b' \<noteq> b" if "act s r' = Some (b', c)" for r' b' c using D(2) [OF that] new by auto
  have 1: "apart K x y" if "x \<in> insert b (issued s)" "y \<in> insert b (issued s)" "x \<noteq> y" for x y
    using that far D(1) apart_sym by blast
  have 2: "\<exists>b' \<in> insert b (issued s). in_chunk K b' x \<and>
      (\<forall>r' c. ((act s)(r \<mapsto> (b, snd b))) r' = Some (b', c) \<longrightarrow> snd (fst x) + snd x \<le> c)" if "x \<in> set (blks s)" for x
    using D(6) [OF that] new by (fastforce split: if_splits)
  show ?thesis
  proof (rule bump_invI)
    fix r' b' c assume "act (bump_grab s r b) r' = Some (b', c)"
    then show "b' \<in> issued (bump_grab s r b) \<and> snd b' \<le> c \<and> c \<le> snd b' + K"
      using D(2-4) [of r' b' c] by (auto simp: bump_grab_def split: if_splits)
  next
    fix r' r'' b' c c' assume "act (bump_grab s r b) r' = Some (b', c)" "act (bump_grab s r b) r'' = Some (b', c')"
    then show "r' = r''"
      using D(5) [of r' b' c r'' c'] own [of r' b' c] own [of r'' b' c'] by (auto simp: bump_grab_def split: if_splits)
  qed (use 1 2 D(7) in \<open>simp_all add: bump_grab_def\<close>)
qed

lemma bump_cut_inv:
  assumes inv: "bump_inv K s" and act: "act s r = Some (b, c)" and fits: "c + n \<le> snd b + K"
  shows "bump_inv K (bump_cut s r b c n)"
proof -
  note D = bump_invD [OF inv]
  have b: "b \<in> issued s" "snd b \<le> c" using D(2,3) [OF act] by auto
  have disj: "disjoint_blocks ((fst b, c), n) x" if x: "x \<in> set (blks s)" for x
  proof -
    obtain b' where b': "b' \<in> issued s" "in_chunk K b' x" "\<And>r c. act s r = Some (b', c) \<Longrightarrow> snd (fst x) + snd x \<le> c"
      using D(6) [OF x] by blast
    show ?thesis
    proof (cases "b' = b")
      case True
      then show ?thesis using b'(3) [of r c] act by (cases x) auto
    next
      case False
      then have "apart K b b'" using D(1) [OF b(1) b'(1)] by blast
      then show ?thesis using b'(2) b(2) fits by (cases x) (auto simp: in_chunk_def apart_def)
    qed
  qed
  have old: "\<exists>b' \<in> issued s. in_chunk K b' x \<and>
      (\<forall>r' c'. ((act s)(r \<mapsto> (b, c + n))) r' = Some (b', c') \<longrightarrow> snd (fst x) + snd x \<le> c')" if x: "x \<in> set (blks s)" for x
  proof -
    obtain b' where b': "b' \<in> issued s" "in_chunk K b' x" "\<And>r c. act s r = Some (b', c) \<Longrightarrow> snd (fst x) + snd x \<le> c"
      using D(6) [OF x] by blast
    then show ?thesis using b'(3) [of r c] act by (intro bexI [of _ b']) (auto split: if_splits intro: trans_le_add1)
  qed
  have new: "\<exists>b' \<in> issued s. in_chunk K b' ((fst b, c), n) \<and>
      (\<forall>r' c'. ((act s)(r \<mapsto> (b, c + n))) r' = Some (b', c') \<longrightarrow> c + n \<le> c')"
    using b fits D(5) [OF act] by (intro bexI [of _ b]) (auto simp: in_chunk_def)
  show ?thesis
  proof (rule bump_invI)
    fix r' b' c' assume "act (bump_cut s r b c n) r' = Some (b', c')"
    then show "b' \<in> issued (bump_cut s r b c n) \<and> snd b' \<le> c' \<and> c' \<le> snd b' + K"
      using D(2-4) [of r' b' c'] b fits by (auto simp: bump_cut_def split: if_splits)
  next
    fix r' r'' b' c' c'' assume "act (bump_cut s r b c n) r' = Some (b', c')" "act (bump_cut s r b c n) r'' = Some (b', c'')"
    then show "r' = r''"
      using D(5) [of r' b' _ r''] D(5) [OF act] by (auto simp: bump_cut_def split: if_splits)
  next
    fix x assume "x \<in> set (blks (bump_cut s r b c n))"
    then consider "x = ((fst b, c), n)" | "x \<in> set (blks s)" by (auto simp: bump_cut_def)
    then show "\<exists>b' \<in> issued (bump_cut s r b c n). in_chunk K b' x \<and>
        (\<forall>r' c'. act (bump_cut s r b c n) r' = Some (b', c') \<longrightarrow> snd (fst x) + snd x \<le> c')"
    proof cases
      case 1
      show ?thesis using new by (simp add: 1 bump_cut_def del: fun_upd_apply)
    next
      case 2
      show ?thesis using old [OF 2] by (simp add: bump_cut_def del: fun_upd_apply)
    qed
  qed (use D(1,7) disj in \<open>simp_all add: bump_cut_def\<close>)
qed

section \<open>The cluster refines it\<close>

abbreviation chunk_bytes :: nat where "chunk_bytes \<equiv> 33554432"

lemma unat_kChunkSize [simp]: "unat kChunkSize = chunk_bytes"
  by (simp add: kChunkSize_def)

definition per :: "dsm_conf \<Rightarrow> nat" where
  "per conf = unat (per_directory_dsm_size conf)"

definition loc_of :: "GlobalAddress \<Rightarrow> loc" where
  "loc_of a = (unat (nodeID a), unat (offset a))"

definition chunk_loc :: "dsm_conf \<Rightarrow> nat \<Rightarrow> nat \<Rightarrow> nat \<Rightarrow> loc" where
  "chunk_loc conf n d i = (n, per conf * d + i * chunk_bytes)"

lemma per_bounds:
  assumes "dsm_conf_ok conf"
  shows "chunk_bytes \<le> per conf" "d < memThreadCount conf \<Longrightarrow> per conf * d + per conf \<le> 2 ^ 47"
proof -
  show "chunk_bytes \<le> per conf"
    using assms unfolding dsm_conf_ok_def word_le_nat_alt per_def by simp
  show "per conf * d + per conf \<le> 2 ^ 47" if d: "d < memThreadCount conf"
  proof -
    have T: "unat (of_nat (memThreadCount conf) :: u64) = memThreadCount conf"
      using assms by (simp add: dsm_conf_ok_def unat_of_nat_lt)
    have "unat (dsm_bytes conf) \<le> 2 ^ 47"
      using assms unfolding dsm_conf_ok_def word_le_nat_alt by simp
    moreover have "per conf = unat (dsm_bytes conf) div memThreadCount conf"
      by (simp add: per_def per_directory_dsm_size_def unat_div T)
    then have "memThreadCount conf * per conf \<le> unat (dsm_bytes conf)" by simp
    moreover have "Suc d * per conf \<le> memThreadCount conf * per conf" using d by (intro mult_le_mono1) simp
    ultimately show ?thesis by (simp add: algebra_simps)
  qed
qed

lemma chunk_in_region: "i < per conf div chunk_bytes \<Longrightarrow> i * chunk_bytes + chunk_bytes \<le> per conf"
proof -
  assume "i < per conf div chunk_bytes"
  then have "Suc i * chunk_bytes \<le> per conf div chunk_bytes * chunk_bytes" by (intro mult_le_mono1) simp
  also have "\<dots> \<le> per conf" by simp
  finally show ?thesis by simp
qed

text \<open>Two different chunks share no byte, whatever directories hand them out.\<close>

lemma chunk_loc_apart:
  assumes "i < per conf div chunk_bytes" "j < per conf div chunk_bytes" "(n, d, i) \<noteq> (m, e, j)"
  shows "apart chunk_bytes (chunk_loc conf n d i) (chunk_loc conf m e j)"
proof -
  have le: "per conf * d + per conf \<le> per conf * e" if "d < e" for d e
    using that mult_le_mono2 [of "Suc d" e "per conf"] by simp
  have ij: "i * chunk_bytes + chunk_bytes \<le> j * chunk_bytes" if "i < j" for i j :: nat
    using that by simp
  show ?thesis
    using chunk_in_region [OF assms(1)] chunk_in_region [OF assms(2)] assms(3) le [of d e] le [of e d] ij [of i j] ij [of j i]
    by (cases d e rule: linorder_cases; cases i j rule: linorder_cases) (auto simp: apart_def chunk_loc_def)
qed

definition dir_ok :: "dsm_conf \<Rightarrow> nat \<Rightarrow> nat \<Rightarrow> GlobalAllocator \<Rightarrow> bool" where
  "dir_ok conf n d g \<longleftrightarrow> loc_of (ga_start g) = (n, per conf * d) \<and> bitmap_len g = per conf div chunk_bytes \<and>
     length (ga_bitmap g) = bitmap_len g \<and> 1 \<le> bitmap_tail g \<and> bitmap_tail g \<le> bitmap_len g \<and>
     (\<forall>j < bitmap_len g. ga_bitmap g ! j \<longleftrightarrow> j < bitmap_tail g)"

lemma dir_init_ok:
  assumes "dsm_conf_ok conf" "n < machineNR conf" "d < memThreadCount conf" "Directory_chunckAlloc conf n d = Inr g"
  shows "dir_ok conf n d g"
proof -
  have d: "unat (of_nat d :: u64) = d" using assms by (simp add: dsm_conf_ok_def unat_of_nat_lt)
  have "per conf * d < 2 ^ 48" using per_bounds(1) [OF assms(1)] per_bounds(2) [OF assms(1,3)] by simp
  then have prod: "unat (per_directory_dsm_size conf * of_nat d) = per conf * d"
    by (simp add: unat_mult_lt d per_def)
  have n: "unat (of_nat n AND mask 16 :: u64) = n"
    using assms(1,2) by (simp add: unat_and_mask unat_of_nat_lt dsm_conf_ok_def)
  have len: "unat (per_directory_dsm_size conf div kChunkSize) = per conf div chunk_bytes"
    by (simp add: unat_div per_def)
  show ?thesis
    using assms(4) \<open>per conf * d < 2 ^ 48\<close> n per_bounds(1) [OF assms(1)]
    by (auto simp: dir_ok_def Directory_chunckAlloc_def GlobalAllocator_new_def Let_def len loc_of_def prod
        set_nodeID_def nth_list_update split: if_splits)
qed

lemma alloc_chunck_ok:
  assumes "dsm_conf_ok conf" "d < memThreadCount conf" "dir_ok conf n d g" "alloc_chunck g = Inr (a, g')"
  shows "loc_of a = chunk_loc conf n d (bitmap_tail g)" "dir_ok conf n d g'" "bitmap_tail g' = Suc (bitmap_tail g)"
    "bitmap_tail g < per conf div chunk_bytes"
proof -
  have tl: "bitmap_tail g < bitmap_len g" and bm: "\<not> ga_bitmap g ! bitmap_tail g"
    and a: "a = set_offset (ga_start g) (offset (ga_start g) + of_nat (bitmap_tail g) * kChunkSize)"
    and g': "g' = g\<lparr>ga_bitmap := (ga_bitmap g)[bitmap_tail g := True], bitmap_tail := bitmap_tail g + 1\<rparr>"
    using assms(4) by (auto simp: alloc_chunck_def Let_def split: if_splits)
  show lt: "bitmap_tail g < per conf div chunk_bytes" using tl assms(3) by (simp add: dir_ok_def)
  show "bitmap_tail g' = Suc (bitmap_tail g)" by (simp add: g')
  show "dir_ok conf n d g'" using assms(3) tl by (auto simp: dir_ok_def g' nth_list_update less_Suc_eq)
  have st: "unat (nodeID (ga_start g)) = n" "unat (offset (ga_start g)) = per conf * d"
    using assms(3) by (simp_all add: dir_ok_def loc_of_def)
  have fit: "per conf * d + bitmap_tail g * chunk_bytes + chunk_bytes \<le> 2 ^ 47"
    using chunk_in_region [OF lt] per_bounds(2) [OF assms(1,2)] by simp
  then have t: "unat (of_nat (bitmap_tail g) :: u64) = bitmap_tail g" by (simp add: unat_of_nat_lt)
  have m: "unat (of_nat (bitmap_tail g) * kChunkSize) = bitmap_tail g * chunk_bytes"
    using fit t by (simp add: unat_mult_lt)
  then have "unat (offset (ga_start g) + of_nat (bitmap_tail g) * kChunkSize) = per conf * d + bitmap_tail g * chunk_bytes"
    using fit st by (simp add: unat_add_lt)
  then show "loc_of a = chunk_loc conf n d (bitmap_tail g)"
    using fit st by (simp add: a loc_of_def chunk_loc_def)
qed

text \<open>The regions: a thread's \<open>LocalAllocator\<close> and the 128 slots of its \<open>MultiAllocator\<close>.\<close>

type_synonym region = "bool \<times> GlobalAddress \<times> GlobalAddress"

fun reg :: "dsm \<Rightarrow> nat \<times> nat option \<Rightarrow> region" where
  "reg s (t, None) = (let la = local_allocator (thrs s t) in (la_log_heads la = [], la_head la, la_cur la))"
| "reg s (t, Some n) = (let ma = multi_allocator (thrs s t) in
     if n < 128 then (ma_log_heads ma ! n = [], ma_head ma ! n, ma_cur ma ! n) else (True, Null, Null))"

definition reg_act :: "region \<Rightarrow> (loc \<times> nat) option" where
  "reg_act r = (case r of (e, h, c) \<Rightarrow> if e then None else Some (loc_of h, unat (offset c)))"

definition issued_chunks :: "dsm_conf \<Rightarrow> dsm \<Rightarrow> loc set" where
  "issued_chunks conf s = {chunk_loc conf n d i | n d i.
     n < machineNR conf \<and> d < memThreadCount conf \<and> 1 \<le> i \<and> i < bitmap_tail (dirs s n d)}"

definition dsm_bump :: "dsm_conf \<Rightarrow> dsm \<Rightarrow> (nat \<times> nat option) bump" where
  "dsm_bump conf s = \<lparr>issued = issued_chunks conf s, act = (\<lambda>r. reg_act (reg s r)),
     blks = map (\<lambda>(a, sz). (loc_of a, unat sz)) (blocks s)\<rparr>"

definition thr_ok :: "dsm_conf \<Rightarrow> alloc_thread \<Rightarrow> bool" where
  "thr_ok conf th \<longleftrightarrow> la_head_offset (local_allocator th) = 0 \<and>
     ma_head_offset (multi_allocator th) = replicate 128 0 \<and> length (ma_cur (multi_allocator th)) = 128 \<and>
     length (ma_head (multi_allocator th)) = 128 \<and> length (ma_log_heads (multi_allocator th)) = 128 \<and>
     next_target_node th < machineNR conf \<and> next_target_dir_id th < memThreadCount conf \<and>
     next_target_dir_id2 th < memThreadCount conf"

definition dsm_inv :: "dsm_conf \<Rightarrow> dsm \<Rightarrow> bool" where
  "dsm_inv conf s \<longleftrightarrow>
     (\<forall>n < machineNR conf. \<forall>d < memThreadCount conf. dir_ok conf n d (dirs s n d)) \<and>
     (\<forall>t. thr_ok conf (thrs s t)) \<and>
     (\<forall>r h c. reg s r = (False, h, c) \<longrightarrow> nodeID h = nodeID c) \<and>
     bump_inv chunk_bytes (dsm_bump conf s)"

lemma dsm_invD:
  assumes "dsm_inv conf s"
  shows "n < machineNR conf \<Longrightarrow> d < memThreadCount conf \<Longrightarrow> dir_ok conf n d (dirs s n d)"
    "thr_ok conf (thrs s t)" "reg s r = (False, h, c) \<Longrightarrow> nodeID h = nodeID c"
    "bump_inv chunk_bytes (dsm_bump conf s)"
  using assms unfolding dsm_inv_def by blast+

lemma issued_bound:
  assumes "dsm_conf_ok conf" "dsm_inv conf s" "b \<in> issued_chunks conf s"
  shows "snd b + chunk_bytes \<le> 2 ^ 47" "chunk_bytes \<le> snd b"
proof -
  obtain n d i where b: "b = chunk_loc conf n d i" "n < machineNR conf" "d < memThreadCount conf" "1 \<le> i"
      "i < bitmap_tail (dirs s n d)" using assms(3) by (auto simp: issued_chunks_def)
  have "i < per conf div chunk_bytes" using dsm_invD(1) [OF assms(2) b(2,3)] b(5) by (simp add: dir_ok_def)
  then show "snd b + chunk_bytes \<le> 2 ^ 47"
    using chunk_in_region [of i conf] per_bounds(2) [OF assms(1) b(3)] by (simp add: b(1) chunk_loc_def)
  show "chunk_bytes \<le> snd b" using b(4) by (simp add: b(1) chunk_loc_def)
qed

lemma bump_fits:
  assumes "unat (offset c) \<le> unat (offset h) + chunk_bytes" "unat (offset h) + chunk_bytes \<le> 2 ^ 47"
    and "sz \<le> kChunkSize - 8" "\<not> offset c + sz + 8 > offset h + kChunkSize"
  shows "unat (offset c) + unat sz \<le> unat (offset h) + chunk_bytes"
    "unat (offset (set_offset c (offset c + sz))) = unat (offset c) + unat sz"
proof -
  have sz: "unat sz \<le> chunk_bytes"
    using assms(3) unfolding word_le_nat_alt by (simp add: kChunkSize_def)
  have 1: "unat (offset c + sz + 8) = unat (offset c) + unat sz + 8" "unat (offset c + sz) = unat (offset c) + unat sz"
    using assms(1,2) sz by (simp_all add: unat_add_lt)
  have 2: "unat (offset h + kChunkSize) = unat (offset h) + chunk_bytes" using assms(2) by (simp add: unat_add_lt)
  show f: "unat (offset c) + unat sz \<le> unat (offset h) + chunk_bytes"
    using assms(4) unfolding word_less_nat_alt 1 2 by simp
  show "unat (offset (set_offset c (offset c + sz))) = unat (offset c) + unat sz"
    using f assms(2) by (simp add: 1(2))
qed

text \<open>A call served from the region's chunk, and one that first fetches a new chunk.\<close>

lemma cut_preserves:
  assumes ok: "dsm_conf_ok conf" and inv: "dsm_inv conf s"
    and r: "reg s r = (False, h, c)" and sz: "sz \<le> kChunkSize - 8" "\<not> offset c + sz + 8 > offset h + kChunkSize"
    and s': "dirs s' = dirs s" "\<And>t. thr_ok conf (thrs s' t)"
      "reg s' = (reg s)(r := (False, h, set_offset c (offset c + sz)))" "blocks s' = (c, sz) # blocks s"
  shows "dsm_inv conf s'"
proof -
  note D = dsm_invD [OF inv]
  have act: "act (dsm_bump conf s) r = Some (loc_of h, unat (offset c))" by (simp add: dsm_bump_def reg_act_def r)
  note B = bump_invD(2-4) [OF D(4) act]
  have b: "unat (offset h) + chunk_bytes \<le> 2 ^ 47" "unat (offset c) \<le> unat (offset h) + chunk_bytes"
    using issued_bound(1) [OF ok inv] B by (auto simp: dsm_bump_def loc_of_def)
  note f = bump_fits [OF b(2,1) sz]
  have "dsm_bump conf s' = bump_cut (dsm_bump conf s) r (loc_of h) (unat (offset c)) (unat sz)"
    using f(2) D(3) [OF r] s' by (auto simp: dsm_bump_def bump_cut_def fun_eq_iff reg_act_def loc_of_def issued_chunks_def)
  moreover have "bump_inv chunk_bytes (bump_cut (dsm_bump conf s) r (loc_of h) (unat (offset c)) (unat sz))"
    using f(1) by (intro bump_cut_inv [OF D(4) act]) (simp add: loc_of_def)
  ultimately have "bump_inv chunk_bytes (dsm_bump conf s')" by simp
  moreover have "nodeID h' = nodeID c'" if "reg s' r' = (False, h', c')" for r' h' c'
    using that s'(3) D(3) [of r' h' c'] D(3) [OF r] by (cases "r' = r") auto
  ultimately show ?thesis unfolding dsm_inv_def using s'(1,2) D(1) by metis
qed

lemma issued_grow:
  assumes "n < machineNR conf" "d < memThreadCount conf" "dirs s' = (dirs s)(n := (dirs s n)(d := g))"
    and "bitmap_tail g = Suc (bitmap_tail (dirs s n d))" "1 \<le> bitmap_tail (dirs s n d)"
  shows "issued_chunks conf s' = insert (chunk_loc conf n d (bitmap_tail (dirs s n d))) (issued_chunks conf s)"
proof -
  have "i < bitmap_tail (dirs s' m e) \<longleftrightarrow> i < bitmap_tail (dirs s m e) \<or> (m = n \<and> e = d \<and> i = bitmap_tail (dirs s n d))" for m e i
    using assms(3,4) by auto
  then show ?thesis using assms(1,2,5) unfolding issued_chunks_def by blast
qed

lemma grab_preserves:
  assumes ok: "dsm_conf_ok conf" and inv: "dsm_inv conf s" and sz: "sz \<le> kChunkSize - 8"
    and nd: "n < machineNR conf" "d < memThreadCount conf" and al: "alloc_chunck (dirs s n d) = Inr (a, g)"
    and s': "dirs s' = (dirs s)(n := (dirs s n)(d := g))" "\<And>t. thr_ok conf (thrs s' t)"
      "reg s' = (reg s)(r := (False, a, set_offset a (offset a + sz)))" "blocks s' = (a, sz) # blocks s"
  shows "dsm_inv conf s'"
proof -
  note D = dsm_invD [OF inv]
  note A = alloc_chunck_ok [OF ok nd(2) D(1) [OF nd] al]
  let ?b = "chunk_loc conf n d (bitmap_tail (dirs s n d))" and ?s = "dsm_bump conf s"
  have far: "?b \<notin> issued_chunks conf s \<and> (\<forall>b' \<in> issued_chunks conf s. apart chunk_bytes ?b b')"
  proof -
    have "apart chunk_bytes ?b b'" if mem: "b' \<in> issued_chunks conf s" for b'
    proof -
      obtain m e i where b': "b' = chunk_loc conf m e i" "m < machineNR conf" "e < memThreadCount conf"
          "i < bitmap_tail (dirs s m e)" using mem by (auto simp: issued_chunks_def)
      have "i < per conf div chunk_bytes" using D(1) [OF b'(2,3)] b'(4) by (simp add: dir_ok_def)
      then show ?thesis unfolding b'(1) using b'(4) by (intro chunk_loc_apart [OF A(4)]) auto
    qed
    moreover have "\<not> apart chunk_bytes ?b ?b" by (simp add: apart_def)
    ultimately show ?thesis by blast
  qed
  have iss: "issued_chunks conf s' = insert ?b (issued_chunks conf s)"
    using issued_grow [OF nd s'(1) A(3)] D(1) [OF nd] by (simp add: dir_ok_def)
  have top: "unat (offset a) + chunk_bytes \<le> 2 ^ 47"
    using A(1) chunk_in_region [OF A(4)] per_bounds(2) [OF ok nd(2)] by (simp add: loc_of_def chunk_loc_def)
  have szn: "unat sz + 8 \<le> chunk_bytes" using sz unfolding word_le_nat_alt by (simp add: kChunkSize_def)
  have room: "\<not> offset a + sz + 8 > offset a + kChunkSize"
    using top szn unfolding word_less_nat_alt by (simp add: unat_add_lt)
  note f = bump_fits [OF _ top sz room, simplified]
  have "bump_inv chunk_bytes (bump_cut (bump_grab ?s r ?b) r ?b (snd ?b) (unat sz))"
    using far szn by (intro bump_cut_inv bump_grab_inv D(4)) (auto simp: bump_grab_def dsm_bump_def)
  moreover have "dsm_bump conf s' = bump_cut (bump_grab ?s r ?b) r ?b (snd ?b) (unat sz)"
  proof -
    have off: "unat (offset a) = snd ?b" and nid: "unat (nodeID a) = fst ?b"
      using A(1) by (metis loc_of_def fst_conv snd_conv)+
    have "(\<lambda>r'. reg_act (reg s' r')) = (\<lambda>r'. reg_act (reg s r'))(r \<mapsto> (?b, snd ?b + unat sz))"
      using f(2) A(1) off s'(3) by (auto simp: fun_eq_iff reg_act_def)
    then show ?thesis
      using A(1) s'(4) off nid by (simp add: dsm_bump_def iss bump_cut_def bump_grab_def)
  qed
  ultimately have "bump_inv chunk_bytes (dsm_bump conf s')" by simp
  moreover have "nodeID h' = nodeID c'" if "reg s' r' = (False, h', c')" for r' h' c'
    using that s'(3) D(3) [of r' h' c'] by (cases "r' = r") auto
  moreover have "dir_ok conf m e (dirs s' m e)" if "m < machineNR conf" "e < memThreadCount conf" for m e
    using that s'(1) D(1) [OF that] A(2) by auto
  ultimately show ?thesis unfolding dsm_inv_def using s'(2) by metis
qed

text \<open>Both \<open>alloc\<close> are one of the two.\<close>

lemma set_offset_0 [simp]: "set_offset a (offset a + 0) = a" "set_offset a (offset a) = a"
  by (simp_all add: set_offset_def)

lemma thr_ok_upd:
  "thr_ok conf th \<Longrightarrow> la_head_offset la = 0 \<Longrightarrow> thr_ok conf (th\<lparr>local_allocator := la\<rparr>)"
  "thr_ok conf th \<Longrightarrow> la_head_offset la = 0 \<Longrightarrow> n < machineNR conf \<Longrightarrow> d < memThreadCount conf \<Longrightarrow>
   thr_ok conf (th\<lparr>local_allocator := la, next_target_node := n, next_target_dir_id := d\<rparr>)"
  by (simp_all add: thr_ok_def)

lemma reg_local:
  assumes "thrs s' = (thrs s)(t := th)" "multi_allocator th = multi_allocator (thrs s t)"
  shows "reg s' = (reg s)((t, None) := (la_log_heads (local_allocator th) = [], la_head (local_allocator th), la_cur (local_allocator th)))"
proof
  fix r :: "nat \<times> nat option"
  obtain u v where "r = (u, v)" by (cases r)
  then show "reg s' r = ((reg s)((t, None) := (la_log_heads (local_allocator th) = [], la_head (local_allocator th), la_cur (local_allocator th)))) r"
    using assms by (cases v; cases "u = t") (auto simp: Let_def)
qed

lemma reg_multi:
  assumes "thrs s' = (thrs s)(t := th)" "local_allocator th = local_allocator (thrs s t)" "n < 128"
    and "\<And>m. m \<noteq> n \<Longrightarrow> ma_cur (multi_allocator th) ! m = ma_cur (multi_allocator (thrs s t)) ! m"
    and "\<And>m. m \<noteq> n \<Longrightarrow> ma_head (multi_allocator th) ! m = ma_head (multi_allocator (thrs s t)) ! m"
    and "\<And>m. m \<noteq> n \<Longrightarrow> ma_log_heads (multi_allocator th) ! m = ma_log_heads (multi_allocator (thrs s t)) ! m"
  shows "reg s' = (reg s)((t, Some n) := (ma_log_heads (multi_allocator th) ! n = [],
     ma_head (multi_allocator th) ! n, ma_cur (multi_allocator th) ! n))"
proof
  fix r :: "nat \<times> nat option"
  obtain u v where "r = (u, v)" by (cases r)
  then show "reg s' r = ((reg s)((t, Some n) := (ma_log_heads (multi_allocator th) ! n = [],
     ma_head (multi_allocator th) ! n, ma_cur (multi_allocator th) ! n))) r"
    using assms by (cases v; cases "u = t") (auto simp: Let_def)
qed

lemma malloc_after_set_chunck:
  assumes "la_head_offset la = 0" "sz \<le> kChunkSize - 8" "unat (offset a) + chunk_bytes \<le> 2 ^ 47"
  shows "LocalAllocator_malloc (LocalAllocator_set_chunck la a) sz =
    (a, False, la\<lparr>la_log_heads := la_log_heads la @ [a], la_head := a, la_cur := set_offset a (offset a + sz)\<rparr>)"
proof -
  have "unat sz + 8 \<le> chunk_bytes" using assms(2) unfolding word_le_nat_alt by (simp add: kChunkSize_def)
  then have "\<not> offset a + sz + 8 > offset a + kChunkSize"
    using assms(3) unfolding word_less_nat_alt by (simp add: unat_add_lt)
  then show ?thesis using assms(1) by (simp add: LocalAllocator_malloc_def LocalAllocator_set_chunck_def Let_def)
qed

lemma multi_malloc_after_set_chunck:
  assumes "ma_head_offset ma = replicate 128 0" "length (ma_cur ma) = 128" "length (ma_head ma) = 128"
    "length (ma_log_heads ma) = 128" "n < 128" "sz \<le> kChunkSize - 8" "unat (offset a) + chunk_bytes \<le> 2 ^ 47"
  shows "MultiAllocator_malloc (MultiAllocator_set_chunck ma a n) sz n =
    (a, False, ma\<lparr>ma_log_heads := (ma_log_heads ma)[n := ma_log_heads ma ! n @ [a]],
      ma_head := (ma_head ma)[n := a], ma_cur := (ma_cur ma)[n := set_offset a (offset a + sz)]\<rparr>)"
proof -
  have "unat sz + 8 \<le> chunk_bytes" using assms(6) unfolding word_le_nat_alt by (simp add: kChunkSize_def)
  then have "\<not> offset a + sz + 8 > offset a + kChunkSize"
    using assms(7) unfolding word_less_nat_alt by (simp add: unat_add_lt)
  then show ?thesis using assms(1-5) by (simp add: MultiAllocator_malloc_def MultiAllocator_set_chunck_def Let_def)
qed

lemma chunk_top:
  assumes "dsm_conf_ok conf" "dsm_inv conf s" "n < machineNR conf" "d < memThreadCount conf"
    and "alloc_chunck (dirs s n d) = Inr (a, g)"
  shows "unat (offset a) + chunk_bytes \<le> 2 ^ 47"
  using alloc_chunck_ok [OF assms(1,4) dsm_invD(1) [OF assms(2-4)] assms(5)] per_bounds(2) [OF assms(1,4)]
    chunk_in_region [of "bitmap_tail (dirs s n d)" conf] by (simp add: loc_of_def chunk_loc_def)

lemma DSM_alloc_inv:
  assumes ok: "dsm_conf_ok conf" and inv: "dsm_inv conf s" and sz: "sz \<le> kChunkSize - 8"
    and al: "DSM_alloc conf s t sz = Inr (a, s')"
  shows "dsm_inv conf s'"
proof -
  let ?th = "thrs s t" and ?la = "local_allocator (thrs s t)"
  note th = dsm_invD(2) [OF inv, of t]
  show ?thesis
  proof (cases "la_log_heads ?la = [] \<or> offset (la_cur ?la) + sz + 8 > offset (la_head ?la) + kChunkSize")
    case False
    let ?th' = "?th\<lparr>local_allocator := ?la\<lparr>la_cur := set_offset (la_cur ?la) (offset (la_cur ?la) + sz)\<rparr>\<rparr>"
    have s': "s' = s\<lparr>thrs := (thrs s)(t := ?th'), blocks := (la_cur ?la, sz) # blocks s\<rparr>"
      using al False by (auto simp: DSM_alloc_def LocalAllocator_malloc_def Let_def)
    have "thr_ok conf ?th'" using th by (intro thr_ok_upd) (simp_all add: thr_ok_def)
    then have "thr_ok conf (thrs s' u)" for u using dsm_invD(2) [OF inv] by (simp add: s')
    moreover have "reg s (t, None) = (False, la_head ?la, la_cur ?la)" using False by (simp add: Let_def)
    moreover have "reg s' = (reg s)((t, None) := (False, la_head ?la, set_offset (la_cur ?la) (offset (la_cur ?la) + sz)))"
      using False by (subst reg_local [where s = s and t = t and th = ?th']) (simp_all add: s')
    ultimately show ?thesis using False by (intro cut_preserves [OF ok inv _ sz]) (simp_all add: s')
  next
    case True
    let ?n = "next_target_node ?th" and ?d = "next_target_dir_id ?th"
    have nd: "?n < machineNR conf" "?d < memThreadCount conf" using th by (simp_all add: thr_ok_def)
    have need: "LocalAllocator_malloc ?la sz = (la_cur ?la, True, ?la)" using True by (simp add: LocalAllocator_malloc_def Let_def)
    obtain c g where c: "alloc_chunck (dirs s ?n ?d) = Inr (c, g)"
      using al need by (cases "alloc_chunck (dirs s ?n ?d)") (auto simp: DSM_alloc_def rpc_malloc_def Let_def)
    have "la_head_offset ?la = 0" using th by (simp add: thr_ok_def)
    note m = malloc_after_set_chunck [OF this sz chunk_top [OF ok inv nd c]]
    define nd' where "nd' = (if ?d + 1 = memThreadCount conf then ((?n + 1) mod machineNR conf, 0) else (?n, ?d + 1))"
    let ?th' = "?th\<lparr>local_allocator := ?la\<lparr>la_log_heads := la_log_heads ?la @ [c], la_head := c, la_cur := set_offset c (offset c + sz)\<rparr>,
      next_target_node := fst nd', next_target_dir_id := snd nd'\<rparr>"
    have s': "s' = s\<lparr>dirs := (dirs s)(?n := (dirs s ?n)(?d := g)), thrs := (thrs s)(t := ?th'), blocks := (c, sz) # blocks s\<rparr>"
      using al c need m by (auto simp: DSM_alloc_def rpc_malloc_def Let_def nd'_def split: if_splits)
    have "fst nd' < machineNR conf" "snd nd' < memThreadCount conf" using nd by (auto simp: nd'_def)
    then have "thr_ok conf ?th'" using th by (intro thr_ok_upd) (simp_all add: thr_ok_def)
    then have "thr_ok conf (thrs s' u)" for u using dsm_invD(2) [OF inv] by (simp add: s')
    moreover have "reg s' = (reg s)((t, None) := (False, c, set_offset c (offset c + sz)))"
      by (subst reg_local [where s = s and t = t and th = ?th']) (simp_all add: s')
    ultimately show ?thesis by (intro grab_preserves [OF ok inv sz nd c]) (simp_all add: s')
  qed
qed

lemma DSM_alloc_node_inv:
  assumes ok: "dsm_conf_ok conf" and inv: "dsm_inv conf s" and sz: "sz \<le> kChunkSize - 8"
    and al: "DSM_alloc_node conf s t sz n0 = Inr (a, s')"
  shows "dsm_inv conf s'"
proof -
  let ?th = "thrs s t" and ?ma = "multi_allocator (thrs s t)" and ?n = "n0 mod machineNR conf"
  note th = dsm_invD(2) [OF inv, of t]
  have n: "?n < machineNR conf" "?n < 128" using ok pos_mod_bound by (auto simp: dsm_conf_ok_def intro: less_le_trans [OF mod_less_divisor])
  have len: "length (ma_cur ?ma) = 128" "length (ma_head ?ma) = 128" "length (ma_log_heads ?ma) = 128"
    "ma_head_offset ?ma = replicate 128 0" using th by (simp_all add: thr_ok_def)
  show ?thesis
  proof (cases "ma_log_heads ?ma ! ?n = [] \<or> offset (ma_cur ?ma ! ?n) + sz + 8 > offset (ma_head ?ma ! ?n) + kChunkSize")
    case False
    let ?c' = "set_offset (ma_cur ?ma ! ?n) (offset (ma_cur ?ma ! ?n) + sz)"
    let ?th' = "?th\<lparr>multi_allocator := ?ma\<lparr>ma_cur := (ma_cur ?ma)[?n := ?c']\<rparr>\<rparr>"
    have s': "s' = s\<lparr>thrs := (thrs s)(t := ?th'), blocks := (ma_cur ?ma ! ?n, sz) # blocks s\<rparr>"
      using al False by (auto simp: DSM_alloc_node_def MultiAllocator_malloc_def Let_def)
    have "thr_ok conf ?th'" using th by (simp add: thr_ok_def)
    then have "thr_ok conf (thrs s' u)" for u using dsm_invD(2) [OF inv] by (simp add: s')
    moreover have "reg s (t, Some ?n) = (False, ma_head ?ma ! ?n, ma_cur ?ma ! ?n)" using False n by (simp add: Let_def)
    moreover have "reg s' = (reg s)((t, Some ?n) := (False, ma_head ?ma ! ?n, ?c'))"
      using False n len by (subst reg_multi [where s = s and t = t and th = ?th' and n = ?n]) (simp_all add: s')
    ultimately show ?thesis using False by (intro cut_preserves [OF ok inv _ sz]) (simp_all add: s')
  next
    case True
    let ?d = "next_target_dir_id2 ?th"
    have d: "?d < memThreadCount conf" using th by (simp add: thr_ok_def)
    have need: "MultiAllocator_malloc ?ma sz ?n = (ma_cur ?ma ! ?n, True, ?ma)" using True by (simp add: MultiAllocator_malloc_def Let_def)
    obtain c g where c: "alloc_chunck (dirs s ?n ?d) = Inr (c, g)"
      using al need by (cases "alloc_chunck (dirs s ?n ?d)") (auto simp: DSM_alloc_node_def rpc_malloc_def Let_def)
    note m = multi_malloc_after_set_chunck [OF len(4,1-3) n(2) sz chunk_top [OF ok inv n(1) d c]]
    define d' where "d' = (if ?d + 1 = memThreadCount conf then 0 else ?d + 1)"
    let ?ma' = "?ma\<lparr>ma_log_heads := (ma_log_heads ?ma)[?n := ma_log_heads ?ma ! ?n @ [c]],
      ma_head := (ma_head ?ma)[?n := c], ma_cur := (ma_cur ?ma)[?n := set_offset c (offset c + sz)]\<rparr>"
    let ?th' = "?th\<lparr>multi_allocator := ?ma', next_target_dir_id2 := d'\<rparr>"
    have s': "s' = s\<lparr>dirs := (dirs s)(?n := (dirs s ?n)(?d := g)), thrs := (thrs s)(t := ?th'), blocks := (c, sz) # blocks s\<rparr>"
      using al c need m by (auto simp: DSM_alloc_node_def rpc_malloc_def Let_def d'_def)
    have "thr_ok conf ?th'" using th d by (simp add: thr_ok_def d'_def)
    then have "thr_ok conf (thrs s' u)" for u using dsm_invD(2) [OF inv] by (simp add: s')
    moreover have "reg s' = (reg s)((t, Some ?n) := (False, c, set_offset c (offset c + sz)))"
      using n len by (subst reg_multi [where s = s and t = t and th = ?th' and n = ?n]) (simp_all add: s')
    ultimately show ?thesis by (intro grab_preserves [OF ok inv sz n(1) d c]) (simp_all add: s')
  qed
qed

lemma dir_init_tail: "Directory_chunckAlloc conf n d = Inr g \<Longrightarrow> bitmap_tail g = 1"
  by (auto simp: Directory_chunckAlloc_def GlobalAllocator_new_def Let_def split: if_splits)

lemma dsm_inv_init:
  assumes "dsm_conf_ok conf" "dsm_init conf s"
  shows "dsm_inv conf s"
proof -
  have dir: "dir_ok conf n d (dirs s n d)" "bitmap_tail (dirs s n d) = 1"
    if "n < machineNR conf" "d < memThreadCount conf" for n d
  proof -
    have "Directory_chunckAlloc conf n d = Inr (dirs s n d)" using assms(2) that by (simp add: dsm_init_def)
    then show "dir_ok conf n d (dirs s n d)" "bitmap_tail (dirs s n d) = 1"
      by (rule dir_init_ok [OF assms(1) that], rule dir_init_tail)
  qed
  have th: "\<exists>tid nid. thrs s t = alloc_thread_new conf tid nid" for t using assms(2) by (simp add: dsm_init_def)
  have "thr_ok conf (alloc_thread_new conf tid nid)" for tid nid
    using assms(1) by (simp add: thr_ok_def alloc_thread_new_def LocalAllocator_new_def MultiAllocator_new_def dsm_conf_ok_def)
  then have ok: "thr_ok conf (thrs s t)" for t using th [of t] by metis
  have reg: "fst (reg s r)" for r
  proof -
    obtain u v where "r = (u, v)" by (cases r)
    moreover obtain tid nid where "thrs s u = alloc_thread_new conf tid nid" using th by blast
    ultimately show ?thesis
      by (cases v) (auto simp: alloc_thread_new_def LocalAllocator_new_def MultiAllocator_new_def Let_def)
  qed
  have "issued_chunks conf s = {}" using dir(2) by (auto simp: issued_chunks_def)
  moreover have "reg_act (reg s r) = None" for r using reg [of r] by (auto simp: reg_act_def split: prod.splits)
  ultimately have "bump_inv chunk_bytes (dsm_bump conf s)"
    using assms(2) by (simp add: bump_inv_def dsm_bump_def dsm_init_def)
  moreover have "nodeID h = nodeID c" if "reg s r = (False, h, c)" for r h c using reg [of r] that by simp
  ultimately show ?thesis unfolding dsm_inv_def using dir(1) ok by blast
qed

lemma dsm_inv_reachable:
  assumes "(alloc_step conf)\<^sup>*\<^sup>* s0 s" "dsm_init conf s0" "dsm_conf_ok conf"
  shows "dsm_inv conf s"
  using assms(1)
proof (induction rule: rtranclp_induct)
  case base
  show ?case by (rule dsm_inv_init [OF assms(3,2)])
next
  case (step s s')
  from step(2) show ?case
    by cases (use DSM_alloc_inv [OF assms(3) step(3)] DSM_alloc_node_inv [OF assms(3) step(3)] in blast)+
qed

section \<open>Properties of the allocation\<close>

text \<open>The bytes of a block.\<close>

definition block_bytes :: "GlobalAddress \<times> u64 \<Rightarrow> loc set" where
  "block_bytes x = {(unat (nodeID (fst x)), k) | k. unat (offset (fst x)) \<le> k \<and> k < unat (offset (fst x)) + unat (snd x)}"

text \<open>
  C18: in every interleaving of \<open>DSM::alloc(size)\<close> and \<open>DSM::alloc(size, node)\<close> by any number of
  threads, no two of the blocks ever returned share a byte, and none of them touches the first
  chunk of a directory, so none is the null address and none covers the cell at
  \<open>kRootPointerStoreOffest\<close> that holds the root pointer.
\<close>

theorem alloc_disjoint:
  assumes "(alloc_step conf)\<^sup>*\<^sup>* s0 s" "dsm_init conf s0" "dsm_conf_ok conf"
  shows "sorted_wrt (\<lambda>x y. block_bytes x \<inter> block_bytes y = {}) (blocks s) \<and>
    (\<forall>x \<in> set (blocks s). \<forall>b \<in> block_bytes x. unat kRootPointerStoreOffest + 8 \<le> snd b)"
proof -
  note inv = dsm_inv_reachable [OF assms]
  note B = bump_invD [OF dsm_invD(4) [OF inv]]
  have "block_bytes x \<inter> block_bytes y = {}"
    if "disjoint_blocks (loc_of (fst x), unat (snd x)) (loc_of (fst y), unat (snd y))" for x y
    using that by (auto simp: block_bytes_def loc_of_def)
  then have imp: "disjoint_blocks (loc_of (fst x), unat (snd x)) (loc_of (fst y), unat (snd y)) \<Longrightarrow>
      block_bytes x \<inter> block_bytes y = {}" for x y .
  have "sorted_wrt (\<lambda>x y. disjoint_blocks (loc_of (fst x), unat (snd x)) (loc_of (fst y), unat (snd y))) (blocks s)"
    using B(7) by (simp add: dsm_bump_def sorted_wrt_map case_prod_beta)
  then have "sorted_wrt (\<lambda>x y. block_bytes x \<inter> block_bytes y = {}) (blocks s)"
    by (rule sorted_wrt_mono_rel [rotated]) (rule imp)
  moreover have "unat kRootPointerStoreOffest + 8 \<le> snd b" if x: "x \<in> set (blocks s)" "b \<in> block_bytes x" for x b
  proof -
    have "(loc_of (fst x), unat (snd x)) \<in> set (blks (dsm_bump conf s))"
      using x(1) by (force simp: dsm_bump_def)
    from B(6) [OF this] obtain c where c: "c \<in> issued (dsm_bump conf s)" "in_chunk chunk_bytes c (loc_of (fst x), unat (snd x))"
      by blast
    then have iss: "c \<in> issued_chunks conf s" by (simp add: dsm_bump_def)
    have "unat kRootPointerStoreOffest = chunk_bytes div 2" by (simp add: kRootPointerStoreOffest_def kChunkSize_def)
    then show ?thesis
      using issued_bound(2) [OF assms(3) inv iss] c(2) x(2) by (auto simp: in_chunk_def block_bytes_def loc_of_def)
  qed
  ultimately show ?thesis by blast
qed

definition sample_conf :: dsm_conf where
  "sample_conf = \<lparr>machineNR = 2, memThreadCount = 1, dsm_bytes = 2 ^ 27\<rparr>"

definition sample_dsm :: dsm where
  "sample_dsm = \<lparr>dirs = (\<lambda>n d. projr (Directory_chunckAlloc sample_conf n d)),
     thrs = (\<lambda>t. alloc_thread_new sample_conf t 0), blocks = []\<rparr>"

theorem alloc_disjoint_witness:
  "\<exists>s. (alloc_step sample_conf)\<^sup>*\<^sup>* sample_dsm s \<and> length (blocks s) = 2 \<and>
     sorted_wrt (\<lambda>x y. block_bytes x \<inter> block_bytes y = {}) (blocks s)"
proof -
  define s1 where "s1 = snd (projr (DSM_alloc sample_conf sample_dsm 0 1024))"
  define s2 where "s2 = snd (projr (DSM_alloc_node sample_conf s1 1 1024 0))"
  have "isl (DSM_alloc sample_conf sample_dsm 0 1024) = False" by code_simp
  then have 1: "alloc_step sample_conf sample_dsm s1"
    unfolding s1_def by (intro alloc_step.alloc [where sz = 1024 and a = "fst (projr (DSM_alloc sample_conf sample_dsm 0 1024))"])
      (auto simp: kChunkSize_def isl_def split: sum.splits)
  have "isl (DSM_alloc_node sample_conf (snd (projr (DSM_alloc sample_conf sample_dsm 0 1024))) 1 1024 0) = False" by code_simp
  then have "isl (DSM_alloc_node sample_conf s1 1 1024 0) = False" by (simp add: s1_def)
  then have 2: "alloc_step sample_conf s1 s2"
    unfolding s2_def by (intro alloc_step.alloc_node [where sz = 1024 and a = "fst (projr (DSM_alloc_node sample_conf s1 1 1024 0))"])
      (auto simp: kChunkSize_def isl_def split: sum.splits)
  have r: "(alloc_step sample_conf)\<^sup>*\<^sup>* sample_dsm s2" using 1 2 by (meson r_into_rtranclp rtranclp.rtrancl_into_rtrancl)
  have ok: "dsm_conf_ok sample_conf"
    by (simp add: dsm_conf_ok_def sample_conf_def per_directory_dsm_size_def kChunkSize_def)
  have "length (blocks (snd (projr (DSM_alloc_node sample_conf (snd (projr (DSM_alloc sample_conf sample_dsm 0 1024))) 1 1024 0)))) = 2"
    by code_simp
  then have len: "length (blocks s2) = 2" by (simp add: s2_def s1_def)
  have "\<not> isl (Directory_chunckAlloc sample_conf n d)" for n d
    by (simp add: Directory_chunckAlloc_def GlobalAllocator_new_def Let_def sample_conf_def per_directory_dsm_size_def kChunkSize_def)
  then have "dsm_init sample_conf sample_dsm"
    by (auto simp: dsm_init_def sample_dsm_def isl_def split: sum.splits)
  with alloc_disjoint [OF r _ ok] r len show ?thesis by blast
qed

end
