(* ===== verification/Btree_Rpc.thy ===== *)
theory Btree_Rpc
  imports Btree_Node Dex_Alloc
begin

text \<open>
  Operations pushed down to a memory node: the traversals of \<open>dex/include/cache/btree_rpc.h\<close>, the
  message loop body \<open>Directory::process_message\<close> and the client side \<open>DSM::rpc_lookup\<close> and its
  siblings.  A memory node's pool is a partial map from offsets to pages; the constructor of a page
  is its \<open>type\<close> tag.
\<close>

section \<open>The traversals\<close>

datatype page = Inner BTreeInnerNode | Leaf BTreeLeafNode

type_synonym pool = "u64 \<rightharpoonup> page"

text \<open>Where a traversal ends: at a child of another node, at a leaf, or at an offset with no page.\<close>

datatype landing = Remote GlobalAddress | AtLeaf u64 BTreeLeafNode | Wild

text \<open>The loop \<open>while (mem_node->type == BTreeInner)\<close>; \<open>None\<close> when it does not end.\<close>

partial_function (option) descend :: "pool \<Rightarrow> u64 \<Rightarrow> u64 \<Rightarrow> Key \<Rightarrow> landing option" where
  "descend mem node_id off k =
     (case mem off of
        None \<Rightarrow> Some Wild
      | Some (Leaf l) \<Rightarrow> Some (AtLeaf off l)
      | Some (Inner inner) \<Rightarrow>
          (let node = children inner ! inner_lowerBound inner k in
           if nodeID node \<noteq> node_id then Some (Remote node)
           else descend mem node_id (offset node) k))"

declare descend.simps [code]

text \<open>
  The four operations \<open>lookup\<close>, \<open>update\<close>, \<open>insert\<close>, \<open>remove\<close> return the code's \<open>int\<close>; a wild pointer is the error \<open>WildPointer\<close>.
  \<open>lookup\<close> also returns \<open>v_result\<close> and \<open>g_result\<close> as they are left by the call, the others the
  address in \<open>root\<close> and the pool.
\<close>

datatype rpc_error = WildPointer

definition btree_lookup ::
  "GlobalAddress \<Rightarrow> pool \<Rightarrow> Key \<Rightarrow> Value \<Rightarrow> GlobalAddress \<Rightarrow> (rpc_error + int \<times> Value \<times> GlobalAddress) option" where
  "btree_lookup root mem k v_result g_result =
     map_option (\<lambda>r. case r of
         Wild \<Rightarrow> Inl WildPointer
       | Remote node \<Rightarrow> Inr (0, v_result, node)
       | AtLeaf off leaf \<Rightarrow>
           (if \<not> rangeValid leaf k then Inr (- 1, v_result, g_result)
            else let pos = leaf_lowerBound leaf k in
              if leaf_hit leaf pos k then Inr (1, snd (data leaf ! pos), g_result)
              else Inr (2, v_result, g_result)))
       (descend mem (nodeID root) (offset root) k)"

definition btree_update :: "GlobalAddress \<Rightarrow> pool \<Rightarrow> Key \<Rightarrow> Value \<Rightarrow> (rpc_error + int \<times> GlobalAddress \<times> pool) option" where
  "btree_update root mem k v_result =
     map_option (\<lambda>r. case r of
         Wild \<Rightarrow> Inl WildPointer
       | Remote node \<Rightarrow> Inr (0, root, mem)
       | AtLeaf off leaf \<Rightarrow>
           (if \<not> rangeValid leaf k then Inr (- 1, root, mem)
            else let pos = leaf_lowerBound leaf k in
              if leaf_hit leaf pos k then
                Inr (1, remote_address leaf,
                     mem(off \<mapsto> Leaf (leaf\<lparr>data := (data leaf)[pos := (fst (data leaf ! pos), v_result)]\<rparr>)))
              else Inr (2, root, mem)))
       (descend mem (nodeID root) (offset root) k)"

definition btree_insert :: "GlobalAddress \<Rightarrow> pool \<Rightarrow> Key \<Rightarrow> Value \<Rightarrow> (rpc_error + int \<times> GlobalAddress \<times> pool) option" where
  "btree_insert root mem k v_result =
     map_option (\<lambda>r. case r of
         Wild \<Rightarrow> Inl WildPointer
       | Remote node \<Rightarrow> Inr (0, root, mem)
       | AtLeaf off leaf \<Rightarrow>
           (if \<not> rangeValid leaf k \<or> unat (count leaf) = leaf_maxEntries then Inr (- 1, root, mem)
            else let (insert_success, leaf') = leaf_insert leaf k v_result in
              Inr (if insert_success then 1 else 2, remote_address leaf, mem(off \<mapsto> Leaf leaf'))))
       (descend mem (nodeID root) (offset root) k)"

definition btree_remove :: "GlobalAddress \<Rightarrow> pool \<Rightarrow> Key \<Rightarrow> (rpc_error + int \<times> GlobalAddress \<times> pool) option" where
  "btree_remove root mem k =
     map_option (\<lambda>r. case r of
         Wild \<Rightarrow> Inl WildPointer
       | Remote node \<Rightarrow> Inr (0, root, mem)
       | AtLeaf off leaf \<Rightarrow>
           (if \<not> rangeValid leaf k then Inr (- 1, root, mem)
            else let (flag, leaf') = leaf_remove leaf k in
              Inr (if flag then 1 else 2, remote_address leaf, mem(off \<mapsto> Leaf leaf'))))
       (descend mem (nodeID root) (offset root) k)"

section \<open>The directory\<close>

datatype RpcType = MALLOC | FREE | NEW_ROOT | NOP | LOOKUP | INSERT | UPDATE | DELETE | SMO

record RawMessage =
  msg_type :: RpcType
  msg_node_id :: u16
  msg_app_id :: u16
  msg_addr :: GlobalAddress
  msg_level :: int
  msg_k :: u64
  msg_v :: u64

text \<open>
  The state behind the directory: the pool at the \<open>dsmBase\<close> of each node, the chunk allocator and the
  process-wide root pointer, root level and cache switch.
\<close>

record directory =
  pools :: "u64 \<Rightarrow> pool"
  chunckAlloc :: GlobalAllocator
  g_root_ptr :: GlobalAddress
  g_root_level :: int
  enable_cache :: bool

datatype dir_error = DirWild | DirAlloc alloc_error | DirAssert

text \<open>
  \<open>send0\<close> is the buffer \<open>getSendPool\<close> returns with what an earlier reply left in it; the reply is
  \<open>None\<close> when nothing is sent.  The outer option is \<open>None\<close> when a traversal does not end.
\<close>

definition process_message ::
  "directory \<Rightarrow> RawMessage \<Rightarrow> RawMessage \<Rightarrow> (dir_error + RawMessage option \<times> directory) option" where
  "process_message d send0 m =
     (let addr = msg_addr m; mem = pools d (nodeID addr);
          pushdown = (\<lambda>r. map_option (\<lambda>x. case x of
              Inl e \<Rightarrow> Inl DirWild
            | Inr (ret, root', mem') \<Rightarrow>
                Inr (Some (send0\<lparr>msg_level := ret, msg_addr := root'\<rparr>),
                     d\<lparr>pools := (pools d)(nodeID addr := mem')\<rparr>)) r)
      in case msg_type m of
        LOOKUP \<Rightarrow>
          map_option (\<lambda>x. case x of
              Inl e \<Rightarrow> Inl DirWild
            | Inr (ret, v_result, g_result) \<Rightarrow>
                (let send = send0\<lparr>msg_level := ret\<rparr> in
                 Inr (Some (if ret = 1 then send\<lparr>msg_addr := v_result\<rparr>
                            else if ret = 2 then send\<lparr>msg_addr := g_result\<rparr> else send), d)))
            (btree_lookup addr mem (msg_k m) 0 Null)
      | UPDATE \<Rightarrow> pushdown (btree_update addr mem (msg_k m) (msg_v m))
      | INSERT \<Rightarrow> pushdown (btree_insert addr mem (msg_k m) (msg_v m))
      | DELETE \<Rightarrow> pushdown (btree_remove addr mem (msg_k m))
      | MALLOC \<Rightarrow>
          Some (case alloc_chunck (chunckAlloc d) of
              Inl e \<Rightarrow> Inl (DirAlloc e)
            | Inr (a, g) \<Rightarrow> Inr (Some (send0\<lparr>msg_addr := a\<rparr>), d\<lparr>chunckAlloc := g\<rparr>))
      | NEW_ROOT \<Rightarrow>
          Some (Inr (None,
            if g_root_level d < msg_level m then
              (let d' = d\<lparr>g_root_ptr := msg_addr m, g_root_level := msg_level m\<rparr>
               in if g_root_level d' \<ge> 3 then d'\<lparr>enable_cache := True\<rparr> else d')
            else d))
      | _ \<Rightarrow> Some (Inl DirAssert))"

section \<open>The client\<close>

text \<open>
  \<open>rpc_lookup\<close>, \<open>rpc_update\<close>, \<open>rpc_insert\<close> and \<open>rpc_remove\<close>: build the message, let the directory
  of \<open>start_node.nodeID\<close> answer, and decode the reply.  \<open>m0\<close> is the uninitialised message on the
  stack.
\<close>

definition rpc_lookup ::
  "directory \<Rightarrow> RawMessage \<Rightarrow> RawMessage \<Rightarrow> GlobalAddress \<Rightarrow> u64 \<Rightarrow> u64 \<Rightarrow> (dir_error + int \<times> u64 \<times> directory) option" where
  "rpc_lookup d send0 m0 start_node k result =
     (let m = m0\<lparr>msg_type := LOOKUP, msg_k := k, msg_addr := start_node\<rparr> in
      map_option (\<lambda>x. case x of
          Inl e \<Rightarrow> Inl e
        | Inr (None, d') \<Rightarrow> Inl DirAssert
        | Inr (Some mm, d') \<Rightarrow> Inr (msg_level mm, if msg_level mm \<ge> 1 then msg_addr mm else result, d'))
        (process_message d send0 m))"

definition rpc_write ::
  "RpcType \<Rightarrow> directory \<Rightarrow> RawMessage \<Rightarrow> RawMessage \<Rightarrow> GlobalAddress \<Rightarrow> u64 \<Rightarrow> u64 \<Rightarrow>
   (dir_error + int \<times> GlobalAddress \<times> directory) option" where
  "rpc_write ty d send0 m0 start_node k v =
     (let m = m0\<lparr>msg_type := ty, msg_k := k, msg_v := v, msg_addr := start_node\<rparr> in
      map_option (\<lambda>x. case x of
          Inl e \<Rightarrow> Inl e
        | Inr (None, d') \<Rightarrow> Inl DirAssert
        | Inr (Some mm, d') \<Rightarrow> Inr (msg_level mm, msg_addr mm, d'))
        (process_message d send0 m))"

definition rpc_update ::
  "directory \<Rightarrow> RawMessage \<Rightarrow> RawMessage \<Rightarrow> GlobalAddress \<Rightarrow> u64 \<Rightarrow> u64 \<Rightarrow> (dir_error + int \<times> GlobalAddress \<times> directory) option" where
  "rpc_update = rpc_write UPDATE"

definition rpc_insert ::
  "directory \<Rightarrow> RawMessage \<Rightarrow> RawMessage \<Rightarrow> GlobalAddress \<Rightarrow> u64 \<Rightarrow> u64 \<Rightarrow> (dir_error + int \<times> GlobalAddress \<times> directory) option" where
  "rpc_insert = rpc_write INSERT"

definition rpc_remove ::
  "directory \<Rightarrow> RawMessage \<Rightarrow> RawMessage \<Rightarrow> GlobalAddress \<Rightarrow> u64 \<Rightarrow> (dir_error + int \<times> GlobalAddress \<times> directory) option" where
  "rpc_remove d send0 m0 start_node k = rpc_write DELETE d send0 m0 start_node k (msg_v m0)"

section \<open>A traversal of a well-formed pool ends at the leaf of the key\<close>

fun page_min :: "page \<Rightarrow> Key" where
  "page_min (Inner n) = min_limit n" | "page_min (Leaf l) = min_limit l"

fun page_max :: "page \<Rightarrow> Key" where
  "page_max (Inner n) = max_limit n" | "page_max (Leaf l) = max_limit l"

fun page_level :: "page \<Rightarrow> nat" where
  "page_level (Inner n) = unat (level n)" | "page_level (Leaf l) = 0"

definition fences :: "BTreeInnerNode \<Rightarrow> Key list" where
  "fences n = min_limit n # seps n @ [max_limit n]"

text \<open>
  An inner node's children that live on this node are pages of a lower level whose limits are the
  neighbouring separators.
\<close>

definition pool_ok :: "u64 \<Rightarrow> pool \<Rightarrow> bool" where
  "pool_ok node_id mem \<longleftrightarrow>
     (\<forall>off l. mem off = Some (Leaf l) \<longrightarrow> leaf_wf l \<and> leaf_in_range l) \<and>
     (\<forall>off n. mem off = Some (Inner n) \<longrightarrow> inner_wf n \<and> count n \<noteq> 0 \<and>
       (\<forall>i < length (kids n). nodeID (kids n ! i) = node_id \<longrightarrow>
          (\<exists>p. mem (offset (kids n ! i)) = Some p \<and> page_level p < page_level (Inner n) \<and>
             page_min p = fences n ! i \<and> page_max p = fences n ! Suc i)))"

definition page_range :: "page \<Rightarrow> Key \<Rightarrow> bool" where
  "page_range p k \<longleftrightarrow> (k = 0 \<and> page_min p = 0) \<or> (page_min p < k \<and> k \<le> page_max p)"

lemma rangeValid_page_range: "rangeValid l k \<longleftrightarrow> page_range (Leaf l) k"
  by (auto simp: rangeValid_def page_range_def)

lemma pool_okD:
  assumes "pool_ok node_id mem"
  shows "mem off = Some (Leaf l) \<Longrightarrow> leaf_wf l" "mem off = Some (Leaf l) \<Longrightarrow> leaf_in_range l"
    "mem off = Some (Inner n) \<Longrightarrow> inner_wf n" "mem off = Some (Inner n) \<Longrightarrow> count n \<noteq> 0"
    "mem off = Some (Inner n) \<Longrightarrow> i < length (kids n) \<Longrightarrow> nodeID (kids n ! i) = node_id \<Longrightarrow>
      \<exists>p. mem (offset (kids n ! i)) = Some p \<and> page_level p < page_level (Inner n) \<and>
         page_min p = fences n ! i \<and> page_max p = fences n ! Suc i"
  using assms unfolding pool_ok_def by blast+

text \<open>The child the binary search chooses is the one whose fences enclose the key.\<close>

lemma child_of_key:
  assumes "inner_wf n" "count n \<noteq> 0" "page_range (Inner n) k" "i = inner_lowerBound n k"
  shows "i < length (kids n)" "children n ! i = kids n ! i"
    "page_min p = fences n ! i \<Longrightarrow> page_max p = fences n ! Suc i \<Longrightarrow> page_range p k"
proof -
  have lb: "is_lower_bound (seps n) k i" unfolding assms(4) by (rule inner_lowerBound_correct [OF assms(1,2)])
  note W = inner_wfD [OF assms(1)]
  have i: "i \<le> unat (count n)" using lb W(6) by (simp add: is_lower_bound_def)
  then show il: "i < length (kids n)" "children n ! i = kids n ! i" using W by (simp_all add: kids_def)
  have lo: "fences n ! i < k \<or> (k = 0 \<and> fences n ! i = 0)"
  proof (cases i)
    case 0
    then show ?thesis using assms(3) by (auto simp: fences_def page_range_def)
  next
    case (Suc j)
    then have "seps n ! j < k" using is_lower_bound_nthD(1) [OF lb, of j] by simp
    then show ?thesis using Suc i W(6) by (simp add: fences_def nth_append)
  qed
  have hi: "k \<le> fences n ! Suc i"
  proof (cases "i < unat (count n)")
    case True
    then show ?thesis using is_lower_bound_nthD(2) [OF lb, of i] W(6) by (simp add: fences_def nth_append)
  next
    case False
    then show ?thesis using i assms(3) W(6) by (auto simp: fences_def nth_append page_range_def)
  qed
  show "page_range p k" if "page_min p = fences n ! i" "page_max p = fences n ! Suc i"
    using lo hi that by (auto simp: page_range_def)
qed

definition landed :: "u64 \<Rightarrow> pool \<Rightarrow> Key \<Rightarrow> landing \<Rightarrow> bool" where
  "landed node_id mem k r \<longleftrightarrow>
     (case r of Wild \<Rightarrow> False | Remote c \<Rightarrow> nodeID c \<noteq> node_id
      | AtLeaf off l \<Rightarrow> mem off = Some (Leaf l) \<and> rangeValid l k)"

lemma descend_lands:
  assumes "pool_ok node_id mem" "mem off = Some p" "page_range p k"
  shows "\<exists>r. descend mem node_id off k = Some r \<and> landed node_id mem k r"
  using assms(2,3)
proof (induction "page_level p" arbitrary: off p rule: less_induct)
  case less
  show ?case
  proof (cases p)
    case (Leaf l)
    then show ?thesis using less.prems
      by (subst descend.simps) (simp add: landed_def rangeValid_page_range)
  next
    case (Inner n)
    let ?i = "inner_lowerBound n k"
    have mem: "mem off = Some (Inner n)" using less.prems Inner by simp
    note W = pool_okD(3,4) [OF assms(1) mem]
    have r: "page_range (Inner n) k" using less.prems Inner by simp
    note C = child_of_key [OF W r refl]
    show ?thesis
    proof (cases "nodeID (kids n ! ?i) = node_id")
      case False
      then show ?thesis using mem C(2) by (subst descend.simps) (simp add: landed_def Let_def)
    next
      case True
      obtain q where q: "mem (offset (kids n ! ?i)) = Some q" "page_level q < page_level p"
          "page_min q = fences n ! ?i" "page_max q = fences n ! Suc ?i"
        using pool_okD(5) [OF assms(1) mem C(1) True] Inner by auto
      have "\<exists>r. descend mem node_id (offset (kids n ! ?i)) k = Some r \<and> landed node_id mem k r"
        by (rule less.hyps [OF q(2,1) C(3) [OF q(3,4)]])
      then show ?thesis using mem C(2) True by (subst descend.simps) (simp add: Let_def)
    qed
  qed
qed

section \<open>The operations form a key-value store\<close>

text \<open>A leaf written back with the same limits changes no traversal but what is found at the leaf.\<close>

definition redirect :: "u64 \<Rightarrow> BTreeLeafNode \<Rightarrow> landing \<Rightarrow> landing" where
  "redirect off l' r = (case r of AtLeaf o' l \<Rightarrow> if o' = off then AtLeaf off l' else r | _ \<Rightarrow> r)"

lemma descend_upd:
  assumes "pool_ok node_id mem" "mem off = Some (Leaf l)" "mem o0 = Some p" "page_range p k"
  shows "descend (mem(off \<mapsto> Leaf l')) node_id o0 k = map_option (redirect off l') (descend mem node_id o0 k)"
  using assms(3,4)
proof (induction "page_level p" arbitrary: o0 p rule: less_induct)
  case less
  show ?case
  proof (cases p)
    case (Leaf x)
    then show ?thesis using less.prems assms(2)
      by (subst descend.simps, subst (2) descend.simps) (auto simp: redirect_def)
  next
    case (Inner n)
    let ?i = "inner_lowerBound n k"
    have mem: "mem o0 = Some (Inner n)" using less.prems Inner by simp
    then have ne: "o0 \<noteq> off" using assms(2) by auto
    note W = pool_okD(3,4) [OF assms(1) mem]
    have r: "page_range (Inner n) k" using less.prems Inner by simp
    note C = child_of_key [OF W r refl]
    show ?thesis
    proof (cases "nodeID (kids n ! ?i) = node_id")
      case False
      then show ?thesis using mem ne C(2)
        by (subst descend.simps, subst (2) descend.simps) (simp add: redirect_def Let_def)
    next
      case True
      obtain q where q: "mem (offset (kids n ! ?i)) = Some q" "page_level q < page_level p"
          "page_min q = fences n ! ?i" "page_max q = fences n ! Suc ?i"
        using pool_okD(5) [OF assms(1) mem C(1) True] Inner by auto
      have "descend (mem(off \<mapsto> Leaf l')) node_id (offset (kids n ! ?i)) k =
          map_option (redirect off l') (descend mem node_id (offset (kids n ! ?i)) k)"
        by (rule less.hyps [OF q(2,1) C(3) [OF q(3,4)]])
      then show ?thesis using mem ne C(2) True
        by (subst descend.simps, subst (2) descend.simps) (simp add: Let_def)
    qed
  qed
qed

definition rpc_map :: "GlobalAddress \<Rightarrow> pool \<Rightarrow> (Key \<rightharpoonup> Value)" where
  "rpc_map root mem k =
     (case descend mem (nodeID root) (offset root) k of Some (AtLeaf off l) \<Rightarrow> leaf_map l k | _ \<Rightarrow> None)"

definition rpc_find :: "GlobalAddress \<Rightarrow> pool \<Rightarrow> Key \<Rightarrow> Value option" where
  "rpc_find root mem k =
     (case btree_lookup root mem k 0 Null of Some (Inr (ret, v, g)) \<Rightarrow> if ret = 1 then Some v else None | _ \<Rightarrow> None)"

definition rpc_accepts :: "GlobalAddress \<Rightarrow> pool \<Rightarrow> Key \<Rightarrow> Value \<Rightarrow> bool" where
  "rpc_accepts root mem k v \<longleftrightarrow>
     (case btree_insert root mem k v of Some (Inr (ret, a, mem')) \<Rightarrow> 1 \<le> ret | _ \<Rightarrow> False)"

definition rpc_put :: "GlobalAddress \<Rightarrow> pool \<Rightarrow> Key \<Rightarrow> Value \<Rightarrow> pool" where
  "rpc_put root mem k v = (case btree_insert root mem k v of Some (Inr (ret, a, mem')) \<Rightarrow> mem' | _ \<Rightarrow> mem)"

definition rpc_del :: "GlobalAddress \<Rightarrow> pool \<Rightarrow> Key \<Rightarrow> pool" where
  "rpc_del root mem k = (case btree_remove root mem k of Some (Inr (ret, a, mem')) \<Rightarrow> mem' | _ \<Rightarrow> mem)"

text \<open>The root's page is there and its limits span all keys.\<close>

definition root_ok :: "GlobalAddress \<Rightarrow> pool \<Rightarrow> bool" where
  "root_ok root mem \<longleftrightarrow> pool_ok (nodeID root) mem \<and>
     (\<exists>p. mem (offset root) = Some p \<and> page_min p = 0 \<and> page_max p = - 1)"

lemma root_landing:
  assumes "root_ok root mem"
  obtains r where "descend mem (nodeID root) (offset root) k = Some r" "landed (nodeID root) mem k r"
proof -
  obtain p where p: "mem (offset root) = Some p" "page_min p = 0" "page_max p = - 1"
    using assms by (auto simp: root_ok_def)
  have "page_range p k" using p by (auto simp: page_range_def word_gt_0)
  moreover have "pool_ok (nodeID root) mem" using assms by (simp add: root_ok_def)
  ultimately show ?thesis using descend_lands [of "nodeID root" mem, OF _ p(1)] that by blast
qed

lemma root_descend_upd:
  assumes "root_ok root mem" "mem off = Some (Leaf l)"
  shows "descend (mem(off \<mapsto> Leaf l')) (nodeID root) (offset root) k =
    map_option (redirect off l') (descend mem (nodeID root) (offset root) k)"
proof -
  obtain p where p: "mem (offset root) = Some p" "page_min p = 0" "page_max p = - 1"
    using assms by (auto simp: root_ok_def)
  have "page_range p k" using p by (auto simp: page_range_def word_gt_0)
  moreover have "pool_ok (nodeID root) mem" using assms by (simp add: root_ok_def)
  ultimately show ?thesis by (intro descend_upd [OF _ assms(2) p(1)])
qed

lemma pool_ok_upd:
  assumes "pool_ok node_id mem" "mem off = Some (Leaf l)" "leaf_wf l'" "leaf_in_range l'"
    and "min_limit l' = min_limit l" "max_limit l' = max_limit l"
  shows "pool_ok node_id (mem(off \<mapsto> Leaf l'))"
proof -
  note D = pool_okD [OF assms(1)]
  have "\<exists>p. (mem(off \<mapsto> Leaf l')) (offset (kids n ! i)) = Some p \<and> page_level p < page_level (Inner n) \<and>
      page_min p = fences n ! i \<and> page_max p = fences n ! Suc i"
    if n: "mem o' = Some (Inner n)" "i < length (kids n)" "nodeID (kids n ! i) = node_id" for o' n i
    using D(5) [OF n] assms(2,5,6) by (cases "offset (kids n ! i) = off") auto
  then show ?thesis using assms(3,4) D(1-4) unfolding pool_ok_def by auto
qed

lemma root_ok_upd:
  assumes "root_ok root mem" "mem off = Some (Leaf l)" "leaf_wf l'" "leaf_in_range l'"
    and "min_limit l' = min_limit l" "max_limit l' = max_limit l"
  shows "root_ok root (mem(off \<mapsto> Leaf l'))"
  using assms pool_ok_upd [of "nodeID root" mem, OF _ assms(2-)] by (auto simp: root_ok_def)

lemma rpc_map_upd:
  assumes "root_ok root mem" "mem off = Some (Leaf l)"
    and "descend mem (nodeID root) (offset root) k = Some (AtLeaf off l)" "leaf_map l' = (leaf_map l)(k := x)"
  shows "rpc_map root (mem(off \<mapsto> Leaf l')) = (rpc_map root mem)(k := x)"
proof
  fix j
  obtain r where r: "descend mem (nodeID root) (offset root) j = Some r" "landed (nodeID root) mem j r"
    using root_landing [OF assms(1)] .
  show "rpc_map root (mem(off \<mapsto> Leaf l')) j = ((rpc_map root mem)(k := x)) j"
  proof (cases r)
    case (AtLeaf o' m)
    then have "mem o' = Some (Leaf m)" using r(2) by (simp add: landed_def)
    then show ?thesis using AtLeaf r(1) assms by (auto simp: rpc_map_def root_descend_upd [OF assms(1,2)] redirect_def)
  qed (use r(1) assms(3) in \<open>auto simp: rpc_map_def root_descend_upd [OF assms(1,2)] redirect_def\<close>)
qed

lemma leaf_op_limits [simp]:
  "min_limit (snd (leaf_insert l k v)) = min_limit l" "max_limit (snd (leaf_insert l k v)) = max_limit l"
  "min_limit (snd (leaf_remove l k)) = min_limit l" "max_limit (snd (leaf_remove l k)) = max_limit l"
  by (simp_all add: leaf_insert_def leaf_remove_def Let_def leaf_bump_def)

lemma leaf_in_range_dom: "leaf_in_range l \<longleftrightarrow> (\<forall>k \<in> dom (leaf_map l). rangeValid l k)"
  by (simp add: leaf_in_range_def leaf_map_def dom_map_of_conv_image_fst)

lemma leaf_in_range_upd:
  assumes "leaf_in_range l" "min_limit l' = min_limit l" "max_limit l' = max_limit l"
    and "leaf_map l' = (leaf_map l)(k := x)" "x \<noteq> None \<Longrightarrow> rangeValid l k"
  shows "leaf_in_range l'"
proof -
  have "rangeValid l' j = rangeValid l j" for j using assms(2,3) by (auto simp: rangeValid_def)
  moreover have "rangeValid l j" if "leaf_map l' j \<noteq> None" for j
    using that assms(1,4,5) unfolding leaf_in_range_dom Ball_def domIff by (cases "j = k") auto
  ultimately show ?thesis unfolding leaf_in_range_dom Ball_def domIff by blast
qed

lemma rpc_find_map: "root_ok root mem \<Longrightarrow> rpc_find root mem k = rpc_map root mem k"
proof -
  assume ok: "root_ok root mem"
  obtain r where r: "descend mem (nodeID root) (offset root) k = Some r" "landed (nodeID root) mem k r"
    using root_landing [OF ok] .
  show ?thesis
  proof (cases r)
    case (AtLeaf off l)
    then have l: "mem off = Some (Leaf l)" "rangeValid l k" using r(2) by (simp_all add: landed_def)
    then have "leaf_find l k = leaf_map l k"
      using ok pool_okD(1) by (intro leaf_find_map) (auto simp: root_ok_def)
    then show ?thesis using r(1) AtLeaf l
      by (auto simp: rpc_find_def rpc_map_def btree_lookup_def leaf_find_def Let_def split: if_splits)
  qed (use r in \<open>auto simp: rpc_find_def rpc_map_def btree_lookup_def landed_def\<close>)
qed

lemma rpc_put_ok:
  assumes "root_ok root mem" "rpc_accepts root mem k v"
  shows "root_ok root (rpc_put root mem k v) \<and> rpc_map root (rpc_put root mem k v) = (rpc_map root mem)(k \<mapsto> v)"
proof -
  obtain r where r: "descend mem (nodeID root) (offset root) k = Some r" "landed (nodeID root) mem k r"
    using root_landing [OF assms(1)] .
  then obtain off l where l: "r = AtLeaf off l" "mem off = Some (Leaf l)" "rangeValid l k" "unat (count l) \<noteq> leaf_maxEntries"
    using assms(2) by (cases r) (auto simp: rpc_accepts_def btree_insert_def landed_def split: if_splits)
  have wf: "leaf_wf l" "leaf_in_range l" using assms(1) l(2) pool_okD(1,2) by (auto simp: root_ok_def)
  have acc: "leaf_accepts l k v" using l(4) leaf_wfD(2) [OF wf(1)] by (simp add: leaf_accepts_def)
  note ins = leaf_insert_accepted [OF wf(1) acc]
  have put: "rpc_put root mem k v = mem(off \<mapsto> Leaf (snd (leaf_insert l k v)))"
    using r(1) l by (simp add: rpc_put_def btree_insert_def case_prod_beta Let_def)
  have "leaf_in_range (snd (leaf_insert l k v))"
    by (rule leaf_in_range_upd [OF wf(2) _ _ ins(2)]) (simp_all add: l(3))
  then show ?thesis unfolding put
    using root_ok_upd [OF assms(1) l(2) ins(1)] rpc_map_upd [OF assms(1) l(2) _ ins(2)] r(1) l(1) by simp
qed

lemma rpc_del_ok:
  assumes "root_ok root mem"
  shows "root_ok root (rpc_del root mem k) \<and> rpc_map root (rpc_del root mem k) = (rpc_map root mem)(k := None)"
proof -
  obtain r where r: "descend mem (nodeID root) (offset root) k = Some r" "landed (nodeID root) mem k r"
    using root_landing [OF assms(1)] .
  show ?thesis
  proof (cases r)
    case (AtLeaf off l)
    then have l: "mem off = Some (Leaf l)" "rangeValid l k" using r(2) by (simp_all add: landed_def)
    have wf: "leaf_wf l" "leaf_in_range l" using assms(1) l(1) pool_okD(1,2) by (auto simp: root_ok_def)
    have del: "rpc_del root mem k = mem(off \<mapsto> Leaf (snd (leaf_remove l k)))"
      using r(1) l AtLeaf by (simp add: rpc_del_def btree_remove_def case_prod_beta Let_def)
    have rm: "leaf_wf (snd (leaf_remove l k))" "leaf_map (snd (leaf_remove l k)) = (leaf_map l)(k := None)"
      using dex_leaf.del_inv [OF wf(1), of k] dex_leaf.del_abs [OF wf(1), of k] by (simp_all add: leaf_del_def)
    have "leaf_in_range (snd (leaf_remove l k))" by (rule leaf_in_range_upd [OF wf(2) _ _ rm(2)]) simp_all
    then show ?thesis unfolding del
      using root_ok_upd [OF assms l(1) rm(1)] rpc_map_upd [OF assms l(1) _ rm(2)] r(1) AtLeaf by simp
  next
    case (Remote c)
    then have "rpc_del root mem k = mem" "rpc_map root mem k = None"
      using r(1) by (simp_all add: rpc_del_def btree_remove_def rpc_map_def)
    then show ?thesis using assms by (simp add: fun_upd_idem)
  qed (use r(2) in \<open>simp add: landed_def\<close>)
qed

interpretation dex_rpc: kv_store "root_ok root" "rpc_map root" "rpc_find root" "rpc_accepts root" "rpc_put root" "rpc_del root"
  for root
  by unfold_locales (simp_all add: rpc_find_map rpc_put_ok rpc_del_ok)

section \<open>Properties of the pushed-down operations\<close>

lemma insert_reply:
  assumes "rpc_insert d send0 m0 root k v = Some (Inr (ret, a, d'))" "mem = pools d (nodeID root)"
  shows "\<exists>mem'. btree_insert root mem k v = Some (Inr (ret, a, mem')) \<and> d' = d\<lparr>pools := (pools d)(nodeID root := mem')\<rparr>"
proof (cases "btree_insert root mem k v")
  case (Some x)
  then show ?thesis using assms
    by (cases x) (auto simp: rpc_insert_def rpc_write_def process_message_def Let_def)
qed (use assms in \<open>simp add: rpc_insert_def rpc_write_def process_message_def Let_def\<close>)

lemma lookup_reply:
  assumes "root_ok root (pools d (nodeID root))"
  shows "\<exists>ret r. rpc_lookup d send0 m0 root k x = Some (Inr (ret, r, d)) \<and> ret \<in> {0, 1, 2} \<and>
    (ret = 1 \<longleftrightarrow> rpc_map root (pools d (nodeID root)) k \<noteq> None) \<and>
    (ret = 1 \<longrightarrow> rpc_map root (pools d (nodeID root)) k = Some r)"
proof -
  let ?mem = "pools d (nodeID root)"
  obtain r where r: "descend ?mem (nodeID root) (offset root) k = Some r" "landed (nodeID root) ?mem k r"
    using root_landing [OF assms] .
  have "rpc_map root ?mem k = rpc_find root ?mem k" by (rule rpc_find_map [OF assms, symmetric])
  then show ?thesis using r
    by (cases r) (auto simp: rpc_lookup_def process_message_def btree_lookup_def rpc_find_def landed_def Let_def)
qed

text \<open>
  C2: a lookup pushed down to the memory node that holds the root always returns: the traversal
  ends, follows no wild pointer, never lands in a leaf that is not responsible for the key, and
  reports a value exactly when the leaf of the key holds one, then that value.
\<close>

theorem rpc_lookup_correct:
  assumes "root_ok root (pools d (nodeID root))"
  shows "\<exists>ret r. rpc_lookup d send0 m0 root k x = Some (Inr (ret, r, d)) \<and> ret \<in> {0, 1, 2} \<and>
    (ret = 1 \<longleftrightarrow> rpc_map root (pools d (nodeID root)) k \<noteq> None) \<and>
    (ret = 1 \<longrightarrow> rpc_map root (pools d (nodeID root)) k = Some r)"
  by (rule lookup_reply [OF assms])

text \<open>
  C3: an insert pushed down to the memory node and answered with success (1 or 2) is seen by every
  later lookup of its key, disturbs no other key, and leaves the pool well-formed.
\<close>

theorem rpc_insert_lookup:
  assumes "root_ok root (pools d (nodeID root))"
    and "rpc_insert d send0 m0 root k v = Some (Inr (ret, a, d'))" "1 \<le> ret"
  shows "root_ok root (pools d' (nodeID root)) \<and>
    rpc_map root (pools d' (nodeID root)) = (rpc_map root (pools d (nodeID root)))(k \<mapsto> v) \<and>
    rpc_lookup d' send1 m1 root k x = Some (Inr (1, v, d'))"
proof -
  let ?mem = "pools d (nodeID root)"
  obtain mem' where i: "btree_insert root ?mem k v = Some (Inr (ret, a, mem'))"
      "d' = d\<lparr>pools := (pools d)(nodeID root := mem')\<rparr>"
    using insert_reply [OF assms(2) refl] by blast
  have "rpc_accepts root ?mem k v" "rpc_put root ?mem k v = mem'"
    using i(1) assms(3) by (simp_all add: rpc_accepts_def rpc_put_def)
  then have p: "root_ok root mem'" "rpc_map root mem' = (rpc_map root ?mem)(k \<mapsto> v)"
    using rpc_put_ok [OF assms(1)] by auto
  then have "root_ok root (pools d' (nodeID root))" by (simp add: i(2))
  from lookup_reply [OF this, of send1 m1 k x] p show ?thesis by (auto simp: i(2))
qed


text \<open>
  a lookup that leaves the memory node finds the address of the next node, but the directory
  copies \<open>g_result\<close> into the reply only when the lookup found nothing (return value 2).  The reply to a
  lookup of result 0 carries the address the send buffer held before.
\<close>

theorem lookup_remote_reply_stale:
  assumes "msg_type m = LOOKUP"
    and "descend (pools d (nodeID (msg_addr m))) (nodeID (msg_addr m)) (offset (msg_addr m)) (msg_k m) = Some (Remote node)"
  shows "btree_lookup (msg_addr m) (pools d (nodeID (msg_addr m))) (msg_k m) 0 Null = Some (Inr (0, 0, node)) \<and>
    process_message d send0 m = Some (Inr (Some (send0\<lparr>msg_level := 0\<rparr>), d))"
  using assms by (simp add: process_message_def btree_lookup_def Let_def)

text \<open>A pool with an inner root and two leaves.\<close>

definition sample_root :: BTreeInnerNode where
  "sample_root = (new_inner (replicate 59 0) (replicate 59 0) 1 0)
     \<lparr>count := 1, keys := 5 # replicate 58 0,
      children := mk_GlobalAddress 0 1024 # mk_GlobalAddress 0 2048 # replicate 57 0\<rparr>"

definition sample_pool :: pool where
  "sample_pool =
     (case leaf_split sample_leaf (new_leaf (replicate 58 (0, 0)) 64) 64 of (sep, l, r) \<Rightarrow>
        [0 \<mapsto> Inner sample_root, 1024 \<mapsto> Leaf l, 2048 \<mapsto> Leaf r])"

lemma sample_root_ok: "root_ok 0 sample_pool"
proof -
  obtain sep l r where sp: "leaf_split sample_leaf (new_leaf (replicate 58 (0, 0)) 64) 64 = (sep, l, r)"
    by (cases "leaf_split sample_leaf (new_leaf (replicate 58 (0, 0)) 64) 64") auto
  have wf: "leaf_wf sample_leaf" unfolding sample_leaf_def by (intro dex_leaf.run_inv_always new_leaf_wf) simp
  have "2 \<le> unat (count sample_leaf)" by code_simp
  then have lr: "leaf_wf l" "leaf_wf r" using leaf_split_entries(4,5) [OF wf _ _ sp] by (simp_all add: new_leaf_def)
  have "case leaf_split sample_leaf (new_leaf (replicate 58 (0, 0)) 64) 64 of (sep, l, r) \<Rightarrow>
      leaf_in_range l \<and> leaf_in_range r \<and> min_limit l = 0 \<and> max_limit l = 5 \<and> min_limit r = 5 \<and> max_limit r = - 1"
    by code_simp
  then have lim: "leaf_in_range l" "leaf_in_range r" "min_limit l = 0" "max_limit l = 5" "min_limit r = 5" "max_limit r = - 1"
    using sp by simp_all
  have iw: "inner_wf sample_root" unfolding inner_wf_def bitmap_ok_code by code_simp
  have k: "kids sample_root = [mk_GlobalAddress 0 1024, mk_GlobalAddress 0 2048]" "fences sample_root = [0, 5, - 1]"
    "count sample_root = 1" "level sample_root = 1" "min_limit sample_root = 0" "max_limit sample_root = - 1" by code_simp+
  have a: "nodeID (mk_GlobalAddress 0 1024) = 0" "offset (mk_GlobalAddress 0 1024) = 1024"
    "nodeID (mk_GlobalAddress 0 2048) = 0" "offset (mk_GlobalAddress 0 2048) = 2048" "nodeID 0 = 0" "offset 0 = 0" by code_simp+
  have m: "sample_pool = [0 \<mapsto> Inner sample_root, 1024 \<mapsto> Leaf l, 2048 \<mapsto> Leaf r]" by (simp add: sample_pool_def sp)
  have "pool_ok 0 sample_pool"
    unfolding pool_ok_def m using lr lim iw k a by (auto simp: less_Suc_eq split: if_splits)
  then show ?thesis by (simp add: root_ok_def a m k)
qed

definition sample_message :: RawMessage where
  "sample_message = \<lparr>msg_type = NOP, msg_node_id = 0, msg_app_id = 0, msg_addr = 0, msg_level = 0, msg_k = 0, msg_v = 0\<rparr>"

definition sample_directory :: directory where
  "sample_directory = \<lparr>pools = (\<lambda>_. sample_pool), chunckAlloc = projr (GlobalAllocator_new 0 (2 ^ 27)),
     g_root_ptr = Null, g_root_level = - 1, enable_cache = False\<rparr>"

theorem rpc_lookup_correct_witness:
  "\<exists>ret r. rpc_lookup sample_directory sample_message sample_message 0 7 0 = Some (Inr (ret, r, sample_directory)) \<and>
     ret \<in> {0, 1, 2}"
proof -
  have "root_ok 0 (pools sample_directory (nodeID 0))" by (simp add: sample_directory_def sample_root_ok)
  from rpc_lookup_correct [OF this] show ?thesis by blast
qed

theorem rpc_insert_lookup_witness:
  "\<exists>ret a d'. rpc_insert sample_directory sample_message sample_message 0 6 60 = Some (Inr (ret, a, d')) \<and>
     rpc_lookup d' sample_message sample_message 0 6 0 = Some (Inr (1, 60, d'))"
proof -
  have ok: "root_ok 0 (pools sample_directory (nodeID 0))" by (simp add: sample_directory_def sample_root_ok)
  have "case rpc_insert sample_directory sample_message sample_message 0 6 60 of
      Some (Inr (ret, a, d')) \<Rightarrow> ret = 1 | _ \<Rightarrow> False" by code_simp
  then obtain a d' where i: "rpc_insert sample_directory sample_message sample_message 0 6 60 = Some (Inr (1, a, d'))"
    by (auto split: option.splits sum.splits prod.splits)
  from rpc_insert_lookup [OF ok i, of sample_message sample_message 0] i show ?thesis by auto
qed


theorem lookup_remote_reply_stale_witness:
  "process_message
     (sample_directory\<lparr>pools := (\<lambda>_. [0 \<mapsto> Inner (sample_root\<lparr>children := mk_GlobalAddress 1 4096 # replicate 58 0\<rparr>)])\<rparr>)
     sample_message (sample_message\<lparr>msg_type := LOOKUP, msg_k := 3\<rparr>) =
   Some (Inr (Some (sample_message\<lparr>msg_level := 0\<rparr>),
     sample_directory\<lparr>pools := (\<lambda>_. [0 \<mapsto> Inner (sample_root\<lparr>children := mk_GlobalAddress 1 4096 # replicate 58 0\<rparr>)])\<rparr>))"
proof -
  let ?n = "sample_root\<lparr>children := mk_GlobalAddress 1 4096 # replicate 58 0\<rparr>"
  have "inner_lowerBound ?n 3 = 0" "nodeID (mk_GlobalAddress 1 4096) \<noteq> 0" "nodeID 0 = 0" "offset 0 = 0" by code_simp+
  then have "descend [0 \<mapsto> Inner ?n] 0 0 3 = Some (Remote (mk_GlobalAddress 1 4096))"
    by (subst descend.simps) (simp add: Let_def)
  then show ?thesis
    using lookup_remote_reply_stale [of "sample_message\<lparr>msg_type := LOOKUP, msg_k := 3\<rparr>"
        "sample_directory\<lparr>pools := (\<lambda>_. [0 \<mapsto> Inner ?n])\<rparr>" "mk_GlobalAddress 1 4096" sample_message]
      \<open>nodeID 0 = 0\<close> \<open>offset 0 = 0\<close>
    by (simp add: sample_message_def)
qed

end
