(* ===== verification/Node_Wr.thy ===== *)
theory Node_Wr
  imports Btree_Rpc Version_Lock
begin

text \<open>
  Page input and output of a compute node, \<open>dex/include/cache/node_wr.h\<close>: reading a page from remote
  memory with version validation, writing one back, and the walks over the cached pages that follow
  swizzled children.  The cache is a heap from local addresses to pages, remote memory a map from
  global addresses to pages.
\<close>

section \<open>Pages with a common header\<close>

type_synonym heap = "ptr \<rightharpoonup> page"

type_synonym remote_mem = "GlobalAddress \<rightharpoonup> page"

fun page_hdr :: "page \<Rightarrow> NodeBase" where
  "page_hdr (Inner n) = NodeBase.truncate n" | "page_hdr (Leaf l) = NodeBase.truncate l"

fun set_lock_word :: "u64 \<Rightarrow> page \<Rightarrow> page" where
  "set_lock_word w (Inner n) = Inner (n\<lparr>typeVersionLockObsolete := w\<rparr>)"
| "set_lock_word w (Leaf l) = Leaf (l\<lparr>typeVersionLockObsolete := w\<rparr>)"

fun set_parent_ptr :: "ptr \<Rightarrow> page \<Rightarrow> page" where
  "set_parent_ptr q (Inner n) = Inner (n\<lparr>parent_ptr := q\<rparr>)" | "set_parent_ptr q (Leaf l) = Leaf (l\<lparr>parent_ptr := q\<rparr>)"

fun set_pos_state :: "u8 \<Rightarrow> page \<Rightarrow> page" where
  "set_pos_state b (Inner n) = Inner (n\<lparr>pos_state := b\<rparr>)" | "set_pos_state b (Leaf l) = Leaf (l\<lparr>pos_state := b\<rparr>)"

fun set_dirty :: "bool \<Rightarrow> page \<Rightarrow> page" where
  "set_dirty b (Inner n) = Inner (n\<lparr>dirty := b\<rparr>)" | "set_dirty b (Leaf l) = Leaf (l\<lparr>dirty := b\<rparr>)"

fun page_check_consistent :: "page \<Rightarrow> bool" where
  "page_check_consistent (Inner n) = inner_check_consistent n" | "page_check_consistent (Leaf l) = leaf_check_consistent l"

section \<open>One-sided reads and writes\<close>

datatype wr_error = AssertInconsistent | WrongRemoteAddr | BadPointer

text \<open>
  \<open>opt_remote_read\<close> issues three reads: the header, the page, the header again; \<open>r1\<close>, \<open>r2\<close>, \<open>r3\<close> are
  what remote memory held at each of them.  \<open>None\<close> is the null pointer of a conflict.
\<close>

definition opt_remote_read :: "page \<Rightarrow> page \<Rightarrow> page \<Rightarrow> wr_error + page option" where
  "opt_remote_read r1 r2 r3 =
     (if typeVersionLockObsolete (page_hdr r1) \<noteq> 0 then Inr None
      else
        (let org_version = front_version (page_hdr r1) in
         if typeVersionLockObsolete (page_hdr r3) \<noteq> 0 \<or> front_version (page_hdr r3) \<noteq> org_version then Inr None
         else if \<not> page_check_consistent r2 then Inl AssertInconsistent
         else Inr (Some r2)))"

text \<open>
  \<open>remote_consistent_read\<close> repeats it; the attempts are the successive triples of reads, and
  \<open>None\<close> means that none of them succeeded.
\<close>

fun remote_consistent_read :: "(page \<times> page \<times> page) list \<Rightarrow> (wr_error + page) option" where
  "remote_consistent_read [] = None"
| "remote_consistent_read ((r1, r2, r3) # rs) =
     (case opt_remote_read r1 r2 r3 of
        Inl e \<Rightarrow> Some (Inl e)
      | Inr (Some p) \<Rightarrow> Some (Inr p)
      | Inr None \<Rightarrow> remote_consistent_read rs)"

text \<open>
  \<open>remote_write\<close> into a separate page buffer: the cached page becomes clean, the flushed copy loses
  parent and position and, with \<open>clear_lock\<close>, its lock word.  It spins for ever when the page
  carries another address.
\<close>

definition flush_copy :: "bool \<Rightarrow> page \<Rightarrow> page" where
  "flush_copy clear_lock p =
     (let q = set_pos_state 0 (set_parent_ptr 0 (set_dirty False p))
      in if clear_lock then set_lock_word 0 q else q)"

definition remote_write ::
  "heap \<Rightarrow> remote_mem \<Rightarrow> GlobalAddress \<Rightarrow> ptr \<Rightarrow> bool \<Rightarrow> wr_error + heap \<times> remote_mem" where
  "remote_write h rm global_node mem_node clear_lock =
     (case h mem_node of
        None \<Rightarrow> Inl BadPointer
      | Some p \<Rightarrow>
          (let flushed_page = flush_copy clear_lock p in
           if \<not> addr_eq (remote_address (page_hdr flushed_page)) global_node then Inl WrongRemoteAddr
           else Inr (h(mem_node \<mapsto> set_dirty False p), rm(global_node \<mapsto> flushed_page))))"

text \<open>\<open>remote_write_by_sibling\<close> keeps the parent pointer in the copy and does not check the address.\<close>

definition remote_write_by_sibling ::
  "heap \<Rightarrow> remote_mem \<Rightarrow> GlobalAddress \<Rightarrow> ptr \<Rightarrow> bool \<Rightarrow> wr_error + heap \<times> remote_mem" where
  "remote_write_by_sibling h rm global_node mem_node clear_lock =
     (case h mem_node of
        None \<Rightarrow> Inl BadPointer
      | Some p \<Rightarrow>
          (let q = set_pos_state 0 (set_dirty False p);
               flushed_page = (if clear_lock then set_lock_word 0 q else q)
           in Inr (h(mem_node \<mapsto> set_dirty False p), rm(global_node \<mapsto> flushed_page))))"

definition check_global_conflict :: "BTreeInnerNode \<Rightarrow> u64 \<Rightarrow> bool \<Rightarrow> bool" where
  "check_global_conflict remote_cur_node org_version needRestart =
     (let r = (if typeVersionLockObsolete remote_cur_node \<noteq> 0 then True else needRestart)
      in if org_version \<noteq> front_version remote_cur_node then True else r)"

section \<open>Walks over the cache\<close>

definition murmur64 :: "u64 \<Rightarrow> u64" where
  "murmur64 k0 =
     (let k1 = k0 XOR drop_bit 33 k0;
          k2 = k1 * 0xff51afd7ed558ccd;
          k3 = k2 XOR drop_bit 33 k2;
          k4 = k3 * 0xc4ceb9fe1a85ec53
      in k4 XOR drop_bit 33 k4)"

text \<open>The loop of \<open>update_all_parent_ptr\<close> over a list of children; an unmapped child is a bad pointer.\<close>

fun set_parents :: "heap \<Rightarrow> ptr \<Rightarrow> GlobalAddress list \<Rightarrow> wr_error + heap" where
  "set_parents h p [] = Inr h"
| "set_parents h p (c # cs) =
     (if c AND swizzle_tag \<noteq> 0 then
        (case h (c AND swizzle_hide) of
           None \<Rightarrow> Inl BadPointer
         | Some child \<Rightarrow> set_parents (h(c AND swizzle_hide \<mapsto> set_parent_ptr p child)) p cs)
      else set_parents h p cs)"

definition update_all_parent_ptr :: "heap \<Rightarrow> ptr \<Rightarrow> wr_error + heap" where
  "update_all_parent_ptr h mem_node =
     (case h mem_node of
        None \<Rightarrow> Inl BadPointer
      | Some (Leaf l) \<Rightarrow> Inr h
      | Some (Inner inner) \<Rightarrow> set_parents h mem_node (take (unat (count inner) + 1) (children inner)))"

text \<open>The loop of \<open>fully_unswizzle\<close> from index \<open>i\<close>: tagged children become their remote addresses.\<close>

fun unswizzle_from :: "heap \<Rightarrow> u64 \<Rightarrow> nat \<Rightarrow> GlobalAddress list \<Rightarrow> wr_error + GlobalAddress list" where
  "unswizzle_from h bm i [] = Inr []"
| "unswizzle_from h bm i (c # cs) =
     (case unswizzle_from h bm (Suc i) cs of
        Inl e \<Rightarrow> Inl e
      | Inr cs' \<Rightarrow>
          (if c AND swizzle_tag \<noteq> 0 then
             (if bm AND push_bit i 1 = 0 then Inl AssertInconsistent
              else case h (c AND swizzle_hide) of
                     None \<Rightarrow> Inl BadPointer
                   | Some child \<Rightarrow> Inr (remote_address (page_hdr child) # cs'))
           else Inr (c # cs')))"

definition fully_unswizzle :: "heap \<Rightarrow> page \<Rightarrow> wr_error + page" where
  "fully_unswizzle h p =
     (case p of
        Leaf l \<Rightarrow> Inr (Leaf l)
      | Inner inner \<Rightarrow>
          (let m = unat (count inner) + 1 in
           case unswizzle_from h (bitmap inner) 0 (take m (children inner)) of
             Inl e \<Rightarrow> Inl e
           | Inr cs \<Rightarrow> Inr (Inner (inner\<lparr>children := cs @ drop m (children inner), bitmap := 0\<rparr>))))"

text \<open>
  The end of both walks on the chosen page: upgrade to the write lock, then give it back when the
  page is not a candidate.
\<close>

definition take_candidate ::
  "heap \<Rightarrow> ptr \<Rightarrow> page \<Rightarrow> u64 \<Rightarrow> int \<Rightarrow> bool \<Rightarrow> wr_error + ptr option \<times> int \<times> heap" where
  "take_candidate h mem_node p versionNode idx_in_parent refused =
     (let (_, needRestart, w) = upgradeToWriteLockOrRestart versionNode False (typeVersionLockObsolete (page_hdr p)) in
      if needRestart then Inr (None, idx_in_parent, h)
      else if refused then Inr (None, idx_in_parent, h(mem_node \<mapsto> set_lock_word (writeUnlock w) p))
      else Inr (Some mem_node, idx_in_parent, h(mem_node \<mapsto> set_lock_word w p)))"

text \<open>
  One call of \<open>recursive_iterate\<close> run alone: from a page with swizzled children to the child
  \<open>closest_set\<close> picks from a hashed start, until a page without swizzled children; that page is
  write-locked and returned when it is hot (\<open>pos_state = 2\<close>).  The outer \<open>None\<close> is a walk that does
  not end; otherwise the result is the page or null, \<open>idx_in_parent\<close> and the heap.
\<close>

partial_function (option) recursive_iterate ::
  "heap \<Rightarrow> ptr \<Rightarrow> int \<Rightarrow> (wr_error + ptr option \<times> int \<times> heap) option" where
  "recursive_iterate h mem_node idx_in_parent =
     (case h mem_node of
        None \<Rightarrow> Some (Inl BadPointer)
      | Some p \<Rightarrow>
          (let (versionNode, needRestart) = readLockOrRestart (typeVersionLockObsolete (page_hdr p)) False in
           if needRestart then Some (Inr (None, idx_in_parent, h))
           else if bitmap (page_hdr p) \<noteq> 0 then
             (case p of
                Leaf l \<Rightarrow> Some (Inl BadPointer)
              | Inner inner \<Rightarrow>
                  (let idx = unat (murmur64 mem_node mod of_nat (unat (count inner) + 1));
                       next_idx = closest_set inner idx
                   in if next_idx = - 1 then Some (Inr (None, idx_in_parent, h))
                      else
                        (let next_node = children inner ! nat next_idx in
                         if next_node AND swizzle_tag = 0 then Some (Inl AssertInconsistent)
                         else recursive_iterate h (next_node AND swizzle_hide) next_idx)))
           else Some (take_candidate h mem_node p versionNode idx_in_parent
                  (bitmap (page_hdr p) \<noteq> 0 \<or> pos_state (page_hdr p) \<noteq> 2))))"

text \<open>
  The walk without the bitmap: it scans the children from the hashed start for a tagged one and
  stops at a leaf or at an inner node that has none.
\<close>

definition next_swizzled :: "BTreeInnerNode \<Rightarrow> nat \<Rightarrow> nat option" where
  "next_swizzled inner start_idx =
     (let m = unat (count inner) + 1 in
      find (\<lambda>i. children inner ! i AND swizzle_tag \<noteq> 0) (map (\<lambda>i. (start_idx + i) mod m) [0..<m]))"

partial_function (option) recursive_iterate_without_bitmap ::
  "heap \<Rightarrow> ptr \<Rightarrow> int \<Rightarrow> (wr_error + ptr option \<times> int \<times> heap) option" where
  "recursive_iterate_without_bitmap h mem_node idx_in_parent =
     (case h mem_node of
        None \<Rightarrow> Some (Inl BadPointer)
      | Some p \<Rightarrow>
          (let (versionNode, needRestart) = readLockOrRestart (typeVersionLockObsolete (page_hdr p)) False in
           if needRestart then Some (Inr (None, idx_in_parent, h))
           else
             (case p of
                Leaf l \<Rightarrow> Some (take_candidate h mem_node p versionNode idx_in_parent (pos_state l \<noteq> 2))
              | Inner inner \<Rightarrow>
                  (let start_idx = unat (murmur64 mem_node mod of_nat (unat (count inner) + 1)) in
                   case next_swizzled inner start_idx of
                     None \<Rightarrow> Some (take_candidate h mem_node p versionNode idx_in_parent (pos_state inner \<noteq> 2))
                   | Some i \<Rightarrow>
                       recursive_iterate_without_bitmap h (children inner ! i AND swizzle_hide) (int i)))))"

declare recursive_iterate.simps [code] recursive_iterate_without_bitmap.simps [code]

definition check_limit_match :: "BTreeInnerNode \<Rightarrow> ptr \<Rightarrow> NodeBase \<Rightarrow> bool \<Rightarrow> bool" where
  "check_limit_match inner child_ptr child using_swizzle =
     (let idx = (if using_swizzle then findIdx inner (child_ptr OR swizzle_tag)
                 else findIdx inner (remote_address child))
      in if idx = - 1 then False
         else
           (let min_l = (if idx = 0 then min_limit inner else keys inner ! nat (idx - 1));
                max_l = (if idx = int (unat (count inner)) then max_limit inner else keys inner ! nat idx)
            in min_l = min_limit child \<and> max_l = max_limit child))"

definition new_check_limit_match :: "BTreeInnerNode \<Rightarrow> NodeBase \<Rightarrow> nat \<Rightarrow> bool" where
  "new_check_limit_match inner child idx \<longleftrightarrow>
     (let min_l = (if idx = 0 then min_limit inner else keys inner ! (idx - 1));
          max_l = (if idx = unat (count inner) then max_limit inner else keys inner ! idx)
      in min_l = min_limit child \<and> max_l = max_limit child)"

definition check_parent_child_info :: "BTreeInnerNode \<Rightarrow> ptr \<Rightarrow> NodeBase \<Rightarrow> bool" where
  "check_parent_child_info parent child_ptr child \<longleftrightarrow>
     (if level parent = 255 then True
      else \<not> (unat (level parent) \<noteq> unat (level child) + 1 \<or>
               min_limit child < min_limit parent \<or> max_limit child > max_limit parent \<or>
               \<not> (check_limit_match parent child_ptr child True \<or> check_limit_match parent child_ptr child False)))"

section \<open>The hash is a bijection\<close>

lemma xorshift33_involution: "(let y = x XOR drop_bit 33 x in y XOR drop_bit 33 y) = (x :: u64)"
proof (rule bit_word_eqI)
  fix n assume "n < LENGTH(64)"
  moreover have "\<not> bit x (33 + (33 + n))" using bit_imp_le_length [of x "33 + (33 + n)"] by auto
  ultimately show "bit (let y = x XOR drop_bit 33 x in y XOR drop_bit 33 y) n = bit x n"
    by (auto simp: Let_def bit_xor_iff bit_drop_bit_eq)
qed

lemma xorshift33_inj: "inj (\<lambda>x :: u64. x XOR drop_bit 33 x)"
  by (rule inj_on_inverseI [where g = "\<lambda>y. y XOR drop_bit 33 y"]) (use xorshift33_involution in \<open>simp add: Let_def\<close>)

lemma mult_inverse_inj: "m * m' = (1 :: u64) \<Longrightarrow> inj (\<lambda>x. x * m)"
  by (rule inj_on_inverseI [where g = "\<lambda>y. y * m'"]) (simp add: mult.assoc)

lemma murmur64_compose:
  "murmur64 = (\<lambda>x. x XOR drop_bit 33 x) \<circ> (\<lambda>x. x * 0xc4ceb9fe1a85ec53) \<circ> (\<lambda>x. x XOR drop_bit 33 x) \<circ>
     (\<lambda>x. x * 0xff51afd7ed558ccd) \<circ> (\<lambda>x. x XOR drop_bit 33 x)"
  by (simp add: murmur64_def fun_eq_iff Let_def)

lemma murmur64_inj: "inj murmur64"
proof -
  have 1: "inj (\<lambda>x :: u64. x * 0xff51afd7ed558ccd)"
    by (rule mult_inverse_inj [where m' = "0x4f74430c22a54005"]) simp
  have 2: "inj (\<lambda>x :: u64. x * 0xc4ceb9fe1a85ec53)"
    by (rule mult_inverse_inj [where m' = "0x9cb4b2f8129337db"]) simp
  show ?thesis unfolding murmur64_compose by (intro inj_compose xorshift33_inj 1 2)
qed

section \<open>Writing back and reading again\<close>

lemma page_hdr_set [simp]:
  "remote_address (page_hdr (set_lock_word w p)) = remote_address (page_hdr p)"
  "remote_address (page_hdr (set_parent_ptr q p)) = remote_address (page_hdr p)"
  "remote_address (page_hdr (set_pos_state b p)) = remote_address (page_hdr p)"
  "remote_address (page_hdr (set_dirty d p)) = remote_address (page_hdr p)"
  "front_version (page_hdr (set_lock_word w p)) = front_version (page_hdr p)"
  "typeVersionLockObsolete (page_hdr (set_lock_word w p)) = w"
  "pos_state (page_hdr (set_lock_word w p)) = pos_state (page_hdr p)"
  "bitmap (page_hdr (set_lock_word w p)) = bitmap (page_hdr p)"
  by (cases p; simp add: NodeBase.truncate_def)+

lemma consistent_set [simp]:
  "page_check_consistent (set_lock_word w p) = page_check_consistent p"
  "page_check_consistent (set_parent_ptr q p) = page_check_consistent p"
  "page_check_consistent (set_pos_state b p) = page_check_consistent p"
  "page_check_consistent (set_dirty d p) = page_check_consistent p"
  by (cases p; simp add: inner_check_consistent_def leaf_check_consistent_def)+

text \<open>What a page says to a reader of the tree: its limits and its entries or separators and children.\<close>

fun page_content :: "page \<Rightarrow> Key \<times> Key \<times> ((Key \<times> Value) list + Key list \<times> GlobalAddress list)" where
  "page_content (Leaf l) = (min_limit l, max_limit l, Inl (entries l))"
| "page_content (Inner n) = (min_limit n, max_limit n, Inr (seps n, kids n))"

lemma page_content_set [simp]:
  "page_content (set_lock_word w p) = page_content p" "page_content (set_parent_ptr q p) = page_content p"
  "page_content (set_pos_state b p) = page_content p" "page_content (set_dirty d p) = page_content p"
  by (cases p; simp add: entries_def seps_def kids_def)+

lemma flush_copy_props:
  "page_content (flush_copy cl p) = page_content p" "page_check_consistent (flush_copy cl p) = page_check_consistent p"
  "remote_address (page_hdr (flush_copy cl p)) = remote_address (page_hdr p)"
  "cl \<Longrightarrow> typeVersionLockObsolete (page_hdr (flush_copy cl p)) = 0"
  by (simp_all add: flush_copy_def Let_def)

section \<open>Unswizzling\<close>

lemma unswizzle_from_ok:
  assumes "\<And>j. j < length cs \<Longrightarrow> swizzled (cs ! j) \<Longrightarrow> bit bm (i + j) \<and> i + j < 64 \<and> (\<exists>p. h (cs ! j AND swizzle_hide) = Some p)"
  shows "unswizzle_from h bm i cs =
    Inr (map (\<lambda>c. if swizzled c then remote_address (page_hdr (the (h (c AND swizzle_hide)))) else c) cs)"
  using assms
proof (induction cs arbitrary: i)
  case (Cons c cs)
  have "unswizzle_from h bm (Suc i) cs =
      Inr (map (\<lambda>c. if swizzled c then remote_address (page_hdr (the (h (c AND swizzle_hide)))) else c) cs)"
  proof (rule Cons.IH)
    fix j assume "j < length cs" "swizzled (cs ! j)"
    then show "bit bm (Suc i + j) \<and> Suc i + j < 64 \<and> (\<exists>p. h (cs ! j AND swizzle_hide) = Some p)"
      using Cons.prems [of "Suc j"] by simp
  qed
  moreover have "bm AND push_bit i 1 \<noteq> 0" if "swizzled c"
  proof -
    have "bit bm i" "i < 64" using Cons.prems [of 0] that by simp_all
    then show ?thesis using and_exp_eq_0_iff_not_bit [of bm i] by (simp add: push_bit_eq_mult)
  qed
  moreover have "\<exists>p. h (c AND swizzle_hide) = Some p" if "swizzled c" using Cons.prems [of 0] that by simp
  ultimately show ?case by (auto simp: swizzled_def)
qed simp

section \<open>The eviction walk\<close>

definition walk_ok :: "heap \<Rightarrow> bool" where
  "walk_ok h \<longleftrightarrow>
     (\<forall>a l. h a = Some (Leaf l) \<longrightarrow> bitmap l = 0) \<and>
     (\<forall>a n. h a = Some (Inner n) \<longrightarrow> inner_wf n \<and>
        (\<forall>i < length (kids n). swizzled (kids n ! i) \<longrightarrow>
           (\<exists>q. h (kids n ! i AND swizzle_hide) = Some q \<and> page_level q < page_level (Inner n))))"

lemma walk_okD:
  assumes "walk_ok h"
  shows "h a = Some (Leaf l) \<Longrightarrow> bitmap l = 0" "h a = Some (Inner n) \<Longrightarrow> inner_wf n"
    "h a = Some (Inner n) \<Longrightarrow> i < length (kids n) \<Longrightarrow> swizzled (kids n ! i) \<Longrightarrow>
      \<exists>q. h (kids n ! i AND swizzle_hide) = Some q \<and> page_level q < page_level (Inner n)"
  using assms unfolding walk_ok_def by blast+

text \<open>A candidate is hot, has no swizzled child and is now write-locked.\<close>

definition candidate :: "heap \<Rightarrow> wr_error + ptr option \<times> int \<times> heap \<Rightarrow> bool" where
  "candidate h r \<longleftrightarrow>
     (case r of Inl e \<Rightarrow> False
      | Inr (None, idx, h') \<Rightarrow> True
      | Inr (Some b, idx, h') \<Rightarrow>
          (\<exists>q. h b = Some q \<and> bitmap (page_hdr q) = 0 \<and> pos_state (page_hdr q) = 2 \<and>
             \<not> isLocked (typeVersionLockObsolete (page_hdr q)) \<and> \<not> isObsolete (typeVersionLockObsolete (page_hdr q)) \<and>
             h' = h(b \<mapsto> set_lock_word (typeVersionLockObsolete (page_hdr q) + 0b100) q)))"

lemma take_candidate_ok:
  assumes "h a = Some p" "bitmap (page_hdr p) = 0" "w = typeVersionLockObsolete (page_hdr p)" "\<not> isLocked w" "\<not> isObsolete w"
  shows "candidate h (take_candidate h a p w i (pos_state (page_hdr p) \<noteq> 2))"
  using assms by (auto simp: candidate_def take_candidate_def upgradeToWriteLockOrRestart_def CAS_def Let_def)

lemma start_index_bound: "unat (murmur64 a mod of_nat (unat (count n) + 1)) \<le> unat (count n)" for n :: BTreeInnerNode
proof -
  have "unat (count n) < 2 ^ 8" using unsigned_less [of "count n", where ?'a = nat] by simp
  then have "unat (of_nat (unat (count n) + 1) :: u64) = unat (count n) + 1" by (intro unat_of_nat_lt) simp
  then have "unat (murmur64 a mod of_nat (unat (count n) + 1)) = unat (murmur64 a) mod (unat (count n) + 1)"
    by (simp add: unat_mod)
  also have "\<dots> < unat (count n) + 1" by simp
  finally show ?thesis by simp
qed

lemma closest_child:
  assumes "inner_wf n" "bitmap n \<noteq> 0" "pos \<le> unat (count n)"
  obtains j where "closest_set n pos = int j" "j < length (kids n)" "swizzled (kids n ! j)" "children n ! j = kids n ! j"
proof -
  have bits: "bit (bitmap n) i \<longleftrightarrow> i < length (kids n) \<and> swizzled (kids n ! i)" for i
    using inner_wfD(3,5,7) [OF assms(1)] bit_imp_le_length [of "bitmap n" i]
    by (cases "i < 64") (auto simp: bitmap_ok_def)
  have le: "i \<le> unat (count n)" if "bit (bitmap n) i" for i
    using that inner_wfD(7) [OF assms(1)] by (simp add: bits)
  obtain j where j: "closest_set n pos = int j" "bit (bitmap n) j"
    using closest_set_nearest [OF assms(2) le assms(3) inner_wfD(3) [OF assms(1)]] by blast
  then have "children n ! j = kids n ! j" using bits [of j] by (simp add: kids_def)
  then show ?thesis using that j bits by blast
qed

section \<open>Properties of page input and output\<close>

text \<open>
  The finaliser \<open>murmur64\<close> that spreads the start of the eviction walk loses nothing: distinct
  page addresses have distinct hashes.
\<close>

theorem murmur64_injective: "inj murmur64"
  by (rule murmur64_inj)

text \<open>
  C31: a page written back with its lock cleared is read back unharmed: when remote memory does not
  change between the three reads, \<open>opt_remote_read\<close> accepts it at once, it has the limits and
  entries of the cached page, no parent pointer is carried over and the cached page is clean.
\<close>

theorem write_back_read:
  assumes "h p = Some pg" "page_check_consistent pg" "remote_address (page_hdr pg) = a"
  shows "\<exists>h' rm' q. remote_write h rm a p True = Inr (h', rm') \<and> rm' a = Some q \<and>
    opt_remote_read q q q = Inr (Some q) \<and> page_content q = page_content pg \<and> parent_ptr (page_hdr q) = 0 \<and>
    h' = h(p \<mapsto> set_dirty False pg)"
proof -
  have "parent_ptr (page_hdr (flush_copy True pg)) = 0"
    by (cases pg) (simp_all add: flush_copy_def Let_def NodeBase.truncate_def)
  then show ?thesis
    using assms flush_copy_props [of True pg]
    by (simp add: remote_write_def opt_remote_read_def Let_def addr_eq_def)
qed

theorem write_back_read_witness:
  "\<exists>h' rm'. remote_write [64 \<mapsto> Leaf (sample_leaf\<lparr>remote_address := 128\<rparr>)] Map.empty 128 64 True = Inr (h', rm')"
proof -
  have c: "page_check_consistent (Leaf (sample_leaf\<lparr>remote_address := 128\<rparr>))"
    "remote_address (page_hdr (Leaf (sample_leaf\<lparr>remote_address := 128\<rparr>))) = 128" by code_simp+
  let ?h = "[64 \<mapsto> Leaf (sample_leaf\<lparr>remote_address := 128\<rparr>)] :: heap"
  have "?h 64 = Some (Leaf (sample_leaf\<lparr>remote_address := 128\<rparr>))" by simp
  from write_back_read [where h = ?h and p = 64 and rm = Map.empty, OF this c] show ?thesis by blast
qed

text \<open>
  \<open>fully_unswizzle\<close> of a well-formed inner node whose swizzled children are cached never fails an
  assertion: it replaces exactly the swizzled children by their remote addresses, clears the
  bitmap, keeps the separators, and leaves a well-formed node without local pointers.
\<close>

theorem fully_unswizzle_correct:
  assumes wf: "inner_wf n"
    and kids: "\<And>i. i < length (kids n) \<Longrightarrow> swizzled (kids n ! i) \<Longrightarrow>
      \<exists>p. h (kids n ! i AND swizzle_hide) = Some p \<and> \<not> swizzled (remote_address (page_hdr p))"
  shows "\<exists>n'. fully_unswizzle h (Inner n) = Inr (Inner n') \<and> inner_wf n' \<and> bitmap n' = 0 \<and> seps n' = seps n \<and>
    kids n' = map (\<lambda>c. if swizzled c then remote_address (page_hdr (the (h (c AND swizzle_hide)))) else c) (kids n) \<and>
    (\<forall>c \<in> set (kids n'). \<not> swizzled c)"
proof -
  let ?f = "\<lambda>c. if swizzled c then remote_address (page_hdr (the (h (c AND swizzle_hide)))) else c"
  note W = inner_wfD [OF wf]
  have bits: "bit (bitmap n) j \<and> j < 64" if "j < length (kids n)" "swizzled (kids n ! j)" for j
    using that W(3,5,7) by (auto simp: bitmap_ok_def)
  have un: "unswizzle_from h (bitmap n) 0 (kids n) = Inr (map ?f (kids n))"
  proof (rule unswizzle_from_ok)
    fix j assume j: "j < length (kids n)" "swizzled (kids n ! j)"
    show "bit (bitmap n) (0 + j) \<and> 0 + j < 64 \<and> (\<exists>p. h (kids n ! j AND swizzle_hide) = Some p)"
      using bits [OF j] kids [OF j] by auto
  qed
  define n' where "n' = n\<lparr>children := map ?f (kids n) @ drop (unat (count n) + 1) (children n), bitmap := 0\<rparr>"
  have run: "fully_unswizzle h (Inner n) = Inr (Inner n')"
    using un unfolding fully_unswizzle_def kids_def Let_def n'_def by simp
  have fields: "count n' = count n" "keys n' = keys n" "bitmap n' = 0" "length (children n') = 59"
    using W(2,3,7) by (simp_all add: n'_def)
  have "take (unat (count n) + 1) (children n') = map ?f (kids n)" using W(7) by (simp add: n'_def)
  then have k: "kids n' = map ?f (kids n)" "seps n' = seps n" unfolding kids_def [of n'] seps_def fields by simp_all
  have clean: "\<forall>c \<in> set (kids n'). \<not> swizzled c"
  proof
    fix c assume "c \<in> set (kids n')"
    then obtain i where i: "i < length (kids n)" "c = ?f (kids n ! i)"
      unfolding k(1) by (auto simp: in_set_conv_nth)
    show "\<not> swizzled c" using i(2) kids [OF i(1)] by (cases "swizzled (kids n ! i)") auto
  qed
  then have "bitmap_ok n'" by (auto simp: bitmap_ok_def fields)
  then have "inner_wf n'" using W(1,3,4) k(2) by (simp add: inner_wf_def fields)
  then show ?thesis using run k clean fields(3) by blast
qed

lemma swizzle_hide_tag: "(swizzle_tag OR 8) AND swizzle_hide = 8" by code_simp

theorem fully_unswizzle_correct_witness:
  "\<exists>n'. fully_unswizzle [8 \<mapsto> Leaf (sample_leaf\<lparr>remote_address := 4096\<rparr>)] (Inner sample_inner) = Inr (Inner n') \<and>
     kids n' = [4096, 4096, 8192]"
proof -
  let ?h = "[8 \<mapsto> Leaf (sample_leaf\<lparr>remote_address := 4096\<rparr>)]"
  have k: "kids sample_inner = [4096, swizzle_tag OR 8, 8192]" by code_simp
  have s: "\<not> swizzled 4096" "swizzled (swizzle_tag OR 8)" "\<not> swizzled 8192" by code_simp+
  have r: "remote_address (page_hdr (Leaf (sample_leaf\<lparr>remote_address := 4096\<rparr>))) = 4096" by (simp add: NodeBase.truncate_def)
  have ok: "\<exists>p. ?h (kids sample_inner ! i AND swizzle_hide) = Some p \<and> \<not> swizzled (remote_address (page_hdr p))"
    if "i < length (kids sample_inner)" "swizzled (kids sample_inner ! i)" for i
  proof -
    have "i = 1" using that s k by (auto simp: less_Suc_eq)
    then show ?thesis using s r by (simp add: k swizzle_hide_tag)
  qed
  obtain n' where "fully_unswizzle ?h (Inner sample_inner) = Inr (Inner n')"
      "kids n' = map (\<lambda>c. if swizzled c then remote_address (page_hdr (the (?h (c AND swizzle_hide)))) else c) (kids sample_inner)"
    using fully_unswizzle_correct [where h = ?h, OF sample_inner_wf ok] by blast
  then show ?thesis using s r by (auto simp: k swizzle_hide_tag)
qed

text \<open>
  \<open>new_check_limit_match\<close> decides whether a child's limits are the two fences its parent has
  around that index, the condition under which a descent from the parent lands in the child.
\<close>

theorem new_check_limit_match_correct:
  assumes "inner_wf n" "idx \<le> unat (count n)"
  shows "new_check_limit_match n (page_hdr p) idx \<longleftrightarrow> page_min p = fences n ! idx \<and> page_max p = fences n ! Suc idx"
proof -
  note W = inner_wfD [OF assms(1)]
  have m: "min_limit (page_hdr p) = page_min p" "max_limit (page_hdr p) = page_max p"
    by (cases p; simp add: NodeBase.truncate_def)+
  have lo: "(if idx = 0 then min_limit n else keys n ! (idx - 1)) = fences n ! idx"
    using assms(2) W(1,3,6) by (cases idx) (auto simp: fences_def nth_append seps_def)
  have hi: "(if idx = unat (count n) then max_limit n else keys n ! idx) = fences n ! Suc idx"
    using assms(2) W(1,3,6) by (auto simp: fences_def nth_append seps_def)
  show ?thesis unfolding new_check_limit_match_def Let_def lo hi m by auto
qed

theorem new_check_limit_match_correct_witness:
  "new_check_limit_match sample_inner (page_hdr (Leaf (sample_leaf\<lparr>min_limit := 10, max_limit := 20\<rparr>))) 1 \<and>
   fences sample_inner ! 1 = 10"
proof -
  have "1 \<le> unat (count sample_inner)" "fences sample_inner ! 1 = 10" "fences sample_inner ! Suc 1 = 20" by code_simp+
  then show ?thesis
    using new_check_limit_match_correct [OF sample_inner_wf, of 1 "Leaf (sample_leaf\<lparr>min_limit := 10, max_limit := 20\<rparr>)"] by simp
qed

lemma recursive_iterate_ok:
  assumes "walk_ok h" "h a = Some p"
  shows "\<exists>r. recursive_iterate h a i = Some r \<and> candidate h r"
  using assms(2)
proof (induction "page_level p" arbitrary: a p i rule: less_induct)
  case less
  let ?w = "typeVersionLockObsolete (page_hdr p)"
  show ?case
  proof (cases "isLocked ?w \<or> isObsolete ?w")
    case True
    then show ?thesis using less.prems by (subst recursive_iterate.simps) (simp add: readLockOrRestart_def candidate_def Let_def)
  next
    case False
    show ?thesis
    proof (cases "bitmap (page_hdr p) = 0")
      case True
      then show ?thesis using False less.prems take_candidate_ok [of h a p ?w i]
        by (subst recursive_iterate.simps) (simp add: readLockOrRestart_def Let_def)
    next
      case bm: False
      obtain n where n: "p = Inner n"
        using bm less.prems walk_okD(1) [OF assms(1)] by (cases p) (auto simp: NodeBase.truncate_def)
      have b0: "bitmap n \<noteq> 0" using bm n by (simp add: NodeBase.truncate_def)
      have mem: "h a = Some (Inner n)" using less.prems n by simp
      obtain j where j: "closest_set n (unat (murmur64 a mod of_nat (unat (count n) + 1))) = int j"
          "j < length (kids n)" "swizzled (kids n ! j)" "children n ! j = kids n ! j"
        using closest_child [OF walk_okD(2) [OF assms(1) mem] b0 start_index_bound] .
      obtain q where q: "h (kids n ! j AND swizzle_hide) = Some q" "page_level q < page_level p"
        using walk_okD(3) [OF assms(1) mem j(2,3)] n by auto
      have sw: "kids n ! j AND swizzle_tag \<noteq> 0" using j(3) by (simp add: swizzled_def)
      have "recursive_iterate h a i = recursive_iterate h (kids n ! j AND swizzle_hide) (int j)"
        using mem False b0 n j(1,4) sw
        by (subst recursive_iterate.simps) (simp add: readLockOrRestart_def Let_def NodeBase.truncate_def)
      then show ?thesis using less.hyps [OF q(2,1)] by simp
    qed
  qed
qed



end
