(* ===== verification/Cooling_Table.thy ===== *)
theory Cooling_Table
  imports Page_Table Node_Wr
begin

text \<open>
  The cooling table of the cache, \<open>dex/include/tree/hash_table.h\<close>: buckets of six frames that hold
  pages about to be evicted, newest first.  A frame packs a 16-bit fingerprint and a 48-bit local
  address.
\<close>

section \<open>Buckets\<close>

definition address_hide :: u64 where "address_hide = push_bit 48 1 - 1"

definition num_entries :: nat where "num_entries = 6"

record cbucket =
  cb_lock :: u64
  cb_count :: nat
  cb_frames :: "u64 list"

datatype cool_error = DirtyEvict | CoolIO wr_error | NoPage

text \<open>
  \<open>match\<close> compares the fingerprint and then the remote address in the page's header; \<open>-1\<close> when no
  frame fits.  A frame whose address holds no page is the error \<open>NoPage\<close>.
\<close>

fun match_from :: "heap \<Rightarrow> u64 \<Rightarrow> u64 \<Rightarrow> nat \<Rightarrow> u64 list \<Rightarrow> cool_error + int" where
  "match_from h key FP i [] = Inr (- 1)"
| "match_from h key FP i (f # fs) =
     (if drop_bit 48 f = FP then
        (case h (f AND address_hide) of
           None \<Rightarrow> Inl NoPage
         | Some p \<Rightarrow> if remote_address (page_hdr p) = key then Inr (int i) else match_from h key FP (Suc i) fs)
      else match_from h key FP (Suc i) fs)"

definition bucket_match :: "heap \<Rightarrow> cbucket \<Rightarrow> u64 \<Rightarrow> u64 \<Rightarrow> cool_error + int" where
  "bucket_match h b key FP = match_from h key FP 0 (take (cb_count b) (cb_frames b))"

fun match_value_from :: "u64 \<Rightarrow> ptr \<Rightarrow> nat \<Rightarrow> u64 list \<Rightarrow> int" where
  "match_value_from FP v i [] = - 1"
| "match_value_from FP v i (f # fs) =
     (if drop_bit 48 f = FP \<and> f AND address_hide = v then int i else match_value_from FP v (Suc i) fs)"

definition bucket_match_value :: "cbucket \<Rightarrow> u64 \<Rightarrow> ptr \<Rightarrow> int" where
  "bucket_match_value b FP v = match_value_from FP v 0 (take (cb_count b) (cb_frames b))"

text \<open>The shift loops run upwards in \<open>remove\<close> and downwards in \<open>insert\<close>, so both move whole blocks.\<close>

definition bucket_remove :: "cbucket \<Rightarrow> nat \<Rightarrow> cbucket" where
  "bucket_remove b idx =
     (let fs = (cb_frames b)[idx := 0] in
      b\<lparr>cb_frames := mem_copy idx fs (idx + 1) (cb_count b - 1 - idx) fs, cb_count := cb_count b - 1\<rparr>)"

text \<open>\<open>evict_last\<close>: -1 on an empty bucket, otherwise 0 and the page of the last frame, which has to be clean.\<close>

definition evict_last :: "heap \<Rightarrow> cbucket \<Rightarrow> ptr \<Rightarrow> cool_error + int \<times> ptr \<times> cbucket" where
  "evict_last h b address =
     (if cb_count b = 0 then Inr (- 1, address, b)
      else
        (let a = cb_frames b ! (cb_count b - 1) AND address_hide in
         case h a of
           None \<Rightarrow> Inl NoPage
         | Some p \<Rightarrow> if dirty (page_hdr p) then Inl DirtyEvict else Inr (0, a, b\<lparr>cb_count := cb_count b - 1\<rparr>)))"

definition bucket_is_full :: "cbucket \<Rightarrow> bool" where
  "bucket_is_full b \<longleftrightarrow> cb_count b = num_entries"

definition bucket_insert :: "heap \<Rightarrow> cbucket \<Rightarrow> u64 \<Rightarrow> ptr \<Rightarrow> cool_error + ptr \<times> cbucket" where
  "bucket_insert h b payload evict_page =
     (case (if cb_count b = num_entries then evict_last h b evict_page else Inr (0, evict_page, b)) of
        Inl e \<Rightarrow> Inl e
      | Inr (ret, ev, b') \<Rightarrow>
          Inr (ev, b'\<lparr>cb_frames := (mem_copy 1 (cb_frames b') 0 (cb_count b') (cb_frames b'))[0 := payload],
                      cb_count := cb_count b' + 1\<rparr>))"

section \<open>The table\<close>

record cooling =
  ct_buckets :: "cbucket list"
  ct_page_table :: page_table

definition cooling_new :: "nat \<Rightarrow> page_table \<Rightarrow> cooling" where
  "cooling_new entry_nr pt =
     (let n = (if entry_nr mod num_entries = 0 then entry_nr div num_entries else entry_nr div num_entries + 1)
      in \<lparr>ct_buckets = replicate n \<lparr>cb_lock = 0, cb_count = 0, cb_frames = replicate num_entries 0\<rparr>,
          ct_page_table = pt\<rparr>)"

definition cooling_reset :: "cooling \<Rightarrow> cooling" where
  "cooling_reset t =
     t\<lparr>ct_buckets := replicate (length (ct_buckets t)) \<lparr>cb_lock = 0, cb_count = 0, cb_frames = replicate num_entries 0\<rparr>\<rparr>"

definition ct_FP :: "u64 \<Rightarrow> u64" where
  "ct_FP hash_val = drop_bit 49 hash_val OR push_bit 15 1"

definition ct_payload :: "u64 \<Rightarrow> ptr \<Rightarrow> u64" where
  "ct_payload FP v = push_bit 48 FP OR (v AND address_hide)"

definition ct_idx :: "(u64 \<Rightarrow> u64) \<Rightarrow> cooling \<Rightarrow> u64 \<Rightarrow> nat" where
  "ct_idx hash t key = unat (hash key) mod length (ct_buckets t)"

text \<open>
  \<open>insert\<close>: write a dirty page back, lock the bucket (\<open>None\<close> while its lock is set), push the frame,
  mark the page as cooling and drop an evicted page from the page table.
\<close>

definition cooling_insert ::
  "(u64 \<Rightarrow> u64) \<Rightarrow> heap \<Rightarrow> remote_mem \<Rightarrow> cooling \<Rightarrow> u64 \<Rightarrow> ptr \<Rightarrow> ptr \<Rightarrow>
   (cool_error + ptr \<times> heap \<times> remote_mem \<times> cooling) option" where
  "cooling_insert hash h rm t key v evict_page =
     (case h v of
        None \<Rightarrow> Some (Inl NoPage)
      | Some p \<Rightarrow>
          (case (if dirty (page_hdr p) then remote_write h rm (remote_address (page_hdr p)) v True else Inr (h, rm)) of
             Inl e \<Rightarrow> Some (Inl (CoolIO e))
           | Inr (h1, rm1) \<Rightarrow>
               (let i = ct_idx hash t key; b = ct_buckets t ! i in
                if Lock_test_lock_set (cb_lock b) then None
                else
                  (case bucket_insert h1 (b\<lparr>cb_lock := Lock_get_lock (cb_lock b)\<rparr>) (ct_payload (ct_FP (hash key)) v) evict_page of
                     Inl e \<Rightarrow> Some (Inl e)
                   | Inr (ev, b') \<Rightarrow>
                       (let h2 = (case h1 v of Some q \<Rightarrow> h1(v \<mapsto> set_pos_state 1 q) | None \<Rightarrow> h1);
                            finish = (\<lambda>pt. Some (Inr (ev, h2, rm1,
                              t\<lparr>ct_buckets := (ct_buckets t)[i := b'\<lparr>cb_lock := Lock_release_lock (cb_lock b')\<rparr>],
                                ct_page_table := pt\<rparr>)))
                        in if ev = nullptr then finish (ct_page_table t)
                           else case h2 ev of
                                  None \<Rightarrow> Some (Inl NoPage)
                                | Some q \<Rightarrow>
                                    (case remove_with_lock hash (ct_page_table t) (remote_address (page_hdr q)) ev of
                                       None \<Rightarrow> None
                                     | Some (flag, pt) \<Rightarrow> finish pt))))))"

text \<open>\<open>try_promote\<close> by key and \<open>try_promote_using_value\<close> by address.\<close>

definition try_promote :: "(u64 \<Rightarrow> u64) \<Rightarrow> heap \<Rightarrow> cooling \<Rightarrow> u64 \<Rightarrow> ptr \<Rightarrow> cool_error + bool \<times> ptr \<times> cooling" where
  "try_promote hash h t key page_ptr =
     (let i = ct_idx hash t key; b = ct_buckets t ! i;
          (ok, w) = Lock_try_get_lock (cb_lock b) (cb_lock b);
          store = (\<lambda>b'. t\<lparr>ct_buckets := (ct_buckets t)[i := b'\<lparr>cb_lock := Lock_release_lock w\<rparr>]\<rparr>)
      in if \<not> ok then Inr (False, page_ptr, t)
         else
           (case bucket_match h b key (ct_FP (hash key)) of
              Inl e \<Rightarrow> Inl e
            | Inr slot_idx \<Rightarrow>
                if slot_idx = - 1 then Inr (False, page_ptr, store b)
                else Inr (True, cb_frames b ! nat slot_idx AND address_hide, store (bucket_remove b (nat slot_idx)))))"

definition try_promote_using_value :: "(u64 \<Rightarrow> u64) \<Rightarrow> cooling \<Rightarrow> u64 \<Rightarrow> ptr \<Rightarrow> bool \<times> cooling" where
  "try_promote_using_value hash t key page =
     (let i = ct_idx hash t key; b = ct_buckets t ! i;
          (ok, w) = Lock_try_get_lock (cb_lock b) (cb_lock b);
          store = (\<lambda>b'. t\<lparr>ct_buckets := (ct_buckets t)[i := b'\<lparr>cb_lock := Lock_release_lock w\<rparr>]\<rparr>);
          slot_idx = bucket_match_value b (ct_FP (hash key)) page
      in if \<not> ok then (False, t)
         else if slot_idx = - 1 then (False, store b)
         else (True, store (bucket_remove b (nat slot_idx))))"

definition check_existence :: "(u64 \<Rightarrow> u64) \<Rightarrow> heap \<Rightarrow> cooling \<Rightarrow> u64 \<Rightarrow> ptr \<Rightarrow> cool_error + bool" where
  "check_existence hash h t key page_ptr =
     (let b = ct_buckets t ! ct_idx hash t key in
      case bucket_match h b key (ct_FP (hash key)) of
        Inl e \<Rightarrow> Inl e
      | Inr slot_idx \<Rightarrow>
          if slot_idx = - 1 then Inr False
          else Inr (page_ptr = (cb_frames b ! nat slot_idx AND address_hide)))"

definition release_target_lock :: "(u64 \<Rightarrow> u64) \<Rightarrow> cooling \<Rightarrow> u64 \<Rightarrow> cooling" where
  "release_target_lock hash t key =
     (let i = ct_idx hash t key; b = ct_buckets t ! i in
      t\<lparr>ct_buckets := (ct_buckets t)[i := b\<lparr>cb_lock := Lock_release_lock (cb_lock b)\<rparr>]\<rparr>)"

text \<open>
  \<open>random_evict_to_remote\<close> from the drawn bucket \<open>i\<close> over at most \<open>n\<close> buckets; it skips locked
  buckets and stops at the first page it evicts.
\<close>

fun evict_probe ::
  "(u64 \<Rightarrow> u64) \<Rightarrow> heap \<Rightarrow> cooling \<Rightarrow> ptr \<Rightarrow> nat \<Rightarrow> nat \<Rightarrow> (cool_error + int \<times> ptr \<times> cooling) option" where
  "evict_probe hash h t page i 0 = Some (Inr (- 1, page, t))"
| "evict_probe hash h t page i (Suc n) =
     (let b = ct_buckets t ! i; (ok, w) = Lock_try_get_lock (cb_lock b) (cb_lock b);
          store = (\<lambda>b'. t\<lparr>ct_buckets := (ct_buckets t)[i := b'\<lparr>cb_lock := Lock_release_lock w\<rparr>]\<rparr>)
      in if \<not> ok then evict_probe hash h t page (Suc i) n
         else
           (case evict_last h b page of
              Inl e \<Rightarrow> Some (Inl e)
            | Inr (success, ev, b') \<Rightarrow>
                if success = 0 then
                  (case h ev of
                     None \<Rightarrow> Some (Inl NoPage)
                   | Some q \<Rightarrow>
                       (case remove_with_lock hash (ct_page_table t) (remote_address (page_hdr q)) ev of
                          None \<Rightarrow> None
                        | Some (flag, pt) \<Rightarrow> Some (Inr (0, ev, (store b')\<lparr>ct_page_table := pt\<rparr>))))
                else evict_probe hash h (store b) ev (Suc i) n))"

definition random_evict_to_remote ::
  "(u64 \<Rightarrow> u64) \<Rightarrow> heap \<Rightarrow> cooling \<Rightarrow> ptr \<Rightarrow> nat \<Rightarrow> nat \<Rightarrow> (cool_error + int \<times> ptr \<times> cooling) option" where
  "random_evict_to_remote hash h t page idx probing_length =
     (let target_bucket = min (length (ct_buckets t)) (idx + probing_length)
      in evict_probe hash h t page idx (target_bucket - idx))"

section \<open>A bucket is a bounded queue\<close>

definition cqueue :: "cbucket \<Rightarrow> u64 list" where
  "cqueue b = take (cb_count b) (cb_frames b)"

definition cbucket_ok :: "cbucket \<Rightarrow> bool" where
  "cbucket_ok b \<longleftrightarrow> length (cb_frames b) = num_entries \<and> cb_count b \<le> num_entries"

lemma cqueue_length: "cbucket_ok b \<Longrightarrow> length (cqueue b) = cb_count b"
  by (simp add: cqueue_def cbucket_ok_def)

lemma cqueue_lock [simp]: "cqueue (b\<lparr>cb_lock := w\<rparr>) = cqueue b" "cbucket_ok (b\<lparr>cb_lock := w\<rparr>) = cbucket_ok b"
  by (simp_all add: cqueue_def cbucket_ok_def)

lemma evict_last_queue:
  assumes "cbucket_ok b" "cb_count b \<noteq> 0" "evict_last h b a = Inr (ret, ev, b')"
  shows "ret = 0" "ev = last (cqueue b) AND address_hide" "cqueue b' = butlast (cqueue b)" "cbucket_ok b'"
    "cb_frames b' = cb_frames b" "cb_count b' = cb_count b - 1" "cb_lock b' = cb_lock b"
proof -
  have b': "b' = b\<lparr>cb_count := cb_count b - 1\<rparr>" and r: "ret = 0" and ev: "ev = cb_frames b ! (cb_count b - 1) AND address_hide"
    using assms(2,3) by (auto simp: evict_last_def Let_def split: option.splits if_splits)
  have "cqueue b \<noteq> []" using assms(2) cqueue_length [OF assms(1)] by auto
  then have "last (cqueue b) = cb_frames b ! (cb_count b - 1)"
    using assms(2) last_conv_nth [of "cqueue b"] cqueue_length [OF assms(1)] by (simp add: cqueue_def)
  then show "ret = 0" "ev = last (cqueue b) AND address_hide" using r ev by simp_all
  show "cqueue b' = butlast (cqueue b)" using assms(1) by (simp add: b' cqueue_def cbucket_ok_def butlast_take)
  show "cbucket_ok b'" "cb_frames b' = cb_frames b" "cb_count b' = cb_count b - 1" "cb_lock b' = cb_lock b"
    using assms(1) by (auto simp: b' cbucket_ok_def)
qed

lemma push_front:
  assumes "length fs = 6" "n < 6"
  shows "take (Suc n) ((mem_copy 1 fs 0 n fs)[0 := x]) = x # take n fs"
  using assms by (intro nth_equalityI) (auto simp: nth_list_update nth_Cons' nth_mem_copy)

lemma bucket_insert_queue:
  assumes "cbucket_ok b" "bucket_insert h b payload ev0 = Inr (ev, b')"
  shows "cbucket_ok b'" "cqueue b' = payload # take 5 (cqueue b)" "cb_lock b' = cb_lock b"
    "ev = (if bucket_is_full b then last (cqueue b) AND address_hide else ev0)"
proof -
  obtain ret b1 where e: "(if cb_count b = num_entries then evict_last h b ev0 else Inr (0, ev0, b)) = Inr (ret, ev, b1)"
    and b': "b' = b1\<lparr>cb_frames := (mem_copy 1 (cb_frames b1) 0 (cb_count b1) (cb_frames b1))[0 := payload], cb_count := cb_count b1 + 1\<rparr>"
    using assms(2) by (auto simp: bucket_insert_def split: sum.splits)
  have b1: "cbucket_ok b1 \<and> cb_count b1 < 6 \<and> cqueue b1 = take 5 (cqueue b) \<and> cb_lock b1 = cb_lock b \<and>
      ev = (if bucket_is_full b then last (cqueue b) AND address_hide else ev0)"
  proof (cases "cb_count b = num_entries")
    case True
    then have ev: "evict_last h b ev0 = Inr (ret, ev, b1)" using e by simp
    have n0: "cb_count b \<noteq> 0" using True by (simp add: num_entries_def)
    note q = evict_last_queue [OF assms(1) n0 ev]
    have "butlast (cqueue b) = take 5 (cqueue b)"
      using cqueue_length [OF assms(1)] True by (simp add: butlast_conv_take num_entries_def)
    then show ?thesis using q True by (simp add: bucket_is_full_def num_entries_def)
  next
    case False
    then show ?thesis using e assms(1) cqueue_length [OF assms(1)]
      by (auto simp: bucket_is_full_def cbucket_ok_def num_entries_def)
  qed
  show "cbucket_ok b'" "cb_lock b' = cb_lock b"
    using b1 by (simp_all add: b' cbucket_ok_def num_entries_def)
  show "ev = (if bucket_is_full b then last (cqueue b) AND address_hide else ev0)" using b1 by blast
  show "cqueue b' = payload # take 5 (cqueue b)"
    using b1 push_front [of "cb_frames b1" "cb_count b1" payload]
    unfolding cqueue_def [of b'] by (simp add: b' cbucket_ok_def num_entries_def cqueue_def)
qed

lemma bucket_remove_queue:
  assumes "cbucket_ok b" "i < cb_count b"
  shows "cqueue (bucket_remove b i) = take i (cqueue b) @ drop (Suc i) (cqueue b)" "cbucket_ok (bucket_remove b i)"
    "cb_lock (bucket_remove b i) = cb_lock b"
proof -
  have len: "length (cb_frames b) = 6" "cb_count b \<le> 6" using assms(1) by (simp_all add: cbucket_ok_def num_entries_def)
  show "cbucket_ok (bucket_remove b i)" using assms(2) len by (simp add: bucket_remove_def Let_def cbucket_ok_def num_entries_def)
  show "cb_lock (bucket_remove b i) = cb_lock b" by (simp add: bucket_remove_def Let_def)
  show "cqueue (bucket_remove b i) = take i (cqueue b) @ drop (Suc i) (cqueue b)"
  proof (rule nth_equalityI)
    show "length (cqueue (bucket_remove b i)) = length (take i (cqueue b) @ drop (Suc i) (cqueue b))"
      using assms(2) len by (simp add: bucket_remove_def Let_def cqueue_def)
    fix j assume "j < length (cqueue (bucket_remove b i))"
    then have "j < cb_count b - 1" using assms(2) len by (simp add: bucket_remove_def Let_def cqueue_def)
    then show "cqueue (bucket_remove b i) ! j = (take i (cqueue b) @ drop (Suc i) (cqueue b)) ! j"
      using assms(2) len by (auto simp: bucket_remove_def Let_def cqueue_def nth_append nth_mem_copy nth_list_update min_def)
  qed
qed

section \<open>Frames\<close>

lemma ct_FP_bound: "unat (ct_FP w) < 2 ^ 16"
proof -
  have "\<not> bit (ct_FP w) i" if "16 \<le> i" for i
    using that bit_imp_le_length [of w "49 + i"] unfolding ct_FP_def bit_or_iff bit_drop_bit_eq bit_push_bit_iff
    by (auto simp: bit_1_iff)
  then have "i < 16" if "bit (ct_FP w) i" for i using that not_le by blast
  then have "ct_FP w = ct_FP w AND mask 16" by (intro bit_word_eqI) (auto simp: bit_and_iff bit_mask_iff)
  then have "unat (ct_FP w) = unat (ct_FP w) mod 2 ^ 16" by (metis unat_and_mask)
  then show ?thesis by (metis mod_less_divisor zero_less_numeral zero_less_power)
qed

lemma ct_payload_fields:
  assumes "unat FP < 2 ^ 16"
  shows "drop_bit 48 (ct_payload FP v) = FP" "ct_payload FP v AND address_hide = v AND address_hide"
proof -
  have hide: "address_hide = mask 48" by (simp add: address_hide_def push_bit_eq_mult mask_eq_exp_minus_1)
  have "FP = FP AND mask 16"
    using assms by (simp add: word_unat_eq_iff unat_and_mask)
  then have hi: "i < 16" if "bit FP i" for i using that by (metis bit_and_iff bit_mask_iff)
  show "drop_bit 48 (ct_payload FP v) = FP"
    unfolding ct_payload_def hide using hi
    by (intro bit_word_eqI) (auto simp: bit_drop_bit_eq bit_or_iff bit_push_bit_iff bit_and_iff bit_mask_iff)
  show "ct_payload FP v AND address_hide = v AND address_hide"
    unfolding ct_payload_def hide by (intro bit_word_eqI) (auto simp: bit_or_iff bit_push_bit_iff bit_and_iff bit_mask_iff)
qed

section \<open>Insert, promote and evict\<close>

text \<open>Every page in the table is cached and clean, so that it can be dropped without a write.\<close>

definition clean_page :: "heap \<Rightarrow> u64 \<Rightarrow> bool" where
  "clean_page h f \<longleftrightarrow> (\<exists>p. h (f AND address_hide) = Some p \<and> \<not> dirty (page_hdr p))"

definition cooling_ok :: "heap \<Rightarrow> cooling \<Rightarrow> bool" where
  "cooling_ok h t \<longleftrightarrow> ct_buckets t \<noteq> [] \<and>
     (\<forall>b \<in> set (ct_buckets t). cbucket_ok b \<and> (\<forall>f \<in> set (cqueue b). clean_page h f))"

lemma cooling_okD:
  assumes "cooling_ok h t" "i < length (ct_buckets t)"
  shows "cbucket_ok (ct_buckets t ! i)" "f \<in> set (cqueue (ct_buckets t ! i)) \<Longrightarrow> clean_page h f"
  using assms by (auto simp: cooling_ok_def)

lemma ct_idx_less: "cooling_ok h t \<Longrightarrow> ct_idx hash t key < length (ct_buckets t)"
  by (simp add: ct_idx_def cooling_ok_def)

lemma dirty_hdr_set [simp]: "dirty (page_hdr (set_pos_state s p)) = dirty (page_hdr p)" "\<not> dirty (page_hdr (set_dirty False p))"
  by (cases p; simp add: NodeBase.truncate_def)+

lemma clean_page_upd:
  "clean_page h f \<Longrightarrow> \<not> dirty (page_hdr q) \<Longrightarrow> clean_page (h(v \<mapsto> q)) f"
  by (auto simp: clean_page_def)

lemma evict_last_clean:
  assumes "cbucket_ok b" "\<And>f. f \<in> set (cqueue b) \<Longrightarrow> clean_page h f"
  shows "\<exists>ret ev b'. evict_last h b a = Inr (ret, ev, b')"
proof (cases "cb_count b = 0")
  case False
  then have "cb_frames b ! (cb_count b - 1) \<in> set (cqueue b)"
    using assms(1) cqueue_length [OF assms(1)] nth_mem [of "cb_count b - 1" "cqueue b"] by (simp add: cqueue_def)
  then show ?thesis using False assms(2) by (fastforce simp: evict_last_def Let_def clean_page_def)
qed (simp add: evict_last_def)

lemma cooling_ok_store:
  assumes "cooling_ok h t" "cbucket_ok b" "\<And>f. f \<in> set (cqueue b) \<Longrightarrow> clean_page h f"
  shows "cooling_ok h (t\<lparr>ct_buckets := (ct_buckets t)[i := b]\<rparr>)"
  using assms set_update_subset_insert [of "ct_buckets t" i b] by (auto simp: cooling_ok_def)

lemma cooling_ok_heap:
  assumes "cooling_ok h t" "\<not> dirty (page_hdr q)"
  shows "cooling_ok (h(v \<mapsto> q)) t"
  using assms clean_page_upd by (auto simp: cooling_ok_def)

text \<open>What \<open>insert\<close> does to heap and bucket before it turns to the page table.\<close>

lemma cooling_insert_steps:
  assumes ok: "cooling_ok h t" and v: "h v = Some p" "v AND address_hide = v"
    and free: "\<not> Lock_test_lock_set (cb_lock (ct_buckets t ! ct_idx hash t key))"
  defines "h1 \<equiv> (if dirty (page_hdr p) then h(v \<mapsto> set_dirty False p) else h)"
    and "b \<equiv> ct_buckets t ! ct_idx hash t key"
  shows "cooling_ok h1 t" "\<exists>q. h1 v = Some q \<and> \<not> dirty (page_hdr q)"
    "\<exists>ev b'. bucket_insert h1 (b\<lparr>cb_lock := w\<rparr>) (ct_payload (ct_FP (hash key)) v) ev0 = Inr (ev, b') \<and>
       cbucket_ok b' \<and> cqueue b' = ct_payload (ct_FP (hash key)) v # take 5 (cqueue b) \<and>
       (\<forall>f \<in> set (cqueue b'). clean_page h1 f) \<and>
       ev = (if bucket_is_full b then last (cqueue b) AND address_hide else ev0) \<and> cb_lock b' = w"
proof -
  show ok1: "cooling_ok h1 t" using ok cooling_ok_heap [OF ok, of "set_dirty False p" v] by (simp add: h1_def)
  show hv: "\<exists>q. h1 v = Some q \<and> \<not> dirty (page_hdr q)" using v(1) by (simp add: h1_def)
  let ?pl = "ct_payload (ct_FP (hash key)) v" and ?b = "b\<lparr>cb_lock := w\<rparr>"
  have ix: "ct_idx hash t key < length (ct_buckets t)" by (rule ct_idx_less [OF ok1])
  note B = cooling_okD [OF ok1 ix, folded b_def]
  have full: "bucket_is_full ?b = bucket_is_full b" by (simp add: bucket_is_full_def)
  have "\<exists>ev b'. bucket_insert h1 ?b ?pl ev0 = Inr (ev, b')"
    using evict_last_clean [of ?b h1 ev0] B by (auto simp: bucket_insert_def)
  then obtain ev b' where i: "bucket_insert h1 ?b ?pl ev0 = Inr (ev, b')" by blast
  have bok: "cbucket_ok ?b" using B(1) by simp
  note Q = bucket_insert_queue [OF bok i]
  have "clean_page h1 ?pl" using hv v(2) ct_payload_fields(2) [OF ct_FP_bound] by (simp add: clean_page_def)
  then have "\<forall>f \<in> set (cqueue b'). clean_page h1 f" using Q(2) B(2) by (auto dest: in_set_takeD)
  then show "\<exists>ev b'. bucket_insert h1 ?b ?pl ev0 = Inr (ev, b') \<and> cbucket_ok b' \<and> cqueue b' = ?pl # take 5 (cqueue b) \<and>
      (\<forall>f \<in> set (cqueue b'). clean_page h1 f) \<and>
      ev = (if bucket_is_full b then last (cqueue b) AND address_hide else ev0) \<and> cb_lock b' = w"
    using i Q full by auto
qed

definition pt_unlocked :: "page_table \<Rightarrow> bool" where
  "pt_unlocked t \<longleftrightarrow> (\<forall>c \<in> set (pt_table t). \<not> Lock32_test_lock_set (pb_lock (hd c)))"

lemma remove_with_lock_returns:
  assumes "table_ok t" "pt_unlocked t"
  shows "\<exists>flag t'. remove_with_lock hash t key v = Some (flag, t')"
  using assms get_bucket_idx_less [OF assms(1), of hash key]
  by (auto simp: remove_with_lock_def with_lock_def pt_unlocked_def Let_def split: prod.splits)

lemma mask_of_unlocked: "\<not> Lock_test_lock_set w \<Longrightarrow> w AND lockMask = w"
proof -
  assume "\<not> Lock_test_lock_set w"
  then have b: "\<not> bit w 63"
    using and_exp_eq_0_iff_not_bit [of w 63] by (simp add: Lock_test_lock_set_def lockSet_def push_bit_eq_mult)
  have lm: "lockMask = mask 63" by (simp add: lockMask_def push_bit_eq_mult mask_eq_exp_minus_1)
  have "i < 63" if "bit w i" for i using that b bit_imp_le_length [of w i] by (cases "i = 63") auto
  then show ?thesis unfolding lm by (intro bit_word_eqI) (auto simp: bit_and_iff bit_mask_iff)
qed

lemma try_get_unlocked: "\<not> Lock_test_lock_set w \<Longrightarrow> Lock_try_get_lock w w = (True, w OR lockSet)"
  using mask_of_unlocked [of w] by (simp add: Lock_try_get_lock_def Lock_test_lock_set_def CAS_def)

text \<open>
  C33: moving a page to the cooling table never loses data and never fails: a dirty page is written
  back first, the page it may push out is cached and clean, and afterwards the bucket holds the
  new page in front of at most five older ones and every page of the table is cached and clean.
\<close>

theorem cooling_insert_safe:
  assumes ok: "cooling_ok h t" and v: "h v = Some p" "v AND address_hide = v"
    and pt: "table_ok (ct_page_table t)" "pt_unlocked (ct_page_table t)"
    and free: "\<not> Lock_test_lock_set (cb_lock (ct_buckets t ! ct_idx hash t key))"
  shows "\<exists>ev h' rm' t'. cooling_insert hash h rm t key v nullptr = Some (Inr (ev, h', rm', t')) \<and> cooling_ok h' t' \<and>
    cqueue (ct_buckets t' ! ct_idx hash t key) =
      ct_payload (ct_FP (hash key)) v # take 5 (cqueue (ct_buckets t ! ct_idx hash t key)) \<and>
    (dirty (page_hdr p) \<longrightarrow> rm' (remote_address (page_hdr p)) = Some (flush_copy True p))"
proof -
  let ?i = "ct_idx hash t key" and ?pl = "ct_payload (ct_FP (hash key)) v"
  let ?b = "ct_buckets t ! ct_idx hash t key" and ?h1 = "if dirty (page_hdr p) then h(v \<mapsto> set_dirty False p) else h"
  let ?rm1 = "if dirty (page_hdr p) then rm(remote_address (page_hdr p) \<mapsto> flush_copy True p) else rm"
  note S = cooling_insert_steps [OF ok v free]
  have io: "(if dirty (page_hdr p) then remote_write h rm (remote_address (page_hdr p)) v True else Inr (h, rm)) = Inr (?h1, ?rm1)"
    using v(1) flush_copy_props(3) [of True p] by (simp add: remote_write_def Let_def addr_eq_def)
  obtain q where q: "?h1 v = Some q" "\<not> dirty (page_hdr q)" using S(2) by blast
  obtain ev b' where b': "bucket_insert ?h1 (?b\<lparr>cb_lock := Lock_get_lock (cb_lock ?b)\<rparr>) ?pl nullptr = Inr (ev, b')"
      "cbucket_ok b'" "cqueue b' = ?pl # take 5 (cqueue ?b)" "\<forall>f \<in> set (cqueue b'). clean_page ?h1 f"
      "ev = (if bucket_is_full ?b then last (cqueue ?b) AND address_hide else nullptr)"
    using S(3) [of "Lock_get_lock (cb_lock ?b)" nullptr] by blast
  let ?h2 = "?h1(v \<mapsto> set_pos_state 1 q)"
  define st where "st = (\<lambda>x. t\<lparr>ct_buckets := (ct_buckets t)[?i := b'\<lparr>cb_lock := Lock_release_lock (cb_lock b')\<rparr>], ct_page_table := x\<rparr>)"
  have ok2: "cooling_ok ?h2 (st x)" for x
  proof -
    have "cooling_ok ?h2 t" by (rule cooling_ok_heap [OF S(1)]) (simp add: q(2))
    moreover have "clean_page ?h2 f" if "f \<in> set (cqueue b')" for f using that b'(4) q(2) by (intro clean_page_upd) auto
    ultimately have "cooling_ok ?h2 (t\<lparr>ct_buckets := (ct_buckets t)[?i := b'\<lparr>cb_lock := Lock_release_lock (cb_lock b')\<rparr>]\<rparr>)"
      using b'(2) by (intro cooling_ok_store) auto
    then show ?thesis by (simp add: st_def cooling_ok_def)
  qed
  have evp: "\<exists>e. ?h2 ev = Some e" if "ev \<noteq> nullptr"
  proof -
    have full: "bucket_is_full ?b" using that b'(5) by (auto split: if_splits)
    have ix: "?i < length (ct_buckets t)" by (rule ct_idx_less [OF ok])
    have bk: "cbucket_ok ?b" by (rule cooling_okD(1) [OF S(1) ix])
    then have "cqueue ?b \<noteq> []" using full cqueue_length [OF bk] by (auto simp: bucket_is_full_def num_entries_def)
    then have "clean_page ?h1 (last (cqueue ?b))" by (intro cooling_okD(2) [OF S(1) ix] last_in_set)
    then show ?thesis using full b'(5) by (auto simp: clean_page_def split: if_splits)
  qed
  have run: "\<exists>x. cooling_insert hash h rm t key v nullptr = Some (Inr (ev, ?h2, ?rm1, st x))"
  proof (cases "ev = nullptr")
    case True
    then show ?thesis using v(1) io free b'(1) q(1)
      by (intro exI [of _ "ct_page_table t"]) (simp add: cooling_insert_def Let_def st_def)
  next
    case False
    obtain e where e: "?h2 ev = Some e" using evp [OF False] by blast
    obtain flag x where "remove_with_lock hash (ct_page_table t) (remote_address (page_hdr e)) ev = Some (flag, x)"
      using remove_with_lock_returns [OF pt] by blast
    then show ?thesis using False e v(1) io free b'(1) q(1) unfolding cooling_insert_def by (auto simp: Let_def st_def)
  qed
  have "cqueue (ct_buckets (st x) ! ?i) = ?pl # take 5 (cqueue ?b)" for x
    using ct_idx_less [OF ok, of hash key] b'(3) by (simp add: st_def)
  then show ?thesis using run ok2 by fastforce
qed

lemma match_front:
  assumes "cqueue b = ct_payload FP v # fs" "unat FP < 2 ^ 16" "v AND address_hide = v" "h v = Some p"
    "remote_address (page_hdr p) = key"
  shows "bucket_match h b key FP = Inr 0" "cb_frames b ! 0 AND address_hide = v" "0 < cb_count b"
proof -
  note F = ct_payload_fields [OF assms(2), of v]
  show "bucket_match h b key FP = Inr 0"
    using assms F unfolding bucket_match_def cqueue_def [symmetric] by simp
  show c: "0 < cb_count b" using assms(1) by (cases "cb_count b") (auto simp: cqueue_def)
  have "cb_frames b ! 0 = cqueue b ! 0" using c by (simp add: cqueue_def)
  then show "cb_frames b ! 0 AND address_hide = v" using assms(1,3) F(2) by simp
qed

text \<open>
  A cooling page can be rescued: \<open>try_promote\<close> by the key of the page in front of its bucket,
  with the bucket's lock free, succeeds, returns that page and takes exactly it out of the queue.
\<close>

theorem try_promote_front:
  assumes "cooling_ok h t" "h v = Some p" "v AND address_hide = v" "remote_address (page_hdr p) = key"
    and "cqueue (ct_buckets t ! ct_idx hash t key) = ct_payload (ct_FP (hash key)) v # fs"
    and "\<not> Lock_test_lock_set (cb_lock (ct_buckets t ! ct_idx hash t key))"
  shows "\<exists>t'. try_promote hash h t key x = Inr (True, v, t') \<and> cooling_ok h t' \<and>
    cqueue (ct_buckets t' ! ct_idx hash t key) = fs"
proof -
  let ?i = "ct_idx hash t key" and ?b = "ct_buckets t ! ct_idx hash t key"
  have ix: "?i < length (ct_buckets t)" by (rule ct_idx_less [OF assms(1)])
  note B = cooling_okD [OF assms(1) ix] and M = match_front [where h = h, OF assms(5) ct_FP_bound assms(3) assms(2) assms(4)]
  note R = bucket_remove_queue [OF B(1) M(3)]
  have q: "cqueue (bucket_remove ?b 0) = fs" using R(1) assms(5) by simp
  let ?b' = "(bucket_remove ?b 0)\<lparr>cb_lock := Lock_release_lock (cb_lock ?b OR lockSet)\<rparr>"
  let ?t' = "t\<lparr>ct_buckets := (ct_buckets t)[?i := ?b']\<rparr>"
  have "try_promote hash h t key x = Inr (True, v, ?t')"
    using M(1,2) try_get_unlocked [OF assms(6)] by (simp add: try_promote_def Let_def)
  moreover have "cooling_ok h ?t'"
    using R(2) q B(2) assms(5) by (intro cooling_ok_store [OF assms(1)]) auto
  moreover have "cqueue (ct_buckets ?t' ! ?i) = fs" using ix q by simp
  ultimately show ?thesis by blast
qed

text \<open>A page taken from the end of one of the queues.\<close>

definition from_tail :: "cooling \<Rightarrow> ptr \<Rightarrow> bool" where
  "from_tail t ev \<longleftrightarrow> (\<exists>q \<in> set (map cqueue (ct_buckets t)). q \<noteq> [] \<and> ev = last q AND address_hide)"

lemma evict_probe_safe:
  assumes "cooling_ok h t" "table_ok (ct_page_table t)" "pt_unlocked (ct_page_table t)" "i + n \<le> length (ct_buckets t)"
  shows "\<exists>ret ev t'. evict_probe hash h t page i n = Some (Inr (ret, ev, t')) \<and> cooling_ok h t' \<and>
    (ret = - 1 \<or> ret = 0 \<and> from_tail t ev)"
  using assms
proof (induction n arbitrary: t i page)
  case (Suc n)
  let ?b = "ct_buckets t ! i"
  have ix: "i < length (ct_buckets t)" using Suc.prems(4) by simp
  note B = cooling_okD [OF Suc.prems(1) ix]
  show ?case
  proof (cases "Lock_test_lock_set (cb_lock ?b)")
    case True
    then have "evict_probe hash h t page i (Suc n) = evict_probe hash h t page (Suc i) n"
      by (simp add: Lock_try_get_lock_def Lock_test_lock_set_def Let_def)
    then show ?thesis using Suc.IH [OF Suc.prems(1-3), of "Suc i" page] Suc.prems(4) by simp
  next
    case False
    note L = try_get_unlocked [OF False]
    let ?w = "Lock_release_lock (cb_lock ?b OR lockSet)"
    obtain ret ev b' where e: "evict_last h ?b page = Inr (ret, ev, b')" using evict_last_clean [OF B] by blast
    show ?thesis
    proof (cases "cb_count ?b = 0")
      case True
      let ?t = "t\<lparr>ct_buckets := (ct_buckets t)[i := ?b\<lparr>cb_lock := ?w\<rparr>]\<rparr>"
      have run: "evict_probe hash h t page i (Suc n) = evict_probe hash h ?t page (Suc i) n"
        using L True by (simp add: evict_last_def Let_def)
      have ok: "cooling_ok h ?t" using B by (intro cooling_ok_store [OF Suc.prems(1)]) auto
      have "map cqueue (ct_buckets ?t) = map cqueue (ct_buckets t)" using ix by (simp add: map_update list_update_same_conv)
      then have ft: "from_tail ?t = from_tail t" by (simp add: from_tail_def fun_eq_iff)
      show ?thesis unfolding run ft [symmetric] by (rule Suc.IH [OF ok]) (use Suc.prems(2-4) in simp_all)
    next
      case False
      note Q = evict_last_queue [OF B(1) False e]
      have ne: "cqueue ?b \<noteq> []" using False cqueue_length [OF B(1)] by auto
      then have "clean_page h (last (cqueue ?b))" by (intro B(2) last_in_set)
      then obtain q where q: "h ev = Some q" using Q(2) by (auto simp: clean_page_def)
      obtain flag pt where pt: "remove_with_lock hash (ct_page_table t) (remote_address (page_hdr q)) ev = Some (flag, pt)"
        using remove_with_lock_returns [OF Suc.prems(2,3)] by blast
      let ?t = "t\<lparr>ct_buckets := (ct_buckets t)[i := b'\<lparr>cb_lock := ?w\<rparr>]\<rparr>"
      have run: "evict_probe hash h t page i (Suc n) = Some (Inr (0, ev, ?t\<lparr>ct_page_table := pt\<rparr>))"
        using L e Q(1) q pt by (simp add: Let_def)
      have "cooling_ok h ?t"
        using Q(3,4) B(2) by (intro cooling_ok_store [OF Suc.prems(1)]) (auto dest: in_set_butlastD)
      then have ok: "cooling_ok h (?t\<lparr>ct_page_table := pt\<rparr>)" by (simp add: cooling_ok_def)
      have "from_tail t ev" using ix ne Q(2) unfolding from_tail_def by (intro bexI [of _ "cqueue ?b"]) simp_all
      then show ?thesis unfolding run using ok by blast
    qed
  qed
qed simp

text \<open>
  C34: \<open>random_evict_to_remote\<close> never trips over a dirty page: from any start bucket it returns,
  reports either a page it took from the end of a bucket or that it found none, and leaves only
  cached and clean pages in the table.
\<close>

theorem random_evict_safe:
  assumes "cooling_ok h t" "table_ok (ct_page_table t)" "pt_unlocked (ct_page_table t)" "idx < length (ct_buckets t)"
  shows "\<exists>ret ev t'. random_evict_to_remote hash h t page idx probing_length = Some (Inr (ret, ev, t')) \<and> cooling_ok h t' \<and>
    (ret = - 1 \<or> ret = 0 \<and> from_tail t ev)"
  unfolding random_evict_to_remote_def Let_def
  by (rule evict_probe_safe [OF assms(1-3)]) (use assms(4) in simp)

definition sample_cooling :: cooling where
  "sample_cooling = cooling_new 12 (page_table_new 6)"

definition sample_heap :: heap where
  "sample_heap = [64 \<mapsto> Leaf (sample_leaf\<lparr>remote_address := 8\<rparr>)]"

lemma sample_cooling_ok:
  "cooling_ok h sample_cooling" "table_ok (ct_page_table sample_cooling)" "pt_unlocked (ct_page_table sample_cooling)"
proof -
  have c: "ct_buckets sample_cooling = replicate 2 \<lparr>cb_lock = 0, cb_count = 0, cb_frames = replicate num_entries 0\<rparr>"
    "ct_page_table sample_cooling = page_table_new 6" by (simp_all add: sample_cooling_def cooling_new_def num_entries_def Let_def)
  show "cooling_ok h sample_cooling" unfolding cooling_ok_def c by (simp add: cbucket_ok_def cqueue_def)
  show "table_ok (ct_page_table sample_cooling)" using sample_table_ok by (simp add: c sample_table_def)
  show "pt_unlocked (ct_page_table sample_cooling)"
    by (auto simp: pt_unlocked_def c page_table_new_def Let_def zero_bucket_def Lock32_test_lock_set_def)
qed

lemma sample_cooling_free: "\<not> Lock_test_lock_set (cb_lock (ct_buckets sample_cooling ! ct_idx id sample_cooling 8))"
  by code_simp

theorem cooling_insert_safe_witness:
  "\<exists>ev h' rm' t'. cooling_insert id sample_heap Map.empty sample_cooling 8 64 nullptr = Some (Inr (ev, h', rm', t')) \<and>
     cooling_ok h' t'"
proof -
  have v: "sample_heap 64 = Some (Leaf (sample_leaf\<lparr>remote_address := 8\<rparr>))" by (simp add: sample_heap_def)
  have a: "(64 :: ptr) AND address_hide = 64" by code_simp
  from cooling_insert_safe [where h = sample_heap and v = 64 and hash = id and key = 8 and rm = Map.empty,
      OF sample_cooling_ok(1) v a sample_cooling_ok(2,3) sample_cooling_free]
  show ?thesis by blast
qed

definition sample_cooling_used :: cooling where
  "sample_cooling_used = sample_cooling\<lparr>ct_buckets := map (\<lambda>b. b\<lparr>cb_count := 1,
     cb_frames := (cb_frames b)[0 := ct_payload (ct_FP 8) 64]\<rparr>) (ct_buckets sample_cooling)\<rparr>"

definition sample_clean_heap :: heap where
  "sample_clean_heap = [64 \<mapsto> Leaf (sample_leaf\<lparr>remote_address := 8, dirty := False\<rparr>)]"

theorem try_promote_front_witness:
  "\<exists>t'. try_promote id sample_clean_heap sample_cooling_used 8 0 = Inr (True, 64, t') \<and>
     cqueue (ct_buckets t' ! ct_idx id sample_cooling_used 8) = []"
proof -
  let ?p = "Leaf (sample_leaf\<lparr>remote_address := 8, dirty := False\<rparr>)"
  have v: "sample_clean_heap 64 = Some ?p" by (simp add: sample_clean_heap_def)
  have a: "(64 :: ptr) AND address_hide = 64" "remote_address (page_hdr ?p) = 8" "\<not> dirty (page_hdr ?p)"
    "cqueue (ct_buckets sample_cooling_used ! ct_idx id sample_cooling_used 8) = [ct_payload (ct_FP (id 8)) 64]"
    "\<not> Lock_test_lock_set (cb_lock (ct_buckets sample_cooling_used ! ct_idx id sample_cooling_used 8))"
    "ct_payload (ct_FP 8) 64 AND address_hide = 64" by code_simp+
  have "clean_page sample_clean_heap (ct_payload (ct_FP 8) 64)" using v a(3,6) by (simp add: clean_page_def)
  moreover have "ct_buckets sample_cooling_used = replicate 2 \<lparr>cb_lock = 0, cb_count = 1,
      cb_frames = ct_payload (ct_FP 8) 64 # replicate 5 0\<rparr>"
    by code_simp
  ultimately have ok: "cooling_ok sample_clean_heap sample_cooling_used"
    by (simp add: cooling_ok_def cbucket_ok_def cqueue_def num_entries_def)
  from try_promote_front [where h = sample_clean_heap and hash = id and x = 0, OF ok v a(1,2,4,5)] show ?thesis by blast
qed

theorem random_evict_safe_witness:
  "\<exists>ret ev t'. random_evict_to_remote id sample_heap sample_cooling 0 1 5 = Some (Inr (ret, ev, t')) \<and>
     cooling_ok sample_heap t'"
proof -
  have "1 < length (ct_buckets sample_cooling)" by code_simp
  from random_evict_safe [where h = sample_heap and hash = id and page = 0 and probing_length = 5, OF sample_cooling_ok this] show ?thesis by blast
qed

end
