(* ===== verification/Cache_Monad.thy ===== *)
theory Cache_Monad
  imports Cooling_Table
begin

text \<open>
  Programs of the compute node: state transformers that return a value, fail with an error or do not
  return.  An error is a failed assertion, an access through a pointer to no page (or to a page of
  the other kind), the endless diagnostic loop \<open>while (true);\<close> or \<open>exit\<close>; \<open>None\<close> is a thread that
  waits for ever, for a lock nobody releases or in a loop that ran out of its bound.  Two predicates
  speak about runs: \<open>ok\<close> (the program returns and its result satisfies the condition) and \<open>safe\<close>
  (if it returns, the result does).
\<close>

section \<open>Programs\<close>

datatype cm_error =
  AssertFailed | BadAccess | Stuck | Exited | DivByZero |
  WrError wr_error | CoolError cool_error | PtError pt_error | DirError dir_error | AllocError alloc_error

type_synonym ('s, 'a) prog = "'s \<Rightarrow> (cm_error + 'a \<times> 's) option"

definition ret :: "'a \<Rightarrow> ('s, 'a) prog" where
  "ret x = (\<lambda>s. Some (Inr (x, s)))"

definition bnd :: "('s, 'a) prog \<Rightarrow> ('a \<Rightarrow> ('s, 'b) prog) \<Rightarrow> ('s, 'b) prog" where
  "bnd m f = (\<lambda>s. case m s of None \<Rightarrow> None | Some (Inl e) \<Rightarrow> Some (Inl e) | Some (Inr (x, s')) \<Rightarrow> f x s')"

definition andthen :: "('s, 'a) prog \<Rightarrow> ('s, 'b) prog \<Rightarrow> ('s, 'b) prog" where
  "andthen m n = bnd m (\<lambda>_. n)"

definition fail :: "cm_error \<Rightarrow> ('s, 'a) prog" where
  "fail e = (\<lambda>s. Some (Inl e))"

definition waits :: "('s, 'a) prog" where
  "waits = (\<lambda>s. None)"

definition assert_that :: "bool \<Rightarrow> ('s, unit) prog" where
  "assert_that b = (if b then ret () else fail AssertFailed)"

definition gets :: "('s \<Rightarrow> 'a) \<Rightarrow> ('s, 'a) prog" where
  "gets f = (\<lambda>s. Some (Inr (f s, s)))"

definition modify :: "('s \<Rightarrow> 's) \<Rightarrow> ('s, unit) prog" where
  "modify f = (\<lambda>s. Some (Inr ((), f s)))"

definition whenever :: "bool \<Rightarrow> ('s, unit) prog \<Rightarrow> ('s, unit) prog" where
  "whenever b m = (if b then m else ret ())"

text \<open>A computation of the components below with its own error type, run as a program.\<close>

definition lift :: "('e \<Rightarrow> cm_error) \<Rightarrow> ('s \<Rightarrow> ('e + 'a \<times> 's) option) \<Rightarrow> ('s, 'a) prog" where
  "lift wrap m = (\<lambda>s. map_option (\<lambda>r. case r of Inl e \<Rightarrow> Inl (wrap e) | Inr x \<Rightarrow> Inr x) (m s))"

text \<open>
  Loops with a bound on the iterations: the body returns \<open>Inl\<close> with the values the next iteration
  starts from or \<open>Inr\<close> with the result.
\<close>

fun iterate :: "nat \<Rightarrow> ('x \<Rightarrow> ('s, 'x + 'a) prog) \<Rightarrow> 'x \<Rightarrow> ('s, 'a) prog" where
  "iterate 0 body x = waits"
| "iterate (Suc n) body x = bnd (body x) (\<lambda>r. case r of Inl x' \<Rightarrow> iterate n body x' | Inr a \<Rightarrow> ret a)"

section \<open>Runs\<close>

definition ok :: "('s, 'a) prog \<Rightarrow> 's \<Rightarrow> ('a \<Rightarrow> 's \<Rightarrow> bool) \<Rightarrow> bool" where
  "ok m s Q \<longleftrightarrow> (\<exists>x s'. m s = Some (Inr (x, s')) \<and> Q x s')"

definition safe :: "('s, 'a) prog \<Rightarrow> 's \<Rightarrow> ('a \<Rightarrow> 's \<Rightarrow> bool) \<Rightarrow> bool" where
  "safe m s Q \<longleftrightarrow> (\<forall>x s'. m s = Some (Inr (x, s')) \<longrightarrow> Q x s')"

named_theorems wp

lemma wp_ret [wp]: "ok (ret x) s Q = Q x s" "safe (ret x) s Q = Q x s"
  by (simp_all add: ok_def safe_def ret_def)

lemma wp_bnd [wp]:
  "ok (bnd m f) s Q = ok m s (\<lambda>x s'. ok (f x) s' Q)" "safe (bnd m f) s Q = safe m s (\<lambda>x s'. safe (f x) s' Q)"
  by (auto simp: ok_def safe_def bnd_def split: option.splits sum.splits)

lemma wp_andthen [wp]:
  "ok (andthen m n) s Q = ok m s (\<lambda>x s'. ok n s' Q)" "safe (andthen m n) s Q = safe m s (\<lambda>x s'. safe n s' Q)"
  by (simp_all add: andthen_def wp)

lemma wp_fail [wp]: "\<not> ok (fail e) s Q" "safe (fail e) s Q" "\<not> ok waits s Q" "safe waits s Q"
  by (simp_all add: ok_def safe_def fail_def waits_def)

lemma wp_assert [wp]: "ok (assert_that b) s Q \<longleftrightarrow> b \<and> Q () s" "safe (assert_that b) s Q \<longleftrightarrow> (b \<longrightarrow> Q () s)"
  by (simp_all add: assert_that_def wp)

lemma wp_gets [wp]: "ok (gets f) s Q = Q (f s) s" "safe (gets f) s Q = Q (f s) s"
  by (simp_all add: ok_def safe_def gets_def)

lemma wp_modify [wp]: "ok (modify f) s Q = Q () (f s)" "safe (modify f) s Q = Q () (f s)"
  by (simp_all add: ok_def safe_def modify_def)

lemma wp_whenever [wp]:
  "ok (whenever b m) s Q \<longleftrightarrow> (if b then ok m s Q else Q () s)"
  "safe (whenever b m) s Q \<longleftrightarrow> (if b then safe m s Q else Q () s)"
  by (simp_all add: whenever_def wp)

lemma wp_if [wp]:
  "ok (if b then m else n) s Q \<longleftrightarrow> (if b then ok m s Q else ok n s Q)"
  "safe (if b then m else n) s Q \<longleftrightarrow> (if b then safe m s Q else safe n s Q)"
  by simp_all

lemma wp_Let [wp]: "ok (Let x m) s Q = ok (m x) s Q" "safe (Let x m) s Q = safe (m x) s Q"
  by (simp_all add: Let_def)

lemma wp_split [wp]:
  "ok (case_prod f p) s Q = ok (f (fst p) (snd p)) s Q" "safe (case_prod f p) s Q = safe (f (fst p) (snd p)) s Q"
  by (simp_all add: case_prod_beta)

lemma lift_run: "lift wrap m s = Some (Inr y) \<longleftrightarrow> m s = Some (Inr y)"
  by (cases "m s") (auto simp: lift_def split: sum.splits)

lemma wp_lift [wp]:
  "ok (lift wrap m) s Q \<longleftrightarrow> (\<exists>x s'. m s = Some (Inr (x, s')) \<and> Q x s')"
  "safe (lift wrap m) s Q \<longleftrightarrow> (\<forall>x s'. m s = Some (Inr (x, s')) \<longrightarrow> Q x s')"
  by (simp_all add: ok_def safe_def lift_run)

lemma ok_mono: "ok m s Q \<Longrightarrow> (\<And>x s'. Q x s' \<Longrightarrow> R x s') \<Longrightarrow> ok m s R"
  by (auto simp: ok_def)

lemma safe_mono: "safe m s Q \<Longrightarrow> (\<And>x s'. Q x s' \<Longrightarrow> R x s') \<Longrightarrow> safe m s R"
  by (auto simp: safe_def)

lemma ok_safe: "ok m s Q \<Longrightarrow> safe m s Q"
  by (auto simp: ok_def safe_def)

lemma ok_conj_safe: "ok m s Q \<Longrightarrow> safe m s R \<Longrightarrow> ok m s (\<lambda>x s'. Q x s' \<and> R x s')"
  by (auto simp: ok_def safe_def)

lemma safeD: "safe m s Q \<Longrightarrow> m s = Some (Inr (x, s')) \<Longrightarrow> Q x s'"
  by (simp add: safe_def)

lemma safeI: "(\<And>x s'. m s = Some (Inr (x, s')) \<Longrightarrow> Q x s') \<Longrightarrow> safe m s Q"
  by (simp add: safe_def)

section \<open>Loops\<close>

lemma iterate_more: "iterate n body x s = Some r \<Longrightarrow> iterate (n + m) body x s = Some r"
proof (induction n arbitrary: x s)
  case 0
  then show ?case by (simp add: waits_def)
next
  case (Suc n)
  then show ?case
    by (auto simp: bnd_def ret_def split: option.splits sum.splits)
qed

lemma iterate_le: "iterate n body x s = Some r \<Longrightarrow> n \<le> m \<Longrightarrow> iterate m body x s = Some r"
  using iterate_more [of n body x s r "m - n"] by simp

lemma ok_iterate_le: "ok (iterate n body x) s Q \<Longrightarrow> n \<le> m \<Longrightarrow> ok (iterate m body x) s Q"
  unfolding ok_def by (elim exE conjE, drule (1) iterate_le, intro exI conjI)

lemma safe_iterate:
  assumes "\<And>x s. I x s \<Longrightarrow> safe (body x) s (\<lambda>r s'. case r of Inl x' \<Rightarrow> I x' s' | Inr a \<Rightarrow> Q a s')"
  shows "I x s \<Longrightarrow> safe (iterate n body x) s Q"
proof (induction n arbitrary: x s)
  case 0
  then show ?case by (simp add: wp)
next
  case (Suc n)
  show ?case unfolding iterate.simps wp_bnd
  proof (rule safe_mono [OF assms [OF Suc.prems]])
    fix r s' assume "case r of Inl x' \<Rightarrow> I x' s' | Inr a \<Rightarrow> Q a s'"
    then show "safe (case r of Inl x' \<Rightarrow> iterate n body x' | Inr a \<Rightarrow> ret a) s' Q"
      by (cases r) (simp_all add: Suc.IH wp_ret)
  qed
qed

text \<open>A loop whose body lowers a measure returns, and the measure bounds the iterations.\<close>

lemma ok_iterate:
  assumes "\<And>x s. I x s \<Longrightarrow> ok (body x) s (\<lambda>r s'. case r of Inl x' \<Rightarrow> I x' s' \<and> f x' s' < f x s | Inr a \<Rightarrow> Q a s')"
  shows "I x s \<Longrightarrow> f x s < n \<Longrightarrow> ok (iterate n body x) s Q"
proof (induction n arbitrary: x s)
  case 0
  then show ?case by simp
next
  case (Suc n)
  show ?case unfolding iterate.simps wp_bnd
  proof (rule ok_mono [OF assms [OF Suc.prems(1)]])
    fix r s' assume r: "case r of Inl x' \<Rightarrow> I x' s' \<and> f x' s' < f x s | Inr a \<Rightarrow> Q a s'"
    show "ok (case r of Inl x' \<Rightarrow> iterate n body x' | Inr a \<Rightarrow> ret a) s' Q"
    proof (cases r)
      case (Inl x')
      then have "I x' s'" "f x' s' < n" using r Suc.prems(2) by simp_all
      then show ?thesis using Suc.IH Inl by simp
    qed (use r in \<open>simp add: wp_ret\<close>)
  qed
qed

end
