(* ===== verification/Latency_Window.thy ===== *)
theory Latency_Window
  imports Dex_Prelude
begin

text \<open>
  \<open>dex/include/cache/latency_collector.h\<close>: two sliding windows over the latest latencies of caching
  a page and of pushing an operation down, and the decision between the two.  Latencies are counts
  of nanoseconds.
\<close>

section \<open>The collector\<close>

record LatencyCollector =
  pushdown_queue :: "int list"
  caching_queue :: "int list"
  total_num :: int
  pushdown_times :: u64
  caching_times :: u64
  sum_pushdown_ns :: int
  sum_caching_ns :: int

definition collector_new :: LatencyCollector where
  "collector_new = \<lparr>pushdown_queue = [], caching_queue = [], total_num = 50, pushdown_times = 0, caching_times = 0,
     sum_pushdown_ns = 0, sum_caching_ns = 0\<rparr>"

definition add_pushdown_latency :: "LatencyCollector \<Rightarrow> int \<Rightarrow> LatencyCollector" where
  "add_pushdown_latency c sample_latency =
     (let c1 = (if int (length (pushdown_queue c)) = total_num c then
                  c\<lparr>pushdown_queue := tl (pushdown_queue c), sum_pushdown_ns := sum_pushdown_ns c - hd (pushdown_queue c)\<rparr>
                else c)
      in c1\<lparr>pushdown_queue := pushdown_queue c1 @ [sample_latency], sum_pushdown_ns := sum_pushdown_ns c1 + sample_latency\<rparr>)"

definition add_caching_latency :: "LatencyCollector \<Rightarrow> int \<Rightarrow> LatencyCollector" where
  "add_caching_latency c sample_latency =
     (let c1 = (if int (length (caching_queue c)) = total_num c then
                  c\<lparr>caching_queue := tl (caching_queue c), sum_caching_ns := sum_caching_ns c - hd (caching_queue c)\<rparr>
                else c)
      in c1\<lparr>caching_queue := caching_queue c1 @ [sample_latency], sum_caching_ns := sum_caching_ns c1 + sample_latency\<rparr>)"

text \<open>\<open>count()\<close> is signed and \<open>size()\<close> unsigned, so the division is unsigned on 64 bits.\<close>

definition avg_latency :: "int \<Rightarrow> int list \<Rightarrow> int" where
  "avg_latency tot q = (if q = [] then 0 else sint (word_of_int tot div of_nat (length q) :: u64))"

definition avg_pushdown_latency :: "LatencyCollector \<Rightarrow> int" where
  "avg_pushdown_latency c = avg_latency (sum_pushdown_ns c) (pushdown_queue c)"

definition avg_caching_latency :: "LatencyCollector \<Rightarrow> int" where
  "avg_caching_latency c = avg_latency (sum_caching_ns c) (caching_queue c)"

definition collector_clear :: "LatencyCollector \<Rightarrow> LatencyCollector" where
  "collector_clear c = c\<lparr>caching_queue := [], pushdown_queue := [], caching_times := 0, pushdown_times := 0,
     sum_pushdown_ns := 0, sum_caching_ns := 0\<rparr>"

definition set_total_num :: "LatencyCollector \<Rightarrow> int \<Rightarrow> LatencyCollector" where
  "set_total_num c n = c\<lparr>total_num := n\<rparr>"

text \<open>
  \<open>caching_or_push\<close>: whether to push down and whether to sample the latency.  \<open>r1\<close> and \<open>r2\<close> are the
  two random numbers below 1000; \<open>cheaper p n c\<close> is the floating-point comparison
  \<open>p < n * (c + 40) * 1.2\<close>.
\<close>

definition caching_or_push ::
  "(int \<Rightarrow> int \<Rightarrow> int \<Rightarrow> bool) \<Rightarrow> nat \<Rightarrow> nat \<Rightarrow> LatencyCollector \<Rightarrow> int \<Rightarrow> bool \<Rightarrow> bool \<times> bool \<times> LatencyCollector" where
  "caching_or_push cheaper r1 r2 c missing_num sample =
     (if int (length (caching_queue c)) < total_num c then (False, True, c\<lparr>caching_times := caching_times c + 1\<rparr>)
      else if int (length (pushdown_queue c)) < total_num c then (True, True, c\<lparr>pushdown_times := pushdown_times c + 1\<rparr>)
      else
        (let sample1 = (if r1 < 10 then True else sample);
             ret1 = cheaper (avg_pushdown_latency c) missing_num (avg_caching_latency c);
             (ret2, sample2) = (if r2 < 10 then (\<not> ret1, True) else (ret1, sample1))
         in (ret2, sample2,
             if ret2 then c\<lparr>pushdown_times := pushdown_times c + 1\<rparr> else c\<lparr>caching_times := caching_times c + 1\<rparr>)))"

section \<open>The windows\<close>

definition collector_ok :: "LatencyCollector \<Rightarrow> bool" where
  "collector_ok c \<longleftrightarrow> 0 < total_num c \<and>
     sum_pushdown_ns c = sum_list (pushdown_queue c) \<and> int (length (pushdown_queue c)) \<le> total_num c \<and>
     sum_caching_ns c = sum_list (caching_queue c) \<and> int (length (caching_queue c)) \<le> total_num c"

definition window :: "nat \<Rightarrow> 'a list \<Rightarrow> 'a list" where
  "window n xs = drop (length xs - n) xs"

lemma window_snoc:
  assumes "length w = min n (length xs)" "w = window n xs" "0 < n"
  shows "(if length w = n then tl w else w) @ [x] = window n (xs @ [x])"
proof (cases "length w = n")
  case True
  then have "Suc (length xs - n) = Suc (length xs) - n" "length xs - n < length xs" using assms by auto
  then show ?thesis using True assms(2,3) by (simp add: window_def tl_drop drop_Suc flip: drop_Suc)
next
  case False
  then show ?thesis using assms by (auto simp: window_def)
qed

lemma add_pushdown_total [simp]: "total_num (add_pushdown_latency c x) = total_num c"
  by (simp add: add_pushdown_latency_def Let_def)

lemma add_pushdown_queue:
  "pushdown_queue (add_pushdown_latency c x) =
     (if int (length (pushdown_queue c)) = total_num c then tl (pushdown_queue c) else pushdown_queue c) @ [x]"
  by (simp add: add_pushdown_latency_def Let_def)

lemma add_pushdown_ok: "collector_ok c \<Longrightarrow> collector_ok (add_pushdown_latency c x)"
  by (cases "pushdown_queue c") (auto simp: collector_ok_def add_pushdown_latency_def Let_def)

lemma add_caching_ok: "collector_ok c \<Longrightarrow> collector_ok (add_caching_latency c x)"
  by (cases "caching_queue c") (auto simp: collector_ok_def add_caching_latency_def Let_def)

lemma caching_or_push_ok:
  "collector_ok c \<Longrightarrow> caching_or_push cheaper r1 r2 c n sample = (p, s, c') \<Longrightarrow> collector_ok c'"
  by (auto simp: caching_or_push_def collector_ok_def Let_def split: if_splits prod.splits)

lemma collector_new_ok: "collector_ok collector_new" "collector_ok c \<Longrightarrow> collector_ok (collector_clear c)"
  by (simp_all add: collector_ok_def collector_new_def collector_clear_def)

text \<open>
  The average a full collector compares is the floor of the true mean of its window.
\<close>

lemma avg_latency_mean:
  assumes "tot = sum_list q" "\<forall>x \<in> set q. 0 \<le> x" "tot < 2 ^ 63" "q \<noteq> []" "length q < 2 ^ 63"
  shows "avg_latency tot q = tot div int (length q)"
proof -
  have nn: "0 \<le> tot" using assms(1,2) by (simp add: sum_list_nonneg)
  have t: "uint (word_of_int tot :: u64) = tot" using nn assms(3) by (simp add: uint_word_of_int_eq take_bit_int_eq_self)
  have l: "uint (of_nat (length q) :: u64) = int (length q)" using assms(5) by (simp add: unsigned_of_nat take_bit_nat_eq_self)
  let ?w = "word_of_int tot div of_nat (length q) :: u64"
  have u: "uint ?w = tot div int (length q)" by (simp add: uint_div_distrib t l)
  have "1 \<le> int (length q)" using assms(4) by (cases q) auto
  then have "tot div int (length q) \<le> tot" using nn
    by (metis div_by_1 zdiv_mono2 zero_less_one)
  then have "uint ?w < 2 ^ 63" using u assms(3) by linarith
  then have "sint ?w = uint ?w" 
    by (simp only: sint_uint, intro signed_take_bit_int_eq_self) (auto intro: order_trans [OF _ unsigned_greater_eq])
  then show ?thesis using assms(4) u by (simp add: avg_latency_def)
qed

lemma pushdown_window:
  "total_num c = int n \<Longrightarrow> 0 < n \<Longrightarrow> pushdown_queue c = window n ys \<Longrightarrow>
   pushdown_queue (fold (\<lambda>x c. add_pushdown_latency c x) xs c) = window n (ys @ xs)"
proof (induction xs arbitrary: c ys)
  case (Cons x xs)
  have l: "length (pushdown_queue c) = min n (length ys)" using Cons.prems by (simp add: window_def)
  have "pushdown_queue (add_pushdown_latency c x) = window n (ys @ [x])"
    unfolding add_pushdown_queue using window_snoc [OF l Cons.prems(3) Cons.prems(2), of x] Cons.prems(1) by simp
  from Cons.IH [OF _ Cons.prems(2) this] Cons.prems(1) show ?case by simp
qed simp

lemma fold_pushdown_ok: "collector_ok c \<Longrightarrow> collector_ok (fold (\<lambda>x c. add_pushdown_latency c x) xs c)"
  by (induction xs arbitrary: c) (simp_all add: add_pushdown_ok)

lemma window_subset: "set (window n xs) \<subseteq> set xs"
  by (simp add: window_def set_drop_subset)

text \<open>
  After any samples the collector compares the floor of the mean of the latest fifty.
\<close>

theorem pushdown_average:
  assumes "\<forall>x \<in> set xs. 0 \<le> x" "xs \<noteq> []" "sum_list (window 50 xs) < 2 ^ 63"
  shows "avg_pushdown_latency (fold (\<lambda>x c. add_pushdown_latency c x) xs collector_new) =
    sum_list (window 50 xs) div int (length (window 50 xs))"
proof -
  let ?c = "fold (\<lambda>x c. add_pushdown_latency c x) xs collector_new"
  have q: "pushdown_queue ?c = window 50 xs"
    using pushdown_window [of collector_new 50 "[]" xs] by (simp add: collector_new_def window_def)
  have s: "sum_pushdown_ns ?c = sum_list (window 50 xs)"
    using fold_pushdown_ok [OF collector_new_ok(1), of xs] q by (simp add: collector_ok_def)
  have l: "0 < length xs" using assms(2) by simp
  then have "window 50 xs \<noteq> []" by (simp add: window_def not_le)
  moreover have "length (window 50 xs) < 2 ^ 63" by (simp add: window_def)
  ultimately show ?thesis unfolding avg_pushdown_latency_def q s
    by (intro avg_latency_mean refl) (use assms window_subset [of 50 xs] in auto)
qed

end
