(* ===== verification/Cache_Manager.thy ===== *)
theory Cache_Manager
  imports Cache_Monad Latency_Window
begin

text \<open>
  The page cache of a compute node, \<open>CacheManager\<close> of \<open>dex/include/cache/leanstore_cache.h\<close>, with the
  page pool of \<open>dex/util/cache_allocator.h\<close>.  The state holds the local pages, remote memory, the
  cooling table with the page table inside it, the pages the thread keeps for itself and the position
  of the allocator.  The programs are those of one thread; locks that are set in the start state
  belong to others.  The hash of the tables and the floating-point comparison of the latency
  collector are the parameters in \<open>cm_env\<close>, random numbers come from the stream \<open>rnd\<close>.
\<close>

section \<open>State\<close>

record cm_env =
  hash :: "u64 \<Rightarrow> u64"
  cheaper :: "int \<Rightarrow> int \<Rightarrow> int \<Rightarrow> bool"

record cache =
  cheap :: heap
  crm :: remote_mem
  hash_table :: cooling
  cstate :: nat
  local_page_set :: "ptr list"
  base_address :: u64
  page_num :: nat
  head_idx :: nat
  buffer_min_limit :: Key
  buffer_max_limit :: Key
  admission_idx :: nat
  decision :: LatencyCollector
  dirs :: directory
  send0 :: RawMessage
  msg0 :: RawMessage
  rnd :: "nat \<Rightarrow> nat"

abbreviation lock_word :: "page \<Rightarrow> u64" where
  "lock_word p \<equiv> typeVersionLockObsolete (page_hdr p)"

abbreviation ptable :: "('z cache_scheme) \<Rightarrow> page_table" where
  "ptable s \<equiv> ct_page_table (hash_table s)"

text \<open>
  A page of the pool after \<open>memset\<close>: every field is zero.  Its type byte is neither of the two page
  types; the code reads it only after a page has been copied over it, so the kind chosen here is
  never looked at.
\<close>

definition zero_page :: page where
  "zero_page = Leaf \<lparr>typeVersionLockObsolete = 0, front_version = 0, remote_address = 0, bitmap = 0, parent_ptr = 0,
     node_type = BTreeLeaf, count = 0, level = 0, pos_state = 0, obsolete = False, shared = False, is_smo = False,
     dirty = False, min_limit = 0, max_limit = 0, data = replicate leaf_maxEntries (0, 0), next_leaf = 0, leaf_back_version = 0\<rparr>"

fun set_obsolete :: "bool \<Rightarrow> page \<Rightarrow> page" where
  "set_obsolete b (Inner n) = Inner (n\<lparr>obsolete := b\<rparr>)" | "set_obsolete b (Leaf l) = Leaf (l\<lparr>obsolete := b\<rparr>)"

text \<open>The base address of page \<open>i\<close> of the pool.\<close>

definition pool_page :: "('z cache_scheme) \<Rightarrow> nat \<Rightarrow> ptr" where
  "pool_page s i = base_address s + of_nat (i * pageSize)"

section \<open>Access to local pages\<close>

definition load :: "ptr \<Rightarrow> ('z cache_scheme, page) prog" where
  "load a = (\<lambda>s. case cheap s a of None \<Rightarrow> Some (Inl BadAccess) | Some p \<Rightarrow> Some (Inr (p, s)))"

definition store :: "ptr \<Rightarrow> page \<Rightarrow> ('z cache_scheme, unit) prog" where
  "store a p = modify (\<lambda>s. s\<lparr>cheap := (cheap s)(a \<mapsto> p)\<rparr>)"

definition change :: "ptr \<Rightarrow> (page \<Rightarrow> page) \<Rightarrow> ('z cache_scheme, unit) prog" where
  "change a f = bnd (load a) (\<lambda>p. store a (f p))"

definition header :: "ptr \<Rightarrow> ('z cache_scheme, NodeBase) prog" where
  "header a = bnd (load a) (\<lambda>p. ret (page_hdr p))"

definition load_inner :: "ptr \<Rightarrow> ('z cache_scheme, BTreeInnerNode) prog" where
  "load_inner a = bnd (load a) (\<lambda>p. case p of Inner n \<Rightarrow> ret n | Leaf l \<Rightarrow> fail BadAccess)"

definition load_leaf :: "ptr \<Rightarrow> ('z cache_scheme, BTreeLeafNode) prog" where
  "load_leaf a = bnd (load a) (\<lambda>p. case p of Leaf l \<Rightarrow> ret l | Inner n \<Rightarrow> fail BadAccess)"

text \<open>The lock operations of \<open>OptLock\<close> on the word of a local page.\<close>

definition page_writeLock :: "ptr \<Rightarrow> bool \<Rightarrow> ('z cache_scheme, bool) prog" where
  "page_writeLock a needRestart =
     bnd (load a) (\<lambda>p. let (r, w) = writeLockOrRestart (lock_word p) needRestart (lock_word p) in
       andthen (store a (set_lock_word w p)) (ret r))"

definition page_writeUnlock :: "ptr \<Rightarrow> ('z cache_scheme, unit) prog" where
  "page_writeUnlock a = change a (\<lambda>p. set_lock_word (writeUnlock (lock_word p)) p)"

definition page_readLock :: "ptr \<Rightarrow> bool \<Rightarrow> ('z cache_scheme, u64 \<times> bool) prog" where
  "page_readLock a needRestart = bnd (load a) (\<lambda>p. ret (readLockOrRestart (lock_word p) needRestart))"

definition page_readUnlock :: "ptr \<Rightarrow> u64 \<Rightarrow> bool \<Rightarrow> ('z cache_scheme, bool) prog" where
  "page_readUnlock a version needRestart = bnd (load a) (\<lambda>p. ret (if readUnlockOrRestart version (lock_word p) then True else needRestart))"

definition page_upgrade :: "ptr \<Rightarrow> u64 \<Rightarrow> bool \<Rightarrow> ('z cache_scheme, u64 \<times> bool) prog" where
  "page_upgrade a version needRestart =
     bnd (load a) (\<lambda>p. let (v, r, w) = upgradeToWriteLockOrRestart version needRestart (lock_word p) in
       andthen (store a (set_lock_word w p)) (ret (v, r)))"

definition page_io_upgrade :: "ptr \<Rightarrow> u64 \<Rightarrow> bool \<Rightarrow> ('z cache_scheme, u64 \<times> bool) prog" where
  "page_io_upgrade a version needRestart =
     bnd (load a) (\<lambda>p. let (v, r, w) = upgradeToIOLockOrRestart version needRestart (lock_word p) in
       andthen (store a (set_lock_word w p)) (ret (v, r)))"

definition page_IOUnlock :: "ptr \<Rightarrow> ('z cache_scheme, unit) prog" where
  "page_IOUnlock a = change a (\<lambda>p. set_lock_word (IOUnlock (lock_word p)) p)"

definition assert_locked :: "ptr \<Rightarrow> ('z cache_scheme, unit) prog" where
  "assert_locked a = bnd (load a) (\<lambda>p. assert_that (isLocked (lock_word p)))"

section \<open>Remote memory\<close>

definition raw_remote_read :: "GlobalAddress \<Rightarrow> ('z cache_scheme, page) prog" where
  "raw_remote_read g = (\<lambda>s. case crm s g of None \<Rightarrow> Some (Inl BadAccess) | Some p \<Rightarrow> Some (Inr (p, s)))"

text \<open>\<open>opt_remote_read\<close> with no writer between its three reads.\<close>

definition opt_read :: "GlobalAddress \<Rightarrow> ('z cache_scheme, page option) prog" where
  "opt_read g = bnd (raw_remote_read g) (\<lambda>p. lift WrError (\<lambda>s. Some (case opt_remote_read p p p of Inl e \<Rightarrow> Inl e | Inr x \<Rightarrow> Inr (x, s))))"

definition write_back :: "GlobalAddress \<Rightarrow> ptr \<Rightarrow> bool \<Rightarrow> ('z cache_scheme, unit) prog" where
  "write_back g a clear_lock = lift WrError (\<lambda>s. Some (case remote_write (cheap s) (crm s) g a clear_lock of
      Inl e \<Rightarrow> Inl e
    | Inr (h, rm) \<Rightarrow> Inr ((), s\<lparr>cheap := h, crm := rm\<rparr>)))"

text \<open>\<open>remote_write\<close> of a page that is in an RDMA buffer.\<close>

definition write_buffer :: "GlobalAddress \<Rightarrow> page \<Rightarrow> bool \<Rightarrow> ('z cache_scheme, unit) prog" where
  "write_buffer g p clear_lock =
     (let flushed_page = flush_copy clear_lock p in
      if \<not> addr_eq (remote_address (page_hdr flushed_page)) g then fail (WrError WrongRemoteAddr)
      else modify (\<lambda>s. s\<lparr>crm := (crm s)(g \<mapsto> flushed_page)\<rparr>))"

section \<open>The tables\<close>

definition set_ptable :: "page_table \<Rightarrow> ('z cache_scheme) \<Rightarrow> ('z cache_scheme)" where
  "set_ptable t s = s\<lparr>hash_table := (hash_table s)\<lparr>ct_page_table := t\<rparr>\<rparr>"

definition pt_op :: "(page_table \<Rightarrow> ('r \<times> page_table) option) \<Rightarrow> ('z cache_scheme, 'r) prog" where
  "pt_op f = (\<lambda>s. case f (ptable s) of None \<Rightarrow> None | Some (r, t) \<Rightarrow> Some (Inr (r, set_ptable t s)))"

definition pt_result :: "(page_table \<Rightarrow> ((pt_error + 'r) \<times> page_table) option) \<Rightarrow> ('z cache_scheme, 'r) prog" where
  "pt_result f = bnd (pt_op f) (\<lambda>x. case x of Inl e \<Rightarrow> fail (PtError e) | Inr r \<Rightarrow> ret r)"

text \<open>The address a page's header carries, as the page table reads it.\<close>

definition remote_of :: "('z cache_scheme) \<Rightarrow> ptr \<Rightarrow> GlobalAddress" where
  "remote_of s v = (case cheap s v of Some p \<Rightarrow> remote_address (page_hdr p) | None \<Rightarrow> 0)"

definition remove_io_flag :: "cm_env \<Rightarrow> GlobalAddress \<Rightarrow> ('z cache_scheme, unit) prog" where
  "remove_io_flag e g = bnd (pt_op (\<lambda>t. remove_with_lock (hash e) t g IO_FLAG)) assert_that"

text \<open>Work on the chain of one bucket whose lock the caller handles itself.\<close>

definition on_bucket :: "cm_env \<Rightarrow> GlobalAddress \<Rightarrow> (chain \<Rightarrow> 'r \<times> chain) \<Rightarrow> ('z cache_scheme, 'r) prog" where
  "on_bucket e g f = pt_op (\<lambda>t.
     (let i = get_bucket_idx (hash e) t g; (r, c) = f (pt_table t ! i) in Some (r, t\<lparr>pt_table := (pt_table t)[i := c]\<rparr>)))"

definition set_bucket_lock :: "u32 \<Rightarrow> chain \<Rightarrow> chain" where
  "set_bucket_lock w c = (hd c)\<lparr>pb_lock := w\<rparr> # tl c"

definition bucket_try_get_lock :: "cm_env \<Rightarrow> GlobalAddress \<Rightarrow> ('z cache_scheme, bool) prog" where
  "bucket_try_get_lock e g = on_bucket e g (\<lambda>c.
     let w = pb_lock (hd c); (b, w') = Lock32_try_get_lock w w in (b, set_bucket_lock w' c))"

definition bucket_get_lock :: "cm_env \<Rightarrow> GlobalAddress \<Rightarrow> ('z cache_scheme, unit) prog" where
  "bucket_get_lock e g = bnd (on_bucket e g (\<lambda>c. (Lock32_test_lock_set (pb_lock (hd c)), c))) (\<lambda>b.
     if b then waits else on_bucket e g (\<lambda>c. ((), set_bucket_lock (Lock32_get_lock (pb_lock (hd c))) c)))"

definition bucket_release_lock :: "cm_env \<Rightarrow> GlobalAddress \<Rightarrow> ('z cache_scheme, unit) prog" where
  "bucket_release_lock e g = on_bucket e g (\<lambda>c. ((), set_bucket_lock (Lock32_release_lock (pb_lock (hd c))) c))"

definition cool_insert :: "cm_env \<Rightarrow> u64 \<Rightarrow> ptr \<Rightarrow> ('z cache_scheme, ptr) prog" where
  "cool_insert e key v = lift CoolError (\<lambda>s. map_option (\<lambda>r. case r of
      Inl er \<Rightarrow> Inl er
    | Inr (evict_page, h, rm, t) \<Rightarrow> Inr (evict_page, s\<lparr>cheap := h, crm := rm, hash_table := t\<rparr>))
    (cooling_insert (hash e) (cheap s) (crm s) (hash_table s) key v nullptr))"

text \<open>A draw of \<open>uniform_int_distribution(0, n - 1)\<close>.\<close>

definition draw :: "nat \<Rightarrow> ('z cache_scheme, nat) prog" where
  "draw n = (\<lambda>s. Some (Inr (rnd s 0 mod n, s\<lparr>rnd := \<lambda>i. rnd s (Suc i)\<rparr>)))"

definition random_evict :: "cm_env \<Rightarrow> nat \<Rightarrow> ('z cache_scheme, int \<times> ptr) prog" where
  "random_evict e probing_length =
     bnd (gets (\<lambda>s. length (ct_buckets (hash_table s)))) (\<lambda>n. bnd (draw n) (\<lambda>idx.
       lift CoolError (\<lambda>s. map_option (\<lambda>r. case r of
           Inl er \<Rightarrow> Inl er
         | Inr (success, page, t) \<Rightarrow> Inr ((success, page), s\<lparr>hash_table := t\<rparr>))
         (random_evict_to_remote (hash e) (cheap s) (hash_table s) nullptr idx probing_length))))"

section \<open>The page pool\<close>

definition pool_allocate :: "('z cache_scheme, ptr \<times> bool) prog" where
  "pool_allocate = (\<lambda>s.
     if head_idx s \<ge> page_num s then Some (Inr ((nullptr, False), s))
     else Some (Inr ((pool_page s (head_idx s), head_idx s = page_num s - 1), s\<lparr>head_idx := head_idx s + 1\<rparr>)))"

definition random_select :: "('z cache_scheme, ptr) prog" where
  "random_select = bnd (gets page_num) (\<lambda>n. bnd (draw n) (\<lambda>idx. \<lambda>s.
     if idx > head_idx s \<or> idx \<ge> page_num s then
       (if min (head_idx s) (page_num s) = 0 then Some (Inl DivByZero)
        else Some (Inr (pool_page s (idx mod min (head_idx s) (page_num s)), s)))
     else Some (Inr (pool_page s idx, s))))"

definition pool_reset :: "('z cache_scheme) \<Rightarrow> ('z cache_scheme)" where
  "pool_reset s = s\<lparr>head_idx := 0, cheap := fold (\<lambda>i h. h(pool_page s i \<mapsto> zero_page)) [0..<page_num s] (cheap s)\<rparr>"

section \<open>Sampling: hot pages become cooling pages\<close>

definition search_in_cache :: "GlobalAddress \<Rightarrow> ptr" where
  "search_in_cache node = (if node AND swizzle_tag \<noteq> 0 then node AND swizzle_hide else nullptr)"

definition is_in_cache :: "GlobalAddress \<Rightarrow> bool" where
  "is_in_cache node \<longleftrightarrow> node AND swizzle_tag \<noteq> 0"

definition insert_local_set :: "ptr \<Rightarrow> ('z cache_scheme, unit) prog" where
  "insert_local_set addr =
     andthen (assert_locked addr)
     (andthen (change addr (set_pos_state 3))
      (modify (\<lambda>s. s\<lparr>local_page_set := local_page_set s @ [addr]\<rparr>)))"

definition get_local_page_set :: "('z cache_scheme, ptr) prog" where
  "get_local_page_set = (\<lambda>s.
     if local_page_set s = [] then Some (Inr (nullptr, s))
     else Some (Inr (last (local_page_set s), s\<lparr>local_page_set := butlast (local_page_set s)\<rparr>)))"

text \<open>The common end of both branches of \<open>sample_page\<close>: write a dirty page back and hand it to the cooling table.\<close>

definition cool_page :: "cm_env \<Rightarrow> ptr \<Rightarrow> ('z cache_scheme, unit) prog" where
  "cool_page e cur_page =
     bnd (header cur_page) (\<lambda>c.
     andthen (whenever (dirty c) (write_back (remote_address c) cur_page True))
     (bnd (cool_insert e (remote_address c) cur_page) (\<lambda>evict_page.
      whenever (evict_page \<noteq> nullptr) (insert_local_set evict_page))))"

text \<open>The branch for a page with a parent: \<open>True\<close> when the page has been cooled.\<close>

definition sample_child :: "cm_env \<Rightarrow> ptr \<Rightarrow> ptr \<Rightarrow> int \<Rightarrow> ('z cache_scheme, bool) prog" where
  "sample_child e cur_page parent idx_in_parent =
     bnd (header cur_page) (\<lambda>c0.
     andthen (assert_that (pos_state c0 = 2))
     (bnd (page_writeLock parent False) (\<lambda>needRestart.
      if needRestart then andthen (page_writeUnlock cur_page) (ret False)
      else
        bnd (header cur_page) (\<lambda>c.
        if parent_ptr c \<noteq> parent then andthen (page_writeUnlock parent) (andthen (page_writeUnlock cur_page) (ret False))
        else
          bnd (load_inner parent) (\<lambda>pn.
          let idx = (if idx_in_parent = - 1 then findIdx pn (cur_page OR swizzle_tag) else idx_in_parent) in
          if idx = - 1 then fail Stuck
          else
            andthen (assert_that (check_parent_child_info pn cur_page c))
            (andthen (store parent (Inner (unset_bitmap (pn\<lparr>children := (children pn)[nat idx := remote_address c]\<rparr>) (nat idx))))
            (andthen (change cur_page (set_parent_ptr nullptr))
            (andthen (cool_page e cur_page)
            (andthen (page_writeUnlock parent) (ret True))))))))))"

definition sample_once :: "cm_env \<Rightarrow> ('z cache_scheme, bool) prog" where
  "sample_once e =
     bnd random_select (\<lambda>page.
     bnd (header page) (\<lambda>p.
     if pos_state p \<noteq> 2 then ret False
     else
       bnd (lift WrError (\<lambda>s. map_option (\<lambda>r. case r of
           Inl er \<Rightarrow> Inl er | Inr (cur, idx, h) \<Rightarrow> Inr ((cur, idx), s\<lparr>cheap := h\<rparr>)) (recursive_iterate (cheap s) page (- 1))))
       (\<lambda>(cur, idx_in_parent). case cur of
          None \<Rightarrow> ret False
        | Some cur_page \<Rightarrow>
            bnd (header cur_page) (\<lambda>c.
            let parent = parent_ptr c in
            if parent = nullptr then andthen (cool_page e cur_page) (ret True)
            else bnd (header parent) (\<lambda>ph.
              if level ph \<noteq> 255 then sample_child e cur_page parent idx_in_parent
              else andthen (page_writeUnlock cur_page) (ret False))))))"

definition sample_page :: "cm_env \<Rightarrow> ('z cache_scheme, unit) prog" where
  "sample_page e = iterate 1000 (\<lambda>counter.
     if counter + 1 \<ge> (1000 :: nat) then fail Exited
     else bnd (sample_once e) (\<lambda>fin. ret (if fin then Inr () else Inl (counter + 1)))) 0"

fun sample_multiple_pages :: "cm_env \<Rightarrow> nat \<Rightarrow> ('z cache_scheme, unit) prog" where
  "sample_multiple_pages e 0 = ret ()"
| "sample_multiple_pages e (Suc n) = andthen (sample_page e) (sample_multiple_pages e n)"

section \<open>Empty pages\<close>

definition probing_length :: nat where "probing_length = 8"

definition num_pages_to_sample :: nat where "num_pages_to_sample = 2"

text \<open>In the warm-up phase a thread that finds the pool empty waits for the thread that took the last page.\<close>

definition try_get_empty_page :: "cm_env \<Rightarrow> ('z cache_scheme, ptr) prog" where
  "try_get_empty_page e =
     bnd (bnd (gets cstate) (\<lambda>st.
       if st = 1 then
         bnd (gets local_page_set) (\<lambda>ls.
         if ls \<noteq> [] then get_local_page_set
         else
           bnd (random_evict e probing_length) (\<lambda>(r, page).
           andthen (whenever (r = - 1) (sample_multiple_pages e num_pages_to_sample))
           (bnd (gets local_page_set) (\<lambda>ls2.
            if page = nullptr \<and> ls2 \<noteq> [] then
              bnd get_local_page_set (\<lambda>pg. andthen (assert_that (pg \<noteq> nullptr)) (ret pg))
            else ret page))))
       else
         bnd pool_allocate (\<lambda>(page, last_page_flag).
         andthen (whenever last_page_flag (modify (\<lambda>s. s\<lparr>cstate := 1\<rparr>)))
         (if page \<noteq> nullptr then andthen (change page (\<lambda>p. set_lock_word (setLockState (lock_word p)) p)) (ret page)
          else waits))))
     (\<lambda>page. andthen (whenever (page \<noteq> nullptr) (assert_locked page)) (ret page))"

partial_function (option) get_empty_page :: "cm_env \<Rightarrow> ('z cache_scheme, ptr) prog" where
  "get_empty_page e s =
     (case try_get_empty_page e s of
        None \<Rightarrow> None
      | Some (Inl er) \<Rightarrow> Some (Inl er)
      | Some (Inr (page, s')) \<Rightarrow> if page \<noteq> nullptr then Some (Inr (page, s')) else get_empty_page e s')"

declare get_empty_page.simps [code]

text \<open>\<open>cache_insert\<close>: the page, and what the reference \<open>global_node\<close> holds after the call.\<close>

definition cache_insert :: "cm_env \<Rightarrow> GlobalAddress \<Rightarrow> page \<Rightarrow> ptr \<Rightarrow> bool \<Rightarrow> ('z cache_scheme, ptr \<times> GlobalAddress) prog" where
  "cache_insert e global_node cache_node parent add_to_pt =
     bnd (get_empty_page e) (\<lambda>page.
     bnd (load page) (\<lambda>old.
     andthen (store page (set_parent_ptr parent (set_pos_state 4 (set_lock_word (lock_word old) cache_node))))
     (andthen (assert_locked page)
     (andthen (whenever add_to_pt (bnd (gets remote_of) (\<lambda>ro.
        bnd (pt_result (\<lambda>t. upsert_with_lock (hash e) ro t global_node page)) (\<lambda>_. ret ()))))
      (ret (page, page OR swizzle_tag))))))"

definition opportunistic_sample :: "cm_env \<Rightarrow> ('z cache_scheme, unit) prog" where
  "opportunistic_sample e = bnd (gets (\<lambda>s. cstate s = 1 \<and> local_page_set s = [])) (\<lambda>b.
     whenever b (sample_multiple_pages e num_pages_to_sample))"

definition fill_local_page_set :: "cm_env \<Rightarrow> ('z cache_scheme, unit) prog" where
  "fill_local_page_set e = bnd (gets local_page_set) (\<lambda>ls.
     whenever (ls = []) (bnd (get_empty_page e) insert_local_set))"

section \<open>Loading a page: cold to hot\<close>

definition fit_limits :: "('z cache_scheme) \<Rightarrow> NodeBase \<Rightarrow> bool" where
  "fit_limits s cur_node \<longleftrightarrow> \<not> (min_limit cur_node \<ge> buffer_max_limit s \<or> max_limit cur_node < buffer_min_limit s)"

definition sync_or_not :: "('z cache_scheme) \<Rightarrow> BTreeInnerNode \<Rightarrow> nat \<Rightarrow> bool" where
  "sync_or_not s inner idx \<longleftrightarrow>
     (if level inner = 255 then True
      else
        (let min_l = (if idx = 0 then min_limit inner else keys inner ! (idx - 1));
             max_l = (if idx = unat (count inner) then max_limit inner else keys inner ! idx)
         in \<not> (min_l \<ge> buffer_min_limit s \<and> max_l < buffer_max_limit s)))"

text \<open>\<open>memcpy\<close> of everything behind the eight bytes of the lock word.\<close>

definition copy_page :: "ptr \<Rightarrow> page \<Rightarrow> ('z cache_scheme, unit) prog" where
  "copy_page a q = change a (\<lambda>p. set_lock_word (lock_word p) q)"

definition remote_to_cache :: "ptr \<Rightarrow> GlobalAddress \<Rightarrow> bool \<Rightarrow> ('z cache_scheme, bool) prog" where
  "remote_to_cache cache_page global_node sync_read =
     bnd (if sync_read then opt_read global_node else bnd (raw_remote_read global_node) (\<lambda>p. ret (Some p)))
     (\<lambda>buffer. case buffer of
        None \<Rightarrow> ret False
      | Some p \<Rightarrow> andthen (copy_page cache_page p) (ret True))"

definition buffer_to_cache :: "ptr \<Rightarrow> page \<Rightarrow> ('z cache_scheme, unit) prog" where
  "buffer_to_cache cache_page cur_node =
     andthen (copy_page cache_page cur_node)
     (andthen (assert_locked cache_page)
      (bnd (header cache_page) (\<lambda>c. assert_that (pos_state c \<noteq> 2))))"

text \<open>\<open>simple_cold_to_hot\<close>: the code's result, the page it stores through \<open>ret_page\<close>, and \<open>refresh\<close>.\<close>

definition simple_cold_to_hot ::
  "cm_env \<Rightarrow> GlobalAddress \<Rightarrow> ptr \<Rightarrow> nat \<Rightarrow> bool \<Rightarrow> bool \<Rightarrow> ('z cache_scheme, int \<times> ptr \<times> bool) prog" where
  "simple_cold_to_hot e node parent child_idx refresh sync_read =
     bnd (try_get_empty_page e) (\<lambda>page.
     if page = nullptr then ret (- 1, nullptr, refresh)
     else
       bnd (header page) (\<lambda>h0.
       andthen (assert_that (pos_state h0 \<noteq> 2))
       (bnd (remote_to_cache page node sync_read) (\<lambda>IO_success.
        bnd (load_inner parent) (\<lambda>pn.
        andthen (assert_that (level pn \<noteq> 255))
        (bnd (load page) (\<lambda>p.
         let c = page_hdr p in
         bnd (gets (\<lambda>s. fit_limits s c)) (\<lambda>fits.
         if \<not> IO_success \<or> \<not> fits \<or> \<not> new_check_limit_match pn c child_idx then
           andthen (insert_local_set page) (ret (- 1, nullptr, True))
         else if \<not> addr_eq (remote_address c) node then fail Stuck
         else
           andthen (assert_that (pos_state c = 0))
           (andthen (assert_that (isLocked (lock_word p)))
           (andthen (assert_that (parent_ptr c = nullptr))
            (ret (0, page, refresh))))))))))))"

definition cold_to_hot ::
  "cm_env \<Rightarrow> GlobalAddress \<Rightarrow> ptr \<Rightarrow> nat \<Rightarrow> bool \<Rightarrow> ('z cache_scheme, int \<times> ptr \<times> bool) prog" where
  "cold_to_hot e global_node parent child_idx refresh =
     bnd (load_inner parent) (\<lambda>pn.
     bnd (gets (\<lambda>s. sync_or_not s pn child_idx)) (\<lambda>sync_read.
     bnd (simple_cold_to_hot e global_node parent child_idx refresh sync_read) (\<lambda>(r, page, refresh').
     andthen
       (if r = 0 then
          bnd (gets remote_of) (\<lambda>ro.
          bnd (pt_result (\<lambda>t. update_with_lock (hash e) ro t global_node page nullptr)) (\<lambda>(flag, old_flag).
          andthen (assert_that flag) (assert_that (old_flag = IO_FLAG))))
        else remove_io_flag e global_node)
       (ret (r, page, refresh')))))"

section \<open>Admission control and pushdown\<close>

datatype RPC_type = RLookup | RUpdate | RInsert | RDelete

text \<open>
  The one-sided operation on a leaf that is not admitted to the cache: the result, \<open>result\<close> and
  \<open>success\<close> as the call leaves them.
\<close>

definition one_sided ::
  "GlobalAddress \<Rightarrow> Key \<Rightarrow> Value \<Rightarrow> bool \<Rightarrow> RPC_type \<Rightarrow> ('z cache_scheme, int \<times> Value \<times> bool) prog" where
  "one_sided global_node k result success rpc_type =
     bnd (raw_remote_read global_node) (\<lambda>buffer. case buffer of
       Inner n \<Rightarrow> fail BadAccess
     | Leaf cur_leaf \<Rightarrow>
         (case rpc_type of
            RLookup \<Rightarrow>
              (if \<not> rangeValid cur_leaf k then ret (- 1, result, success)
               else case leaf_find cur_leaf k of
                      Some v \<Rightarrow> ret (1, v, True)
                    | None \<Rightarrow> ret (1, result, False))
          | RUpdate \<Rightarrow>
              (if \<not> rangeValid cur_leaf k then ret (- 1, result, success)
               else let (b, l') = leaf_update cur_leaf k result in
                 andthen (whenever b (write_buffer global_node (Leaf l') True)) (ret (1, result, b)))
          | RInsert \<Rightarrow>
              (if \<not> rangeValid cur_leaf k \<or> leaf_isFull cur_leaf then ret (- 1, result, success)
               else let (b, l') = leaf_insert cur_leaf k result in
                 andthen (write_buffer global_node (Leaf l') True) (ret (1, result, b)))
          | RDelete \<Rightarrow>
              (if \<not> rangeValid cur_leaf k then ret (- 1, result, success)
               else let (b, l') = leaf_remove cur_leaf k in
                 andthen (whenever b (write_buffer global_node (Leaf l') True)) (ret (1, result, b)))))"

text \<open>
  The results are the code's result, \<open>ret_page\<close> (null unless the page was loaded), \<open>refresh\<close>, \<open>result\<close>
  and \<open>success\<close>.
\<close>

definition cold_to_hot_with_admission ::
  "cm_env \<Rightarrow> GlobalAddress \<Rightarrow> ptr \<Rightarrow> nat \<Rightarrow> bool \<Rightarrow> Key \<Rightarrow> Value \<Rightarrow> bool \<Rightarrow> RPC_type \<Rightarrow>
   ('z cache_scheme, int \<times> ptr \<times> bool \<times> Value \<times> bool) prog" where
  "cold_to_hot_with_admission e global_node parent child_idx refresh k result success rpc_type =
     bnd (draw 10000) (\<lambda>idx.
     bnd (gets (\<lambda>s. cstate s = 1 \<and> idx \<ge> admission_idx s)) (\<lambda>bypass.
     if bypass then
       bnd (one_sided global_node k result success rpc_type) (\<lambda>(r, result', success').
       andthen (remove_io_flag e global_node) (ret (r, nullptr, refresh, result', success')))
     else
       bnd (cold_to_hot e global_node parent child_idx refresh) (\<lambda>(r, page, refresh').
       ret (r, page, refresh', result, success))))"

text \<open>For a scan: the pairs copied into \<open>kv_buffer\<close>, \<open>scan_num\<close> and \<open>max_key\<close>.\<close>

definition cold_to_hot_with_admission_for_scan ::
  "cm_env \<Rightarrow> GlobalAddress \<Rightarrow> ptr \<Rightarrow> nat \<Rightarrow> bool \<Rightarrow> Key \<Rightarrow> nat \<Rightarrow> Key \<Rightarrow>
   ('z cache_scheme, int \<times> ptr \<times> bool \<times> (Key \<times> Value) list \<times> nat \<times> Key) prog" where
  "cold_to_hot_with_admission_for_scan e global_node parent child_idx refresh k scan_num max_key =
     bnd (draw 10000) (\<lambda>idx.
     bnd (gets (\<lambda>s. idx \<ge> admission_idx s)) (\<lambda>bypass.
     if bypass then
       bnd (raw_remote_read global_node) (\<lambda>buffer. case buffer of
         Inner n \<Rightarrow> fail BadAccess
       | Leaf cur_leaf \<Rightarrow>
           andthen (remove_io_flag e global_node)
           (if \<not> rangeValid cur_leaf k then ret (- 1, nullptr, refresh, [], scan_num, max_key)
            else let kvs = leaf_range_scan cur_leaf k scan_num
              in ret (1, nullptr, refresh, kvs, length kvs, max_limit cur_leaf)))
     else
       bnd (cold_to_hot e global_node parent child_idx refresh) (\<lambda>(r, page, refresh').
       ret (r, page, refresh', [], scan_num, max_key))))"

text \<open>The directories behind the RPCs work on the same remote memory, one pool per node.\<close>

definition rpc_view :: "('z cache_scheme) \<Rightarrow> directory" where
  "rpc_view s = (dirs s)\<lparr>pools := \<lambda>n off. crm s (mk_GlobalAddress n off)\<rparr>"

definition rpc_back :: "directory \<Rightarrow> ('z cache_scheme) \<Rightarrow> ('z cache_scheme)" where
  "rpc_back d s = s\<lparr>dirs := d, crm := \<lambda>g. pools d (nodeID g) (offset g)\<rparr>"

definition call_rpc ::
  "GlobalAddress \<Rightarrow> Key \<Rightarrow> Value \<Rightarrow> RPC_type \<Rightarrow> ('z cache_scheme, int \<times> Value \<times> GlobalAddress) prog" where
  "call_rpc global_node k result rpc_type =
     lift DirError (\<lambda>s.
       let d = rpc_view s;
           written = (\<lambda>r. map_option (\<lambda>x. case x of
             Inl er \<Rightarrow> Inl er | Inr (i, leaf_addr, d') \<Rightarrow> Inr ((i, result, leaf_addr), rpc_back d' s)) r)
       in case rpc_type of
            RLookup \<Rightarrow> map_option (\<lambda>x. case x of
                Inl er \<Rightarrow> Inl er | Inr (i, v, d') \<Rightarrow> Inr ((i, v, Null), rpc_back d' s))
              (rpc_lookup d (send0 s) (msg0 s) global_node k result)
          | RUpdate \<Rightarrow> written (rpc_update d (send0 s) (msg0 s) global_node k result)
          | RInsert \<Rightarrow> written (rpc_insert d (send0 s) (msg0 s) global_node k result)
          | RDelete \<Rightarrow> written (rpc_remove d (send0 s) (msg0 s) global_node k))"

definition invalidate :: "cm_env \<Rightarrow> GlobalAddress \<Rightarrow> ('z cache_scheme, unit) prog" where
  "invalidate e leaf_addr = bnd (pt_op (\<lambda>t. check_and_remove (hash e) t leaf_addr)) (\<lambda>_. ret ())"

text \<open>A measured latency, the difference of two clock readings, is one more number of \<open>rnd\<close>.\<close>

definition add_sample :: "(LatencyCollector \<Rightarrow> int \<Rightarrow> LatencyCollector) \<Rightarrow> bool \<Rightarrow> ('z cache_scheme, unit) prog" where
  "add_sample add sample = whenever sample (\<lambda>s. Some (Inr ((), s\<lparr>decision := add (decision s) (int (rnd s 0)), rnd := \<lambda>i. rnd s (Suc i)\<rparr>)))"

definition decide :: "cm_env \<Rightarrow> int \<Rightarrow> ('z cache_scheme, bool \<times> bool) prog" where
  "decide e missing_num =
     bnd (draw 1000) (\<lambda>r1. bnd (draw 1000) (\<lambda>r2. \<lambda>s.
       let (flag, sample, c) = caching_or_push (cheaper e) r1 r2 (decision s) missing_num False
       in Some (Inr ((flag, sample), s\<lparr>decision := c\<rparr>))))"

definition cold_to_hot_with_rpc ::
  "cm_env \<Rightarrow> GlobalAddress \<Rightarrow> ptr \<Rightarrow> nat \<Rightarrow> bool \<Rightarrow> Key \<Rightarrow> Value \<Rightarrow> bool \<Rightarrow> RPC_type \<Rightarrow>
   ('z cache_scheme, int \<times> ptr \<times> bool \<times> Value \<times> bool) prog" where
  "cold_to_hot_with_rpc e global_node parent child_idx refresh k result success rpc_type =
     bnd (header parent) (\<lambda>ph.
     bnd (decide e (int (unat (level ph)))) (\<lambda>(flag, sample).
     bnd (gets (\<lambda>s. cstate s = 1 \<and> flag)) (\<lambda>push.
     if push then
       bnd (call_rpc global_node k result rpc_type) (\<lambda>(r, result', leaf_addr).
       bnd (if r \<le> 0 then andthen (assert_that (rpc_type = RInsert)) (ret (- 1, success))
            else if r = 1 then andthen (invalidate e leaf_addr) (ret (1, True))
            else if r = 2 then andthen (whenever (rpc_type = RInsert) (invalidate e leaf_addr)) (ret (1, False))
            else ret (1, success)) (\<lambda>(ret_flag, success').
       andthen (remove_io_flag e global_node)
       (andthen (add_sample add_pushdown_latency sample)
        (ret (ret_flag, nullptr, refresh, result', success')))))
     else
       bnd (cold_to_hot e global_node parent child_idx refresh) (\<lambda>(r, page, refresh').
       andthen (add_sample add_caching_latency (sample \<and> r = 0))
       (ret (r, page, refresh', result, success))))))"

section \<open>Taking a cached page\<close>

definition unswizzling :: "ptr \<Rightarrow> nat \<Rightarrow> ptr \<Rightarrow> ('z cache_scheme, unit) prog" where
  "unswizzling parent child_idx child =
     bnd (load_inner parent) (\<lambda>pn.
     andthen (store parent (Inner (unset_bitmap pn child_idx)))
     (bnd (header child) (\<lambda>c.
      bnd (load_inner parent) (\<lambda>pn'.
      andthen (store parent (Inner (pn'\<lparr>children := (children pn')[child_idx := remote_address c]\<rparr>)))
      (change child (set_parent_ptr nullptr))))))"

definition promote :: "cm_env \<Rightarrow> GlobalAddress \<Rightarrow> ptr \<Rightarrow> ('z cache_scheme, bool) prog" where
  "promote e node page = (\<lambda>s. let (b, t) = try_promote_using_value (hash e) (hash_table s) node page
     in Some (Inr (b, s\<lparr>hash_table := t\<rparr>)))"

definition get_exclusive_node :: "cm_env \<Rightarrow> GlobalAddress \<Rightarrow> ptr \<Rightarrow> ('z cache_scheme, bool) prog" where
  "get_exclusive_node e node target_node =
     bnd (header target_node) (\<lambda>t0.
     if pos_state t0 = 1 then promote e node target_node
     else if pos_state t0 = 2 then
       bnd (page_writeLock target_node False) (\<lambda>needRestart.
       if needRestart then ret False
       else
         bnd (header target_node) (\<lambda>t.
         andthen (assert_that (pos_state t = 2))
         (let target_parent = parent_ptr t in
          if target_parent \<noteq> nullptr then
            bnd (header target_parent) (\<lambda>ph.
            andthen (assert_that (pos_state ph = 2))
            (bnd (page_writeLock target_parent needRestart) (\<lambda>needRestart'.
             if needRestart' then andthen (page_writeUnlock target_node) (ret False)
             else
               bnd (header target_node) (\<lambda>t'.
               if parent_ptr t' \<noteq> target_parent then
                 andthen (page_writeUnlock target_parent) (andthen (page_writeUnlock target_node) (ret False))
               else
                 bnd (load_inner target_parent) (\<lambda>pn.
                 if \<not> check_parent_child_info pn target_node t' then fail Stuck
                 else
                   let idx_in_parent = findIdx pn (target_node OR swizzle_tag) in
                   andthen (assert_that (idx_in_parent \<noteq> - 1))
                   (andthen (unswizzling target_parent (nat idx_in_parent) target_node)
                   (andthen (page_writeUnlock target_parent)
                   (andthen (assert_locked target_node) (ret True)))))))))
          else andthen (assert_locked target_node) (ret True))))
     else ret False)"

text \<open>\<open>cache_get\<close>: the page or null, \<open>restart\<close> and \<open>refresh\<close>.\<close>

definition cache_get ::
  "cm_env \<Rightarrow> GlobalAddress \<Rightarrow> ptr \<Rightarrow> nat \<Rightarrow> bool \<Rightarrow> bool \<Rightarrow> bool \<Rightarrow> ('z cache_scheme, ptr \<times> bool \<times> bool) prog" where
  "cache_get e node parent child_idx restart refresh IO_enable =
     bnd (bucket_try_get_lock e node) (\<lambda>lock_success.
     if \<not> lock_success then ret (nullptr, True, refresh)
     else
       bnd (on_bucket e node (\<lambda>c. (pt_get c node, c))) (\<lambda>target_page.
       if target_page = nullptr then
         bnd (on_bucket e node (\<lambda>c. pt_insert_io_flag c node)) (\<lambda>_.
         andthen (bucket_release_lock e node)
         (if \<not> IO_enable then ret (nullptr, restart, refresh)
          else bnd (cold_to_hot e node parent child_idx refresh) (\<lambda>(r, return_page, refresh').
            ret (return_page, True, refresh'))))
       else if target_page = IO_FLAG then andthen (bucket_release_lock e node) (ret (nullptr, True, refresh))
       else
         bnd (get_exclusive_node e node target_page) (\<lambda>exclusive_success.
         if \<not> exclusive_success then andthen (bucket_release_lock e node) (ret (nullptr, True, refresh))
         else
           andthen (assert_locked target_page)
           (bnd (load_inner parent) (\<lambda>pn.
            bnd (header target_page) (\<lambda>t.
            let give_up = (\<lambda>restart'. andthen (bucket_release_lock e node)
                  (andthen (change target_page (set_pos_state 2))
                  (andthen (page_writeUnlock target_page) (ret (nullptr, restart', True)))));
                finish = (\<lambda>restart'. andthen (bucket_release_lock e node) (ret (target_page, restart', refresh)));
                check_parent = (\<lambda>restart'.
                  if shared pn then
                    bnd (raw_remote_read (remote_address pn)) (\<lambda>rp. case rp of
                      Leaf l \<Rightarrow> fail BadAccess
                    | Inner remote_parent_node \<Rightarrow>
                        let r = check_global_conflict remote_parent_node (front_version pn) restart'
                        in if r then give_up r else finish r)
                  else finish restart')
            in if \<not> new_check_limit_match pn t child_idx then
                 andthen (assert_that (shared pn \<or> shared t))
                 (if shared t then
                    bnd (raw_remote_read (remote_address t)) (\<lambda>rp.
                    let remote_target = page_hdr rp;
                        r = (typeVersionLockObsolete remote_target \<noteq> 0 \<or> front_version t \<noteq> front_version remote_target \<or> restart)
                    in if r then
                         andthen (change target_page (set_obsolete True))
                         (bnd (on_bucket e node (\<lambda>c. pt_remove_value c node target_page)) (\<lambda>flag.
                          andthen (assert_that flag) (give_up r)))
                       else check_parent r)
                  else check_parent restart)
               else finish restart))))))"

section \<open>Replacing an outdated page\<close>

definition replace_child :: "ptr \<Rightarrow> ptr \<Rightarrow> ptr \<Rightarrow> ('z cache_scheme, unit) prog" where
  "replace_child parent cur_node new_node =
     bnd (load_inner parent) (\<lambda>pn.
     let idx_in_parent = (if level pn = 255 then 0 else findIdx pn (cur_node OR swizzle_tag)) in
     andthen (assert_that (idx_in_parent \<noteq> - 1))
     (andthen (change cur_node (set_parent_ptr nullptr))
     (andthen (change new_node (set_parent_ptr parent))
      (bnd (load_inner parent) (\<lambda>pn'.
       store parent (Inner (pn'\<lparr>children := (children pn')[nat idx_in_parent := new_node OR swizzle_tag]\<rparr>)))))))"

definition assert_parent_child :: "ptr \<Rightarrow> ptr \<Rightarrow> ('z cache_scheme, unit) prog" where
  "assert_parent_child parent child =
     bnd (load_inner parent) (\<lambda>pn. bnd (header child) (\<lambda>c. assert_that (check_parent_child_info pn child c)))"

definition updatest_replace :: "cm_env \<Rightarrow> ptr \<Rightarrow> ptr \<Rightarrow> page \<Rightarrow> ('z cache_scheme, unit) prog" where
  "updatest_replace e cur_node parent remote_cur_node =
     andthen (fill_local_page_set e)
     (bnd (header cur_node) (\<lambda>c.
      let remote_addr = remote_address c;
          take_page = bnd get_local_page_set (\<lambda>new_cur_node.
            andthen (assert_that (new_cur_node \<noteq> nullptr))
            (andthen (buffer_to_cache new_cur_node remote_cur_node)
            (andthen (replace_child parent cur_node new_cur_node) (ret new_cur_node))));
          hot = (\<lambda>new_cur_node. andthen (assert_parent_child parent new_cur_node)
            (andthen (change new_cur_node (set_pos_state 2)) (page_writeUnlock new_cur_node)))
      in andthen (bucket_get_lock e remote_addr)
      (bnd (on_bucket e remote_addr (\<lambda>ch. (pt_get ch remote_addr, ch))) (\<lambda>target_page.
       andthen
       (if target_page = nullptr then
          bnd take_page (\<lambda>new_cur_node.
          bnd (on_bucket e remote_addr (\<lambda>ch. let (b, v, ch') = pt_insert ch remote_addr new_cur_node in (b, ch'))) (\<lambda>insert_success.
          andthen (assert_that insert_success) (hot new_cur_node)))
        else
          bnd (header target_page) (\<lambda>t.
          if front_version t = front_version c then
            andthen (assert_that (target_page = cur_node))
            (bnd take_page (\<lambda>new_cur_node.
             bnd (gets remote_of) (\<lambda>ro.
             bnd (on_bucket e remote_addr (\<lambda>ch. case pt_update ro ch remote_addr new_cur_node nullptr of
                 Inl er \<Rightarrow> (Inl er, ch) | Inr (b, old, ch') \<Rightarrow> (Inr (b, old), ch'))) (\<lambda>r. case r of
               Inl er \<Rightarrow> fail (PtError er)
             | Inr (update_success, old_val) \<Rightarrow>
                 andthen (assert_that update_success)
                 (andthen (assert_that (old_val = target_page))
                 (andthen (change cur_node (set_obsolete True)) (hot new_cur_node)))))))
          else if front_version t > front_version c then
            bnd (get_exclusive_node e remote_addr target_page) (\<lambda>success.
            whenever success
              (bnd (header target_page) (\<lambda>t'. bnd (header cur_node) (\<lambda>c'.
               andthen (whenever (min_limit t' = min_limit c' \<and> max_limit t' = max_limit c')
                 (andthen (replace_child parent cur_node target_page) (assert_parent_child parent target_page)))
               (andthen (change target_page (set_pos_state 2)) (page_writeUnlock target_page))))))
          else ret ()))
       (bucket_release_lock e remote_addr)))))"

section \<open>Flush and reset\<close>

definition flush_page :: "ptr \<Rightarrow> ('z cache_scheme, unit) prog" where
  "flush_page a =
     bnd (load a) (\<lambda>p.
     if dirty (page_hdr p) then
       bnd (lift WrError (\<lambda>s. Some (case fully_unswizzle (cheap s) p of Inl er \<Rightarrow> Inl er | Inr q \<Rightarrow> Inr (q, s)))) (\<lambda>q.
       andthen (write_buffer (remote_address (page_hdr q)) q True)
       (change a (set_dirty False)))
     else ret ())"

fun flush_from :: "nat \<Rightarrow> nat \<Rightarrow> ('z cache_scheme, unit) prog" where
  "flush_from i 0 = ret ()"
| "flush_from i (Suc n) = andthen (\<lambda>s. flush_page (pool_page s i) s) (flush_from (Suc i) n)"

definition flush_all :: "('z cache_scheme, unit) prog" where
  "flush_all = bnd (gets page_num) (flush_from 0)"

definition cache_reset :: "bool \<Rightarrow> ('z cache_scheme, unit) prog" where
  "cache_reset flush_dirty =
     andthen (whenever flush_dirty flush_all)
     (modify (\<lambda>s. let s1 = pool_reset (s\<lparr>cstate := 0\<rparr>); t = cooling_reset (hash_table s1)
        in s1\<lparr>hash_table := t\<lparr>ct_page_table := pt_reset (ct_page_table t)\<rparr>\<rparr>))"

end
