(* ===== verification/Cache_View.thy ===== *)
theory Cache_View
  imports Cache_Manager
begin

text \<open>
  What the cache means.  The view of a remote address is the content of its cached page, with local
  pointers read as the remote addresses of the pages they point to, or the content of remote memory
  when the page is not cached.  An invariant ties cached pages, cooling pages, free pages and remote
  memory together; the steps of the cache are shown to keep it and the view.
\<close>

section \<open>Pages up to their cache state\<close>

definition core :: "page \<Rightarrow> page" where
  "core p = set_obsolete False (set_dirty False (set_pos_state 0 (set_lock_word 0 p)))"

lemma core_set [simp]:
  "core (set_lock_word w p) = core p" "core (set_pos_state b p) = core p"
  "core (set_dirty d p) = core p" "core (set_obsolete d p) = core p"
  by (cases p; simp add: core_def)+

lemma core_Inner: "core p = core (Inner n) \<longleftrightarrow> (\<exists>m. p = Inner m \<and> core (Inner m) = core (Inner n))"
  by (cases p) (auto simp: core_def)

lemma core_Leaf: "core p = core (Leaf l) \<longleftrightarrow> (\<exists>m. p = Leaf m \<and> core (Leaf m) = core (Leaf l))"
  by (cases p) (auto simp: core_def)

lemma core_inner_fields:
  assumes "core (Inner m) = core (Inner n)"
  shows "kids m = kids n" "seps m = seps n" "inner_wf m = inner_wf n" "min_limit m = min_limit n" "max_limit m = max_limit n"
    "level m = level n" "bitmap m = bitmap n" "parent_ptr m = parent_ptr n" "remote_address m = remote_address n"
    "children m = children n" "keys m = keys n" "count m = count n" "front_version m = front_version n" "shared m = shared n"
proof -
  have f: "children m = children n" "keys m = keys n" "count m = count n" "bitmap m = bitmap n" "min_limit m = min_limit n"
    "max_limit m = max_limit n" "level m = level n" "parent_ptr m = parent_ptr n" "remote_address m = remote_address n"
    "front_version m = front_version n" "shared m = shared n"
    using assms by (cases m; cases n; simp add: core_def)+
  then show "kids m = kids n" "seps m = seps n" by (simp_all add: kids_def seps_def)
  then show "inner_wf m = inner_wf n" using f by (simp add: inner_wf_def bitmap_ok_def)
  show "min_limit m = min_limit n" "max_limit m = max_limit n"
    "level m = level n" "bitmap m = bitmap n" "parent_ptr m = parent_ptr n" "remote_address m = remote_address n"
    "children m = children n" "keys m = keys n" "count m = count n" "front_version m = front_version n" "shared m = shared n"
    using f by simp_all
qed

lemma core_leaf_fields:
  assumes "core (Leaf m) = core (Leaf n)"
  shows "entries m = entries n" "min_limit m = min_limit n" "max_limit m = max_limit n" "bitmap m = bitmap n"
    "parent_ptr m = parent_ptr n" "remote_address m = remote_address n" "data m = data n" "count m = count n"
  using assms by (cases m; cases n; simp add: core_def entries_def)+

lemma hdr_simps [simp]:
  "typeVersionLockObsolete (page_hdr (Inner n)) = typeVersionLockObsolete n" "typeVersionLockObsolete (page_hdr (Leaf l)) = typeVersionLockObsolete l"
  "front_version (page_hdr (Inner n)) = front_version n" "front_version (page_hdr (Leaf l)) = front_version l"
  "remote_address (page_hdr (Inner n)) = remote_address n" "remote_address (page_hdr (Leaf l)) = remote_address l"
  "bitmap (page_hdr (Inner n)) = bitmap n" "bitmap (page_hdr (Leaf l)) = bitmap l"
  "parent_ptr (page_hdr (Inner n)) = parent_ptr n" "parent_ptr (page_hdr (Leaf l)) = parent_ptr l"
  "node_type (page_hdr (Inner n)) = node_type n" "node_type (page_hdr (Leaf l)) = node_type l"
  "count (page_hdr (Inner n)) = count n" "count (page_hdr (Leaf l)) = count l"
  "level (page_hdr (Inner n)) = level n" "level (page_hdr (Leaf l)) = level l"
  "pos_state (page_hdr (Inner n)) = pos_state n" "pos_state (page_hdr (Leaf l)) = pos_state l"
  "obsolete (page_hdr (Inner n)) = obsolete n" "obsolete (page_hdr (Leaf l)) = obsolete l"
  "shared (page_hdr (Inner n)) = shared n" "shared (page_hdr (Leaf l)) = shared l"
  "is_smo (page_hdr (Inner n)) = is_smo n" "is_smo (page_hdr (Leaf l)) = is_smo l"
  "dirty (page_hdr (Inner n)) = dirty n" "dirty (page_hdr (Leaf l)) = dirty l"
  "min_limit (page_hdr (Inner n)) = min_limit n" "min_limit (page_hdr (Leaf l)) = min_limit l"
  "max_limit (page_hdr (Inner n)) = max_limit n" "max_limit (page_hdr (Leaf l)) = max_limit l"
  by (simp_all add: NodeBase.truncate_def)

declare page_hdr.simps [simp del]

lemma hdr_set [simp]:
  "parent_ptr (page_hdr (set_lock_word w p)) = parent_ptr (page_hdr p)" "parent_ptr (page_hdr (set_pos_state b p)) = parent_ptr (page_hdr p)"
  "parent_ptr (page_hdr (set_dirty d p)) = parent_ptr (page_hdr p)" "parent_ptr (page_hdr (set_parent_ptr a p)) = a"
  "bitmap (page_hdr (set_pos_state b p)) = bitmap (page_hdr p)" "bitmap (page_hdr (set_dirty d p)) = bitmap (page_hdr p)"
  "bitmap (page_hdr (set_parent_ptr a p)) = bitmap (page_hdr p)"
  "dirty (page_hdr (set_lock_word w p)) = dirty (page_hdr p)" "dirty (page_hdr (set_dirty d p)) = d"
  "dirty (page_hdr (set_parent_ptr a p)) = dirty (page_hdr p)"
  "pos_state (page_hdr (set_pos_state b p)) = b" "pos_state (page_hdr (set_dirty d p)) = pos_state (page_hdr p)"
  "pos_state (page_hdr (set_parent_ptr a p)) = pos_state (page_hdr p)"
  "lock_word (set_pos_state b p) = lock_word p" "lock_word (set_dirty d p) = lock_word p" "lock_word (set_parent_ptr a p) = lock_word p"
  by (cases p; simp)+

lemma core_eqD:
  assumes "core p = core q"
  shows "parent_ptr (page_hdr p) = parent_ptr (page_hdr q)" "remote_address (page_hdr p) = remote_address (page_hdr q)"
    "bitmap (page_hdr p) = bitmap (page_hdr q)" "page_level p = page_level q" "page_content p = page_content q"
proof -
  consider (i) m n where "p = Inner m" "q = Inner n" | (l) m n where "p = Leaf m" "q = Leaf n"
    using assms by (cases p; cases q) (auto simp: core_def)
  then have "parent_ptr (page_hdr p) = parent_ptr (page_hdr q) \<and> remote_address (page_hdr p) = remote_address (page_hdr q) \<and>
    bitmap (page_hdr p) = bitmap (page_hdr q) \<and> page_level p = page_level q \<and> page_content p = page_content q"
  proof cases
    case i
    note F = core_inner_fields [OF assms [unfolded i]]
    show ?thesis using F by (simp add: i)
  next
    case l
    note F = core_leaf_fields [OF assms [unfolded l]]
    show ?thesis using F by (simp add: l)
  qed
  then show "parent_ptr (page_hdr p) = parent_ptr (page_hdr q)" "remote_address (page_hdr p) = remote_address (page_hdr q)"
    "bitmap (page_hdr p) = bitmap (page_hdr q)" "page_level p = page_level q" "page_content p = page_content q" by simp_all
qed

section \<open>Local pointers\<close>

lemma tag_bit: "bit (swizzle_tag :: u64) i \<longleftrightarrow> i = 63" "bit (swizzle_hide :: u64) i \<longleftrightarrow> i < 63" "bit (address_hide :: u64) i \<longleftrightarrow> i < 48"
proof -
  show "bit (swizzle_tag :: u64) i \<longleftrightarrow> i = 63" unfolding swizzle_tag_def bit_push_bit_iff by (auto simp: bit_1_iff)
  have m: "swizzle_hide = mask 63" "address_hide = mask 48"
    by (simp_all add: swizzle_hide_def address_hide_def push_bit_eq_mult mask_eq_exp_minus_1)
  show "bit (swizzle_hide :: u64) i \<longleftrightarrow> i < 63" "bit (address_hide :: u64) i \<longleftrightarrow> i < 48"
    unfolding m bit_mask_iff by auto
qed

lemma swizzled_bit: "swizzled a \<longleftrightarrow> bit a 63"
  using and_exp_eq_0_iff_not_bit [of a 63] by (simp add: swizzled_def swizzle_tag_def push_bit_eq_mult)

lemma swizzled_split: "swizzled a \<Longrightarrow> (a AND swizzle_hide) OR swizzle_tag = a"
proof (rule bit_word_eqI)
  fix i assume s: "swizzled a" and "i < LENGTH(64)"
  then show "bit ((a AND swizzle_hide) OR swizzle_tag) i = bit a i"
    using bit_imp_le_length [of a i] by (cases "i = 63") (auto simp: bit_or_iff bit_and_iff tag_bit swizzled_bit)
qed

definition local_addr :: "ptr \<Rightarrow> bool" where
  "local_addr a \<longleftrightarrow> a \<noteq> nullptr \<and> a AND address_hide = a"

lemma local_addr_bits: "local_addr a \<Longrightarrow> bit a i \<Longrightarrow> i < 48"
  unfolding local_addr_def by (metis bit_and_iff tag_bit(3))

lemma local_addr_tag:
  assumes "local_addr a"
  shows "swizzled (a OR swizzle_tag)" "(a OR swizzle_tag) AND swizzle_hide = a" "a \<noteq> IO_FLAG" "\<not> swizzled a"
proof -
  note b = local_addr_bits [OF assms]
  show "swizzled (a OR swizzle_tag)" by (simp add: swizzled_bit bit_or_iff tag_bit)
  show "(a OR swizzle_tag) AND swizzle_hide = a"
  proof (rule bit_word_eqI)
    fix i assume "i < LENGTH(64)"
    show "bit ((a OR swizzle_tag) AND swizzle_hide) i = bit a i"
      using b [of i] by (auto simp: bit_or_iff bit_and_iff tag_bit)
  qed
  show "\<not> swizzled a" using b [of 63] by (auto simp: swizzled_bit)
  then show "a \<noteq> IO_FLAG" using b [of 63] by (auto simp: swizzled_def swizzle_tag_def IO_FLAG_def)
qed

section \<open>The view\<close>

definition resolve :: "heap \<Rightarrow> GlobalAddress \<Rightarrow> GlobalAddress" where
  "resolve h c = (if swizzled c then (case h (c AND swizzle_hide) of Some q \<Rightarrow> remote_address (page_hdr q) | None \<Rightarrow> 0) else c)"

fun lpage :: "heap \<Rightarrow> page \<Rightarrow> Key \<times> Key \<times> ((Key \<times> Value) list + Key list \<times> GlobalAddress list)" where
  "lpage h (Leaf l) = (min_limit l, max_limit l, Inl (entries l))"
| "lpage h (Inner n) = (min_limit n, max_limit n, Inr (seps n, map (resolve h) (kids n)))"

type_synonym content = "Key \<times> Key \<times> ((Key \<times> Value) list + Key list \<times> GlobalAddress list)"

definition view6 :: "heap \<Rightarrow> remote_mem \<Rightarrow> (GlobalAddress \<rightharpoonup> ptr) \<Rightarrow> GlobalAddress \<Rightarrow> content option" where
  "view6 h rm c g = (case c g of Some v \<Rightarrow> map_option (lpage h) (h v) | None \<Rightarrow> map_option page_content (rm g))"

definition same_core :: "heap \<Rightarrow> heap \<Rightarrow> bool" where
  "same_core h h' \<longleftrightarrow> (\<forall>a. map_option core (h a) = map_option core (h' a))"

lemma same_core_upd: "h a = Some p \<Longrightarrow> core p = core p' \<Longrightarrow> same_core h (h(a \<mapsto> p'))"
  by (simp add: same_core_def)

lemma same_coreD: "same_core h h' \<Longrightarrow> h a = Some p \<Longrightarrow> \<exists>p'. h' a = Some p' \<and> core p' = core p"
  unfolding same_core_def by (metis map_option_eq_Some option.simps(9))

lemma same_core_sym: "same_core h h' \<Longrightarrow> same_core h' h"
  by (simp add: same_core_def)

lemma resolve_cong:
  assumes "\<And>a. map_option (\<lambda>p. remote_address (page_hdr p)) (h a) = map_option (\<lambda>p. remote_address (page_hdr p)) (h' a)"
  shows "resolve h = resolve h'"
proof
  fix c
  have "map_option (\<lambda>p. remote_address (page_hdr p)) (h (c AND swizzle_hide)) =
      map_option (\<lambda>p. remote_address (page_hdr p)) (h' (c AND swizzle_hide))" by (rule assms)
  then show "resolve h c = resolve h' c"
    by (cases "h (c AND swizzle_hide)"; cases "h' (c AND swizzle_hide)") (simp_all add: resolve_def)
qed

lemma lpage_resolve: "resolve h = resolve h' \<Longrightarrow> lpage h p = lpage h' p"
  by (cases p) simp_all

lemma same_core_resolve: "same_core h h' \<Longrightarrow> resolve h = resolve h'"
proof (rule resolve_cong)
  fix a assume "same_core h h'"
  then have "map_option core (h a) = map_option core (h' a)" by (simp add: same_core_def)
  then show "map_option (\<lambda>p. remote_address (page_hdr p)) (h a) = map_option (\<lambda>p. remote_address (page_hdr p)) (h' a)"
    by (cases "h a"; cases "h' a") (auto intro: core_eqD(2))
qed

lemma lpage_core: assumes "core p = core q" shows "lpage h p = lpage h q"
proof -
  consider (i) m n where "p = Inner m" "q = Inner n" | (l) m n where "p = Leaf m" "q = Leaf n"
    using assms by (cases p; cases q) (auto simp: core_def)
  then show ?thesis
  proof cases
    case i
    then show ?thesis using core_inner_fields [OF assms [unfolded i]] by simp
  next
    case l
    then show ?thesis using core_leaf_fields [OF assms [unfolded l]] by simp
  qed
qed

lemma view6_same_core:
  assumes "same_core h h'"
  shows "view6 h rm c = view6 h' rm c"
proof
  fix g
  have "map_option (lpage h) (h v) = map_option (lpage h') (h' v)" for v
  proof (cases "h v")
    case None
    then show ?thesis using assms unfolding same_core_def by (metis option.map_disc_iff)
  next
    case (Some p)
    then obtain p' where p': "h' v = Some p'" "core p' = core p" using same_coreD [OF assms] by blast
    then show ?thesis using Some lpage_core [OF p'(2)] lpage_resolve [OF same_core_resolve [OF assms]] by simp
  qed
  then show "view6 h rm c g = view6 h' rm c g" by (simp add: view6_def split: option.splits)
qed

lemma lpage_plain: "(\<And>n. p = Inner n \<Longrightarrow> \<forall>x \<in> set (kids n). \<not> swizzled x) \<Longrightarrow> lpage h p = page_content p"
proof (cases p)
  case (Inner n)
  assume "\<And>n. p = Inner n \<Longrightarrow> \<forall>x \<in> set (kids n). \<not> swizzled x"
  then have "map (resolve h) (kids n) = kids n" using Inner by (intro map_idI) (simp add: resolve_def)
  then show ?thesis using Inner by simp
qed simp

section \<open>The invariant\<close>

text \<open>
  The pages of the heap are linked consistently: a local pointer of an inner node leads to a cached
  page of a lower level whose parent pointer leads back, and no two pointers of a node are equal.
\<close>

definition kid_ok :: "heap \<Rightarrow> ptr \<Rightarrow> nat \<Rightarrow> GlobalAddress \<Rightarrow> bool" where
  "kid_ok h a lv x \<longleftrightarrow> (\<exists>q. h (x AND swizzle_hide) = Some q \<and> parent_ptr (page_hdr q) = a \<and> page_level q < lv \<and>
     \<not> swizzled (remote_address (page_hdr q)))"

definition inner_ok :: "heap \<Rightarrow> ptr \<Rightarrow> BTreeInnerNode \<Rightarrow> bool" where
  "inner_ok h a n \<longleftrightarrow> inner_wf n \<and>
     (\<forall>i < length (kids n). swizzled (kids n ! i) \<longrightarrow> kid_ok h a (page_level (Inner n)) (kids n ! i)) \<and>
     (\<forall>i < length (kids n). \<forall>j < length (kids n). i \<noteq> j \<longrightarrow> swizzled (kids n ! i) \<longrightarrow> kids n ! i \<noteq> kids n ! j)"

definition links_ok :: "heap \<Rightarrow> bool" where
  "links_ok h \<longleftrightarrow>
     (\<forall>a p. h a = Some p \<longrightarrow> local_addr a) \<and> (\<forall>a l. h a = Some (Leaf l) \<longrightarrow> bitmap l = 0) \<and>
     (\<forall>a n. h a = Some (Inner n) \<longrightarrow> inner_ok h a n)"

definition remote_page_ok :: "GlobalAddress \<Rightarrow> page \<Rightarrow> bool" where
  "remote_page_ok g q \<longleftrightarrow> remote_address (page_hdr q) = g \<and> \<not> swizzled g \<and> parent_ptr (page_hdr q) = nullptr \<and>
     pos_state (page_hdr q) = 0 \<and> bitmap (page_hdr q) = 0 \<and> (\<forall>n. q = Inner n \<longrightarrow> inner_wf n)"

definition remote_ok :: "remote_mem \<Rightarrow> bool" where
  "remote_ok rm \<longleftrightarrow> (\<forall>g q. rm g = Some q \<longrightarrow> remote_page_ok g q)"

text \<open>A cached address has a page with that address; a clean one agrees with remote memory.\<close>

definition mapped_ok :: "heap \<Rightarrow> remote_mem \<Rightarrow> (GlobalAddress \<rightharpoonup> ptr) \<Rightarrow> bool" where
  "mapped_ok h rm c \<longleftrightarrow> (\<forall>g v. c g = Some v \<longrightarrow> (\<exists>p. h v = Some p \<and> remote_address (page_hdr p) = g \<and> \<not> swizzled g \<and>
     (\<not> dirty (page_hdr p) \<longrightarrow> (\<exists>q. rm g = Some q \<and> page_content q = lpage h p))))"

text \<open>A hot page with changes that remote memory has not seen is the cached page of its address.\<close>

definition dirty_ok :: "heap \<Rightarrow> (GlobalAddress \<rightharpoonup> ptr) \<Rightarrow> bool" where
  "dirty_ok h c \<longleftrightarrow> (\<forall>a p. h a = Some p \<longrightarrow> dirty (page_hdr p) \<longrightarrow> pos_state (page_hdr p) = 2 \<longrightarrow>
     c (remote_address (page_hdr p)) = Some a)"

text \<open>Pages nobody points to: detached from any parent, without local pointers, in a given cache state.\<close>

definition idle_page :: "u8 \<Rightarrow> heap \<Rightarrow> ptr \<Rightarrow> bool" where
  "idle_page st h a \<longleftrightarrow> (\<exists>p. h a = Some p \<and> pos_state (page_hdr p) = st \<and> parent_ptr (page_hdr p) = nullptr \<and> bitmap (page_hdr p) = 0 \<and>
     (st = 1 \<longrightarrow> \<not> dirty (page_hdr p)) \<and> (st \<noteq> 0 \<longrightarrow> isLocked (lock_word p)))"

definition reserved_ok :: "heap \<Rightarrow> (GlobalAddress \<rightharpoonup> ptr) \<Rightarrow> ptr list \<Rightarrow> ptr list \<Rightarrow> ptr set \<Rightarrow> bool" where
  "reserved_ok h c Q L P \<longleftrightarrow> distinct Q \<and> distinct L \<and> (\<forall>a \<in> set Q. idle_page 1 h a) \<and>
     (\<forall>a \<in> set L. idle_page 3 h a) \<and> (\<forall>a \<in> P. idle_page 0 h a) \<and> (\<forall>a \<in> set L \<union> P. a \<notin> ran c)"

definition inv6 :: "heap \<Rightarrow> remote_mem \<Rightarrow> (GlobalAddress \<rightharpoonup> ptr) \<Rightarrow> ptr list \<Rightarrow> ptr list \<Rightarrow> ptr set \<Rightarrow> bool" where
  "inv6 h rm c Q L P \<longleftrightarrow> links_ok h \<and> remote_ok rm \<and> mapped_ok h rm c \<and> dirty_ok h c \<and> reserved_ok h c Q L P"

lemma links_okD:
  assumes "links_ok h"
  shows "h a = Some p \<Longrightarrow> local_addr a" "h a = Some (Leaf l) \<Longrightarrow> bitmap l = 0" "h a = Some (Inner n) \<Longrightarrow> inner_ok h a n"
  using assms by (auto simp: links_ok_def)

lemma inner_okD:
  assumes "inner_ok h a n"
  shows "inner_wf n" "i < length (kids n) \<Longrightarrow> swizzled (kids n ! i) \<Longrightarrow> kid_ok h a (page_level (Inner n)) (kids n ! i)"
    "i < length (kids n) \<Longrightarrow> j < length (kids n) \<Longrightarrow> i \<noteq> j \<Longrightarrow> swizzled (kids n ! i) \<Longrightarrow> kids n ! i \<noteq> kids n ! j"
  using assms by (auto simp: inner_ok_def)

lemma mapped_okD:
  assumes "mapped_ok h rm c" "c g = Some v"
  shows "\<exists>p. h v = Some p \<and> remote_address (page_hdr p) = g \<and> \<not> swizzled g \<and>
    (\<not> dirty (page_hdr p) \<longrightarrow> (\<exists>q. rm g = Some q \<and> page_content q = lpage h p))"
  using assms by (auto simp: mapped_ok_def)

lemma inv6D:
  assumes "inv6 h rm c Q L P"
  shows "links_ok h" "remote_ok rm" "mapped_ok h rm c" "dirty_ok h c" "reserved_ok h c Q L P"
  using assms by (auto simp: inv6_def)

lemma inner_ok_core:
  assumes "inner_ok h a n" "core (Inner m) = core (Inner n)"
    "\<And>b q. h b = Some q \<Longrightarrow> parent_ptr (page_hdr q) = a \<Longrightarrow> 
      \<exists>q'. h' b = Some q' \<and> parent_ptr (page_hdr q') = a \<and> page_level q' = page_level q \<and> remote_address (page_hdr q') = remote_address (page_hdr q)"
  shows "inner_ok h' a m"
proof -
  note F = core_inner_fields [OF assms(2)]
  have "kid_ok h' a lv x" if "kid_ok h a lv x" for lv x
    using that assms(3) unfolding kid_ok_def by fastforce
  then show ?thesis using assms(1) F unfolding inner_ok_def by simp
qed

lemma links_ok_core:
  assumes "same_core h h'" "links_ok h"
  shows "links_ok h'"
proof -
  have b: "\<exists>q. h b = Some q \<and> core q' = core q" if "h' b = Some q'" for b q'
    using same_coreD [OF same_core_sym [OF assms(1)] that] by force
  have f: "\<exists>q'. h' b = Some q' \<and> core q' = core q" if "h b = Some q" for b q
    using same_coreD [OF assms(1) that] .
  have "inner_ok h' a n" if n: "h' a = Some (Inner n)" for a n
  proof -
    obtain m where m: "h a = Some (Inner m)" "core (Inner n) = core (Inner m)"
      using b [OF n] by (metis core_Inner)
    show ?thesis
    proof (rule inner_ok_core [OF links_okD(3) [OF assms(2) m(1)] m(2)])
      fix x q assume "h x = Some q" "parent_ptr (page_hdr q) = a"
      then show "\<exists>q'. h' x = Some q' \<and> parent_ptr (page_hdr q') = a \<and> page_level q' = page_level q \<and>
          remote_address (page_hdr q') = remote_address (page_hdr q)"
        using f core_eqD(1,2,4) by metis
    qed
  qed
  moreover have "bitmap l = 0" if l: "h' a = Some (Leaf l)" for a l
  proof -
    obtain q where q: "h a = Some q" "core (Leaf l) = core q" using b [OF l] by blast
    then obtain m where m: "q = Leaf m" by (metis core_Leaf)
    show ?thesis using links_okD(2) [OF assms(2)] q core_leaf_fields(4) m by metis
  qed
  moreover have "local_addr a" if "h' a = Some p" for a p using b [OF that] links_okD(1) [OF assms(2)] by blast
  ultimately show ?thesis by (simp add: links_ok_def)
qed

lemma links_walk_ok: "links_ok h \<Longrightarrow> walk_ok h"
  unfolding walk_ok_def using links_okD inner_okD unfolding kid_ok_def by meson

lemma no_swizzled_kids: "inner_wf n \<Longrightarrow> bitmap n = 0 \<Longrightarrow> x \<in> set (kids n) \<Longrightarrow> \<not> swizzled x"
  using inner_wfD(3,5,7) [of n] by (fastforce simp: bitmap_ok_def in_set_conv_nth)

lemma lpage_no_kids:
  assumes "links_ok h" "h a = Some p" "bitmap (page_hdr p) = 0"
  shows "lpage h' p = page_content p"
proof (rule lpage_plain)
  fix n assume n: "p = Inner n"
  then have "inner_wf n" using links_okD(3) [OF assms(1)] inner_okD(1) assms(2) by blast
  then show "\<forall>x \<in> set (kids n). \<not> swizzled x" using no_swizzled_kids assms(3) n by auto
qed

section \<open>Steps that keep the view\<close>

text \<open>A local pointer to a page makes its parent pointer lead to the node, so an orphan has none.\<close>

lemma parent_of_kid:
  assumes "links_ok h" "h a = Some (Inner n)" "i < length (kids n)" "swizzled (kids n ! i)" "kids n ! i AND swizzle_hide = b" "h b = Some q"
  shows "parent_ptr (page_hdr q) = a" "a \<noteq> nullptr"
proof -
  have "kid_ok h a (page_level (Inner n)) (kids n ! i)" using inner_okD(2) [OF links_okD(3) [OF assms(1,2)]] assms(3,4) by blast
  then show "parent_ptr (page_hdr q) = a" using assms(5,6) by (auto simp: kid_ok_def)
  show "a \<noteq> nullptr" using links_okD(1) [OF assms(1,2)] by (simp add: local_addr_def)
qed

lemma mapped_ok_cong:
  assumes m: "mapped_ok h rm c" and r: "resolve h' = resolve h"
    and p: "\<And>g v p. c' g = Some v \<Longrightarrow> c g = Some v \<and> (h v = Some p \<longrightarrow> remote_address (page_hdr p) = g \<longrightarrow>
      (\<exists>p'. h' v = Some p' \<and> remote_address (page_hdr p') = g \<and>
         (\<not> dirty (page_hdr p') \<longrightarrow> (\<exists>q. rm g = Some q \<and> page_content q = lpage h p) \<longrightarrow> (\<exists>q. rm' g = Some q \<and> page_content q = lpage h p')) \<and>
         (\<not> dirty (page_hdr p') \<longrightarrow> dirty (page_hdr p) \<longrightarrow> (\<exists>q. rm' g = Some q \<and> page_content q = lpage h p'))))"
  shows "mapped_ok h' rm' c'"
  unfolding mapped_ok_def
proof (intro allI impI)
  fix g v assume c': "c' g = Some v"
  then have c: "c g = Some v" using p by blast
  obtain x where x: "h v = Some x" "remote_address (page_hdr x) = g" "\<not> swizzled g"
      "\<not> dirty (page_hdr x) \<longrightarrow> (\<exists>q. rm g = Some q \<and> page_content q = lpage h x)"
    using mapped_okD [OF m c] by blast
  obtain p' where p': "h' v = Some p'" "remote_address (page_hdr p') = g"
      "\<not> dirty (page_hdr p') \<longrightarrow> (\<exists>q. rm g = Some q \<and> page_content q = lpage h x) \<longrightarrow> (\<exists>q. rm' g = Some q \<and> page_content q = lpage h p')"
      "\<not> dirty (page_hdr p') \<longrightarrow> dirty (page_hdr x) \<longrightarrow> (\<exists>q. rm' g = Some q \<and> page_content q = lpage h p')"
    using p [OF c', of x] x(1,2) by blast
  have "lpage h' p' = lpage h p'" using lpage_resolve [OF r] .
  then show "\<exists>p. h' v = Some p \<and> remote_address (page_hdr p) = g \<and> \<not> swizzled g \<and>
      (\<not> dirty (page_hdr p) \<longrightarrow> (\<exists>q. rm' g = Some q \<and> page_content q = lpage h' p))"
    using p' x(3,4) by auto
qed

lemma idle_page_upd: "idle_page st h b \<Longrightarrow> a \<noteq> b \<Longrightarrow> idle_page st (h(a \<mapsto> p)) b"
  by (simp add: idle_page_def)

lemma reserved_upd:
  assumes "reserved_ok h c Q L P" "a \<notin> set Q" "a \<notin> set L" "a \<notin> P"
  shows "reserved_ok (h(a \<mapsto> p)) c Q L P"
proof -
  have "a \<noteq> b" if "b \<in> set Q \<union> set L \<union> P" for b using that assms by auto
  then show ?thesis using assms(1) idle_page_upd by (auto simp: reserved_ok_def)
qed

text \<open>Replacing a page by one with the same address and content.\<close>

lemma inv6_replace:
  assumes inv: "inv6 h rm c Q L P" and a: "h a = Some p" and links: "links_ok (h(a \<mapsto> p'))"
    and addr: "remote_address (page_hdr p') = remote_address (page_hdr p)" and cont: "lpage h p' = lpage h p"
    and dirty: "dirty (page_hdr p') = dirty (page_hdr p)"
    and res: "a \<notin> set Q" "a \<notin> set L" "a \<notin> P"
    and hot: "pos_state (page_hdr p') = 2 \<Longrightarrow> dirty (page_hdr p') \<Longrightarrow> c (remote_address (page_hdr p)) = Some a"
  shows "inv6 (h(a \<mapsto> p')) rm c Q L P" "view6 (h(a \<mapsto> p')) rm c = view6 h rm c"
proof -
  note I = inv6D [OF inv]
  have rs: "resolve (h(a \<mapsto> p')) = resolve h" by (rule resolve_cong) (simp add: a addr)
  have lp: "lpage (h(a \<mapsto> p')) q = lpage h q" for q by (rule lpage_resolve [OF rs])
  have "view6 (h(a \<mapsto> p')) rm c g = view6 h rm c g" for g
    using a cont by (auto simp: view6_def lp option.map_comp comp_def intro!: map_option_cong split: option.splits)
  then show "view6 (h(a \<mapsto> p')) rm c = view6 h rm c" by blast
  have "mapped_ok (h(a \<mapsto> p')) rm c"
    by (rule mapped_ok_cong [OF I(3) rs]) (use a addr cont dirty in auto)
  moreover have "dirty_ok (h(a \<mapsto> p')) c" using I(4) hot addr by (auto simp: dirty_ok_def)
  ultimately show "inv6 (h(a \<mapsto> p')) rm c Q L P"
    using I links reserved_upd [OF I(5) res] by (simp add: inv6_def)
qed

text \<open>Changing lock word, cache state or the mark of an outdated page.\<close>

lemma inv6_touch:
  assumes inv: "inv6 h rm c Q L P" and a: "h a = Some p" and core: "core p' = core p"
    and dirty: "dirty (page_hdr p') = dirty (page_hdr p)"
    and res: "a \<notin> set Q" "a \<notin> set L" "a \<notin> P"
    and hot: "pos_state (page_hdr p') = 2 \<Longrightarrow> dirty (page_hdr p') \<Longrightarrow> c (remote_address (page_hdr p)) = Some a"
  shows "inv6 (h(a \<mapsto> p')) rm c Q L P" "view6 (h(a \<mapsto> p')) rm c = view6 h rm c"
proof -
  have sc: "same_core h (h(a \<mapsto> p'))" by (rule same_core_upd [where h = h and a = a and p = p, OF a]) (simp add: core)
  note R = inv6_replace [where h = h and a = a and p = p and p' = p', OF inv a links_ok_core [OF sc inv6D(1) [OF inv]] core_eqD(2) [OF core] lpage_core [OF core] dirty res hot]
  show "inv6 (h(a \<mapsto> p')) rm c Q L P" "view6 (h(a \<mapsto> p')) rm c = view6 h rm c" using R by simp_all
qed

text \<open>An idle page is locked or unlocked: only its lock word changes.\<close>

lemma inv6_word:
  assumes inv: "inv6 h rm c Q L P" and a: "h a = Some p" and w: "a \<in> set Q \<union> set L \<Longrightarrow> isLocked w"
  shows "inv6 (h(a \<mapsto> set_lock_word w p)) rm c Q L P" "view6 (h(a \<mapsto> set_lock_word w p)) rm c = view6 h rm c"
proof -
  note I = inv6D [OF inv]
  let ?h = "h(a \<mapsto> set_lock_word w p)"
  have sc: "same_core h ?h" by (rule same_core_upd [where h = h and a = a and p = p, OF a]) simp
  show "view6 ?h rm c = view6 h rm c" using view6_same_core [OF sc] by simp
  have idle: "idle_page st ?h b" if "idle_page st h b" "st \<noteq> 0 \<Longrightarrow> a = b \<Longrightarrow> isLocked w" for st b
    using that a by (auto simp: idle_page_def)
  have "reserved_ok ?h c Q L P"
    using I(5) w idle unfolding reserved_ok_def by (metis UnI1 UnI2 zero_neq_one zero_neq_numeral)
  moreover have "mapped_ok ?h rm c"
    by (rule mapped_ok_cong [OF I(3) same_core_resolve [OF sc, symmetric]])
      (use a lpage_core [of "set_lock_word w p" p h] in auto)
  moreover have "dirty_ok ?h c" using I(4) a by (auto simp: dirty_ok_def)
  ultimately show "inv6 ?h rm c Q L P" using I links_ok_core [OF sc] by (simp add: inv6_def)
qed

text \<open>Pages with a local pointer are not idle.\<close>

lemma swizzled_not_idle:
  assumes "links_ok h" "h a = Some (Inner n)" "i < length (kids n)" "swizzled (kids n ! i)"
  shows "\<not> idle_page st h a"
proof -
  have "bitmap n \<noteq> 0" using no_swizzled_kids [OF inner_okD(1) [OF links_okD(3) [OF assms(1,2)]]] assms(3,4) by auto
  then show ?thesis using assms(2) by (simp add: idle_page_def)
qed

lemma not_reserved:
  assumes "reserved_ok h c Q L P" "\<And>st. \<not> idle_page st h a"
  shows "a \<notin> set Q" "a \<notin> set L" "a \<notin> P"
  using assms by (auto simp: reserved_ok_def)

text \<open>Unlinking a child: the local pointer becomes the child's remote address.\<close>

definition unlink :: "BTreeInnerNode \<Rightarrow> nat \<Rightarrow> GlobalAddress \<Rightarrow> BTreeInnerNode" where
  "unlink n i r = unset_bitmap (n\<lparr>children := (children n)[i := r]\<rparr>) i"

lemma unlink_fields:
  assumes "inner_wf n" "i < length (kids n)" "\<not> swizzled r"
  shows "kids (unlink n i r) = (kids n)[i := r]" "inner_wf (unlink n i r)" "seps (unlink n i r) = seps n"
proof -
  note W = inner_wfD [OF assms(1)]
  have c: "count (unlink n i r) = count n" "keys (unlink n i r) = keys n" "children (unlink n i r) = (children n)[i := r]"
    by (simp_all add: unlink_def unset_bitmap_def)
  show k: "kids (unlink n i r) = (kids n)[i := r]" using assms(2) W(2,3,7) unfolding kids_def c by (simp add: take_update_swap)
  show s: "seps (unlink n i r) = seps n" unfolding seps_def c ..
  have b: "bit (bitmap (unlink n i r)) j \<longleftrightarrow> bit (bitmap n) j \<and> j \<noteq> i" for j
    unfolding unlink_def unset_bit_iff by simp
  have "bitmap_ok (unlink n i r)"
    unfolding bitmap_ok_def b k using W(5) assms(2,3) by (auto simp: bitmap_ok_def nth_list_update)
  then show "inner_wf (unlink n i r)" using assms(1) s by (simp add: inner_wf_def c)
qed

lemma inv6_unlink:
  assumes inv: "inv6 h rm c Q L P" and par: "h par = Some (Inner n)" and i: "i < length (kids n)" "swizzled (kids n ! i)"
    and cur: "h (kids n ! i AND swizzle_hide) = Some p"
  defines "h' \<equiv> h(par \<mapsto> Inner (unlink n i (remote_address (page_hdr p))))"
  shows "inv6 h' rm c Q L P" "view6 h' rm c = view6 h rm c"
    "h' a = Some (Inner m) \<Longrightarrow> j < length (kids m) \<Longrightarrow> swizzled (kids m ! j) \<Longrightarrow> kids m ! j AND swizzle_hide \<noteq> kids n ! i AND swizzle_hide"
proof -
  note I = inv6D [OF inv]
  let ?r = "remote_address (page_hdr p)"
  let ?n = "unlink n i ?r"
  note N = links_okD(3) [OF I(1) par] and W = inner_okD(1) [OF links_okD(3) [OF I(1) par]]
  have r: "\<not> swizzled ?r" using inner_okD(2) [OF N i] cur by (auto simp: kid_ok_def)
  note U = unlink_fields [OF W i(1) r]
  have fields: "page_level (Inner ?n) = page_level (Inner n)" "parent_ptr ?n = parent_ptr n" "remote_address ?n = remote_address n"
    "min_limit ?n = min_limit n" "max_limit ?n = max_limit n" "dirty ?n = dirty n" "pos_state ?n = pos_state n"
    by (simp_all add: unlink_def unset_bitmap_def)
  have kid: "kid_ok h' b lv x" if "kid_ok h b lv x" for b lv x
    using that par fields by (auto simp: h'_def kid_ok_def)
  have inner: "inner_ok h' b m'" if "inner_ok h b m'" for b m' using that kid by (auto simp: inner_ok_def)
  have new: "inner_ok h' par ?n"
    unfolding inner_ok_def
  proof (intro conjI allI impI)
    show "inner_wf ?n" by (rule U(2))
    fix j assume j: "j < length (kids ?n)" "swizzled (kids ?n ! j)"
    then have ji: "j \<noteq> i" using U(1) i(1) r by auto
    then have kj: "kids ?n ! j = kids n ! j" "j < length (kids n)" using U(1) j(1) by simp_all
    show "kid_ok h' par (page_level (Inner ?n)) (kids ?n ! j)"
      using inner_okD(2) [OF N kj(2)] j(2) kid kj(1) fields(1) by simp
  next
    fix j j' assume j: "j < length (kids ?n)" "j' < length (kids ?n)" "j \<noteq> j'" "swizzled (kids ?n ! j)"
    then have ji: "j \<noteq> i" using U(1) i(1) r by auto
    then have kj: "kids ?n ! j = kids n ! j" "j < length (kids n)" "j' < length (kids n)" using U(1) j by simp_all
    show "kids ?n ! j \<noteq> kids ?n ! j'"
    proof (cases "j' = i")
      case True
      then show ?thesis using j(4) U(1) i(1) r by auto
    next
      case False
      then show ?thesis using inner_okD(3) [OF N kj(2,3) j(3)] j(4) kj(1) U(1) by simp
    qed
  qed
  have links: "links_ok h'"
    using I(1) inner new par unfolding links_ok_def h'_def by auto
  have res: "resolve h (kids n ! i) = ?r" "resolve h ?r = ?r" using i(2) cur r by (simp_all add: resolve_def)
  have lp: "lpage h (Inner ?n) = lpage h (Inner n)"
    using U(1,3) fields res i(1) by (simp add: map_update list_update_same_conv)
  note R = inv6_replace [where h = h and a = par and p = "Inner n" and p' = "Inner ?n", OF inv par links [unfolded h'_def] _ lp]
  have nr: "par \<notin> set Q" "par \<notin> set L" "par \<notin> P"
    using not_reserved [OF I(5)] swizzled_not_idle [OF I(1) par i] by blast+
  have hot: "pos_state (page_hdr (Inner ?n)) = 2 \<Longrightarrow> dirty (page_hdr (Inner ?n)) \<Longrightarrow> c (remote_address (page_hdr (Inner n))) = Some par"
    using I(4) par fields unfolding dirty_ok_def by force
  show "inv6 h' rm c Q L P" "view6 h' rm c = view6 h rm c" unfolding h'_def using R nr hot fields by simp_all
  assume m: "h' a = Some (Inner m)" "j < length (kids m)" "swizzled (kids m ! j)"
  show "kids m ! j AND swizzle_hide \<noteq> kids n ! i AND swizzle_hide"
  proof
    assume eq: "kids m ! j AND swizzle_hide = kids n ! i AND swizzle_hide"
    then have same: "kids m ! j = kids n ! i" using swizzled_split m(3) i(2) by metis
    show False
    proof (cases "a = par")
      case True
      then have mm: "m = ?n" using m(1) by (simp add: h'_def)
      then have ji: "j \<noteq> i" using m(2,3) U(1) i(1) r by auto
      then have "kids n ! j = kids n ! i" "j < length (kids n)" using same mm U(1) m(2) by simp_all
      then show False using inner_okD(3) [OF N _ i(1) ji] m(3) same i(2) by simp
    next
      case False
      then have "h a = Some (Inner m)" using m(1) by (simp add: h'_def)
      then show False using parent_of_kid(1) [OF I(1) _ m(2,3) eq cur] parent_of_kid(1) [OF I(1) par i refl cur] False by simp
    qed
  qed
qed

text \<open>A page nobody points to loses its parent pointer.\<close>

lemma inv6_orphan:
  assumes inv: "inv6 h rm c Q L P" and a: "h a = Some p"
    and none: "\<And>b m j. h b = Some (Inner m) \<Longrightarrow> j < length (kids m) \<Longrightarrow> swizzled (kids m ! j) \<Longrightarrow> kids m ! j AND swizzle_hide \<noteq> a"
    and res: "a \<notin> set Q" "a \<notin> set L" "a \<notin> P"
  shows "inv6 (h(a \<mapsto> set_parent_ptr q p)) rm c Q L P" "view6 (h(a \<mapsto> set_parent_ptr q p)) rm c = view6 h rm c"
proof -
  note I = inv6D [OF inv]
  let ?p = "set_parent_ptr q p"
  let ?h = "h(a \<mapsto> ?p)"
  have kid: "kid_ok ?h b lv x" if "kid_ok h b lv x" "x AND swizzle_hide \<noteq> a" for b lv x
    using that by (simp add: kid_ok_def)
  have inner: "inner_ok ?h b m" if "h b = Some (Inner m)" for b m
    using links_okD(3) [OF I(1) that] none [OF that] kid by (auto simp: inner_ok_def)
  have "links_ok ?h"
    unfolding links_ok_def
  proof (intro conjI allI impI)
    fix b m assume b: "?h b = Some (Inner m)"
    show "inner_ok ?h b m"
    proof (cases "b = a")
      case True
      then obtain n where n: "p = Inner n" "m = n\<lparr>parent_ptr := q\<rparr>" using b by (cases p) auto
      have "inner_ok ?h a n" using inner a n(1) by simp
      moreover have "kids m = kids n" "page_level (Inner m) = page_level (Inner n)" "inner_wf m = inner_wf n"
        by (simp_all add: n kids_def inner_wf_def seps_def bitmap_ok_def)
      ultimately show ?thesis using True by (simp add: inner_ok_def)
    qed (use b inner in simp)
  next
    fix b l assume b: "?h b = Some (Leaf l)"
    show "bitmap l = 0"
    proof (cases "b = a")
      case True
      then obtain n where n: "p = Leaf n" "l = n\<lparr>parent_ptr := q\<rparr>" using b by (cases p) auto
      then show ?thesis using links_okD(2) [OF I(1)] a by simp
    qed (use b links_okD(2) [OF I(1)] in simp)
  next
    fix b x assume "?h b = Some x"
    then show "local_addr b" using links_okD(1) [OF I(1)] a by (auto split: if_splits)
  qed
  moreover have "lpage h ?p = lpage h p" by (cases p) (simp_all add: seps_def kids_def entries_def)
  moreover have "pos_state (page_hdr ?p) = 2 \<Longrightarrow> dirty (page_hdr ?p) \<Longrightarrow> c (remote_address (page_hdr p)) = Some a"
    using I(4) a unfolding dirty_ok_def by simp
  ultimately show "inv6 ?h rm c Q L P" "view6 ?h rm c = view6 h rm c"
    using inv6_replace [where h = h and a = a and p = p and p' = ?p, OF inv a] res by simp_all
qed

lemma reserved_sub:
  assumes "reserved_ok h c Q L P" "distinct Q'" "set Q' \<subseteq> set Q" "distinct L'" "set L' \<subseteq> set L" "P' \<subseteq> P"
  shows "reserved_ok h c Q' L' P'"
  using assms unfolding reserved_ok_def by blast

lemma inv6_sub:
  assumes "inv6 h rm c Q L P" "distinct Q'" "set Q' \<subseteq> set Q" "distinct L'" "set L' \<subseteq> set L" "P' \<subseteq> P"
  shows "inv6 h rm c Q' L' P'"
  using assms reserved_sub unfolding inv6_def by blast

text \<open>Writing a hot page without local pointers back.\<close>

lemma flush_remote_ok:
  assumes "links_ok h" "h a = Some p" "bitmap (page_hdr p) = 0" "remote_address (page_hdr p) = g" "\<not> swizzled g"
  shows "remote_page_ok g (flush_copy True p)"
proof (cases p)
  case (Leaf l)
  then show ?thesis using assms by (simp add: remote_page_ok_def flush_copy_def Let_def)
next
  case (Inner n)
  have "inner_wf n" using inner_okD(1) [OF links_okD(3) [OF assms(1)]] assms(2) Inner by blast
  then show ?thesis using assms Inner
    by (simp add: remote_page_ok_def flush_copy_def Let_def inner_wf_def seps_def bitmap_ok_def kids_def)
qed

lemma inv6_write_back:
  assumes inv: "inv6 h rm c Q L P" and a: "h a = Some p" "pos_state (page_hdr p) = 2" "dirty (page_hdr p)" "bitmap (page_hdr p) = 0"
  defines "g \<equiv> remote_address (page_hdr p)"
  shows "inv6 (h(a \<mapsto> set_dirty False p)) (rm(g \<mapsto> flush_copy True p)) c Q L P"
    "view6 (h(a \<mapsto> set_dirty False p)) (rm(g \<mapsto> flush_copy True p)) c = view6 h rm c"
proof -
  note I = inv6D [OF inv]
  let ?h = "h(a \<mapsto> set_dirty False p)" and ?rm = "rm(g \<mapsto> flush_copy True p)"
  have gr: "remote_address (page_hdr p) = g" by (simp add: g_def)
  have cg: "c g = Some a" using I(4) a by (simp add: dirty_ok_def g_def)
  have ns: "\<not> swizzled g" using mapped_okD [OF I(3) cg] by blast
  have sc: "same_core h ?h" by (rule same_core_upd [where h = h and a = a and p = p, OF a(1)]) simp
  have pc: "page_content (flush_copy True p) = lpage h p"
    using lpage_no_kids [OF I(1) a(1,4)] by (simp add: flush_copy_props(1))
  have "view6 ?h ?rm c g' = view6 ?h rm c g'" for g'
    using cg by (cases "g' = g") (simp_all add: view6_def split: option.splits)
  then show "view6 ?h ?rm c = view6 h rm c" using view6_same_core [OF sc] by auto
  have "remote_ok ?rm"
    using I(2) flush_remote_ok [OF I(1) a(1,4) gr ns] unfolding remote_ok_def by (metis map_upd_Some_unfold)
  moreover have "mapped_ok ?h ?rm c"
  proof (rule mapped_ok_cong [OF I(3) same_core_resolve [OF sc, symmetric]])
    fix g' v q assume c: "c g' = Some v"
    have va: "g' = g \<longleftrightarrow> v = a" using mapped_okD [OF I(3) c] a(1) cg c by (auto simp: g_def)
    show "c g' = Some v \<and> (h v = Some q \<longrightarrow> remote_address (page_hdr q) = g' \<longrightarrow>
        (\<exists>p'. ?h v = Some p' \<and> remote_address (page_hdr p') = g' \<and>
           (\<not> dirty (page_hdr p') \<longrightarrow> (\<exists>q'. rm g' = Some q' \<and> page_content q' = lpage h q) \<longrightarrow> (\<exists>q'. ?rm g' = Some q' \<and> page_content q' = lpage h p')) \<and>
           (\<not> dirty (page_hdr p') \<longrightarrow> dirty (page_hdr q) \<longrightarrow> (\<exists>q'. ?rm g' = Some q' \<and> page_content q' = lpage h p'))))"
    proof (cases "v = a")
      case True
      then show ?thesis using c va a(1) pc lpage_core [of "set_dirty False p" p h] by (auto simp: g_def)
    next
      case False
      then show ?thesis using c va by auto
    qed
  qed
  moreover have "dirty_ok ?h c" using I(4) by (auto simp: dirty_ok_def)
  moreover have "reserved_ok ?h c Q L P"
  proof (rule reserved_upd [OF I(5)])
    have "\<not> idle_page st h a" if "st \<noteq> 2" for st using that a by (auto simp: idle_page_def)
    then show "a \<notin> set Q" "a \<notin> set L" "a \<notin> P" using I(5) unfolding reserved_ok_def by auto
  qed
  ultimately show "inv6 ?h ?rm c Q L P" using links_ok_core [OF sc I(1)] by (simp add: inv6_def)
qed

text \<open>A clean, locked, detached page enters the cooling table.\<close>

lemma inv6_cool:
  assumes inv: "inv6 h rm c Q L P" and a: "h a = Some p" "\<not> dirty (page_hdr p)" "bitmap (page_hdr p) = 0" "parent_ptr (page_hdr p) = nullptr"
      "isLocked (lock_word p)"
    and res: "a \<notin> set Q" "a \<notin> set L" "a \<notin> P" and Q': "distinct Q'" "set Q' \<subseteq> insert a (set Q)"
  shows "inv6 (h(a \<mapsto> set_pos_state 1 p)) rm c Q' L P" "view6 (h(a \<mapsto> set_pos_state 1 p)) rm c = view6 h rm c"
proof -
  let ?h = "h(a \<mapsto> set_pos_state 1 p)"
  note T = inv6_touch [where h = h and a = a and p = p and p' = "set_pos_state 1 p", OF inv a(1) _ _ res]
  show "view6 ?h rm c = view6 h rm c" using T(2) by simp
  have 1: "inv6 ?h rm c Q L P" using T(1) by simp
  have "idle_page 1 ?h a" using a by (simp add: idle_page_def)
  then have "\<forall>b \<in> set Q'. idle_page 1 ?h b" using Q'(2) inv6D(5) [OF 1] unfolding reserved_ok_def by blast
  then show "inv6 ?h rm c Q' L P" using 1 Q'(1) unfolding inv6_def reserved_ok_def by blast
qed

text \<open>A cooling page leaves the page table: its content is in remote memory.\<close>

lemma inv6_evict:
  assumes inv: "inv6 h rm c Q L P" and v: "idle_page 1 h v" "h v = Some p"
  defines "c' \<equiv> (if c (remote_address (page_hdr p)) = Some v then c(remote_address (page_hdr p) := None) else c)"
  shows "inv6 h rm c' Q L P" "view6 h rm c' = view6 h rm c" "v \<notin> ran c'"
proof -
  note I = inv6D [OF inv]
  let ?g = "remote_address (page_hdr p)"
  have sub: "c' g = Some a \<Longrightarrow> c g = Some a" for g a by (auto simp: c'_def split: if_splits)
  have cl: "\<not> dirty (page_hdr p)" "pos_state (page_hdr p) = 1" using v by (auto simp: idle_page_def)
  have "view6 h rm c' g = view6 h rm c g" for g
  proof (cases "c g = Some v \<and> g = ?g")
    case True
    then obtain q where "rm g = Some q" "page_content q = lpage h p" using mapped_okD [OF I(3)] v(2) cl(1) by force
    then show ?thesis using True v(2) by (simp add: view6_def c'_def)
  qed (auto simp: view6_def c'_def)
  then show "view6 h rm c' = view6 h rm c" by blast
  have "mapped_ok h rm c'" using I(3) sub unfolding mapped_ok_def by blast
  moreover have "dirty_ok h c'"
    unfolding dirty_ok_def
  proof (intro allI impI)
    fix a x assume x: "h a = Some x" "dirty (page_hdr x)" "pos_state (page_hdr x) = 2"
    then have "c (remote_address (page_hdr x)) = Some a" using I(4) by (simp add: dirty_ok_def)
    moreover have "a \<noteq> v" using x v(2) cl(1) by auto
    ultimately show "c' (remote_address (page_hdr x)) = Some a" by (auto simp: c'_def)
  qed
  moreover have "reserved_ok h c' Q L P" using I(5) sub unfolding reserved_ok_def ran_def by blast
  ultimately show "inv6 h rm c' Q L P" using I by (simp add: inv6_def)
  show "v \<notin> ran c'"
  proof
    assume "v \<in> ran c'"
    then obtain g where g: "c' g = Some v" by (auto simp: ran_def)
    then have "g = ?g" using mapped_okD [OF I(3) sub [OF g]] v(2) by auto
    then show False using g by (auto simp: c'_def split: if_splits)
  qed
qed

text \<open>A page nobody uses joins the pages of the thread.\<close>

lemma inv6_keep:
  assumes inv: "inv6 h rm c Q L P" and a: "h a = Some p" "bitmap (page_hdr p) = 0" "parent_ptr (page_hdr p) = nullptr" "isLocked (lock_word p)"
    and res: "a \<notin> set Q" "a \<notin> set L" "a \<notin> P" "a \<notin> ran c"
  shows "inv6 (h(a \<mapsto> set_pos_state 3 p)) rm c Q (L @ [a]) P" "view6 (h(a \<mapsto> set_pos_state 3 p)) rm c = view6 h rm c"
proof -
  let ?h = "h(a \<mapsto> set_pos_state 3 p)"
  note T = inv6_touch [where h = h and a = a and p = p and p' = "set_pos_state 3 p", OF inv a(1) _ _ res(1-3)]
  show "view6 ?h rm c = view6 h rm c" using T(2) by simp
  have 1: "inv6 ?h rm c Q L P" using T(1) by simp
  have "idle_page 3 ?h a" using a by (simp add: idle_page_def)
  then show "inv6 ?h rm c Q (L @ [a]) P" using 1 res unfolding inv6_def reserved_ok_def by auto
qed

text \<open>Overwriting a page nobody knows by a page of remote memory, and entering it into the page table.\<close>

lemma nobody_points:
  assumes "links_ok h" "h a = Some p" "parent_ptr (page_hdr p) = nullptr"
    "h b = Some (Inner m)" "j < length (kids m)" "swizzled (kids m ! j)"
  shows "kids m ! j AND swizzle_hide \<noteq> a"
  using parent_of_kid [OF assms(1,4,5,6) _ assms(2)] assms(3) by auto

lemma lpage_unaffected:
  assumes "\<And>m j. x = Inner m \<Longrightarrow> j < length (kids m) \<Longrightarrow> swizzled (kids m ! j) \<Longrightarrow> kids m ! j AND swizzle_hide \<noteq> a"
  shows "lpage (h(a \<mapsto> q)) x = lpage h x"
proof (cases x)
  case (Inner m)
  have "resolve (h(a \<mapsto> q)) y = resolve h y" if "y \<in> set (kids m)" for y
    using that assms [OF Inner] by (auto simp: resolve_def in_set_conv_nth)
  then show ?thesis using Inner by simp
qed simp

lemma inv6_fill:
  assumes inv: "inv6 h rm c Q L P" and a: "h a = Some p" "parent_ptr (page_hdr p) = nullptr"
    and res: "a \<notin> set Q" "a \<notin> set L" "a \<notin> P" "a \<notin> ran c" and q: "remote_page_ok g q"
  shows "inv6 (h(a \<mapsto> set_lock_word w q)) rm c Q L P" "view6 (h(a \<mapsto> set_lock_word w q)) rm c = view6 h rm c"
    "lpage (h(a \<mapsto> set_lock_word w q)) (set_lock_word w q) = page_content q"
proof -
  note I = inv6D [OF inv]
  let ?q = "set_lock_word w q"
  let ?h = "h(a \<mapsto> ?q)"
  have np: "kids m ! j AND swizzle_hide \<noteq> a" if "h b = Some (Inner m)" "j < length (kids m)" "swizzled (kids m ! j)" for b m j
    by (rule nobody_points [OF I(1) a that])
  have lp: "lpage ?h x = lpage h x" if "h b = Some x" for b x
    by (rule lpage_unaffected) (use np that in blast)
  have kid: "kid_ok ?h b lv x" if "kid_ok h b lv x" "x AND swizzle_hide \<noteq> a" for b lv x using that by (simp add: kid_ok_def)
  have inner: "inner_ok ?h b m" if "h b = Some (Inner m)" for b m
    using links_okD(3) [OF I(1) that] np [OF that] kid by (auto simp: inner_ok_def)
  have new: "inner_ok ?h a m" if qm: "?q = Inner m" for m
  proof -
    obtain n where n: "q = Inner n" "m = n\<lparr>typeVersionLockObsolete := w\<rparr>" using qm by (cases q) auto
    have W: "inner_wf n" "bitmap n = 0" using q n(1) by (auto simp: remote_page_ok_def)
    have km: "kids m = kids n" "inner_wf m" using W(1) by (auto simp: n(2) kids_def inner_wf_def seps_def bitmap_ok_def)
    then show ?thesis using no_swizzled_kids [OF W] by (auto simp: inner_ok_def)
  qed
  have "links_ok ?h"
    unfolding links_ok_def
  proof (intro conjI allI impI)
    fix b m assume "?h b = Some (Inner m)"
    then show "inner_ok ?h b m" using inner new by (auto split: if_splits)
  next
    fix b l assume "?h b = Some (Leaf l)"
    then show "bitmap l = 0" using links_okD(2) [OF I(1)] q by (cases q) (auto simp: remote_page_ok_def split: if_splits)
  next
    fix b x assume "?h b = Some x"
    then show "local_addr b" using links_okD(1) [OF I(1)] a(1) by (auto split: if_splits)
  qed
  moreover have "mapped_ok ?h rm c"
    unfolding mapped_ok_def
  proof (intro allI impI)
    fix g v assume c: "c g = Some v"
    then have "v \<noteq> a" using res(4) by (auto simp: ran_def)
    then show "\<exists>p. ?h v = Some p \<and> remote_address (page_hdr p) = g \<and> \<not> swizzled g \<and>
        (\<not> dirty (page_hdr p) \<longrightarrow> (\<exists>q. rm g = Some q \<and> page_content q = lpage ?h p))"
      using mapped_okD [OF I(3) c] lp by auto
  qed
  moreover have "dirty_ok ?h c" using I(4) q by (auto simp: dirty_ok_def remote_page_ok_def)
  ultimately show "inv6 ?h rm c Q L P" using I(2) reserved_upd [OF I(5) res(1-3)] by (simp add: inv6_def)
  have "view6 ?h rm c g = view6 h rm c g" for g
  proof (cases "c g")
    case (Some v)
    then have "v \<noteq> a" using res(4) by (auto simp: ran_def)
    moreover obtain x where "h v = Some x" using mapped_okD [OF I(3) Some] by blast
    ultimately show ?thesis using Some lp by (simp add: view6_def)
  qed (simp add: view6_def)
  then show "view6 ?h rm c = view6 h rm c" by blast
  have "lpage ?h ?q = page_content ?q"
  proof (rule lpage_plain)
    fix m assume m: "?q = Inner m"
    obtain n where n: "q = Inner n" "m = n\<lparr>typeVersionLockObsolete := w\<rparr>" using m by (cases q) auto
    have W: "inner_wf n" "bitmap n = 0" using q n(1) by (auto simp: remote_page_ok_def)
    have "kids m = kids n" by (simp add: n(2) kids_def)
    then show "\<forall>x \<in> set (kids m). \<not> swizzled x" using no_swizzled_kids [OF W] by simp
  qed
  then show "lpage ?h ?q = page_content q" by simp
qed

lemma inv6_map:
  assumes inv: "inv6 h rm c Q L P" and g: "c g = None" "h a = Some x" "remote_address (page_hdr x) = g" "\<not> swizzled g"
    and rm: "rm g = Some q" "page_content q = lpage h x" and res: "a \<notin> set L" "a \<notin> P"
  shows "inv6 h rm (c(g \<mapsto> a)) Q L P" "view6 h rm (c(g \<mapsto> a)) = view6 h rm c"
proof -
  note I = inv6D [OF inv]
  have "mapped_ok h rm (c(g \<mapsto> a))" using I(3) g rm unfolding mapped_ok_def by auto
  moreover have "dirty_ok h (c(g \<mapsto> a))" using I(4) g(1) unfolding dirty_ok_def by fastforce
  moreover have "reserved_ok h (c(g \<mapsto> a)) Q L P" using I(5) res g(1) unfolding reserved_ok_def by auto
  ultimately show "inv6 h rm (c(g \<mapsto> a)) Q L P" using I by (simp add: inv6_def)
  show "view6 h rm (c(g \<mapsto> a)) = view6 h rm c" using g(1,2) rm by (auto simp: view6_def fun_eq_iff)
qed

end
