(* ===== verification/Cache_Steps.thy ===== *)
theory Cache_Steps
  imports Cache_View
begin

text \<open>
  The programs of the cache keep the invariant and the view: sampling, eviction, taking an empty
  page, loading a page and taking a cached page.
\<close>

section \<open>Rules for the primitives\<close>

lemma wp_load [wp]:
  "ok (load a) s Q \<longleftrightarrow> (\<exists>p. cheap s a = Some p \<and> Q p s)" "safe (load a) s Q \<longleftrightarrow> (\<forall>p. cheap s a = Some p \<longrightarrow> Q p s)"
  by (auto simp: load_def ok_def safe_def split: option.splits)

lemma wp_store [wp]:
  "ok (store a p) s Q = Q () (s\<lparr>cheap := (cheap s)(a \<mapsto> p)\<rparr>)" "safe (store a p) s Q = Q () (s\<lparr>cheap := (cheap s)(a \<mapsto> p)\<rparr>)"
  by (simp_all add: store_def wp)

lemma wp_change [wp]:
  "ok (change a f) s Q \<longleftrightarrow> (\<exists>p. cheap s a = Some p \<and> Q () (s\<lparr>cheap := (cheap s)(a \<mapsto> f p)\<rparr>))"
  "safe (change a f) s Q \<longleftrightarrow> (\<forall>p. cheap s a = Some p \<longrightarrow> Q () (s\<lparr>cheap := (cheap s)(a \<mapsto> f p)\<rparr>))"
  by (simp_all add: change_def wp)

lemma wp_header [wp]:
  "ok (header a) s Q \<longleftrightarrow> (\<exists>p. cheap s a = Some p \<and> Q (page_hdr p) s)"
  "safe (header a) s Q \<longleftrightarrow> (\<forall>p. cheap s a = Some p \<longrightarrow> Q (page_hdr p) s)"
  by (simp_all add: header_def wp)

lemma wp_load_inner [wp]:
  "ok (load_inner a) s Q \<longleftrightarrow> (\<exists>n. cheap s a = Some (Inner n) \<and> Q n s)"
  "safe (load_inner a) s Q \<longleftrightarrow> (\<forall>n. cheap s a = Some (Inner n) \<longrightarrow> Q n s)"
proof -
  have "ok (case p of Inner n \<Rightarrow> ret n | Leaf l \<Rightarrow> fail BadAccess) s Q \<longleftrightarrow> (\<exists>n. p = Inner n \<and> Q n s)"
    "safe (case p of Inner n \<Rightarrow> ret n | Leaf l \<Rightarrow> fail BadAccess) s Q \<longleftrightarrow> (\<forall>n. p = Inner n \<longrightarrow> Q n s)" for p
    by (cases p; simp add: wp)+
  then show "ok (load_inner a) s Q \<longleftrightarrow> (\<exists>n. cheap s a = Some (Inner n) \<and> Q n s)"
    "safe (load_inner a) s Q \<longleftrightarrow> (\<forall>n. cheap s a = Some (Inner n) \<longrightarrow> Q n s)"
    by (auto simp: load_inner_def wp)
qed

lemma wp_load_leaf [wp]:
  "ok (load_leaf a) s Q \<longleftrightarrow> (\<exists>l. cheap s a = Some (Leaf l) \<and> Q l s)"
  "safe (load_leaf a) s Q \<longleftrightarrow> (\<forall>l. cheap s a = Some (Leaf l) \<longrightarrow> Q l s)"
proof -
  have "ok (case p of Leaf l \<Rightarrow> ret l | Inner n \<Rightarrow> fail BadAccess) s Q \<longleftrightarrow> (\<exists>l. p = Leaf l \<and> Q l s)"
    "safe (case p of Leaf l \<Rightarrow> ret l | Inner n \<Rightarrow> fail BadAccess) s Q \<longleftrightarrow> (\<forall>l. p = Leaf l \<longrightarrow> Q l s)" for p
    by (cases p; simp add: wp)+
  then show "ok (load_leaf a) s Q \<longleftrightarrow> (\<exists>l. cheap s a = Some (Leaf l) \<and> Q l s)"
    "safe (load_leaf a) s Q \<longleftrightarrow> (\<forall>l. cheap s a = Some (Leaf l) \<longrightarrow> Q l s)"
    by (auto simp: load_leaf_def wp)
qed

lemma wp_assert_locked [wp]:
  "ok (assert_locked a) s Q \<longleftrightarrow> (\<exists>p. cheap s a = Some p \<and> isLocked (lock_word p) \<and> Q () s)"
  "safe (assert_locked a) s Q \<longleftrightarrow> (\<forall>p. cheap s a = Some p \<longrightarrow> isLocked (lock_word p) \<longrightarrow> Q () s)"
  by (auto simp: assert_locked_def wp)

lemma wp_raw_remote_read [wp]:
  "ok (raw_remote_read g) s Q \<longleftrightarrow> (\<exists>p. crm s g = Some p \<and> Q p s)"
  "safe (raw_remote_read g) s Q \<longleftrightarrow> (\<forall>p. crm s g = Some p \<longrightarrow> Q p s)"
  by (auto simp: raw_remote_read_def ok_def safe_def split: option.splits)

lemma wp_draw [wp]:
  "ok (draw n) s Q = Q (rnd s 0 mod n) (s\<lparr>rnd := \<lambda>i. rnd s (Suc i)\<rparr>)"
  "safe (draw n) s Q = Q (rnd s 0 mod n) (s\<lparr>rnd := \<lambda>i. rnd s (Suc i)\<rparr>)"
  by (simp_all add: draw_def ok_def safe_def)

lemma wp_pt_op [wp]:
  "ok (pt_op f) s Q \<longleftrightarrow> (\<exists>r t. f (ptable s) = Some (r, t) \<and> Q r (set_ptable t s))"
  "safe (pt_op f) s Q \<longleftrightarrow> (\<forall>r t. f (ptable s) = Some (r, t) \<longrightarrow> Q r (set_ptable t s))"
  by (auto simp: pt_op_def ok_def safe_def split: option.splits)

lemma wp_on_bucket [wp]:
  "ok (on_bucket e g f) s Q = (let i = get_bucket_idx (hash e) (ptable s) g; (r, c) = f (pt_table (ptable s) ! i) in
     Q r (set_ptable ((ptable s)\<lparr>pt_table := (pt_table (ptable s))[i := c]\<rparr>) s))"
  "safe (on_bucket e g f) s Q = (let i = get_bucket_idx (hash e) (ptable s) g; (r, c) = f (pt_table (ptable s) ! i) in
     Q r (set_ptable ((ptable s)\<lparr>pt_table := (pt_table (ptable s))[i := c]\<rparr>) s))"
  by (simp_all add: on_bucket_def wp Let_def case_prod_beta)

section \<open>The invariant of the cache\<close>

definition cached :: "cm_env \<Rightarrow> ('z cache_scheme) \<Rightarrow> GlobalAddress \<rightharpoonup> ptr" where
  "cached e s g = (case table_map (hash e) (ptable s) g of Some v \<Rightarrow> if v = IO_FLAG then None else Some v | None \<Rightarrow> None)"

definition view :: "cm_env \<Rightarrow> ('z cache_scheme) \<Rightarrow> GlobalAddress \<Rightarrow> content option" where
  "view e s = view6 (cheap s) (crm s) (cached e s)"

definition bucket_addrs :: "cbucket \<Rightarrow> ptr list" where
  "bucket_addrs b = map (\<lambda>f. f AND address_hide) (cqueue b)"

definition qaddrs :: "cooling \<Rightarrow> ptr list" where
  "qaddrs t = concat (map bucket_addrs (ct_buckets t))"

definition pool_free :: "('z cache_scheme) \<Rightarrow> ptr set" where
  "pool_free s = pool_page s ` {head_idx s..<page_num s}"

definition static_ok :: "('z cache_scheme) \<Rightarrow> bool" where
  "static_ok s \<longleftrightarrow> table_ok (ptable s) \<and> ct_buckets (hash_table s) \<noteq> [] \<and> (\<forall>b \<in> set (ct_buckets (hash_table s)). cbucket_ok b) \<and>
     base_address s \<noteq> 0 \<and> unat (base_address s) + page_num s * pageSize \<le> 2 ^ 48"

definition cache_inv :: "cm_env \<Rightarrow> ('z cache_scheme) \<Rightarrow> bool" where
  "cache_inv e s \<longleftrightarrow> static_ok s \<and>
     inv6 (cheap s) (crm s) (cached e s) (qaddrs (hash_table s)) (local_page_set s) (pool_free s)"

text \<open>The invariant together with the view a program has to keep.\<close>

definition good :: "cm_env \<Rightarrow> (GlobalAddress \<Rightarrow> content option) \<Rightarrow> ('z cache_scheme) \<Rightarrow> bool" where
  "good e V s \<longleftrightarrow> cache_inv e s \<and> view e s = V"

definition parked :: "('z cache_scheme) \<Rightarrow> ptr set" where
  "parked s = set (qaddrs (hash_table s)) \<union> set (local_page_set s)"

definition reserved :: "('z cache_scheme) \<Rightarrow> ptr set" where
  "reserved s = parked s \<union> pool_free s"

lemma goodD:
  assumes "good e V s"
  shows "static_ok s" "inv6 (cheap s) (crm s) (cached e s) (qaddrs (hash_table s)) (local_page_set s) (pool_free s)"
    "view6 (cheap s) (crm s) (cached e s) = V"
  using assms by (auto simp: good_def cache_inv_def view_def)

lemma goodI:
  "static_ok s \<Longrightarrow> inv6 (cheap s) (crm s) (cached e s) (qaddrs (hash_table s)) (local_page_set s) (pool_free s) \<Longrightarrow>
   view6 (cheap s) (crm s) (cached e s) = V \<Longrightarrow> good e V s"
  by (auto simp: good_def cache_inv_def view_def)

lemma state_heap [simp]:
  "cached e (s\<lparr>cheap := h\<rparr>) = cached e s" "cached e (s\<lparr>crm := rm\<rparr>) = cached e s" "cached e (s\<lparr>rnd := r\<rparr>) = cached e s"
  "cached e (s\<lparr>local_page_set := l\<rparr>) = cached e s" "cached e (s\<lparr>cstate := st\<rparr>) = cached e s" "cached e (s\<lparr>head_idx := i\<rparr>) = cached e s"
  "cached e (s\<lparr>decision := dc\<rparr>) = cached e s"
  "static_ok (s\<lparr>cheap := h\<rparr>) = static_ok s" "static_ok (s\<lparr>crm := rm\<rparr>) = static_ok s" "static_ok (s\<lparr>rnd := r\<rparr>) = static_ok s"
  "static_ok (s\<lparr>local_page_set := l\<rparr>) = static_ok s" "static_ok (s\<lparr>cstate := st\<rparr>) = static_ok s" "static_ok (s\<lparr>head_idx := i\<rparr>) = static_ok s"
  "static_ok (s\<lparr>decision := dc\<rparr>) = static_ok s"
  "pool_free (s\<lparr>cheap := h\<rparr>) = pool_free s" "pool_free (s\<lparr>crm := rm\<rparr>) = pool_free s" "pool_free (s\<lparr>rnd := r\<rparr>) = pool_free s"
  "pool_free (s\<lparr>local_page_set := l\<rparr>) = pool_free s" "pool_free (s\<lparr>cstate := st\<rparr>) = pool_free s"
  "pool_free (s\<lparr>hash_table := t\<rparr>) = pool_free s" "pool_free (s\<lparr>decision := dc\<rparr>) = pool_free s"
  by (simp_all add: cached_def [abs_def] static_ok_def pool_free_def pool_page_def)

lemma reserved_heap [simp]:
  "reserved (s\<lparr>cheap := h\<rparr>) = reserved s" "reserved (s\<lparr>crm := rm\<rparr>) = reserved s" "reserved (s\<lparr>rnd := r\<rparr>) = reserved s"
  "reserved (s\<lparr>cstate := st\<rparr>) = reserved s" "reserved (s\<lparr>decision := dc\<rparr>) = reserved s"
  "parked (s\<lparr>cheap := h\<rparr>) = parked s" "parked (s\<lparr>crm := rm\<rparr>) = parked s" "parked (s\<lparr>rnd := r\<rparr>) = parked s"
  "parked (s\<lparr>cstate := st\<rparr>) = parked s" "parked (s\<lparr>decision := dc\<rparr>) = parked s" "parked (s\<lparr>head_idx := i\<rparr>) = parked s"
  by (simp_all add: reserved_def parked_def)

lemma good_rnd [simp]: "good e V (s\<lparr>rnd := r\<rparr>) = good e V s" "good e V (s\<lparr>cstate := st\<rparr>) = good e V s" "good e V (s\<lparr>decision := dc\<rparr>) = good e V s"
  by (auto simp: good_def cache_inv_def view_def)

lemma good_word:
  assumes "good e V s" "cheap s a = Some p" "a \<in> parked s \<Longrightarrow> isLocked w"
  shows "good e V (s\<lparr>cheap := (cheap s)(a \<mapsto> set_lock_word w p)\<rparr>)"
proof -
  note G = goodD [OF assms(1)]
  have w: "a \<in> set (qaddrs (hash_table s)) \<union> set (local_page_set s) \<Longrightarrow> isLocked w" using assms(3) by (auto simp: parked_def)
  note W = inv6_word [where h = "cheap s" and a = a and p = p and w = w, OF G(2) assms(2) w]
  show ?thesis by (rule goodI) (use G(1,3) W in simp_all)
qed

lemma good_touch:
  assumes "good e V s" "cheap s a = Some p" "a \<notin> reserved s" "core p' = core p" "dirty (page_hdr p') = dirty (page_hdr p)"
    "pos_state (page_hdr p') = 2 \<Longrightarrow> dirty (page_hdr p') \<Longrightarrow> cached e s (remote_address (page_hdr p)) = Some a"
  shows "good e V (s\<lparr>cheap := (cheap s)(a \<mapsto> p')\<rparr>)"
proof -
  note G = goodD [OF assms(1)]
  have r: "a \<notin> set (qaddrs (hash_table s))" "a \<notin> set (local_page_set s)" "a \<notin> pool_free s" using assms(3) by (auto simp: reserved_def parked_def)
  note T = inv6_touch [where h = "cheap s" and a = a and p = p and p' = p', OF G(2) assms(2,4,5) r assms(6)]
  show ?thesis by (rule goodI) (use G(1,3) T in simp_all)
qed

section \<open>Page table steps\<close>

lemma table_store:
  assumes ok: "table_ok t" and c: "chain_ok c" "\<And>k. k \<noteq> key \<Longrightarrow> chain_map c k = chain_map (pt_table t ! get_bucket_idx hs t key) k"
  defines "t' \<equiv> t\<lparr>pt_table := (pt_table t)[get_bucket_idx hs t key := c]\<rparr>"
  shows "table_ok t'" "table_map hs t' = (table_map hs t)(key := chain_map c key)"
proof -
  let ?i = "get_bucket_idx hs t key"
  have i: "?i < length (pt_table t)" by (rule get_bucket_idx_less [OF ok])
  show "table_ok t'" using ok c(1) set_update_subset_insert [of "pt_table t" ?i c] by (auto simp: table_ok_def t'_def)
  have idx: "get_bucket_idx hs t' k = get_bucket_idx hs t k" for k by (simp add: t'_def get_bucket_idx_def)
  have "table_map hs t' k = ((table_map hs t)(key := chain_map c key)) k" for k
    unfolding table_map_def idx using i c(2) [of k] by (cases "get_bucket_idx hs t k = ?i") (auto simp: t'_def)
  then show "table_map hs t' = (table_map hs t)(key := chain_map c key)" by blast
qed

lemma with_lock_run:
  assumes ok: "table_ok t" and wl: "with_lock hs t key body = Some (r, t')"
  obtains c c' where "chain_ok c" "chain_map c = chain_map (pt_table t ! get_bucket_idx hs t key)" "body c = (r, c')"
    "chain_ok c' \<longrightarrow> (\<forall>k. k \<noteq> key \<longrightarrow> chain_map c' k = chain_map c k) \<longrightarrow>
       table_ok t' \<and> table_map hs t' = (table_map hs t)(key := chain_map c' key)"
proof -
  let ?i = "get_bucket_idx hs t key"
  let ?c = "pt_table t ! ?i"
  let ?l = "(hd ?c)\<lparr>pb_lock := Lock32_get_lock (pb_lock (hd ?c))\<rparr> # tl ?c"
  have "?i < length (pt_table t)" by (rule get_bucket_idx_less [OF ok])
  then have c: "chain_ok ?c" using ok by (simp add: table_ok_def)
  then have ne: "hd ?c # tl ?c = ?c" using chain_okD(1) by simp
  have l: "chain_ok ?l" "chain_map ?l = chain_map ?c" using c ne by simp_all
  obtain c' where b: "body ?l = (r, c')"
    and t': "t' = t\<lparr>pt_table := (pt_table t)[?i := (hd c')\<lparr>pb_lock := Lock32_release_lock (pb_lock (hd c'))\<rparr> # tl c']\<rparr>"
    using wl by (auto simp: with_lock_def Let_def split: if_splits prod.splits)
  have "table_ok t' \<and> table_map hs t' = (table_map hs t)(key := chain_map c' key)"
    if c': "chain_ok c'" "\<forall>k. k \<noteq> key \<longrightarrow> chain_map c' k = chain_map ?l k"
  proof -
    let ?d = "(hd c')\<lparr>pb_lock := Lock32_release_lock (pb_lock (hd c'))\<rparr> # tl c'"
    have d: "chain_ok ?d" "chain_map ?d = chain_map c'" using c'(1) chain_okD(1) [OF c'(1)] by simp_all
    show ?thesis using table_store [OF ok d(1), of key hs] d(2) c'(2) l(2) unfolding t' by simp
  qed
  then show thesis using that [OF l b] by blast
qed

lemma remove_with_lock_ok:
  assumes "table_ok t" "v \<noteq> nullptr" "remove_with_lock hs t key v = Some (flag, t')"
  shows "table_ok t'" "flag \<longleftrightarrow> table_map hs t key = Some v"
    "table_map hs t' = (if table_map hs t key = Some v then (table_map hs t)(key := None) else table_map hs t)"
proof -
  obtain c c' where c: "chain_ok c" "chain_map c = chain_map (pt_table t ! get_bucket_idx hs t key)" "pt_remove_value c key v = (flag, c')"
      "chain_ok c' \<longrightarrow> (\<forall>k. k \<noteq> key \<longrightarrow> chain_map c' k = chain_map c k) \<longrightarrow>
         table_ok t' \<and> table_map hs t' = (table_map hs t)(key := chain_map c' key)"
    using with_lock_run [OF assms(1) assms(3) [unfolded remove_with_lock_def]] by blast
  have k: "chain_map c key = table_map hs t key" using c(2) by (simp add: table_map_def)
  have r: "flag \<longleftrightarrow> chain_map c key = Some v" "chain_ok c'"
      "chain_map c' = (if chain_map c key = Some v then (chain_map c)(key := None) else chain_map c)"
    using pt_remove_value_ok [OF c(1) assms(2), of key] c(3) by auto
  show "flag \<longleftrightarrow> table_map hs t key = Some v" using r(1) k by simp
  have "table_ok t' \<and> table_map hs t' = (table_map hs t)(key := chain_map c' key)" using c(4) r(2,3) by simp
  then show "table_ok t'" "table_map hs t' = (if table_map hs t key = Some v then (table_map hs t)(key := None) else table_map hs t)"
    using r(3) k by (simp_all add: fun_upd_idem)
qed

section \<open>Cooling a page\<close>

lemma bucket_addrs_insert:
  assumes "cqueue b' = pl # take 5 (cqueue b)" "cbucket_ok b" "pl AND address_hide = v"
  shows "bucket_addrs b' = v # take 5 (bucket_addrs b)"
  using assms by (simp add: bucket_addrs_def take_map)

lemma qaddrs_split: "i < length (ct_buckets t) \<Longrightarrow>
  qaddrs t = concat (map bucket_addrs (take i (ct_buckets t))) @ bucket_addrs (ct_buckets t ! i) @
    concat (map bucket_addrs (drop (Suc i) (ct_buckets t)))"
  unfolding qaddrs_def by (subst id_take_nth_drop [of i "ct_buckets t"]) simp_all

lemma qaddrs_update: "i < length (ct_buckets t) \<Longrightarrow>
  qaddrs (t\<lparr>ct_buckets := (ct_buckets t)[i := b]\<rparr>) = concat (map bucket_addrs (take i (ct_buckets t))) @ bucket_addrs b @
    concat (map bucket_addrs (drop (Suc i) (ct_buckets t)))"
  unfolding qaddrs_def by (simp add: upd_conv_take_nth_drop)

lemma qaddrs_lock: "i < length (ct_buckets t) \<Longrightarrow> bucket_addrs b = bucket_addrs (ct_buckets t ! i) \<Longrightarrow>
  qaddrs (t\<lparr>ct_buckets := (ct_buckets t)[i := b]\<rparr>) = qaddrs t"
  using qaddrs_split qaddrs_update by metis

lemma bucket_addrs_lock [simp]: "bucket_addrs (b\<lparr>cb_lock := w\<rparr>) = bucket_addrs b"
  by (simp add: bucket_addrs_def)

lemma qaddrs_pt [simp]: "qaddrs (t\<lparr>ct_page_table := x\<rparr>) = qaddrs t"
  by (simp add: qaddrs_def)

text \<open>Inserting at the front of one queue drops the last page of a full one.\<close>

lemma queue_replace:
  fixes v :: ptr
  assumes "distinct (A @ X @ B)" "v \<notin> set (A @ X @ B)" "length X \<le> 6"
  shows "distinct (A @ (v # take 5 X) @ B)" "set (A @ (v # take 5 X) @ B) \<subseteq> insert v (set (A @ X @ B))"
    "length X = 6 \<Longrightarrow> last X \<in> set (A @ X @ B) \<and> last X \<notin> set (A @ (v # take 5 X) @ B)"
proof -
  show "distinct (A @ (v # take 5 X) @ B)" using assms by (auto dest: in_set_takeD)
  show "set (A @ (v # take 5 X) @ B) \<subseteq> insert v (set (A @ X @ B))" by (auto dest: in_set_takeD)
  assume l: "length X = 6"
  then have ne: "X \<noteq> []" by auto
  have "butlast X = take 5 X" using l by (simp add: butlast_conv_take)
  then have X: "X = take 5 X @ [last X]" using append_butlast_last_id [OF ne] by simp
  have "last X \<in> set X" using l by (intro last_in_set) auto
  moreover have "distinct (A @ (take 5 X @ [last X]) @ B)" using assms(1) X by simp
  ultimately show "last X \<in> set (A @ X @ B) \<and> last X \<notin> set (A @ (v # take 5 X) @ B)"
    using assms(2) by auto
qed

lemma cooling_insert_run:
  assumes run: "cooling_insert hs h rm t key v nullptr = Some (Inr (ev, h', rm', t'))"
    and p: "h v = Some p" "\<not> dirty (page_hdr p)"
  defines "i \<equiv> ct_idx hs t key"
  obtains b' pt' w where
    "bucket_insert h ((ct_buckets t ! i)\<lparr>cb_lock := Lock_get_lock (cb_lock (ct_buckets t ! i))\<rparr>) (ct_payload (ct_FP (hs key)) v) nullptr = Inr (ev, b')"
    "h' = h(v \<mapsto> set_pos_state 1 p)" "rm' = rm"
    "t' = t\<lparr>ct_buckets := (ct_buckets t)[i := b'\<lparr>cb_lock := w\<rparr>], ct_page_table := pt'\<rparr>"
    "ev = nullptr \<longrightarrow> pt' = ct_page_table t"
    "ev \<noteq> nullptr \<longrightarrow> (\<exists>q flag. h' ev = Some q \<and> remove_with_lock hs (ct_page_table t) (remote_address (page_hdr q)) ev = Some (flag, pt'))"
proof -
  let ?b = "ct_buckets t ! i"
  obtain ev' b' where b': "bucket_insert h (?b\<lparr>cb_lock := Lock_get_lock (cb_lock ?b)\<rparr>) (ct_payload (ct_FP (hs key)) v) nullptr = Inr (ev', b')"
    using run p unfolding cooling_insert_def i_def by (auto simp: Let_def split: if_splits sum.splits)
  let ?t = "\<lambda>pt. t\<lparr>ct_buckets := (ct_buckets t)[i := b'\<lparr>cb_lock := Lock_release_lock (cb_lock b')\<rparr>], ct_page_table := pt\<rparr>"
  show thesis
  proof (cases "ev' = nullptr")
    case True
    then have "ev = ev'" "h' = h(v \<mapsto> set_pos_state 1 p)" "rm' = rm" "t' = ?t (ct_page_table t)"
      using run p b' unfolding cooling_insert_def i_def by (auto simp: Let_def split: if_splits)
    then show ?thesis using that [OF b' [folded \<open>ev = ev'\<close>]] True by blast
  next
    case False
    then obtain q flag pt' where "ev = ev'" "h' = h(v \<mapsto> set_pos_state 1 p)" "rm' = rm" "t' = ?t pt'"
        "h' ev = Some q" "remove_with_lock hs (ct_page_table t) (remote_address (page_hdr q)) ev = Some (flag, pt')"
      using run p b' unfolding cooling_insert_def i_def by (auto simp: Let_def split: if_splits option.splits)
    then show ?thesis using that [OF b' [folded \<open>ev = ev'\<close>]] False by blast
  qed
qed

lemma idle_local: "links_ok h \<Longrightarrow> idle_page st h a \<Longrightarrow> local_addr a"
  by (auto simp: idle_page_def dest: links_okD(1))

text \<open>Dropping an entry of the page table, seen through the addresses that are cached.\<close>

lemma cached_remove:
  assumes "table_ok (ptable s)" "local_addr v" "remove_with_lock (hash e) (ptable s) g v = Some (flag, pt')"
    and "ptable s' = pt'"
  shows "cached e s' = (if cached e s g = Some v then (cached e s)(g := None) else cached e s)" "table_ok pt'"
proof -
  have v: "v \<noteq> nullptr" "v \<noteq> IO_FLAG" using assms(2) local_addr_tag(3) by (auto simp: local_addr_def)
  note R = remove_with_lock_ok [OF assms(1) v(1) assms(3)]
  show "table_ok pt'" by (rule R(1))
  have "table_map (hash e) (ptable s) g = Some v \<longleftrightarrow> cached e s g = Some v"
    using v(2) by (auto simp: cached_def split: option.splits if_splits)
  then show "cached e s' = (if cached e s g = Some v then (cached e s)(g := None) else cached e s)"
    using R(3) assms(4) by (auto simp: cached_def fun_eq_iff)
qed

lemma cool_insert_ok:
  assumes good: "good e V s" and p: "cheap s v = Some p" "\<not> dirty (page_hdr p)" "bitmap (page_hdr p) = 0"
      "parent_ptr (page_hdr p) = nullptr" "isLocked (lock_word p)" and v: "v \<notin> reserved s"
  shows "safe (cool_insert e key v) s (\<lambda>ev s'. good e V s' \<and> parked s' \<subseteq> insert v (parked s) \<and>
    (\<forall>a. a \<noteq> v \<longrightarrow> cheap s' a = cheap s a) \<and> (\<exists>h t. s' = s\<lparr>cheap := h, hash_table := t\<rparr>) \<and>
    (ev \<noteq> nullptr \<longrightarrow> ev \<in> set (qaddrs (hash_table s)) \<and> ev \<notin> reserved s' \<and> ev \<notin> ran (cached e s') \<and> idle_page 1 (cheap s') ev))"
proof (rule safeI)
  fix ev s' assume run: "cool_insert e key v s = Some (Inr (ev, s'))"
  let ?t = "hash_table s" and ?h = "cheap s"
  obtain h' rm' t' where ci: "cooling_insert (hash e) ?h (crm s) ?t key v nullptr = Some (Inr (ev, h', rm', t'))"
      "s' = s\<lparr>cheap := h', crm := rm', hash_table := t'\<rparr>"
    using run by (cases "cooling_insert (hash e) ?h (crm s) ?t key v nullptr") (auto simp: cool_insert_def lift_run split: sum.split_asm)
  let ?i = "ct_idx (hash e) ?t key"
  let ?b = "ct_buckets ?t ! ?i"
  obtain b' pt' w where r: "bucket_insert ?h (?b\<lparr>cb_lock := Lock_get_lock (cb_lock ?b)\<rparr>) (ct_payload (ct_FP (hash e key)) v) nullptr = Inr (ev, b')"
      "h' = ?h(v \<mapsto> set_pos_state 1 p)" "rm' = crm s"
      "t' = ?t\<lparr>ct_buckets := (ct_buckets ?t)[?i := b'\<lparr>cb_lock := w\<rparr>], ct_page_table := pt'\<rparr>"
      "ev = nullptr \<longrightarrow> pt' = ptable s"
      "ev \<noteq> nullptr \<longrightarrow> (\<exists>q flag. h' ev = Some q \<and> remove_with_lock (hash e) (ptable s) (remote_address (page_hdr q)) ev = Some (flag, pt'))"
    using cooling_insert_run [OF ci(1) p(1,2)] by metis
  note G = goodD [OF good]
  note I = inv6D [OF G(2)]
  have v': "v \<notin> set (qaddrs ?t)" "v \<notin> set (local_page_set s)" "v \<notin> pool_free s" using v by (auto simp: reserved_def parked_def)
  have ne: "ct_buckets ?t \<noteq> []" "\<And>b. b \<in> set (ct_buckets ?t) \<Longrightarrow> cbucket_ok b" "table_ok (ptable s)" using G(1) by (auto simp: static_ok_def)
  have ix: "?i < length (ct_buckets ?t)" using ne(1) by (simp add: ct_idx_def)
  have bok: "cbucket_ok ?b" using ne(2) ix by simp
  note B = bucket_insert_queue [of "?b\<lparr>cb_lock := Lock_get_lock (cb_lock ?b)\<rparr>", OF _ r(1)]
  have q: "cqueue b' = ct_payload (ct_FP (hash e key)) v # take 5 (cqueue ?b)" and b'ok: "cbucket_ok b'" using B bok by simp_all
  have va: "v AND address_hide = v" using links_okD(1) [OF I(1) p(1)] by (simp add: local_addr_def)
  have ba: "bucket_addrs b' = v # take 5 (bucket_addrs ?b)"
    by (rule bucket_addrs_insert [OF q bok]) (simp add: ct_payload_fields(2) [OF ct_FP_bound] va)
  let ?A = "concat (map bucket_addrs (take ?i (ct_buckets ?t)))" and ?B = "concat (map bucket_addrs (drop (Suc ?i) (ct_buckets ?t)))"
  have qs: "qaddrs ?t = ?A @ bucket_addrs ?b @ ?B" by (rule qaddrs_split [OF ix])
  have "qaddrs t' = qaddrs (?t\<lparr>ct_buckets := (ct_buckets ?t)[?i := b'\<lparr>cb_lock := w\<rparr>]\<rparr>)" by (simp add: r(4) qaddrs_def)
  also have "\<dots> = ?A @ bucket_addrs (b'\<lparr>cb_lock := w\<rparr>) @ ?B" by (rule qaddrs_update [OF ix])
  finally have qs': "qaddrs t' = ?A @ (v # take 5 (bucket_addrs ?b)) @ ?B" by (simp add: ba)
  have len: "length (bucket_addrs ?b) = cb_count ?b" "cb_count ?b \<le> 6"
    using cqueue_length [OF bok] bok by (simp_all add: bucket_addrs_def cbucket_ok_def num_entries_def)
  have dq: "distinct (?A @ bucket_addrs ?b @ ?B)" using I(5) qs by (simp add: reserved_ok_def)
  note R = queue_replace [OF dq v'(1) [unfolded qs], unfolded len, OF len(2), folded qs qs']
  have evb: "ev = (if cb_count ?b = 6 then last (bucket_addrs ?b) else nullptr)"
  proof (cases "cb_count ?b = 6")
    case True
    then have "cqueue ?b \<noteq> []" using cqueue_length [OF bok] by auto
    then show ?thesis using B(4) bok True by (simp add: bucket_is_full_def num_entries_def bucket_addrs_def last_map)
  next
    case False
    then show ?thesis using B(4) bok by (simp add: bucket_is_full_def num_entries_def)
  qed
  note C = inv6_cool [where h = ?h and a = v and p = p, OF G(2) p v' R(1) R(2), folded r(2)]
  have h': "h' a = ?h a" if "a \<noteq> v" for a using that by (simp add: r(2))
  have pts: "ptable s' = pt'" and qs2: "qaddrs (hash_table s') = qaddrs t'" and st: "local_page_set s' = local_page_set s" "pool_free s' = pool_free s"
      "cheap s' = h'" "crm s' = crm s"
    using ci(2) r(3,4) by (simp_all add: pool_free_def pool_page_def)
  have sub: "parked s' \<subseteq> insert v (parked s)" using R(2) st qs2 by (auto simp: reserved_def parked_def)
  have stat: "static_ok s'" if "table_ok pt'"
  proof -
    have "b \<in> set (ct_buckets t') \<Longrightarrow> cbucket_ok b" for b
      using ne(2) b'ok set_update_subset_insert [of "ct_buckets ?t" ?i "b'\<lparr>cb_lock := w\<rparr>"] by (auto simp: r(4))
    then show ?thesis using that G(1) ci(2) r(4) by (simp add: static_ok_def)
  qed
  have shape: "\<exists>h t. s' = s\<lparr>cheap := h, hash_table := t\<rparr>" using ci(2) r(3) by auto
  show "good e V s' \<and> parked s' \<subseteq> insert v (parked s) \<and> (\<forall>a. a \<noteq> v \<longrightarrow> cheap s' a = cheap s a) \<and> (\<exists>h t. s' = s\<lparr>cheap := h, hash_table := t\<rparr>) \<and>
    (ev \<noteq> nullptr \<longrightarrow> ev \<in> set (qaddrs (hash_table s)) \<and> ev \<notin> reserved s' \<and> ev \<notin> ran (cached e s') \<and> idle_page 1 (cheap s') ev)"
  proof (cases "ev = nullptr")
    case True
    then have "cached e s' = cached e s" using pts r(5) by (simp add: cached_def [abs_def])
    then have "good e V s'" using C G(3) stat ne(3) r(5) True st qs2 by (intro goodI) simp_all
    then show ?thesis using True sub shape h' st by simp
  next
    case False
    then have full: "cb_count ?b = 6" "ev = last (bucket_addrs ?b)" using evb by (auto split: if_splits)
    have evq: "ev \<in> set (qaddrs ?t)" "ev \<notin> set (qaddrs t')" using R(3) full by simp_all
    have evv: "ev \<noteq> v" using evq(1) v'(1) by auto
    have idle: "idle_page 1 h' ev" using I(5) evq(1) h' [OF evv] by (simp add: reserved_ok_def idle_page_def)
    obtain q flag where q: "h' ev = Some q" "remove_with_lock (hash e) (ptable s) (remote_address (page_hdr q)) ev = Some (flag, pt')"
      using r(6) False by blast
    have la: "local_addr ev" using idle_local [OF inv6D(1) [OF C(1)] idle] .
    note CR = cached_remove [OF ne(3) la q(2) pts]
    note E = inv6_evict [OF C(1) idle q(1), folded CR(1)]
    have "good e V s'" using E(1,2) C(2) G(3) stat [OF CR(2)] st qs2 by (intro goodI) simp_all
    moreover have "ev \<notin> set (local_page_set s)" "ev \<notin> pool_free s"
      using inv6D(5) [OF C(1)] idle by (auto simp: reserved_ok_def idle_page_def)
    ultimately show ?thesis using sub shape h' st evq E(3) idle qs2 by (auto simp: reserved_def parked_def)
  qed
qed

lemma reserved_page:
  assumes "good e V s" "a \<in> reserved s"
  shows "\<exists>p. cheap s a = Some p \<and> pos_state (page_hdr p) \<noteq> 2 \<and> parent_ptr (page_hdr p) = nullptr \<and> bitmap (page_hdr p) = 0 \<and>
    (a \<in> parked s \<longrightarrow> isLocked (lock_word p) \<and> pos_state (page_hdr p) \<noteq> 0)"
proof -
  note R = inv6D(5) [OF goodD(2) [OF assms(1)]]
  consider "idle_page 1 (cheap s) a" | "idle_page 3 (cheap s) a" | "idle_page 0 (cheap s) a" "a \<notin> parked s"
    using assms(2) R unfolding reserved_def parked_def reserved_ok_def by blast
  then show ?thesis by cases (auto simp: idle_page_def)
qed

lemma hot_not_reserved: "good e V s \<Longrightarrow> cheap s a = Some p \<Longrightarrow> pos_state (page_hdr p) = 2 \<Longrightarrow> a \<notin> reserved s"
  using reserved_page by force

lemma parked_locked: "good e V s \<Longrightarrow> cheap s a = Some p \<Longrightarrow> a \<in> parked s \<Longrightarrow> isLocked (lock_word p)"
  using reserved_page [of e V s a] by (auto simp: reserved_def)

lemma good_local: "good e V s \<Longrightarrow> cheap s a = Some p \<Longrightarrow> local_addr a"
  using links_okD(1) [OF inv6D(1) [OF goodD(2)]] .

section \<open>Locks\<close>

lemma isLocked_bit: "isLocked w \<longleftrightarrow> bit w 2"
proof -
  have "w AND 0b100 = 0 \<longleftrightarrow> \<not> bit w 2" using and_exp_eq_0_iff_not_bit [of w 2] by simp
  moreover have "w AND 0b100 = 0 \<or> w AND 0b100 = (0b100 :: u64)"
  proof (cases "bit w 2")
    case True
    have "w AND push_bit 2 1 = (push_bit 2 1 :: u64)"
    proof (rule bit_word_eqI)
      fix n
      show "bit (w AND push_bit 2 1) n = bit (push_bit 2 1 :: u64) n"
        unfolding bit_and_iff bit_push_bit_iff bit_1_iff using True by auto
    qed
    then show ?thesis by simp
  next
    case False
    then show ?thesis using and_exp_eq_0_iff_not_bit [of w 2] by simp
  qed
  ultimately show ?thesis by (auto simp: isLocked_def)
qed

lemma low_bits: "w AND 0b111 = (0 :: u64) \<Longrightarrow> i < 3 \<Longrightarrow> \<not> bit w i"
proof -
  assume "w AND 0b111 = (0 :: u64)" "i < 3"
  moreover have "(0b111 :: u64) = mask 3" by (simp add: mask_eq_exp_minus_1)
  ultimately have "\<not> bit (w AND mask 3) i" by simp
  then show "\<not> bit w i" using \<open>i < 3\<close> by (auto simp: bit_and_iff bit_mask_iff)
qed

lemma upgraded_locked: "\<not> isLocked w \<Longrightarrow> isLocked (w + 0b100)"
proof -
  assume "\<not> isLocked w"
  then have "w AND push_bit 2 1 = 0" using and_exp_eq_0_iff_not_bit [of w 2] by (simp add: isLocked_bit push_bit_eq_mult)
  then have "w + push_bit 2 1 = w OR push_bit 2 1" by (rule disjunctive_add_eq_or)
  then have "w + 0b100 = w OR push_bit 2 1" by simp
  moreover have "bit (push_bit 2 1 :: u64) 2" unfolding bit_push_bit_iff by simp
  ultimately show ?thesis unfolding isLocked_bit by (simp only: bit_or_iff simp_thms)
qed

lemma unlocked_word: "w AND 0b111 = (0 :: u64) \<Longrightarrow> \<not> isLocked w"
  using low_bits [of w 2] by (simp add: isLocked_bit)

lemma writeLock_cases:
  assumes "writeLockOrRestart w False w = (r, w')"
  shows "r \<and> w' = w \<or> \<not> r \<and> w AND 0b111 = 0 \<and> w' = w + 0b100 \<and> isLocked w'"
  using assms upgraded_locked [OF unlocked_word, of w]
  by (auto simp: writeLockOrRestart_def upgradeToWriteLockOrRestart_def CAS_def split: if_splits)

lemma good_writeLock:
  assumes "good e V s"
  shows "safe (page_writeLock a False) s (\<lambda>r s'. good e V s' \<and> (\<exists>p w. cheap s a = Some p \<and>
    s' = s\<lparr>cheap := (cheap s)(a \<mapsto> set_lock_word w p)\<rparr> \<and> (r \<longrightarrow> w = lock_word p) \<and>
    (\<not> r \<longrightarrow> isLocked w \<and> \<not> isLocked (lock_word p) \<and> a \<notin> parked s)))"
proof (rule safeI)
  fix r s' assume "page_writeLock a False s = Some (Inr (r, s'))"
  then obtain p w where p: "cheap s a = Some p" "writeLockOrRestart (lock_word p) False (lock_word p) = (r, w)"
      "s' = s\<lparr>cheap := (cheap s)(a \<mapsto> set_lock_word w p)\<rparr>"
    by (auto simp: page_writeLock_def bnd_def load_def store_def modify_def andthen_def ret_def split: option.splits prod.splits)
  have "isLocked (lock_word p)" if "a \<in> parked s" using parked_locked [OF assms p(1) that] .
  moreover note C = writeLock_cases [OF p(2)]
  ultimately have w: "a \<in> parked s \<Longrightarrow> isLocked w" and np: "\<not> r \<Longrightarrow> a \<notin> parked s" using unlocked_word by auto
  show "good e V s' \<and> (\<exists>p w. cheap s a = Some p \<and>
      s' = s\<lparr>cheap := (cheap s)(a \<mapsto> set_lock_word w p)\<rparr> \<and> (r \<longrightarrow> w = lock_word p) \<and>
      (\<not> r \<longrightarrow> isLocked w \<and> \<not> isLocked (lock_word p) \<and> a \<notin> parked s))"
    using good_word [OF assms p(1) w] p C np unlocked_word by auto
qed

lemma good_unlock:
  assumes "good e V s" "a \<notin> parked s"
  shows "safe (page_writeUnlock a) s (\<lambda>r s'. good e V s' \<and> (\<exists>p. cheap s a = Some p \<and>
    s' = s\<lparr>cheap := (cheap s)(a \<mapsto> set_lock_word (writeUnlock (lock_word p)) p)\<rparr>))"
  using good_word [OF assms(1)] assms(2) by (auto simp: page_writeUnlock_def wp)

lemma insert_local_set_good:
  assumes good: "good e V s" and p: "cheap s a = Some p" "bitmap (page_hdr p) = 0" "parent_ptr (page_hdr p) = nullptr"
    and res: "a \<notin> reserved s" "a \<notin> ran (cached e s)"
  shows "safe (insert_local_set a) s (\<lambda>_ s'. good e V s' \<and>
    s' = s\<lparr>cheap := (cheap s)(a \<mapsto> set_pos_state 3 p), local_page_set := local_page_set s @ [a]\<rparr>)"
proof -
  let ?s = "s\<lparr>cheap := (cheap s)(a \<mapsto> set_pos_state 3 p), local_page_set := local_page_set s @ [a]\<rparr>"
  have "good e V ?s" if l: "isLocked (lock_word p)"
  proof -
    note G = goodD [OF good]
    have r: "a \<notin> set (qaddrs (hash_table s))" "a \<notin> set (local_page_set s)" "a \<notin> pool_free s" using res(1) by (auto simp: reserved_def parked_def)
    note K = inv6_keep [where h = "cheap s" and a = a and p = p, OF G(2) p l r res(2)]
    show ?thesis by (rule goodI) (use G(1,3) K in simp_all)
  qed
  then show ?thesis using p(1) by (simp add: insert_local_set_def wp)
qed

section \<open>Sampling\<close>

lemma write_back_good:
  assumes good: "good e V s" and p: "cheap s a = Some p" "pos_state (page_hdr p) = 2" "dirty (page_hdr p)" "bitmap (page_hdr p) = 0"
  shows "safe (write_back (remote_address (page_hdr p)) a True) s (\<lambda>_ s'. good e V s' \<and>
    (\<exists>rm. s' = s\<lparr>cheap := (cheap s)(a \<mapsto> set_dirty False p), crm := rm\<rparr>))"
proof -
  let ?g = "remote_address (page_hdr p)"
  note G = goodD [OF good]
  note W = inv6_write_back [where h = "cheap s" and a = a and p = p, OF G(2) p]
  have "remote_write (cheap s) (crm s) ?g a True = Inr ((cheap s)(a \<mapsto> set_dirty False p), (crm s)(?g \<mapsto> flush_copy True p))"
    using p(1) flush_copy_props(3) [of True p] by (simp add: remote_write_def Let_def addr_eq_def)
  moreover have "good e V (s\<lparr>cheap := (cheap s)(a \<mapsto> set_dirty False p), crm := (crm s)(?g \<mapsto> flush_copy True p)\<rparr>)"
    by (rule goodI) (use G(1,3) W in simp_all)
  ultimately show ?thesis by (auto simp: write_back_def wp)
qed

definition keeps_others :: "('z cache_scheme) \<Rightarrow> ptr \<Rightarrow> ('z cache_scheme) \<Rightarrow> bool" where
  "keeps_others s cur s' \<longleftrightarrow> parked s' \<subseteq> insert cur (parked s) \<and> (\<forall>a. a \<noteq> cur \<longrightarrow> a \<notin> parked s \<longrightarrow> cheap s' a = cheap s a)"

lemma cool_page_good:
  fixes s :: "'z cache_scheme"
  assumes good: "good e V s" and p: "cheap s cur = Some p" "pos_state (page_hdr p) = 2" "bitmap (page_hdr p) = 0"
      "parent_ptr (page_hdr p) = nullptr" "isLocked (lock_word p)"
  shows "safe (cool_page e cur) s (\<lambda>_ s'. good e V s' \<and> keeps_others s cur s')"
proof -
  have nr: "cur \<notin> reserved s" by (rule hot_not_reserved [OF good p(1,2)])
  have core: "safe (bnd (cool_insert e key cur) (\<lambda>ev. whenever (ev \<noteq> nullptr) (insert_local_set ev))) s1
      (\<lambda>_ s'. good e V s' \<and> keeps_others s cur s')"
    if s1: "good e V s1" "cheap s1 cur = Some q" "\<not> dirty (page_hdr q)" "bitmap (page_hdr q) = 0" "parent_ptr (page_hdr q) = nullptr"
      "isLocked (lock_word q)" "hash_table s1 = hash_table s" "local_page_set s1 = local_page_set s" "cur \<notin> reserved s1"
      "\<And>a. a \<noteq> cur \<Longrightarrow> cheap s1 a = cheap s a" for s1 :: "'z cache_scheme" and q key
    unfolding wp_bnd
  proof (rule safe_mono [OF cool_insert_ok [OF s1(1-6,9)]], elim conjE)
    fix ev and s2 :: "'z cache_scheme"
    assume 2: "good e V s2" "parked s2 \<subseteq> insert cur (parked s1)" "\<forall>a. a \<noteq> cur \<longrightarrow> cheap s2 a = cheap s1 a"
      and ev: "ev \<noteq> nullptr \<longrightarrow> ev \<in> set (qaddrs (hash_table s1)) \<and> ev \<notin> reserved s2 \<and> ev \<notin> ran (cached e s2) \<and> idle_page 1 (cheap s2) ev"
    have pk: "parked s1 = parked s" using s1(7,8) by (simp add: parked_def)
    have k2: "keeps_others s cur s2" using 2(2,3) s1(10) pk by (simp add: keeps_others_def)
    show "safe (whenever (ev \<noteq> nullptr) (insert_local_set ev)) s2 (\<lambda>_ s'. good e V s' \<and> keeps_others s cur s')"
    proof (cases "ev = nullptr")
      case True
      then show ?thesis using 2(1) k2 by (simp add: wp)
    next
      case False
      then obtain q where q: "cheap s2 ev = Some q" "bitmap (page_hdr q) = 0" "parent_ptr (page_hdr q) = nullptr"
        using ev by (auto simp: idle_page_def)
      have evp: "ev \<in> parked s" using ev False pk by (auto simp: parked_def)
      have "ev \<notin> reserved s2" "ev \<notin> ran (cached e s2)" using ev False by simp_all
      from insert_local_set_good [OF 2(1) q this]
      have "safe (insert_local_set ev) s2 (\<lambda>_ s'. good e V s' \<and> keeps_others s cur s')"
        by (rule safe_mono) (use k2 evp in \<open>auto simp: keeps_others_def parked_def\<close>)
      then show ?thesis using False by (simp add: wp)
    qed
  qed
  show ?thesis
  proof (cases "dirty (page_hdr p)")
    case True
    have "safe (write_back (remote_address (page_hdr p)) cur True) s
        (\<lambda>_ s1. safe (bnd (cool_insert e (remote_address (page_hdr p)) cur) (\<lambda>ev. whenever (ev \<noteq> nullptr) (insert_local_set ev))) s1
          (\<lambda>_ s'. good e V s' \<and> keeps_others s cur s'))"
    proof (rule safe_mono [OF write_back_good [OF good p(1,2) True p(3)]], elim conjE exE)
      fix x :: unit and s1 :: "'z cache_scheme" and rm assume s1: "good e V s1" "s1 = s\<lparr>cheap := (cheap s)(cur \<mapsto> set_dirty False p), crm := rm\<rparr>"
      show "safe (bnd (cool_insert e (remote_address (page_hdr p)) cur) (\<lambda>ev. whenever (ev \<noteq> nullptr) (insert_local_set ev))) s1
          (\<lambda>_ s'. good e V s' \<and> keeps_others s cur s')"
        by (rule core [OF s1(1), of "set_dirty False p"]) (use p nr s1(2) in auto)
    qed
    then show ?thesis using p(1) True by (simp add: cool_page_def wp)
  next
    case False
    then show ?thesis using core [OF good p(1) False p(3-5) refl refl nr refl] p(1) by (simp add: cool_page_def wp)
  qed
qed

lemma findIdx_found:
  assumes "findIdx n v = int i" "inner_wf n"
  shows "i < length (kids n)" "kids n ! i = v"
proof -
  have loop: "findIdx_loop cs v j e = int i \<Longrightarrow> j \<le> i \<and> i < e \<and> cs ! i = v" for cs j e
  proof (induction cs v j e rule: findIdx_loop.induct)
    case (1 cs v j e)
    show ?case
    proof (cases "j < e")
      case True
      then show ?thesis using "1.IH" "1.prems" by (subst (asm) findIdx_loop.simps) (auto split: if_splits)
    next
      case False
      then show ?thesis using "1.prems" by (subst (asm) findIdx_loop.simps) simp
    qed
  qed
  have "i < unat (count n) + 1" "children n ! i = v" using loop assms(1) unfolding findIdx_def by blast+
  then show "i < length (kids n)" "kids n ! i = v" using inner_wfD(7) [OF assms(2)] by (simp_all add: kids_def)
qed

lemma findIdx_range: "findIdx n v = - 1 \<or> 0 \<le> findIdx n v"
proof -
  have "findIdx_loop cs v j e = - 1 \<or> 0 \<le> findIdx_loop cs v j e" for cs j e
  proof (induction cs v j e rule: findIdx_loop.induct)
    case (1 cs v j e)
    then show ?case by (subst (1 2) findIdx_loop.simps) simp
  qed
  then show ?thesis by (simp add: findIdx_def)
qed

text \<open>The walk reports through which pointer of which node it came.\<close>

definition reached_by :: "heap \<Rightarrow> ptr \<Rightarrow> int \<Rightarrow> bool" where
  "reached_by h b idx \<longleftrightarrow> (\<exists>par n. h par = Some (Inner n) \<and> 0 \<le> idx \<and> nat idx < length (kids n) \<and>
     swizzled (kids n ! nat idx) \<and> kids n ! nat idx AND swizzle_hide = b)"

definition word_changed :: "heap \<Rightarrow> heap \<Rightarrow> bool" where
  "word_changed h h' \<longleftrightarrow> h' = h \<or> (\<exists>b q w. h b = Some q \<and> \<not> isLocked (lock_word q) \<and> h' = h(b \<mapsto> set_lock_word w q))"

lemma take_candidate_idx:
  "take_candidate h a p w i ref = Inr (cur, idx, h') \<Longrightarrow> h a = Some p \<Longrightarrow> \<not> isLocked (lock_word p) \<Longrightarrow>
   idx = i \<and> (cur = None \<or> cur = Some a) \<and> word_changed h h'"
  by (auto simp: take_candidate_def word_changed_def Let_def split: prod.splits if_splits)

lemma recursive_iterate_reached:
  assumes "links_ok h" "h a = Some p" "recursive_iterate h a i = Some (Inr (cur, idx, h'))"
  shows "word_changed h h' \<and> (\<forall>b. cur = Some b \<longrightarrow> b = a \<and> idx = i \<or> reached_by h b idx)"
  using assms(2,3)
proof (induction "page_level p" arbitrary: a p i rule: less_induct)
  case less
  note W = links_walk_ok [OF assms(1)]
  let ?w = "lock_word p"
  consider (locked) "isLocked ?w \<or> isObsolete ?w" | (flat) "\<not> (isLocked ?w \<or> isObsolete ?w)" "bitmap (page_hdr p) = 0"
    | (deep) "\<not> (isLocked ?w \<or> isObsolete ?w)" "bitmap (page_hdr p) \<noteq> 0" by blast
  then show ?case
  proof cases
    case locked
    then show ?thesis using less.prems
      by (subst (asm) recursive_iterate.simps) (simp add: readLockOrRestart_def Let_def word_changed_def)
  next
    case flat
    then have "take_candidate h a p ?w i (pos_state (page_hdr p) \<noteq> 2) = Inr (cur, idx, h')"
      using less.prems by (subst (asm) recursive_iterate.simps) (simp add: readLockOrRestart_def Let_def)
    then show ?thesis using take_candidate_idx less.prems(1) flat by fastforce
  next
    case deep
    note nl = deep(1) and False = deep(2)
    obtain n where n: "p = Inner n" using False less.prems(1) links_okD(2) [OF assms(1)] by (cases p) auto
    have b0: "bitmap n \<noteq> 0" using False n by simp
    have mem: "h a = Some (Inner n)" using less.prems n by simp
    obtain j where j: "closest_set n (unat (murmur64 a mod of_nat (unat (count n) + 1))) = int j"
        "j < length (kids n)" "swizzled (kids n ! j)" "children n ! j = kids n ! j"
      using closest_child [OF walk_okD(2) [OF W mem] b0 start_index_bound] .
    obtain q where q: "h (kids n ! j AND swizzle_hide) = Some q" "page_level q < page_level p"
      using walk_okD(3) [OF W mem j(2,3)] n by auto
    have sw: "kids n ! j AND swizzle_tag \<noteq> 0" using j(3) by (simp add: swizzled_def)
    have "recursive_iterate h a i = recursive_iterate h (kids n ! j AND swizzle_hide) (int j)"
      using mem nl b0 n j(1,4) sw by (subst recursive_iterate.simps) (simp add: readLockOrRestart_def Let_def)
    then have "word_changed h h' \<and> (\<forall>b. cur = Some b \<longrightarrow> b = kids n ! j AND swizzle_hide \<and> idx = int j \<or> reached_by h b idx)"
      using less.hyps [OF q(2,1)] less.prems(2) by simp
    then show ?thesis using mem j unfolding reached_by_def by (metis nat_int of_nat_0_le_iff)
  qed
qed

lemma good_walk:
  assumes good: "good e V s" and a: "cheap s a = Some p"
    and run: "recursive_iterate (cheap s) a (- 1) = Some (Inr (Some b, idx, h'))"
  shows "\<exists>q. cheap s b = Some q \<and> h' = (cheap s)(b \<mapsto> set_lock_word (lock_word q + 0b100) q) \<and> bitmap (page_hdr q) = 0 \<and>
    pos_state (page_hdr q) = 2 \<and> \<not> isLocked (lock_word q) \<and> (idx = - 1 \<or> reached_by (cheap s) b idx)"
proof -
  note L = inv6D(1) [OF goodD(2) [OF good]]
  obtain r where r: "recursive_iterate (cheap s) a (- 1) = Some r" "candidate (cheap s) r"
    using recursive_iterate_ok [OF links_walk_ok [OF L] a] by blast
  then have "candidate (cheap s) (Inr (Some b, idx, h'))" using run by simp
  then show ?thesis using recursive_iterate_reached [OF L a run] unfolding candidate_def by auto
qed


lemma good_unlink:
  assumes good: "good e V s" and par: "cheap s par = Some (Inner n)" and i: "i < length (kids n)" "kids n ! i = cur OR swizzle_tag"
    and cur: "cheap s cur = Some p" "par \<noteq> cur" "cur \<notin> reserved s"
  defines "s1 \<equiv> s\<lparr>cheap := (cheap s)(par \<mapsto> Inner (unlink n i (remote_address (page_hdr p))))\<rparr>"
  shows "good e V s1" "good e V (s1\<lparr>cheap := (cheap s1)(cur \<mapsto> set_parent_ptr nullptr p)\<rparr>)"
proof -
  note G = goodD [OF good]
  note T = local_addr_tag [OF good_local [OF good cur(1)]]
  have k: "swizzled (kids n ! i)" "cheap s (kids n ! i AND swizzle_hide) = Some p" "kids n ! i AND swizzle_hide = cur"
    using T i(2) cur(1) by simp_all
  note U = inv6_unlink [where h = "cheap s" and par = par, OF G(2) par i(1) k(1,2)]
  have h1: "cheap s1 = (cheap s)(par \<mapsto> Inner (unlink n i (remote_address (page_hdr p))))" by (simp add: s1_def)
  have s1: "crm s1 = crm s" "cached e s1 = cached e s" "qaddrs (hash_table s1) = qaddrs (hash_table s)" "local_page_set s1 = local_page_set s"
      "pool_free s1 = pool_free s" "static_ok s1" "reserved s1 = reserved s" using G(1) by (simp_all add: s1_def)
  show g1: "good e V s1" by (rule goodI) (use U(1,2) G(3) s1 in \<open>simp_all add: h1\<close>)
  have cur1: "cheap s1 cur = Some p" using cur by (simp add: h1)
  have none: "kids m ! j AND swizzle_hide \<noteq> cur" if "cheap s1 b = Some (Inner m)" "j < length (kids m)" "swizzled (kids m ! j)" for b m j
    using U(3) [of b m j] that k(3) by (simp add: h1)
  have r: "cur \<notin> set (qaddrs (hash_table s1))" "cur \<notin> set (local_page_set s1)" "cur \<notin> pool_free s1"
    using cur(3) s1 by (auto simp: reserved_def parked_def)
  note O = inv6_orphan [where h = "cheap s1" and a = cur and q = nullptr, OF goodD(2) [OF g1] cur1 none r]
  show "good e V (s1\<lparr>cheap := (cheap s1)(cur \<mapsto> set_parent_ptr nullptr p)\<rparr>)"
    by (rule goodI) (use O goodD [OF g1] in simp_all)
qed

lemma sample_child_good:
  fixes s :: "'z cache_scheme"
  assumes good: "good e V s" and p: "cheap s cur = Some p" "pos_state (page_hdr p) = 2" "bitmap (page_hdr p) = 0" "isLocked (lock_word p)"
    and par: "parent_ptr (page_hdr p) = parent"
    and idx: "idx = - 1 \<or> (\<exists>n. cheap s parent = Some (Inner n) \<and> 0 \<le> idx \<and> nat idx < length (kids n) \<and> kids n ! nat idx = cur OR swizzle_tag)"
  shows "safe (sample_child e cur parent idx) s (\<lambda>_ s'. good e V s')"
proof -
  have nr: "cur \<notin> reserved s" by (rule hot_not_reserved [OF good p(1,2)])
  then have np: "cur \<notin> parked s" by (simp add: reserved_def)
  let ?rest = "\<lambda>needRestart. if needRestart then andthen (page_writeUnlock cur) (ret False)
      else bnd (header cur) (\<lambda>c.
        if parent_ptr c \<noteq> parent then andthen (page_writeUnlock parent) (andthen (page_writeUnlock cur) (ret False))
        else bnd (load_inner parent) (\<lambda>pn.
          let i = (if idx = - 1 then findIdx pn (cur OR swizzle_tag) else idx) in
          if i = - 1 then fail Stuck
          else andthen (assert_that (check_parent_child_info pn cur c))
            (andthen (store parent (Inner (unset_bitmap (pn\<lparr>children := (children pn)[nat i := remote_address c]\<rparr>) (nat i))))
            (andthen (change cur (set_parent_ptr nullptr))
            (andthen (cool_page e cur)
            (andthen (page_writeUnlock parent) (ret True)))))))"
  have "safe (?rest r) s1 (\<lambda>_ s'. good e V s')"
    if s1: "good e V s1" "cheap s parent = Some q" "s1 = s\<lparr>cheap := (cheap s)(parent \<mapsto> set_lock_word w q)\<rparr>"
      "r \<longrightarrow> w = lock_word q" "\<not> r \<longrightarrow> isLocked w \<and> \<not> isLocked (lock_word q) \<and> parent \<notin> parked s" for r s1 q w
  proof (cases r)
    case True
    have "cur \<notin> parked s1" using np s1(3) by simp
    then show ?thesis using True safe_mono [OF good_unlock [OF s1(1)]] by (auto simp: wp)
  next
    case False
    then have ne: "parent \<noteq> cur" using s1(2,5) p(1,4) by auto
    have cur1: "cheap s1 cur = Some p" using p(1) ne s1(3) by simp
    have pp: "parent \<notin> parked s1" using False s1(3,5) by simp
    have nr1: "cur \<notin> reserved s1" using nr s1(3) by simp
    have main: "safe (andthen (store parent (Inner (unset_bitmap (pn\<lparr>children := (children pn)[nat i := remote_address (page_hdr p)]\<rparr>) (nat i))))
            (andthen (change cur (set_parent_ptr nullptr)) (andthen (cool_page e cur) (andthen (page_writeUnlock parent) (ret True))))) s1
            (\<lambda>_ s'. good e V s')"
      if pn: "cheap s1 parent = Some (Inner pn)" "i = (if idx = - 1 then findIdx pn (cur OR swizzle_tag) else idx)" "i \<noteq> - 1" for pn i
    proof -
      have wf: "inner_wf pn" using inner_okD(1) [OF links_okD(3) [OF inv6D(1) [OF goodD(2) [OF s1(1)]] pn(1)]] .
      obtain n where n: "q = Inner n" "kids pn = kids n"
      proof -
        have "set_lock_word w q = Inner pn" using pn(1) s1(3) by simp
        then show thesis using that by (cases q) (auto simp: kids_def)
      qed
      have k: "nat i < length (kids pn)" "kids pn ! nat i = cur OR swizzle_tag"
      proof -
        have "nat i < length (kids pn) \<and> kids pn ! nat i = cur OR swizzle_tag"
        proof (cases "idx = - 1")
          case True
          then have "i = findIdx pn (cur OR swizzle_tag)" using pn(2) by simp
          moreover have "0 \<le> i" using findIdx_range [of pn "cur OR swizzle_tag"] pn(3) calculation by auto
          ultimately have "findIdx pn (cur OR swizzle_tag) = int (nat i)" by simp
          then show ?thesis using findIdx_found [OF _ wf] by blast
        next
          case False
          then show ?thesis using idx pn(2) s1(2) n by auto
        qed
        then show "nat i < length (kids pn)" "kids pn ! nat i = cur OR swizzle_tag" by auto
      qed
      note U = good_unlink(2) [where s = s1 and par = parent, OF s1(1) pn(1) k cur1 ne nr1]
      let ?s3 = "s1\<lparr>cheap := (cheap s1)(parent \<mapsto> Inner (unlink pn (nat i) (remote_address (page_hdr p))), cur \<mapsto> set_parent_ptr nullptr p)\<rparr>"
      have g3: "good e V ?s3" using U by simp
      have cur3: "cheap ?s3 cur = Some (set_parent_ptr nullptr p)" "cheap ?s3 parent = Some (Inner (unlink pn (nat i) (remote_address (page_hdr p))))"
        using ne by simp_all
      have "safe (cool_page e cur) ?s3 (\<lambda>_ s'. good e V s' \<and> keeps_others ?s3 cur s')"
        by (rule cool_page_good [OF g3 cur3(1)]) (use p in simp_all)
      then have "safe (cool_page e cur) ?s3 (\<lambda>_ s'. safe (page_writeUnlock parent) s' (\<lambda>_ s'. good e V s'))"
      proof (rule safe_mono, elim conjE)
        fix x and s' :: "'z cache_scheme" assume g: "good e V s'" "keeps_others ?s3 cur s'"
        have "parent \<notin> parked s'" using g(2) pp ne by (auto simp: keeps_others_def)
        then show "safe (page_writeUnlock parent) s' (\<lambda>_ s'. good e V s')" using good_unlock [OF g(1)] safe_mono by fastforce
      qed
      then show ?thesis using cur1 ne by (simp add: wp unlink_def)
    qed
    have u: "safe (andthen (page_writeUnlock parent) (andthen (page_writeUnlock cur) (ret False))) s1 (\<lambda>_ s'. good e V s')"
      unfolding wp
    proof (rule safe_mono [OF good_unlock [OF s1(1) pp]], elim conjE exE)
      fix x y and s2 :: "'z cache_scheme"
      assume g: "good e V s2" "s2 = s1\<lparr>cheap := (cheap s1)(parent \<mapsto> set_lock_word (writeUnlock (lock_word y)) y)\<rparr>"
      then have "cur \<notin> parked s2" using np s1(3) by simp
      then show "safe (page_writeUnlock cur) s2 (\<lambda>_ s'. good e V s')" using good_unlock [OF g(1)] safe_mono by fastforce
    qed
    show ?thesis using False cur1 main u by (simp add: wp par)
  qed
  note rest = this
  show ?thesis
    unfolding sample_child_def wp_bnd wp_header wp_andthen wp_assert
  proof (intro allI impI)
    show "safe (page_writeLock parent False) s (\<lambda>r s1. safe (?rest r) s1 (\<lambda>_ s'. good e V s'))"
      by (rule safe_mono [OF good_writeLock [OF good]]) (use rest in blast)
  qed
qed

lemma random_select_good:
  assumes "good e V s"
  shows "safe random_select s (\<lambda>_ s'. good e V s' \<and> (\<exists>r. s' = s\<lparr>rnd := r\<rparr>))"
proof (rule safeI)
  fix x s' assume run: "random_select s = Some (Inr (x, s'))"
  have "s' = s\<lparr>rnd := \<lambda>i. rnd s (Suc i)\<rparr>"
    using run unfolding random_select_def bnd_def gets_def draw_def by (simp split: if_splits)
  then show "good e V s' \<and> (\<exists>r. s' = s\<lparr>rnd := r\<rparr>)" using assms by auto
qed

lemma sample_once_good:
  fixes s :: "'z cache_scheme"
  assumes good: "good e V s"
  shows "safe (sample_once e) s (\<lambda>_ s'. good e V s')"
proof -
  let ?walk = "\<lambda>page. lift WrError (\<lambda>s. map_option (\<lambda>r. case r of
      Inl er \<Rightarrow> Inl er | Inr (cur, idx, h) \<Rightarrow> Inr ((cur, idx), s\<lparr>cheap := h\<rparr>)) (recursive_iterate (cheap s) page (- 1)))"
  let ?tail = "\<lambda>(cur, idx). case cur of
      None \<Rightarrow> ret False
    | Some cur_page \<Rightarrow> bnd (header cur_page) (\<lambda>c. let parent = parent_ptr c in
        if parent = nullptr then andthen (cool_page e cur_page) (ret True)
        else bnd (header parent) (\<lambda>ph. if level ph \<noteq> 255 then sample_child e cur_page parent idx
          else andthen (page_writeUnlock cur_page) (ret False)))"
  have tail: "safe (?tail (cur, idx)) (s1\<lparr>cheap := h'\<rparr>) (\<lambda>_ s'. good e V s')"
    if g: "good e V s1" "cheap s1 page = Some p" and run: "recursive_iterate (cheap s1) page (- 1) = Some (Inr (cur, idx, h'))"
    for cur idx h' page p and s1 :: "'z cache_scheme"
  proof (cases cur)
    case None
    have "good e V (s1\<lparr>cheap := h'\<rparr>)" if wc: "word_changed (cheap s1) h'"
    proof (cases "h' = cheap s1")
      case False
      then obtain b q w where b: "cheap s1 b = Some q" "\<not> isLocked (lock_word q)" "h' = (cheap s1)(b \<mapsto> set_lock_word w q)"
        using wc by (auto simp: word_changed_def)
      show ?thesis unfolding b(3) by (rule good_word [OF g(1) b(1)]) (use parked_locked [OF g(1) b(1)] b(2) in blast)
    qed (use g(1) in simp)
    then have "good e V (s1\<lparr>cheap := h'\<rparr>)"
      using recursive_iterate_reached [OF inv6D(1) [OF goodD(2) [OF g(1)]] g(2) run] by blast
    then show ?thesis using None by (simp add: wp)
  next
    case (Some b)
    obtain q where q: "cheap s1 b = Some q" "h' = (cheap s1)(b \<mapsto> set_lock_word (lock_word q + 0b100) q)" "bitmap (page_hdr q) = 0"
        "pos_state (page_hdr q) = 2" "\<not> isLocked (lock_word q)" "idx = - 1 \<or> reached_by (cheap s1) b idx"
      using good_walk [OF g] run Some by blast
    let ?p = "set_lock_word (lock_word q + 0b100) q" and ?s = "s1\<lparr>cheap := h'\<rparr>"
    have nr: "b \<notin> reserved s1" by (rule hot_not_reserved [OF g(1) q(1,4)])
    then have np: "b \<notin> parked s1" by (simp add: reserved_def)
    have g2: "good e V ?s" unfolding q(2) by (rule good_word [OF g(1) q(1)]) (use np in simp)
    have cur: "cheap ?s b = Some ?p" by (simp add: q(2))
    have pr: "pos_state (page_hdr ?p) = 2" "bitmap (page_hdr ?p) = 0" "isLocked (lock_word ?p)" "parent_ptr (page_hdr ?p) = parent_ptr (page_hdr q)"
      using q(3,4) upgraded_locked [OF q(5)] by simp_all
    have un: "safe (page_writeUnlock b) ?s (\<lambda>_ s'. good e V s')"
      using safe_mono [OF good_unlock [OF g2, of b]] np by auto
    have cool: "safe (cool_page e b) ?s (\<lambda>_ s'. good e V s')" if "parent_ptr (page_hdr q) = nullptr"
      using safe_mono [OF cool_page_good [OF g2 cur pr(1,2) _ pr(3)]] that pr(4) by auto
    have child: "safe (sample_child e b (parent_ptr (page_hdr q)) idx) ?s (\<lambda>_ s'. good e V s')"
    proof (rule sample_child_good [OF g2 cur pr])
      show "idx = - 1 \<or> (\<exists>n. cheap ?s (parent_ptr (page_hdr q)) = Some (Inner n) \<and> 0 \<le> idx \<and> nat idx < length (kids n) \<and> kids n ! nat idx = b OR swizzle_tag)"
      proof (cases "idx = - 1")
        case False
        then obtain par n where r: "cheap s1 par = Some (Inner n)" "0 \<le> idx" "nat idx < length (kids n)" "swizzled (kids n ! nat idx)"
            "kids n ! nat idx AND swizzle_hide = b" using q(6) unfolding reached_by_def by blast
        note L = inv6D(1) [OF goodD(2) [OF g(1)]]
        have "kids n ! nat idx = b OR swizzle_tag" using swizzled_split [OF r(4)] r(5) by simp
        moreover have "parent_ptr (page_hdr q) = par" using parent_of_kid(1) [OF L r(1,3,4,5) q(1)] .
        moreover have "par \<noteq> b" using no_swizzled_kids [OF inner_okD(1) [OF links_okD(3) [OF L r(1)]]] r(1,3,4) q(1,3) by auto
        ultimately show ?thesis using r by (auto simp: q(2))
      qed simp
    qed
    show ?thesis using Some cur cool child un pr(4) by (auto simp: wp Let_def)
  qed
  have step: "safe (bnd (?walk page) ?tail) s1 (\<lambda>_ s'. good e V s')"
    if g: "good e V s1" "cheap s1 page = Some p" for page p and s1 :: "'z cache_scheme"
    unfolding wp_bnd
  proof (rule safeI)
    fix r s2 assume "?walk page s1 = Some (Inr (r, s2))"
    then obtain cur idx h' where w: "recursive_iterate (cheap s1) page (- 1) = Some (Inr (cur, idx, h'))" "r = (cur, idx)" "s2 = s1\<lparr>cheap := h'\<rparr>"
      by (cases "recursive_iterate (cheap s1) page (- 1)") (auto simp: lift_run split: sum.split_asm)
    show "safe (?tail r) s2 (\<lambda>_ s'. good e V s')" using tail [OF g w(1)] w by simp
  qed
  show ?thesis
    unfolding sample_once_def wp_bnd [of random_select]
  proof (rule safe_mono [OF random_select_good [OF good]], elim conjE exE)
    fix page r and s1 :: "'z cache_scheme" assume g: "good e V s1" "s1 = s\<lparr>rnd := r\<rparr>"
    show "safe (bnd (header page) (\<lambda>p. if pos_state p \<noteq> 2 then ret False else bnd (?walk page) ?tail)) s1 (\<lambda>_ s'. good e V s')"
      using step [OF g(1)] g(1) by (simp add: wp_bnd(2) [of "header page"] wp_header wp_if wp_ret)
  qed
qed

lemma sample_page_good:
  assumes "good e V s"
  shows "safe (sample_page e) s (\<lambda>_ s'. good e V s')"
  unfolding sample_page_def
proof (rule safe_iterate [where I = "\<lambda>_ s. good e V s", OF _ assms])
  fix c and s :: "'b cache_scheme" assume g: "good e V s"
  show "safe (if c + 1 \<ge> 1000 then fail Exited else bnd (sample_once e) (\<lambda>fin. ret (if fin then Inr () else Inl (c + 1)))) s
    (\<lambda>r s'. case r of Inl x' \<Rightarrow> good e V s' | Inr a \<Rightarrow> good e V s')"
    using safe_mono [OF sample_once_good [OF g]] by (auto simp: wp split: sum.splits)
qed

lemma sample_multiple_good:
  "good e V s \<Longrightarrow> safe (sample_multiple_pages e n) s (\<lambda>_ s'. good e V s')"
proof (induction n arbitrary: s)
  case (Suc n)
  show ?case unfolding sample_multiple_pages.simps wp
    by (rule safe_mono [OF sample_page_good [OF Suc.prems]]) (rule Suc.IH)
qed (simp add: wp)

section \<open>Empty pages\<close>

text \<open>A page the thread has taken for itself: locked, detached and known to no table.\<close>

definition taken :: "cm_env \<Rightarrow> ('z cache_scheme) \<Rightarrow> ptr \<Rightarrow> bool" where
  "taken e s a \<longleftrightarrow> (\<exists>p. cheap s a = Some p \<and> bitmap (page_hdr p) = 0 \<and> parent_ptr (page_hdr p) = nullptr \<and>
     pos_state (page_hdr p) \<noteq> 2 \<and> isLocked (lock_word p)) \<and> a \<notin> reserved s \<and> a \<notin> ran (cached e s)"

lemma good_table:
  assumes "good e V s" "i < length (ct_buckets (hash_table s))" "bucket_addrs b = bucket_addrs (ct_buckets (hash_table s) ! i)" "cbucket_ok b"
  shows "good e V (s\<lparr>hash_table := (hash_table s)\<lparr>ct_buckets := (ct_buckets (hash_table s))[i := b]\<rparr>\<rparr>)"
proof -
  let ?t = "(hash_table s)\<lparr>ct_buckets := (ct_buckets (hash_table s))[i := b]\<rparr>"
  note G = goodD [OF assms(1)]
  have "x \<in> set (ct_buckets ?t) \<Longrightarrow> cbucket_ok x" for x
    using G(1) assms(4) set_update_subset_insert [of "ct_buckets (hash_table s)" i b] by (auto simp: static_ok_def)
  then have "static_ok (s\<lparr>hash_table := ?t\<rparr>)" using G(1) by (simp add: static_ok_def)
  moreover have "cached e (s\<lparr>hash_table := ?t\<rparr>) = cached e s" by (simp add: cached_def [abs_def])
  ultimately show ?thesis using G(2,3) qaddrs_lock [OF assms(2,3)] by (intro goodI) simp_all
qed

lemma evict_probe_good:
  fixes s :: "'z cache_scheme"
  shows "good e V s \<Longrightarrow> evict_probe (hash e) (cheap s) (hash_table s) page i n = Some (Inr (r, ev, t')) \<Longrightarrow>
    i + n \<le> length (ct_buckets (hash_table s)) \<Longrightarrow>
    good e V (s\<lparr>hash_table := t'\<rparr>) \<and> (r = 0 \<and> taken e (s\<lparr>hash_table := t'\<rparr>) ev \<or> r = - 1 \<and> ev = page)"
proof (induction n arbitrary: s i)
  case 0
  then have "t' = hash_table s" "r = - 1" "ev = page" by auto
  then show ?case using "0.prems"(1) by simp
next
  case (Suc n)
  let ?t = "hash_table s" and ?h = "cheap s"
  let ?b = "ct_buckets ?t ! i"
  note G = goodD [OF Suc.prems(1)]
  note I = inv6D [OF G(2)]
  have ix: "i < length (ct_buckets ?t)" using Suc.prems(3) by simp
  have bok: "cbucket_ok ?b" "table_ok (ptable s)" using G(1) ix by (auto simp: static_ok_def)
  obtain got w where tl: "Lock_try_get_lock (cb_lock ?b) (cb_lock ?b) = (got, w)" by fastforce
  show ?case
  proof (cases "\<not> got")
    case True
    then show ?thesis using Suc.IH [OF Suc.prems(1), of "Suc i"] Suc.prems(2,3) tl by simp
  next
    case False
    obtain succ ev1 b' where el: "evict_last ?h ?b page = Inr (succ, ev1, b')"
      using Suc.prems(2) tl False by (auto simp: Let_def split: sum.splits)
    show ?thesis
    proof (cases "cb_count ?b = 0")
      case True
      let ?b1 = "?b\<lparr>cb_lock := Lock_release_lock w\<rparr>"
      let ?t1 = "?t\<lparr>ct_buckets := (ct_buckets ?t)[i := ?b1]\<rparr>"
      have "succ = - 1" "ev1 = page" using el True by (simp_all add: evict_last_def)
      then have run: "evict_probe (hash e) (cheap (s\<lparr>hash_table := ?t1\<rparr>)) (hash_table (s\<lparr>hash_table := ?t1\<rparr>)) page (Suc i) n = Some (Inr (r, ev, t'))"
        using Suc.prems(2) tl False el by (simp add: Let_def)
      have g1: "good e V (s\<lparr>hash_table := ?t1\<rparr>)" by (rule good_table [OF Suc.prems(1) ix]) (use bok(1) in simp_all)
      show ?thesis using Suc.IH [OF g1 run] Suc.prems(3) by simp
    next
      case nz: False
      note Q = evict_last_queue [OF bok(1) nz el]
      let ?b1 = "b'\<lparr>cb_lock := Lock_release_lock w\<rparr>"
      obtain q flag pt where q: "?h ev1 = Some q" "remove_with_lock (hash e) (ptable s) (remote_address (page_hdr q)) ev1 = Some (flag, pt)"
        and res: "r = 0" "ev = ev1" "t' = ?t\<lparr>ct_buckets := (ct_buckets ?t)[i := ?b1], ct_page_table := pt\<rparr>"
        using Suc.prems(2) tl False el Q(1) by (auto simp: Let_def split: option.splits)
      have ne: "cqueue ?b \<noteq> []" using nz cqueue_length [OF bok(1)] by auto
      have ba: "bucket_addrs ?b = butlast (bucket_addrs ?b) @ [ev1]" "bucket_addrs b' = butlast (bucket_addrs ?b)"
      proof -
        have "bucket_addrs ?b \<noteq> []" "last (bucket_addrs ?b) = ev1" using ne Q(2) by (simp_all add: bucket_addrs_def last_map)
        then show "bucket_addrs ?b = butlast (bucket_addrs ?b) @ [ev1]" using append_butlast_last_id by metis
        show "bucket_addrs b' = butlast (bucket_addrs ?b)" using Q(3) by (simp add: bucket_addrs_def map_butlast)
      qed
      let ?A = "concat (map bucket_addrs (take i (ct_buckets ?t)))" and ?B = "concat (map bucket_addrs (drop (Suc i) (ct_buckets ?t)))"
      have qs: "qaddrs ?t = ?A @ bucket_addrs ?b @ ?B" by (rule qaddrs_split [OF ix])
      have "qaddrs t' = qaddrs (?t\<lparr>ct_buckets := (ct_buckets ?t)[i := ?b1]\<rparr>)" by (simp add: res(3) qaddrs_def)
      also have "\<dots> = ?A @ bucket_addrs ?b1 @ ?B" by (rule qaddrs_update [OF ix])
      finally have qs': "qaddrs t' = ?A @ butlast (bucket_addrs ?b) @ ?B" by (simp add: ba(2))
      have dq: "distinct (?A @ (butlast (bucket_addrs ?b) @ [ev1]) @ ?B)" using I(5) qs ba(1) by (simp add: reserved_ok_def)
      have evq: "ev1 \<in> set (qaddrs ?t)" "ev1 \<notin> set (qaddrs t')" "distinct (qaddrs t')" "set (qaddrs t') \<subseteq> set (qaddrs ?t)"
      proof -
        have "ev1 \<in> set (butlast (bucket_addrs ?b) @ [ev1])" by simp
        then have "ev1 \<in> set (bucket_addrs ?b)" using ba(1) by metis
        then show "ev1 \<in> set (qaddrs ?t)" unfolding qs by simp
        show "ev1 \<notin> set (qaddrs t')" "distinct (qaddrs t')" unfolding qs' using dq by auto
        show "set (qaddrs t') \<subseteq> set (qaddrs ?t)" unfolding qs' qs by (auto dest: in_set_butlastD)
      qed
      have idle: "idle_page 1 ?h ev1" using I(5) evq(1) by (simp add: reserved_ok_def)
      have la: "local_addr ev1" by (rule idle_local [OF I(1) idle])
      let ?s = "s\<lparr>hash_table := t'\<rparr>"
      have pts: "ptable ?s = pt" by (simp add: res(3))
      note CR = cached_remove [OF bok(2) la q(2) pts]
      note E = inv6_evict [OF G(2) idle q(1), folded CR(1)]
      have inv: "inv6 ?h (crm s) (cached e ?s) (qaddrs t') (local_page_set s) (pool_free s)"
        by (rule inv6_sub [OF E(1) evq(3,4)]) (use I(5) in \<open>auto simp: reserved_ok_def\<close>)
      have "x \<in> set (ct_buckets t') \<Longrightarrow> cbucket_ok x" for x
        using G(1) Q(4) set_update_subset_insert [of "ct_buckets ?t" i ?b1] by (auto simp: static_ok_def res(3))
      then have "static_ok ?s" using G(1) CR(2) by (simp add: static_ok_def res(3))
      then have "good e V ?s" using inv E(2) G(3) by (intro goodI) simp_all
      moreover have "ev1 \<notin> set (local_page_set s)" "ev1 \<notin> pool_free s"
        using I(5) idle by (auto simp: reserved_ok_def idle_page_def)
      then have "taken e ?s ev1"
        using idle evq(2) E(3) by (auto simp: taken_def idle_page_def reserved_def parked_def)
      ultimately show ?thesis using res(1,2) by simp
    qed
  qed
qed

lemma random_evict_good:
  assumes "good e V s"
  shows "safe (random_evict e n) s (\<lambda>(r, page) s'. good e V s' \<and> (r = 0 \<and> taken e s' page \<or> r = - 1 \<and> page = nullptr))"
proof (rule safeI)
  fix x s' assume run: "random_evict e n s = Some (Inr (x, s'))"
  let ?s = "s\<lparr>rnd := \<lambda>i. rnd s (Suc i)\<rparr>"
  let ?idx = "rnd s 0 mod length (ct_buckets (hash_table s))"
  obtain r page t' where ev: "random_evict_to_remote (hash e) (cheap ?s) (hash_table ?s) nullptr ?idx n = Some (Inr (r, page, t'))"
      "x = (r, page)" "s' = ?s\<lparr>hash_table := t'\<rparr>"
    using run unfolding random_evict_def bnd_def gets_def draw_def
    by (cases "random_evict_to_remote (hash e) (cheap s) (hash_table s) nullptr ?idx n") (auto simp: lift_run split: sum.split_asm)
  have "ct_buckets (hash_table s) \<noteq> []" using goodD(1) [OF assms] by (simp add: static_ok_def)
  then have "?idx < length (ct_buckets (hash_table s))" by simp
  then have le: "?idx + (min (length (ct_buckets (hash_table ?s))) (?idx + n) - ?idx) \<le> length (ct_buckets (hash_table ?s))" by simp
  have "good e V ?s" using assms by simp
  from evict_probe_good [OF this ev(1) [unfolded random_evict_to_remote_def Let_def] le]
  show "(case x of (r, page) \<Rightarrow> \<lambda>s'. good e V s' \<and> (r = 0 \<and> taken e s' page \<or> r = - 1 \<and> page = nullptr)) s'"
    using ev(2,3) by simp
qed

lemma pool_page_inj:
  assumes "static_ok s" "i < page_num s" "j < page_num s" "pool_page s i = pool_page s j"
  shows "i = j"
proof -
  have b: "unat (base_address s) + page_num s * 1024 \<le> 2 ^ 48" using assms(1) by (simp add: static_ok_def pageSize_def)
  have u: "unat (pool_page s k) = unat (base_address s) + k * 1024" if k: "k < page_num s" for k
  proof -
    have "unat (base_address s) + k * 1024 < 2 ^ 64" using b k by simp
    moreover from this have "unat (of_nat (k * 1024) :: u64) = k * 1024" by (intro unat_of_nat_lt) simp
    ultimately show ?thesis unfolding pool_page_def pageSize_def by (simp add: unat_plus_simple [THEN iffD1] word_le_nat_alt unat_word_ariths mod_less)
  qed
  then show ?thesis using assms(2-4) by (metis add_left_cancel mult_right_cancel zero_neq_numeral)
qed

lemma pool_allocate_good:
  assumes "good e V s"
  shows "safe pool_allocate s (\<lambda>(page, lst) s'. good e V s' \<and> (page \<noteq> nullptr \<longrightarrow>
    (\<exists>p. cheap s' page = Some p \<and> bitmap (page_hdr p) = 0 \<and> parent_ptr (page_hdr p) = nullptr \<and> pos_state (page_hdr p) \<noteq> 2) \<and>
    page \<notin> reserved s' \<and> page \<notin> ran (cached e s')))"
proof (rule safeI)
  fix x s' assume run: "pool_allocate s = Some (Inr (x, s'))"
  note G = goodD [OF assms]
  note I = inv6D [OF G(2)]
  show "(case x of (page, lst) \<Rightarrow> \<lambda>s'. good e V s' \<and> (page \<noteq> nullptr \<longrightarrow>
    (\<exists>p. cheap s' page = Some p \<and> bitmap (page_hdr p) = 0 \<and> parent_ptr (page_hdr p) = nullptr \<and> pos_state (page_hdr p) \<noteq> 2) \<and>
    page \<notin> reserved s' \<and> page \<notin> ran (cached e s'))) s'"
  proof (cases "head_idx s \<ge> page_num s")
    case True
    then show ?thesis using run assms by (auto simp: pool_allocate_def)
  next
    case False
    let ?a = "pool_page s (head_idx s)" and ?s = "s\<lparr>head_idx := head_idx s + 1\<rparr>"
    have x: "fst x = ?a" "s' = ?s" using run False by (auto simp: pool_allocate_def)
    have pf: "pool_free ?s \<subseteq> pool_free s" "?a \<in> pool_free s" "?a \<notin> pool_free ?s"
      using False pool_page_inj [OF G(1), of "head_idx s"] by (auto simp: pool_free_def pool_page_def)
    have inv: "inv6 (cheap s) (crm s) (cached e s) (qaddrs (hash_table s)) (local_page_set s) (pool_free ?s)"
      by (rule inv6_sub [OF G(2)]) (use I(5) pf(1) in \<open>auto simp: reserved_ok_def\<close>)
    have "good e V ?s" by (rule goodI) (use inv G in simp_all)
    moreover have idle: "idle_page 0 (cheap s) ?a" "?a \<notin> ran (cached e s)" using I(5) pf(2) by (auto simp: reserved_ok_def)
    moreover have "?a \<notin> parked s" using I(5) idle(1) by (auto simp: parked_def reserved_ok_def idle_page_def)
    ultimately show ?thesis using x pf(3) by (cases x) (auto simp: idle_page_def reserved_def)
  qed
qed

lemma get_local_good:
  assumes "good e V s"
  shows "safe get_local_page_set s (\<lambda>page s'. good e V s' \<and> (page \<noteq> nullptr \<longrightarrow> taken e s' page))"
proof (rule safeI)
  fix page s' assume run: "get_local_page_set s = Some (Inr (page, s'))"
  note G = goodD [OF assms]
  note I = inv6D [OF G(2)]
  show "good e V s' \<and> (page \<noteq> nullptr \<longrightarrow> taken e s' page)"
  proof (cases "local_page_set s = []")
    case True
    then show ?thesis using run assms by (simp add: get_local_page_set_def)
  next
    case False
    let ?L = "local_page_set s"
    have r: "page = last ?L" "s' = s\<lparr>local_page_set := butlast ?L\<rparr>" using run False by (auto simp: get_local_page_set_def)
    have L: "?L = butlast ?L @ [page]" using False r(1) by simp
    have d: "distinct (butlast ?L @ [page])" using I(5) L by (simp add: reserved_ok_def)
    have inv: "inv6 (cheap s) (crm s) (cached e s) (qaddrs (hash_table s)) (butlast ?L) (pool_free s)"
      by (rule inv6_sub [OF G(2)]) (use I(5) d in \<open>auto simp: reserved_ok_def dest: in_set_butlastD\<close>)
    have "good e V s'" unfolding r(2) by (rule goodI) (use inv G in simp_all)
    moreover have idle: "idle_page 3 (cheap s) page" "page \<notin> ran (cached e s)"
      using I(5) False r(1) by (auto simp: reserved_ok_def)
    moreover have "page \<notin> set (qaddrs (hash_table s))" "page \<notin> pool_free s"
      using I(5) idle(1) by (auto simp: reserved_ok_def idle_page_def)
    ultimately show ?thesis using d by (auto simp: r(2) taken_def idle_page_def reserved_def parked_def)
  qed
qed

lemma taken_heap: "taken e s a \<Longrightarrow> a \<notin> reserved s \<and> a \<notin> ran (cached e s)"
  by (simp add: taken_def)

lemma try_get_empty_page_good:
  fixes s :: "'z cache_scheme"
  assumes good: "good e V s"
  shows "safe (try_get_empty_page e) s (\<lambda>page s'. good e V s' \<and> (page \<noteq> nullptr \<longrightarrow> taken e s' page))"
proof -
  let ?Q = "\<lambda>page (s' :: 'z cache_scheme). good e V s' \<and> (page \<noteq> nullptr \<longrightarrow> taken e s' page)"
  let ?dyn = "bnd (random_evict e probing_length) (\<lambda>(r, page).
      andthen (whenever (r = - 1) (sample_multiple_pages e num_pages_to_sample))
      (bnd (gets local_page_set) (\<lambda>ls2. if page = nullptr \<and> ls2 \<noteq> [] then
          bnd get_local_page_set (\<lambda>pg. andthen (assert_that (pg \<noteq> nullptr)) (ret pg)) else ret page)))"
  let ?warm = "bnd pool_allocate (\<lambda>(page, last_page_flag).
      andthen (whenever last_page_flag (modify (\<lambda>s. s\<lparr>cstate := 1\<rparr>)))
      (if page \<noteq> nullptr then andthen (change page (\<lambda>p. set_lock_word (setLockState (lock_word p)) p)) (ret page) else waits))"
  have dyn: "safe ?dyn s ?Q"
    unfolding wp_bnd [of "random_evict e probing_length"]
  proof (rule safe_mono [OF random_evict_good [OF good]], clarify)
    fix r :: int and page and s1 :: "'z cache_scheme"
    assume 1: "good e V s1" "r = 0 \<and> taken e s1 page \<or> r = - 1 \<and> page = nullptr"
    have loc: "safe (bnd (gets local_page_set) (\<lambda>ls2. if nullptr = nullptr \<and> ls2 \<noteq> [] then
        bnd get_local_page_set (\<lambda>pg. andthen (assert_that (pg \<noteq> nullptr)) (ret pg)) else ret nullptr)) s2 ?Q"
      if "good e V s2" for s2 :: "'z cache_scheme"
      using that safe_mono [OF get_local_good [OF that]] by (auto simp: wp)
    show "safe (andthen (whenever (r = - 1) (sample_multiple_pages e num_pages_to_sample))
      (bnd (gets local_page_set) (\<lambda>ls2. if page = nullptr \<and> ls2 \<noteq> [] then
          bnd get_local_page_set (\<lambda>pg. andthen (assert_that (pg \<noteq> nullptr)) (ret pg)) else ret page))) s1 ?Q"
    proof (cases "r = - 1")
      case True
      then have pg: "page = nullptr" using 1(2) by auto
      have "safe (sample_multiple_pages e num_pages_to_sample) s1 (\<lambda>_ s2. safe (bnd (gets local_page_set) (\<lambda>ls2. if nullptr = nullptr \<and> ls2 \<noteq> [] then
          bnd get_local_page_set (\<lambda>pg. andthen (assert_that (pg \<noteq> nullptr)) (ret pg)) else ret nullptr)) s2 ?Q)"
        by (rule safe_mono [OF sample_multiple_good [OF 1(1)]]) (rule loc)
      then show ?thesis unfolding pg wp_andthen wp_whenever using True by simp
    next
      case False
      then show ?thesis using 1 loc [OF 1(1)] by (cases "page = nullptr") (auto simp: wp)
    qed
  qed
  have warm: "safe ?warm s ?Q"
    unfolding wp_bnd [of pool_allocate]
  proof (rule safe_mono [OF pool_allocate_good [OF good]], clarify)
    fix page lst and s1 :: "'z cache_scheme"
    assume 1: "good e V s1" and pg: "page \<noteq> nullptr \<longrightarrow> (\<exists>p. cheap s1 page = Some p \<and> bitmap (page_hdr p) = 0 \<and>
        parent_ptr (page_hdr p) = nullptr \<and> pos_state (page_hdr p) \<noteq> 2) \<and> page \<notin> reserved s1 \<and> page \<notin> ran (cached e s1)"
    have lk: "isLocked (setLockState w)" for w by (simp add: setLockState_def isLocked_def)
    have fin: "safe (if page \<noteq> nullptr then andthen (change page (\<lambda>p. set_lock_word (setLockState (lock_word p)) p)) (ret page) else waits) s2 ?Q"
      if s2: "good e V s2" "cheap s2 = cheap s1" "reserved s2 = reserved s1" "cached e s2 = cached e s1" for s2 :: "'z cache_scheme"
    proof (cases "page = nullptr")
      case False
      then obtain p where p: "cheap s2 page = Some p" "bitmap (page_hdr p) = 0" "parent_ptr (page_hdr p) = nullptr"
          "pos_state (page_hdr p) \<noteq> 2" and r: "page \<notin> reserved s2" "page \<notin> ran (cached e s2)" using pg s2 by auto
      show ?thesis using False p r good_word [OF s2(1) p(1), of "setLockState (lock_word p)"] lk by (simp add: wp taken_def)
    qed (simp add: wp)
    show "safe (andthen (whenever lst (modify (\<lambda>s. s\<lparr>cstate := 1\<rparr>)))
      (if page \<noteq> nullptr then andthen (change page (\<lambda>p. set_lock_word (setLockState (lock_word p)) p)) (ret page) else waits)) s1 ?Q"
      using fin [of s1] fin [of "s1\<lparr>cstate := 1\<rparr>"] 1 by (simp add: wp_andthen wp_whenever wp_modify)
  qed
  have loc: "safe get_local_page_set s ?Q" by (rule get_local_good [OF good])
  have "safe (bnd (gets cstate) (\<lambda>st. if st = 1 then bnd (gets local_page_set) (\<lambda>ls. if ls \<noteq> [] then get_local_page_set else ?dyn) else ?warm)) s ?Q"
    using dyn warm loc by (simp add: wp_bnd(2) [of "gets _"] wp_gets wp_if)
  then show ?thesis
    unfolding try_get_empty_page_def wp_bnd(2) [of "bnd (gets cstate) _"]
    by (rule safe_mono) (auto simp: wp)
qed

end
