(* ===== verification/Cache_Load.thy ===== *)
theory Cache_Load
  imports Cache_Steps
begin

text \<open>
  A cache miss: \<open>simple_cold_to_hot\<close> takes an empty page, reads the page of remote memory into it and
  checks that it is the one the parent names; \<open>cold_to_hot\<close> then replaces the I/O flag in the page table
  by the page or removes the flag.  A miss that returns keeps the invariant and the view of the cache;
  with a page at hand it always returns.
\<close>

section \<open>Loading a page\<close>

lemma update_with_lock_ok:
  assumes "table_ok t" "v \<noteq> nullptr" "update_with_lock hs ro t key v old = Some (Inr (flag, old'), t')"
  shows "table_ok t'" "flag \<longleftrightarrow> table_map hs t key \<noteq> None" "flag \<Longrightarrow> table_map hs t key = Some old'"
    "table_map hs t' = (if flag then (table_map hs t)(key \<mapsto> v) else table_map hs t)"
proof -
  let ?body = "\<lambda>c. case pt_update ro c key v old of Inl e \<Rightarrow> (Inl e, c) | Inr (r, o', c') \<Rightarrow> (Inr (r, o'), c')"
  obtain c c' where c: "chain_ok c" "chain_map c = chain_map (pt_table t ! get_bucket_idx hs t key)" "?body c = (Inr (flag, old'), c')"
      "chain_ok c' \<longrightarrow> (\<forall>k. k \<noteq> key \<longrightarrow> chain_map c' k = chain_map c k) \<longrightarrow>
         table_ok t' \<and> table_map hs t' = (table_map hs t)(key := chain_map c' key)"
    using with_lock_run [OF assms(1) assms(3) [unfolded update_with_lock_def]] by blast
  have k: "table_map hs t key = chain_map c key" using c(2) by (simp add: table_map_def)
  have u: "pt_update ro c key v old = Inr (flag, old', c')" using c(3) by (auto split: sum.splits)
  have "chain_ok c' \<and> (flag \<longleftrightarrow> chain_map c key \<noteq> None) \<and> (flag \<longrightarrow> chain_map c key = Some old') \<and>
      chain_map c' = (if flag then (chain_map c)(key \<mapsto> v) else chain_map c)"
  proof (cases "first_match (holds_page key) c")
    case None
    then show ?thesis using u c(1) by (auto simp: pt_update_def chain_map_match)
  next
    case (Some f)
    then have "on_first (holds_page key) (\<lambda>f. f\<lparr>buffer_page := v\<rparr>) id c \<noteq> None"
      by (metis first_match_None on_first_None option.distinct(1))
    then obtain d where d: "on_first (holds_page key) (\<lambda>f. f\<lparr>buffer_page := v\<rparr>) id c = Some d" by blast
    have cm: "chain_map c key = Some (buffer_page f)" using Some by (simp add: chain_map_match)
    have "flag" "old' = buffer_page f" "c' = d" using u Some d by (auto simp: pt_update_def split: if_splits)
    then show ?thesis using cm set_page_ok [OF c(1) _ assms(2) d] by simp
  qed
  then show "table_ok t'" "flag \<longleftrightarrow> table_map hs t key \<noteq> None" "flag \<Longrightarrow> table_map hs t key = Some old'"
    "table_map hs t' = (if flag then (table_map hs t)(key \<mapsto> v) else table_map hs t)"
    using c(4) k by (auto simp: fun_upd_idem)
qed

lemma set_ptable_simps [simp]:
  "ptable (set_ptable t s) = t" "cheap (set_ptable t s) = cheap s" "crm (set_ptable t s) = crm s" "qaddrs (hash_table (set_ptable t s)) = qaddrs (hash_table s)"
  "local_page_set (set_ptable t s) = local_page_set s" "pool_free (set_ptable t s) = pool_free s" "reserved (set_ptable t s) = reserved s"
  "parked (set_ptable t s) = parked s" "static_ok (set_ptable t s) \<longleftrightarrow> static_ok (s\<lparr>hash_table := (hash_table s)\<lparr>ct_page_table := t\<rparr>\<rparr>)"
  by (simp_all add: set_ptable_def reserved_def parked_def)

lemma static_ptable: "static_ok s \<Longrightarrow> table_ok t \<Longrightarrow> static_ok (set_ptable t s)"
  by (simp add: static_ok_def set_ptable_def)

text \<open>A page that has just been loaded: it holds the page of remote memory behind its own lock word.\<close>

definition loaded :: "cm_env \<Rightarrow> ('z cache_scheme) \<Rightarrow> GlobalAddress \<Rightarrow> ptr \<Rightarrow> bool" where
  "loaded e s g a \<longleftrightarrow> a \<notin> reserved s \<and> (\<exists>q w. crm s g = Some q \<and> cheap s a = Some (set_lock_word w q) \<and> isLocked w \<and>
     lpage (cheap s) (set_lock_word w q) = page_content q)"

lemma remote_to_cache_good:
  fixes s :: "'z cache_scheme"
  assumes good: "good e V s" and t: "taken e s a"
  shows "safe (remote_to_cache a g sync) s (\<lambda>r s'. good e V s' \<and> taken e s' a \<and> crm s' = crm s \<and> (r \<longrightarrow> loaded e s' g a))"
proof -
  have copy: "safe (andthen (copy_page a p) (ret True)) s
      (\<lambda>r s'. good e V s' \<and> taken e s' a \<and> crm s' = crm s \<and> (r \<longrightarrow> loaded e s' g a))" if p: "crm s g = Some p" for p
  proof -
    obtain x where x: "cheap s a = Some x" "parent_ptr (page_hdr x) = nullptr" "isLocked (lock_word x)"
      and r: "a \<notin> reserved s" "a \<notin> ran (cached e s)" using t by (auto simp: taken_def)
    note G = goodD [OF good]
    have rp: "remote_page_ok g p" using inv6D(2) [OF G(2)] p by (simp add: remote_ok_def)
    have r': "a \<notin> set (qaddrs (hash_table s))" "a \<notin> set (local_page_set s)" "a \<notin> pool_free s" using r(1) by (auto simp: reserved_def parked_def)
    note F = inv6_fill [where h = "cheap s" and a = a and q = p and w = "lock_word x", OF G(2) x(1,2) r' r(2) rp]
    let ?s = "s\<lparr>cheap := (cheap s)(a \<mapsto> set_lock_word (lock_word x) p)\<rparr>"
    have "good e V ?s" by (rule goodI) (use F G in simp_all)
    moreover have "taken e ?s a" using rp r x(3) by (auto simp: taken_def remote_page_ok_def)
    moreover have "loaded e ?s g a" unfolding loaded_def using r(1) p F(3) x(3) by auto
    ultimately show ?thesis using x(1) by (simp add: copy_page_def wp)
  qed
  have opt: "safe (opt_read g) s (\<lambda>b s'. s' = s \<and> (\<forall>p. b = Some p \<longrightarrow> crm s g = Some p))"
    by (auto simp: opt_read_def wp opt_remote_read_def Let_def split: sum.splits if_splits)
  have "safe (if sync then opt_read g else bnd (raw_remote_read g) (\<lambda>p. ret (Some p))) s (\<lambda>b s'. s' = s \<and> (\<forall>p. b = Some p \<longrightarrow> crm s g = Some p))"
    using opt by (auto simp: wp)
  then show ?thesis
    unfolding remote_to_cache_def wp_bnd(2) [of "if sync then _ else _"]
  proof (rule safe_mono, elim conjE)
    fix b and s' :: "'z cache_scheme" assume b: "s' = s" "\<forall>p. b = Some p \<longrightarrow> crm s g = Some p"
    show "safe (case b of None \<Rightarrow> ret False | Some p \<Rightarrow> andthen (copy_page a p) (ret True)) s'
      (\<lambda>r s'. good e V s' \<and> taken e s' a \<and> crm s' = crm s \<and> (r \<longrightarrow> loaded e s' g a))"
      using b copy good t by (cases b) (simp_all add: wp_ret)
  qed
qed

lemma simple_cold_to_hot_good:
  fixes s :: "'z cache_scheme"
  assumes good: "good e V s"
  shows "safe (simple_cold_to_hot e g parent i refresh sync) s
    (\<lambda>(r, page, refresh') s'. good e V s' \<and> (r = 0 \<longrightarrow> taken e s' page \<and> loaded e s' g page))"
proof -
  let ?Q = "\<lambda>(r :: int, page, refresh' :: bool) (s' :: 'z cache_scheme). good e V s' \<and> (r = 0 \<longrightarrow> taken e s' page \<and> loaded e s' g page)"
  have put_back: "safe (insert_local_set page) s2 (\<lambda>_. good e V)" if s2: "good e V s2" "taken e s2 page" for page and s2 :: "'z cache_scheme"
  proof -
    obtain p where p: "cheap s2 page = Some p" "bitmap (page_hdr p) = 0" "parent_ptr (page_hdr p) = nullptr" "page \<notin> reserved s2" "page \<notin> ran (cached e s2)"
      using s2(2) by (auto simp: taken_def)
    show ?thesis by (rule safe_mono [OF insert_local_set_good [OF s2(1) p]]) simp
  qed
  show ?thesis
    unfolding simple_cold_to_hot_def wp_bnd(2) [of "try_get_empty_page e"]
  proof (rule safe_mono [OF try_get_empty_page_good [OF good]], elim conjE)
    fix page and s1 :: "'z cache_scheme" assume g1: "good e V s1" and t1: "page \<noteq> nullptr \<longrightarrow> taken e s1 page"
    show "safe (if page = nullptr then ret (- 1, nullptr, refresh)
     else
       bnd (header page) (\<lambda>h0.
       andthen (assert_that (pos_state h0 \<noteq> 2))
       (bnd (remote_to_cache page g sync) (\<lambda>IO_success.
        bnd (load_inner parent) (\<lambda>pn.
        andthen (assert_that (level pn \<noteq> 255))
        (bnd (load page) (\<lambda>p.
         let c = page_hdr p in
         bnd (gets (\<lambda>s. fit_limits s c)) (\<lambda>fits.
         if \<not> IO_success \<or> \<not> fits \<or> \<not> new_check_limit_match pn c i then
           andthen (insert_local_set page) (ret (- 1, nullptr, True))
         else if \<not> addr_eq (remote_address c) g then fail Stuck
         else
           andthen (assert_that (pos_state c = 0))
           (andthen (assert_that (isLocked (lock_word p)))
           (andthen (assert_that (parent_ptr c = nullptr))
            (ret (0, page, refresh)))))))))))) s1 ?Q" (is "safe ?p s1 ?Q")
    proof (cases "page = nullptr")
      case False
      then have t: "taken e s1 page" using t1 by simp
      note step = safe_mono [OF remote_to_cache_good [OF g1 t, of g sync]]
      show ?thesis
        using False by (auto simp: wp Let_def intro!: step put_back)
    qed (use g1 in \<open>simp add: wp\<close>)
  qed
qed

lemma cached_update:
  assumes "table_ok (ptable s)" "update_with_lock (hash e) ro (ptable s) g v old = Some (Inr (True, IO_FLAG), t)" "local_addr v"
  shows "table_ok t" "cached e s g = None" "cached e (set_ptable t s) = (cached e s)(g \<mapsto> v)"
proof -
  have v: "v \<noteq> nullptr" "v \<noteq> IO_FLAG" using assms(3) local_addr_tag(3) by (auto simp: local_addr_def)
  note U = update_with_lock_ok [OF assms(1) v(1) assms(2)]
  show "table_ok t" by (rule U(1))
  have "table_map (hash e) (ptable s) g = Some IO_FLAG" by (rule U(3)) simp
  then show "cached e s g = None" by (simp add: cached_def)
  show "cached e (set_ptable t s) = (cached e s)(g \<mapsto> v)" using v(2) U(4) by (auto simp: cached_def fun_eq_iff)
qed

lemma remove_io_flag_good:
  assumes "good e V s"
  shows "safe (remove_io_flag e g) s (\<lambda>_ s'. good e V s' \<and> cached e s' = cached e s)"
proof -
  note G = goodD [OF assms]
  have "good e V (set_ptable t s) \<and> cached e (set_ptable t s) = cached e s" if "remove_with_lock (hash e) (ptable s) g IO_FLAG = Some (True, t)" for t
  proof -
    have tok: "table_ok (ptable s)" using G(1) by (simp add: static_ok_def)
    have "IO_FLAG \<noteq> nullptr" by (simp add: IO_FLAG_def)
    note R = remove_with_lock_ok [OF tok this that]
    have c: "cached e (set_ptable t s) = cached e s" using R(2,3) by (auto simp: cached_def fun_eq_iff)
    then show ?thesis using G static_ptable [OF G(1) R(1)] by (auto intro!: goodI)
  qed
  then show ?thesis by (auto simp: remove_io_flag_def wp)
qed

text \<open>A miss is invisible to the tree: the page becomes cached, and what every address holds is what it held before.\<close>

lemma cold_to_hot_good:
  fixes s :: "'z cache_scheme"
  assumes good: "good e V s"
  shows "safe (cold_to_hot e g parent i refresh) s
    (\<lambda>(r, page, refresh') s'. good e V s' \<and> (r = 0 \<longrightarrow> cached e s' g = Some page \<and> loaded e s' g page))"
proof -
  let ?Q = "\<lambda>(r :: int, page, refresh' :: bool) (s' :: 'z cache_scheme). good e V s' \<and> (r = 0 \<longrightarrow> cached e s' g = Some page \<and> loaded e s' g page)"
  have enter: "good e V (set_ptable t s1) \<and> cached e (set_ptable t s1) g = Some page \<and> loaded e (set_ptable t s1) g page"
    if g1: "good e V s1" "taken e s1 page" "loaded e s1 g page"
      and up: "update_with_lock (hash e) ro (ptable s1) g page nullptr = Some (Inr (True, IO_FLAG), t)" for ro t page and s1 :: "'z cache_scheme"
  proof -
    note G = goodD [OF g1(1)]
    obtain q w where q: "crm s1 g = Some q" "cheap s1 page = Some (set_lock_word w q)" "lpage (cheap s1) (set_lock_word w q) = page_content q"
      using g1(3) by (auto simp: loaded_def)
    have rp: "remote_page_ok g q" using inv6D(2) [OF G(2)] q(1) by (simp add: remote_ok_def)
    have r: "page \<notin> set (local_page_set s1)" "page \<notin> pool_free s1" using g1(2) by (auto simp: taken_def reserved_def parked_def)
    have la: "local_addr page" using links_okD(1) [OF inv6D(1) [OF G(2)] q(2)] .
    have "table_ok (ptable s1)" using G(1) by (simp add: static_ok_def)
    note U = cached_update [OF this up la]
    note M = inv6_map [where a = page and h = "cheap s1" and x = "set_lock_word w q", OF G(2) U(2) q(2) _ _ q(1) q(3) [symmetric] r]
    have a: "remote_address (page_hdr (set_lock_word w q)) = g" "\<not> swizzled g" using rp by (auto simp: remote_page_ok_def)
    have "good e V (set_ptable t s1)" by (rule goodI) (use M a U(3) G(3) static_ptable [OF G(1) U(1)] in simp_all)
    then show ?thesis using U(3) g1(3) by (auto simp: loaded_def)
  qed
  have step: "safe (andthen
       (if r = 0 then
          bnd (gets remote_of) (\<lambda>ro.
          bnd (pt_result (\<lambda>t. update_with_lock (hash e) ro t g page nullptr)) (\<lambda>(flag, old_flag).
          andthen (assert_that flag) (assert_that (old_flag = IO_FLAG))))
        else remove_io_flag e g)
       (ret (r, page, refresh'))) s1 ?Q"
    if s1: "good e V s1" "r = 0 \<longrightarrow> taken e s1 page \<and> loaded e s1 g page" for r :: int and page refresh' and s1 :: "'z cache_scheme"
  proof (cases "r = 0")
    case True
    then have s1': "good e V s1" "taken e s1 page" "loaded e s1 g page" using s1 by auto
    show ?thesis using True by (auto simp: wp pt_result_def split: sum.split prod.split dest!: enter [OF s1'])
  next
    case False
    then show ?thesis unfolding wp_andthen(2) by (simp add: wp_ret safe_mono [OF remove_io_flag_good [OF s1(1)]])
  qed
  have "safe (bnd (simple_cold_to_hot e g parent i refresh sync) (\<lambda>(r, page, refresh').
     andthen
       (if r = 0 then
          bnd (gets remote_of) (\<lambda>ro.
          bnd (pt_result (\<lambda>t. update_with_lock (hash e) ro t g page nullptr)) (\<lambda>(flag, old_flag).
          andthen (assert_that flag) (assert_that (old_flag = IO_FLAG))))
        else remove_io_flag e g)
       (ret (r, page, refresh')))) s ?Q" for sync
    unfolding wp_bnd(2) [of "simple_cold_to_hot _ _ _ _ _ _"]
    by (rule safe_mono [OF simple_cold_to_hot_good [OF good]]) (auto intro!: step)
  then show ?thesis by (simp add: cold_to_hot_def wp)
qed

section \<open>A miss with a page at hand returns\<close>

definition bucket_free :: "cm_env \<Rightarrow> ('z cache_scheme) \<Rightarrow> GlobalAddress \<Rightarrow> bool" where
  "bucket_free e s g \<longleftrightarrow> \<not> Lock32_test_lock_set (pb_lock (hd (pt_table (ptable s) ! get_bucket_idx (hash e) (ptable s) g)))"

text \<open>The checks a page has to pass: a consistent read, the limits of the node and those of the parent.\<close>

definition admissible :: "('z cache_scheme) \<Rightarrow> BTreeInnerNode \<Rightarrow> nat \<Rightarrow> page \<Rightarrow> bool" where
  "admissible s pn i q \<longleftrightarrow> (sync_or_not s pn i \<longrightarrow> lock_word q = 0) \<and> fit_limits s (page_hdr q) \<and> new_check_limit_match pn (page_hdr q) i"

lemma ok_and_safe: "ok m s P \<Longrightarrow> safe m s Q \<Longrightarrow> ok m s (\<lambda>x s'. P x s' \<and> Q x s')"
  by (auto simp: ok_def safe_def)

lemma with_lock_returns:
  assumes "bucket_free e s g"
  obtains r t where "with_lock (hash e) (ptable s) g body = Some (r, t)"
  using assms by (simp add: with_lock_def bucket_free_def Let_def case_prod_beta)

lemma update_with_lock_returns:
  assumes ok: "table_ok (ptable s)" and free: "bucket_free e s g" and flag: "table_map (hash e) (ptable s) g = Some v0"
    and v: "v \<noteq> nullptr" "ro v = g"
  shows "\<exists>t. update_with_lock (hash e) ro (ptable s) g v old = Some (Inr (True, v0), t)"
proof -
  obtain r t where r: "update_with_lock (hash e) ro (ptable s) g v old = Some (r, t)"
    unfolding update_with_lock_def by (rule with_lock_returns [OF free])
  obtain c c' where c: "chain_map c = chain_map (pt_table (ptable s) ! get_bucket_idx (hash e) (ptable s) g)"
      "(case pt_update ro c g v old of Inl e \<Rightarrow> (Inl e, c) | Inr (r, o', c') \<Rightarrow> (Inr (r, o'), c')) = (r, c')"
    using with_lock_run [OF ok r [unfolded update_with_lock_def]] by blast
  have "chain_map c g = Some v0" using flag c(1) by (simp add: table_map_def)
  then obtain f where "first_match (holds_page g) c = Some f" by (auto simp: chain_map_match split: option.splits)
  then have "r = Inr (True, buffer_page f)" using c(2) v(2) by (simp add: pt_update_def)
  then have u: "update_with_lock (hash e) ro (ptable s) g v old = Some (Inr (True, buffer_page f), t)" using r by simp
  have "table_map (hash e) (ptable s) g = Some (buffer_page f)" by (rule update_with_lock_ok(3) [OF ok v(1) u]) simp
  then show ?thesis using u flag by simp
qed

lemma remove_with_lock_runs:
  assumes "table_ok (ptable s)" "bucket_free e s g" "table_map (hash e) (ptable s) g = Some v" "v \<noteq> nullptr"
  shows "\<exists>t. remove_with_lock (hash e) (ptable s) g v = Some (True, t)"
proof -
  obtain r t where r: "remove_with_lock (hash e) (ptable s) g v = Some (r, t)"
    unfolding remove_with_lock_def by (rule with_lock_returns [OF assms(2)])
  then show ?thesis using remove_with_lock_ok(2) [OF assms(1,4) r] assms(3) by auto
qed

lemma take_local_page:
  assumes inv: "cache_inv e s" and st: "cstate s = 1" "local_page_set s \<noteq> []"
  defines "page \<equiv> last (local_page_set s)"
  shows "ok (try_get_empty_page e) s (\<lambda>a s'. a = page \<and> s' = s\<lparr>local_page_set := butlast (local_page_set s)\<rparr>)"
    "page \<noteq> nullptr" "\<exists>p. cheap s page = Some p \<and> isLocked (lock_word p) \<and> pos_state (page_hdr p) = 3"
proof -
  have I: "inv6 (cheap s) (crm s) (cached e s) (qaddrs (hash_table s)) (local_page_set s) (pool_free s)"
    using inv by (simp add: cache_inv_def)
  have "page \<in> set (local_page_set s)" using st(2) by (simp add: page_def)
  then obtain p where p: "cheap s page = Some p" "isLocked (lock_word p)" "pos_state (page_hdr p) = 3"
    using inv6D(5) [OF I] by (auto simp: reserved_ok_def idle_page_def)
  then show "\<exists>p. cheap s page = Some p \<and> isLocked (lock_word p) \<and> pos_state (page_hdr p) = 3" by blast
  show ne: "page \<noteq> nullptr" using links_okD(1) [OF inv6D(1) [OF I] p(1)] by (simp add: local_addr_def)
  have "ok get_local_page_set s (\<lambda>a s'. a = page \<and> s' = s\<lparr>local_page_set := butlast (local_page_set s)\<rparr>)"
    using st(2) by (simp add: get_local_page_set_def ok_def page_def)
  then have "ok get_local_page_set s (\<lambda>x s'. ok (andthen (whenever (x \<noteq> nullptr) (assert_locked x)) (ret x)) s'
      (\<lambda>a s'. a = page \<and> s' = s\<lparr>local_page_set := butlast (local_page_set s)\<rparr>))"
    using p ne by (elim ok_mono) (simp add: wp assert_locked_def)
  then show "ok (try_get_empty_page e) s (\<lambda>a s'. a = page \<and> s' = s\<lparr>local_page_set := butlast (local_page_set s)\<rparr>)"
    using st by (simp add: try_get_empty_page_def wp)
qed

lemma remote_to_cache_returns:
  assumes "crm s g = Some q" "page_check_consistent q" "cheap s a = Some p"
  shows "ok (remote_to_cache a g sync) s (\<lambda>r s'. (r \<longleftrightarrow> sync \<longrightarrow> lock_word q = 0) \<and>
    s' = (if r then s\<lparr>cheap := (cheap s)(a \<mapsto> set_lock_word (lock_word p) q)\<rparr> else s))"
  using assms by (auto simp: remote_to_cache_def opt_read_def opt_remote_read_def Let_def copy_page_def wp split: sum.split option.split)

lemma ok_known:
  "cheap s a = Some p \<Longrightarrow> ok (load a) s Q = Q p s" "cheap s a = Some p \<Longrightarrow> ok (header a) s R = R (page_hdr p) s"
  "cheap s a = Some (Inner n) \<Longrightarrow> ok (load_inner a) s S = S n s"
  "cheap s a = Some p \<Longrightarrow> isLocked (lock_word p) \<Longrightarrow> ok (assert_locked a) s U = U () s"
  "cheap s a = Some p \<Longrightarrow> ok (change a f) s U = U () (s\<lparr>cheap := (cheap s)(a \<mapsto> f p)\<rparr>)"
  by (simp_all add: wp assert_locked_def)

lemma limits_lock_word: "min_limit (page_hdr (set_lock_word w q)) = min_limit (page_hdr q)" "max_limit (page_hdr (set_lock_word w q)) = max_limit (page_hdr q)"
  by (cases q; simp)+

lemmas ok_step = wp_bnd(1) wp_andthen(1) wp_ret(1) wp_assert(1) wp_gets(1) wp_modify(1) wp_if(1) wp_Let(1) ok_known

lemma simple_cold_to_hot_returns:
  fixes s :: "'z cache_scheme" and sync :: bool and i :: nat
  assumes inv: "cache_inv e s" and st: "cstate s = 1" "local_page_set s \<noteq> []"
    and parent: "cheap s parent = Some (Inner pn)" "level pn \<noteq> 255" "parent \<notin> set (local_page_set s)"
    and q: "crm s g = Some q" "page_check_consistent q"
  defines "adm \<equiv> (sync \<longrightarrow> lock_word q = 0) \<and> fit_limits s (page_hdr q) \<and> new_check_limit_match pn (page_hdr q) i"
  shows "ok (simple_cold_to_hot e g parent i refresh sync) s (\<lambda>(r, page, rf) s'. ptable s' = ptable s \<and>
     (if adm then r = 0 \<and> rf = refresh \<and> page \<noteq> nullptr \<and> remote_of s' page = g else r = - 1 \<and> rf))"
proof -
  let ?page = "last (local_page_set s)"
  note T = take_local_page [OF inv st]
  obtain p where p: "cheap s ?page = Some p" "isLocked (lock_word p)" "pos_state (page_hdr p) = 3" using T(3) by blast
  have ne: "parent \<noteq> ?page" using parent(3) st(2) by auto
  have "remote_ok (crm s)" using inv by (simp add: cache_inv_def inv6_def)
  then have rp: "remote_address (page_hdr q) = g" "pos_state (page_hdr q) = 0" "parent_ptr (page_hdr q) = nullptr"
    using q(1) by (auto simp: remote_ok_def remote_page_ok_def)
  let ?s = "s\<lparr>local_page_set := butlast (local_page_set s)\<rparr>"
  let ?ql = "set_lock_word (lock_word p) q"
  have lim: "fit_limits ?s (page_hdr q) = fit_limits s (page_hdr q)"
      "fit_limits (?s\<lparr>cheap := h\<rparr>) (page_hdr ?ql) = fit_limits s (page_hdr q)" for h
    by (simp_all add: fit_limits_def limits_lock_word)
  have lim2: "new_check_limit_match pn (page_hdr ?ql) i = new_check_limit_match pn (page_hdr q) i"
    by (simp add: new_check_limit_match_def limits_lock_word)
  have R: "ok (remote_to_cache ?page g sync) ?s (\<lambda>r s'. (r \<longleftrightarrow> sync \<longrightarrow> lock_word q = 0) \<and>
      s' = (if r then ?s\<lparr>cheap := (cheap s)(?page \<mapsto> ?ql)\<rparr> else ?s))"
    by (rule ok_mono [OF remote_to_cache_returns [of ?s g q ?page p sync]]) (use q p(1) in auto)
  have rest: "ok (bnd (load_inner parent) (\<lambda>pn.
        andthen (assert_that (level pn \<noteq> 255))
        (bnd (load ?page) (\<lambda>p.
         let c = page_hdr p in
         bnd (gets (\<lambda>s. fit_limits s c)) (\<lambda>fits.
         if \<not> r \<or> \<not> fits \<or> \<not> new_check_limit_match pn c i then
           andthen (insert_local_set ?page) (ret (- 1, nullptr, True))
         else if \<not> addr_eq (remote_address c) g then fail Stuck
         else
           andthen (assert_that (pos_state c = 0))
           (andthen (assert_that (isLocked (lock_word p)))
           (andthen (assert_that (parent_ptr c = nullptr))
            (ret (0, ?page, refresh))))))))) s2 (\<lambda>(r, page, rf) s'. ptable s' = ptable s \<and>
     (if adm then r = 0 \<and> rf = refresh \<and> page \<noteq> nullptr \<and> remote_of s' page = g else r = - 1 \<and> rf))" (is "ok ?m s2 ?Q")
    if "r \<longleftrightarrow> sync \<longrightarrow> lock_word q = 0" "s2 = (if r then ?s\<lparr>cheap := (cheap s)(?page \<mapsto> ?ql)\<rparr> else ?s)" for r s2
  proof (cases r)
    case True
    then have s2: "s2 = ?s\<lparr>cheap := (cheap s)(?page \<mapsto> ?ql)\<rparr>" using that(2) by simp
    have "cheap s2 parent = Some (Inner pn)" "cheap s2 ?page = Some ?ql" using s2 ne parent(1) by simp_all
    moreover have "fit_limits s2 (page_hdr ?ql) = fit_limits s (page_hdr q)" using s2 lim(2) by simp
    ultimately show ?thesis using True that(1) p(2) parent(2) T(2) rp s2
      by (simp add: ok_step lim2 insert_local_set_def adm_def addr_eq_def remote_of_def)
  next
    case False
    then have s2: "s2 = ?s" using that(2) by simp
    have "cheap s2 parent = Some (Inner pn)" "cheap s2 ?page = Some p" using s2 p(1) parent(1) by simp_all
    then show ?thesis using False that(1) p(2) parent(2) s2
      by (simp add: ok_step insert_local_set_def adm_def)
  qed
  have h: "ok (header ?page) ?s U = U (page_hdr p) ?s" for U by (rule ok_known(2)) (simp add: p(1))
  show ?thesis
    unfolding simple_cold_to_hot_def wp_bnd(1) [of "try_get_empty_page e"]
  proof (rule ok_mono [OF T(1)], elim conjE, hypsubst)
    show "ok (if ?page = nullptr then ret (- 1, nullptr, refresh)
     else
       bnd (header ?page) (\<lambda>h0.
       andthen (assert_that (pos_state h0 \<noteq> 2))
       (bnd (remote_to_cache ?page g sync) (\<lambda>IO_success.
        bnd (load_inner parent) (\<lambda>pn.
        andthen (assert_that (level pn \<noteq> 255))
        (bnd (load ?page) (\<lambda>p.
         let c = page_hdr p in
         bnd (gets (\<lambda>s. fit_limits s c)) (\<lambda>fits.
         if \<not> IO_success \<or> \<not> fits \<or> \<not> new_check_limit_match pn c i then
           andthen (insert_local_set ?page) (ret (- 1, nullptr, True))
         else if \<not> addr_eq (remote_address c) g then fail Stuck
         else
           andthen (assert_that (pos_state c = 0))
           (andthen (assert_that (isLocked (lock_word p)))
           (andthen (assert_that (parent_ptr c = nullptr))
            (ret (0, ?page, refresh)))))))))))) ?s (\<lambda>(r, page, rf) s'. ptable s' = ptable s \<and>
     (if adm then r = 0 \<and> rf = refresh \<and> page \<noteq> nullptr \<and> remote_of s' page = g else r = - 1 \<and> rf))"
      unfolding if_not_P [OF T(2)] wp_bnd(1) [of "header ?page"] h wp_andthen(1) [of "assert_that (pos_state _ \<noteq> 2)"] wp_assert(1)
        wp_bnd(1) [of "remote_to_cache _ _ _"]
      by (intro conjI ok_mono [OF R]) (simp add: p(3), elim conjE, rule rest)
  qed
qed

text \<open>
  The I/O flag is always cleared: it gives way to the page when the page that was read is the one the
  parent names, and is removed otherwise.
\<close>

lemma cold_to_hot_returns:
  fixes s :: "'z cache_scheme"
  assumes inv: "cache_inv e s" and st: "cstate s = 1" "local_page_set s \<noteq> []"
    and parent: "cheap s parent = Some (Inner pn)" "level pn \<noteq> 255" "parent \<notin> set (local_page_set s)"
    and q: "crm s g = Some q" "page_check_consistent q"
    and flag: "table_map (hash e) (ptable s) g = Some IO_FLAG" "bucket_free e s g"
  shows "ok (cold_to_hot e g parent i refresh) s (\<lambda>(r, page, rf) s'.
     if admissible s pn i q then r = 0 \<and> rf = refresh \<and> table_map (hash e) (ptable s') g = Some page
     else r = - 1 \<and> rf \<and> table_map (hash e) (ptable s') g = None)"
proof -
  have tok: "table_ok (ptable s)" using inv by (simp add: cache_inv_def static_ok_def)
  have io: "IO_FLAG \<noteq> nullptr" by (simp add: IO_FLAG_def)
  note S = simple_cold_to_hot_returns [where i = i and sync = "sync_or_not s pn i" and refresh = refresh, OF inv st parent q]
  have enter: "ok (andthen
       (if r = 0 then
          bnd (gets remote_of) (\<lambda>ro.
          bnd (pt_result (\<lambda>t. update_with_lock (hash e) ro t g page nullptr)) (\<lambda>(flag, old_flag).
          andthen (assert_that flag) (assert_that (old_flag = IO_FLAG))))
        else remove_io_flag e g)
       (ret (r, page, rf))) s1 (\<lambda>(r, page, rf) s'.
     if admissible s pn i q then r = 0 \<and> rf = refresh \<and> table_map (hash e) (ptable s') g = Some page
     else r = - 1 \<and> rf \<and> table_map (hash e) (ptable s') g = None)"
    if s1: "ptable s1 = ptable s" "if admissible s pn i q then r = 0 \<and> rf = refresh \<and> page \<noteq> nullptr \<and> remote_of s1 page = g else r = - 1 \<and> rf"
    for r :: int and page rf and s1 :: "'z cache_scheme"
  proof -
    have s1': "table_ok (ptable s1)" "bucket_free e s1 g" "table_map (hash e) (ptable s1) g = Some IO_FLAG"
      using s1(1) tok flag by (simp_all add: bucket_free_def)
    show ?thesis
    proof (cases "admissible s pn i q")
      case True
      then have p: "page \<noteq> nullptr" "remote_of s1 page = g" "r = 0" "rf = refresh" using s1(2) by auto
      obtain t where t: "update_with_lock (hash e) (remote_of s1) (ptable s1) g page nullptr = Some (Inr (True, IO_FLAG), t)"
        using update_with_lock_returns [OF s1' p(1), of "remote_of s1" nullptr] p(2) by blast
      have "table_map (hash e) t g = Some page" using update_with_lock_ok(4) [OF s1'(1) p(1) t] by simp
      then show ?thesis using True p t by (simp add: wp pt_result_def)
    next
      case False
      obtain t where t: "remove_with_lock (hash e) (ptable s1) g IO_FLAG = Some (True, t)"
        using remove_with_lock_runs [OF s1' io] by blast
      have "table_map (hash e) t g = None" using remove_with_lock_ok(3) [OF s1'(1) io t] s1'(3) by simp
      then show ?thesis using False s1(2) t by (auto simp: wp remove_io_flag_def)
    qed
  qed
  have "ok (bnd (simple_cold_to_hot e g parent i refresh (sync_or_not s pn i)) (\<lambda>(r, page, refresh').
     andthen
       (if r = 0 then
          bnd (gets remote_of) (\<lambda>ro.
          bnd (pt_result (\<lambda>t. update_with_lock (hash e) ro t g page nullptr)) (\<lambda>(flag, old_flag).
          andthen (assert_that flag) (assert_that (old_flag = IO_FLAG))))
        else remove_io_flag e g)
       (ret (r, page, refresh')))) s (\<lambda>(r, page, rf) s'.
     if admissible s pn i q then r = 0 \<and> rf = refresh \<and> table_map (hash e) (ptable s') g = Some page
     else r = - 1 \<and> rf \<and> table_map (hash e) (ptable s') g = None)"
    unfolding wp_bnd(1)
  proof (rule ok_mono [OF S [folded admissible_def]])
    fix x :: "int \<times> ptr \<times> bool" and s1 :: "'z cache_scheme"
    assume x: "(case x of (r, page, rf) \<Rightarrow> \<lambda>s'. ptable s' = ptable s \<and>
      (if admissible s pn i q then r = 0 \<and> rf = refresh \<and> page \<noteq> nullptr \<and> remote_of s' page = g else r = - 1 \<and> rf)) s1"
    obtain r page rf where y: "x = (r, page, rf)" by (rule prod_cases3)
    have s1: "ptable s1 = ptable s" "if admissible s pn i q then r = 0 \<and> rf = refresh \<and> page \<noteq> nullptr \<and> remote_of s1 page = g else r = - 1 \<and> rf"
      using x unfolding y by simp_all
    show "ok (case x of (r, page, refresh') \<Rightarrow> andthen
       (if r = 0 then
          bnd (gets remote_of) (\<lambda>ro.
          bnd (pt_result (\<lambda>t. update_with_lock (hash e) ro t g page nullptr)) (\<lambda>(flag, old_flag).
          andthen (assert_that flag) (assert_that (old_flag = IO_FLAG))))
        else remove_io_flag e g)
       (ret (r, page, refresh'))) s1 (\<lambda>(r, page, rf) s'.
     if admissible s pn i q then r = 0 \<and> rf = refresh \<and> table_map (hash e) (ptable s') g = Some page
     else r = - 1 \<and> rf \<and> table_map (hash e) (ptable s') g = None)"
      unfolding y prod.case by (rule enter [OF s1])
  qed
  then show ?thesis using parent(1) by (simp add: cold_to_hot_def wp)
qed

section \<open>The cache is transparent\<close>

text \<open>
  C10: Sampling moves hot pages to the cooling table and may write dirty pages back and evict cooling pages; it keeps the
  invariant of the cache, and what every global address holds for the tree is unchanged.
\<close>

theorem sample_page_transparent:
  assumes "cache_inv e s" "sample_page e s = Some (Inr ((), s'))"
  shows "cache_inv e s' \<and> view e s' = view e s"
proof -
  have "good e (view e s) s" using assms(1) by (simp add: good_def)
  then have "safe (sample_page e) s (\<lambda>_. good e (view e s))" by (rule sample_page_good)
  then show ?thesis using assms(2) by (auto simp: safe_def good_def)
qed

text \<open>
  C9: A cache miss with an empty page at hand always completes.  It clears the I/O flag, keeps the invariant and
  changes nothing of what the addresses hold; when the page that was read is the one the parent
  names, the page table leads to a locked local copy of it, and otherwise the caller is told to refresh.
\<close>

theorem cold_to_hot_correct:
  assumes "cache_inv e s" "cstate s = 1" "local_page_set s \<noteq> []"
    "cheap s parent = Some (Inner pn)" "level pn \<noteq> 255" "parent \<notin> set (local_page_set s)"
    "crm s g = Some q" "page_check_consistent q"
    "table_map (hash e) (ptable s) g = Some IO_FLAG" "bucket_free e s g"
  shows "\<exists>r page rf s'. cold_to_hot e g parent i refresh s = Some (Inr ((r, page, rf), s')) \<and>
    cache_inv e s' \<and> view e s' = view e s \<and>
    (if admissible s pn i q
     then r = 0 \<and> rf = refresh \<and> cached e s' g = Some page \<and>
       (\<exists>p. cheap s' page = Some p \<and> isLocked (lock_word p) \<and> Some (lpage (cheap s') p) = view e s g)
     else r = - 1 \<and> rf \<and> table_map (hash e) (ptable s') g = None)"
proof -
  have "good e (view e s) s" using assms(1) by (simp add: good_def)
  note G = cold_to_hot_good [OF this, of g parent i refresh]
  note R = cold_to_hot_returns [OF assms, of i refresh]
  obtain r page rf s' where run: "cold_to_hot e g parent i refresh s = Some (Inr ((r, page, rf), s'))"
    and R': "if admissible s pn i q then r = 0 \<and> rf = refresh \<and> table_map (hash e) (ptable s') g = Some page
      else r = - 1 \<and> rf \<and> table_map (hash e) (ptable s') g = None"
    using R unfolding ok_def by auto
  have G': "good e (view e s) s'" "r = 0 \<Longrightarrow> cached e s' g = Some page" "r = 0 \<Longrightarrow> loaded e s' g page"
    using G run by (auto simp: safe_def)
  have inv: "cache_inv e s'" "view e s' = view e s" using G'(1) by (simp_all add: good_def)
  have "\<exists>p. cheap s' page = Some p \<and> isLocked (lock_word p) \<and> Some (lpage (cheap s') p) = view e s g" if r0: "r = 0"
  proof -
    obtain x w where "crm s' g = Some x" "cheap s' page = Some (set_lock_word w x)" "isLocked w"
      using G'(3) [OF r0] by (auto simp: loaded_def)
    moreover from this have "view e s' g = Some (lpage (cheap s') (set_lock_word w x))"
      using G'(2) [OF r0] by (simp add: view_def view6_def)
    ultimately show ?thesis using inv(2) by auto
  qed
  then show ?thesis using run R' inv G'(2) by (auto split: if_splits)
qed

section \<open>A small cache\<close>

definition sample_env :: cm_env where
  "sample_env = \<lparr>hash = id, cheaper = (\<lambda>_ _ _. True)\<rparr>"

text \<open>A hot inner page without local children at 4096, a page of the thread at 5120, and a leaf in remote memory that is being loaded.\<close>

definition sample_hot :: BTreeInnerNode where
  "sample_hot = (new_inner (replicate 59 0) (replicate 59 0) 1 0)
     \<lparr>typeVersionLockObsolete := 0, remote_address := 16, children := 8 # replicate 58 0, pos_state := 2, dirty := False\<rparr>"

definition sample_cold :: BTreeLeafNode where
  "sample_cold = (new_leaf ((7, 70) # replicate 57 (0, 0)) 8)\<lparr>typeVersionLockObsolete := 0, count := 1, dirty := False\<rparr>"

definition sample_spare :: page where
  "sample_spare = set_pos_state 3 (set_lock_word 4 zero_page)"

definition sample_pt :: page_table where
  "sample_pt = \<lparr>bucket_num = 1, entry_num = 3, pt_table = [[\<lparr>pb_lock = 0, pb_count = 1,
     pb_frames = [\<lparr>page_id = 8, buffer_page = IO_FLAG\<rparr>, zero_frame, zero_frame]\<rparr>]]\<rparr>"

definition small_cache :: cache where
  "small_cache = \<lparr>cheap = [4096 \<mapsto> Inner sample_hot, 5120 \<mapsto> sample_spare], crm = [8 \<mapsto> Leaf sample_cold],
     hash_table = cooling_new 12 sample_pt, cstate = 1, local_page_set = [5120], base_address = 4096, page_num = 2, head_idx = 2,
     buffer_min_limit = 0, buffer_max_limit = - 1, admission_idx = 0, decision = collector_new, dirs = sample_directory,
     send0 = sample_message, msg0 = sample_message, rnd = (\<lambda>_. 0)\<rparr>"

lemma small_cached: "cached sample_env small_cache = Map.empty" "table_map id sample_pt 8 = Some IO_FLAG" "table_ok sample_pt"
proof -
  have m: "table_map id sample_pt = [8 \<mapsto> IO_FLAG]"
    by (rule ext) (simp add: table_map_def sample_pt_def get_bucket_idx_def chain_map_def frames_map_def entry_def live_def zero_frame_def IO_FLAG_def)
  then show "cached sample_env small_cache = Map.empty" "table_map id sample_pt 8 = Some IO_FLAG"
    by (auto simp: cached_def fun_eq_iff sample_env_def small_cache_def cooling_new_def Let_def)
  show "table_ok sample_pt" by code_simp
qed

lemma sample_hot_facts: "inner_wf sample_hot" "kids sample_hot = [8]" "\<not> dirty sample_hot"
  by (unfold inner_wf_def bitmap_ok_code) code_simp+

lemma sample_addrs: "local_addr 4096" "local_addr 5120" "\<not> swizzled 8"
  by code_simp+

lemma sample_spare_facts:
  "\<exists>l. sample_spare = Leaf l \<and> bitmap l = 0 \<and> parent_ptr l = 0 \<and> pos_state l = 3 \<and> isLocked (typeVersionLockObsolete l) \<and> \<not> dirty l"
  by (simp add: sample_spare_def zero_page_def isLocked_def)

lemma sample_parts:
  "cheap small_cache = [4096 \<mapsto> Inner sample_hot, 5120 \<mapsto> sample_spare]" "crm small_cache = [8 \<mapsto> Leaf sample_cold]"
  "local_page_set small_cache = [5120]" "pool_free small_cache = {}" "qaddrs (hash_table small_cache) = []" "ptable small_cache = sample_pt"
  by (simp_all add: small_cache_def pool_free_def cooling_new_def num_entries_def qaddrs_def bucket_addrs_def cqueue_def)

lemma sample_static: "static_ok small_cache"
  using small_cached(3) by (simp add: static_ok_def small_cache_def cooling_new_def num_entries_def cbucket_ok_def pageSize_def)

lemma sample_links: "links_ok [4096 \<mapsto> Inner sample_hot, 5120 \<mapsto> sample_spare]"
proof -
  obtain l where l: "sample_spare = Leaf l" "bitmap l = 0" using sample_spare_facts by blast
  show ?thesis unfolding l(1) using l(2) sample_hot_facts(1,2) sample_addrs by (simp add: links_ok_def inner_ok_def)
qed

lemma small_cache_inv: "cache_inv sample_env small_cache"
proof -
  obtain l where sp: "sample_spare = Leaf l" "bitmap l = 0" "parent_ptr l = 0" "pos_state l = 3" "isLocked (typeVersionLockObsolete l)" "\<not> dirty l"
    using sample_spare_facts by blast
  have "remote_ok [8 \<mapsto> Leaf sample_cold]"
    using sample_addrs(3) by (auto simp: remote_ok_def remote_page_ok_def sample_cold_def new_leaf_def split: if_splits)
  moreover have "dirty_ok [4096 \<mapsto> Inner sample_hot, 5120 \<mapsto> sample_spare] Map.empty"
    using sp(6) sample_hot_facts(3) by (auto simp: sp(1) dirty_ok_def split: if_splits)
  moreover have "reserved_ok [4096 \<mapsto> Inner sample_hot, 5120 \<mapsto> sample_spare] Map.empty [] [5120] {}"
    unfolding sp(1) using sp(2-6) by (auto simp: reserved_ok_def idle_page_def)
  ultimately show ?thesis
    using sample_static sample_links by (simp add: cache_inv_def inv6_def small_cached(1) sample_parts mapped_ok_def)
qed

theorem cold_to_hot_correct_witness:
  "\<exists>page rf s'. cold_to_hot sample_env 8 4096 0 False small_cache = Some (Inr ((0, page, rf), s')) \<and>
    cache_inv sample_env s' \<and> view sample_env s' = view sample_env small_cache \<and> cached sample_env s' 8 = Some page"
proof -
  have adm: "admissible small_cache sample_hot 0 (Leaf sample_cold)"
    by (simp add: admissible_def fit_limits_def new_check_limit_match_def sample_cold_def new_leaf_def small_cache_def sample_hot_def new_inner_def)
  have pre: "cstate small_cache = 1" "local_page_set small_cache \<noteq> []" "cheap small_cache 4096 = Some (Inner sample_hot)"
      "level sample_hot \<noteq> 255" "4096 \<notin> set (local_page_set small_cache)" "crm small_cache 8 = Some (Leaf sample_cold)"
    by (simp_all add: sample_parts) (simp_all add: small_cache_def sample_hot_def new_inner_def)
  have con: "page_check_consistent (Leaf sample_cold)" by (simp add: sample_cold_def new_leaf_def leaf_check_consistent_def)
  have flag: "table_map (hash sample_env) (ptable small_cache) 8 = Some IO_FLAG"
    using small_cached(2) by (simp add: sample_parts sample_env_def)
  have free: "bucket_free sample_env small_cache 8"
    by (simp add: bucket_free_def sample_parts sample_env_def sample_pt_def get_bucket_idx_def Lock32_test_lock_set_def)
  show ?thesis
    using cold_to_hot_correct [OF small_cache_inv pre con flag free, of 0 False] adm by auto
qed

lemma sample_once_run: "case sample_once sample_env small_cache of Some (Inr (fin, _)) \<Rightarrow> fin | _ \<Rightarrow> False"
  by code_simp

theorem sample_page_transparent_witness:
  "\<exists>s'. sample_page sample_env small_cache = Some (Inr ((), s')) \<and> cache_inv sample_env s' \<and>
     view sample_env s' = view sample_env small_cache"
proof -
  obtain s' where "sample_once sample_env small_cache = Some (Inr (True, s'))"
    using sample_once_run by (auto split: option.splits sum.splits)
  moreover have "(1000 :: nat) = Suc 999" by simp
  ultimately have "sample_page sample_env small_cache = Some (Inr ((), s'))"
    unfolding sample_page_def by (simp only: iterate.simps) (simp add: bnd_def ret_def)
  with sample_page_transparent [OF small_cache_inv this] show ?thesis by blast
qed

end
