(* ===== verification/Dex_Tree.thy ===== *)
theory Dex_Tree
  imports Cache_Load
begin

text \<open>
  The B-tree of a compute node, \<open>BTree\<close> of \<open>dex/include/tree/leanstore_tree.h\<close>, over the page cache.  The
  state extends the cache by the members of the class, the remote words of the root pointer and the
  root lock, and the allocator of the cluster.  A remote lock is the first word of a page of remote
  memory.  The programs are those of one thread; \<open>goto restart\<close> is a loop with a bound on the restarts,
  and a bound that is used up is a thread that does not return.  A page read into an RDMA buffer is the
  value that was read.
\<close>

section \<open>State\<close>

record btree = cache +
  root_ptr_ptr :: GlobalAddress
  root_lock_ptr :: GlobalAddress
  root :: GlobalAddress
  tree_id :: u64
  super_root :: ptr
  left_bound :: Key
  right_bound :: Key
  min_key :: Key
  max_key :: Key
  height :: int
  rwords :: "GlobalAddress \<Rightarrow> u64"
  tdsm :: dsm
  tconf :: dsm_conf
  my_thread :: nat
  my_node :: nat
  thread_tag :: u64
  next_node_id :: u32
  refresh_node_id :: u32
  buf_children :: "GlobalAddress list"
  buf_keys :: "Key list"
  buf_data :: "(Key \<times> Value) list"

definition megaLevel :: nat where "megaLevel = 4"

text \<open>The fields of an inner page in place; \<open>insert\<close> asserts that the node is not full.\<close>

definition change_inner :: "ptr \<Rightarrow> (BTreeInnerNode \<Rightarrow> BTreeInnerNode) \<Rightarrow> (btree, unit) prog" where
  "change_inner a f = bnd (load_inner a) (\<lambda>n. store a (Inner (f n)))"

definition inner_insert_at :: "ptr \<Rightarrow> Key \<Rightarrow> GlobalAddress \<Rightarrow> (btree, unit) prog" where
  "inner_insert_at a k child = bnd (load_inner a) (\<lambda>n.
     andthen (assert_that (unat (count n) < inner_maxEntries - 1)) (store a (Inner (inner_insert n k child))))"

fun set_shared_flag :: "bool \<Rightarrow> page \<Rightarrow> page" where
  "set_shared_flag b (Inner n) = Inner (n\<lparr>shared := b\<rparr>)" | "set_shared_flag b (Leaf l) = Leaf (l\<lparr>shared := b\<rparr>)"

fun for_each :: "nat list \<Rightarrow> (nat \<Rightarrow> (btree, unit) prog) \<Rightarrow> (btree, unit) prog" where
  "for_each [] f = ret ()" | "for_each (i # is) f = andthen (f i) (for_each is f)"

section \<open>Remote words and locks\<close>

text \<open>The eight bytes at a remote address: the lock word of the page there, or a word of its own.\<close>

definition remote_word :: "btree \<Rightarrow> GlobalAddress \<Rightarrow> u64" where
  "remote_word s a = (case crm s a of Some p \<Rightarrow> lock_word p | None \<Rightarrow> rwords s a)"

definition set_remote_word :: "GlobalAddress \<Rightarrow> u64 \<Rightarrow> btree \<Rightarrow> btree" where
  "set_remote_word a w s = (case crm s a of
      Some p \<Rightarrow> s\<lparr>crm := (crm s)(a \<mapsto> set_lock_word w p)\<rparr> | None \<Rightarrow> s\<lparr>rwords := (rwords s)(a := w)\<rparr>)"

definition cas_sync :: "GlobalAddress \<Rightarrow> u64 \<Rightarrow> u64 \<Rightarrow> (btree, bool) prog" where
  "cas_sync a equal v = (\<lambda>s. if remote_word s a = equal then Some (Inr (True, set_remote_word a v s)) else Some (Inr (False, s)))"

definition try_get_remote_lock :: "GlobalAddress \<Rightarrow> (btree, bool) prog" where
  "try_get_remote_lock a = bnd (gets thread_tag) (cas_sync a 0)"

definition test_remote_lock_set :: "GlobalAddress \<Rightarrow> (btree, bool) prog" where
  "test_remote_lock_set a = gets (\<lambda>s. remote_word s a \<noteq> 0)"

definition get_remote_lock :: "GlobalAddress \<Rightarrow> (btree, unit) prog" where
  "get_remote_lock a = bnd (try_get_remote_lock a) (\<lambda>b. if b then ret () else waits)"

definition release_remote_lock :: "GlobalAddress \<Rightarrow> (btree, unit) prog" where
  "release_remote_lock a = modify (set_remote_word a 0)"

definition is_local_remote_match :: "ptr \<Rightarrow> GlobalAddress \<Rightarrow> (btree, bool) prog" where
  "is_local_remote_match local_node remote_node =
     bnd (raw_remote_read remote_node) (\<lambda>r. bnd (header local_node) (\<lambda>l. ret (front_version l = front_version (page_hdr r))))"

section \<open>Addresses, bounds and allocation\<close>

definition root_ptr_addr :: "u64 \<Rightarrow> GlobalAddress" where
  "root_ptr_addr t = mk_GlobalAddress 0 (kRootPointerStoreOffest + 8 * t)"

definition root_lock_addr :: "u64 \<Rightarrow> GlobalAddress" where
  "root_lock_addr t = mk_GlobalAddress 0 (kRootPointerStoreOffest + 8 * (t + 1))"

definition get_global_address :: "GlobalAddress \<Rightarrow> (btree, GlobalAddress) prog" where
  "get_global_address g =
     (if g AND swizzle_tag \<noteq> 0 then bnd (header (g AND swizzle_hide)) (\<lambda>h. ret (remote_address h)) else ret g)"

definition get_node_ID :: "GlobalAddress \<Rightarrow> (btree, u64) prog" where
  "get_node_ID g = bnd (get_global_address g) (\<lambda>a. ret (nodeID a))"

definition get_memory_address :: "GlobalAddress \<Rightarrow> ptr" where
  "get_memory_address g = (if g AND swizzle_tag \<noteq> 0 then g AND swizzle_hide else nullptr)"

definition set_left_bound :: "Key \<Rightarrow> btree \<Rightarrow> btree" where
  "set_left_bound k s = s\<lparr>left_bound := k, buffer_min_limit := k\<rparr>"

definition set_right_bound :: "Key \<Rightarrow> btree \<Rightarrow> btree" where
  "set_right_bound k s = s\<lparr>right_bound := k, buffer_max_limit := k\<rparr>"

definition set_bound :: "Key \<Rightarrow> Key \<Rightarrow> btree \<Rightarrow> btree" where
  "set_bound l r s = set_right_bound r (set_left_bound l s)"

definition is_private :: "btree \<Rightarrow> NodeBase \<Rightarrow> bool" where
  "is_private s n \<longleftrightarrow> min_limit n \<ge> left_bound s \<and> max_limit n < right_bound s"

definition tree_rangeValid :: "Key \<Rightarrow> Key \<Rightarrow> Key \<Rightarrow> bool" where
  "tree_rangeValid k cur_min cur_max \<longleftrightarrow>
     (if 0 = k \<and> k = cur_min then True else if k \<le> cur_min \<or> k > cur_max then False else True)"

text \<open>\<open>get_random_id\<close> draws again while it draws \<open>id\<close> itself.\<close>

definition get_random_id :: "nat \<Rightarrow> nat \<Rightarrow> (btree, nat) prog" where
  "get_random_id fuel idn = iterate fuel (\<lambda>_.
     bnd (gets (\<lambda>s. machineNR (tconf s))) (\<lambda>n. bnd (draw n) (\<lambda>idx. ret (if idx = idn then Inl () else Inr idx)))) ()"

definition allocate_node :: "nat \<Rightarrow> (btree, GlobalAddress) prog" where
  "allocate_node node_id = lift AllocError (\<lambda>s. Some (
     case DSM_alloc_node (tconf s) (tdsm s) (my_thread s) (of_nat pageSize) node_id of
       Inl er \<Rightarrow> Inl er | Inr (a, d) \<Rightarrow> Inr (a, s\<lparr>tdsm := d\<rparr>)))"

text \<open>A whole page written to remote memory as it is.\<close>

definition write_sync :: "GlobalAddress \<Rightarrow> page \<Rightarrow> (btree, unit) prog" where
  "write_sync g p = modify (\<lambda>s. s\<lparr>crm := (crm s)(g \<mapsto> p)\<rparr>)"

definition allocate_leaf_node :: "nat \<Rightarrow> (btree, GlobalAddress) prog" where
  "allocate_leaf_node node_id = bnd (allocate_node node_id) (\<lambda>a. bnd (gets buf_data) (\<lambda>buf.
     andthen (write_sync a (Leaf ((new_leaf buf a)\<lparr>typeVersionLockObsolete := 0\<rparr>))) (ret a)))"

definition allocate_leaf_between :: "Key \<Rightarrow> Key \<Rightarrow> nat \<Rightarrow> (btree, GlobalAddress) prog" where
  "allocate_leaf_between lo hi node_id = bnd (allocate_node node_id) (\<lambda>a. bnd (gets buf_data) (\<lambda>buf.
     andthen (write_sync a (Leaf ((new_leaf buf a)\<lparr>typeVersionLockObsolete := 0, min_limit := lo, max_limit := hi\<rparr>))) (ret a)))"

definition remote_write_unswizzle :: "ptr \<Rightarrow> bool \<Rightarrow> (btree, unit) prog" where
  "remote_write_unswizzle mem_node clear_lock =
     bnd (load mem_node) (\<lambda>p. bnd (gets thread_tag) (\<lambda>tag.
     let buffer = (if clear_lock then p else set_lock_word tag p) in
     bnd (lift WrError (\<lambda>s. Some (case fully_unswizzle (cheap s) buffer of Inl er \<Rightarrow> Inl er | Inr q \<Rightarrow> Inr (q, s)))) (\<lambda>q.
     andthen (write_buffer (remote_address (page_hdr q)) q clear_lock)
     (change mem_node (set_dirty False)))))"

section \<open>The root\<close>

definition get_remote_root :: "(btree, GlobalAddress) prog" where
  "get_remote_root = gets (\<lambda>s. remote_word s (root_ptr_ptr s))"

definition update_root_ptr :: "GlobalAddress \<Rightarrow> GlobalAddress \<Rightarrow> (btree, unit) prog" where
  "update_root_ptr new_root old_root =
     bnd (get_global_address old_root) (\<lambda>old. bnd (get_global_address new_root) (\<lambda>new.
     bnd (gets root_ptr_ptr) (\<lambda>ptr_ptr.
     bnd (cas_sync ptr_ptr old new) (\<lambda>res.
     bnd (if res then ret new_root else get_remote_root) (\<lambda>r.
     andthen (modify (\<lambda>s. s\<lparr>root := r\<rparr>))
     (bnd (gets super_root) (\<lambda>sr.
      andthen (change_inner sr (\<lambda>n. n\<lparr>children := (children n)[0 := r]\<rparr>))
      (whenever (get_memory_address r \<noteq> nullptr) (change_inner sr (\<lambda>n. set_bitmap n 0))))))))))"

definition get_newest_root :: "(btree, unit) prog" where
  "get_newest_root = bnd get_remote_root (\<lambda>new_root. bnd (gets root) (\<lambda>r. bnd (get_global_address r) (\<lambda>cur.
     whenever (new_root \<noteq> cur) (modify (\<lambda>s. s\<lparr>root := new_root\<rparr>)))))"

text \<open>A child that is in the cache learns its new parent, whose bitmap marks it.\<close>

definition adopt :: "ptr \<Rightarrow> GlobalAddress \<Rightarrow> nat \<Rightarrow> (btree, unit) prog" where
  "adopt mem_root child i =
     whenever (search_in_cache child \<noteq> nullptr)
       (andthen (change (search_in_cache child) (set_parent_ptr mem_root)) (change_inner mem_root (\<lambda>n. set_bitmap n i)))"

definition makeRoot :: "cm_env \<Rightarrow> nat \<Rightarrow> Key \<Rightarrow> GlobalAddress \<Rightarrow> GlobalAddress \<Rightarrow> u8 \<Rightarrow> (btree, unit) prog" where
  "makeRoot e fuel k leftChild rightChild lev =
     bnd (get_global_address leftChild) (\<lambda>remote_left.
     bnd (if unat lev mod megaLevel = 0 then bnd (get_random_id fuel (unat (nodeID remote_left))) allocate_node
          else allocate_node (unat (nodeID remote_left))) (\<lambda>new_root.
     bnd (gets (\<lambda>s. (new_inner ((buf_children s)[0 := leftChild, 1 := rightChild]) ((buf_keys s)[0 := k]) lev new_root)
            \<lparr>count := 1, shared := True\<rparr>)) (\<lambda>inner.
     bnd (cache_insert e new_root (Inner inner) nullptr True) (\<lambda>(_, new_root').
     let mem_root = search_in_cache new_root' in
     andthen (assert_that (mem_root \<noteq> nullptr))
     (andthen (change mem_root (set_pos_state 2))
     (andthen (adopt mem_root leftChild 0)
     (andthen (adopt mem_root rightChild 1)
     (andthen (remote_write_unswizzle mem_root True)
     (bnd (gets root) (\<lambda>old_root.
      andthen (update_root_ptr new_root' old_root)
      (bnd (gets super_root) (\<lambda>sr.
       andthen (change mem_root (set_parent_ptr sr))
       (bnd (header mem_root) (\<lambda>h.
        andthen (modify (\<lambda>s. s\<lparr>height := int (unat (level h)) + 1\<rparr>))
        (page_writeUnlock mem_root)))))))))))))))"

text \<open>\<open>load_newest_root\<close>: \<open>needRestart\<close>, which is false on entry.\<close>

definition load_newest_root :: "cm_env \<Rightarrow> u64 \<Rightarrow> (btree, bool) prog" where
  "load_newest_root e versionNode =
     bnd get_remote_root (\<lambda>remote_root.
     bnd (gets root) (\<lambda>r0. bnd (get_global_address r0) (\<lambda>cur_root.
     if remote_root = cur_root \<and> search_in_cache r0 \<noteq> nullptr then ret False
     else
       bnd (opt_read remote_root) (\<lambda>buffer. case buffer of
         None \<Rightarrow> ret False
       | Some remote_root_node \<Rightarrow>
           bnd (gets super_root) (\<lambda>sr.
           bnd (page_upgrade sr versionNode False) (\<lambda>(_, needRestart).
           if needRestart then ret True
           else
             bnd (gets root) (\<lambda>r1. bnd (get_global_address r1) (\<lambda>cur_root'.
             andthen (assert_that (addr_eq cur_root cur_root'))
             (bnd (gets root_lock_ptr) (\<lambda>lp. bnd (test_remote_lock_set lp) (\<lambda>locked.
              if locked then andthen (page_writeUnlock sr) (ret True)
              else
                bnd get_remote_root (\<lambda>remote_check_root.
                if remote_root \<noteq> remote_check_root then andthen (page_writeUnlock sr) (ret True)
                else
                  bnd (gets (\<lambda>s. fit_limits s (page_hdr remote_root_node))) (\<lambda>fits.
                  andthen (assert_that fits)
                  (bnd (cache_insert e remote_root remote_root_node sr True) (\<lambda>(_, new_root).
                   bnd (gets root) (\<lambda>r2.
                   andthen (whenever (get_memory_address r2 \<noteq> nullptr) (change (get_memory_address r2) (set_parent_ptr nullptr)))
                   (andthen (modify (\<lambda>s. s\<lparr>root := new_root\<rparr>))
                   (let mem_root = get_memory_address new_root in
                    andthen (assert_that (mem_root \<noteq> nullptr))
                    (andthen (change mem_root (set_parent_ptr sr))
                    (andthen (change_inner sr (\<lambda>n. n\<lparr>children := (children n)[0 := new_root]\<rparr>))
                    (andthen (change_inner sr (\<lambda>n. set_bitmap n 0))
                    (bnd (header mem_root) (\<lambda>h.
                     andthen (modify (\<lambda>s. s\<lparr>height := int (unat (level h)) + 1\<rparr>))
                     (andthen (change mem_root (set_pos_state 2))
                     (andthen (page_writeUnlock mem_root)
                     (andthen (page_writeUnlock sr) (ret True)))))))))))))))))))))))))))"

section \<open>Local and remote locks together\<close>

definition full_unlock :: "ptr \<Rightarrow> (btree, unit) prog" where
  "full_unlock mem_node = bnd (header mem_node) (\<lambda>h. andthen (release_remote_lock (remote_address h)) (page_writeUnlock mem_node))"

definition full_IO_unlock :: "ptr \<Rightarrow> (btree, unit) prog" where
  "full_IO_unlock mem_node = bnd (header mem_node) (\<lambda>h. andthen (release_remote_lock (remote_address h)) (page_IOUnlock mem_node))"

definition full_IO_lock_with_check :: "ptr \<Rightarrow> u64 \<Rightarrow> bool \<Rightarrow> (btree, bool) prog" where
  "full_IO_lock_with_check mem_node node_version needRestart =
     bnd (page_io_upgrade mem_node node_version needRestart) (\<lambda>(_, r).
     if r then ret True
     else
       bnd (header mem_node) (\<lambda>h.
       bnd (try_get_remote_lock (remote_address h)) (\<lambda>b.
       if \<not> b then andthen (page_IOUnlock mem_node) (ret True)
       else
         bnd (is_local_remote_match mem_node (remote_address h)) (\<lambda>m.
         if \<not> m then andthen (release_remote_lock (remote_address h)) (andthen (page_IOUnlock mem_node) (ret True))
         else ret False))))"

definition full_lock_with_check :: "ptr \<Rightarrow> u64 \<Rightarrow> bool \<Rightarrow> (btree, bool) prog" where
  "full_lock_with_check mem_node node_version needRestart =
     bnd (page_upgrade mem_node node_version needRestart) (\<lambda>(_, r).
     if r then ret True
     else
       bnd (header mem_node) (\<lambda>h.
       bnd (try_get_remote_lock (remote_address h)) (\<lambda>b.
       if \<not> b then andthen (page_writeUnlock mem_node) (ret True)
       else
         bnd (is_local_remote_match mem_node (remote_address h)) (\<lambda>m.
         if \<not> m then andthen (release_remote_lock (remote_address h)) (andthen (page_writeUnlock mem_node) (ret True))
         else ret False))))"

definition check_parent_global_conflict :: "ptr \<Rightarrow> GlobalAddress \<Rightarrow> u64 \<Rightarrow> bool \<Rightarrow> (btree, bool) prog" where
  "check_parent_global_conflict parent remote_addr org_version needRestart =
     bnd (gets super_root) (\<lambda>sr.
     if parent = sr then
       bnd (gets root_lock_ptr) (\<lambda>lp. bnd (test_remote_lock_set lp) (\<lambda>locked.
       if locked then ret True
       else bnd get_remote_root (\<lambda>remote_root. bnd (gets root) (\<lambda>r. bnd (get_global_address r) (\<lambda>cur_root.
         ret (if remote_root \<noteq> cur_root then True else needRestart))))))
     else
       bnd (raw_remote_read remote_addr) (\<lambda>p. case p of
         Leaf l \<Rightarrow> fail BadAccess
       | Inner n \<Rightarrow> ret (check_global_conflict n org_version needRestart)))"

definition parent_read_unlock :: "ptr \<Rightarrow> u64 \<Rightarrow> bool \<Rightarrow> (btree, bool) prog" where
  "parent_read_unlock parent versionParent needRestart =
     bnd (gets super_root) (\<lambda>sr.
     bnd (header parent) (\<lambda>h.
     if parent = sr then
       bnd (gets root) (\<lambda>r. bnd (get_global_address r) (\<lambda>cur_root.
       bnd (page_readUnlock parent versionParent needRestart) (\<lambda>nr.
       if nr then ret True
       else if shared h then
         bnd (gets root_lock_ptr) (\<lambda>lp. bnd (test_remote_lock_set lp) (\<lambda>locked.
         if locked then ret True
         else bnd get_remote_root (\<lambda>remote_root. ret (remote_root \<noteq> cur_root))))
       else ret False)))
     else
       bnd (page_readUnlock parent versionParent needRestart) (\<lambda>nr.
       if nr then ret True
       else if shared h then
         bnd (raw_remote_read (remote_address h)) (\<lambda>p. case p of
           Leaf l \<Rightarrow> fail BadAccess
         | Inner n \<Rightarrow> ret (check_global_conflict n (front_version h) nr))
       else ret False)))"

text \<open>\<open>verify_and_acquire_lock\<close>: whether the lock was taken, and \<open>refresh_cache\<close>.\<close>

definition verify_and_acquire_lock :: "ptr \<Rightarrow> u64 \<Rightarrow> (btree, bool \<times> bool) prog" where
  "verify_and_acquire_lock cur_node org_version =
     bnd (page_upgrade cur_node org_version False) (\<lambda>(_, needRestart).
     if needRestart then ret (False, False)
     else
       bnd (header cur_node) (\<lambda>c.
       andthen (assert_that (pos_state c = 2))
       (andthen (assert_that (shared c))
       (bnd (try_get_remote_lock (remote_address c)) (\<lambda>b.
        if \<not> b then andthen (page_writeUnlock cur_node) (ret (False, False))
        else
          bnd (raw_remote_read (remote_address c)) (\<lambda>p. case p of
            Leaf l \<Rightarrow> fail BadAccess
          | Inner remote_cur_node \<Rightarrow>
              andthen (assert_that (inner_check_consistent remote_cur_node))
              (if inner_isFull remote_cur_node then andthen (full_unlock cur_node) (ret (False, True))
               else if front_version remote_cur_node = front_version c then ret (True, False)
               else andthen (full_unlock cur_node) (ret (False, True)))))))))"

section \<open>Following a child pointer\<close>

definition new_swizzling :: "ptr \<Rightarrow> nat \<Rightarrow> ptr \<Rightarrow> (btree, unit) prog" where
  "new_swizzling parent child_idx child =
     bnd (load_inner parent) (\<lambda>pn. bnd (header child) (\<lambda>c.
     andthen (assert_that (check_parent_child_info pn child c))
     (andthen (change child (set_parent_ptr parent))
     (andthen (change child (set_pos_state 2))
     (andthen (change_inner parent (\<lambda>n. n\<lparr>children := (children n)[child_idx := child OR swizzle_tag]\<rparr>))
     (andthen (change_inner parent (\<lambda>n. set_bitmap n child_idx))
     (andthen (assert_that (level pn \<noteq> 255)) (assert_parent_child parent child))))))))"

text \<open>A page the cache has handed out becomes the child, hot and unlocked.\<close>

definition link_child :: "ptr \<Rightarrow> nat \<Rightarrow> ptr \<Rightarrow> (btree, unit) prog" where
  "link_child parent child_idx child =
     andthen (new_swizzling parent child_idx child)
     (andthen (change child (set_pos_state 2)) (page_writeUnlock child))"

text \<open>The child pointer is a reference into the parent, read again after each step: the page or null, \<open>restart\<close> and \<open>refresh\<close>.\<close>

definition child_at :: "ptr \<Rightarrow> nat \<Rightarrow> (btree, GlobalAddress) prog" where
  "child_at parent child_idx = bnd (load_inner parent) (\<lambda>n. ret (children n ! child_idx))"

definition new_get_mem_node :: "cm_env \<Rightarrow> ptr \<Rightarrow> nat \<Rightarrow> u64 \<Rightarrow> bool \<Rightarrow> bool \<Rightarrow> bool \<Rightarrow> (btree, ptr \<times> bool \<times> bool) prog" where
  "new_get_mem_node e parent child_idx versionNode restart refresh IO_enable =
     bnd (child_at parent child_idx) (\<lambda>node.
     if node AND swizzle_tag \<noteq> 0 then ret (node AND swizzle_hide, restart, refresh)
     else
       andthen (opportunistic_sample e)
       (bnd (page_io_upgrade parent versionNode restart) (\<lambda>(_, restart1).
        if restart1 then ret (nullptr, True, refresh)
        else
          bnd (child_at parent child_idx) (\<lambda>snapshot.
          if get_memory_address snapshot \<noteq> nullptr then
            andthen (page_IOUnlock parent) (ret (get_memory_address snapshot, restart1, refresh))
          else
            bnd (cache_get e node parent child_idx restart1 refresh IO_enable) (\<lambda>(target_node, restart2, refresh2).
            andthen (whenever (target_node \<noteq> nullptr) (link_child parent child_idx target_node))
            (if \<not> restart2 \<and> target_node = nullptr then andthen (assert_that (\<not> IO_enable)) (ret (nullptr, restart2, refresh2))
             else andthen (page_IOUnlock parent) (ret (target_node, restart2, refresh2))))))))"

definition new_get_mem_node_without_lock :: "cm_env \<Rightarrow> ptr \<Rightarrow> nat \<Rightarrow> bool \<Rightarrow> bool \<Rightarrow> bool \<Rightarrow> (btree, ptr \<times> bool \<times> bool) prog" where
  "new_get_mem_node_without_lock e parent child_idx restart refresh IO_enable =
     bnd (child_at parent child_idx) (\<lambda>node.
     if node AND swizzle_tag \<noteq> 0 then ret (node AND swizzle_hide, restart, refresh)
     else
       andthen (fill_local_page_set e)
       (bnd (cache_get e node parent child_idx restart refresh IO_enable) (\<lambda>(target_node, restart2, refresh2).
        andthen (whenever (target_node \<noteq> nullptr) (link_child parent child_idx target_node))
        (ret (target_node, restart2, refresh2)))))"

section \<open>Refreshing the path from the root\<close>

fun check_children :: "cm_env \<Rightarrow> ptr \<Rightarrow> bool \<Rightarrow> nat list \<Rightarrow> (btree, bool) prog" where
  "check_children e inner needRestart [] = ret True"
| "check_children e inner needRestart (i # is) =
     bnd (new_get_mem_node_without_lock e inner i needRestart False True) (\<lambda>(next_node, needRestart', _).
     if next_node = nullptr then ret False
     else bnd (header next_node) (\<lambda>h. if shared h then ret False else check_children e inner needRestart' is))"

definition iterate_check_private :: "cm_env \<Rightarrow> ptr \<Rightarrow> (btree, bool) prog" where
  "iterate_check_private e inner = bnd (load_inner inner) (\<lambda>n. check_children e inner False [0..<unat (count n) + 1])"

definition page_IOUpgradeToWrite :: "ptr \<Rightarrow> (btree, bool) prog" where
  "page_IOUpgradeToWrite a = bnd (load a) (\<lambda>p. let (r, w) = IOUpgradeToWriteLockOrRestart (lock_word p) False in
     andthen (store a (set_lock_word w p)) (ret r))"

text \<open>Replacement of an outdated node; the caller restarts in any case.\<close>

definition refresh_replace :: "cm_env \<Rightarrow> ptr \<Rightarrow> u64 \<Rightarrow> ptr \<Rightarrow> u64 \<Rightarrow> page \<Rightarrow> (btree, unit) prog" where
  "refresh_replace e parent versionParent cur_node versionNode remote_cur_node =
     bnd (gets (\<lambda>s. fit_limits s (page_hdr remote_cur_node))) (\<lambda>fits.
     if \<not> fits then ret ()
     else
       bnd (header parent) (\<lambda>ph.
       bnd (page_upgrade parent versionParent False) (\<lambda>(_, nr).
       if nr then ret ()
       else
         bnd (check_parent_global_conflict parent (remote_address ph) (front_version ph) False) (\<lambda>nr2.
         if nr2 then page_writeUnlock parent
         else
           bnd (page_upgrade cur_node versionNode False) (\<lambda>(_, nr3).
           if nr3 then page_writeUnlock parent
           else
             bnd (gets super_root) (\<lambda>sr. bnd (load_inner parent) (\<lambda>pn. bnd (header cur_node) (\<lambda>c.
             andthen (whenever (parent \<noteq> sr) (assert_that (check_limit_match pn cur_node c True)))
             (andthen (assert_that (parent_ptr c = parent))
             (andthen (assert_that (shared c))
             (andthen (updatest_replace e cur_node parent remote_cur_node)
             (bnd (load_inner parent) (\<lambda>pn'.
              andthen (whenever (level pn' = 255) (modify (\<lambda>s. s\<lparr>root := children pn' ! 0\<rparr>)))
              (andthen (page_writeUnlock cur_node) (page_writeUnlock parent)))))))))))))))"

text \<open>A shared node that has become private: \<open>True\<close> when the caller restarts.\<close>

definition refresh_private :: "cm_env \<Rightarrow> ptr \<Rightarrow> u64 \<Rightarrow> page \<Rightarrow> (btree, bool) prog" where
  "refresh_private e cur_node versionNode remote_cur_node =
     bnd (full_IO_lock_with_check cur_node versionNode False) (\<lambda>nr.
     if nr then ret True
     else
       bnd (header cur_node) (\<lambda>c.
       andthen (assert_that (front_version c = front_version (page_hdr remote_cur_node)))
       (bnd (iterate_check_private e cur_node) (\<lambda>flag.
        if flag then
          bnd (page_IOUpgradeToWrite cur_node) (\<lambda>nr2.
          andthen (assert_that (\<not> nr2))
          (andthen (change cur_node (set_shared_flag False))
          (andthen (write_buffer (remote_address (page_hdr remote_cur_node)) remote_cur_node False)
          (andthen (full_unlock cur_node) (ret True)))))
        else andthen (full_IO_unlock cur_node) (ret False)))))"

text \<open>
  The page for a split: the address comes from the node's own memory server inside a subtree, and above
  it from the servers in turn.
\<close>

definition lift_heap :: "(heap \<Rightarrow> wr_error + heap) \<Rightarrow> (btree, unit) prog" where
  "lift_heap f = lift WrError (\<lambda>s. Some (case f (cheap s) of Inl er \<Rightarrow> Inl er | Inr h \<Rightarrow> Inr ((), s\<lparr>cheap := h\<rparr>)))"

definition allocate_sibling :: "(btree \<Rightarrow> u32) \<Rightarrow> (btree \<Rightarrow> btree) \<Rightarrow> NodeBase \<Rightarrow> (btree, GlobalAddress) prog" where
  "allocate_sibling next_id bump c =
     (if unat (level c) \<le> megaLevel - 1 then allocate_node (unat (nodeID (remote_address c)))
      else bnd (gets next_id) (\<lambda>n. bnd (allocate_node (unat n)) (\<lambda>a. andthen (modify bump) (ret a))))"

text \<open>Splitting a write-locked inner page: the separator, the tagged address of the new page and the page.\<close>

definition split_inner_page :: "cm_env \<Rightarrow> ptr \<Rightarrow> ptr \<Rightarrow> GlobalAddress \<Rightarrow> (btree, Key \<times> GlobalAddress \<times> ptr) prog" where
  "split_inner_page e parent cur_node newInner =
     bnd (load_inner cur_node) (\<lambda>inner.
     bnd (gets (\<lambda>s. new_inner (buf_children s) (buf_keys s) (level inner) newInner)) (\<lambda>new_mem.
     let (sep, left, right) = inner_split inner new_mem in
     andthen (store cur_node (Inner left))
     (bnd (cache_insert e newInner (Inner right) parent True) (\<lambda>(_, newInner').
      let mem_new_inner = search_in_cache newInner' in
      andthen (assert_that (mem_new_inner \<noteq> nullptr))
      (andthen (assert_locked mem_new_inner)
       (ret (sep, newInner', mem_new_inner)))))))"

definition refresh_split :: "cm_env \<Rightarrow> nat \<Rightarrow> ptr \<Rightarrow> u64 \<Rightarrow> ptr \<Rightarrow> u64 \<Rightarrow> (btree, unit) prog" where
  "refresh_split e fuel parent versionParent cur_node versionNode =
     bnd (gets super_root) (\<lambda>sr. bnd (gets root_lock_ptr) (\<lambda>lp.
     bnd (if parent = sr then
            bnd (page_upgrade parent versionParent False) (\<lambda>(_, nr).
            if nr then ret True
            else
              bnd (try_get_remote_lock lp) (\<lambda>b.
              if \<not> b then andthen (page_writeUnlock parent) (ret True)
              else
                bnd get_remote_root (\<lambda>remote_root. bnd (gets root) (\<lambda>r. bnd (get_global_address r) (\<lambda>cur_root.
                if \<not> addr_eq remote_root cur_root then andthen (release_remote_lock lp) (andthen (page_writeUnlock parent) (ret True))
                else ret False)))))
          else
            bnd (header parent) (\<lambda>ph.
            andthen (assert_that (shared ph)) (full_lock_with_check parent versionParent False))) (\<lambda>nr.
     if nr then ret ()
     else
       bnd (full_lock_with_check cur_node versionNode False) (\<lambda>nr2.
       if nr2 then
         (if parent = sr then andthen (release_remote_lock lp) (page_writeUnlock parent) else full_unlock parent)
       else
         bnd (header cur_node) (\<lambda>c.
         bnd (allocate_sibling refresh_node_id (\<lambda>s. s\<lparr>refresh_node_id := refresh_node_id s + 1\<rparr>) c) (\<lambda>newInner.
         bnd (split_inner_page e parent cur_node newInner) (\<lambda>(sep, newInner', mem_new_inner).
         andthen (change mem_new_inner (set_pos_state 2))
         (andthen (change mem_new_inner (set_shared_flag True))
         (andthen (lift_heap (\<lambda>h. update_all_parent_ptr h mem_new_inner))
         (if parent = sr then
            andthen (remote_write_unswizzle mem_new_inner True)
            (andthen (remote_write_unswizzle cur_node False)
            (andthen (makeRoot e fuel sep (cur_node OR swizzle_tag) newInner' (level c + 1))
            (andthen (page_writeUnlock mem_new_inner)
            (andthen (full_unlock cur_node)
            (andthen (release_remote_lock lp) (page_writeUnlock parent))))))
          else
            andthen (inner_insert_at parent sep newInner')
            (andthen (remote_write_unswizzle mem_new_inner True)
            (andthen (remote_write_unswizzle cur_node False)
            (andthen (remote_write_unswizzle parent False)
            (andthen (page_writeUnlock mem_new_inner)
            (andthen (full_unlock cur_node) (full_unlock parent))))))))))))))))"

text \<open>The work on a shared node on the way down: \<open>True\<close> when the caller restarts.\<close>

definition refresh_shared :: "cm_env \<Rightarrow> nat \<Rightarrow> ptr \<Rightarrow> u64 \<Rightarrow> ptr \<Rightarrow> u64 \<Rightarrow> (btree, bool) prog" where
  "refresh_shared e fuel parent versionParent cur_node versionNode =
     bnd (header cur_node) (\<lambda>c.
     bnd (page_readUnlock parent versionParent False) (\<lambda>nr.
     if nr then ret True
     else
       bnd (opt_read (remote_address c)) (\<lambda>buffer. case buffer of
         None \<Rightarrow> ret True
       | Some remote_cur_node \<Rightarrow>
           if front_version (page_hdr remote_cur_node) > front_version c then
             andthen (refresh_replace e parent versionParent cur_node versionNode remote_cur_node) (ret True)
           else
             bnd (gets (\<lambda>s. is_private s c)) (\<lambda>priv.
             bnd (if priv then refresh_private e cur_node versionNode remote_cur_node else ret False) (\<lambda>nr2.
             if nr2 then ret True
             else
               bnd (load_inner cur_node) (\<lambda>inner.
               if inner_isFull inner then andthen (refresh_split e fuel parent versionParent cur_node versionNode) (ret True)
               else ret False))))))"

text \<open>The \<open>while\<close> loop down to the leaf: \<open>True\<close> when the walk restarts from the root.\<close>

definition refresh_walk :: "cm_env \<Rightarrow> nat \<Rightarrow> Key \<Rightarrow> ptr \<times> u64 \<times> ptr \<times> u64 \<Rightarrow> (btree, bool) prog" where
  "refresh_walk e fuel k = iterate fuel (\<lambda>(parent, versionParent, cur_node, versionNode).
     bnd (load cur_node) (\<lambda>p. case p of
       Leaf l \<Rightarrow> ret (Inr False)
     | Inner inner \<Rightarrow>
         bnd (if shared inner then refresh_shared e fuel parent versionParent cur_node versionNode else ret False) (\<lambda>nr.
         if nr then ret (Inr True)
         else
           bnd (parent_read_unlock parent versionParent False) (\<lambda>nr2.
           if nr2 then ret (Inr True)
           else
             bnd (load_inner cur_node) (\<lambda>n.
             let idx = inner_lowerBound n k in
             bnd (new_get_mem_node e cur_node idx versionNode False False True) (\<lambda>(next_node, nr3, _).
             if nr3 then ret (Inr True)
             else
               andthen (assert_that (next_node \<noteq> nullptr))
               (bnd (page_readLock next_node False) (\<lambda>(v, nr4).
                ret (if nr4 then Inr True else Inl (cur_node, versionNode, next_node, v))))))))))"

definition new_refresh_from_root :: "cm_env \<Rightarrow> nat \<Rightarrow> Key \<Rightarrow> (btree, unit) prog" where
  "new_refresh_from_root e fuel k = iterate fuel (\<lambda>_.
     bnd (gets super_root) (\<lambda>sr.
     bnd (page_readLock sr False) (\<lambda>(versionParent, nr).
     if nr then ret (Inl ())
     else
       bnd (load_newest_root e versionParent) (\<lambda>nr2.
       if nr2 then ret (Inl ())
       else
         bnd (gets (\<lambda>s. search_in_cache (root s))) (\<lambda>cur_node.
         andthen (assert_that (cur_node \<noteq> nullptr))
         (bnd (page_readLock cur_node False) (\<lambda>(versionNode, nr3).
          if nr3 then ret (Inl ())
          else bnd (refresh_walk e fuel k (sr, versionParent, cur_node, versionNode)) (\<lambda>again.
            ret (if again then Inl () else Inr ()))))))))) ()"

section \<open>One step down\<close>

text \<open>
  The call of \<open>new_get_mem_node\<close> with the pushdown that follows it.  \<open>Fetched\<close> is the child page, \<open>Pushed\<close>
  the result of an operation that was done on the memory side, \<open>Again\<close> a restart; its flag tells that
  the remote attempt failed, after which \<open>insert\<close> sets \<open>IO_enable\<close>.
\<close>

datatype fetched = Fetched ptr | Pushed bool Value | Again bool

definition fetch_child :: "cm_env \<Rightarrow> nat \<Rightarrow> RPC_type \<Rightarrow> Key \<Rightarrow> Value \<Rightarrow> ptr \<Rightarrow> u64 \<Rightarrow> bool \<Rightarrow> (btree, fetched) prog" where
  "fetch_child e fuel rpc k v inner versionNode IO_enable =
     bnd (load_inner inner) (\<lambda>n0.
     let idx = inner_lowerBound n0 k in
     bnd (new_get_mem_node e inner idx versionNode False False IO_enable) (\<lambda>(cur_node, needRestart, refresh).
     if needRestart then andthen (whenever refresh (new_refresh_from_root e fuel k)) (ret (Again False))
     else if cur_node \<noteq> nullptr then ret (Fetched cur_node)
     else
       bnd (load_inner inner) (\<lambda>n.
       let g = children n ! idx in
       bnd (if level n = 1 then cold_to_hot_with_admission e g inner idx refresh k v False rpc
            else if unat (level n) \<le> megaLevel \<and> \<not> shared n then cold_to_hot_with_rpc e g inner idx refresh k v False rpc
            else bnd (cold_to_hot e g inner idx refresh) (\<lambda>(r, page, refresh'). ret (r, page, refresh', v, False)))
       (\<lambda>(remote_flag, page, refresh', v', success).
        if remote_flag = 1 then andthen (page_IOUnlock inner) (ret (Pushed success v'))
        else if remote_flag = 0 then
          andthen (assert_that (page \<noteq> nullptr))
          (andthen (link_child inner idx page)
          (andthen (page_IOUnlock inner) (ret (Fetched page))))
        else
          andthen (page_IOUnlock inner)
          (andthen (whenever refresh' (new_refresh_from_root e fuel k)) (ret (Again True)))))))"

text \<open>The end of a descent: the leaf with the versions of it and of its parent, a result, or a restart.\<close>

datatype 'r outcome = Arrived ptr u64 ptr u64 | Finished 'r | Restart bool

text \<open>From the super root to the root page, the same in every operation.\<close>

definition enter_root :: "cm_env \<Rightarrow> (btree, (ptr \<times> u64 \<times> ptr \<times> u64) option) prog" where
  "enter_root e =
     bnd (gets super_root) (\<lambda>sr.
     bnd (page_readLock sr False) (\<lambda>(versionParent, nr).
     if nr then ret None
     else
       bnd (gets (\<lambda>s. search_in_cache (root s))) (\<lambda>cur_node.
       if cur_node = nullptr then bnd (load_newest_root e versionParent) (\<lambda>_. ret None)
       else
         bnd (page_readLock cur_node False) (\<lambda>(versionNode, nr2).
         ret (if nr2 then None else Some (sr, versionParent, cur_node, versionNode))))))"

text \<open>The \<open>while\<close> loop of \<open>lookup\<close>, \<open>update\<close> and \<open>remove\<close>.\<close>

definition tree_step ::
  "cm_env \<Rightarrow> nat \<Rightarrow> RPC_type \<Rightarrow> Key \<Rightarrow> Value \<Rightarrow> ptr \<times> u64 \<times> ptr \<times> u64 \<Rightarrow>
   (btree, (ptr \<times> u64 \<times> ptr \<times> u64) + (bool \<times> Value) outcome) prog" where
  "tree_step e fuel rpc k v = (\<lambda>(parent, versionParent, cur_node, versionNode).
     bnd (load cur_node) (\<lambda>p. case p of
       Leaf l \<Rightarrow> ret (Inr (Arrived parent versionParent cur_node versionNode))
     | Inner inner \<Rightarrow>
         bnd (page_readUnlock parent versionParent False) (\<lambda>nr.
         if nr then ret (Inr (Restart False))
         else
           bnd (fetch_child e fuel rpc k v cur_node versionNode False) (\<lambda>f. case f of
             Again io \<Rightarrow> ret (Inr (Restart io))
           | Pushed success v' \<Rightarrow> ret (Inr (Finished (success, v')))
           | Fetched child \<Rightarrow>
               bnd (page_readLock child False) (\<lambda>(version, nr2).
               ret (if nr2 then Inr (Restart False) else Inl (cur_node, versionNode, child, version)))))))"

definition tree_descend :: "cm_env \<Rightarrow> nat \<Rightarrow> RPC_type \<Rightarrow> Key \<Rightarrow> Value \<Rightarrow> ptr \<times> u64 \<times> ptr \<times> u64 \<Rightarrow> (btree, (bool \<times> Value) outcome) prog" where
  "tree_descend e fuel rpc k v = iterate fuel (tree_step e fuel rpc k v)"

section \<open>Lookup, update and remove\<close>

text \<open>At the leaf: \<open>None\<close> is a restart; \<open>result\<close> keeps what was written to it.\<close>

definition lookup_leaf :: "cm_env \<Rightarrow> nat \<Rightarrow> Key \<Rightarrow> Value \<Rightarrow> ptr \<Rightarrow> u64 \<Rightarrow> ptr \<Rightarrow> u64 \<Rightarrow> (btree, bool option \<times> Value) prog" where
  "lookup_leaf e fuel k result parent versionParent cur_node versionNode =
     bnd (load_leaf cur_node) (\<lambda>leaf.
     if \<not> rangeValid leaf k then andthen (new_refresh_from_root e fuel k) (ret (None, result))
     else
       let (success, result') = (case leaf_find leaf k of Some v \<Rightarrow> (True, v) | None \<Rightarrow> (False, result)) in
       bnd (if parent \<noteq> nullptr then page_readUnlock parent versionParent False else ret False) (\<lambda>nr.
       if nr then ret (None, result')
       else
         bnd (page_readUnlock cur_node versionNode False) (\<lambda>nr2.
         if nr2 then ret (None, result')
         else
           andthen (assert_that (tree_rangeValid k (min_limit leaf) (max_limit leaf)))
           (ret (Some success, result')))))"

definition BTree_lookup :: "cm_env \<Rightarrow> nat \<Rightarrow> Key \<Rightarrow> Value \<Rightarrow> (btree, bool \<times> Value) prog" where
  "BTree_lookup e fuel k result0 = iterate fuel (\<lambda>result.
     bnd (enter_root e) (\<lambda>start. case start of
       None \<Rightarrow> ret (Inl result)
     | Some st \<Rightarrow>
         bnd (tree_descend e fuel RLookup k result st) (\<lambda>o'. case o' of
           Restart _ \<Rightarrow> ret (Inl result)
         | Finished r \<Rightarrow> ret (Inr r)
         | Arrived parent versionParent cur_node versionNode \<Rightarrow>
             bnd (lookup_leaf e fuel k result parent versionParent cur_node versionNode) (\<lambda>(r, result').
             ret (case r of None \<Rightarrow> Inl result' | Some success \<Rightarrow> Inr (success, result')))))) result0"

text \<open>\<open>update\<close> and \<open>remove\<close> differ in the operation on the write-locked leaf.\<close>

definition change_leaf ::
  "cm_env \<Rightarrow> nat \<Rightarrow> Key \<Rightarrow> (BTreeLeafNode \<Rightarrow> bool \<times> BTreeLeafNode) \<Rightarrow> ptr \<Rightarrow> u64 \<Rightarrow> ptr \<Rightarrow> u64 \<Rightarrow> (btree, bool option) prog" where
  "change_leaf e fuel k f parent versionParent cur_node versionNode =
     bnd (page_upgrade cur_node versionNode False) (\<lambda>(_, nr).
     if nr then ret None
     else
       bnd (load_leaf cur_node) (\<lambda>leaf.
       if \<not> tree_rangeValid k (min_limit leaf) (max_limit leaf) then
         andthen (page_writeUnlock cur_node) (andthen (new_refresh_from_root e fuel k) (ret None))
       else
         bnd (page_readUnlock parent versionParent False) (\<lambda>nr2.
         if nr2 then andthen (page_writeUnlock cur_node) (ret None)
         else
           let (b, leaf') = f leaf in
           andthen (store cur_node (Leaf leaf'))
           (andthen (page_writeUnlock cur_node) (ret (Some b))))))"

definition BTree_update :: "cm_env \<Rightarrow> nat \<Rightarrow> Key \<Rightarrow> Value \<Rightarrow> (btree, bool) prog" where
  "BTree_update e fuel k v = iterate fuel (\<lambda>_.
     bnd (enter_root e) (\<lambda>start. case start of
       None \<Rightarrow> ret (Inl ())
     | Some st \<Rightarrow>
         bnd (tree_descend e fuel RUpdate k v st) (\<lambda>o'. case o' of
           Restart _ \<Rightarrow> ret (Inl ())
         | Finished r \<Rightarrow> ret (Inr (fst r))
         | Arrived parent versionParent cur_node versionNode \<Rightarrow>
             bnd (change_leaf e fuel k (\<lambda>l. leaf_update l k v) parent versionParent cur_node versionNode) (\<lambda>r.
             ret (case r of None \<Rightarrow> Inl () | Some b \<Rightarrow> Inr b))))) ()"

text \<open>\<open>remove\<close> passes an uninitialised value to the remote operation, which ignores it.\<close>

definition BTree_remove :: "cm_env \<Rightarrow> nat \<Rightarrow> Key \<Rightarrow> (btree, bool) prog" where
  "BTree_remove e fuel k = iterate fuel (\<lambda>_.
     bnd (enter_root e) (\<lambda>start. case start of
       None \<Rightarrow> ret (Inl ())
     | Some st \<Rightarrow>
         bnd (tree_descend e fuel RDelete k 0 st) (\<lambda>o'. case o' of
           Restart _ \<Rightarrow> ret (Inl ())
         | Finished r \<Rightarrow> ret (Inr (fst r))
         | Arrived parent versionParent cur_node versionNode \<Rightarrow>
             bnd (change_leaf e fuel k (\<lambda>l. leaf_remove l k) parent versionParent cur_node versionNode) (\<lambda>r.
             ret (case r of None \<Rightarrow> Inl () | Some b \<Rightarrow> Inr b))))) ()"

section \<open>Insert\<close>

text \<open>The lock on the parent before a split: the parent's remote lock too when it is shared.  \<open>True\<close> when it is held.\<close>

definition lock_parent :: "cm_env \<Rightarrow> nat \<Rightarrow> Key \<Rightarrow> ptr \<Rightarrow> u64 \<Rightarrow> (btree, unit) prog \<Rightarrow> (btree, bool) prog" where
  "lock_parent e fuel k parent versionParent undo =
     bnd (header parent) (\<lambda>ph.
     if shared ph then
       bnd (verify_and_acquire_lock parent versionParent) (\<lambda>(lock_success, refresh).
       if \<not> lock_success then andthen undo (andthen (whenever refresh (new_refresh_from_root e fuel k)) (ret False))
       else ret True)
     else
       bnd (page_upgrade parent versionParent False) (\<lambda>(_, nr).
       if nr then andthen undo (ret False) else ret True))"

definition unlock_parent :: "ptr \<Rightarrow> bool \<Rightarrow> (btree, unit) prog" where
  "unlock_parent parent flush =
     bnd (header parent) (\<lambda>ph.
     if shared ph then andthen (whenever flush (remote_write_unswizzle parent False)) (full_unlock parent)
     else page_writeUnlock parent)"

text \<open>The eager split of a full private inner node; the operation restarts afterwards.\<close>

definition insert_split_inner :: "cm_env \<Rightarrow> nat \<Rightarrow> Key \<Rightarrow> ptr \<Rightarrow> u64 \<Rightarrow> ptr \<Rightarrow> u64 \<Rightarrow> (btree, unit) prog" where
  "insert_split_inner e fuel k parent versionParent cur_node versionNode =
     bnd (gets super_root) (\<lambda>sr.
     andthen (assert_that (parent \<noteq> sr))
     (bnd (lock_parent e fuel k parent versionParent (ret ())) (\<lambda>locked.
      if \<not> locked then ret ()
      else
        bnd (page_upgrade cur_node versionNode False) (\<lambda>(_, nr).
        if nr then unlock_parent parent False
        else
          bnd (header cur_node) (\<lambda>c.
          bnd (allocate_sibling next_node_id (\<lambda>s. s\<lparr>next_node_id := next_node_id s + 1\<rparr>) c) (\<lambda>newInner.
          bnd (split_inner_page e parent cur_node newInner) (\<lambda>(sep, newInner', mem_new_inner).
          andthen (change mem_new_inner (set_pos_state 2))
          (andthen (lift_heap (\<lambda>h. update_all_parent_ptr h mem_new_inner))
          (andthen (inner_insert_at parent sep newInner')
          (andthen (page_writeUnlock mem_new_inner)
          (andthen (page_writeUnlock cur_node)
           (unlock_parent parent True))))))))))))"

definition insert_step ::
  "cm_env \<Rightarrow> nat \<Rightarrow> Key \<Rightarrow> Value \<Rightarrow> bool \<Rightarrow> ptr \<times> u64 \<times> ptr \<times> u64 \<Rightarrow> (btree, (ptr \<times> u64 \<times> ptr \<times> u64) + bool outcome) prog" where
  "insert_step e fuel k v IO_enable = (\<lambda>(parent, versionParent, cur_node, versionNode).
     bnd (load cur_node) (\<lambda>p. case p of
       Leaf l \<Rightarrow> ret (Inr (Arrived parent versionParent cur_node versionNode))
     | Inner inner \<Rightarrow>
         if inner_isFull inner \<and> \<not> shared inner then
           andthen (insert_split_inner e fuel k parent versionParent cur_node versionNode) (ret (Inr (Restart False)))
         else
           bnd (page_readUnlock parent versionParent False) (\<lambda>nr.
           if nr then ret (Inr (Restart False))
           else
             bnd (fetch_child e fuel RInsert k v cur_node versionNode IO_enable) (\<lambda>f. case f of
               Again io \<Rightarrow> ret (Inr (Restart io))
             | Pushed success _ \<Rightarrow> ret (Inr (Finished success))
             | Fetched child \<Rightarrow>
                 bnd (page_readLock child False) (\<lambda>(version, nr2).
                 ret (if nr2 then Inr (Restart False) else Inl (cur_node, versionNode, child, version)))))))"

definition insert_descend :: "cm_env \<Rightarrow> nat \<Rightarrow> Key \<Rightarrow> Value \<Rightarrow> bool \<Rightarrow> ptr \<times> u64 \<times> ptr \<times> u64 \<Rightarrow> (btree, bool outcome) prog" where
  "insert_descend e fuel k v IO_enable = iterate fuel (insert_step e fuel k v IO_enable)"

definition insert_split_leaf :: "cm_env \<Rightarrow> nat \<Rightarrow> Key \<Rightarrow> ptr \<Rightarrow> u64 \<Rightarrow> ptr \<Rightarrow> (btree, unit) prog" where
  "insert_split_leaf e fuel k parent versionParent cur_node =
     bnd (gets super_root) (\<lambda>sr.
     andthen (assert_that (parent \<noteq> sr))
     (bnd (lock_parent e fuel k parent versionParent (page_writeUnlock cur_node)) (\<lambda>locked.
      if \<not> locked then ret ()
      else
        bnd (load_leaf cur_node) (\<lambda>leaf.
        bnd (allocate_node (unat (nodeID (remote_address leaf)))) (\<lambda>newLeaf.
        bnd (gets (\<lambda>s. new_leaf (buf_data s) newLeaf)) (\<lambda>new_mem.
        let (sep, left, right) = leaf_split leaf new_mem newLeaf in
        andthen (store cur_node (Leaf left))
        (andthen (write_buffer newLeaf (Leaf right) True)
        (andthen (inner_insert_at parent sep newLeaf)
        (andthen (page_writeUnlock cur_node)
         (unlock_parent parent True))))))))))"

definition insert_leaf :: "cm_env \<Rightarrow> nat \<Rightarrow> Key \<Rightarrow> Value \<Rightarrow> ptr \<Rightarrow> u64 \<Rightarrow> ptr \<Rightarrow> u64 \<Rightarrow> (btree, bool option) prog" where
  "insert_leaf e fuel k v parent versionParent cur_node versionNode =
     bnd (page_upgrade cur_node versionNode False) (\<lambda>(_, nr).
     if nr then ret None
     else
       bnd (load_leaf cur_node) (\<lambda>leaf.
       if \<not> tree_rangeValid k (min_limit leaf) (max_limit leaf) then
         andthen (page_writeUnlock cur_node) (andthen (new_refresh_from_root e fuel k) (ret None))
       else if leaf_isFull leaf then
         andthen (insert_split_leaf e fuel k parent versionParent cur_node) (ret None)
       else
         bnd (page_readUnlock parent versionParent False) (\<lambda>nr2.
         if nr2 then andthen (page_writeUnlock cur_node) (ret None)
         else
           let (b, leaf') = leaf_insert leaf k v in
           andthen (store cur_node (Leaf leaf'))
           (andthen (assert_that (tree_rangeValid k (min_limit leaf') (max_limit leaf')))
           (andthen (page_writeUnlock cur_node) (ret (Some b)))))))"

definition BTree_insert :: "cm_env \<Rightarrow> nat \<Rightarrow> Key \<Rightarrow> Value \<Rightarrow> (btree, bool) prog" where
  "BTree_insert e fuel k v = iterate fuel (\<lambda>IO_enable.
     bnd (enter_root e) (\<lambda>start. case start of
       None \<Rightarrow> ret (Inl IO_enable)
     | Some st \<Rightarrow>
         bnd (insert_descend e fuel k v IO_enable st) (\<lambda>o'. case o' of
           Restart io \<Rightarrow> ret (Inl (IO_enable \<or> io))
         | Finished success \<Rightarrow> ret (Inr success)
         | Arrived parent versionParent cur_node versionNode \<Rightarrow>
             bnd (insert_leaf e fuel k v parent versionParent cur_node versionNode) (\<lambda>r.
             ret (case r of None \<Rightarrow> Inl IO_enable | Some b \<Rightarrow> Inr b))))) False"

section \<open>Range scan\<close>

text \<open>
  The loop variables are the key the scan goes on from, the number of pairs found so far and the
  caller's buffer.  Every leaf copies to the start of the buffer.
\<close>

definition copy_to_front :: "(Key \<times> Value) list \<Rightarrow> (Key \<times> Value) list \<Rightarrow> (Key \<times> Value) list" where
  "copy_to_front kvs buffer = kvs @ drop (length kvs) buffer"

definition scan_more :: "btree \<Rightarrow> Key \<Rightarrow> nat \<Rightarrow> nat \<Rightarrow> bool" where
  "scan_more s last_key cur_num num \<longleftrightarrow> \<not> (last_key = - 1 \<or> last_key = right_bound s - 1 \<or> cur_num = num)"

text \<open>The \<open>while\<close> loop: a restart, the pairs of a leaf that was read remotely with its limit, or the leaf.\<close>

definition scan_descend ::
  "cm_env \<Rightarrow> nat \<Rightarrow> Key \<Rightarrow> nat \<Rightarrow> ptr \<times> u64 \<times> ptr \<times> u64 \<Rightarrow> (btree, ((Key \<times> Value) list \<times> nat \<times> Key) outcome) prog" where
  "scan_descend e fuel k todo = iterate fuel (\<lambda>(parent, versionParent, cur_node, versionNode).
     bnd (load cur_node) (\<lambda>p. case p of
       Leaf l \<Rightarrow> ret (Inr (Arrived parent versionParent cur_node versionNode))
     | Inner inner \<Rightarrow>
         bnd (page_readUnlock parent versionParent False) (\<lambda>nr.
         if nr then ret (Inr (Restart False))
         else
           let idx = inner_lowerBound inner k in
           bnd (new_get_mem_node e cur_node idx versionNode False False False) (\<lambda>(child, needRestart, refresh).
           if needRestart then andthen (whenever refresh (new_refresh_from_root e fuel k)) (ret (Inr (Restart False)))
           else
             bnd (if child \<noteq> nullptr then ret (Inl child)
                  else
                    bnd (load_inner cur_node) (\<lambda>n.
                    let g = children n ! idx in
                    bnd (if level n = 1 then cold_to_hot_with_admission_for_scan e g cur_node idx refresh k todo 0
                         else bnd (cold_to_hot e g cur_node idx refresh) (\<lambda>(r, page, refresh'). ret (r, page, refresh', [], todo, 0)))
                    (\<lambda>(remote_flag, page, refresh', kvs, scan_num, last_key).
                     if remote_flag = 1 then andthen (page_IOUnlock cur_node) (ret (Inr (Finished (kvs, scan_num, last_key))))
                     else if remote_flag = 0 then
                       andthen (assert_that (page \<noteq> nullptr))
                       (andthen (link_child cur_node idx page) (andthen (page_IOUnlock cur_node) (ret (Inl page))))
                     else
                       andthen (page_IOUnlock cur_node)
                       (andthen (whenever refresh' (new_refresh_from_root e fuel k)) (ret (Inr (Restart True))))))) (\<lambda>r. case r of
               Inr o' \<Rightarrow> ret (Inr o')
             | Inl page \<Rightarrow>
                 bnd (page_readLock page False) (\<lambda>(version, nr2).
                 ret (if nr2 then Inr (Restart False) else Inl (cur_node, versionNode, page, version))))))))"

definition BTree_range_scan ::
  "cm_env \<Rightarrow> nat \<Rightarrow> Key \<Rightarrow> nat \<Rightarrow> (Key \<times> Value) list \<Rightarrow> (btree, nat \<times> (Key \<times> Value) list) prog" where
  "BTree_range_scan e fuel k0 num buffer0 = iterate fuel (\<lambda>(k, cur_num, buffer).
     bnd (enter_root e) (\<lambda>start. case start of
       None \<Rightarrow> ret (Inl (k, cur_num, buffer))
     | Some st \<Rightarrow>
         bnd (scan_descend e fuel k (num - cur_num) st) (\<lambda>o'. case o' of
           Restart _ \<Rightarrow> ret (Inl (k, cur_num, buffer))
         | Finished (kvs, scan_num, last_key) \<Rightarrow>
             let cur_num' = cur_num + scan_num; buffer' = copy_to_front kvs buffer in
             bnd (gets (\<lambda>s. scan_more s last_key cur_num' num)) (\<lambda>more.
             ret (if more then Inl (last_key + 1, cur_num', buffer') else Inr (cur_num', buffer')))
         | Arrived parent versionParent cur_node versionNode \<Rightarrow>
             bnd (load_leaf cur_node) (\<lambda>leaf.
             if \<not> rangeValid leaf k then andthen (new_refresh_from_root e fuel k) (ret (Inl (k, cur_num, buffer)))
             else
               let kvs = leaf_range_scan leaf k (num - cur_num); buffer' = copy_to_front kvs buffer in
               bnd (if parent \<noteq> nullptr then page_readUnlock parent versionParent False else ret False) (\<lambda>nr.
               if nr then ret (Inl (k, cur_num, buffer'))
               else
                 bnd (page_readUnlock cur_node versionNode False) (\<lambda>nr2.
                 if nr2 then ret (Inl (k, cur_num, buffer'))
                 else
                   andthen (assert_that (tree_rangeValid k (min_limit leaf) (max_limit leaf)))
                   (let cur_num' = cur_num + length kvs in
                    bnd (gets (\<lambda>s. scan_more s (max_limit leaf) cur_num' num)) (\<lambda>more.
                    ret (if more then Inl (max_limit leaf + 1, cur_num', buffer') else Inr (cur_num', buffer'))))))))))
     (k0, 0, buffer0)"

section \<open>Loading\<close>

text \<open>The pages of a subtree move to another memory server; the recursion follows the level.\<close>

definition move_page :: "cm_env \<Rightarrow> GlobalAddress \<Rightarrow> ptr \<Rightarrow> nat \<Rightarrow> (btree, unit) prog" where
  "move_page e node mem_node node_id =
     bnd (allocate_node node_id) (\<lambda>new_node.
     andthen (change mem_node (\<lambda>p. case p of Inner n \<Rightarrow> Inner (n\<lparr>remote_address := new_node\<rparr>) | Leaf l \<Rightarrow> Leaf (l\<lparr>remote_address := new_node\<rparr>)))
     (andthen (remote_write_unswizzle mem_node True)
     (bnd (pt_op (\<lambda>t. insert_with_lock (hash e) t new_node mem_node)) (\<lambda>(b, _).
      andthen (assert_that b)
      (bnd (pt_op (\<lambda>t. remove_with_lock (hash e) t node mem_node)) assert_that)))))"

primrec recursive_movement_single :: "cm_env \<Rightarrow> nat \<Rightarrow> GlobalAddress \<Rightarrow> ptr \<Rightarrow> nat \<Rightarrow> (btree, GlobalAddress) prog" where
  "recursive_movement_single e 0 node mem_node node_id =
     andthen (assert_that (unat (nodeID node) \<noteq> node_id))
     (andthen (move_page e node mem_node node_id) (ret (mem_node OR swizzle_tag)))"
| "recursive_movement_single e (Suc cur_mega_level) node mem_node node_id =
     bnd (load_inner mem_node) (\<lambda>inner.
     andthen (for_each [0..<unat (count inner) + 1] (\<lambda>i.
       bnd (child_at mem_node i) (\<lambda>next_node.
       bnd (if next_node AND swizzle_tag \<noteq> 0 then ret (next_node AND swizzle_hide)
            else bnd (new_get_mem_node_without_lock e mem_node i False False True) (\<lambda>(a, _, _).
              andthen (assert_that (a \<noteq> nullptr)) (ret a))) (\<lambda>next_mem_node.
       bnd (page_writeLock next_mem_node False) (\<lambda>nr.
       andthen (assert_that (\<not> nr))
       (bnd (header next_mem_node) (\<lambda>h.
        bnd (recursive_movement_single e cur_mega_level (remote_address h) next_mem_node node_id) (\<lambda>new_node.
        andthen (change_inner mem_node (\<lambda>n. n\<lparr>children := (children n)[i := new_node]\<rparr>))
        (andthen (assert_parent_child mem_node (new_node AND swizzle_hide))
        (andthen (assert_that (next_mem_node = new_node AND swizzle_hide))
         (page_writeUnlock next_mem_node)))))))))))
     (andthen (whenever (unat (nodeID node) \<noteq> node_id) (move_page e node mem_node node_id))
      (ret (mem_node OR swizzle_tag))))"

text \<open>A split on the way down during loading; the new root or the separator in the parent.\<close>

definition hang_sibling :: "cm_env \<Rightarrow> nat \<Rightarrow> ptr \<Rightarrow> ptr \<Rightarrow> Key \<Rightarrow> GlobalAddress \<Rightarrow> u8 \<Rightarrow> (btree, unit) prog" where
  "hang_sibling e fuel parent cur_node sep sibling lev =
     bnd (gets super_root) (\<lambda>sr.
     if parent \<noteq> sr then inner_insert_at parent sep sibling
     else makeRoot e fuel sep (cur_node OR swizzle_tag) sibling (lev + 1))"

definition single_split_inner :: "cm_env \<Rightarrow> nat \<Rightarrow> ptr \<Rightarrow> ptr \<Rightarrow> (btree, unit) prog" where
  "single_split_inner e fuel parent cur_node =
     bnd (load_inner cur_node) (\<lambda>inner.
     let mega = (unat (level inner) = megaLevel - 1); own = unat (nodeID (remote_address inner)) in
     bnd (if mega then bnd (get_random_id fuel own) allocate_node else allocate_node own) (\<lambda>newInner.
     bnd (page_writeLock cur_node False) (\<lambda>nr.
     andthen (assert_that (\<not> nr))
     (bnd (split_inner_page e parent cur_node newInner) (\<lambda>(sep, newInner', mem_new_inner).
      bnd (header mem_new_inner) (\<lambda>h.
      andthen (assert_that (pos_state h = 4))
      (andthen (change mem_new_inner (set_pos_state 2))
      (andthen (lift_heap (\<lambda>hp. update_all_parent_ptr hp mem_new_inner))
      (andthen (hang_sibling e fuel parent cur_node sep newInner' (level inner))
      (andthen (page_writeUnlock cur_node)
      (andthen (whenever mega (bnd (get_global_address newInner') (\<lambda>new_mega_root.
         andthen (recursive_movement_single e (megaLevel - 1) new_mega_root mem_new_inner (unat (nodeID new_mega_root))) (ret ()))))
       (page_writeUnlock mem_new_inner))))))))))))"

definition single_split_leaf :: "cm_env \<Rightarrow> nat \<Rightarrow> ptr \<Rightarrow> ptr \<Rightarrow> (btree, unit) prog" where
  "single_split_leaf e fuel parent cur_node =
     bnd (load_leaf cur_node) (\<lambda>leaf.
     bnd (allocate_node (unat (nodeID (remote_address leaf)))) (\<lambda>newLeaf.
     bnd (gets (\<lambda>s. new_leaf (buf_data s) newLeaf)) (\<lambda>new_mem.
     bnd (page_writeLock cur_node False) (\<lambda>nr.
     andthen (assert_that (\<not> nr))
     (bnd (load_leaf cur_node) (\<lambda>leaf'.
      let (sep, left, right) = leaf_split leaf' new_mem newLeaf in
      andthen (store cur_node (Leaf left))
      (andthen (write_sync newLeaf (Leaf (right\<lparr>typeVersionLockObsolete := 0\<rparr>)))
      (andthen (hang_sibling e fuel parent cur_node sep newLeaf (level leaf'))
       (page_writeUnlock cur_node)))))))))"

text \<open>The descent of \<open>insert_single\<close>: \<open>False\<close> when it starts again from the root.\<close>

definition single_descend :: "cm_env \<Rightarrow> nat \<Rightarrow> Key \<Rightarrow> Value \<Rightarrow> ptr \<times> ptr \<Rightarrow> (btree, bool) prog" where
  "single_descend e fuel k v = iterate fuel (\<lambda>(parent, mem_node).
     bnd (load mem_node) (\<lambda>p. case p of
       Inner inner \<Rightarrow>
         if inner_isFull inner then andthen (single_split_inner e fuel parent mem_node) (ret (Inr False))
         else
           bnd (page_readLock mem_node False) (\<lambda>(versionNode, nr).
           let idx = inner_lowerBound inner k in
           bnd (new_get_mem_node e mem_node idx versionNode nr False True) (\<lambda>(child, needRestart, refresh).
           andthen (assert_that (\<not> refresh))
           (if needRestart then ret (Inr False)
            else andthen (assert_that (child \<noteq> nullptr)) (ret (Inl (mem_node, child))))))
     | Leaf leaf \<Rightarrow>
         andthen (assert_that (tree_rangeValid k (min_limit leaf) (max_limit leaf)))
         (if leaf_isFull leaf then andthen (single_split_leaf e fuel parent mem_node) (ret (Inr False))
          else andthen (store mem_node (Leaf (snd (leaf_insert leaf k v)))) (ret (Inr True)))))"

definition insert_single :: "cm_env \<Rightarrow> nat \<Rightarrow> Key \<Rightarrow> Value \<Rightarrow> (btree, unit) prog" where
  "insert_single e fuel k v = iterate fuel (\<lambda>_.
     bnd (gets super_root) (\<lambda>sr.
     bnd (page_readLock sr False) (\<lambda>(versionNode, nr).
     andthen (assert_that (\<not> nr))
     (bnd (gets (\<lambda>s. search_in_cache (root s))) (\<lambda>mem_node.
      if mem_node = nullptr then bnd (load_newest_root e versionNode) (\<lambda>_. ret (Inl ()))
      else bnd (single_descend e fuel k v (sr, mem_node)) (\<lambda>fin. ret (if fin then Inr () else Inl ()))))))) ()"

fun insert_all :: "cm_env \<Rightarrow> nat \<Rightarrow> (Key \<times> Value) list \<Rightarrow> (btree, unit) prog" where
  "insert_all e fuel [] = ret ()"
| "insert_all e fuel ((k, v) # kvs) = andthen (insert_single e fuel k v) (insert_all e fuel kvs)"

text \<open>Loading an array of pairs, and an array of keys, each key with its successor as value.\<close>

definition bulk_load_pairs :: "cm_env \<Rightarrow> nat \<Rightarrow> (Key \<times> Value) list \<Rightarrow> (btree, unit) prog" where
  "bulk_load_pairs e fuel kvs =
     bnd (gets my_node) (\<lambda>node. whenever (node = 0)
       (andthen (modify (set_right_bound (- 1) \<circ> set_left_bound 0))
       (andthen (insert_all e fuel kvs)
        (if kvs = [] then fail BadAccess else modify (\<lambda>s. s\<lparr>min_key := fst (hd kvs), max_key := fst (last kvs)\<rparr>)))))"

definition bulk_load :: "cm_env \<Rightarrow> nat \<Rightarrow> Key list \<Rightarrow> (btree, unit) prog" where
  "bulk_load e fuel ks =
     bnd (gets my_node) (\<lambda>node. whenever (node = 0)
       (let sks = sort ks in
        andthen (modify (set_right_bound (- 1) \<circ> set_left_bound 0))
       (andthen (insert_all e fuel (map (\<lambda>k. (k, k + 1)) sks))
        (if sks = [] then fail BadAccess else modify (\<lambda>s. s\<lparr>min_key := hd sks, max_key := last sks\<rparr>)))))"

section \<open>Constructors and sharing\<close>

text \<open>The members the constructors set first; the super root is a page outside the pool.\<close>

definition init_members :: "u64 \<Rightarrow> (btree, unit) prog" where
  "init_members t =
     bnd (gets super_root) (\<lambda>sr.
     bnd (gets (\<lambda>s. (new_inner (buf_children s) (buf_keys s) 255 Null)\<lparr>pos_state := 2\<rparr>)) (\<lambda>n.
     andthen (store sr (Inner n))
     (modify (\<lambda>s. s\<lparr>tree_id := t, root_ptr_ptr := root_ptr_addr t, root_lock_ptr := root_lock_addr t\<rparr>))))"

definition BTree_new :: "u64 \<Rightarrow> (btree, unit) prog" where
  "BTree_new t =
     andthen (init_members t)
     (bnd (allocate_leaf_node 0) (\<lambda>root_node.
      andthen (update_root_ptr root_node Null) (modify (\<lambda>s. s\<lparr>height := 1\<rparr>))))"

text \<open>The leaves of a partitioned tree, from the second on: partition \<open>i\<close> ends below the bound \<open>i + 1\<close>.\<close>

fun partition_leaves :: "Key list \<Rightarrow> nat \<Rightarrow> nat list \<Rightarrow> (btree, GlobalAddress list) prog" where
  "partition_leaves info n [] = ret []"
| "partition_leaves info n (i # is) =
     bnd (allocate_leaf_between (if i = 0 then info ! 0 else info ! i - 1)
            (if i = n - 1 \<and> i \<noteq> 0 then info ! n else info ! (i + 1) - 1) 0) (\<lambda>a.
     bnd (partition_leaves info n is) (\<lambda>as. ret (a # as)))"

definition BTree_new_partitioned :: "u64 \<Rightarrow> Key list \<Rightarrow> nat \<Rightarrow> (btree, unit) prog" where
  "BTree_new_partitioned t partition_info num_partitions =
     (if num_partitions = 1 then BTree_new t
      else
        andthen (init_members t)
        (andthen (assert_that (num_partitions + 1 = length partition_info))
        (bnd (allocate_node 0) (\<lambda>newInner.
         bnd (partition_leaves partition_info num_partitions [0..<num_partitions]) (\<lambda>leaves.
         bnd (gets (\<lambda>s. (new_inner (leaves @ drop num_partitions (buf_children s))
                (map (\<lambda>i. partition_info ! i - 1) [1..<num_partitions] @ drop (num_partitions - 1) (buf_keys s)) 1 newInner)
                \<lparr>count := of_nat (num_partitions - 1), typeVersionLockObsolete := 0\<rparr>)) (\<lambda>new_mem.
         andthen (write_sync newInner (Inner new_mem))
         (andthen (update_root_ptr newInner Null) (modify (\<lambda>s. s\<lparr>height := 2\<rparr>)))))))))"

text \<open>\<open>set_shared\<close> marks the inner nodes on the way to each bound; \<open>False\<close> when it starts again from the root.\<close>

definition share_path :: "cm_env \<Rightarrow> nat \<Rightarrow> Key \<Rightarrow> ptr \<Rightarrow> (btree, unit) prog" where
  "share_path e fuel k = iterate fuel (\<lambda>mem_node.
     bnd (load mem_node) (\<lambda>p. case p of
       Leaf l \<Rightarrow> ret (Inr ())
     | Inner inner \<Rightarrow>
         bnd (page_readLock mem_node False) (\<lambda>(versionNode, nr).
         andthen (assert_that (\<not> nr))
         (andthen (change_inner mem_node (\<lambda>n. n\<lparr>shared := True, dirty := True\<rparr>))
         (bnd (new_get_mem_node e mem_node (inner_lowerBound inner k) versionNode False False True) (\<lambda>(child, _, refresh).
          andthen (assert_that (child \<noteq> nullptr))
          (andthen (assert_that (\<not> refresh)) (ret (Inl child)))))))))"

definition set_shared :: "cm_env \<Rightarrow> nat \<Rightarrow> Key list \<Rightarrow> (btree, unit) prog" where
  "set_shared e fuel bound =
     bnd (gets super_root) (\<lambda>sr.
     andthen (change_inner sr (\<lambda>n. n\<lparr>shared := True\<rparr>))
     (foldr (\<lambda>k rest. andthen (iterate fuel (\<lambda>_.
        bnd (page_readLock sr False) (\<lambda>(versionNode, nr).
        andthen (assert_that (\<not> nr))
        (bnd (gets (\<lambda>s. search_in_cache (root s))) (\<lambda>mem_node.
         if mem_node = nullptr then bnd (load_newest_root e versionNode) (\<lambda>_. ret (Inl ()))
         else bnd (share_path e fuel k mem_node) (\<lambda>_. ret (Inr ())))))) ()) rest) bound (ret ())))"

end
