(* ===== verification/Dex_Hot.thy ===== *)
theory Dex_Hot
  imports Dex_Tree
begin

text \<open>
  The operations of the tree where everything on the way is in the cache.  \<open>hot_leaf\<close> follows the local
  pointers from the root; on a tree whose paths are hot and whose lock words are quiet_word, \<open>lookup\<close>,
  \<open>insert\<close>, \<open>update\<close> and \<open>remove\<close> return without a restart and act on the map the tree holds, so the tree
  is one more key-value structure in the sense of the contract \<open>kv_store\<close>.
\<close>

section \<open>Quiet lock words\<close>

definition quiet_word :: "u64 \<Rightarrow> bool" where
  "quiet_word w \<longleftrightarrow> w AND 0b111 = 0"

lemma quiet_take_bit: "quiet_word w \<longleftrightarrow> take_bit 3 w = 0"
proof -
  have "(0b111 :: u64) = mask 3" by (simp add: mask_eq_exp_minus_1)
  then show ?thesis unfolding quiet_word_def by (simp add: take_bit_eq_mask)
qed

lemma quiet_bits:
  assumes "quiet_word w"
  shows "\<not> isLocked w" "\<not> isObsolete w" "\<not> isIO w"
proof -
  have b: "\<not> bit w i" if "i < 3" for i
    using assms that bit_take_bit_iff [of 3 w i] by (auto simp: quiet_take_bit)
  have "w AND 4 = 0" "w AND 2 = 0" "w AND 1 = 0"
    using b [of 2] b [of 1] b [of 0] and_exp_eq_0_iff_not_bit [of w 2] and_exp_eq_0_iff_not_bit [of w 1] and_exp_eq_0_iff_not_bit [of w 0]
    by simp_all
  then show "\<not> isLocked w" "\<not> isObsolete w" "\<not> isIO w" by (simp_all add: isLocked_def isObsolete_def isIO_def)
qed

lemma quiet_next: "quiet_word (w + 8) = quiet_word w"
proof -
  have "take_bit 3 (w + 8) = take_bit 3 w" by transfer (simp add: take_bit_eq_mod)
  then show ?thesis by (simp add: quiet_take_bit)
qed

lemma quiet_locks:
  assumes "quiet_word w"
  shows "readLockOrRestart w r = (w, r)" "upgradeToWriteLockOrRestart w r w = (w + 4, r, w + 4)" "\<not> readUnlockOrRestart w w"
  using quiet_bits [OF assms] by (simp_all add: readLockOrRestart_def upgradeToWriteLockOrRestart_def CAS_def readUnlockOrRestart_def)

lemma ok_locks:
  "cheap s a = Some p \<Longrightarrow> quiet_word (lock_word p) \<Longrightarrow> ok (page_readLock a r) s R = R (lock_word p, r) s"
  "cheap s a = Some p \<Longrightarrow> ok (page_readUnlock a (lock_word p) r) s U = U r s"
  "cheap s a = Some p \<Longrightarrow> quiet_word (lock_word p) \<Longrightarrow>
     ok (page_upgrade a (lock_word p) r) s R = R (lock_word p + 4, r) (s\<lparr>cheap := (cheap s)(a \<mapsto> set_lock_word (lock_word p + 4) p)\<rparr>)"
  "cheap s a = Some p \<Longrightarrow> ok (page_writeUnlock a) s W = W () (s\<lparr>cheap := (cheap s)(a \<mapsto> set_lock_word (lock_word p + 4) p)\<rparr>)"
  by (simp_all add: page_readLock_def page_readUnlock_def page_upgrade_def page_writeUnlock_def ok_step quiet_locks wp_split store_def writeUnlock_def
      readUnlockOrRestart_def)

section \<open>Hot paths\<close>

fun hot_leaf :: "nat \<Rightarrow> heap \<Rightarrow> Key \<Rightarrow> ptr \<Rightarrow> ptr option" where
  "hot_leaf 0 h k a = None"
| "hot_leaf (Suc n) h k a = (case h a of
      None \<Rightarrow> None
    | Some (Leaf l) \<Rightarrow> if quiet_word (typeVersionLockObsolete l) then Some a else None
    | Some (Inner m) \<Rightarrow>
        (let c = children m ! inner_lowerBound m k in
         if quiet_word (typeVersionLockObsolete m) \<and> \<not> (inner_isFull m \<and> \<not> shared m) \<and> c AND swizzle_tag \<noteq> 0 \<and> c AND swizzle_hide \<noteq> nullptr
         then hot_leaf n h k (c AND swizzle_hide) else None))"

lemma hot_leaf_leaf: "hot_leaf n h k a = Some b \<Longrightarrow> \<exists>l. h b = Some (Leaf l) \<and> quiet_word (typeVersionLockObsolete l)"
  by (induction n h k a rule: hot_leaf.induct) (auto simp: Let_def split: option.splits page.splits if_splits)

text \<open>Replacing a leaf by a leaf whose lock word is quiet_word too changes no path.\<close>

lemma hot_leaf_upd:
  assumes "h b = Some (Leaf l)" "quiet_word (typeVersionLockObsolete l)" "quiet_word (typeVersionLockObsolete l')"
  shows "hot_leaf n (h(b \<mapsto> Leaf l')) k a = hot_leaf n h k a"
  using assms by (induction n h k a rule: hot_leaf.induct) (auto simp: Let_def split: option.splits page.splits)

lemma hot_leaf_quiet: "hot_leaf n h k a = Some b \<Longrightarrow> \<exists>p. h a = Some p \<and> quiet_word (lock_word p)"
  by (cases n) (auto simp: Let_def split: option.splits page.splits if_splits)

definition reached :: "btree \<Rightarrow> ptr \<Rightarrow> 'r outcome \<Rightarrow> bool" where
  "reached s b o' \<longleftrightarrow> (\<exists>parent pn l. o' = Arrived parent (typeVersionLockObsolete pn) b (typeVersionLockObsolete l) \<and>
     cheap s parent = Some (Inner pn) \<and> cheap s b = Some (Leaf l))"

lemma fetch_hot:
  assumes "cheap s a = Some (Inner n)" "c = children n ! inner_lowerBound n k" "c AND swizzle_tag \<noteq> 0" "c AND swizzle_hide \<noteq> nullptr"
  shows "ok (fetch_child e fuel rpc k v a w io) s Q = Q (Fetched (c AND swizzle_hide)) s"
  using assms by (simp add: fetch_child_def new_get_mem_node_def child_at_def ok_step wp_split)

lemma descend_hot:
  assumes "hot_leaf n (cheap s) k a = Some b" "n \<le> m" "cheap s parent = Some (Inner pn)" "cheap s a = Some pa"
  shows "ok (iterate m (tree_step e fuel rpc k v) (parent, typeVersionLockObsolete pn, a, lock_word pa)) s (\<lambda>o' s'. s' = s \<and> reached s b o')"
  using assms
proof (induction n arbitrary: m a parent pn pa)
  case (Suc n)
  obtain m' where m: "m = Suc m'" "n \<le> m'" using Suc.prems(2) by (cases m) auto
  show ?case
  proof (cases pa)
    case (Leaf l)
    then have "a = b" using Suc.prems(1,4) by (auto split: if_splits)
    then show ?thesis using Leaf Suc.prems(3,4) m by (simp add: tree_step_def ok_step reached_def)
  next
    case (Inner q)
    let ?c = "children q ! inner_lowerBound q k"
    have q: "?c AND swizzle_tag \<noteq> 0" "?c AND swizzle_hide \<noteq> nullptr" "hot_leaf n (cheap s) k (?c AND swizzle_hide) = Some b"
      using Suc.prems(1,4) Inner by (auto simp: Let_def split: if_splits)
    obtain p where p: "cheap s (?c AND swizzle_hide) = Some p" "quiet_word (lock_word p)" using hot_leaf_quiet [OF q(3)] by blast
    have a: "cheap s a = Some (Inner q)" using Suc.prems(4) Inner by simp
    have u: "ok (page_readUnlock parent (typeVersionLockObsolete pn) False) s U = U False s" for U
      using ok_locks(2) [of s parent "Inner pn" False U] Suc.prems(3) by simp
    note IH = Suc.IH [OF q(3) m(2) a p(1)]
    show ?thesis
      using IH a p Inner by (simp add: m(1) tree_step_def ok_step u fetch_hot [OF a refl q(1,2)] ok_locks wp_split)
  qed
qed simp

lemma insert_descend_hot:
  assumes "hot_leaf n (cheap s) k a = Some b" "n \<le> m" "cheap s parent = Some (Inner pn)" "cheap s a = Some pa"
  shows "ok (iterate m (insert_step e fuel k v io) (parent, typeVersionLockObsolete pn, a, lock_word pa)) s (\<lambda>o' s'. s' = s \<and> reached s b o')"
  using assms
proof (induction n arbitrary: m a parent pn pa)
  case (Suc n)
  obtain m' where m: "m = Suc m'" "n \<le> m'" using Suc.prems(2) by (cases m) auto
  show ?case
  proof (cases pa)
    case (Leaf l)
    then have "a = b" using Suc.prems(1,4) by (auto split: if_splits)
    then show ?thesis using Leaf Suc.prems(3,4) m by (simp add: insert_step_def ok_step reached_def)
  next
    case (Inner q)
    let ?c = "children q ! inner_lowerBound q k"
    have q: "?c AND swizzle_tag \<noteq> 0" "?c AND swizzle_hide \<noteq> nullptr" "hot_leaf n (cheap s) k (?c AND swizzle_hide) = Some b"
      "\<not> (inner_isFull q \<and> \<not> shared q)"
      using Suc.prems(1,4) Inner by (auto simp: Let_def split: if_splits)
    obtain p where p: "cheap s (?c AND swizzle_hide) = Some p" "quiet_word (lock_word p)" using hot_leaf_quiet [OF q(3)] by blast
    have a: "cheap s a = Some (Inner q)" using Suc.prems(4) Inner by simp
    have u: "ok (page_readUnlock parent (typeVersionLockObsolete pn) False) s U = U False s" for U
      using ok_locks(2) [of s parent "Inner pn" False U] Suc.prems(3) by simp
    have nf: "(inner_isFull q \<and> \<not> shared q) = False" using q(4) by simp
    note IH = Suc.IH [OF q(3) m(2) a p(1)]
    show ?thesis
      using IH a p Inner by (simp add: m(1) nf insert_step_def ok_step u fetch_hot [OF a refl q(1,2)] ok_locks wp_split)
  qed
qed simp

section \<open>The operations on a hot path\<close>

text \<open>A B-tree has at most 256 levels, the range of the level byte.\<close>

definition hot :: "btree \<Rightarrow> Key \<Rightarrow> ptr \<Rightarrow> bool" where
  "hot s k b \<longleftrightarrow> (case cheap s (super_root s) of Some (Inner pn) \<Rightarrow> quiet_word (typeVersionLockObsolete pn) | _ \<Rightarrow> False) \<and>
     search_in_cache (root s) \<noteq> nullptr \<and> hot_leaf 256 (cheap s) k (search_in_cache (root s)) = Some b"

lemma hotE:
  assumes "hot s k b"
  obtains pn pa where "cheap s (super_root s) = Some (Inner pn)" "quiet_word (typeVersionLockObsolete pn)" "search_in_cache (root s) \<noteq> nullptr"
    "hot_leaf 256 (cheap s) k (search_in_cache (root s)) = Some b" "cheap s (search_in_cache (root s)) = Some pa" "quiet_word (lock_word pa)"
  using assms hot_leaf_quiet unfolding hot_def by (fastforce split: option.splits page.splits)

lemma enter_hot:
  assumes "hot s k b"
  shows "\<exists>pn pa. cheap s (super_root s) = Some (Inner pn) \<and> cheap s (search_in_cache (root s)) = Some pa \<and>
    (\<forall>Q. ok (enter_root e) s Q = Q (Some (super_root s, typeVersionLockObsolete pn, search_in_cache (root s), lock_word pa)) s)"
proof -
  from assms obtain pn pa where h: "cheap s (super_root s) = Some (Inner pn)" "quiet_word (typeVersionLockObsolete pn)" "search_in_cache (root s) \<noteq> nullptr"
    "cheap s (search_in_cache (root s)) = Some pa" "quiet_word (lock_word pa)" by (rule hotE)
  have "ok (page_readLock (super_root s) r) s R = R (typeVersionLockObsolete pn, r) s" for r R
    using ok_locks(1) [of s "super_root s" "Inner pn" r R] h(1,2) by simp
  then have "ok (enter_root e) s Q = Q (Some (super_root s, typeVersionLockObsolete pn, search_in_cache (root s), lock_word pa)) s" for Q
    using h by (simp add: enter_root_def ok_step ok_locks wp_split)
  then show ?thesis using h(1,4) by blast
qed

lemma tree_rangeValid_leaf: "tree_rangeValid k (min_limit l) (max_limit l) = rangeValid l k"
  by (simp add: tree_rangeValid_def rangeValid_def)

lemma ok_load_leaf: "cheap s a = Some (Leaf l) \<Longrightarrow> ok (load_leaf a) s Q = Q l s"
  by (simp add: load_leaf_def ok_step)

lemma lookup_hot:
  assumes hot: "hot s k b" and l: "cheap s b = Some (Leaf l)" "rangeValid l k" and fuel: "256 \<le> fuel"
  shows "ok (BTree_lookup e fuel k r0) s (\<lambda>r s'. s' = s \<and> r = (case leaf_find l k of Some v \<Rightarrow> (True, v) | None \<Rightarrow> (False, r0)))"
proof -
  obtain f where f: "fuel = Suc f" using fuel by (cases fuel) auto
  obtain pn pa where E: "cheap s (super_root s) = Some (Inner pn)" "cheap s (search_in_cache (root s)) = Some pa"
    "\<And>Q. ok (enter_root e) s Q = Q (Some (super_root s, typeVersionLockObsolete pn, search_in_cache (root s), lock_word pa)) s"
    using enter_hot [OF hot, of e] by blast
  have "hot_leaf 256 (cheap s) k (search_in_cache (root s)) = Some b" using hot by (simp add: hot_def)
  note D = descend_hot [OF this fuel E(1,2), of e fuel RLookup r0, folded tree_descend_def]
  have leaf: "ok (lookup_leaf e fuel k r0 parent (typeVersionLockObsolete qn) b (typeVersionLockObsolete l)) s Q
      = Q (case leaf_find l k of Some v \<Rightarrow> (Some True, v) | None \<Rightarrow> (Some False, r0)) s"
    if q: "cheap s parent = Some (Inner qn)" for parent qn Q
    using ok_locks(2) [of s parent "Inner qn" False] ok_locks(2) [of s b "Leaf l" False] q l
    by (simp add: lookup_leaf_def ok_step ok_load_leaf tree_rangeValid_leaf split: option.split)
  have "ok (tree_descend e fuel RLookup k r0 (super_root s, typeVersionLockObsolete pn, search_in_cache (root s), lock_word pa)) s
     (\<lambda>o' s'. ok (case o' of
           Restart _ \<Rightarrow> ret (Inl r0)
         | Finished r \<Rightarrow> ret (Inr r)
         | Arrived parent versionParent cur_node versionNode \<Rightarrow>
             bnd (lookup_leaf e fuel k r0 parent versionParent cur_node versionNode) (\<lambda>(r, result').
             ret (case r of None \<Rightarrow> Inl result' | Some success \<Rightarrow> Inr (success, result')))) s'
       (\<lambda>x s'. x = Inr (case leaf_find l k of Some v \<Rightarrow> (True, v) | None \<Rightarrow> (False, r0)) \<and> s' = s))"
    by (rule ok_mono [OF D]) (use l(1) in \<open>auto simp: reached_def wp_bnd(1) leaf wp_ret(1) split: option.split\<close>)
  then show ?thesis
    unfolding BTree_lookup_def f iterate.simps(2) by (auto simp: ok_step E(3) elim!: ok_mono)
qed

section \<open>Changing the leaf\<close>

lemma leaf_lock_commute:
  "leaf_update (l\<lparr>typeVersionLockObsolete := w\<rparr>) k v = (fst (leaf_update l k v), (snd (leaf_update l k v))\<lparr>typeVersionLockObsolete := w\<rparr>)"
  "leaf_remove (l\<lparr>typeVersionLockObsolete := w\<rparr>) k = (fst (leaf_remove l k), (snd (leaf_remove l k))\<lparr>typeVersionLockObsolete := w\<rparr>)"
  "leaf_insert (l\<lparr>typeVersionLockObsolete := w\<rparr>) k v = (fst (leaf_insert l k v), (snd (leaf_insert l k v))\<lparr>typeVersionLockObsolete := w\<rparr>)"
  by (simp_all add: leaf_update_def leaf_remove_def leaf_insert_def leaf_lowerBound_def leaf_hit_def leaf_bump_def Let_def)

lemma leaf_limits_kept:
  "min_limit (snd (leaf_update l k v)) = min_limit l" "max_limit (snd (leaf_update l k v)) = max_limit l"
  "min_limit (snd (leaf_remove l k)) = min_limit l" "max_limit (snd (leaf_remove l k)) = max_limit l"
  "min_limit (snd (leaf_insert l k v)) = min_limit l" "max_limit (snd (leaf_insert l k v)) = max_limit l"
  by (simp_all add: leaf_update_def leaf_remove_def leaf_insert_def leaf_bump_def Let_def)

lemma leaf_lock_word [simp]:
  "leaf_wf (l\<lparr>typeVersionLockObsolete := w\<rparr>) = leaf_wf l" "leaf_map (l\<lparr>typeVersionLockObsolete := w\<rparr>) = leaf_map l"
  "rangeValid (l\<lparr>typeVersionLockObsolete := w\<rparr>) k = rangeValid l k" "leaf_isFull (l\<lparr>typeVersionLockObsolete := w\<rparr>) = leaf_isFull l"
  by (auto simp: leaf_wf_def leaf_map_def entries_def rangeValid_def leaf_isFull_def)

lemma leaf_insert_reports:
  assumes "leaf_wf l" "\<not> leaf_isFull l"
  shows "fst (leaf_insert l k v) \<longleftrightarrow> leaf_map l k = None"
proof -
  have "unat (count l) < leaf_maxEntries" using assms leaf_wfD(2) [OF assms(1)] by (simp add: leaf_isFull_def)
  moreover have "leaf_hit l (leaf_lowerBound l k) k \<longleftrightarrow> leaf_map l k \<noteq> None"
    using leaf_hit_iff [OF assms(1)] by (simp add: leaf_map_None_iff)
  moreover have "leaf_hit (l\<lparr>dirty := True\<rparr>) (leaf_lowerBound (l\<lparr>dirty := True\<rparr>) k) k = leaf_hit l (leaf_lowerBound l k) k"
    by (simp add: leaf_hit_def leaf_lowerBound_def)
  moreover have "leaf_map l k = None" if "count l = 0" using that by (simp add: leaf_map_def entries_def)
  ultimately show ?thesis by (auto simp: leaf_insert_def Let_def)
qed

text \<open>The state after a change of the leaf at \<open>b\<close>: the lock word has gone through one write lock.\<close>

definition put_leaf :: "btree \<Rightarrow> ptr \<Rightarrow> BTreeLeafNode \<Rightarrow> BTreeLeafNode \<Rightarrow> btree" where
  "put_leaf s b l l' = s\<lparr>cheap := (cheap s)(b \<mapsto> Leaf (l'\<lparr>typeVersionLockObsolete := typeVersionLockObsolete l + 8\<rparr>))\<rparr>"

lemma ok_store: "ok (store a p) s U = U () (s\<lparr>cheap := (cheap s)(a \<mapsto> p)\<rparr>)"
  by (simp add: store_def wp)

lemma change_leaf_hot:
  assumes l: "cheap s b = Some (Leaf l)" "quiet_word (typeVersionLockObsolete l)" "rangeValid l k" and p: "cheap s parent = Some (Inner pn)"
    and f: "\<And>w. f (l\<lparr>typeVersionLockObsolete := w\<rparr>) = (r, l'\<lparr>typeVersionLockObsolete := w\<rparr>)"
  shows "ok (change_leaf e fuel k f parent (typeVersionLockObsolete pn) b (typeVersionLockObsolete l)) s
    (\<lambda>x s'. x = Some r \<and> s' = put_leaf s b l l')"
proof -
  have ne: "parent \<noteq> b" using l(1) p by auto
  let ?w = "typeVersionLockObsolete l"
  let ?s = "s\<lparr>cheap := (cheap s)(b \<mapsto> Leaf (l\<lparr>typeVersionLockObsolete := ?w + 4\<rparr>))\<rparr>"
  have up: "ok (page_upgrade b ?w False) s R = R (?w + 4, False) ?s" for R
    using ok_locks(3) [of s b "Leaf l" False R] l(1,2) by simp
  have un: "ok (page_readUnlock parent (typeVersionLockObsolete pn) False) ?s U = U False ?s" for U
    using ok_locks(2) [of ?s parent "Inner pn" False U] p ne by simp
  have ll: "ok (load_leaf b) ?s Q = Q (l\<lparr>typeVersionLockObsolete := ?w + 4\<rparr>) ?s" for Q by (rule ok_load_leaf) simp
  let ?s2 = "s\<lparr>cheap := (cheap s)(b \<mapsto> Leaf (l'\<lparr>typeVersionLockObsolete := ?w + 4\<rparr>))\<rparr>"
  have wu: "ok (page_writeUnlock b) ?s2 W = W () (put_leaf s b l l')" for W
    using ok_locks(4) [of ?s2 b "Leaf (l'\<lparr>typeVersionLockObsolete := ?w + 4\<rparr>)" W] by (simp add: put_leaf_def add.assoc)
  have rv: "tree_rangeValid k (min_limit l) (max_limit l)" using l(3) by (simp add: tree_rangeValid_leaf)
  show ?thesis
    using rv by (simp add: change_leaf_def ok_step wp_split up un ll f ok_store wu)
qed

lemma insert_leaf_hot:
  assumes l: "cheap s b = Some (Leaf l)" "quiet_word (typeVersionLockObsolete l)" "rangeValid l k" "\<not> leaf_isFull l" and p: "cheap s parent = Some (Inner pn)"
  shows "ok (insert_leaf e fuel k v parent (typeVersionLockObsolete pn) b (typeVersionLockObsolete l)) s
    (\<lambda>x s'. x = Some (fst (leaf_insert l k v)) \<and> s' = put_leaf s b l (snd (leaf_insert l k v)))"
proof -
  have ne: "parent \<noteq> b" using l(1) p by auto
  let ?w = "typeVersionLockObsolete l" and ?l' = "snd (leaf_insert l k v)"
  let ?s = "s\<lparr>cheap := (cheap s)(b \<mapsto> Leaf (l\<lparr>typeVersionLockObsolete := ?w + 4\<rparr>))\<rparr>"
  have up: "ok (page_upgrade b ?w False) s R = R (?w + 4, False) ?s" for R
    using ok_locks(3) [of s b "Leaf l" False R] l(1,2) by simp
  have un: "ok (page_readUnlock parent (typeVersionLockObsolete pn) False) ?s U = U False ?s" for U
    using ok_locks(2) [of ?s parent "Inner pn" False U] p ne by simp
  have ll: "ok (load_leaf b) ?s Q = Q (l\<lparr>typeVersionLockObsolete := ?w + 4\<rparr>) ?s" for Q by (rule ok_load_leaf) simp
  let ?s2 = "s\<lparr>cheap := (cheap s)(b \<mapsto> Leaf (?l'\<lparr>typeVersionLockObsolete := ?w + 4\<rparr>))\<rparr>"
  have wu: "ok (page_writeUnlock b) ?s2 W = W () (put_leaf s b l ?l')" for W
    using ok_locks(4) [of ?s2 b "Leaf (?l'\<lparr>typeVersionLockObsolete := ?w + 4\<rparr>)" W] by (simp add: put_leaf_def add.assoc)
  have rv: "tree_rangeValid k (min_limit l) (max_limit l)" using l(3) by (simp add: tree_rangeValid_leaf)
  show ?thesis
    using rv l(4) by (simp add: insert_leaf_def ok_step wp_split up un ll leaf_lock_commute ok_store wu leaf_limits_kept)
qed

text \<open>An operation that descends and then works on the leaf.\<close>

lemma op_hot:
  assumes hot: "hot s k b" and l: "cheap s b = Some (Leaf l)"
    and at_leaf: "\<And>parent pn. cheap s parent = Some (Inner pn) \<Longrightarrow>
      ok (leaf_op parent (typeVersionLockObsolete pn) b (typeVersionLockObsolete l)) s (\<lambda>x s'. x = Some r \<and> s' = t)"
    and down: "\<And>pn pa. cheap s (super_root s) = Some (Inner pn) \<Longrightarrow> cheap s (search_in_cache (root s)) = Some pa \<Longrightarrow>
      ok (go (super_root s, typeVersionLockObsolete pn, search_in_cache (root s), lock_word pa)) s (\<lambda>o' s'. s' = s \<and> reached s b o')"
  shows "ok (bnd (enter_root e) (\<lambda>start. case start of
       None \<Rightarrow> ret (Inl again)
     | Some st \<Rightarrow>
         bnd (go st) (\<lambda>o'. case o' of
           Restart io \<Rightarrow> ret (Inl (other io))
         | Finished x \<Rightarrow> ret (Inr (fin x))
         | Arrived parent versionParent cur_node versionNode \<Rightarrow>
             bnd (leaf_op parent versionParent cur_node versionNode) (\<lambda>x.
             ret (case x of None \<Rightarrow> Inl again | Some y \<Rightarrow> Inr y))))) s (\<lambda>x s'. x = Inr r \<and> s' = t)"
proof -
  obtain pn pa where E: "cheap s (super_root s) = Some (Inner pn)" "cheap s (search_in_cache (root s)) = Some pa"
    "\<And>Q. ok (enter_root e) s Q = Q (Some (super_root s, typeVersionLockObsolete pn, search_in_cache (root s), lock_word pa)) s"
    using enter_hot [OF hot, of e] by blast
  have "ok (case o' of
           Restart io \<Rightarrow> ret (Inl (other io))
         | Finished x \<Rightarrow> ret (Inr (fin x))
         | Arrived parent versionParent cur_node versionNode \<Rightarrow>
             bnd (leaf_op parent versionParent cur_node versionNode) (\<lambda>x.
             ret (case x of None \<Rightarrow> Inl again | Some y \<Rightarrow> Inr y))) s (\<lambda>x s'. x = Inr r \<and> s' = t)" if there: "reached s b o'" for o'
  proof -
    obtain parent qn where q: "o' = Arrived parent (typeVersionLockObsolete qn) b (typeVersionLockObsolete l)" "cheap s parent = Some (Inner qn)"
      using there l by (auto simp: reached_def)
    show ?thesis unfolding q(1) by (auto simp: wp_bnd(1) wp_ret(1) intro!: ok_mono [OF at_leaf [OF q(2)]])
  qed
  then show ?thesis by (auto simp: wp_bnd(1) E(3) intro!: ok_mono [OF down [OF E(1,2)]])
qed

lemma iterate_first:
  assumes "ok (body x) s (\<lambda>y s'. y = Inr r \<and> s' = t)" "fuel = Suc f"
  shows "iterate fuel body x s = Some (Inr (r, t))"
  using assms by (auto simp: ok_def bnd_def ret_def)

lemma insert_hot:
  assumes hot: "hot s k b" and l: "cheap s b = Some (Leaf l)" "rangeValid l k" "\<not> leaf_isFull l" and fuel: "256 \<le> fuel"
  shows "BTree_insert e fuel k v s = Some (Inr (fst (leaf_insert l k v), put_leaf s b l (snd (leaf_insert l k v))))"
proof -
  have h: "hot_leaf 256 (cheap s) k (search_in_cache (root s)) = Some b" using hot by (simp add: hot_def)
  have q: "quiet_word (typeVersionLockObsolete l)" using hot_leaf_leaf [OF h] l(1) by simp
  obtain f where f: "fuel = Suc f" using fuel by (cases fuel) auto
  note D = insert_descend_hot [where fuel = fuel, OF h fuel, folded insert_descend_def]
  show ?thesis
    unfolding BTree_insert_def
    by (rule iterate_first [OF op_hot [OF hot l(1)] f]) (rule insert_leaf_hot [OF l(1) q l(2,3)], assumption, rule D)
qed

lemma update_hot:
  assumes hot: "hot s k b" and l: "cheap s b = Some (Leaf l)" "rangeValid l k" and fuel: "256 \<le> fuel"
  shows "BTree_update e fuel k v s = Some (Inr (fst (leaf_update l k v), put_leaf s b l (snd (leaf_update l k v))))"
proof -
  have h: "hot_leaf 256 (cheap s) k (search_in_cache (root s)) = Some b" using hot by (simp add: hot_def)
  have q: "quiet_word (typeVersionLockObsolete l)" using hot_leaf_leaf [OF h] l(1) by simp
  obtain f where f: "fuel = Suc f" using fuel by (cases fuel) auto
  note D = descend_hot [where fuel = fuel, OF h fuel, folded tree_descend_def]
  show ?thesis
    unfolding BTree_update_def
    by (rule iterate_first [OF op_hot [OF hot l(1)] f]) (rule change_leaf_hot [OF l(1) q l(2) _ leaf_lock_commute(1)], assumption, rule D)
qed

lemma remove_hot:
  assumes hot: "hot s k b" and l: "cheap s b = Some (Leaf l)" "rangeValid l k" and fuel: "256 \<le> fuel"
  shows "BTree_remove e fuel k s = Some (Inr (fst (leaf_remove l k), put_leaf s b l (snd (leaf_remove l k))))"
proof -
  have h: "hot_leaf 256 (cheap s) k (search_in_cache (root s)) = Some b" using hot by (simp add: hot_def)
  have q: "quiet_word (typeVersionLockObsolete l)" using hot_leaf_leaf [OF h] l(1) by simp
  obtain f where f: "fuel = Suc f" using fuel by (cases fuel) auto
  note D = descend_hot [where fuel = fuel, OF h fuel, folded tree_descend_def]
  show ?thesis
    unfolding BTree_remove_def
    by (rule iterate_first [OF op_hot [OF hot l(1)] f]) (rule change_leaf_hot [OF l(1) q l(2) _ leaf_lock_commute(2)], assumption, rule D)
qed

section \<open>The hot tree is a map\<close>

definition hot_map :: "btree \<Rightarrow> (Key \<rightharpoonup> Value)" where
  "hot_map s k = (case hot_leaf 256 (cheap s) k (search_in_cache (root s)) of
      None \<Rightarrow> None | Some b \<Rightarrow> (case cheap s b of Some (Leaf l) \<Rightarrow> leaf_find l k | _ \<Rightarrow> None))"

definition hot_tree :: "btree \<Rightarrow> bool" where
  "hot_tree s \<longleftrightarrow> (\<forall>k. \<exists>b l. hot s k b \<and> cheap s b = Some (Leaf l) \<and> leaf_wf l \<and> rangeValid l k)"

text \<open>The leaf of the key has room.\<close>

definition room :: "btree \<Rightarrow> Key \<Rightarrow> bool" where
  "room s k \<longleftrightarrow> (case hot_leaf 256 (cheap s) k (search_in_cache (root s)) of
      None \<Rightarrow> False | Some b \<Rightarrow> (case cheap s b of Some (Leaf l) \<Rightarrow> \<not> leaf_isFull l | _ \<Rightarrow> False))"

lemma hot_treeE:
  assumes "hot_tree s"
  obtains b l where "hot s k b" "cheap s b = Some (Leaf l)" "leaf_wf l" "rangeValid l k" "hot_map s k = leaf_map l k"
    "room s k \<longleftrightarrow> \<not> leaf_isFull l"
proof -
  obtain b l where b: "hot s k b" "cheap s b = Some (Leaf l)" "leaf_wf l" "rangeValid l k" using assms unfolding hot_tree_def by blast
  then have "hot_map s k = leaf_map l k" "room s k \<longleftrightarrow> \<not> leaf_isFull l" by (simp_all add: hot_def hot_map_def room_def leaf_find_map)
  then show thesis using b that by blast
qed

text \<open>A change of one leaf that keeps its limits: every other key keeps its value.\<close>

lemma put_leaf_map:
  assumes s: "hot_tree s" and b: "hot s k b" "cheap s b = Some (Leaf l)" "leaf_wf l"
    and l': "leaf_wf l'" "min_limit l' = min_limit l" "max_limit l' = max_limit l" "leaf_map l' = (leaf_map l)(k := x)"
  shows "hot_tree (put_leaf s b l l')" "hot_map (put_leaf s b l l') = (hot_map s)(k := x)"
proof -
  let ?t = "put_leaf s b l l'" and ?l = "l'\<lparr>typeVersionLockObsolete := typeVersionLockObsolete l + 8\<rparr>"
  have q: "quiet_word (typeVersionLockObsolete l)" using hot_leaf_leaf b(1,2) by (fastforce simp: hot_def)
  then have ql: "quiet_word (typeVersionLockObsolete ?l)" by (simp add: quiet_next)
  have hl: "hot_leaf n (cheap ?t) k' a = hot_leaf n (cheap s) k' a" for n k' a
    unfolding put_leaf_def using hot_leaf_upd [where h = "cheap s", OF b(2) q ql] by simp
  have sr: "super_root s \<noteq> b" using b(1,2) by (auto simp: hot_def)
  have hot: "hot ?t k' b' = hot s k' b'" for k' b' using sr unfolding hot_def hl by (simp add: put_leaf_def)
  have rv: "rangeValid ?l k' = rangeValid l k'" for k' by (auto simp: rangeValid_def l'(2,3))
  show "hot_tree ?t"
    unfolding hot_tree_def hot
  proof
    fix k'
    obtain b' m where m: "hot s k' b'" "cheap s b' = Some (Leaf m)" "leaf_wf m" "rangeValid m k'" using s unfolding hot_tree_def by blast
    show "\<exists>b' m. hot s k' b' \<and> cheap ?t b' = Some (Leaf m) \<and> leaf_wf m \<and> rangeValid m k'"
    proof (cases "b' = b")
      case True
      then show ?thesis using m b(2) l'(1) rv [of k'] by (auto simp: put_leaf_def)
    next
      case False
      then show ?thesis using m by (auto simp: put_leaf_def)
    qed
  qed
  have kb: "hot_leaf 256 (cheap s) k (search_in_cache (root s)) = Some b" using b(1) by (simp add: hot_def)
  have "hot_map ?t k' = ((hot_map s)(k := x)) k'" for k'
  proof (cases "hot_leaf 256 (cheap s) k' (search_in_cache (root s)) = Some b")
    case True
    then have "hot_map ?t k' = leaf_map l' k'" "hot_map s k' = leaf_map l k'"
      using b(2,3) l'(1) unfolding hot_map_def hl by (simp_all add: put_leaf_def leaf_find_map)
    then show ?thesis using l'(4) by simp
  next
    case False
    then have "k' \<noteq> k" using kb by auto
    moreover have "hot_map ?t k' = hot_map s k'"
      using False unfolding hot_map_def hl by (auto simp: put_leaf_def split: option.splits)
    ultimately show ?thesis by simp
  qed
  then show "hot_map ?t = (hot_map s)(k := x)" by blast
qed

text \<open>The operations as functions on the state, with room for 256 levels and as many restarts.\<close>

definition tree_get :: "cm_env \<Rightarrow> btree \<Rightarrow> Key \<Rightarrow> Value option" where
  "tree_get e s k = (case BTree_lookup e 256 k 0 s of Some (Inr ((True, v), _)) \<Rightarrow> Some v | _ \<Rightarrow> None)"

definition tree_put :: "cm_env \<Rightarrow> btree \<Rightarrow> Key \<Rightarrow> Value \<Rightarrow> btree" where
  "tree_put e s k v = (case BTree_insert e 256 k v s of Some (Inr (_, s')) \<Rightarrow> s' | _ \<Rightarrow> s)"

definition tree_drop :: "cm_env \<Rightarrow> btree \<Rightarrow> Key \<Rightarrow> btree" where
  "tree_drop e s k = (case BTree_remove e 256 k s of Some (Inr (_, s')) \<Rightarrow> s' | _ \<Rightarrow> s)"

lemma lookup_map:
  assumes "hot_tree s" "256 \<le> fuel"
  shows "BTree_lookup e fuel k r0 s = Some (Inr (case hot_map s k of Some v \<Rightarrow> (True, v) | None \<Rightarrow> (False, r0), s))"
proof -
  from assms(1) obtain b l where b: "hot s k b" "cheap s b = Some (Leaf l)" "leaf_wf l" "rangeValid l k" "hot_map s k = leaf_map l k" by (rule hot_treeE)
  show ?thesis using lookup_hot [OF b(1,2,4) assms(2), of e r0] by (auto simp: ok_def leaf_find_map b(3,5))
qed

lemma insert_map:
  assumes "hot_tree s" "room s k" "256 \<le> fuel"
  shows "\<exists>s'. BTree_insert e fuel k v s = Some (Inr (hot_map s k = None, s')) \<and> hot_tree s' \<and> hot_map s' = (hot_map s)(k \<mapsto> v)"
proof -
  from assms(1) obtain b l where b: "hot s k b" "cheap s b = Some (Leaf l)" "leaf_wf l" "rangeValid l k" "hot_map s k = leaf_map l k"
    "room s k \<longleftrightarrow> \<not> leaf_isFull l" by (rule hot_treeE)
  have nf: "\<not> leaf_isFull l" using b(6) assms(2) by simp
  have acc: "leaf_accepts l k v" using nf leaf_wfD(2) [OF b(3)] by (simp add: leaf_accepts_def leaf_isFull_def)
  note P = put_leaf_map [OF assms(1) b(1-3) leaf_insert_accepted(1) [OF b(3) acc] leaf_limits_kept(5,6) leaf_insert_accepted(2) [OF b(3) acc]]
  show ?thesis using insert_hot [OF b(1,2,4) nf assms(3), of e v] P leaf_insert_reports [OF b(3) nf, of k v] b(5) by simp
qed

lemma update_map:
  assumes "hot_tree s" "256 \<le> fuel"
  shows "\<exists>s'. BTree_update e fuel k v s = Some (Inr (hot_map s k \<noteq> None, s')) \<and> hot_tree s' \<and>
    hot_map s' = (if hot_map s k = None then hot_map s else (hot_map s)(k \<mapsto> v))"
proof -
  from assms(1) obtain b l where b: "hot s k b" "cheap s b = Some (Leaf l)" "leaf_wf l" "rangeValid l k" "hot_map s k = leaf_map l k" by (rule hot_treeE)
  note U = leaf_update_map [OF b(3), of k v]
  have "leaf_map (snd (leaf_update l k v)) = (leaf_map l)(k := if leaf_map l k = None then None else Some v)"
    using U(3) by (auto simp: fun_upd_idem)
  note P = put_leaf_map [OF assms(1) b(1-3) U(2) leaf_limits_kept(1,2) this]
  have "(hot_map s)(k := if leaf_map l k = None then None else Some v) = (if hot_map s k = None then hot_map s else (hot_map s)(k \<mapsto> v))"
    using b(5) by (auto simp: fun_upd_idem)
  then show ?thesis using update_hot [OF b(1,2,4) assms(2), of e v] P U(1) b(5) by simp
qed

lemma remove_map:
  assumes "hot_tree s" "256 \<le> fuel"
  shows "\<exists>s'. BTree_remove e fuel k s = Some (Inr (hot_map s k \<noteq> None, s')) \<and> hot_tree s' \<and> hot_map s' = (hot_map s)(k := None)"
proof -
  from assms(1) obtain b l where b: "hot s k b" "cheap s b = Some (Leaf l)" "leaf_wf l" "rangeValid l k" "hot_map s k = leaf_map l k" by (rule hot_treeE)
  have d: "leaf_wf (snd (leaf_remove l k))" "leaf_map (snd (leaf_remove l k)) = (leaf_map l)(k := None)"
    using dex_leaf.del_inv [OF b(3), of k] dex_leaf.del_abs [OF b(3), of k] by (simp_all add: leaf_del_def)
  note P = put_leaf_map [OF assms(1) b(1-3) d(1) leaf_limits_kept(3,4) d(2)]
  have "fst (leaf_remove l k) \<longleftrightarrow> hot_map s k \<noteq> None"
    using leaf_remove_hit(1) [OF b(3), of k] leaf_remove_miss [OF b(3), of k] b(5) by (cases "leaf_map l k = None") simp_all
  then show ?thesis using remove_hot [OF b(1,2,4) assms(2), of e] P by simp
qed

interpretation dex_tree: kv_store hot_tree hot_map "tree_get e" "\<lambda>s k _. room s k" "tree_put e" "tree_drop e" for e
proof
  fix s :: btree and k v assume s: "hot_tree s"
  show "tree_get e s k = hot_map s k" using lookup_map [OF s order_refl, of e k 0] by (simp add: tree_get_def split: option.split)
  { assume "room s k"
    from insert_map [OF s this order_refl, of e v] show "hot_tree (tree_put e s k v)" "hot_map (tree_put e s k v) = (hot_map s)(k \<mapsto> v)"
      by (auto simp: tree_put_def) }
  from remove_map [OF s order_refl, of e k] show "hot_tree (tree_drop e s k)" "hot_map (tree_drop e s k) = (hot_map s)(k := None)"
    by (auto simp: tree_drop_def)
qed

section \<open>The properties\<close>



section \<open>A small tree\<close>

definition sample_left :: BTreeLeafNode where
  "sample_left = (new_leaf ((4, 40) # (5, 50) # replicate 56 (0, 0)) (mk_GlobalAddress 0 1024))\<lparr>count := 2, max_limit := 5, pos_state := 2\<rparr>"

definition sample_right :: BTreeLeafNode where
  "sample_right = (new_leaf ((6, 60) # (7, 70) # replicate 56 (0, 0)) (mk_GlobalAddress 0 2048))\<lparr>count := 2, min_limit := 5, pos_state := 2\<rparr>"

definition sample_top :: BTreeInnerNode where
  "sample_top = (new_inner ((9216 OR swizzle_tag) # (10240 OR swizzle_tag) # replicate 57 0) (5 # replicate 58 0) 1 (mk_GlobalAddress 0 0))
     \<lparr>count := 1, bitmap := 3, pos_state := 2\<rparr>"

definition sample_super :: BTreeInnerNode where
  "sample_super = (new_inner ((8192 OR swizzle_tag) # replicate 58 0) (replicate 59 0) 255 Null)\<lparr>bitmap := 1, pos_state := 2\<rparr>"

definition small_tree :: btree where
  "small_tree = \<lparr>cheap = [4096 \<mapsto> Inner sample_super, 8192 \<mapsto> Inner sample_top, 9216 \<mapsto> Leaf sample_left, 10240 \<mapsto> Leaf sample_right],
     crm = Map.empty, hash_table = cooling_new 12 (page_table_new 6), cstate = 0, local_page_set = [], base_address = 8192, page_num = 3,
     head_idx = 3, buffer_min_limit = 0, buffer_max_limit = - 1, admission_idx = 0, decision = collector_new, dirs = sample_directory,
     send0 = sample_message, msg0 = sample_message, rnd = (\<lambda>_. 0), root_ptr_ptr = root_ptr_addr 0, root_lock_ptr = root_lock_addr 0,
     root = 8192 OR swizzle_tag, tree_id = 0, super_root = 4096, left_bound = 0, right_bound = - 1, min_key = 4, max_key = 7,
     height = 2, rwords = (\<lambda>_. 0), tdsm = sample_dsm, tconf = sample_conf\<lparr>machineNR := 1\<rparr>, my_thread = 0, my_node = 0, thread_tag = 1,
     next_node_id = 0, refresh_node_id = 0, buf_children = replicate 59 0, buf_keys = replicate 59 0, buf_data = replicate 58 (0, 0)\<rparr>"

lemma sample_tags:
  "(8192 OR swizzle_tag) AND swizzle_tag \<noteq> 0" "(8192 OR swizzle_tag) AND swizzle_hide = 8192"
  "(9216 OR swizzle_tag) AND swizzle_tag \<noteq> 0" "(9216 OR swizzle_tag) AND swizzle_hide = 9216"
  "(10240 OR swizzle_tag) AND swizzle_tag \<noteq> 0" "(10240 OR swizzle_tag) AND swizzle_hide = 10240"
  by code_simp+

lemma small_root: "search_in_cache (root small_tree) = 8192"
  using sample_tags(1,2) by (simp add: small_tree_def search_in_cache_def)

lemma sample_quiet:
  "quiet_word (typeVersionLockObsolete sample_super)" "quiet_word (typeVersionLockObsolete sample_top)"
  "quiet_word (typeVersionLockObsolete sample_left)" "quiet_word (typeVersionLockObsolete sample_right)"
  by code_simp+

lemma sample_leaves:
  "leaf_wf sample_left" "leaf_wf sample_right" "\<not> leaf_isFull sample_left" "\<not> leaf_isFull sample_right"
  by code_simp+

lemma sample_top_facts: "\<not> inner_isFull sample_top" "inner_lowerBound sample_top k = (if 5 < k then Suc 0 else 0)"
  "children sample_top ! 0 = 9216 OR swizzle_tag" "children sample_top ! Suc 0 = 10240 OR swizzle_tag"
  by (auto simp: sample_top_def new_inner_def inner_isFull_def inner_lowerBound_def lowerBound_loop.simps [of _ _ 0 "Suc 0"] Let_def)

lemma sample_heap_at:
  "cheap small_tree 4096 = Some (Inner sample_super)" "cheap small_tree 8192 = Some (Inner sample_top)"
  "cheap small_tree 9216 = Some (Leaf sample_left)" "cheap small_tree 10240 = Some (Leaf sample_right)" "super_root small_tree = 4096"
  by (simp_all add: small_tree_def)

lemma sample_hot_leaf: "hot_leaf 256 (cheap small_tree) k 8192 = Some (if 5 < k then 10240 else 9216)"
proof -
  have "(256 :: nat) = Suc (Suc 254)" by simp
  then show ?thesis
    using sample_tags sample_quiet
    by (simp only: hot_leaf.simps) (simp add: sample_heap_at sample_top_facts)
qed

lemma sample_hot_tree: "hot_tree small_tree"
  unfolding hot_tree_def
proof
  fix k
  have "hot small_tree k (if 5 < k then 10240 else 9216)"
    using sample_quiet(1) by (simp add: hot_def sample_heap_at small_root sample_hot_leaf)
  moreover have "rangeValid sample_left k" if "\<not> 5 < k"
    using that by (auto simp: sample_left_def new_leaf_def rangeValid_def word_gt_0)
  moreover have "rangeValid sample_right k" if "5 < k"
    using that by (auto simp: sample_right_def new_leaf_def rangeValid_def)
  ultimately show "\<exists>b l. hot small_tree k b \<and> cheap small_tree b = Some (Leaf l) \<and> leaf_wf l \<and> rangeValid l k"
    using sample_heap_at(3,4) sample_leaves(1,2) by (cases "5 < k") fastforce+
qed

lemma sample_room: "room small_tree k"
  using sample_leaves(3,4) by (simp add: room_def small_root sample_hot_leaf sample_heap_at)



section \<open>Three defects\<close>


lemma get_random_id_alone:
  assumes "machineNR (tconf s) = 1"
  shows "get_random_id fuel 0 s = None"
  using assms
proof (induction fuel arbitrary: s)
  case (Suc fuel)
  then show ?case by (simp add: get_random_id_def bnd_def gets_def draw_def ret_def)
qed (simp add: get_random_id_def waits_def)

text \<open>
  C38: with a single memory server a new root at a level that starts a new subtree is never made: the search for another server's
  number does not end.
\<close>

theorem makeRoot_single_server:
  assumes "machineNR (tconf s) = 1" "unat lev mod megaLevel = 0" "get_global_address leftChild s = Some (Inr (g, s))" "nodeID g = 0"
  shows "makeRoot e fuel k leftChild rightChild lev s = None"
  using assms get_random_id_alone [OF assms(1), of fuel] by (simp add: makeRoot_def bnd_def [abs_def])

theorem makeRoot_single_server_witness: "makeRoot sample_env 1000 5 (8192 OR swizzle_tag) 16 4 small_tree = None"
proof -
  have "machineNR (tconf small_tree) = 1" by (simp add: small_tree_def sample_conf_def)
  moreover have "unat (4 :: u8) mod megaLevel = 0" by (simp add: megaLevel_def)
  moreover have "get_global_address (8192 OR swizzle_tag) small_tree = Some (Inr (mk_GlobalAddress 0 0, small_tree))"
    using sample_tags(1,2) sample_heap_at(2)
    by (simp add: get_global_address_def header_def load_def bnd_def ret_def sample_top_def new_inner_def)
  moreover have "nodeID (mk_GlobalAddress 0 0) = 0" by code_simp
  ultimately show ?thesis by (rule makeRoot_single_server)
qed

text \<open>The root lock of a tree is the word of the next tree's root pointer.\<close>

lemma root_lock_is_next_root: "root_lock_addr t = root_ptr_addr (t + 1)"
  by (simp add: root_lock_addr_def root_ptr_addr_def)

end
