(* ===== verification/Sherman_Page.thy ===== *)
theory Sherman_Page
  imports Kv_Store Global_Addr
begin

text \<open>
  The pages of the Sherman tree, \<open>dex/include/Tree.h\<close>, and what \<open>dex/src/Tree.cpp\<close> does to one page
  it holds in its buffer: the search of a leaf and of an internal page, the store into a leaf with
  its split, the deletion, and the insertion of a separator into an internal page with its split.
  The handlers that lock, read and write the pages are in \<open>Sherman_Tree\<close>.

  \<open>CONFIG_ENABLE_CRC\<close> and \<open>CONFIG_ENABLE_EMBEDDING_LOCK\<close> are off and \<open>LOCK_VERSION\<close> is on, as
  \<open>Common.h\<close> sets them.  The word at the front of a page (the union of \<open>crc\<close>, \<open>embedding_lock\<close> and
  \<open>index_cache_freq\<close>) is then read on cached copies only and is part of the cache's model.
\<close>

section \<open>Layout\<close>

definition kKeyMin :: Key where "kKeyMin = 0"
definition kKeyMax :: Key where "kKeyMax = - 1"
definition kValueNull :: Value where "kValueNull = 0"

definition kInternalPageSize :: nat where "kInternalPageSize = 1024"
definition kLeafPageSize :: nat where "kLeafPageSize = 1024"

text \<open>The packed sizes: two addresses, a byte, two bytes and two keys; 16 bytes; 18 bytes.\<close>

definition sizeof_Header :: nat where "sizeof_Header = 8 + 8 + 1 + 2 + 8 + 8"
definition sizeof_InternalEntry :: nat where "sizeof_InternalEntry = 8 + 8"
definition sizeof_LeafEntry :: nat where "sizeof_LeafEntry = 1 + 8 + 8 + 1"

definition kInternalCardinality :: nat where
  "kInternalCardinality = (kInternalPageSize - sizeof_Header - 1 * 2 - 8) div sizeof_InternalEntry"

definition kLeafCardinality :: nat where
  "kLeafCardinality = (kLeafPageSize - sizeof_Header - 1 * 2 - 8) div sizeof_LeafEntry"

lemma kInternalCardinality_val [simp]: "kInternalCardinality = 61"
  by (simp add: kInternalCardinality_def kInternalPageSize_def sizeof_Header_def sizeof_InternalEntry_def)

lemma kLeafCardinality_val [simp]: "kLeafCardinality = 54"
  by (simp add: kLeafCardinality_def kLeafPageSize_def sizeof_Header_def sizeof_LeafEntry_def)

record Header =
  leftmost_ptr :: GlobalAddress
  sibling_ptr :: GlobalAddress
  hlevel :: u8
  last_index :: u16
  lowest :: Key
  highest :: Key

text \<open>The constructor leaves \<open>level\<close> to the page's constructor, which sets it next.\<close>

definition Header_new :: "u8 \<Rightarrow> Header" where
  "Header_new lv = \<lparr>leftmost_ptr = Null, sibling_ptr = Null, hlevel = lv, last_index = - 1,
     lowest = kKeyMin, highest = kKeyMax\<rparr>"

text \<open>\<open>last_index + 1\<close>, an \<open>int\<close>; \<open>int16_t\<close> is signed.\<close>

definition hdr_cnt :: "Header \<Rightarrow> int" where
  "hdr_cnt h = sint (last_index h) + 1"

record InternalEntry =
  ie_key :: Key
  ie_ptr :: GlobalAddress

definition InternalEntry_new :: InternalEntry where
  "InternalEntry_new = \<lparr>ie_key = 0, ie_ptr = Null\<rparr>"

record LeafEntry =
  f_version :: "4 word"
  le_key :: Key
  le_value :: Value
  r_version :: "4 word"

definition LeafEntry_new :: LeafEntry where
  "LeafEntry_new = \<lparr>f_version = 0, le_key = 0, le_value = kValueNull, r_version = 0\<rparr>"

record InternalPage =
  ip_front_version :: u8
  ip_hdr :: Header
  ip_records :: "InternalEntry list"
  ip_rear_version :: u8

record LeafPage =
  lp_front_version :: u8
  lp_hdr :: Header
  lp_records :: "LeafEntry list"
  lp_rear_version :: u8

text \<open>The constructor used when the tree grows, and the one of a new sibling.\<close>

definition InternalPage_grow :: "GlobalAddress \<Rightarrow> Key \<Rightarrow> GlobalAddress \<Rightarrow> u8 \<Rightarrow> InternalPage" where
  "InternalPage_grow left key right lv =
     \<lparr>ip_front_version = 0,
      ip_hdr = (Header_new lv)\<lparr>leftmost_ptr := left, last_index := 0\<rparr>,
      ip_records = ((replicate kInternalCardinality InternalEntry_new)
        [0 := \<lparr>ie_key = key, ie_ptr = right\<rparr>])[1 := InternalEntry_new\<lparr>ie_ptr := Null\<rparr>],
      ip_rear_version = 0\<rparr>"

definition InternalPage_new :: "u8 \<Rightarrow> InternalPage" where
  "InternalPage_new lv =
     \<lparr>ip_front_version = 0, ip_hdr = Header_new lv,
      ip_records = (replicate kInternalCardinality InternalEntry_new)[0 := InternalEntry_new\<lparr>ie_ptr := Null\<rparr>],
      ip_rear_version = 0\<rparr>"

definition InternalPage_set_consistent :: "InternalPage \<Rightarrow> InternalPage" where
  "InternalPage_set_consistent p =
     (let fv = ip_front_version p + 1 in p\<lparr>ip_front_version := fv, ip_rear_version := fv\<rparr>)"

definition InternalPage_check_consistent :: "InternalPage \<Rightarrow> bool" where
  "InternalPage_check_consistent p \<longleftrightarrow> ip_rear_version p = ip_front_version p"

definition LeafPage_new :: "u8 \<Rightarrow> LeafPage" where
  "LeafPage_new lv =
     \<lparr>lp_front_version = 0, lp_hdr = Header_new lv,
      lp_records = (replicate kLeafCardinality LeafEntry_new)[0 := LeafEntry_new\<lparr>le_value := kValueNull\<rparr>],
      lp_rear_version = 0\<rparr>"

definition LeafPage_set_consistent :: "LeafPage \<Rightarrow> LeafPage" where
  "LeafPage_set_consistent p =
     (let fv = lp_front_version p + 1 in p\<lparr>lp_front_version := fv, lp_rear_version := fv\<rparr>)"

definition LeafPage_check_consistent :: "LeafPage \<Rightarrow> bool" where
  "LeafPage_check_consistent p \<longleftrightarrow> lp_rear_version p = lp_front_version p"

section \<open>Operations on a leaf page\<close>

datatype sherman_error = AssertFail | Deadlock | Spin | OutOfFuel | BadPage | PathOverflow | AllocError

record SearchResult =
  is_leaf :: bool
  res_level :: u8
  slibing :: GlobalAddress
  next_level :: GlobalAddress
  res_val :: Value

text \<open>The loop runs over the slots in order and stops at the first that matches.\<close>

definition leaf_page_search :: "LeafPage \<Rightarrow> Key \<Rightarrow> SearchResult \<Rightarrow> SearchResult" where
  "leaf_page_search page k result =
     (case find (\<lambda>r. le_key r = k \<and> le_value r \<noteq> kValueNull \<and> f_version r = r_version r) (lp_records page) of
        Some r \<Rightarrow> result\<lparr>res_val := le_value r\<rparr>
      | None \<Rightarrow> result)"

text \<open>\<open>r.value = v; r.f_version++; r.r_version = r.f_version\<close>.\<close>

definition write_value :: "LeafEntry \<Rightarrow> Value \<Rightarrow> LeafEntry" where
  "write_value r v = r\<lparr>le_value := v, f_version := f_version r + 1, r_version := f_version r + 1\<rparr>"

text \<open>
  The loop of \<open>leaf_page_store\<close>: \<open>cnt\<close>, the first empty slot, and the slot of the key, where it breaks.
\<close>

fun store_loop :: "LeafEntry list \<Rightarrow> Key \<Rightarrow> nat \<Rightarrow> nat \<Rightarrow> nat option \<Rightarrow> nat \<times> nat option \<times> nat option" where
  "store_loop [] k i cnt empty_index = (cnt, empty_index, None)"
| "store_loop (r # rs) k i cnt empty_index =
     (if le_value r \<noteq> kValueNull then
        (if le_key r = k then (cnt + 1, empty_index, Some i)
         else store_loop rs k (i + 1) (cnt + 1) empty_index)
      else store_loop rs k (i + 1) cnt (if empty_index = None then Some i else empty_index))"

text \<open>The page after the store, the slot it wrote (\<open>update_addr\<close>) and \<open>cnt\<close>.\<close>

definition leaf_store_entry :: "LeafPage \<Rightarrow> Key \<Rightarrow> Value \<Rightarrow> sherman_error + LeafPage \<times> nat \<times> nat" where
  "leaf_store_entry page k v =
     (let rs = lp_records page; (cnt, empty_index, found) = store_loop rs k 0 0 None in
      if cnt = kLeafCardinality then Inl AssertFail
      else case found of
        Some i \<Rightarrow> Inr (page\<lparr>lp_records := rs[i := write_value (rs ! i) v]\<rparr>, i, cnt)
      | None \<Rightarrow>
          (case empty_index of
             None \<Rightarrow> Inl AssertFail
           | Some i \<Rightarrow>
               Inr (page\<lparr>lp_records := rs[i := write_value ((rs ! i)\<lparr>le_key := k\<rparr>) v]\<rparr>, i, cnt + 1)))"

text \<open>
  The split of a full page: \<open>std::sort\<close> on the keys (they are distinct on a full page, so the order of
  equal keys does not matter), the upper half moved to a new page.  The results are the page, the
  sibling and \<open>split_key\<close>.
\<close>

definition leaf_split_page ::
  "LeafPage \<Rightarrow> nat \<Rightarrow> GlobalAddress \<Rightarrow> sherman_error + LeafPage \<times> LeafPage \<times> Key" where
  "leaf_split_page page cnt sibling_addr =
     (let rs = sort_key le_key (lp_records page); h = lp_hdr page;
          sibling = LeafPage_new (hlevel h);
          m = cnt div 2;
          split_key = le_key (rs ! m);
          moved = take (cnt - m) (drop m rs) in
      rbind (check (split_key > lowest h) AssertFail) (\<lambda>_.
      rbind (check (split_key < highest h) AssertFail) (\<lambda>_.
      Inr (LeafPage_set_consistent (page\<lparr>
             lp_records := take m rs @ map (\<lambda>r. r\<lparr>le_key := 0, le_value := kValueNull\<rparr>) moved @ drop cnt rs,
             lp_hdr := h\<lparr>last_index := last_index h - of_nat (cnt - m), highest := split_key,
                         sibling_ptr := sibling_addr\<rparr>\<rparr>),
           LeafPage_set_consistent (sibling\<lparr>
             lp_records := map2 (\<lambda>s r. s\<lparr>le_key := le_key r, le_value := le_value r\<rparr>)
               (take (cnt - m) (lp_records sibling)) moved @ drop (cnt - m) (lp_records sibling),
             lp_hdr := (lp_hdr sibling)\<lparr>last_index := last_index (lp_hdr sibling) + of_nat (cnt - m),
                         lowest := split_key, highest := highest h, sibling_ptr := sibling_ptr h\<rparr>\<rparr>),
           split_key))))"

text \<open>The loop of \<open>leaf_page_del\<close>: the page and the slot it cleared, if any.\<close>

fun first_index :: "('a \<Rightarrow> bool) \<Rightarrow> 'a list \<Rightarrow> nat option" where
  "first_index P [] = None"
| "first_index P (x # xs) = (if P x then Some 0 else map_option Suc (first_index P xs))"

definition leaf_del_entry :: "LeafPage \<Rightarrow> Key \<Rightarrow> LeafPage \<times> nat option" where
  "leaf_del_entry page k =
     (let rs = lp_records page in
      case first_index (\<lambda>r. le_key r = k \<and> le_value r \<noteq> kValueNull) rs of
        Some i \<Rightarrow> (page\<lparr>lp_records := rs[i := write_value (rs ! i) kValueNull]\<rparr>, Some i)
      | None \<Rightarrow> (page, None))"

section \<open>Operations on an internal page\<close>

text \<open>The child for \<open>k\<close>; \<open>BadPage\<close> where \<open>records[cnt - 1]\<close> would be out of bounds.\<close>

definition internal_page_search :: "InternalPage \<Rightarrow> Key \<Rightarrow> SearchResult \<Rightarrow> sherman_error + SearchResult" where
  "internal_page_search page k result =
     (let h = ip_hdr page; rs = ip_records page; cnt = hdr_cnt h in
      rbind (check (k \<ge> lowest h) AssertFail) (\<lambda>_.
      rbind (check (k < highest h) AssertFail) (\<lambda>_.
      if nat cnt > length rs then Inl BadPage
      else if k < ie_key (rs ! 0) then Inr (result\<lparr>next_level := leftmost_ptr h\<rparr>)
      else case find (\<lambda>i. k < ie_key (rs ! i)) [1..<nat cnt] of
        Some i \<Rightarrow> Inr (result\<lparr>next_level := ie_ptr (rs ! (i - 1))\<rparr>)
      | None \<Rightarrow> if cnt < 1 then Inl BadPage
                else Inr (result\<lparr>next_level := ie_ptr (rs ! nat (cnt - 1))\<rparr>))))"

text \<open>
  The loop of \<open>internal_page_store\<close> from the right: the slot that holds \<open>k\<close>, and \<open>insert_index\<close>.  The
  argument is \<open>i + 1\<close>.
\<close>

fun separator_loop :: "InternalEntry list \<Rightarrow> Key \<Rightarrow> nat \<Rightarrow> nat option \<times> nat" where
  "separator_loop rs k 0 = (None, 0)"
| "separator_loop rs k (Suc i) =
     (if ie_key (rs ! i) = k then (Some i, 0)
      else if ie_key (rs ! i) < k then (None, i + 1)
      else separator_loop rs k i)"

text \<open>The shift loop \<open>for (i = cnt; i > insert_index; --i)\<close>, keys and pointers alike.\<close>

fun shift_loop :: "InternalEntry list \<Rightarrow> nat \<Rightarrow> nat \<Rightarrow> InternalEntry list" where
  "shift_loop rs insert_index 0 = rs"
| "shift_loop rs insert_index (Suc i) =
     (if Suc i > insert_index then shift_loop (rs[Suc i := rs ! i]) insert_index i else rs)"

definition internal_store_entry :: "InternalPage \<Rightarrow> Key \<Rightarrow> GlobalAddress \<Rightarrow> sherman_error + InternalPage" where
  "internal_store_entry page k v =
     (let h = ip_hdr page; rs = ip_records page; cnt = nat (hdr_cnt h);
          (found, insert_index) = separator_loop rs k cnt in
      rbind (check (hdr_cnt h \<noteq> int kInternalCardinality) AssertFail) (\<lambda>_.
      case found of
        Some i \<Rightarrow> Inr (page\<lparr>ip_records := rs[i := (rs ! i)\<lparr>ie_ptr := v\<rparr>]\<rparr>)
      | None \<Rightarrow>
          Inr (page\<lparr>ip_records := (shift_loop rs insert_index cnt)[insert_index := \<lparr>ie_key = k, ie_ptr = v\<rparr>],
                    ip_hdr := h\<lparr>last_index := last_index h + 1\<rparr>\<rparr>)))"

definition internal_split_page ::
  "InternalPage \<Rightarrow> GlobalAddress \<Rightarrow> sherman_error + InternalPage \<times> InternalPage \<times> Key" where
  "internal_split_page page sibling_addr =
     (let h = ip_hdr page; rs = ip_records page; cnt = nat (hdr_cnt h);
          sibling = InternalPage_new (hlevel h);
          m = cnt div 2;
          split_key = ie_key (rs ! m) in
      rbind (check (split_key > lowest h) AssertFail) (\<lambda>_.
      rbind (check (split_key < highest h) AssertFail) (\<lambda>_.
      Inr (page\<lparr>ip_hdr := h\<lparr>last_index := last_index h - of_nat (cnt - m), highest := ie_key (rs ! m),
                            sibling_ptr := sibling_addr\<rparr>\<rparr>,
           InternalPage_set_consistent (sibling\<lparr>
             ip_records := mem_copy 0 rs (m + 1) (cnt - m - 1) (ip_records sibling),
             ip_hdr := (ip_hdr sibling)\<lparr>last_index := last_index (ip_hdr sibling) + of_nat (cnt - m - 1),
               leftmost_ptr := ie_ptr (rs ! m), lowest := ie_key (rs ! m), highest := highest h,
               sibling_ptr := sibling_ptr h\<rparr>\<rparr>),
           split_key))))"

section \<open>What a leaf page stores\<close>

text \<open>
  A slot is in use when its value is not null.  \<open>slots_ok\<close> is what the tree relies on: slots in use
  have equal entry versions, distinct keys, and keys within the page's range.
\<close>

definition live :: "LeafEntry \<Rightarrow> bool" where
  "live r \<longleftrightarrow> le_value r \<noteq> kValueNull"

definition slot_pairs :: "LeafEntry list \<Rightarrow> (Key \<times> Value) list" where
  "slot_pairs rs = map (\<lambda>r. (le_key r, le_value r)) (filter live rs)"

definition slots_ok :: "Key \<Rightarrow> Key \<Rightarrow> LeafEntry list \<Rightarrow> bool" where
  "slots_ok lo hi rs \<longleftrightarrow> length rs = kLeafCardinality \<and>
     (\<forall>r \<in> set rs. live r \<longrightarrow> f_version r = r_version r \<and> lo \<le> le_key r \<and> le_key r < hi) \<and>
     distinct (map fst (slot_pairs rs))"

definition leaf_page_map :: "LeafPage \<Rightarrow> (Key \<rightharpoonup> Value)" where
  "leaf_page_map p = map_of (slot_pairs (lp_records p))"

definition leaf_page_wf :: "LeafPage \<Rightarrow> bool" where
  "leaf_page_wf p \<longleftrightarrow> slots_ok (lowest (lp_hdr p)) (highest (lp_hdr p)) (lp_records p) \<and>
     length (slot_pairs (lp_records p)) < kLeafCardinality \<and> leftmost_ptr (lp_hdr p) = Null \<and>
     hlevel (lp_hdr p) = 0 \<and> lowest (lp_hdr p) < highest (lp_hdr p) \<and> LeafPage_check_consistent p"

lemma slot_pairs_simps [simp]:
  "slot_pairs [] = []"
  "slot_pairs (r # rs) = (if live r then (le_key r, le_value r) # slot_pairs rs else slot_pairs rs)"
  "slot_pairs (rs @ rs') = slot_pairs rs @ slot_pairs rs'"
  by (simp_all add: slot_pairs_def)

lemma slot_pairs_iff: "(k, v) \<in> set (slot_pairs rs) \<longleftrightarrow> (\<exists>r \<in> set rs. live r \<and> le_key r = k \<and> le_value r = v)"
  by (auto simp: slot_pairs_def)

lemma slot_pairs_value: "(k, v) \<in> set (slot_pairs rs) \<Longrightarrow> v \<noteq> kValueNull"
  by (auto simp: slot_pairs_def live_def)

lemma slot_pairs_range:
  assumes "slots_ok lo hi rs" "(k, v) \<in> set (slot_pairs rs)"
  shows "lo \<le> k" "k < hi"
  using assms by (auto simp: slots_ok_def slot_pairs_iff)

lemma live_write_value [simp]: "live (write_value r v) \<longleftrightarrow> v \<noteq> kValueNull"
  "le_key (write_value r v) = le_key r" "le_value (write_value r v) = v"
  "f_version (write_value r v) = r_version (write_value r v)"
  by (simp_all add: live_def write_value_def)

text \<open>Putting a pair in the middle of an association list that lacks the key, and taking one out.\<close>

lemma map_of_put_middle: "k \<notin> fst ` set ps \<Longrightarrow> map_of (ps @ (k, v) # qs) = (map_of (ps @ qs))(k \<mapsto> v)"
  by (induction ps) (auto simp: fun_upd_twist)

lemma map_of_cut_middle:
  "k \<notin> fst ` set ps \<Longrightarrow> k \<notin> fst ` set qs \<Longrightarrow> map_of (ps @ qs) = (map_of (ps @ (k, v) # qs))(k := None)"
  by (induction ps) (auto simp: fun_upd_twist map_of_eq_None_iff fun_eq_iff)

section \<open>The leaf page as a map\<close>

lemma find_slot:
  assumes "\<forall>r \<in> set rs. live r \<longrightarrow> f_version r = r_version r"
  shows "map_option le_value (find (\<lambda>r. le_key r = k \<and> le_value r \<noteq> kValueNull \<and> f_version r = r_version r) rs)
    = map_of (slot_pairs rs) k"
  using assms by (induction rs) (auto simp: live_def)

text \<open>What \<open>search\<close> makes of the result: it starts from the zeroed \<open>SearchResult\<close>.\<close>

definition empty_result :: SearchResult where
  "empty_result = \<lparr>is_leaf = False, res_level = 0, slibing = Null, next_level = Null, res_val = 0\<rparr>"

definition leaf_lookup :: "LeafPage \<Rightarrow> Key \<Rightarrow> Value option" where
  "leaf_lookup p k = (let v = res_val (leaf_page_search p k empty_result) in if v = kValueNull then None else Some v)"

lemma leaf_page_search_val:
  assumes "slots_ok lo hi (lp_records p)" "res_val res = 0"
  shows "leaf_page_search p k res = res\<lparr>res_val := (case leaf_page_map p k of None \<Rightarrow> kValueNull | Some v \<Rightarrow> v)\<rparr>"
proof -
  have "map_option le_value (find (\<lambda>r. le_key r = k \<and> le_value r \<noteq> kValueNull \<and> f_version r = r_version r)
      (lp_records p)) = leaf_page_map p k"
    using assms(1) unfolding leaf_page_map_def by (intro find_slot) (auto simp: slots_ok_def)
  then show ?thesis
    using assms(2) unfolding leaf_page_search_def by (auto simp: kValueNull_def split: option.splits)
qed

lemma leaf_page_map_value: "leaf_page_map p k = Some v \<Longrightarrow> v \<noteq> kValueNull"
  unfolding leaf_page_map_def by (metis map_of_SomeD slot_pairs_value)

lemma leaf_lookup_map: "leaf_page_wf p \<Longrightarrow> leaf_lookup p k = leaf_page_map p k"
  unfolding leaf_lookup_def leaf_page_wf_def
  by (subst leaf_page_search_val) (auto simp: empty_result_def dest: leaf_page_map_value split: option.splits)

lemma store_loop_found:
  assumes "store_loop rs k i cnt e = (cnt', e', Some j)"
  shows "\<exists>xs r ys. rs = xs @ r # ys \<and> j = i + length xs \<and> live r \<and> le_key r = k \<and>
    cnt' \<le> cnt + length (slot_pairs rs)"
  using assms
proof (induction rs k i cnt e rule: store_loop.induct)
  case (2 r rs k i cnt e)
  show ?case
  proof (cases "live r \<and> le_key r = k")
    case True
    then show ?thesis using "2.prems" by (intro exI [of _ "[]"]) (auto simp: live_def)
  next
    case False
    then obtain xs r' ys where "rs = xs @ r' # ys" "j = Suc i + length xs" "live r'" "le_key r' = k"
        "cnt' \<le> cnt + length (slot_pairs (r # rs))"
      using 2 by (fastforce simp: live_def split: if_splits)
    then show ?thesis by (intro exI [of _ "r # xs"]) auto
  qed
qed simp

lemma store_loop_miss:
  assumes "store_loop rs k i cnt e = (cnt', e', None)"
  shows "cnt' = cnt + length (slot_pairs rs)" "k \<notin> fst ` set (slot_pairs rs)"
proof -
  have "cnt' = cnt + length (slot_pairs rs) \<and> k \<notin> fst ` set (slot_pairs rs)"
    using assms
  proof (induction rs arbitrary: i cnt e)
    case (Cons r rs)
    then show ?case
      using Cons.IH [of "Suc i" "Suc cnt" e] Cons.IH [of "Suc i" cnt "if e = None then Some i else e"]
      by (simp add: live_def split: if_splits)
  qed simp
  then show "cnt' = cnt + length (slot_pairs rs)" "k \<notin> fst ` set (slot_pairs rs)" by auto
qed

lemma store_loop_empty_kept: "store_loop rs k i cnt (Some e) = (cnt', e', found) \<Longrightarrow> e' = Some e"
  by (induction rs arbitrary: i cnt) (auto split: if_splits)

lemma store_loop_empty:
  assumes "store_loop rs k i cnt None = (cnt', e', None)" "length (slot_pairs rs) < length rs"
  shows "\<exists>xs r ys. rs = xs @ r # ys \<and> e' = Some (i + length xs) \<and> \<not> live r"
  using assms
proof (induction rs arbitrary: i cnt)
  case (Cons r rs)
  show ?case
  proof (cases "live r")
    case True
    then obtain xs r' ys where "rs = xs @ r' # ys" "e' = Some (Suc i + length xs)" "\<not> live r'"
      using Cons.IH [of "Suc i" "Suc cnt"] Cons.prems by (auto simp: live_def split: if_splits)
    then show ?thesis by (intro exI [of _ "r # xs"]) auto
  next
    case False
    then show ?thesis
      using Cons.prems by (intro exI [of _ "[]"]) (auto simp: live_def dest: store_loop_empty_kept)
  qed
qed simp

text \<open>Replacing one slot, seen on the association list.\<close>

lemma slots_ok_replace:
  assumes "slots_ok lo hi (xs @ r # ys)" "live r' \<Longrightarrow> f_version r' = r_version r' \<and> lo \<le> le_key r' \<and> le_key r' < hi"
    and "live r' \<Longrightarrow> le_key r' \<notin> fst ` set (slot_pairs (xs @ ys))"
  shows "slots_ok lo hi (xs @ r' # ys)"
  using assms unfolding slots_ok_def by (auto split: if_splits)

lemma leaf_store_entry_found:
  assumes ok: "slots_ok lo hi (lp_records p)" and room: "length (slot_pairs (lp_records p)) < kLeafCardinality"
    and k: "lo \<le> k" "k < hi" and v: "v \<noteq> kValueNull"
    and loop: "store_loop (lp_records p) k 0 0 None = (cnt, e, Some i)"
  shows "\<exists>p'. leaf_store_entry p k v = Inr (p', i, cnt) \<and> cnt < kLeafCardinality \<and> i < kLeafCardinality \<and>
    p' = p\<lparr>lp_records := (lp_records p)[i := lp_records p' ! i]\<rparr> \<and> slots_ok lo hi (lp_records p') \<and>
    length (slot_pairs (lp_records p')) = length (slot_pairs (lp_records p)) \<and>
    leaf_page_map p' = (leaf_page_map p)(k \<mapsto> v)"
proof -
  obtain xs r ys where rs: "lp_records p = xs @ r # ys" "i = length xs" "live r" "le_key r = k"
    and cnt: "cnt < kLeafCardinality"
    using store_loop_found [OF loop] room by auto
  have d: "k \<notin> fst ` set (slot_pairs xs)" "k \<notin> fst ` set (slot_pairs ys)"
    using ok rs(3,4) unfolding rs(1) slots_ok_def by (auto simp: image_iff)
  let ?p' = "p\<lparr>lp_records := xs @ write_value r v # ys\<rparr>"
  have "leaf_store_entry p k v = Inr (?p', i, cnt)"
    using loop cnt rs unfolding leaf_store_entry_def by simp
  moreover have "slots_ok lo hi (xs @ write_value r v # ys)"
    using ok d k rs(4) unfolding rs(1) by (rule_tac slots_ok_replace) auto
  moreover have "leaf_page_map ?p' = (leaf_page_map p)(k \<mapsto> v)"
    using d rs v by (simp add: leaf_page_map_def map_of_put_middle del: map_of_append)
  moreover have "i < kLeafCardinality" using ok rs by (simp add: slots_ok_def)
  ultimately show ?thesis using cnt rs v by (intro exI [of _ ?p']) simp
qed

lemma leaf_store_entry_new:
  assumes ok: "slots_ok lo hi (lp_records p)" and room: "length (slot_pairs (lp_records p)) < kLeafCardinality"
    and k: "lo \<le> k" "k < hi" and v: "v \<noteq> kValueNull"
    and loop: "store_loop (lp_records p) k 0 0 None = (cnt, e, None)"
  shows "\<exists>p' i. leaf_store_entry p k v = Inr (p', i, Suc cnt) \<and> i < kLeafCardinality \<and>
    p' = p\<lparr>lp_records := (lp_records p)[i := lp_records p' ! i]\<rparr> \<and> slots_ok lo hi (lp_records p') \<and>
    Suc cnt = length (slot_pairs (lp_records p')) \<and> cnt = length (slot_pairs (lp_records p)) \<and>
    leaf_page_map p' = (leaf_page_map p)(k \<mapsto> v) \<and> leaf_page_map p k = None"
proof -
  have len: "length (lp_records p) = kLeafCardinality" using ok by (simp add: slots_ok_def)
  obtain xs r ys where rs: "lp_records p = xs @ r # ys" "e = Some (length xs)" "\<not> live r"
    using store_loop_empty [OF loop] room len by auto
  have cnt: "cnt = length (slot_pairs (lp_records p))" and d: "k \<notin> fst ` set (slot_pairs (xs @ ys))"
    using store_loop_miss [OF loop] rs by auto
  let ?r = "write_value (r\<lparr>le_key := k\<rparr>) v" and ?i = "length xs"
  let ?p' = "p\<lparr>lp_records := xs @ ?r # ys\<rparr>"
  have "leaf_store_entry p k v = Inr (?p', ?i, Suc cnt)"
    using loop cnt room rs unfolding leaf_store_entry_def by simp
  moreover have "slots_ok lo hi (xs @ ?r # ys)"
    using ok d k unfolding rs(1) by (rule_tac slots_ok_replace) auto
  moreover have "leaf_page_map ?p' = (leaf_page_map p)(k \<mapsto> v)" "leaf_page_map p k = None"
    using d rs v map_of_put_middle [of k "slot_pairs xs" v "slot_pairs ys"]
    by (auto simp: leaf_page_map_def map_of_eq_None_iff image_Un simp del: map_of_append)
  ultimately show ?thesis using cnt rs v len by (intro exI [of _ ?p'] exI [of _ ?i]) simp
qed

text \<open>
  The store always succeeds on a page with a free slot, changes one slot and reports a full page by
  \<open>cnt = kLeafCardinality\<close>.
\<close>

lemma leaf_store_entry_correct:
  assumes ok: "slots_ok lo hi (lp_records p)" and room: "length (slot_pairs (lp_records p)) < kLeafCardinality"
    and k: "lo \<le> k" "k < hi" and v: "v \<noteq> kValueNull"
  obtains p' i cnt where "leaf_store_entry p k v = Inr (p', i, cnt)"
    "p' = p\<lparr>lp_records := (lp_records p)[i := lp_records p' ! i]\<rparr>" "i < kLeafCardinality"
    "slots_ok lo hi (lp_records p')" "leaf_page_map p' = (leaf_page_map p)(k \<mapsto> v)"
    "cnt = kLeafCardinality \<longleftrightarrow> length (slot_pairs (lp_records p')) = kLeafCardinality"
    "length (slot_pairs (lp_records p')) \<le> kLeafCardinality"
    "cnt = kLeafCardinality \<longleftrightarrow> leaf_page_map p k = None \<and> Suc (length (slot_pairs (lp_records p))) = kLeafCardinality"
proof -
  obtain cnt e f where loop: "store_loop (lp_records p) k 0 0 None = (cnt, e, f)" by (metis prod_cases3)
  show thesis
  proof (cases f)
    case None
    obtain p' i where p': "leaf_store_entry p k v = Inr (p', i, Suc cnt)" "i < kLeafCardinality"
        "p' = p\<lparr>lp_records := (lp_records p)[i := lp_records p' ! i]\<rparr>" "slots_ok lo hi (lp_records p')"
        "Suc cnt = length (slot_pairs (lp_records p'))" "cnt = length (slot_pairs (lp_records p))"
        "leaf_page_map p' = (leaf_page_map p)(k \<mapsto> v)" "leaf_page_map p k = None"
      using leaf_store_entry_new [OF ok room k v loop [unfolded None]] by blast
    show thesis using that [OF p'(1,3,2,4,7)] p'(5,6,8) room by (metis Suc_leI)
  next
    case (Some i)
    obtain p' where p': "leaf_store_entry p k v = Inr (p', i, cnt)" "cnt < kLeafCardinality" "i < kLeafCardinality"
        "p' = p\<lparr>lp_records := (lp_records p)[i := lp_records p' ! i]\<rparr>" "slots_ok lo hi (lp_records p')"
        "length (slot_pairs (lp_records p')) = length (slot_pairs (lp_records p))"
        "leaf_page_map p' = (leaf_page_map p)(k \<mapsto> v)"
      using leaf_store_entry_found [OF ok room k v loop [unfolded Some]] by blast
    have "leaf_page_map p k \<noteq> None"
      using store_loop_found [OF loop [unfolded Some]] unfolding leaf_page_map_def map_of_eq_None_iff by auto
    then show thesis using that [OF p'(1,4,3,5,7)] p'(2,6) room by simp
  qed
qed

section \<open>Deletion\<close>

lemma first_index_Some:
  "first_index P xs = Some i \<Longrightarrow> \<exists>ys x zs. xs = ys @ x # zs \<and> i = length ys \<and> P x"
proof (induction xs arbitrary: i)
  case (Cons x xs)
  then show ?case
  proof (cases "P x")
    case True
    then show ?thesis using Cons.prems by (intro exI [of _ "[]"]) auto
  next
    case False
    then obtain ys y zs where "xs = ys @ y # zs" "i = Suc (length ys)" "P y" using Cons by auto
    then show ?thesis by (intro exI [of _ "x # ys"]) auto
  qed
qed simp

lemma first_index_None: "first_index P xs = None \<longleftrightarrow> (\<forall>x \<in> set xs. \<not> P x)"
  by (induction xs) auto

lemma leaf_del_entry_correct:
  assumes "slots_ok lo hi (lp_records p)" "leaf_del_entry p k = (p', w)"
  shows "slots_ok lo hi (lp_records p') \<and> leaf_page_map p' = (leaf_page_map p)(k := None) \<and>
    length (slot_pairs (lp_records p')) \<le> length (slot_pairs (lp_records p)) \<and>
    (case w of None \<Rightarrow> p' = p
     | Some i \<Rightarrow> i < kLeafCardinality \<and> p' = p\<lparr>lp_records := (lp_records p)[i := lp_records p' ! i]\<rparr>)"
proof (cases "first_index (\<lambda>r. le_key r = k \<and> le_value r \<noteq> kValueNull) (lp_records p)")
  case None
  then have "leaf_page_map p k = None"
    by (force simp: leaf_page_map_def map_of_eq_None_iff slot_pairs_iff first_index_None live_def)
  then show ?thesis using assms None by (auto simp: leaf_del_entry_def fun_upd_idem)
next
  case (Some i)
  then obtain xs r ys where rs: "lp_records p = xs @ r # ys" "i = length xs" "live r" "le_key r = k"
    using first_index_Some [OF Some] by (auto simp: live_def)
  have p': "p' = p\<lparr>lp_records := xs @ write_value r kValueNull # ys\<rparr>" "w = Some i"
    using assms(2) Some rs by (auto simp: leaf_del_entry_def)
  have d: "k \<notin> fst ` set (slot_pairs xs)" "k \<notin> fst ` set (slot_pairs ys)"
    using assms(1) rs(3,4) unfolding rs(1) slots_ok_def by (auto simp: image_iff)
  have "slots_ok lo hi (xs @ write_value r kValueNull # ys)"
    using assms(1) unfolding rs(1) by (rule slots_ok_replace) auto
  moreover have "leaf_page_map p' = (leaf_page_map p)(k := None)"
    using map_of_cut_middle [OF d] rs by (simp add: p' leaf_page_map_def)
  ultimately show ?thesis using assms(1) p' rs by (simp add: slots_ok_def)
qed

section \<open>The contract of a leaf page\<close>

text \<open>
  A store is taken by the page itself when the key is in its range, the value is not null and the
  page does not become full; a full page is split.
\<close>

definition leaf_page_accepts :: "LeafPage \<Rightarrow> Key \<Rightarrow> Value \<Rightarrow> bool" where
  "leaf_page_accepts p k v \<longleftrightarrow> lowest (lp_hdr p) \<le> k \<and> k < highest (lp_hdr p) \<and> v \<noteq> kValueNull \<and>
     (case leaf_store_entry p k v of Inl e \<Rightarrow> False | Inr (p', i, cnt) \<Rightarrow> cnt \<noteq> kLeafCardinality)"

definition leaf_page_put :: "LeafPage \<Rightarrow> Key \<Rightarrow> Value \<Rightarrow> LeafPage" where
  "leaf_page_put p k v = (case leaf_store_entry p k v of Inl e \<Rightarrow> p | Inr (p', i, cnt) \<Rightarrow> p')"

definition leaf_page_remove :: "LeafPage \<Rightarrow> Key \<Rightarrow> LeafPage" where
  "leaf_page_remove p k = fst (leaf_del_entry p k)"

lemma leaf_page_wfD:
  assumes "leaf_page_wf p"
  shows "slots_ok (lowest (lp_hdr p)) (highest (lp_hdr p)) (lp_records p)"
    "length (slot_pairs (lp_records p)) < kLeafCardinality" "leftmost_ptr (lp_hdr p) = Null"
    "hlevel (lp_hdr p) = 0" "lowest (lp_hdr p) < highest (lp_hdr p)" "LeafPage_check_consistent p"
  using assms unfolding leaf_page_wf_def by blast+

lemma leaf_page_wf_records:
  assumes "leaf_page_wf p" "p' = p\<lparr>lp_records := rs\<rparr>"
    "slots_ok (lowest (lp_hdr p)) (highest (lp_hdr p)) rs" "length (slot_pairs rs) < kLeafCardinality"
  shows "leaf_page_wf p'"
  using assms unfolding leaf_page_wf_def LeafPage_check_consistent_def by simp

lemma leaf_page_put_correct:
  assumes "leaf_page_wf p" "leaf_page_accepts p k v"
  shows "leaf_page_wf (leaf_page_put p k v) \<and> leaf_page_map (leaf_page_put p k v) = (leaf_page_map p)(k \<mapsto> v)"
proof -
  have k: "lowest (lp_hdr p) \<le> k" "k < highest (lp_hdr p)" "v \<noteq> kValueNull"
    using assms(2) by (auto simp: leaf_page_accepts_def)
  obtain p' i cnt where p': "leaf_store_entry p k v = Inr (p', i, cnt)"
      "p' = p\<lparr>lp_records := (lp_records p)[i := lp_records p' ! i]\<rparr>"
      "slots_ok (lowest (lp_hdr p)) (highest (lp_hdr p)) (lp_records p')"
      "leaf_page_map p' = (leaf_page_map p)(k \<mapsto> v)"
      "cnt = kLeafCardinality \<longleftrightarrow> length (slot_pairs (lp_records p')) = kLeafCardinality"
      "length (slot_pairs (lp_records p')) \<le> kLeafCardinality"
    using leaf_store_entry_correct [OF leaf_page_wfD(1,2) [OF assms(1)] k] by metis
  have "length (slot_pairs (lp_records p')) < kLeafCardinality"
    using assms(2) p'(1,5,6) by (simp add: leaf_page_accepts_def)
  moreover have "p' = p\<lparr>lp_records := lp_records p'\<rparr>"
    using p'(2) by (metis LeafPage.select_convs(3) LeafPage.surjective LeafPage.update_convs(3))
  ultimately have "leaf_page_wf p'" using p'(3) by (intro leaf_page_wf_records [OF assms(1)])
  then show ?thesis using p'(1,4) by (simp add: leaf_page_put_def)
qed

lemma leaf_page_remove_correct:
  assumes "leaf_page_wf p"
  shows "leaf_page_wf (leaf_page_remove p k) \<and> leaf_page_map (leaf_page_remove p k) = (leaf_page_map p)(k := None)"
proof -
  obtain p' w where d: "leaf_del_entry p k = (p', w)" by (metis surj_pair)
  note c = leaf_del_entry_correct [OF leaf_page_wfD(1) [OF assms] d]
  have "p' = p\<lparr>lp_records := lp_records p'\<rparr>"
    using d by (auto simp: leaf_del_entry_def Let_def split: option.splits)
  then have "leaf_page_wf p'"
    using c leaf_page_wfD(2) [OF assms] leaf_page_wf_records [OF assms, of p' "lp_records p'"] by linarith
  then show ?thesis using c d by (simp add: leaf_page_remove_def)
qed

interpretation sherman_leaf: kv_store leaf_page_wf leaf_page_map leaf_lookup leaf_page_accepts leaf_page_put leaf_page_remove
  by unfold_locales (simp_all add: leaf_lookup_map leaf_page_put_correct leaf_page_remove_correct)

section \<open>Splitting a leaf page\<close>

lemma map2_moved:
  "length ss = length rs \<Longrightarrow> (\<forall>s \<in> set ss. s = LeafEntry_new) \<Longrightarrow>
   map2 (\<lambda>s r. s\<lparr>le_key := le_key r, le_value := le_value r\<rparr>) ss rs =
   map (\<lambda>r. LeafEntry_new\<lparr>le_key := le_key r, le_value := le_value r\<rparr>) rs"
  by (induction ss rs rule: list_induct2) auto

lemma LeafPage_new_records [simp]: "lp_records (LeafPage_new lv) = replicate kLeafCardinality LeafEntry_new"
  "lp_hdr (LeafPage_new lv) = Header_new lv"
  by (simp_all add: LeafPage_new_def LeafEntry_new_def list_update_same_conv
      list_eq_iff_nth_eq nth_list_update del: kLeafCardinality_val)

lemma slot_pairs_dead: "\<forall>r \<in> set rs. \<not> live r \<Longrightarrow> slot_pairs rs = []"
  by (simp add: slot_pairs_def)

lemma slot_pairs_moved:
  "\<forall>r \<in> set rs. live r \<Longrightarrow>
   slot_pairs (map (\<lambda>r. LeafEntry_new\<lparr>le_key := le_key r, le_value := le_value r\<rparr>) rs) = slot_pairs rs"
  by (induction rs) (auto simp: live_def)

lemma LeafPage_set_consistent_simps [simp]:
  "lp_records (LeafPage_set_consistent p) = lp_records p" "lp_hdr (LeafPage_set_consistent p) = lp_hdr p"
  "LeafPage_check_consistent (LeafPage_set_consistent p)" "leaf_page_map (LeafPage_set_consistent p) = leaf_page_map p"
  by (simp_all add: LeafPage_set_consistent_def LeafPage_check_consistent_def leaf_page_map_def Let_def)

lemma dead_new_entry [simp]: "\<not> live LeafEntry_new"
  by (simp add: live_def LeafEntry_new_def)

lemma new_leaf_page_wf: "leaf_page_wf (LeafPage_set_consistent (LeafPage_new 0))"
proof -
  have "slot_pairs (replicate kLeafCardinality LeafEntry_new) = []" by (intro slot_pairs_dead) auto
  moreover have "(0::Key) < - 1" by (simp add: word_gt_0)
  ultimately show ?thesis by (simp add: leaf_page_wf_def slots_ok_def Header_new_def kKeyMin_def kKeyMax_def)
qed

text \<open>A full page: every slot is in use, and sorting it keeps the pairs.\<close>

lemma all_live: "length (slot_pairs rs) = length rs \<Longrightarrow> r \<in> set rs \<Longrightarrow> live r"
  unfolding slot_pairs_def length_map by (metis filter_True length_filter_less nat_neq_iff)

lemma full_slot_pairs: "\<forall>r \<in> set rs. live r \<Longrightarrow> slot_pairs rs = map (\<lambda>r. (le_key r, le_value r)) rs"
  by (simp add: slot_pairs_def)

lemma sort_full_page:
  assumes "slots_ok lo hi rs" "length (slot_pairs rs) = kLeafCardinality"
  shows "\<forall>r \<in> set (sort_key le_key rs). live r \<and> lo \<le> le_key r \<and> le_key r < hi \<and> f_version r = r_version r"
    "sorted_keys (slot_pairs (sort_key le_key rs))"
    "map_of (slot_pairs (sort_key le_key rs)) = map_of (slot_pairs rs)"
proof -
  have len: "length rs = kLeafCardinality" using assms(1) by (simp add: slots_ok_def)
  have l: "\<forall>r \<in> set rs. live r" using all_live [of rs] assms(2) len by simp
  show "\<forall>r \<in> set (sort_key le_key rs). live r \<and> lo \<le> le_key r \<and> le_key r < hi \<and> f_version r = r_version r"
    using l assms(1) by (simp add: slots_ok_def)
  have fp: "slot_pairs (sort_key le_key rs) = map (\<lambda>r. (le_key r, le_value r)) (sort_key le_key rs)"
    "slot_pairs rs = map (\<lambda>r. (le_key r, le_value r)) rs"
    using l by (simp_all add: full_slot_pairs)
  have "distinct (map le_key rs)" using assms(1) unfolding slots_ok_def fp(2) by (simp add: comp_def)
  then have d: "distinct (map le_key (sort_key le_key rs))" by (simp add: distinct_map)
  then show "sorted_keys (slot_pairs (sort_key le_key rs))"
    unfolding fp(1) by (simp add: comp_def strict_sorted_iff)
  show "map_of (slot_pairs (sort_key le_key rs)) = map_of (slot_pairs rs)"
  proof (rule map_of_eqI)
    show "set (map fst (slot_pairs (sort_key le_key rs))) = set (map fst (slot_pairs rs))"
      unfolding fp by simp
    show "\<forall>k \<in> set (map fst (slot_pairs (sort_key le_key rs))).
        map_of (slot_pairs (sort_key le_key rs)) k = map_of (slot_pairs rs) k"
    proof
      fix k assume "k \<in> set (map fst (slot_pairs (sort_key le_key rs)))"
      then obtain v where v: "(k, v) \<in> set (slot_pairs (sort_key le_key rs))" by auto
      then have "(k, v) \<in> set (slot_pairs rs)" unfolding fp by auto
      moreover have "distinct (map fst (slot_pairs rs))" using assms(1) by (simp add: slots_ok_def)
      ultimately have "map_of (slot_pairs rs) k = Some v" by simp
      moreover have "map_of (slot_pairs (sort_key le_key rs)) k = Some v"
        using v d unfolding fp by (simp add: comp_def map_of_is_SomeI)
      ultimately show "map_of (slot_pairs (sort_key le_key rs)) k = map_of (slot_pairs rs) k" by simp
    qed
  qed
qed

lemma leaf_split_page_full:
  assumes "length (lp_records p) = kLeafCardinality"
  defines "S \<equiv> sort_key le_key (lp_records p)"
  assumes "lowest (lp_hdr p) < le_key (S ! 27)" "le_key (S ! 27) < highest (lp_hdr p)"
  shows "\<exists>p' s. leaf_split_page p kLeafCardinality a = Inr (p', s, le_key (S ! 27)) \<and>
    lp_records p' = take 27 S @ map (\<lambda>r. r\<lparr>le_key := 0, le_value := kValueNull\<rparr>) (drop 27 S) \<and>
    lp_records s = map (\<lambda>r. LeafEntry_new\<lparr>le_key := le_key r, le_value := le_value r\<rparr>) (drop 27 S) @
      replicate 27 LeafEntry_new \<and>
    lp_hdr p' = (lp_hdr p)\<lparr>last_index := last_index (lp_hdr p) - 27, highest := le_key (S ! 27), sibling_ptr := a\<rparr> \<and>
    lp_hdr s = (Header_new (hlevel (lp_hdr p)))\<lparr>last_index := 26, lowest := le_key (S ! 27),
      highest := highest (lp_hdr p), sibling_ptr := sibling_ptr (lp_hdr p)\<rparr> \<and>
    LeafPage_check_consistent p' \<and> LeafPage_check_consistent s"
proof -
  have "length S = 54" using assms(1) by (simp add: S_def)
  moreover from this have "map2 (\<lambda>s r. s\<lparr>le_key := le_key r, le_value := le_value r\<rparr>)
      (take 27 (replicate 54 LeafEntry_new)) (drop 27 S) =
      map (\<lambda>r. LeafEntry_new\<lparr>le_key := le_key r, le_value := le_value r\<rparr>) (drop 27 S)"
    by (intro map2_moved) auto
  ultimately show ?thesis
    using assms(3,4) unfolding leaf_split_page_def Let_def S_def [symmetric]
    by (simp add: Header_new_def)
qed

lemma slot_pairs_split:
  assumes "\<forall>r \<in> set rs. live r"
  shows "slot_pairs (take m rs) = take m (slot_pairs rs)" "slot_pairs (drop m rs) = drop m (slot_pairs rs)"
proof -
  have "\<forall>r \<in> set (take m rs). live r" "\<forall>r \<in> set (drop m rs). live r"
    using assms by (auto dest: in_set_takeD in_set_dropD)
  then show "slot_pairs (take m rs) = take m (slot_pairs rs)" "slot_pairs (drop m rs) = drop m (slot_pairs rs)"
    using assms by (simp_all add: full_slot_pairs take_map drop_map)
qed

text \<open>A strictly sorted association list cut at position \<open>m\<close> is cut by the key there.\<close>

lemma sorted_keys_cut:
  assumes "sorted_keys ps" "m < length ps"
  shows "x \<in> set (take m ps) \<Longrightarrow> fst x < fst (ps ! m)" "x \<in> set (drop m ps) \<Longrightarrow> fst (ps ! m) \<le> fst x"
proof -
  have n: "fst (ps ! i) < fst (ps ! j)" if "i < j" "j < length ps" for i j
    using sorted_wrt_nth_less [OF assms(1), of i j] that by simp
  show "fst x < fst (ps ! m)" if "x \<in> set (take m ps)"
    using that n [of _ m] assms(2) by (auto simp: in_set_conv_nth)
  show "fst (ps ! m) \<le> fst x" if x: "x \<in> set (drop m ps)"
  proof -
    obtain j where "x = ps ! (m + j)" "m + j < length ps" using x assms(2) by (auto simp: in_set_conv_nth)
    then show ?thesis using n [of m "m + j"] by (cases "j = 0") auto
  qed
qed

lemma map_of_cut:
  assumes "sorted_keys ps" "m < length ps"
  shows "map_of (take m ps) k = (if k < fst (ps ! m) then map_of ps k else None)"
    "map_of (drop m ps) k = (if fst (ps ! m) \<le> k then map_of ps k else None)"
proof -
  have t: "map_of (take m ps) k = None" if "\<not> k < fst (ps ! m)"
    using sorted_keys_cut(1) [OF assms] that unfolding map_of_eq_None_iff by auto
  have d: "map_of (drop m ps) k = None" if "k < fst (ps ! m)"
    using sorted_keys_cut(2) [OF assms] that unfolding map_of_eq_None_iff by force
  have "map_of ps = map_of (drop m ps) ++ map_of (take m ps)" by (metis append_take_drop_id map_of_append)
  then show "map_of (take m ps) k = (if k < fst (ps ! m) then map_of ps k else None)"
    "map_of (drop m ps) k = (if fst (ps ! m) \<le> k then map_of ps k else None)"
    using t d by (auto simp: map_add_def split: option.splits)
qed

lemma full_page_key:
  assumes ok: "slots_ok lo hi rs" and full: "length (slot_pairs rs) = kLeafCardinality"
  defines "S \<equiv> sort_key le_key rs"
  shows "length S = 54" "\<forall>r \<in> set S. live r" "length (slot_pairs S) = 54" "sorted_keys (slot_pairs S)"
    "fst (slot_pairs S ! 27) = le_key (S ! 27)" "lo < le_key (S ! 27)" "le_key (S ! 27) < hi"
    "slot_pairs S = map (\<lambda>r. (le_key r, le_value r)) S"
proof -
  note srt = sort_full_page [OF ok full, folded S_def]
  show S54: "length S = 54" using ok by (simp add: S_def slots_ok_def)
  show live: "\<forall>r \<in> set S. live r" using srt(1) by auto
  show ps: "slot_pairs S = map (\<lambda>r. (le_key r, le_value r)) S" by (rule full_slot_pairs [OF live])
  show len: "length (slot_pairs S) = 54" and sorted: "sorted_keys (slot_pairs S)"
    and key: "fst (slot_pairs S ! 27) = le_key (S ! 27)"
    using S54 srt(2) by (simp_all add: ps)
  have "fst (slot_pairs S ! 0) < le_key (S ! 27)" using sorted_wrt_nth_less [OF sorted, of 0 27] len key by simp
  moreover have "S ! 0 \<in> set S" "S ! 27 \<in> set S" "fst (slot_pairs S ! 0) = le_key (S ! 0)"
    using S54 by (auto simp: ps)
  ultimately show "lo < le_key (S ! 27)" "le_key (S ! 27) < hi" using srt(1) by (metis order.strict_trans1)+
qed

lemma leaf_split_page_correct:
  assumes ok: "slots_ok (lowest (lp_hdr p)) (highest (lp_hdr p)) (lp_records p)"
    and full: "length (slot_pairs (lp_records p)) = kLeafCardinality"
    and lv: "leftmost_ptr (lp_hdr p) = Null" "hlevel (lp_hdr p) = 0"
  obtains p' s key where "leaf_split_page p kLeafCardinality a = Inr (p', s, key)"
    "lowest (lp_hdr p) < key" "key < highest (lp_hdr p)" "leaf_page_wf p'" "leaf_page_wf s"
    "lowest (lp_hdr p') = lowest (lp_hdr p)" "highest (lp_hdr p') = key" "sibling_ptr (lp_hdr p') = a"
    "lowest (lp_hdr s) = key" "highest (lp_hdr s) = highest (lp_hdr p)" "sibling_ptr (lp_hdr s) = sibling_ptr (lp_hdr p)"
    "leaf_page_map p' = (\<lambda>k. if k < key then leaf_page_map p k else None)"
    "leaf_page_map s = (\<lambda>k. if key \<le> k then leaf_page_map p k else None)"
proof -
  define S where "S = sort_key le_key (lp_records p)"
  define key where "key = le_key (S ! 27)"
  define ps where "ps = slot_pairs S"
  have len: "length (lp_records p) = kLeafCardinality" using ok by (simp add: slots_ok_def)
  note srt = sort_full_page [OF ok full, folded S_def] and fk = full_page_key [OF ok full, folded S_def, folded ps_def key_def]
  note S54 = fk(1) and live = fk(2) and ps = fk(8,3,4) and key = fk(5) and rng = fk(6,7)
  obtain p' s where sp: "leaf_split_page p kLeafCardinality a = Inr (p', s, key)"
    and p': "lp_records p' = take 27 S @ map (\<lambda>r. r\<lparr>le_key := 0, le_value := kValueNull\<rparr>) (drop 27 S)"
    and s: "lp_records s = map (\<lambda>r. LeafEntry_new\<lparr>le_key := le_key r, le_value := le_value r\<rparr>) (drop 27 S) @
      replicate 27 LeafEntry_new"
    and h: "lp_hdr p' = (lp_hdr p)\<lparr>last_index := last_index (lp_hdr p) - 27, highest := key, sibling_ptr := a\<rparr>"
      "lp_hdr s = (Header_new (hlevel (lp_hdr p)))\<lparr>last_index := 26, lowest := key,
        highest := highest (lp_hdr p), sibling_ptr := sibling_ptr (lp_hdr p)\<rparr>"
    and c: "LeafPage_check_consistent p'" "LeafPage_check_consistent s"
    using leaf_split_page_full [OF len, of a, folded S_def] rng unfolding key_def by blast
  have "slot_pairs (map (\<lambda>r. r\<lparr>le_key := 0, le_value := kValueNull\<rparr>) (drop 27 S)) = []"
    by (rule slot_pairs_dead) (auto simp: live_def)
  moreover have "slot_pairs (replicate 27 LeafEntry_new) = []" by (rule slot_pairs_dead) auto
  moreover have "\<forall>r \<in> set (drop 27 S). live r" using live by (auto dest: in_set_dropD)
  ultimately have sl: "slot_pairs (lp_records p') = take 27 ps" "slot_pairs (lp_records s) = drop 27 ps"
    using slot_pairs_split [OF live, of 27] by (simp_all add: p' s slot_pairs_moved ps_def)
  note cut = sorted_keys_cut [OF ps(3), of 27, unfolded key] and mc = map_of_cut [OF ps(3), of 27, unfolded key]
  have mp: "map_of ps = leaf_page_map p" using srt(3) by (simp add: ps_def leaf_page_map_def)
  have dist: "distinct (map fst (take 27 ps))" "distinct (map fst (drop 27 ps))"
    using sorted_keys_distinct [OF ps(3)] by (simp_all flip: take_map drop_map)
  have okp: "slots_ok (lowest (lp_hdr p)) key (lp_records p')"
  proof -
    have "le_key r < key" if "r \<in> set (take 27 S)" for r
      using cut(1) [of "(le_key r, le_value r)"] that ps(2) by (auto simp: ps(1) take_map)
    then show ?thesis
      using srt(1) S54 dist(1) sl(1) unfolding slots_ok_def p' by (auto simp: live_def dest: in_set_takeD)
  qed
  have oks: "slots_ok key (highest (lp_hdr p)) (lp_records s)"
  proof -
    have "key \<le> le_key r" if "r \<in> set (drop 27 S)" for r
      using cut(2) [of "(le_key r, le_value r)"] that ps(2) by (auto simp: ps(1) drop_map)
    then show ?thesis
      using srt(1) S54 dist(2) sl(2) unfolding slots_ok_def s
      by (auto simp: live_def LeafEntry_new_def dest: in_set_dropD)
  qed
  have wf: "leaf_page_wf p'" "leaf_page_wf s"
    using okp oks sl ps(2) rng lv c h unfolding leaf_page_wf_def by (simp_all add: Header_new_def)
  show thesis
    using that [OF sp rng wf] h mc ps(2) by (simp add: leaf_page_map_def sl mp fun_eq_iff)
qed

section \<open>What an internal page stores\<close>

text \<open>
  The separators in use and, with the lower bound of the page, the children: each child with the
  smallest key it is responsible for.
\<close>

definition seps_of :: "InternalPage \<Rightarrow> (Key \<times> GlobalAddress) list" where
  "seps_of p = map (\<lambda>r. (ie_key r, ie_ptr r)) (take (nat (hdr_cnt (ip_hdr p))) (ip_records p))"

definition children_of :: "InternalPage \<Rightarrow> (Key \<times> GlobalAddress) list" where
  "children_of p = (lowest (ip_hdr p), leftmost_ptr (ip_hdr p)) # seps_of p"

text \<open>\<open>n\<close> is the number of separators allowed: one more than between operations just before a split.\<close>

definition internal_ok :: "nat \<Rightarrow> InternalPage \<Rightarrow> bool" where
  "internal_ok n p \<longleftrightarrow> length (ip_records p) = kInternalCardinality \<and> 1 \<le> hdr_cnt (ip_hdr p) \<and>
     hdr_cnt (ip_hdr p) \<le> int n \<and> sorted_keys (seps_of p) \<and>
     (\<forall>x \<in> set (seps_of p). lowest (ip_hdr p) < fst x \<and> fst x < highest (ip_hdr p)) \<and>
     leftmost_ptr (ip_hdr p) \<noteq> Null \<and> hlevel (ip_hdr p) \<noteq> 0 \<and> InternalPage_check_consistent p"

abbreviation internal_page_wf :: "InternalPage \<Rightarrow> bool" where
  "internal_page_wf \<equiv> internal_ok (kInternalCardinality - 1)"

lemma internal_okD:
  assumes "internal_ok n p"
  shows "length (ip_records p) = kInternalCardinality" "1 \<le> hdr_cnt (ip_hdr p)" "hdr_cnt (ip_hdr p) \<le> int n"
    "sorted_keys (seps_of p)" "x \<in> set (seps_of p) \<Longrightarrow> lowest (ip_hdr p) < fst x"
    "x \<in> set (seps_of p) \<Longrightarrow> fst x < highest (ip_hdr p)" "leftmost_ptr (ip_hdr p) \<noteq> Null"
    "hlevel (ip_hdr p) \<noteq> 0" "InternalPage_check_consistent p"
  using assms unfolding internal_ok_def by blast+

lemma length_seps_of:
  assumes "internal_ok n p" "n \<le> kInternalCardinality"
  shows "length (seps_of p) = nat (hdr_cnt (ip_hdr p))"
  using internal_okD(1-3) [OF assms(1)] assms(2) by (simp add: seps_of_def)

lemma nth_seps_of:
  assumes "internal_ok n p" "n \<le> kInternalCardinality" "i < nat (hdr_cnt (ip_hdr p))"
  shows "seps_of p ! i = (ie_key (ip_records p ! i), ie_ptr (ip_records p ! i))"
  using length_seps_of [OF assms(1,2)] assms(3) by (simp add: seps_of_def)

lemma seps_less:
  assumes "internal_ok n p" "i < j" "j < length (seps_of p)"
  shows "fst (seps_of p ! i) < fst (seps_of p ! j)"
  using sorted_wrt_nth_less [OF internal_okD(4) [OF assms(1)], of i j] assms(2,3) by simp

text \<open>\<open>int16_t\<close> arithmetic on \<open>last_index\<close> in the range pages use.\<close>

lemma hdr_cnt_add:
  assumes "- 1000 \<le> hdr_cnt h + d" "hdr_cnt h + d \<le> 1000" "- 1000 \<le> d" "d \<le> 1000"
  shows "hdr_cnt (h\<lparr>last_index := last_index h + word_of_int d\<rparr>) = hdr_cnt h + d"
proof -
  have "sint (word_of_int d :: u16) = d" using assms(3,4) by (simp add: signed_of_int signed_take_bit_int_eq_self)
  then show ?thesis
    using assms by (simp add: hdr_cnt_def sint_word_ariths signed_take_bit_int_eq_self)
qed

lemma hdr_cnt_simps [simp]:
  "hdr_cnt (h\<lparr>leftmost_ptr := a\<rparr>) = hdr_cnt h" "hdr_cnt (h\<lparr>sibling_ptr := a\<rparr>) = hdr_cnt h"
  "hdr_cnt (h\<lparr>lowest := x\<rparr>) = hdr_cnt h" "hdr_cnt (h\<lparr>highest := x\<rparr>) = hdr_cnt h"
  "hdr_cnt (Header_new lv) = 0"
  by (simp_all add: hdr_cnt_def Header_new_def)

section \<open>Searching an internal page\<close>

text \<open>The child whose interval of separators contains the key.\<close>

definition routes :: "InternalPage \<Rightarrow> Key \<Rightarrow> GlobalAddress \<Rightarrow> bool" where
  "routes p k a \<longleftrightarrow> (\<exists>i < length (children_of p). snd (children_of p ! i) = a \<and> fst (children_of p ! i) \<le> k \<and>
     (\<forall>j. i < j \<and> j < length (children_of p) \<longrightarrow> k < fst (children_of p ! j)))"

lemma find_upt_Some:
  assumes "find P [m..<n] = Some i"
  shows "m \<le> i" "i < n" "P i" "m \<le> j \<Longrightarrow> j < i \<Longrightarrow> \<not> P j"
proof -
  obtain q where q: "q < n - m" "P (m + q)" "i = m + q" "\<forall>j < q. \<not> P ([m..<n] ! j)"
    using assms by (auto simp: find_Some_iff)
  show "m \<le> i" "i < n" "P i" using q by auto
  show "\<not> P j" if "m \<le> j" "j < i"
    using q(4) [rule_format, of "j - m"] q(1,3) that by simp
qed

lemma find_upt_None: "find P [m..<n] = None \<Longrightarrow> m \<le> j \<Longrightarrow> j < n \<Longrightarrow> \<not> P j"
  by (simp add: find_None_iff)

lemma internal_page_search_correct:
  assumes ok: "internal_ok n p" "n \<le> kInternalCardinality"
    and k: "lowest (ip_hdr p) \<le> k" "k < highest (ip_hdr p)"
  shows "\<exists>a. internal_page_search p k res = Inr (res\<lparr>next_level := a\<rparr>) \<and> routes p k a"
proof -
  define c where "c = nat (hdr_cnt (ip_hdr p))"
  let ?S = "seps_of p"
  have c: "1 \<le> c" "c \<le> 61" "length ?S = c" "hdr_cnt (ip_hdr p) = int c" "length (children_of p) = Suc c"
    using internal_okD(2,3) [OF ok(1)] length_seps_of [OF ok] ok(2) by (auto simp: c_def children_of_def)
  have nth: "?S ! i = (ie_key (ip_records p ! i), ie_ptr (ip_records p ! i))" if "i < c" for i
    using nth_seps_of [OF ok] that by (simp add: c_def)
  have up: "k < fst (?S ! j)" if "k < fst (?S ! i)" "i \<le> j" "j < c" for i j
    using seps_less [OF ok(1), of i j] that c(3) by (cases "i = j") auto
  have route: "routes p k (snd (?S ! (i - 1)))"
    if "1 \<le> i" "i \<le> c" "fst (?S ! (i - 1)) \<le> k" "i < c \<Longrightarrow> k < fst (?S ! i)" for i
    unfolding routes_def using that c up [of i]
    by (intro exI [of _ i]) (auto simp: children_of_def nth_Cons' Suc_le_eq)
  have bounds: "\<not> nat (hdr_cnt (ip_hdr p)) > length (ip_records p)"
    using internal_okD(1) [OF ok(1)] c by simp
  show ?thesis
  proof (cases "k < ie_key (ip_records p ! 0)")
    case True
    then have "routes p k (leftmost_ptr (ip_hdr p))"
      unfolding routes_def using up [of 0] c nth [of 0] k(1)
      by (intro exI [of _ 0]) (auto simp: children_of_def nth_Cons')
    then show ?thesis using True k bounds by (auto simp: internal_page_search_def Let_def)
  next
    case False
    show ?thesis
    proof (cases "find (\<lambda>i. k < ie_key (ip_records p ! i)) [1..<c]")
      case None
      have "\<not> k < fst (?S ! (c - 1))"
        using find_upt_None [OF None, of "c - 1"] False nth [of "c - 1"] c(1) by (cases "c = 1") auto
      then show ?thesis
        using route [of c] None False k bounds c nth [of "c - 1"]
        by (auto simp: internal_page_search_def Let_def nat_diff_distrib)
    next
      case (Some i)
      note f = find_upt_Some [OF Some]
      have "\<not> k < fst (?S ! (i - 1))"
        using f(4) [of "i - 1"] f(1,2) False nth [of "i - 1"] by (cases "i = 1") auto
      then show ?thesis
        using route [of i] Some False k bounds c nth [of "i - 1"] nth [of i] f(1-3)
        by (auto simp: internal_page_search_def Let_def)
    qed
  qed
qed

section \<open>Storing a separator\<close>

lemma separator_loop_found: "separator_loop rs k n = (Some i, q) \<Longrightarrow> i < n \<and> ie_key (rs ! i) = k"
  by (induction n) (auto split: if_splits)

lemma separator_loop_miss:
  assumes "separator_loop rs k n = (None, q)" "\<And>i j. i < j \<Longrightarrow> j < n \<Longrightarrow> ie_key (rs ! i) < ie_key (rs ! j)"
  shows "q \<le> n \<and> (\<forall>j < q. ie_key (rs ! j) < k) \<and> (\<forall>j. q \<le> j \<and> j < n \<longrightarrow> k < ie_key (rs ! j))"
  using assms
proof (induction n)
  case (Suc n)
  show ?case
  proof (cases "ie_key (rs ! n) < k")
    case True
    then have "q = Suc n" using Suc.prems(1) by (auto split: if_splits)
    moreover have "ie_key (rs ! j) < k" if "j < Suc n" for j
      using True Suc.prems(2) [of j n] that by (cases "j = n") (auto intro: order.strict_trans)
    ultimately show ?thesis by auto
  next
    case False
    then have "k < ie_key (rs ! n)" "separator_loop rs k n = (None, q)"
      using Suc.prems(1) by (auto split: if_splits)
    then show ?thesis using Suc.IH Suc.prems(2) by (auto simp: less_Suc_eq)
  qed
qed simp

lemma shift_loop_nth:
  "n < length rs \<Longrightarrow> length (shift_loop rs q n) = length rs \<and>
   (\<forall>j < length rs. shift_loop rs q n ! j = (if q < j \<and> j \<le> n then rs ! (j - 1) else rs ! j))"
proof (induction n arbitrary: rs)
  case (Suc n)
  show ?case
  proof (cases "Suc n > q")
    case True
    then show ?thesis
      using Suc.IH [of "rs[Suc n := rs ! n]"] Suc.prems by (auto simp: nth_list_update less_Suc_eq le_Suc_eq)
  next
    case False
    then show ?thesis by (auto simp: not_less)
  qed
qed simp

lemma shift_loop_mem_copy:
  assumes "q \<le> n" "n < length rs"
  shows "shift_loop rs q n = mem_copy (Suc q) rs q (n - q) rs"
proof (rule nth_equalityI)
  show "length (shift_loop rs q n) = length (mem_copy (Suc q) rs q (n - q) rs)"
    using shift_loop_nth [of n rs q] assms by simp
  fix j assume "j < length (shift_loop rs q n)"
  then have j: "j < length rs" using shift_loop_nth [of n rs q] assms by simp
  have "(q < j \<and> j \<le> n) \<longleftrightarrow> \<not> j < Suc q \<and> j < Suc q + (n - q)" using assms(1) by auto
  moreover have "q < j \<Longrightarrow> q + (j - Suc q) = j - 1" by simp
  ultimately show "shift_loop rs q n ! j = mem_copy (Suc q) rs q (n - q) rs ! j"
    using shift_loop_nth [of n rs q] assms j by (auto simp: nth_mem_copy)
qed

lemma internal_ok_update:
  assumes ok: "internal_ok n p" and hdr: "ip_hdr p' = (ip_hdr p)\<lparr>last_index := li\<rparr>"
    and ver: "ip_front_version p' = ip_front_version p" "ip_rear_version p' = ip_rear_version p"
    and "length (ip_records p') = kInternalCardinality" "1 \<le> hdr_cnt (ip_hdr p')" "hdr_cnt (ip_hdr p') \<le> int m"
    and "sorted_keys (seps_of p')" and mo: "map_of (seps_of p') = (map_of (seps_of p))(k \<mapsto> v)"
    and k: "lowest (ip_hdr p) < k" "k < highest (ip_hdr p)"
  shows "internal_ok m p'"
proof -
  note D = internal_okD [OF ok]
  have "lowest (ip_hdr p) < fst x \<and> fst x < highest (ip_hdr p)" if x: "x \<in> set (seps_of p')" for x
  proof -
    have "fst ` set (seps_of p') = insert k (fst ` set (seps_of p))"
      using arg_cong [OF mo, of dom] by (simp add: dom_map_of_conv_image_fst)
    then have "fst x = k \<or> fst x \<in> fst ` set (seps_of p)" using x by auto
    then show ?thesis using D(5,6) k by auto
  qed
  then show ?thesis
    using assms(5-8) D(7-9) unfolding internal_ok_def InternalPage_check_consistent_def ver hdr by simp
qed

lemma seps_facts:
  assumes "internal_ok n p" "n \<le> kInternalCardinality"
  shows "hdr_cnt (ip_hdr p) = int (length (seps_of p))" "1 \<le> length (seps_of p)" "length (seps_of p) \<le> n"
    "length (ip_records p) = 61" "seps_of p = map (\<lambda>r. (ie_key r, ie_ptr r)) (take (length (seps_of p)) (ip_records p))"
    "i < j \<Longrightarrow> j < length (seps_of p) \<Longrightarrow> ie_key (ip_records p ! i) < ie_key (ip_records p ! j)"
proof -
  have len: "length (seps_of p) = nat (hdr_cnt (ip_hdr p))" by (rule length_seps_of [OF assms])
  show "hdr_cnt (ip_hdr p) = int (length (seps_of p))" "1 \<le> length (seps_of p)" "length (seps_of p) \<le> n"
    "length (ip_records p) = 61"
    using internal_okD(1-3) [OF assms(1)] len by auto
  show "seps_of p = map (\<lambda>r. (ie_key r, ie_ptr r)) (take (length (seps_of p)) (ip_records p))"
    unfolding len by (rule seps_of_def)
  show "ie_key (ip_records p ! i) < ie_key (ip_records p ! j)" if "i < j" "j < length (seps_of p)"
    using seps_less [OF assms(1) that] nth_seps_of [OF assms] that by (simp add: len)
qed

lemma seps_keys:
  assumes "internal_ok n p" "n \<le> kInternalCardinality" "i < length (seps_of p)"
  shows "fst (seps_of p ! i) = ie_key (ip_records p ! i)" "snd (seps_of p ! i) = ie_ptr (ip_records p ! i)"
  using nth_seps_of [OF assms(1,2), of i] assms(3) seps_facts(1) [OF assms(1,2)] by auto

lemma internal_store_found:
  fixes v :: GlobalAddress
  assumes ok: "internal_page_wf p" and k: "lowest (ip_hdr p) < k" "k < highest (ip_hdr p)"
    and loop: "separator_loop (ip_records p) k (length (seps_of p)) = (Some i, q)"
  defines "p' \<equiv> p\<lparr>ip_records := (ip_records p)[i := (ip_records p ! i)\<lparr>ie_ptr := v\<rparr>]\<rparr>"
  shows "internal_store_entry p k v = Inr p'" "internal_ok kInternalCardinality p'"
    "map_of (seps_of p') = (map_of (seps_of p))(k \<mapsto> v)"
proof -
  have n60: "kInternalCardinality - 1 \<le> kInternalCardinality" by simp
  note D = internal_okD [OF ok] and F = seps_facts [OF ok n60]
  have i: "i < length (seps_of p)" "ie_key (ip_records p ! i) = k" using separator_loop_found loop by blast+
  show "internal_store_entry p k v = Inr p'"
    using loop F(1,3) by (simp add: internal_store_entry_def Let_def p'_def)
  have seps': "seps_of p' = (seps_of p)[i := (k, v)]"
  proof -
    have "seps_of p' = map (\<lambda>r. (ie_key r, ie_ptr r)) (take (length (seps_of p)) (ip_records p'))"
      unfolding seps_of_def [of p'] by (simp add: p'_def F(1))
    also have "\<dots> = (map (\<lambda>r. (ie_key r, ie_ptr r)) (take (length (seps_of p)) (ip_records p)))[i := (k, v)]"
      using i by (simp add: p'_def map_update take_update_swap)
    finally show ?thesis unfolding F(5) [symmetric] .
  qed
  have key: "fst (seps_of p ! i) = k" using seps_keys(1) [OF ok n60 i(1)] i(2) by simp
  show mo: "map_of (seps_of p') = (map_of (seps_of p))(k \<mapsto> v)"
    unfolding seps' by (rule map_of_update_nth [OF sorted_keys_distinct [OF D(4)] i(1) key])
  have "map fst (seps_of p') = map fst (seps_of p)"
    unfolding seps' using i(1) key by (simp add: map_update list_update_same_conv)
  then have "sorted_keys (seps_of p')" using D(4) by simp
  then show "internal_ok kInternalCardinality p'"
    using F(1-4) by (intro internal_ok_update [OF ok _ _ _ _ _ _ _ mo k, where li = "last_index (ip_hdr p)"])
      (simp_all add: p'_def)
qed

lemma internal_store_new:
  fixes v :: GlobalAddress
  assumes ok: "internal_page_wf p" and k: "lowest (ip_hdr p) < k" "k < highest (ip_hdr p)"
    and loop: "separator_loop (ip_records p) k (length (seps_of p)) = (None, q)"
  defines "p' \<equiv> p\<lparr>ip_records := (shift_loop (ip_records p) q (length (seps_of p)))[q := \<lparr>ie_key = k, ie_ptr = v\<rparr>],
      ip_hdr := (ip_hdr p)\<lparr>last_index := last_index (ip_hdr p) + 1\<rparr>\<rparr>"
  shows "internal_store_entry p k v = Inr p'" "internal_ok kInternalCardinality p'"
    "map_of (seps_of p') = (map_of (seps_of p))(k \<mapsto> v)"
proof -
  have n60: "kInternalCardinality - 1 \<le> kInternalCardinality" by simp
  note D = internal_okD [OF ok] and F = seps_facts [OF ok n60]
  let ?c = "length (seps_of p)" and ?rs = "ip_records p"
  have q: "q \<le> ?c" "j < q \<Longrightarrow> ie_key (?rs ! j) < k" "q \<le> j \<Longrightarrow> j < ?c \<Longrightarrow> k < ie_key (?rs ! j)" for j
    using separator_loop_miss [OF loop F(6)] by blast+
  have len: "?c < length ?rs" using F(3,4) by simp
  show "internal_store_entry p k v = Inr p'"
    using loop F(1,3) by (simp add: internal_store_entry_def Let_def p'_def)
  have cnt: "hdr_cnt (ip_hdr p') = int (Suc ?c)"
    using hdr_cnt_add [of "ip_hdr p" 1] F(1,3) by (simp add: p'_def)
  have "take (Suc ?c) (ip_records p') = take q ?rs @ \<lparr>ie_key = k, ie_ptr = v\<rparr> # drop q (take ?c ?rs)"
    unfolding p'_def using take_open_gap [OF q(1) len] shift_loop_mem_copy [OF q(1) len] by simp
  then have seps': "seps_of p' = take q (seps_of p) @ (k, v) # drop q (seps_of p)"
  proof -
    assume *: "take (Suc ?c) (ip_records p') = take q ?rs @ \<lparr>ie_key = k, ie_ptr = v\<rparr> # drop q (take ?c ?rs)"
    have "take q ?rs = take q (take ?c ?rs)" using q(1) by simp
    then have "seps_of p' = take q (map (\<lambda>r. (ie_key r, ie_ptr r)) (take ?c ?rs)) @ (k, v) #
        drop q (map (\<lambda>r. (ie_key r, ie_ptr r)) (take ?c ?rs))"
      unfolding seps_of_def [of p'] cnt nat_int * by (simp add: take_map drop_map)
    then show ?thesis unfolding F(5) [symmetric] .
  qed
  have lb: "is_lower_bound (map fst (seps_of p)) k q"
    using q seps_keys(1) [OF ok n60] by (intro is_lower_bound_nthI) (auto intro: less_imp_le)
  have new: "k \<notin> fst ` set (seps_of p)"
  proof
    assume "k \<in> fst ` set (seps_of p)"
    then obtain j where "j < ?c" "fst (seps_of p ! j) = k" by (auto simp: in_set_conv_nth)
    then show False using q(2,3) [of j] seps_keys(1) [OF ok n60, of j] by (metis less_irrefl not_le)
  qed
  show mo: "map_of (seps_of p') = (map_of (seps_of p))(k \<mapsto> v)"
    unfolding seps' by (rule map_of_insert_middle [OF new])
  have "sorted_keys (seps_of p')" unfolding seps' by (rule sorted_keys_insert [OF D(4) lb new])
  then show "internal_ok kInternalCardinality p'"
    using cnt F(3,4) shift_loop_nth [OF len, of q]
    by (intro internal_ok_update [OF ok _ _ _ _ _ _ _ mo k, where li = "last_index (ip_hdr p) + 1"])
      (simp_all add: p'_def)
qed

lemma internal_store_entry_correct:
  assumes ok: "internal_page_wf p" and k: "lowest (ip_hdr p) < k" "k < highest (ip_hdr p)"
  obtains p' where "internal_store_entry p k v = Inr p'" "internal_ok kInternalCardinality p'"
    "map_of (seps_of p') = (map_of (seps_of p))(k \<mapsto> v)"
    "lowest (ip_hdr p') = lowest (ip_hdr p)" "highest (ip_hdr p') = highest (ip_hdr p)"
    "leftmost_ptr (ip_hdr p') = leftmost_ptr (ip_hdr p)" "sibling_ptr (ip_hdr p') = sibling_ptr (ip_hdr p)"
    "hlevel (ip_hdr p') = hlevel (ip_hdr p)"
proof -
  obtain f q where loop: "separator_loop (ip_records p) k (length (seps_of p)) = (f, q)" by fastforce
  show thesis
  proof (cases f)
    case None
    show thesis by (rule that [OF internal_store_new [OF ok k loop [unfolded None]]]) simp_all
  next
    case (Some i)
    show thesis by (rule that [OF internal_store_found [OF ok k loop [unfolded Some]]]) simp_all
  qed
qed

section \<open>Splitting an internal page\<close>

lemma InternalPage_new_simps [simp]:
  "ip_records (InternalPage_new lv) = replicate kInternalCardinality InternalEntry_new"
  "ip_hdr (InternalPage_new lv) = Header_new lv"
  by (simp_all add: InternalPage_new_def InternalEntry_new_def
      list_eq_iff_nth_eq nth_list_update del: kInternalCardinality_val)

lemma InternalPage_set_consistent_simps [simp]:
  "ip_records (InternalPage_set_consistent p) = ip_records p" "ip_hdr (InternalPage_set_consistent p) = ip_hdr p"
  "InternalPage_check_consistent (InternalPage_set_consistent p)" "seps_of (InternalPage_set_consistent p) = seps_of p"
  "internal_ok n p \<Longrightarrow> internal_ok n (InternalPage_set_consistent p)"
  by (simp_all add: InternalPage_set_consistent_def InternalPage_check_consistent_def seps_of_def internal_ok_def Let_def)

lemma seps_of_eqI:
  assumes "hdr_cnt (ip_hdr p') = int c" "\<And>i. i < c \<Longrightarrow> seps ! (d + i) = (ie_key (ip_records p' ! i), ie_ptr (ip_records p' ! i))"
    and "c \<le> length (ip_records p')" "c = length (take c (drop d seps))"
  shows "seps_of p' = take c (drop d seps)"
  using assms unfolding seps_of_def by (intro nth_equalityI) auto

text \<open>
  The counts and the pages a split at 61 separators makes: 30 separators stay, the one in the
  middle moves up, 30 go to the sibling.
\<close>

lemma internal_split_page_full:
  assumes ok: "internal_ok kInternalCardinality p" and full: "length (seps_of p) = kInternalCardinality"
    and rng: "lowest (ip_hdr p) < fst (seps_of p ! 30)" "fst (seps_of p ! 30) < highest (ip_hdr p)"
  obtains p' s where "internal_split_page p a = Inr (p', s, fst (seps_of p ! 30))"
    "seps_of p' = take 30 (seps_of p)" "seps_of s = drop 31 (seps_of p)"
    "ip_hdr p' = (ip_hdr p)\<lparr>last_index := last_index (ip_hdr p) - 31, highest := fst (seps_of p ! 30), sibling_ptr := a\<rparr>"
    "ip_hdr s = (Header_new (hlevel (ip_hdr p)))\<lparr>last_index := 29, leftmost_ptr := snd (seps_of p ! 30),
       lowest := fst (seps_of p ! 30), highest := highest (ip_hdr p), sibling_ptr := sibling_ptr (ip_hdr p)\<rparr>"
    "hdr_cnt (ip_hdr p') = 30" "hdr_cnt (ip_hdr s) = 30" "length (ip_records p') = 61" "length (ip_records s) = 61"
    "InternalPage_check_consistent p'" "InternalPage_check_consistent s"
proof -
  note F = seps_facts [OF ok order.refl] and nth = seps_keys [OF ok order.refl]
  let ?h = "ip_hdr p" and ?rs = "ip_records p"
  define p' where "p' = p\<lparr>ip_hdr := ?h\<lparr>last_index := last_index ?h - 31, highest := ie_key (?rs ! 30), sibling_ptr := a\<rparr>\<rparr>"
  define s where "s = InternalPage_set_consistent ((InternalPage_new (hlevel ?h))\<lparr>
      ip_records := mem_copy 0 ?rs 31 30 (replicate kInternalCardinality InternalEntry_new),
      ip_hdr := (Header_new (hlevel ?h))\<lparr>last_index := last_index (Header_new (hlevel ?h)) + 30,
        leftmost_ptr := ie_ptr (?rs ! 30), lowest := ie_key (?rs ! 30), highest := highest ?h, sibling_ptr := sibling_ptr ?h\<rparr>\<rparr>)"
  have c: "nat (hdr_cnt ?h) = 61" using F(1) full by simp
  have 30: "fst (seps_of p ! 30) = ie_key (?rs ! 30)" "snd (seps_of p ! 30) = ie_ptr (?rs ! 30)"
    using nth [of 30] full by simp_all
  have split: "internal_split_page p a = Inr (p', s, fst (seps_of p ! 30))"
    using rng unfolding internal_split_page_def Let_def c 30 p'_def s_def by simp
  have cp: "hdr_cnt (ip_hdr p') = 30"
    using hdr_cnt_add [of ?h "- 31"] F(1) full by (simp add: p'_def)
  have cs: "hdr_cnt (ip_hdr s) = 30"
    using hdr_cnt_add [of "Header_new (hlevel ?h)" 30] by (simp add: s_def)
  have "seps_of p' = take 30 (drop 0 (seps_of p))"
    using nth full cp F(4) by (intro seps_of_eqI) (simp_all add: p'_def prod_eq_iff)
  moreover have "seps_of s = take 30 (drop 31 (seps_of p))"
    using nth full cs F(4) by (intro seps_of_eqI) (simp_all add: s_def nth_mem_copy prod_eq_iff)
  ultimately show thesis
    using full F(4) internal_okD(9) [OF ok] cp cs 30
    by (intro that [OF split]) (simp_all add: p'_def s_def Header_new_def InternalPage_check_consistent_def InternalPage_set_consistent_def Let_def)
qed

lemma internal_split_page_correct:
  assumes ok: "internal_ok kInternalCardinality p" and full: "hdr_cnt (ip_hdr p) = int kInternalCardinality"
    and nn: "\<And>x. x \<in> set (seps_of p) \<Longrightarrow> snd x \<noteq> Null"
  obtains p' s key ptr where "internal_split_page p a = Inr (p', s, key)"
    "lowest (ip_hdr p) < key" "key < highest (ip_hdr p)" "internal_page_wf p'" "internal_page_wf s"
    "lowest (ip_hdr p') = lowest (ip_hdr p)" "highest (ip_hdr p') = key" "sibling_ptr (ip_hdr p') = a"
    "leftmost_ptr (ip_hdr p') = leftmost_ptr (ip_hdr p)" "hlevel (ip_hdr p') = hlevel (ip_hdr p)"
    "lowest (ip_hdr s) = key" "highest (ip_hdr s) = highest (ip_hdr p)" "sibling_ptr (ip_hdr s) = sibling_ptr (ip_hdr p)"
    "leftmost_ptr (ip_hdr s) = ptr" "hlevel (ip_hdr s) = hlevel (ip_hdr p)"
    "seps_of p = seps_of p' @ (key, ptr) # seps_of s"
proof -
  note F = seps_facts [OF ok order.refl] and D = internal_okD [OF ok]
  have len: "length (seps_of p) = 61" using F(1) full by simp
  define x where "x = seps_of p ! 30"
  have x: "x \<in> set (seps_of p)" using len by (simp add: x_def)
  obtain p' s where sp: "internal_split_page p a = Inr (p', s, fst x)"
      "seps_of p' = take 30 (seps_of p)" "seps_of s = drop 31 (seps_of p)"
      "ip_hdr p' = (ip_hdr p)\<lparr>last_index := last_index (ip_hdr p) - 31, highest := fst x, sibling_ptr := a\<rparr>"
      "ip_hdr s = (Header_new (hlevel (ip_hdr p)))\<lparr>last_index := 29, leftmost_ptr := snd x,
         lowest := fst x, highest := highest (ip_hdr p), sibling_ptr := sibling_ptr (ip_hdr p)\<rparr>"
      "hdr_cnt (ip_hdr p') = 30" "hdr_cnt (ip_hdr s) = 30" "length (ip_records p') = 61" "length (ip_records s) = 61"
      "InternalPage_check_consistent p'" "InternalPage_check_consistent s"
    using internal_split_page_full [OF ok, folded x_def, OF _ D(5,6) [OF x]] len by (metis kInternalCardinality_val)
  have cut: "seps_of p = seps_of p' @ x # seps_of s"
    unfolding sp(2,3) using id_take_nth_drop [of 30 "seps_of p"] len by (simp add: x_def)
  have srt: "sorted_keys (seps_of p')" "sorted_keys (seps_of s)"
      "\<forall>y \<in> set (seps_of p'). fst y < fst x" "\<forall>y \<in> set (seps_of s). fst x < fst y"
    using D(4) unfolding cut by (auto simp: sorted_wrt_append)
  have sub: "set (seps_of p') \<subseteq> set (seps_of p)" "set (seps_of s) \<subseteq> set (seps_of p)"
    by (auto simp: cut)
  have "internal_page_wf p'"
    using srt(1,3) sub D(5,7,8) sp unfolding internal_ok_def by auto
  moreover have "internal_page_wf s"
    using srt(2,4) sub D(6,8) nn [OF x] sp unfolding internal_ok_def by (auto simp: Header_new_def)
  ultimately show thesis
    using that [OF sp(1) D(5,6) [OF x]] sp(4,5) cut by (simp add: Header_new_def)
qed

section \<open>Properties of the pages\<close>

text \<open>
  C22: a Sherman leaf page behaves as a map between splits.  After any sequence of stores and
  deletions, each store in the page's range and leaving a free slot, a search of the page returns
  the outcome of the last operation on its key, and what the page held before when there is none;
  no key is in two slots, and every slot in use has equal front and rear versions.
\<close>

theorem sherman_leaf_is_map:
  assumes "leaf_page_wf p" "all_accepted leaf_page_accepts leaf_page_put leaf_page_remove ops p"
  shows "leaf_page_wf (run_ops leaf_page_put leaf_page_remove ops p) \<and>
    leaf_lookup (run_ops leaf_page_put leaf_page_remove ops p) k =
      (case last_write ops k of None \<Rightarrow> leaf_lookup p k | Some r \<Rightarrow> r)"
  by (intro conjI sherman_leaf.run_inv sherman_leaf.lookup_run assms)

theorem sherman_leaf_is_map_witness:
  "leaf_lookup (run_ops leaf_page_put leaf_page_remove [Put 7 70, Put 3 30, Del 7, Put 9 90, Put 3 31]
     (LeafPage_set_consistent (LeafPage_new 0))) 3 = Some 31"
proof -
  have "all_accepted leaf_page_accepts leaf_page_put leaf_page_remove
      [Put 7 70, Put 3 30, Del 7, Put 9 90, Put 3 31] (LeafPage_set_consistent (LeafPage_new 0))"
    by code_simp
  from sherman_leaf_is_map [OF new_leaf_page_wf this, of 3] show ?thesis by simp
qed

text \<open>
  C23: the store that fills a Sherman leaf page splits it without loss.  None of the assertions
  fails, the two pages are well-formed, their ranges meet at the split key strictly inside the old
  range, each holds exactly the pairs of its range, the new pair among them, and the sibling takes
  the old page's place in the chain.
\<close>

theorem sherman_leaf_split_correct:
  assumes "leaf_page_wf p" "lowest (lp_hdr p) \<le> k" "k < highest (lp_hdr p)" "v \<noteq> kValueNull"
    and "leaf_store_entry p k v = Inr (q, i, kLeafCardinality)"
  shows "\<exists>l r key. leaf_split_page q kLeafCardinality a = Inr (l, r, key) \<and> leaf_page_wf l \<and> leaf_page_wf r \<and>
    lowest (lp_hdr p) = lowest (lp_hdr l) \<and> lowest (lp_hdr l) < key \<and> highest (lp_hdr l) = key \<and>
    lowest (lp_hdr r) = key \<and> key < highest (lp_hdr r) \<and> highest (lp_hdr r) = highest (lp_hdr p) \<and>
    sibling_ptr (lp_hdr l) = a \<and> sibling_ptr (lp_hdr r) = sibling_ptr (lp_hdr p) \<and>
    (\<forall>j. ((leaf_page_map p)(k \<mapsto> v)) j = leaf_page_map (if j < key then l else r) j)"
proof -
  note D = leaf_page_wfD [OF assms(1)]
  obtain p' i' cnt where st: "leaf_store_entry p k v = Inr (p', i', cnt)"
      "p' = p\<lparr>lp_records := (lp_records p)[i' := lp_records p' ! i']\<rparr>"
      "slots_ok (lowest (lp_hdr p)) (highest (lp_hdr p)) (lp_records p')"
      "leaf_page_map p' = (leaf_page_map p)(k \<mapsto> v)"
      "cnt = kLeafCardinality \<longleftrightarrow> length (slot_pairs (lp_records p')) = kLeafCardinality"
    using leaf_store_entry_correct [OF D(1,2) assms(2-4)] by metis
  have q: "q = p'" "length (slot_pairs (lp_records q)) = kLeafCardinality" using assms(5) st(1,5) by auto
  have h: "lp_hdr q = lp_hdr p" using st(2) q(1) by (metis LeafPage.select_convs(2) LeafPage.surjective LeafPage.update_convs(3))
  have ok: "slots_ok (lowest (lp_hdr q)) (highest (lp_hdr q)) (lp_records q)"
    "leftmost_ptr (lp_hdr q) = Null" "hlevel (lp_hdr q) = 0" using st(3) q h D(3,4) by simp_all
  show ?thesis
    by (rule leaf_split_page_correct [OF ok(1) q(2) ok(2,3), of a]) (use h q(1) st(4) in \<open>auto simp: fun_eq_iff\<close>)
qed

definition sample_leaf_page :: LeafPage where
  "sample_leaf_page = (LeafPage_set_consistent (LeafPage_new 0))\<lparr>lp_records :=
     map (\<lambda>n. \<lparr>f_version = 0, le_key = of_nat (100 - n), le_value = of_nat (n + 1), r_version = 0\<rparr>) [0..<53] @ [LeafEntry_new]\<rparr>"

lemma sample_leaf_page_wf: "leaf_page_wf sample_leaf_page"
  by code_simp

theorem sherman_leaf_split_correct_witness:
  "\<exists>q l r. leaf_store_entry sample_leaf_page 200 7 = Inr (q, 53, kLeafCardinality) \<and>
     leaf_split_page q kLeafCardinality 4096 = Inr (l, r, 75) \<and> leaf_page_map r 200 = Some 7 \<and> leaf_page_map l 50 = Some 51"
proof -
  define q where "q = fst (projr (leaf_store_entry sample_leaf_page 200 7))"
  have st: "leaf_store_entry sample_leaf_page 200 7 = Inr (q, 53, kLeafCardinality)"
    unfolding q_def by code_simp
  have rng: "lowest (lp_hdr sample_leaf_page) \<le> 200" "200 < highest (lp_hdr sample_leaf_page)" "(7::Value) \<noteq> kValueNull"
    by code_simp+
  obtain l r key where sp: "leaf_split_page q kLeafCardinality 4096 = Inr (l, r, key)"
      "\<forall>j. ((leaf_page_map sample_leaf_page)(200 \<mapsto> 7)) j = leaf_page_map (if j < key then l else r) j"
    using sherman_leaf_split_correct [OF sample_leaf_page_wf rng st, of 4096] by blast
  have "snd (snd (projr (leaf_split_page q kLeafCardinality 4096))) = 75" unfolding q_def by code_simp
  then have key: "key = 75" using sp(1) by simp
  have "leaf_page_map sample_leaf_page 50 = Some 51" by code_simp
  then show ?thesis using st sp spec [OF sp(2), of 200] spec [OF sp(2), of 50] key by auto
qed

text \<open>
  A search of an internal page finds the one child responsible for the key: the leftmost child
  below the first separator, otherwise the child of the last separator that is not above the key.
\<close>

theorem sherman_internal_search_correct:
  assumes "internal_page_wf p" "lowest (ip_hdr p) \<le> k" "k < highest (ip_hdr p)"
  shows "\<exists>a. internal_page_search p k res = Inr (res\<lparr>next_level := a\<rparr>) \<and> routes p k a"
  by (rule internal_page_search_correct [OF assms(1) _ assms(2,3)]) simp

definition sample_internal_page :: "nat \<Rightarrow> InternalPage" where
  "sample_internal_page n = \<lparr>ip_front_version = 1,
     ip_hdr = (Header_new 1)\<lparr>leftmost_ptr := 64, last_index := of_nat n - 1\<rparr>,
     ip_records = map (\<lambda>i. \<lparr>ie_key = of_nat (10 * i + 10), ie_ptr = of_nat (64 * i + 128)\<rparr>) [0..<n] @
       replicate (kInternalCardinality - n) InternalEntry_new, ip_rear_version = 1\<rparr>"

theorem sherman_internal_search_correct_witness:
  "internal_page_search (sample_internal_page 3) 25 empty_result = Inr (empty_result\<lparr>next_level := 192\<rparr>) \<and>
   routes (sample_internal_page 3) 25 192"
proof -
  have "internal_page_wf (sample_internal_page 3)" "lowest (ip_hdr (sample_internal_page 3)) \<le> 25"
    "25 < highest (ip_hdr (sample_internal_page 3))" by code_simp+
  from sherman_internal_search_correct [OF this, of empty_result]
  obtain a where a: "internal_page_search (sample_internal_page 3) 25 empty_result = Inr (empty_result\<lparr>next_level := a\<rparr>)"
    "routes (sample_internal_page 3) 25 a" by blast
  have "next_level (projr (internal_page_search (sample_internal_page 3) 25 empty_result)) = 192" by code_simp
  then show ?thesis using a by simp
qed

text \<open>
  C24: storing a separator into an internal page never fails an assertion.  The page keeps its
  separators sorted and within its range, with the new one added or its child replaced; when that
  makes the page full it splits into two well-formed pages around a separator that moves up and
  whose child becomes the leftmost child of the sibling, with no separator lost.
\<close>

theorem sherman_internal_store_correct:
  assumes "internal_page_wf p" "lowest (ip_hdr p) < k" "k < highest (ip_hdr p)" "v \<noteq> Null"
    and "\<And>x. x \<in> set (seps_of p) \<Longrightarrow> snd x \<noteq> Null"
  shows "\<exists>q. internal_store_entry p k v = Inr q \<and> sorted_keys (seps_of q) \<and>
    map_of (seps_of q) = (map_of (seps_of p))(k \<mapsto> v) \<and>
    (if hdr_cnt (ip_hdr q) \<noteq> int kInternalCardinality then internal_page_wf q
     else \<exists>l r key ptr. internal_split_page q a = Inr (l, r, key) \<and> internal_page_wf l \<and> internal_page_wf r \<and>
       seps_of q = seps_of l @ (key, ptr) # seps_of r \<and> leftmost_ptr (ip_hdr r) = ptr \<and>
       lowest (ip_hdr l) = lowest (ip_hdr p) \<and> highest (ip_hdr l) = key \<and> lowest (ip_hdr r) = key \<and>
       highest (ip_hdr r) = highest (ip_hdr p) \<and> sibling_ptr (ip_hdr l) = a \<and>
       sibling_ptr (ip_hdr r) = sibling_ptr (ip_hdr p))"
proof -
  obtain q where q: "internal_store_entry p k v = Inr q" "internal_ok kInternalCardinality q"
      "map_of (seps_of q) = (map_of (seps_of p))(k \<mapsto> v)" "lowest (ip_hdr q) = lowest (ip_hdr p)"
      "highest (ip_hdr q) = highest (ip_hdr p)" "sibling_ptr (ip_hdr q) = sibling_ptr (ip_hdr p)"
    using internal_store_entry_correct [OF assms(1-3)] by metis
  note D = internal_okD [OF q(2)]
  have nn: "snd x \<noteq> Null" if x: "x \<in> set (seps_of q)" for x
  proof -
    have "map_of (seps_of q) (fst x) = Some (snd x)"
      using x sorted_keys_distinct [OF D(4)] by simp
    then show ?thesis
      using assms(4,5) unfolding q(3) by (auto split: if_splits dest: map_of_SomeD)
  qed
  have "internal_page_wf q" if "hdr_cnt (ip_hdr q) \<noteq> int kInternalCardinality"
    using q(2) that unfolding internal_ok_def by auto
  moreover have "\<exists>l r key ptr. internal_split_page q a = Inr (l, r, key) \<and> internal_page_wf l \<and> internal_page_wf r \<and>
       seps_of q = seps_of l @ (key, ptr) # seps_of r \<and> leftmost_ptr (ip_hdr r) = ptr \<and>
       lowest (ip_hdr l) = lowest (ip_hdr p) \<and> highest (ip_hdr l) = key \<and> lowest (ip_hdr r) = key \<and>
       highest (ip_hdr r) = highest (ip_hdr p) \<and> sibling_ptr (ip_hdr l) = a \<and>
       sibling_ptr (ip_hdr r) = sibling_ptr (ip_hdr p)" if "hdr_cnt (ip_hdr q) = int kInternalCardinality"
    by (rule internal_split_page_correct [OF q(2) that, of a]) (use nn q(4-6) in auto)
  ultimately show ?thesis using q(1,3) D(4) by auto
qed

theorem sherman_internal_store_correct_witness:
  "\<exists>q. internal_store_entry (sample_internal_page 3) 25 4096 = Inr q \<and> map_of (seps_of q) 25 = Some 4096 \<and>
     map_of (seps_of q) 20 = Some 192 \<and> internal_page_wf q"
proof -
  have pre: "internal_page_wf (sample_internal_page 3)" "lowest (ip_hdr (sample_internal_page 3)) < 25"
    "25 < highest (ip_hdr (sample_internal_page 3))" "(4096::GlobalAddress) \<noteq> Null"
    "\<forall>x \<in> set (seps_of (sample_internal_page 3)). snd x \<noteq> Null" by code_simp+
  obtain q where q: "internal_store_entry (sample_internal_page 3) 25 4096 = Inr q"
      "map_of (seps_of q) = (map_of (seps_of (sample_internal_page 3)))(25 \<mapsto> 4096)"
      "hdr_cnt (ip_hdr q) \<noteq> int kInternalCardinality \<longrightarrow> internal_page_wf q"
    using sherman_internal_store_correct [OF pre(1-4)] pre(5) by metis
  have "hdr_cnt (ip_hdr (projr (internal_store_entry (sample_internal_page 3) 25 4096))) = 4" by code_simp
  moreover have "map_of (seps_of (sample_internal_page 3)) 20 = Some 192" by code_simp
  ultimately show ?thesis using q by auto
qed

end
