(* ===== verification/Sherman_Lock.thy ===== *)
theory Sherman_Lock
  imports Sherman_Page
begin

text \<open>
  The hierarchical lock of a Sherman page, \<open>dex/src/Tree.cpp\<close>: the threads of one compute node queue
  at a ticket lock, \<open>local_locks\<close>, its holder takes the lock word in the on-chip memory of the memory
  node with a compare-and-swap, and a holder with local waiters may hand the remote lock over to the
  next of them instead of releasing it, at most \<open>kMaxHandOverTime\<close> times in a row.
\<close>

section \<open>The local lock\<close>

definition kMaxHandOverTime :: u8 where "kMaxHandOverTime = 8"

record LocalLockNode =
  ticket_lock :: u64
  hand_over :: bool
  hand_time :: u8

text \<open>What the constructor of \<open>Tree\<close> writes into every lock.\<close>

definition LocalLockNode_new :: LocalLockNode where
  "LocalLockNode_new = \<lparr>ticket_lock = 0, hand_over = False, hand_time = 0\<rparr>"

text \<open>\<open>lock_val << 32 >> 32\<close> and \<open>lock_val >> 32\<close>, both cut to \<open>uint32_t\<close>.\<close>

definition ticket_of :: "u64 \<Rightarrow> u32" where
  "ticket_of lock_val = ucast (drop_bit 32 (push_bit 32 lock_val))"

definition current_of :: "u64 \<Rightarrow> u32" where
  "current_of lock_val = ucast (drop_bit 32 lock_val)"

text \<open>The \<open>fetch_add(1)\<close> of \<open>acquire_local_lock\<close>, and what follows when the ticket is served.\<close>

definition take_ticket :: "LocalLockNode \<Rightarrow> u32 \<times> LocalLockNode" where
  "take_ticket node = (ticket_of (ticket_lock node), node\<lparr>ticket_lock := ticket_lock node + 1\<rparr>)"

definition enter_local :: "LocalLockNode \<Rightarrow> bool \<times> LocalLockNode" where
  "enter_local node = (hand_over node, node\<lparr>hand_time := hand_time node + 1\<rparr>)"

text \<open>
  \<open>acquire_local_lock\<close> of a thread that runs alone: when its ticket is not served at once, nobody
  will ever serve it.
\<close>

definition acquire_local_lock :: "LocalLockNode \<Rightarrow> sherman_error + bool \<times> LocalLockNode" where
  "acquire_local_lock node =
     (let current = current_of (ticket_lock node); (ticket, node') = take_ticket node in
      if ticket \<noteq> current then Inl Spin else Inr (enter_local node'))"

definition can_hand_over :: "LocalLockNode \<Rightarrow> bool \<times> LocalLockNode" where
  "can_hand_over node =
     (let ticket = ticket_of (ticket_lock node); current = current_of (ticket_lock node);
          node1 = (if ticket \<le> current + 1 then node\<lparr>hand_over := False\<rparr>
                   else node\<lparr>hand_over := hand_time node < kMaxHandOverTime\<rparr>);
          node2 = (if \<not> hand_over node1 then node1\<lparr>hand_time := 0\<rparr> else node1)
      in (hand_over node2, node2))"

definition releases_local_lock :: "LocalLockNode \<Rightarrow> LocalLockNode" where
  "releases_local_lock node = node\<lparr>ticket_lock := ticket_lock node + push_bit 32 1\<rparr>"

section \<open>All threads of all compute nodes at one lock\<close>

text \<open>
  A thread waits with its ticket, tries the compare-and-swap, is in the critical section, has decided
  to release the remote lock, or only the local one.  \<open>taken\<close> counts the tickets a node has drawn and
  \<open>streak\<close> the critical sections of a node since it last won the remote lock; both are ghosts.
\<close>

datatype lpc = LIdle | LWait u32 | LCas u32 | LCrit u32 | LRelRemote u32 | LRelLocal u32

record lock_sys =
  lnodes :: "nat \<Rightarrow> LocalLockNode"
  lremote :: u64
  lpcs :: "nat \<Rightarrow> nat \<Rightarrow> lpc"
  taken :: "nat \<Rightarrow> nat"
  streak :: "nat \<Rightarrow> nat"

definition lock_sys_init :: lock_sys where
  "lock_sys_init = \<lparr>lnodes = (\<lambda>_. LocalLockNode_new), lremote = 0, lpcs = (\<lambda>_ _. LIdle),
     taken = (\<lambda>_. 0), streak = (\<lambda>_. 0)\<rparr>"

definition set_lpc :: "lock_sys \<Rightarrow> nat \<Rightarrow> nat \<Rightarrow> lpc \<Rightarrow> LocalLockNode \<Rightarrow> lock_sys" where
  "set_lpc s n t pc nd = s\<lparr>lpcs := (lpcs s)(n := (lpcs s n)(t := pc)), lnodes := (lnodes s)(n := nd)\<rparr>"

text \<open>
  One atomic access per step.  \<open>tag\<close> is the non-zero \<open>thread_tag\<close> of a thread.  Between the test of
  the ticket and \<open>hand_time++\<close> no other thread of the node touches the lock's fields, so both are one
  step, as are the load and the writes of \<open>can_hand_over\<close>.
\<close>

inductive page_lock_step :: "(nat \<Rightarrow> nat \<Rightarrow> u64) \<Rightarrow> lock_sys \<Rightarrow> lock_sys \<Rightarrow> bool" for tag where
  take_number: "lpcs s n t = LIdle \<Longrightarrow> take_ticket (lnodes s n) = (ticket, nd) \<Longrightarrow>
     page_lock_step tag s ((set_lpc s n t (LWait ticket) nd)\<lparr>taken := (taken s)(n := Suc (taken s n))\<rparr>)"
| enter_handed: "lpcs s n t = LWait ticket \<Longrightarrow> current_of (ticket_lock (lnodes s n)) = ticket \<Longrightarrow>
     enter_local (lnodes s n) = (True, nd) \<Longrightarrow>
     page_lock_step tag s ((set_lpc s n t (LCrit ticket) nd)\<lparr>streak := (streak s)(n := Suc (streak s n))\<rparr>)"
| enter_cas: "lpcs s n t = LWait ticket \<Longrightarrow> current_of (ticket_lock (lnodes s n)) = ticket \<Longrightarrow>
     enter_local (lnodes s n) = (False, nd) \<Longrightarrow> page_lock_step tag s (set_lpc s n t (LCas ticket) nd)"
| cas_ok: "lpcs s n t = LCas ticket \<Longrightarrow> lremote s = 0 \<Longrightarrow>
     page_lock_step tag s ((set_lpc s n t (LCrit ticket) (lnodes s n))\<lparr>lremote := tag n t, streak := (streak s)(n := 1)\<rparr>)"
| cas_fail: "lpcs s n t = LCas ticket \<Longrightarrow> lremote s \<noteq> 0 \<Longrightarrow> page_lock_step tag s s"
| finish_hand: "lpcs s n t = LCrit ticket \<Longrightarrow> can_hand_over (lnodes s n) = (True, nd) \<Longrightarrow>
     page_lock_step tag s (set_lpc s n t (LRelLocal ticket) nd)"
| finish_release: "lpcs s n t = LCrit ticket \<Longrightarrow> can_hand_over (lnodes s n) = (False, nd) \<Longrightarrow>
     page_lock_step tag s (set_lpc s n t (LRelRemote ticket) nd)"
| unlock_remote: "lpcs s n t = LRelRemote ticket \<Longrightarrow>
     page_lock_step tag s ((set_lpc s n t (LRelLocal ticket) (lnodes s n))\<lparr>lremote := 0\<rparr>)"
| unlock_local: "lpcs s n t = LRelLocal ticket \<Longrightarrow>
     page_lock_step tag s (set_lpc s n t LIdle (releases_local_lock (lnodes s n)))"

section \<open>The halves of the ticket word\<close>

definition next_ticket :: "LocalLockNode \<Rightarrow> nat" where
  "next_ticket nd = unat (ticket_lock nd) mod 2 ^ 32"

definition serving :: "LocalLockNode \<Rightarrow> nat" where
  "serving nd = unat (ticket_lock nd) div 2 ^ 32"

lemma unat_ticket_of: "unat (ticket_of v) = unat v mod 2 ^ 32"
proof -
  have "ticket_of v = ucast v"
    unfolding ticket_of_def by (rule bit_word_eqI) (auto simp: bit_simps)
  then show ?thesis by (simp add: unsigned_ucast_eq take_bit_eq_mod)
qed

lemma word_halves_lt: "unat (v :: u64) div 2 ^ 32 < 2 ^ 32"
proof -
  have "unat v < 2 ^ 64" using unsigned_less [of v] by simp
  then show ?thesis by (simp add: div_less_iff_less_mult flip: power_add)
qed

lemma unat_current_of: "unat (current_of v) = unat v div 2 ^ 32"
proof -
  have "unat (drop_bit 32 v) = unat v div 2 ^ 32" unfolding unat_drop_bit_eq by (simp add: drop_bit_eq_div)
  then show ?thesis
    unfolding current_of_def unsigned_ucast_eq using word_halves_lt [of v] by (simp add: take_bit_nat_eq_self)
qed

lemma halves_bound:
  assumes "unat (v :: u64) div 2 ^ 32 + m \<le> 2 ^ 32" "unat v mod 2 ^ 32 + n < 2 ^ 32" "c = 2 ^ 32 * m + n" "0 < m"
  shows "unat v + c < 2 ^ 64 + 2 ^ 32"
proof -
  define hi lo where "hi = unat v div 2 ^ 32" and "lo = unat v mod 2 ^ 32"
  have "unat v = 2 ^ 32 * hi + lo" by (simp add: hi_def lo_def)
  moreover have "hi + m \<le> 2 ^ 32" "lo + n < 2 ^ 32" using assms(1,2) by (simp_all add: hi_def lo_def)
  ultimately show ?thesis using assms(3) by simp
qed

lemma next_ticket_lt: "next_ticket nd < 2 ^ 32"
  by (simp add: next_ticket_def)

lemma halves_take:
  assumes "next_ticket nd + 1 < 2 ^ 32" "take_ticket nd = (ticket, nd')"
  shows "unat ticket = next_ticket nd" "next_ticket nd' = next_ticket nd + 1" "serving nd' = serving nd"
    "hand_over nd' = hand_over nd" "hand_time nd' = hand_time nd"
  using assms(1) unfolding next_ticket_def serving_def
proof -
  let ?v = "unat (ticket_lock nd)"
  assume lt: "?v mod 2 ^ 32 + 1 < 2 ^ 32"
  have "?v + 1 < 2 ^ 64"
    using word_halves_lt [of "ticket_lock nd"] lt halves_bound [of "ticket_lock nd" 1 1 "2 ^ 32 + 1"] by simp
  then have v: "unat (ticket_lock nd + 1) = ?v + 1" by (simp add: unat_Suc_lt)
  have nd': "ticket = ticket_of (ticket_lock nd)" "nd' = nd\<lparr>ticket_lock := ticket_lock nd + 1\<rparr>"
    using assms(2) by (auto simp: take_ticket_def)
  then show "unat ticket = ?v mod 2 ^ 32" "hand_over nd' = hand_over nd" "hand_time nd' = hand_time nd"
    by (simp_all add: unat_ticket_of)
  have "(?v + 1) mod 2 ^ 32 = ?v mod 2 ^ 32 + 1" "(?v + 1) div 2 ^ 32 = ?v div 2 ^ 32"
    using lt by (simp_all add: mod_Suc div_Suc)
  then show "unat (ticket_lock nd') mod 2 ^ 32 = ?v mod 2 ^ 32 + 1" "unat (ticket_lock nd') div 2 ^ 32 = ?v div 2 ^ 32"
    unfolding nd' by (simp_all add: v)
qed

lemma halves_release:
  assumes "serving nd + 1 < 2 ^ 32"
  shows "next_ticket (releases_local_lock nd) = next_ticket nd" "serving (releases_local_lock nd) = serving nd + 1"
    "hand_over (releases_local_lock nd) = hand_over nd" "hand_time (releases_local_lock nd) = hand_time nd"
proof -
  let ?v = "unat (ticket_lock nd)"
  have p: "unat (push_bit 32 1 :: u64) = 2 ^ 32" by (simp add: push_bit_eq_mult)
  have "?v + 2 ^ 32 < 2 ^ 64"
    using assms [unfolded serving_def] mod_less_divisor [of "2 ^ 32" ?v] halves_bound [of "ticket_lock nd" 2 0 "2 ^ 33"] by simp
  then have v: "unat (ticket_lock (releases_local_lock nd)) = ?v + 2 ^ 32"
    unfolding releases_local_lock_def using p by (simp add: unat_add_lt)
  show "next_ticket (releases_local_lock nd) = next_ticket nd" "serving (releases_local_lock nd) = serving nd + 1"
    "hand_over (releases_local_lock nd) = hand_over nd" "hand_time (releases_local_lock nd) = hand_time nd"
    unfolding next_ticket_def serving_def v by (simp_all add: releases_local_lock_def)
qed

lemma can_hand_over_cases:
  assumes "can_hand_over nd = (b, nd')" "serving nd < next_ticket nd"
  shows "b \<longleftrightarrow> serving nd + 1 < next_ticket nd \<and> hand_time nd < kMaxHandOverTime"
    "nd' = (if b then nd\<lparr>hand_over := True\<rparr> else nd\<lparr>hand_over := False, hand_time := 0\<rparr>)"
proof -
  have "unat (current_of (ticket_lock nd) + 1) = serving nd + 1"
    using assms(2) next_ticket_lt [of nd] by (subst unat_Suc_lt) (simp_all add: unat_current_of serving_def)
  then have "ticket_of (ticket_lock nd) \<le> current_of (ticket_lock nd) + 1 \<longleftrightarrow> next_ticket nd \<le> serving nd + 1"
    unfolding word_le_nat_alt by (simp add: unat_ticket_of next_ticket_def)
  then show "b \<longleftrightarrow> serving nd + 1 < next_ticket nd \<and> hand_time nd < kMaxHandOverTime"
    "nd' = (if b then nd\<lparr>hand_over := True\<rparr> else nd\<lparr>hand_over := False, hand_time := 0\<rparr>)"
    using assms(1) by (auto simp: can_hand_over_def Let_def split: if_splits)
qed

section \<open>The invariant of one compute node\<close>

fun ticket_at :: "lpc \<Rightarrow> nat option" where
  "ticket_at LIdle = None"
| "ticket_at (LWait x) = Some (unat x)"
| "ticket_at (LCas x) = Some (unat x)"
| "ticket_at (LCrit x) = Some (unat x)"
| "ticket_at (LRelRemote x) = Some (unat x)"
| "ticket_at (LRelLocal x) = Some (unat x)"

fun served :: "lpc \<Rightarrow> bool" where
  "served LIdle = False"
| "served (LWait x) = False"
| "served _ = True"

text \<open>The tickets in use are exactly those from the one served to the next one, one thread each.\<close>

definition queue_ok :: "LocalLockNode \<Rightarrow> (nat \<Rightarrow> lpc) \<Rightarrow> bool" where
  "queue_ok nd pcs \<longleftrightarrow> serving nd \<le> next_ticket nd \<and>
     (\<forall>t x. ticket_at (pcs t) = Some x \<longrightarrow> serving nd \<le> x \<and> x < next_ticket nd) \<and>
     (\<forall>t u x. ticket_at (pcs t) = Some x \<and> ticket_at (pcs u) = Some x \<longrightarrow> t = u) \<and>
     (\<forall>x. serving nd \<le> x \<and> x < next_ticket nd \<longrightarrow> (\<exists>t. ticket_at (pcs t) = Some x)) \<and>
     (\<forall>t. served (pcs t) \<longrightarrow> ticket_at (pcs t) = Some (serving nd))"

text \<open>The fields of the lock against the phase of the thread that is served, and the count of a streak.\<close>

definition flags_ok :: "LocalLockNode \<Rightarrow> nat \<Rightarrow> (nat \<Rightarrow> lpc) \<Rightarrow> bool" where
  "flags_ok nd sk pcs \<longleftrightarrow>
     (\<forall>t x. pcs t = LCas x \<longrightarrow> \<not> hand_over nd \<and> hand_time nd = 1) \<and>
     (\<forall>t x. pcs t = LCrit x \<longrightarrow> 1 \<le> unat (hand_time nd) \<and> unat (hand_time nd) \<le> 8 \<and> sk = unat (hand_time nd)) \<and>
     (\<forall>t x. pcs t = LRelRemote x \<longrightarrow> \<not> hand_over nd \<and> hand_time nd = 0) \<and>
     ((\<forall>t x. pcs t \<noteq> LCas x \<and> pcs t \<noteq> LCrit x \<and> pcs t \<noteq> LRelRemote x) \<longrightarrow>
        (if hand_over nd then unat (hand_time nd) < 8 \<and> sk = unat (hand_time nd) else hand_time nd = 0)) \<and>
     (\<forall>t x. pcs t = LRelLocal x \<and> hand_over nd \<longrightarrow> serving nd + 1 < next_ticket nd) \<and>
     (hand_over nd \<longrightarrow> serving nd < next_ticket nd) \<and> sk \<le> 8"

lemma queue_okD:
  assumes "queue_ok nd pcs"
  shows "serving nd \<le> next_ticket nd" "ticket_at (pcs t) = Some x \<Longrightarrow> serving nd \<le> x"
    "ticket_at (pcs t) = Some x \<Longrightarrow> x < next_ticket nd"
    "ticket_at (pcs t) = Some x \<Longrightarrow> ticket_at (pcs u) = Some x \<Longrightarrow> t = u"
    "serving nd \<le> x \<Longrightarrow> x < next_ticket nd \<Longrightarrow> \<exists>t. ticket_at (pcs t) = Some x"
    "served (pcs t) \<Longrightarrow> ticket_at (pcs t) = Some (serving nd)"
  using assms unfolding queue_ok_def by blast+

lemma served_unique: "queue_ok nd pcs \<Longrightarrow> served (pcs t) \<Longrightarrow> served (pcs u) \<Longrightarrow> t = u"
  by (meson queue_okD(4,6))

lemma served_serving: "queue_ok nd pcs \<Longrightarrow> served (pcs t) \<Longrightarrow> serving nd < next_ticket nd"
  using queue_okD(3,6) by blast

lemma queue_okI:
  assumes "serving nd \<le> next_ticket nd" "\<And>t x. ticket_at (pcs t) = Some x \<Longrightarrow> serving nd \<le> x \<and> x < next_ticket nd"
    and "\<And>t u x. ticket_at (pcs t) = Some x \<Longrightarrow> ticket_at (pcs u) = Some x \<Longrightarrow> t = u"
    and "\<And>x. serving nd \<le> x \<Longrightarrow> x < next_ticket nd \<Longrightarrow> \<exists>t. ticket_at (pcs t) = Some x"
    and "\<And>t. served (pcs t) \<Longrightarrow> ticket_at (pcs t) = Some (serving nd)"
  shows "queue_ok nd pcs"
  using assms unfolding queue_ok_def by blast

lemma queue_take:
  assumes "queue_ok nd pcs" "pcs t = LIdle" "take_ticket nd = (ticket, nd')" "next_ticket nd + 1 < 2 ^ 32"
  shows "queue_ok nd' (pcs(t := LWait ticket))"
proof (rule queue_okI, unfold halves_take(2,3) [OF assms(4,3)])
  note D = queue_okD [OF assms(1)] and h = halves_take(1) [OF assms(4,3)]
  let ?pcs = "pcs(t := LWait ticket)"
  have new: "u = t \<and> x = next_ticket nd \<or> u \<noteq> t \<and> ticket_at (pcs u) = Some x \<and> x < next_ticket nd"
    if "ticket_at (?pcs u) = Some x" for u x
    using that h D(3) by (cases "u = t") auto
  show "serving nd \<le> next_ticket nd + 1" using D(1) by simp
  show "serving nd \<le> x \<and> x < next_ticket nd + 1" if "ticket_at (?pcs u) = Some x" for u x
    using new [OF that] D(1) D(2) [of u x] by auto
  show "u = w" if "ticket_at (?pcs u) = Some x" "ticket_at (?pcs w) = Some x" for u w x
    using new [OF that(1)] new [OF that(2)] D(4) [of u x w] by auto
  show "\<exists>u. ticket_at (?pcs u) = Some x" if x: "serving nd \<le> x" "x < next_ticket nd + 1" for x
  proof (cases "x = next_ticket nd")
    case False
    then obtain u where "ticket_at (pcs u) = Some x" using D(5) [of x] x by auto
    moreover have "u \<noteq> t" using assms(2) calculation by auto
    ultimately show ?thesis by (intro exI [of _ u]) simp
  qed (auto intro: exI [of _ t] simp: h)
  show "ticket_at (?pcs u) = Some (serving nd)" if "served (?pcs u)" for u
    using that D(6) [of u] by (cases "u = t") auto
qed

lemma queue_move:
  assumes "queue_ok nd pcs" "ticket_at pc' = ticket_at (pcs t)" "served pc' \<Longrightarrow> ticket_at pc' = Some (serving nd)"
    and "ticket_lock nd' = ticket_lock nd"
  shows "queue_ok nd' (pcs(t := pc'))"
proof -
  have h: "serving nd' = serving nd" "next_ticket nd' = next_ticket nd" by (simp_all add: serving_def next_ticket_def assms(4))
  have eq: "ticket_at ((pcs(t := pc')) u) = ticket_at (pcs u)" for u using assms(2) by simp
  have "ticket_at (pcs u) = Some (serving nd)" if "served ((pcs(t := pc')) u)" for u
    using that assms(2,3) queue_okD(6) [OF assms(1), of u] by (cases "u = t") auto
  then show ?thesis
    using queue_okD [OF assms(1)] by (intro queue_okI; unfold eq h) blast+
qed

lemma queue_release:
  assumes "queue_ok nd pcs" "pcs t = LRelLocal ticket"
  shows "queue_ok (releases_local_lock nd) (pcs(t := LIdle))"
proof -
  note D = queue_okD [OF assms(1)]
  have t: "ticket_at (pcs t) = Some (serving nd)" using D(6) [of t] assms(2) by simp
  have lt: "serving nd < next_ticket nd" using D(3) [OF t] .
  then have "serving nd + 1 < 2 ^ 32"
    using next_ticket_lt [of nd] by simp
  note h = halves_release [OF this]
  have other: "u \<noteq> t \<and> ticket_at (pcs u) = Some x \<and> x \<noteq> serving nd"
    if "ticket_at ((pcs(t := LIdle)) u) = Some x" for u x
    using that D(4) [OF t] by (auto split: if_splits)
  have "\<exists>u. ticket_at ((pcs(t := LIdle)) u) = Some x" if x: "serving nd + 1 \<le> x" "x < next_ticket nd" for x
  proof -
    obtain u where u: "ticket_at (pcs u) = Some x" using D(5) [of x] x by auto
    then have "u \<noteq> t" using t x(1) by auto
    then show ?thesis using u by (intro exI [of _ u]) simp
  qed
  moreover have "\<not> served ((pcs(t := LIdle)) u)" for u
    using served_unique [OF assms(1), of t u] assms(2) by auto
  moreover have "serving nd + 1 \<le> x \<and> x < next_ticket nd" if "ticket_at ((pcs(t := LIdle)) u) = Some x" for u x
    using other [OF that] D(2) [of u x] D(3) [of u x] by auto
  moreover have "u = w" if "ticket_at ((pcs(t := LIdle)) u) = Some x" "ticket_at ((pcs(t := LIdle)) w) = Some x" for u w x
    using other [OF that(1)] other [OF that(2)] D(4) by blast
  ultimately show ?thesis using Suc_leI [OF lt] unfolding queue_ok_def h(1,2) Suc_eq_plus1 by blast
qed

text \<open>The flags along the steps of one thread.\<close>

lemma flags_okD:
  assumes "flags_ok nd sk pcs"
  shows "pcs t = LCas x \<Longrightarrow> \<not> hand_over nd" "pcs t = LCas x \<Longrightarrow> hand_time nd = 1"
    "pcs t = LCrit x \<Longrightarrow> 1 \<le> unat (hand_time nd)" "pcs t = LCrit x \<Longrightarrow> unat (hand_time nd) \<le> 8"
    "pcs t = LCrit x \<Longrightarrow> sk = unat (hand_time nd)"
    "pcs t = LRelRemote x \<Longrightarrow> \<not> hand_over nd" "pcs t = LRelRemote x \<Longrightarrow> hand_time nd = 0"
    "hand_over nd \<Longrightarrow> serving nd < next_ticket nd" "sk \<le> 8"
    "pcs t = LRelLocal x \<Longrightarrow> hand_over nd \<Longrightarrow> serving nd + 1 < next_ticket nd"
  using assms unfolding flags_ok_def by blast+

lemma flags_okD_idle:
  assumes "flags_ok nd sk pcs" "\<And>t x. pcs t \<noteq> LCas x \<and> pcs t \<noteq> LCrit x \<and> pcs t \<noteq> LRelRemote x"
  shows "hand_over nd \<Longrightarrow> unat (hand_time nd) < 8" "hand_over nd \<Longrightarrow> sk = unat (hand_time nd)"
    "\<not> hand_over nd \<Longrightarrow> hand_time nd = 0"
  using assms unfolding flags_ok_def by metis+

text \<open>A thread that waits while its ticket is served is alone: nobody else is served.\<close>

lemma waiting_alone:
  assumes "queue_ok nd pcs" "pcs t = LWait ticket" "current_of (ticket_lock nd) = ticket"
  shows "\<not> served (pcs u)"
proof
  assume "served (pcs u)"
  moreover have "ticket_at (pcs t) = Some (serving nd)"
    using assms(2,3) unat_current_of [of "ticket_lock nd"] by (simp add: serving_def)
  ultimately have "u = t" using queue_okD(4,6) [OF assms(1)] by metis
  then show False using \<open>served (pcs u)\<close> assms(2) by simp
qed

lemma flags_wait:
  assumes fl: "flags_ok nd sk pcs" and t: "pcs t = LIdle"
    and h: "next_ticket nd' = next_ticket nd + 1" "serving nd' = serving nd" "hand_over nd' = hand_over nd" "hand_time nd' = hand_time nd"
  shows "flags_ok nd' sk (pcs(t := LWait ticket))"
proof -
  have eq: "(pcs(t := LWait ticket)) u = LCas x \<longleftrightarrow> pcs u = LCas x" "(pcs(t := LWait ticket)) u = LCrit x \<longleftrightarrow> pcs u = LCrit x"
    "(pcs(t := LWait ticket)) u = LRelRemote x \<longleftrightarrow> pcs u = LRelRemote x"
    "(pcs(t := LWait ticket)) u = LRelLocal x \<longleftrightarrow> pcs u = LRelLocal x" for u x
    using t by auto
  show ?thesis using fl unfolding flags_ok_def eq h by (meson less_add_one order.strict_trans)
qed

text \<open>
  When \<open>t\<close> is the thread that is served after the step, or nobody is, the flags have to fit \<open>t\<close> only.
\<close>

lemma flags_alone:
  assumes others: "\<And>u. u \<noteq> t \<Longrightarrow> \<not> served (pcs u)" and sk: "sk \<le> 8"
    and ho: "hand_over nd \<Longrightarrow> serving nd < next_ticket nd"
    and pc: "case pc of
        LCas x \<Rightarrow> \<not> hand_over nd \<and> hand_time nd = 1
      | LCrit x \<Rightarrow> 1 \<le> unat (hand_time nd) \<and> unat (hand_time nd) \<le> 8 \<and> sk = unat (hand_time nd)
      | LRelRemote x \<Rightarrow> \<not> hand_over nd \<and> hand_time nd = 0
      | LRelLocal x \<Rightarrow> (if hand_over nd then unat (hand_time nd) < 8 \<and> sk = unat (hand_time nd) \<and>
          serving nd + 1 < next_ticket nd else hand_time nd = 0)
      | _ \<Rightarrow> (if hand_over nd then unat (hand_time nd) < 8 \<and> sk = unat (hand_time nd) else hand_time nd = 0)"
  shows "flags_ok nd sk (pcs(t := pc))"
proof -
  have at: "pc = q" if "(pcs(t := pc)) u = q" "served q" for u q
    using others [of u] that by (cases "u = t") auto
  have 1: "\<not> hand_over nd \<and> hand_time nd = 1" if "(pcs(t := pc)) u = LCas x" for u x
    using at [OF that] pc by simp
  have 2: "1 \<le> unat (hand_time nd) \<and> unat (hand_time nd) \<le> 8 \<and> sk = unat (hand_time nd)"
    if "(pcs(t := pc)) u = LCrit x" for u x using at [OF that] pc by simp
  have 3: "\<not> hand_over nd \<and> hand_time nd = 0" if "(pcs(t := pc)) u = LRelRemote x" for u x
    using at [OF that] pc by simp
  have 4: "serving nd + 1 < next_ticket nd" if "(pcs(t := pc)) u = LRelLocal x \<and> hand_over nd" for u x
    using at [OF conjunct1 [OF that]] pc that by simp
  have 5: "if hand_over nd then unat (hand_time nd) < 8 \<and> sk = unat (hand_time nd) else hand_time nd = 0"
    if "\<And>x. pc \<noteq> LCas x \<and> pc \<noteq> LCrit x \<and> pc \<noteq> LRelRemote x"
    using pc that by (auto split: lpc.splits if_splits)
  have 6: "if hand_over nd then unat (hand_time nd) < 8 \<and> sk = unat (hand_time nd) else hand_time nd = 0"
    if "\<forall>u x. (pcs(t := pc)) u \<noteq> LCas x \<and> (pcs(t := pc)) u \<noteq> LCrit x \<and> (pcs(t := pc)) u \<noteq> LRelRemote x"
    using spec [OF that, of t] by (intro 5) simp
  show ?thesis unfolding flags_ok_def by (intro conjI allI impI; (rule 1 2 3 4 6 ho sk)?; assumption?) (blast dest: 1 2 3)+
qed

section \<open>The invariant of the cluster\<close>

text \<open>A node owns the remote lock while one of its threads is inside or it has handed it over to itself.\<close>

definition owner :: "lock_sys \<Rightarrow> nat \<Rightarrow> bool" where
  "owner s n \<longleftrightarrow> hand_over (lnodes s n) \<or> (\<exists>t x. lpcs s n t = LCrit x \<or> lpcs s n t = LRelRemote x)"

definition page_lock_inv :: "lock_sys \<Rightarrow> bool" where
  "page_lock_inv s \<longleftrightarrow>
     (\<forall>n. taken s n = next_ticket (lnodes s n) \<and> queue_ok (lnodes s n) (lpcs s n) \<and>
          flags_ok (lnodes s n) (streak s n) (lpcs s n)) \<and>
     (\<forall>n. owner s n \<longrightarrow> lremote s \<noteq> 0) \<and> (\<forall>n m. owner s n \<and> owner s m \<longrightarrow> n = m)"

lemma page_lock_invD:
  assumes "page_lock_inv s"
  shows "taken s n = next_ticket (lnodes s n)" "queue_ok (lnodes s n) (lpcs s n)"
    "flags_ok (lnodes s n) (streak s n) (lpcs s n)" "owner s n \<Longrightarrow> lremote s \<noteq> 0"
    "owner s n \<Longrightarrow> owner s m \<Longrightarrow> n = m"
  using assms unfolding page_lock_inv_def by blast+

lemma page_lock_inv_local:
  assumes inv: "page_lock_inv s"
    and node: "taken s' n = next_ticket (lnodes s' n)" "queue_ok (lnodes s' n) (lpcs s' n)"
      "flags_ok (lnodes s' n) (streak s' n) (lpcs s' n)"
    and frame: "\<And>m. m \<noteq> n \<Longrightarrow> lnodes s' m = lnodes s m \<and> lpcs s' m = lpcs s m \<and> taken s' m = taken s m \<and> streak s' m = streak s m"
    and own: "owner s' n \<Longrightarrow> lremote s' \<noteq> 0 \<and> (owner s n \<or> lremote s = 0)"
    and rem: "lremote s' = lremote s \<or> lremote s = 0 \<or> owner s n"
  shows "page_lock_inv s'"
proof -
  note D = page_lock_invD [OF inv]
  have o: "owner s' m = owner s m" if "m \<noteq> n" for m using frame [OF that] by (simp add: owner_def)
  have "lremote s' \<noteq> 0" if "owner s' m" for m
  proof (cases "m = n")
    case False
    then have "owner s m" using that o by simp
    then show ?thesis using rem D(4) [of m] D(5) [of m n] False by auto
  qed (use that own in auto)
  moreover have "m = n" if "owner s' m" "owner s' n" for m
    using that o [of m] own D(4,5) [of m] by blast
  moreover have "m = k" if "owner s' m" "owner s' k" for m k
    using that o [of m] o [of k] D(5) [of m k] calculation(2) by metis
  moreover have "taken s' m = next_ticket (lnodes s' m) \<and> queue_ok (lnodes s' m) (lpcs s' m) \<and>
      flags_ok (lnodes s' m) (streak s' m) (lpcs s' m)" for m
    using node frame [of m] D(1-3) [of m] by (cases "m = n") auto
  ultimately show ?thesis unfolding page_lock_inv_def by blast
qed

lemma set_lpc_simps [simp]:
  "lnodes (set_lpc s n t pc nd) = (lnodes s)(n := nd)" "lpcs (set_lpc s n t pc nd) = (lpcs s)(n := (lpcs s n)(t := pc))"
  "taken (set_lpc s n t pc nd) = taken s" "streak (set_lpc s n t pc nd) = streak s" "lremote (set_lpc s n t pc nd) = lremote s"
  by (simp_all add: set_lpc_def)

lemma next_ticket_cong: "ticket_lock nd' = ticket_lock nd \<Longrightarrow> next_ticket nd' = next_ticket nd \<and> serving nd' = serving nd"
  by (simp add: next_ticket_def serving_def)

lemma page_lock_inv_init: "page_lock_inv lock_sys_init"
  by (simp add: page_lock_inv_def lock_sys_init_def owner_def LocalLockNode_new_def queue_ok_def flags_ok_def
      next_ticket_def serving_def)

text \<open>One lemma for each kind of step.\<close>

lemma inv_take:
  assumes inv: "page_lock_inv s" and pc: "lpcs s n t = LIdle" and tk: "take_ticket (lnodes s n) = (ticket, nd)"
    and bound: "Suc (taken s n) < 2 ^ 32"
  shows "page_lock_inv ((set_lpc s n t (LWait ticket) nd)\<lparr>taken := (taken s)(n := Suc (taken s n))\<rparr>)" (is "page_lock_inv ?s'")
proof (rule page_lock_inv_local [OF inv, of _ n])
  note D = page_lock_invD [OF inv]
  have lt: "next_ticket (lnodes s n) + 1 < 2 ^ 32" using bound D(1) [of n] by simp
  note h = halves_take [OF lt tk]
  show "taken ?s' n = next_ticket (lnodes ?s' n)" using D(1) [of n] h(2) by simp
  show "queue_ok (lnodes ?s' n) (lpcs ?s' n)" using queue_take [OF D(2) pc tk lt] by simp
  show "flags_ok (lnodes ?s' n) (streak ?s' n) (lpcs ?s' n)"
    using flags_wait [OF D(3) [of n] pc h(2-5)] by simp
  show "owner ?s' n \<Longrightarrow> lremote ?s' \<noteq> 0 \<and> (owner s n \<or> lremote s = 0)"
    using D(4) [of n] h(4) pc by (auto simp: owner_def split: if_splits)
qed simp_all

lemma inv_enter:
  assumes inv: "page_lock_inv s" and pc: "lpcs s n t = LWait ticket"
    and cur: "current_of (ticket_lock (lnodes s n)) = ticket" and en: "enter_local (lnodes s n) = (b, nd)"
  shows "b \<Longrightarrow> page_lock_inv ((set_lpc s n t (LCrit ticket) nd)\<lparr>streak := (streak s)(n := Suc (streak s n))\<rparr>)"
    "\<not> b \<Longrightarrow> page_lock_inv (set_lpc s n t (LCas ticket) nd)"
proof -
  note D = page_lock_invD [OF inv]
  have alone: "\<not> served (lpcs s n u)" for u by (rule waiting_alone [OF D(2) pc cur])
  then have idle: "lpcs s n u \<noteq> LCas x \<and> lpcs s n u \<noteq> LCrit x \<and> lpcs s n u \<noteq> LRelRemote x" for u x
    by (metis served.simps(3-5))
  note fl = flags_okD_idle [OF D(3) [of n] idle]
  have nd: "nd = (lnodes s n)\<lparr>hand_time := hand_time (lnodes s n) + 1\<rparr>" "b = hand_over (lnodes s n)"
    using en by (auto simp: enter_local_def)
  have tl: "ticket_lock nd = ticket_lock (lnodes s n)" by (simp add: nd)
  note nt = next_ticket_cong [OF tl]
  have at: "unat ticket = serving (lnodes s n)" using cur unat_current_of [of "ticket_lock (lnodes s n)"] by (simp add: serving_def)
  have qm: "queue_ok nd ((lpcs s n)(t := pc'))" if "ticket_at pc' = Some (unat ticket)" for pc'
    using that pc at tl by (intro queue_move [OF D(2)]) simp_all
  show "page_lock_inv ((set_lpc s n t (LCrit ticket) nd)\<lparr>streak := (streak s)(n := Suc (streak s n))\<rparr>)" if b
  proof (rule page_lock_inv_local [OF inv, of _ n], goal_cases)
    case 3
    have "unat (hand_time nd) = Suc (unat (hand_time (lnodes s n)))"
      using fl(1) that by (simp add: nd unat_Suc_lt)
    then show ?case
      using fl(1,2) that nd(2) alone flags_okD(8) [OF D(3) [of n]] nt by (simp, intro flags_alone) (auto simp: nd(1))
  next
    case 5
    then show ?case using that nd(2) D(4) [of n] by (simp add: owner_def)
  qed (use D(1) [of n] nt qm in \<open>simp_all\<close>)
  show "page_lock_inv (set_lpc s n t (LCas ticket) nd)" if "\<not> b"
  proof (rule page_lock_inv_local [OF inv, of _ n], goal_cases)
    case 3
    show ?case using fl(3) that nd alone flags_okD(9) [OF D(3) [of n]] by (simp, intro flags_alone) auto
  next
    case 5
    then show ?case using that nd idle by (auto simp: owner_def split: if_splits)
  qed (use D(1) [of n] nt qm in \<open>simp_all\<close>)
qed

lemma served_others:
  assumes "page_lock_inv s" "served (lpcs s n t)" "u \<noteq> t"
  shows "\<not> served (lpcs s n u)"
  using served_unique [OF page_lock_invD(2) [OF assms(1)]] assms(2,3) by blast

text \<open>A step of the thread that is served: the queue stays, the flags have to fit its new phase.\<close>

lemma inv_served:
  assumes inv: "page_lock_inv s" and t: "served (lpcs s n t)" and pc': "ticket_at pc' = ticket_at (lpcs s n t)"
    and s': "lnodes s' = (lnodes s)(n := nd)" "lpcs s' = (lpcs s)(n := (lpcs s n)(t := pc'))" "taken s' = taken s"
      "\<And>m. m \<noteq> n \<Longrightarrow> streak s' m = streak s m" "ticket_lock nd = ticket_lock (lnodes s n)"
    and fl: "(\<And>u. u \<noteq> t \<Longrightarrow> \<not> served (lpcs s n u)) \<Longrightarrow> flags_ok nd (streak s' n) ((lpcs s n)(t := pc'))"
    and own: "owner s' n \<Longrightarrow> lremote s' \<noteq> 0 \<and> (owner s n \<or> lremote s = 0)"
    and rem: "lremote s' = lremote s \<or> lremote s = 0 \<or> owner s n"
  shows "page_lock_inv s'"
proof (rule page_lock_inv_local [OF inv, of _ n])
  note D = page_lock_invD [OF inv]
  show "taken s' n = next_ticket (lnodes s' n)" using D(1) [of n] next_ticket_cong [OF s'(5)] s'(1,3) by simp
  have "ticket_at pc' = Some (serving (lnodes s n))" using queue_okD(6) [OF D(2) t] pc' by simp
  then have "queue_ok nd ((lpcs s n)(t := pc'))" using pc' s'(5) by (intro queue_move [OF D(2)])
  then show "queue_ok (lnodes s' n) (lpcs s' n)" using s'(1,2) by simp
  show "flags_ok (lnodes s' n) (streak s' n) (lpcs s' n)" using fl [OF served_others [OF inv t]] s'(1,2) by simp
qed (use s' own rem in auto)

lemma inv_cas:
  assumes inv: "page_lock_inv s" and pc: "lpcs s n t = LCas ticket" and rem: "lremote s = 0" and tag: "v \<noteq> 0"
  shows "page_lock_inv ((set_lpc s n t (LCrit ticket) (lnodes s n))\<lparr>lremote := v, streak := (streak s)(n := 1)\<rparr>)"
proof (rule inv_served [OF inv, of n t "LCrit ticket" _ "lnodes s n"], goal_cases)
  case 8
  note fl = flags_okD [OF page_lock_invD(3) [OF inv, of n]]
  show ?case using 8 fl(1,2) [OF pc] by (intro flags_alone) auto
qed (use pc rem tag in simp_all)

lemma inv_finish:
  assumes inv: "page_lock_inv s" and pc: "lpcs s n t = LCrit ticket" and ho: "can_hand_over (lnodes s n) = (b, nd)"
  shows "page_lock_inv (set_lpc s n t (if b then LRelLocal ticket else LRelRemote ticket) nd)" (is "page_lock_inv ?s'")
proof (rule inv_served [OF inv, of n t "if b then LRelLocal ticket else LRelRemote ticket" _ nd], goal_cases)
  note D = page_lock_invD [OF inv] and fl = flags_okD [OF page_lock_invD(3) [OF inv, of n]]
  have lt: "serving (lnodes s n) < next_ticket (lnodes s n)" using served_serving [OF D(2), of n t] pc by simp
  note c = can_hand_over_cases [OF ho lt]
  have tl: "ticket_lock nd = ticket_lock (lnodes s n)" by (simp add: c(2))
  {
    case 7
    show ?case by (rule tl)
  next
    case 8
    have 8: "hand_time nd < kMaxHandOverTime \<longleftrightarrow> unat (hand_time nd) < 8" by (simp add: word_less_nat_alt kMaxHandOverTime_def)
    show ?case
    proof (cases b)
      case True
      then show ?thesis
        using c 8 fl(5) [OF pc] fl(9) lt \<open>\<And>u. u \<noteq> t \<Longrightarrow> _\<close> next_ticket_cong [OF tl] by (intro flags_alone) (auto split: if_splits)
    next
      case False
      then show ?thesis
        using c fl(9) \<open>\<And>u. u \<noteq> t \<Longrightarrow> _\<close> by (intro flags_alone) auto
    qed
  next
    case 9
    have "owner s n" using pc by (auto simp: owner_def)
    then show ?case using D(4) by simp
  }
qed (use pc in simp_all)

lemma inv_unlock_remote:
  assumes inv: "page_lock_inv s" and pc: "lpcs s n t = LRelRemote ticket"
  shows "page_lock_inv ((set_lpc s n t (LRelLocal ticket) (lnodes s n))\<lparr>lremote := 0\<rparr>)"
proof (rule inv_served [OF inv, of n t "LRelLocal ticket" _ "lnodes s n"], goal_cases)
  note fl = flags_okD [OF page_lock_invD(3) [OF inv, of n]]
  {
    case 8
    then show ?case using fl(6,7) [OF pc] fl(9) by (intro flags_alone) auto
  next
    case 9
    then show ?case using fl(6) [OF pc] served_others [OF inv, of n t] pc
      by (fastforce simp: owner_def split: if_splits)
  next
    case 10
    then show ?case using pc by (auto simp: owner_def)
  }
qed (use pc in simp_all)

lemma inv_unlock_local:
  assumes inv: "page_lock_inv s" and pc: "lpcs s n t = LRelLocal ticket"
  shows "page_lock_inv (set_lpc s n t LIdle (releases_local_lock (lnodes s n)))" (is "page_lock_inv ?s'")
proof (rule page_lock_inv_local [OF inv, of _ n])
  note D = page_lock_invD [OF inv] and fl = flags_okD [OF page_lock_invD(3) [OF inv, of n]]
  have "serving (lnodes s n) < next_ticket (lnodes s n)" using served_serving [OF D(2), of n t] pc by simp
  then have "serving (lnodes s n) + 1 < 2 ^ 32" using next_ticket_lt [of "lnodes s n"] by simp
  note h = halves_release [OF this]
  show "taken ?s' n = next_ticket (lnodes ?s' n)" using D(1) [of n] h by simp
  show "queue_ok (lnodes ?s' n) (lpcs ?s' n)" using queue_release [OF D(2) pc] by simp
  have others: "\<not> served (lpcs s n u)" if "u \<noteq> t" for u using served_others [OF inv, of n t] pc that by simp
  have idle: "lpcs s n u \<noteq> LCas x \<and> lpcs s n u \<noteq> LCrit x \<and> lpcs s n u \<noteq> LRelRemote x" for u x
    using others [of u] pc by (cases "u = t") auto
  show "flags_ok (lnodes ?s' n) (streak ?s' n) (lpcs ?s' n)"
    using flags_okD_idle [OF D(3) [of n] idle] fl(9) fl(10) [OF pc] h others
    by (simp, intro flags_alone) auto
  show "owner ?s' n \<Longrightarrow> lremote ?s' \<noteq> 0 \<and> (owner s n \<or> lremote s = 0)"
    using D(4) [of n] h(3) idle by (auto simp: owner_def split: if_splits)
qed simp_all

lemma page_lock_step_inv:
  assumes "page_lock_step tag s s'" "page_lock_inv s" "\<And>n t. tag n t \<noteq> 0" "\<And>n. taken s' n < 2 ^ 32"
  shows "page_lock_inv s'"
  using assms(1)
proof cases
  case (take_number n t ticket nd)
  then show ?thesis using assms(2) assms(4) [of n] by (auto intro: inv_take)
next
  case (enter_handed n t ticket nd)
  then show ?thesis using inv_enter(1) [OF assms(2), where b = True] by simp
next
  case (enter_cas n t ticket nd)
  then show ?thesis using inv_enter(2) [OF assms(2), where b = False] by simp
next
  case (finish_hand n t ticket nd)
  then show ?thesis using inv_finish [OF assms(2), of n t ticket True] by simp
next
  case (finish_release n t ticket nd)
  then show ?thesis using inv_finish [OF assms(2), of n t ticket False] by simp
qed (use assms(2,3) inv_cas inv_unlock_remote inv_unlock_local in auto)

lemma taken_mono: "page_lock_step tag s s' \<Longrightarrow> taken s n \<le> taken s' n"
  by (induction rule: page_lock_step.induct) auto

lemma page_lock_reachable_inv:
  assumes "(page_lock_step tag)\<^sup>*\<^sup>* lock_sys_init s" "\<And>n t. tag n t \<noteq> 0" "\<And>n. taken s n < 2 ^ 32"
  shows "page_lock_inv s"
  using assms(1,3)
proof (induction rule: rtranclp_induct)
  case base
  show ?case by (rule page_lock_inv_init)
next
  case (step s s')
  have "taken s n < 2 ^ 32" for n using taken_mono [OF step.hyps(2), of n] step.prems [of n] by simp
  then show ?case using page_lock_step_inv [OF step.hyps(2)] step.IH step.prems assms(2) by blast
qed

section \<open>Properties of the lock\<close>


text \<open>A run in which thread 0 of node 0 wins the lock while thread 1 of node 0 queues behind it.\<close>

definition lock_run1 :: lock_sys where
  "lock_run1 = (set_lpc lock_sys_init 0 0 (LWait 0) (snd (take_ticket LocalLockNode_new)))\<lparr>taken := (\<lambda>_. 0)(0 := 1)\<rparr>"

definition lock_run2 :: lock_sys where
  "lock_run2 = (set_lpc lock_run1 0 1 (LWait 1) (snd (take_ticket (lnodes lock_run1 0))))\<lparr>taken := (taken lock_run1)(0 := Suc (taken lock_run1 0))\<rparr>"

definition lock_run3 :: lock_sys where
  "lock_run3 = set_lpc lock_run2 0 0 (LCas 0) (snd (enter_local (lnodes lock_run2 0)))"

definition lock_run4 :: lock_sys where
  "lock_run4 = (set_lpc lock_run3 0 0 (LCrit 0) (lnodes lock_run3 0))\<lparr>lremote := 1, streak := (\<lambda>_. 0)(0 := 1)\<rparr>"

lemma lock_run_reachable: "(page_lock_step (\<lambda>_ _. 1))\<^sup>*\<^sup>* lock_sys_init lock_run4"
proof -
  have tk: "lnodes lock_run1 0 = \<lparr>ticket_lock = 1, hand_over = False, hand_time = 0\<rparr>"
    "lnodes lock_run2 0 = \<lparr>ticket_lock = 2, hand_over = False, hand_time = 0\<rparr>"
    "lnodes lock_run3 0 = \<lparr>ticket_lock = 2, hand_over = False, hand_time = 1\<rparr>"
    by (simp_all add: lock_run1_def lock_run2_def lock_run3_def take_ticket_def enter_local_def LocalLockNode_new_def)
  have n0: "take_ticket LocalLockNode_new = (0, snd (take_ticket LocalLockNode_new))"
    "take_ticket (lnodes lock_run1 0) = (1, snd (take_ticket (lnodes lock_run1 0)))"
    "current_of (ticket_lock (lnodes lock_run2 0)) = 0"
    unfolding tk by code_simp+
  have 1: "page_lock_step (\<lambda>_ _. 1) lock_sys_init lock_run1"
    using page_lock_step.take_number [of lock_sys_init 0 0 0 "snd (take_ticket LocalLockNode_new)" "\<lambda>_ _. 1"] n0(1)
    by (simp add: lock_run1_def lock_sys_init_def)
  have 2: "page_lock_step (\<lambda>_ _. 1) lock_run1 lock_run2"
    using page_lock_step.take_number [of lock_run1 0 1 1 "snd (take_ticket (lnodes lock_run1 0))" "\<lambda>_ _. 1"] n0(2)
    by (simp add: lock_run2_def) (simp add: lock_run1_def lock_sys_init_def)
  have 3: "page_lock_step (\<lambda>_ _. 1) lock_run2 lock_run3"
    using page_lock_step.enter_cas [of lock_run2 0 0 0 "snd (enter_local (lnodes lock_run2 0))" "\<lambda>_ _. 1"] n0(3)
    by (simp add: lock_run3_def tk enter_local_def) (simp add: lock_run2_def lock_run1_def)
  have 4: "page_lock_step (\<lambda>_ _. 1) lock_run3 lock_run4"
    using page_lock_step.cas_ok [of lock_run3 0 0 0 "\<lambda>_ _. 1"]
    by (simp add: lock_run4_def) (simp add: lock_run3_def lock_run2_def lock_run1_def lock_sys_init_def)
  show ?thesis using 1 2 3 4 by (meson r_into_rtranclp rtranclp_trans)
qed

lemma lock_run_facts: "taken lock_run4 n < 2 ^ 32" "lpcs lock_run4 0 0 = LCrit 0" "lpcs lock_run4 0 1 = LWait 1"
  by (simp_all add: lock_run4_def lock_run3_def lock_run2_def lock_run1_def)


text \<open>
  C35: handing over is bounded and never loses the lock.  A compute node enters at most
  \<open>kMaxHandOverTime\<close> critical sections in a row without releasing the remote lock, and while it is
  handing over, the remote lock is taken and one of its threads is inside or queued to go inside.
\<close>

theorem sherman_hand_over_bounded:
  assumes "(page_lock_step tag)\<^sup>*\<^sup>* lock_sys_init s" "\<And>n t. tag n t \<noteq> 0" "\<And>n. taken s n < 2 ^ 32"
  shows "streak s n \<le> unat kMaxHandOverTime \<and>
    (hand_over (lnodes s n) \<longrightarrow> lremote s \<noteq> 0 \<and> (\<exists>t x. lpcs s n t = LWait x \<or> lpcs s n t = LCrit x))"
proof -
  note D = page_lock_invD [OF page_lock_reachable_inv [OF assms]]
  note fl = flags_okD [OF D(3) [of n]] and q = queue_okD [OF D(2) [of n]]
  have "\<exists>t x. lpcs s n t = LWait x \<or> lpcs s n t = LCrit x" if ho: "hand_over (lnodes s n)"
  proof -
    obtain t where t: "ticket_at (lpcs s n t) = Some (serving (lnodes s n))" using q(5) fl(8) [OF ho] by blast
    show ?thesis
    proof (cases "lpcs s n t")
      case (LRelLocal x)
      then obtain u where u: "ticket_at (lpcs s n u) = Some (serving (lnodes s n) + 1)"
        using q(5) [of "serving (lnodes s n) + 1"] fl(10) [OF _ ho] by auto
      then have "\<not> served (lpcs s n u)" using q(6) [of u] by auto
      then show ?thesis using u by (cases "lpcs s n u") auto
    qed (use t fl(1) [of t] fl(6) [of t] ho in auto)
  qed
  moreover have "lremote s \<noteq> 0" if "hand_over (lnodes s n)" using D(4) [of n] that by (simp add: owner_def)
  ultimately show ?thesis using fl(9) by (simp add: kMaxHandOverTime_def)
qed

definition lock_run5 :: lock_sys where
  "lock_run5 = set_lpc lock_run4 0 0 (LRelLocal 0) (snd (can_hand_over (lnodes lock_run4 0)))"

theorem sherman_hand_over_bounded_witness:
  "hand_over (lnodes lock_run5 0) \<and> lremote lock_run5 \<noteq> 0 \<and> streak lock_run5 0 \<le> unat kMaxHandOverTime"
proof -
  have nd: "lnodes lock_run4 0 = \<lparr>ticket_lock = 2, hand_over = False, hand_time = 1\<rparr>"
    by (simp add: lock_run1_def lock_run2_def lock_run3_def lock_run4_def take_ticket_def enter_local_def
        LocalLockNode_new_def lock_sys_init_def)
  have ho: "can_hand_over (lnodes lock_run4 0) = (True, snd (can_hand_over (lnodes lock_run4 0)))"
    "hand_over (snd (can_hand_over (lnodes lock_run4 0)))"
    unfolding nd by code_simp+
  have "page_lock_step (\<lambda>_ _. 1) lock_run4 lock_run5"
    unfolding lock_run5_def by (rule page_lock_step.finish_hand [OF lock_run_facts(2) ho(1)])
  then have run: "(page_lock_step (\<lambda>_ _. 1))\<^sup>*\<^sup>* lock_sys_init lock_run5"
    using lock_run_reachable by (rule rtranclp.rtrancl_into_rtrancl [rotated])
  have "taken lock_run5 n < 2 ^ 32" for n using lock_run_facts(1) [of n] by (simp add: lock_run5_def)
  from sherman_hand_over_bounded [OF run _ this, of 0] show ?thesis using ho(2) by (simp add: lock_run5_def)
qed

text \<open>One use of a lock by a thread that is alone: acquire, decide about handing over, release.\<close>

fun lock_cycles :: "nat \<Rightarrow> LocalLockNode \<Rightarrow> sherman_error + LocalLockNode" where
  "lock_cycles 0 nd = Inr nd"
| "lock_cycles (Suc n) nd =
     (case acquire_local_lock nd of Inl e \<Rightarrow> Inl e
      | Inr (b, nd1) \<Rightarrow> lock_cycles n (releases_local_lock (snd (can_hand_over nd1))))"

definition lock_after :: "nat \<Rightarrow> LocalLockNode" where
  "lock_after c = \<lparr>ticket_lock = of_nat (c * (2 ^ 32 + 1)), hand_over = False, hand_time = 0\<rparr>"

lemma cycle_word:
  assumes "c < 2 ^ 32"
  shows "unat (ticket_of (of_nat (c * (2 ^ 32 + 1)))) = c" "unat (current_of (of_nat (c * (2 ^ 32 + 1)))) = c"
    "ticket_of (of_nat (c * (2 ^ 32 + 1)) + 1) \<le> current_of (of_nat (c * (2 ^ 32 + 1)) + 1) + 1"
proof -
  let ?w = "of_nat (c * (2 ^ 32 + 1)) :: u64"
  have w: "unat ?w = c * (2 ^ 32 + 1)" using assms by (intro unat_of_nat_lt) simp
  have split: "c * (N + 1) mod N = c" "c * (N + 1) div N = c" if "c < N" for N :: nat
    using that by (simp_all add: distrib_left)
  have "c * (2 ^ 32 + 1) mod 2 ^ 32 = c" "c * (2 ^ 32 + 1) div 2 ^ 32 = c" by (rule split [OF assms])+
  then show h: "unat (ticket_of ?w) = c" "unat (current_of ?w) = c" unfolding unat_ticket_of unat_current_of w by auto
  show "ticket_of (?w + 1) \<le> current_of (?w + 1) + 1"
  proof (cases "c + 1 < 2 ^ 32")
    case True
    define nd where "nd = \<lparr>ticket_lock = ?w, hand_over = False, hand_time = 0\<rparr>"
    have nx: "next_ticket nd = c" "serving nd = c"
      using h unfolding next_ticket_def serving_def unat_ticket_of unat_current_of nd_def by auto
    have "unat (ticket_of (?w + 1)) = c + 1" "unat (current_of (?w + 1)) = c"
      using halves_take(2,3) [of nd, OF _ prod.collapse [symmetric]] True nx
      by (simp_all add: take_ticket_def nd_def next_ticket_def serving_def unat_ticket_of unat_current_of)
    then show ?thesis using True unfolding word_le_nat_alt by (simp add: unat_Suc_lt)
  next
    case False
    then have "c = 2 ^ 32 - 1" using assms by simp
    then have "?w + 1 = 0" by simp
    then show ?thesis by (simp add: ticket_of_def)
  qed
qed

lemma lock_cycle:
  assumes "c < 2 ^ 32"
  shows "lock_cycles (Suc n) (lock_after c) = lock_cycles n (lock_after (Suc c))"
proof -
  note w = cycle_word [OF assms]
  have "ticket_of (of_nat (c * (2 ^ 32 + 1))) = current_of (of_nat (c * (2 ^ 32 + 1)))"
    using w(1,2) by (metis unsigned_word_eqI)
  then have "acquire_local_lock (lock_after c) =
      Inr (False, \<lparr>ticket_lock = of_nat (c * (2 ^ 32 + 1)) + 1, hand_over = False, hand_time = 1\<rparr>)"
    by (simp add: acquire_local_lock_def take_ticket_def enter_local_def lock_after_def Let_def)
  moreover have "of_nat (c * (2 ^ 32 + 1)) + 1 + push_bit 32 1 = (of_nat (Suc c * (2 ^ 32 + 1)) :: u64)"
    by (simp add: push_bit_eq_mult algebra_simps)
  ultimately show ?thesis
    using w(3) by (simp add: can_hand_over_def releases_local_lock_def lock_after_def Let_def del: of_nat_mult)
qed

lemma lock_cycles_after: "c + n \<le> 2 ^ 32 \<Longrightarrow> lock_cycles n (lock_after c) = Inr (lock_after (c + n))"
proof (induction n arbitrary: c)
  case (Suc n)
  then have "c < 2 ^ 32" by simp
  from lock_cycle [OF this] show ?case using Suc by simp
qed simp

lemma lock_cycles_spin: "lock_cycles (Suc n) (lock_after (2 ^ 32)) = Inl Spin"
proof -
  have "ticket_lock (lock_after (2 ^ 32)) = push_bit 32 1"
    by (simp add: lock_after_def push_bit_eq_mult)
  moreover have "ticket_of (push_bit 32 1) \<noteq> current_of (push_bit 32 1)" by code_simp
  ultimately show ?thesis by (simp add: acquire_local_lock_def take_ticket_def)
qed


end
