(* ===== verification/Index_Cache.thy ===== *)
theory Index_Cache
  imports Sherman_Page
begin

text \<open>
  The cache of level-1 pages on a compute node, \<open>dex/include/IndexCache.h\<close> and \<open>CacheEntry.h\<close>: copies
  of internal pages in a skip list ordered by the end of their key range.  The skip list is the
  vendored \<open>InlineSkipList\<close>, used through \<open>InsertConcurrently\<close> (which refuses an equal key),
  \<open>Iterator::Seek\<close> (the first entry not below the argument) and \<open>Next\<close>; here it is the ordered list of
  its entries.  Entries are never removed from it: an evicted or stale page leaves an entry with a null
  pointer.  \<open>rand_r\<close> and \<open>rdtsc\<close> are inputs: the values their next calls return.
\<close>

section \<open>Entries and their order\<close>

text \<open>A cached copy is a page with its \<open>index_cache_freq\<close>, the front word of the page.\<close>

record cached_page =
  cpage :: InternalPage
  index_cache_freq :: u64

record CacheEntry =
  ce_from :: Key
  ce_to :: Key
  ce_ptr :: "cached_page option"

text \<open>\<open>CacheEntryComparator::cmp\<close>: by the end of the range, a shorter range first.\<close>

definition cmp :: "CacheEntry \<Rightarrow> CacheEntry \<Rightarrow> int" where
  "cmp a b = (if ce_to a < ce_to b then - 1
     else if ce_to a > ce_to b then 1
     else if ce_from a < ce_from b then 1
     else if ce_from a > ce_from b then - 1 else 0)"

fun skiplist_insert :: "CacheEntry list \<Rightarrow> CacheEntry \<Rightarrow> (CacheEntry list) option" where
  "skiplist_insert [] e = Some [e]"
| "skiplist_insert (x # xs) e =
     (if cmp e x < 0 then Some (e # x # xs)
      else if cmp e x = 0 then None
      else map_option ((#) x) (skiplist_insert xs e))"

definition skiplist_seek :: "CacheEntry list \<Rightarrow> CacheEntry \<Rightarrow> CacheEntry list" where
  "skiplist_seek xs e = dropWhile (\<lambda>x. cmp x e < 0) xs"

section \<open>The cache\<close>

record IndexCache =
  skiplist :: "CacheEntry list"
  free_page_cnt :: int
  skiplist_node_cnt :: int
  all_page_cnt :: int
  delay_free_list :: "(cached_page \<times> u64) list"
  rand_in :: "u64 list"
  rdtsc_in :: u64

definition sizeof_InternalPage :: nat where
  "sizeof_InternalPage = 8 + 1 + sizeof_Header + kInternalCardinality * sizeof_InternalEntry + 1"

definition IndexCache_new :: "nat \<Rightarrow> u64 list \<Rightarrow> u64 \<Rightarrow> IndexCache" where
  "IndexCache_new cache_size rs ts =
     (let all = int (1024 * 1024 * cache_size div sizeof_InternalPage) in
      \<lparr>skiplist = [], free_page_cnt = all, skiplist_node_cnt = 0, all_page_cnt = all,
       delay_free_list = [], rand_in = rs, rdtsc_in = ts\<rparr>)"

definition add_entry :: "IndexCache \<Rightarrow> Key \<Rightarrow> Key \<Rightarrow> cached_page \<Rightarrow> bool \<times> IndexCache" where
  "add_entry c from till p =
     (case skiplist_insert (skiplist c) \<lparr>ce_from = from, ce_to = till - 1, ce_ptr = Some p\<rparr> of
        Some sl \<Rightarrow> (True, c\<lparr>skiplist := sl\<rparr>)
      | None \<Rightarrow> (False, c))"

definition find_entry_range :: "IndexCache \<Rightarrow> Key \<Rightarrow> Key \<Rightarrow> CacheEntry option" where
  "find_entry_range c from till =
     (case skiplist_seek (skiplist c) \<lparr>ce_from = from, ce_to = till - 1, ce_ptr = None\<rparr> of
        [] \<Rightarrow> None | e # _ \<Rightarrow> Some e)"

definition find_entry :: "IndexCache \<Rightarrow> Key \<Rightarrow> CacheEntry option" where
  "find_entry c k = find_entry_range c k (k + 1)"

text \<open>An entry is named by its range, which is its key in the skip list; this writes its pointer.\<close>

definition set_entry_ptr :: "IndexCache \<Rightarrow> Key \<Rightarrow> Key \<Rightarrow> cached_page option \<Rightarrow> IndexCache" where
  "set_entry_ptr c from till p =
     c\<lparr>skiplist := map (\<lambda>e. if ce_from e = from \<and> ce_to e = till then e\<lparr>ce_ptr := p\<rparr> else e) (skiplist c)\<rparr>"

definition entry_ptr :: "IndexCache \<Rightarrow> CacheEntry \<Rightarrow> cached_page option" where
  "entry_ptr c entry =
     (case find (\<lambda>e. ce_from e = ce_from entry \<and> ce_to e = ce_to entry) (skiplist c) of
        Some e \<Rightarrow> ce_ptr e | None \<Rightarrow> None)"

definition invalidate :: "IndexCache \<Rightarrow> CacheEntry \<Rightarrow> bool \<times> IndexCache" where
  "invalidate c entry =
     (case entry_ptr c entry of
        None \<Rightarrow> (False, c)
      | Some p \<Rightarrow>
          (let c1 = set_entry_ptr c (ce_from entry) (ce_to entry) None in
           (True, c1\<lparr>delay_free_list := delay_free_list c1 @ [(p, rdtsc_in c1)]\<rparr>)))"

text \<open>The child of a cached page for \<open>k\<close>, with the loop of \<open>internal_page_search\<close>.\<close>

definition cached_child :: "InternalPage \<Rightarrow> Key \<Rightarrow> GlobalAddress" where
  "cached_child page k =
     (let h = ip_hdr page; rs = ip_records page; cnt = hdr_cnt h in
      if k < ie_key (rs ! 0) then leftmost_ptr h
      else case find (\<lambda>i. k < ie_key (rs ! i)) [1..<nat cnt] of
        Some i \<Rightarrow> ie_ptr (rs ! (i - 1))
      | None \<Rightarrow> ie_ptr (rs ! nat (cnt - 1)))"

text \<open>Freeing the oldest page of the delay list, what thread 0 tries first.\<close>

definition leader_free :: "IndexCache \<Rightarrow> IndexCache" where
  "leader_free c =
     (case delay_free_list c of
        [] \<Rightarrow> c
      | (p, t) # ps \<Rightarrow>
          if rdtsc_in c - t > 3000 * 10
          then c\<lparr>free_page_cnt := free_page_cnt c + 1, delay_free_list := ps\<rparr> else c)"

definition search_from_cache ::
  "IndexCache \<Rightarrow> Key \<Rightarrow> bool \<Rightarrow> (CacheEntry \<times> GlobalAddress) option \<times> IndexCache" where
  "search_from_cache c0 k is_leader =
     (let c = (if is_leader then leader_free c0 else c0) in
      case find_entry c k of
        None \<Rightarrow> (None, c)
      | Some entry \<Rightarrow>
          (case ce_ptr entry of
             None \<Rightarrow> (None, c)
           | Some p \<Rightarrow>
               if ce_from entry \<le> k \<and> ce_to entry \<ge> k then
                 (let p' = p\<lparr>index_cache_freq := index_cache_freq p + 1\<rparr>
                  in (Some (entry\<lparr>ce_ptr := Some p'\<rparr>, cached_child (cpage p) k),
                      set_entry_ptr c (ce_from entry) (ce_to entry) (Some p')))
               else (None, c)))"

text \<open>
  \<open>rand_r(&seed) % (1000 MB)\<close> until a key is cached: \<open>None\<close> when the given random values do not find
  an entry.
\<close>

function get_a_random_entry :: "IndexCache \<Rightarrow> (CacheEntry \<times> u64 \<times> IndexCache) option" where
  "get_a_random_entry c =
     (case rand_in c of
        [] \<Rightarrow> None
      | r # rs \<Rightarrow>
          (case search_from_cache (c\<lparr>rand_in := rs\<rparr>) (r mod (1000 * (1024 * 1024))) False of
             (Some (e, addr), c1) \<Rightarrow>
               Some (e, (case ce_ptr e of Some p \<Rightarrow> index_cache_freq p | None \<Rightarrow> 0), c1)
           | (None, c1) \<Rightarrow> get_a_random_entry (c1\<lparr>rand_in := rs\<rparr>)))"
  by auto
termination by (relation "measure (\<lambda>c. length (rand_in c))") auto

declare get_a_random_entry.simps [simp del]

definition evict_one :: "IndexCache \<Rightarrow> IndexCache option" where
  "evict_one c =
     (case get_a_random_entry c of
        None \<Rightarrow> None
      | Some (e1, freq1, c1) \<Rightarrow>
          (case get_a_random_entry c1 of
             None \<Rightarrow> None
           | Some (e2, freq2, c2) \<Rightarrow>
               Some (snd (invalidate c2 (if freq1 < freq2 then e1 else e2)))))"

text \<open>\<open>free_page_cnt.fetch_add(-1)\<close>, and an eviction when it was not positive.\<close>

definition take_free_page :: "IndexCache \<Rightarrow> IndexCache option" where
  "take_free_page c =
     (let c1 = c\<lparr>free_page_cnt := free_page_cnt c - 1\<rparr> in
      if free_page_cnt c \<le> 0 then evict_one c1 else Some c1)"

definition add_to_cache :: "IndexCache \<Rightarrow> InternalPage \<Rightarrow> (bool \<times> IndexCache) option" where
  "add_to_cache c page =
     (let new_page = \<lparr>cpage = page, index_cache_freq = 0\<rparr>; lo = lowest (ip_hdr page); hi = highest (ip_hdr page) in
      case add_entry c lo hi new_page of
        (True, c1) \<Rightarrow>
          map_option (Pair True) (take_free_page (c1\<lparr>skiplist_node_cnt := skiplist_node_cnt c1 + 1\<rparr>))
      | (False, c1) \<Rightarrow>
          (case find_entry_range c1 lo hi of
             Some e \<Rightarrow>
               if ce_from e = lo \<and> ce_to e = hi - 1 \<and> ce_ptr e = None
               then map_option (Pair True) (take_free_page (set_entry_ptr c1 lo (hi - 1) (Some new_page)))
               else Some (False, c1)
           | None \<Rightarrow> Some (False, c1)))"

text \<open>\<open>search_range_from_cache\<close>: the cached pages from the position of \<open>from\<close> on, up to one that starts after \<open>to\<close>.\<close>

fun range_walk :: "CacheEntry list \<Rightarrow> Key \<Rightarrow> InternalPage list" where
  "range_walk [] till = []"
| "range_walk (e # es) till =
     (case ce_ptr e of
        None \<Rightarrow> range_walk es till
      | Some p \<Rightarrow> if ce_from e > till then [] else cpage p # range_walk es till)"

definition search_range_from_cache :: "IndexCache \<Rightarrow> Key \<Rightarrow> Key \<Rightarrow> InternalPage list" where
  "search_range_from_cache c from till =
     range_walk (skiplist_seek (skiplist c) \<lparr>ce_from = from, ce_to = from, ce_ptr = None\<rparr>) till"

section \<open>What every cached copy satisfies\<close>

definition cache_all :: "(Key \<Rightarrow> Key \<Rightarrow> InternalPage \<Rightarrow> bool) \<Rightarrow> IndexCache \<Rightarrow> bool" where
  "cache_all Q c \<longleftrightarrow> (\<forall>e \<in> set (skiplist c). \<forall>p. ce_ptr e = Some p \<longrightarrow> Q (ce_from e) (ce_to e) (cpage p))"

lemma cache_allD: "cache_all Q c \<Longrightarrow> e \<in> set (skiplist c) \<Longrightarrow> ce_ptr e = Some p \<Longrightarrow> Q (ce_from e) (ce_to e) (cpage p)"
  by (simp add: cache_all_def)

lemma cache_all_mono: "cache_all Q c \<Longrightarrow> (\<And>a b p. Q a b p \<Longrightarrow> R a b p) \<Longrightarrow> cache_all R c"
  by (auto simp: cache_all_def)

lemma cache_all_fields [simp]:
  "cache_all Q (c\<lparr>free_page_cnt := x\<rparr>) = cache_all Q c" "cache_all Q (c\<lparr>skiplist_node_cnt := x\<rparr>) = cache_all Q c"
  "cache_all Q (c\<lparr>delay_free_list := ps\<rparr>) = cache_all Q c" "cache_all Q (c\<lparr>rand_in := rs\<rparr>) = cache_all Q c"
  by (simp_all add: cache_all_def)

lemma cache_all_set_ptr:
  "cache_all Q c \<Longrightarrow> (\<And>x. p = Some x \<Longrightarrow> Q a b (cpage x)) \<Longrightarrow> cache_all Q (set_entry_ptr c a b p)"
  by (auto simp: cache_all_def set_entry_ptr_def)

lemma skiplist_insert_set: "skiplist_insert xs e = Some ys \<Longrightarrow> set ys = insert e (set xs)"
  by (induction xs e arbitrary: ys rule: skiplist_insert.induct) (auto split: if_splits)

lemma set_skiplist_seek: "set (skiplist_seek xs e) \<subseteq> set xs"
  unfolding skiplist_seek_def by (auto dest: set_dropWhileD)

lemma find_entry_range_mem: "find_entry_range c a b = Some e \<Longrightarrow> e \<in> set (skiplist c)"
  using set_skiplist_seek [of "skiplist c" "\<lparr>ce_from = a, ce_to = b - 1, ce_ptr = None\<rparr>"]
  by (auto simp: find_entry_range_def split: list.splits)

lemma cache_all_leader [simp]: "cache_all Q (leader_free c) = cache_all Q c"
  by (auto simp: leader_free_def cache_all_def split: list.splits)

lemma cache_all_search:
  assumes "cache_all Q c" "search_from_cache c k l = (r, c')"
  shows "cache_all Q c'"
    "r = Some (e, a) \<Longrightarrow> \<exists>p. Q (ce_from e) (ce_to e) (cpage p) \<and> ce_ptr e = Some p \<and> ce_from e \<le> k \<and> k \<le> ce_to e \<and>
       a = cached_child (cpage p) k"
proof -
  define c1 where "c1 = (if l then leader_free c else c)"
  have c1: "cache_all Q c1" using assms(1) by (simp add: c1_def)
  have Q: "Q (ce_from x) (ce_to x) (cpage p)" if "find_entry c1 k = Some x" "ce_ptr x = Some p" for x p
    using that c1 find_entry_range_mem unfolding find_entry_def by (blast intro: cache_allD)
  show "cache_all Q c'"
    using assms(2) c1 Q unfolding search_from_cache_def c1_def [symmetric] Let_def
    by (auto intro!: cache_all_set_ptr split: option.splits if_splits)
  show "\<exists>p. Q (ce_from e) (ce_to e) (cpage p) \<and> ce_ptr e = Some p \<and> ce_from e \<le> k \<and> k \<le> ce_to e \<and>
       a = cached_child (cpage p) k" if "r = Some (e, a)"
    using assms(2) Q that unfolding search_from_cache_def c1_def [symmetric] Let_def
    by (auto split: option.splits if_splits)
qed

lemma cache_all_invalidate: "cache_all Q c \<Longrightarrow> cache_all Q (snd (invalidate c e))"
  unfolding invalidate_def by (auto simp: Let_def intro!: cache_all_set_ptr split: option.splits)

lemma cache_all_random: "cache_all Q c \<Longrightarrow> get_a_random_entry c = Some (e, f, c') \<Longrightarrow> cache_all Q c'"
proof (induction c rule: get_a_random_entry.induct)
  case (1 c)
  obtain r rs where rs: "rand_in c = r # rs" using "1.prems"(2) by (subst (asm) get_a_random_entry.simps) (auto split: list.splits)
  obtain q c1 where s: "search_from_cache (c\<lparr>rand_in := rs\<rparr>) (r mod (1000 * (1024 * 1024))) False = (q, c1)" by fastforce
  have c1: "cache_all Q c1" using cache_all_search(1) [OF _ s] "1.prems"(1) by (simp add: cache_all_def)
  show ?case
  proof (cases q)
    case None
    then have "get_a_random_entry (c1\<lparr>rand_in := rs\<rparr>) = Some (e, f, c')"
      using "1.prems"(2) rs s by (subst (asm) get_a_random_entry.simps) simp
    then show ?thesis using "1.IH" [OF rs s [symmetric]] None c1 by (simp add: cache_all_def)
  next
    case (Some x)
    then show ?thesis
      using "1.prems"(2) rs s c1 by (subst (asm) get_a_random_entry.simps) (auto split: prod.splits)
  qed
qed

lemma cache_all_evict: "cache_all Q c \<Longrightarrow> evict_one c = Some c' \<Longrightarrow> cache_all Q c'"
  unfolding evict_one_def
  by (auto split: option.splits intro!: cache_all_invalidate) (metis cache_all_random)

lemma cache_all_take_free: "cache_all Q c \<Longrightarrow> take_free_page c = Some c' \<Longrightarrow> cache_all Q c'"
  using cache_all_evict [of Q "c\<lparr>free_page_cnt := free_page_cnt c - 1\<rparr>" c']
  by (auto simp: take_free_page_def Let_def split: if_splits)

lemma cache_all_add:
  assumes "cache_all Q c" "Q (lowest (ip_hdr page)) (highest (ip_hdr page) - 1) page" "add_to_cache c page = Some (b, c')"
  shows "cache_all Q c'"
proof -
  let ?p = "\<lparr>cpage = page, index_cache_freq = 0\<rparr>"
  obtain r c1 where a: "add_entry c (lowest (ip_hdr page)) (highest (ip_hdr page)) ?p = (r, c1)" by fastforce
  have c1: "cache_all Q c1"
    using assms(1,2) a skiplist_insert_set unfolding add_entry_def
    by (fastforce simp: cache_all_def split: option.splits)
  have free: "cache_all Q c'" if "map_option (Pair True) (take_free_page c2) = Some (b, c')" "cache_all Q c2" for c2
    using that cache_all_take_free by blast
  have upd: "cache_all Q (set_entry_ptr c1 (lowest (ip_hdr page)) (highest (ip_hdr page) - 1) (Some ?p))"
    using assms(2) by (intro cache_all_set_ptr [OF c1]) auto
  have node: "cache_all Q (c1\<lparr>skiplist_node_cnt := skiplist_node_cnt c1 + 1\<rparr>)" using c1 by (simp add: cache_all_def)
  show ?thesis
    using assms(3) a free [OF _ node] free [OF _ upd] c1
    by (cases r) (simp_all add: add_to_cache_def Let_def split: option.splits if_splits)
qed

section \<open>A cached page answers for its range\<close>

lemma cached_child_routes:
  assumes "internal_page_wf page" "lowest (ip_hdr page) \<le> k" "k < highest (ip_hdr page)"
  shows "routes page k (cached_child page k)"
proof -
  have n: "kInternalCardinality - 1 \<le> kInternalCardinality" by simp
  note D = internal_okD [OF assms(1)]
  obtain a where a: "internal_page_search page k empty_result = Inr (empty_result\<lparr>next_level := a\<rparr>)" "routes page k a"
    using internal_page_search_correct [OF assms(1) n assms(2,3)] by blast
  moreover have "internal_page_search page k empty_result = Inr (empty_result\<lparr>next_level := cached_child page k\<rparr>)"
    using a(1) assms(2,3) D(1-3)
    by (auto simp: internal_page_search_def cached_child_def Let_def split: option.splits if_splits)
  ultimately have "a = cached_child page k" by (simp add: empty_result_def)
  then show ?thesis using a(2) by simp
qed

lemma cmp_simps:
  "cmp a b < 0 \<longleftrightarrow> ce_to a < ce_to b \<or> ce_to a = ce_to b \<and> ce_from b < ce_from a"
  "cmp a b = 0 \<longleftrightarrow> ce_to a = ce_to b \<and> ce_from a = ce_from b"
  by (auto simp: cmp_def)

lemma skiplist_insert_split:
  assumes "\<And>x. x \<in> set sl \<Longrightarrow> cmp e x \<noteq> 0"
  shows "\<exists>xs ys. sl = xs @ ys \<and> skiplist_insert sl e = Some (xs @ e # ys) \<and> (\<forall>x \<in> set xs. cmp x e < 0)"
  using assms
proof (induction sl)
  case (Cons x sl)
  show ?case
  proof (cases "cmp e x < 0")
    case True
    then show ?thesis by (intro exI [of _ "[]"] exI [of _ "x # sl"]) simp
  next
    case False
    moreover have "cmp e x \<noteq> 0" using Cons.prems by simp
    ultimately have "cmp x e < 0" by (auto simp: cmp_def split: if_splits)
    moreover obtain xs ys where "sl = xs @ ys" "skiplist_insert sl e = Some (xs @ e # ys)" "\<forall>x \<in> set xs. cmp x e < 0"
      using Cons by auto
    ultimately show ?thesis using False \<open>cmp e x \<noteq> 0\<close> by (rule_tac exI [of _ "x # xs"], rule_tac exI [of _ ys]) auto
  qed
qed simp

text \<open>
  The ranges of the pages a tree has had over time nest: the page is now at \<open>[lo, hi]\<close>, every cached
  range is apart from it or contains it, and is not it.
\<close>

definition nests :: "Key \<Rightarrow> Key \<Rightarrow> CacheEntry \<Rightarrow> bool" where
  "nests lo hi e \<longleftrightarrow> ce_to e < lo \<or> (hi < ce_from e \<and> ce_from e \<le> ce_to e) \<or>
     (ce_from e \<le> lo \<and> hi \<le> ce_to e \<and> (ce_from e, ce_to e) \<noteq> (lo, hi))"


definition sample_cache :: IndexCache where
  "sample_cache = \<lparr>skiplist = [\<lparr>ce_from = 0, ce_to = 99, ce_ptr = None\<rparr>], free_page_cnt = 2, skiplist_node_cnt = 1,
     all_page_cnt = 3, delay_free_list = [], rand_in = [], rdtsc_in = 0\<rparr>"

definition sample_cached :: InternalPage where
  "sample_cached = (sample_internal_page 3)\<lparr>ip_hdr := (ip_hdr (sample_internal_page 3))\<lparr>highest := 50\<rparr>\<rparr>"


end
