(* ===== verification/Sherman_Tree.thy ===== *)
theory Sherman_Tree
  imports Sherman_Lock Index_Cache Btree_Rpc
begin

text \<open>
  The Sherman tree, \<open>dex/src/Tree.cpp\<close>: the handlers of one client thread over the pages in remote
  memory, the lock and version words in on-chip memory, the local locks of its compute node, the
  allocator, the root pointer and the index cache.  A handler runs without interference here; what
  other threads can do to a page between its lock and its release is the subject of \<open>Sherman_Lock\<close>.
  Loops that follow pointers take fuel, one unit for each page they visit; \<open>OutOfFuel\<close> is not a result
  of the program.
\<close>

section \<open>State\<close>

text \<open>A page of remote memory; both kinds have their header at the same offset.\<close>

datatype page = Leaf LeafPage | Inner InternalPage

fun page_hdr :: "page \<Rightarrow> Header" where
  "page_hdr (Leaf p) = lp_hdr p"
| "page_hdr (Inner p) = ip_hdr p"

text \<open>
  \<open>CityHash64\<close> is the vendored hash of a page address; \<open>thread_tag\<close> and \<open>thread_id\<close> are the client's.
\<close>

record tree_conf =
  t_dsm :: dsm_conf
  thread_id :: nat
  thread_tag :: u64
  CityHash64 :: "GlobalAddress \<Rightarrow> u64"

text \<open>
  \<open>globals\<close> are the process-wide \<open>g_root_ptr\<close>, \<open>g_root_level\<close> and \<open>enable_cache\<close> the directory keeps;
  \<open>outbox\<close> the messages sent to the directories.
\<close>

record sherman =
  pages :: "GlobalAddress \<Rightarrow> page option"
  root_cell :: GlobalAddress
  chip :: "GlobalAddress \<Rightarrow> u64"
  local_locks :: "u64 \<Rightarrow> u64 \<Rightarrow> LocalLockNode"
  sdsm :: dsm
  globals :: directory
  path_stack :: "GlobalAddress list"
  index_cache :: IndexCache
  cache_hit :: u64
  cache_miss :: u64
  outbox :: "(nat \<times> RawMessage) list"

definition kMaxLevelOfTree :: nat where "kMaxLevelOfTree = 7"

definition kLockChipMemSize :: u64 where "kLockChipMemSize = 128 * 1024"

definition kNumOfLock :: u64 where "kNumOfLock = kLockChipMemSize div (8 * 2)"

definition before_operation :: "sherman \<Rightarrow> sherman" where
  "before_operation st = st\<lparr>path_stack := replicate kMaxLevelOfTree Null\<rparr>"

definition get_root_ptr_ptr :: "u64 \<Rightarrow> GlobalAddress" where
  "get_root_ptr_ptr tree_id = mk_GlobalAddress 0 (kRootPointerStoreOffest + 8 * tree_id)"

definition get_root_ptr :: "sherman \<Rightarrow> GlobalAddress" where
  "get_root_ptr st = (if addr_eq (g_root_ptr (globals st)) Null then root_cell st else g_root_ptr (globals st))"

section \<open>Locks and page writes\<close>

definition lock_addr_of :: "tree_conf \<Rightarrow> GlobalAddress \<Rightarrow> GlobalAddress" where
  "lock_addr_of conf page_addr =
     (let lock_index = CityHash64 conf page_addr mod kNumOfLock
      in mk_GlobalAddress (nodeID page_addr) (lock_index * 8 * 2 + 8))"

definition version_addr_of :: "GlobalAddress \<Rightarrow> GlobalAddress" where
  "version_addr_of lock_addr = set_offset lock_addr (offset lock_addr - 8)"

definition local_lock :: "sherman \<Rightarrow> GlobalAddress \<Rightarrow> LocalLockNode" where
  "local_lock st lock_addr = local_locks st (nodeID lock_addr) ((offset lock_addr - 8) div 16)"

definition set_local_lock :: "sherman \<Rightarrow> GlobalAddress \<Rightarrow> LocalLockNode \<Rightarrow> sherman" where
  "set_local_lock st lock_addr nd =
     st\<lparr>local_locks := (local_locks st)(nodeID lock_addr :=
          (local_locks st (nodeID lock_addr))((offset lock_addr - 8) div 16 := nd))\<rparr>"

text \<open>
  The compare-and-swap loop gives up with a failed assertion after a million attempts against the
  same holder; with nobody else running the word does not change.
\<close>

definition try_lock_addr :: "tree_conf \<Rightarrow> GlobalAddress \<Rightarrow> sherman \<Rightarrow> sherman_error + sherman" where
  "try_lock_addr conf lock_addr st =
     rbind (acquire_local_lock (local_lock st lock_addr)) (\<lambda>(handed, nd).
       let st1 = set_local_lock st lock_addr nd in
       if handed then Inr st1
       else if chip st1 lock_addr = 0 then Inr (st1\<lparr>chip := (chip st1)(lock_addr := thread_tag conf)\<rparr>)
       else Inl Deadlock)"

definition unlock_addr :: "GlobalAddress \<Rightarrow> sherman \<Rightarrow> sherman" where
  "unlock_addr lock_addr st =
     (let (hand_over_other, nd) = can_hand_over (local_lock st lock_addr);
          st1 = (if hand_over_other then st else st\<lparr>chip := (chip st)(lock_addr := 0)\<rparr>)
      in set_local_lock st1 lock_addr (releases_local_lock nd))"

text \<open>
  \<open>upd\<close> is the write of the page or of one entry.  Without a hand-over the version word in front of the
  lock is increased by the same write that clears the lock.
\<close>

definition write_page_and_unlock ::
  "((GlobalAddress \<Rightarrow> page option) \<Rightarrow> (GlobalAddress \<Rightarrow> page option)) \<Rightarrow> GlobalAddress \<Rightarrow> sherman \<Rightarrow> sherman" where
  "write_page_and_unlock upd lock_addr st =
     (let (hand_over_other, nd) = can_hand_over (local_lock st lock_addr);
          version_addr = version_addr_of lock_addr;
          st1 = st\<lparr>pages := upd (pages st)\<rparr>;
          st2 = (if hand_over_other then st1
                 else st1\<lparr>chip := (chip st1)(version_addr := chip st1 version_addr + 1, lock_addr := 0)\<rparr>)
      in set_local_lock st2 lock_addr (releases_local_lock nd))"

definition lock_and_read_page :: "tree_conf \<Rightarrow> GlobalAddress \<Rightarrow> sherman \<Rightarrow> sherman_error + page \<times> sherman" where
  "lock_and_read_page conf page_addr st =
     rbind (try_lock_addr conf (lock_addr_of conf page_addr) st) (\<lambda>st1.
       case pages st1 page_addr of None \<Rightarrow> Inl BadPage | Some p \<Rightarrow> Inr (p, st1))"

definition lock_bench :: "tree_conf \<Rightarrow> Key \<Rightarrow> sherman \<Rightarrow> sherman_error + sherman" where
  "lock_bench conf k st =
     (let lock_addr = mk_GlobalAddress 0 (CityHash64 conf k mod kNumOfLock * 8 * 2 + 8)
      in rbind (try_lock_addr (conf\<lparr>thread_tag := 1\<rparr>) lock_addr st) (\<lambda>st1. Inr (unlock_addr lock_addr st1)))"

definition tree_alloc :: "tree_conf \<Rightarrow> nat \<Rightarrow> sherman \<Rightarrow> sherman_error + GlobalAddress \<times> sherman" where
  "tree_alloc conf sz st =
     (case DSM_alloc (t_dsm conf) (sdsm st) (thread_id conf) (of_nat sz) of
        Inl e \<Rightarrow> Inl AllocError
      | Inr (a, d) \<Rightarrow> Inr (a, st\<lparr>sdsm := d\<rparr>))"

section \<open>The root\<close>

text \<open>The constructor: a new leaf is installed as the root unless another process was first.\<close>

definition Tree_new :: "tree_conf \<Rightarrow> nat \<Rightarrow> sherman \<Rightarrow> sherman_error + sherman" where
  "Tree_new conf cache_size st =
     (let st0 = st\<lparr>local_locks := (\<lambda>_ _. LocalLockNode_new),
                  index_cache := IndexCache_new cache_size (rand_in (index_cache st)) (rdtsc_in (index_cache st))\<rparr> in
      rbind (tree_alloc conf kLeafPageSize st0) (\<lambda>(root_addr, st1).
      let st2 = st1\<lparr>pages := (pages st1)(root_addr \<mapsto> Leaf (LeafPage_set_consistent (LeafPage_new 0)))\<rparr> in
      Inr (if root_cell st2 = 0 then st2\<lparr>root_cell := root_addr\<rparr> else st2)))"

definition broadcast_new_root :: "tree_conf \<Rightarrow> GlobalAddress \<Rightarrow> int \<Rightarrow> sherman \<Rightarrow> sherman" where
  "broadcast_new_root conf new_root_addr root_level st =
     (let m = \<lparr>msg_type = NEW_ROOT, msg_node_id = 0, msg_app_id = 0, msg_addr = new_root_addr,
               msg_level = root_level, msg_k = 0, msg_v = 0\<rparr>
      in st\<lparr>outbox := outbox st @ map (\<lambda>i. (i, m)) [0..<machineNR (t_dsm conf)]\<rparr>)"

definition update_new_root ::
  "tree_conf \<Rightarrow> GlobalAddress \<Rightarrow> Key \<Rightarrow> GlobalAddress \<Rightarrow> int \<Rightarrow> GlobalAddress \<Rightarrow> sherman \<Rightarrow> sherman_error + bool \<times> sherman" where
  "update_new_root conf left k right lev old_root st =
     (let new_root = InternalPage_grow left k right (word_of_int lev) in
      rbind (tree_alloc conf kInternalPageSize st) (\<lambda>(new_root_addr, st1).
      let st2 = st1\<lparr>pages := (pages st1)(new_root_addr \<mapsto> Inner (InternalPage_set_consistent new_root))\<rparr> in
      if root_cell st2 = old_root
      then Inr (True, broadcast_new_root conf new_root_addr lev (st2\<lparr>root_cell := new_root_addr\<rparr>))
      else Inr (False, st2)))"

section \<open>Searching a page\<close>

text \<open>The test after the page has been read: read again when it holds.\<close>

definition must_re_read :: "u64 \<Rightarrow> u64 \<Rightarrow> u64 \<Rightarrow> bool" where
  "must_re_read org_version cur_version cur_lock \<longleftrightarrow> org_version \<noteq> cur_version \<and> cur_lock \<noteq> 0"

text \<open>
  One attempt with what its three reads saw: the version and lock words, the page, the words again.
  \<open>None\<close> means \<open>goto re_read\<close>.
\<close>

definition page_search_attempt ::
  "u64 \<times> u64 \<Rightarrow> page \<Rightarrow> u64 \<times> u64 \<Rightarrow> GlobalAddress \<Rightarrow> Key \<Rightarrow> bool \<Rightarrow> sherman \<Rightarrow>
   (sherman_error + bool \<times> SearchResult \<times> sherman) option" where
  "page_search_attempt org p cur page_addr k from_cache st =
     (let header = page_hdr p;
          result = empty_result\<lparr>is_leaf := addr_eq (leftmost_ptr header) Null, res_level := hlevel header\<rparr>;
          lv = unat (hlevel header);
          st1 = st\<lparr>path_stack := (path_stack st)[lv := page_addr]\<rparr> in
      if snd org \<noteq> 0 then None
      else if lv \<ge> length (path_stack st) then Some (Inl PathOverflow)
      else if is_leaf result then
        (case p of Inner _ \<Rightarrow> Some (Inl BadPage) | Leaf page \<Rightarrow>
           if must_re_read (fst org) (fst cur) (snd cur) then None
           else Some (if from_cache \<and> (k < lowest header \<or> k \<ge> highest header) then Inr (False, result, st1)
           else rbind (check (hlevel header = 0) AssertFail) (\<lambda>_.
           if k \<ge> highest header then Inr (True, result\<lparr>slibing := sibling_ptr header\<rparr>, st1)
           else rbind (check (\<not> k < lowest header) AssertFail) (\<lambda>_.
           Inr (True, leaf_page_search page k result, st1)))))
      else
        (case p of Leaf _ \<Rightarrow> Some (Inl BadPage) | Inner page \<Rightarrow>
           if hlevel header = 0 \<or> from_cache then Some (Inl AssertFail)
           else if must_re_read (fst org) (fst cur) (snd cur) then None
           else Some (rbind (if hlevel header = 1 \<and> enable_cache (globals st1)
                  then (case add_to_cache (index_cache st1) page of
                          None \<Rightarrow> Inl Spin | Some (b, c) \<Rightarrow> Inr (st1\<lparr>index_cache := c\<rparr>))
                  else Inr st1) (\<lambda>st2.
           if k \<ge> highest header then Inr (True, result\<lparr>slibing := sibling_ptr header\<rparr>, st2)
           else rbind (check (\<not> k < lowest header) AssertFail) (\<lambda>_.
           rbind (internal_page_search page k result) (\<lambda>result'. Inr (True, result', st2)))))))"

text \<open>Undisturbed, all attempts see the same words: a set lock is waited for without end.\<close>

definition page_search ::
  "tree_conf \<Rightarrow> GlobalAddress \<Rightarrow> Key \<Rightarrow> bool \<Rightarrow> sherman \<Rightarrow> sherman_error + bool \<times> SearchResult \<times> sherman" where
  "page_search conf page_addr k from_cache st =
     (let lock_addr = lock_addr_of conf page_addr;
          words = (chip st (version_addr_of lock_addr), chip st lock_addr) in
      case pages st page_addr of
        None \<Rightarrow> Inl BadPage
      | Some p \<Rightarrow>
          (case page_search_attempt words p words page_addr k from_cache st of
             None \<Rightarrow> Inl Spin | Some r \<Rightarrow> r))"

section \<open>Storing\<close>

definition write_page :: "GlobalAddress \<Rightarrow> page \<Rightarrow> (GlobalAddress \<Rightarrow> page option) \<Rightarrow> GlobalAddress \<Rightarrow> page option" where
  "write_page a p mem = mem(a \<mapsto> p)"

text \<open>The write of one \<open>LeafEntry\<close> at its place in the remote page.\<close>

definition write_entry :: "GlobalAddress \<Rightarrow> nat \<Rightarrow> LeafEntry \<Rightarrow> (GlobalAddress \<Rightarrow> page option) \<Rightarrow> GlobalAddress \<Rightarrow> page option" where
  "write_entry a i r mem =
     (case mem a of Some (Leaf p) \<Rightarrow> mem(a \<mapsto> Leaf (p\<lparr>lp_records := (lp_records p)[i := r]\<rparr>)) | _ \<Rightarrow> mem)"

fun internal_page_store ::
  "nat \<Rightarrow> tree_conf \<Rightarrow> GlobalAddress \<Rightarrow> Key \<Rightarrow> GlobalAddress \<Rightarrow> GlobalAddress \<Rightarrow> nat \<Rightarrow> sherman \<Rightarrow> sherman_error + sherman" where
  "internal_page_store 0 conf page_addr k v root lev st = Inl OutOfFuel"
| "internal_page_store (Suc fuel) conf page_addr k v root lev st =
     (let lock_addr = lock_addr_of conf page_addr in
      rbind (check (thread_tag conf \<noteq> 0) AssertFail) (\<lambda>_.
      rbind (lock_and_read_page conf page_addr st) (\<lambda>(p, st1).
      case p of Leaf _ \<Rightarrow> Inl BadPage | Inner page \<Rightarrow>
      rbind (check (unat (hlevel (ip_hdr page)) = lev) AssertFail) (\<lambda>_.
      rbind (check (InternalPage_check_consistent page) AssertFail) (\<lambda>_.
      if k \<ge> highest (ip_hdr page) then
        (let st2 = unlock_addr lock_addr st1 in
         rbind (check (\<not> addr_eq (sibling_ptr (ip_hdr page)) Null) AssertFail) (\<lambda>_.
         internal_page_store fuel conf (sibling_ptr (ip_hdr page)) k v root lev st2))
      else
      rbind (check (k \<ge> lowest (ip_hdr page)) AssertFail) (\<lambda>_.
      rbind (internal_store_entry page k v) (\<lambda>page1.
      if hdr_cnt (ip_hdr page1) \<noteq> int kInternalCardinality then
        Inr (write_page_and_unlock (write_page page_addr (Inner (InternalPage_set_consistent page1))) lock_addr st1)
      else
      rbind (tree_alloc conf kInternalPageSize st1) (\<lambda>(sibling_addr, st2).
      rbind (internal_split_page page1 sibling_addr) (\<lambda>(page2, sibling, split_key).
      let st3 = st2\<lparr>pages := write_page sibling_addr (Inner sibling) (pages st2)\<rparr>;
          st4 = write_page_and_unlock (write_page page_addr (Inner (InternalPage_set_consistent page2))) lock_addr st3 in
      rbind (if root = page_addr then update_new_root conf page_addr split_key sibling_addr (int lev + 1) root st4
             else Inr (False, st4)) (\<lambda>(grown, st5).
      if grown then Inr st5
      else if lev + 1 \<ge> length (path_stack st5) then Inl PathOverflow
      else if addr_eq (path_stack st5 ! (lev + 1)) Null then Inl AssertFail
      else internal_page_store fuel conf (path_stack st5 ! (lev + 1)) split_key sibling_addr root (lev + 1) st5))))))))))"

text \<open>The descent of \<open>insert_internal\<close>: \<open>p\<close> is the page at \<open>lev\<close> to store into.\<close>

fun insert_internal_loop ::
  "nat \<Rightarrow> tree_conf \<Rightarrow> GlobalAddress \<Rightarrow> Key \<Rightarrow> nat \<Rightarrow> sherman \<Rightarrow> sherman_error + GlobalAddress \<times> sherman" where
  "insert_internal_loop 0 conf p k lev st = Inl OutOfFuel"
| "insert_internal_loop (Suc fuel) conf p k lev st =
     rbind (page_search conf p k False st) (\<lambda>(found, result, st1).
     if \<not> found then insert_internal_loop fuel conf (get_root_ptr st1) k lev st1
     else rbind (check (res_level result \<noteq> 0) AssertFail) (\<lambda>_.
     if \<not> addr_eq (slibing result) Null then insert_internal_loop fuel conf (slibing result) k lev st1
     else if unat (res_level result) \<noteq> lev + 1 then insert_internal_loop fuel conf (next_level result) k lev st1
     else Inr (next_level result, st1)))"

definition insert_internal ::
  "nat \<Rightarrow> tree_conf \<Rightarrow> Key \<Rightarrow> GlobalAddress \<Rightarrow> nat \<Rightarrow> sherman \<Rightarrow> sherman_error + sherman" where
  "insert_internal fuel conf k v lev st =
     (let root = get_root_ptr st in
      rbind (insert_internal_loop fuel conf root k lev st) (\<lambda>(p, st1).
      internal_page_store fuel conf p k v root lev st1))"

fun leaf_page_store ::
  "nat \<Rightarrow> tree_conf \<Rightarrow> GlobalAddress \<Rightarrow> Key \<Rightarrow> Value \<Rightarrow> GlobalAddress \<Rightarrow> nat \<Rightarrow> bool \<Rightarrow> sherman \<Rightarrow> sherman_error + bool \<times> sherman" where
  "leaf_page_store 0 conf page_addr k v root lev from_cache st = Inl OutOfFuel"
| "leaf_page_store (Suc fuel) conf page_addr k v root lev from_cache st =
     (let lock_addr = lock_addr_of conf page_addr in
      rbind (check (thread_tag conf \<noteq> 0) AssertFail) (\<lambda>_.
      rbind (lock_and_read_page conf page_addr st) (\<lambda>(p, st1).
      case p of Inner _ \<Rightarrow> Inl BadPage | Leaf page \<Rightarrow>
      rbind (check (unat (hlevel (lp_hdr page)) = lev) AssertFail) (\<lambda>_.
      rbind (check (LeafPage_check_consistent page) AssertFail) (\<lambda>_.
      if from_cache \<and> (k < lowest (lp_hdr page) \<or> k \<ge> highest (lp_hdr page)) then Inr (False, unlock_addr lock_addr st1)
      else if k \<ge> highest (lp_hdr page) then
        (let st2 = unlock_addr lock_addr st1 in
         rbind (check (\<not> addr_eq (sibling_ptr (lp_hdr page)) Null) AssertFail) (\<lambda>_.
         rbind (leaf_page_store fuel conf (sibling_ptr (lp_hdr page)) k v root lev False st2) (\<lambda>(b, st3).
         Inr (True, st3))))
      else
      rbind (check (k \<ge> lowest (lp_hdr page)) AssertFail) (\<lambda>_.
      rbind (leaf_store_entry page k v) (\<lambda>(page1, i, cnt).
      if cnt \<noteq> kLeafCardinality then
        Inr (True, write_page_and_unlock (write_entry page_addr i (lp_records page1 ! i)) lock_addr st1)
      else
      rbind (tree_alloc conf kLeafPageSize st1) (\<lambda>(sibling_addr, st2).
      rbind (leaf_split_page page1 cnt sibling_addr) (\<lambda>(page2, sibling, split_key).
      let st3 = st2\<lparr>pages := write_page sibling_addr (Leaf sibling) (pages st2)\<rparr>;
          st4 = write_page_and_unlock (write_page page_addr (Leaf page2)) lock_addr st3 in
      rbind (if root = page_addr then update_new_root conf page_addr split_key sibling_addr (int lev + 1) root st4
             else Inr (False, st4)) (\<lambda>(grown, st5).
      if grown then Inr (True, st5)
      else if lev + 1 \<ge> length (path_stack st5) then Inl PathOverflow
      else if \<not> addr_eq (path_stack st5 ! (lev + 1)) Null then
        rbind (internal_page_store fuel conf (path_stack st5 ! (lev + 1)) split_key sibling_addr root (lev + 1) st5)
          (\<lambda>st6. Inr (True, st6))
      else
        rbind (check from_cache AssertFail) (\<lambda>_.
        rbind (insert_internal fuel conf split_key sibling_addr (lev + 1) st5) (\<lambda>st6. Inr (True, st6)))))))))))))"

text \<open>The descent \<open>insert\<close> and \<open>del\<close> share: the leaf for \<open>k\<close>, or a leaf to the left of it.\<close>

fun find_leaf_loop :: "nat \<Rightarrow> tree_conf \<Rightarrow> GlobalAddress \<Rightarrow> Key \<Rightarrow> sherman \<Rightarrow> sherman_error + GlobalAddress \<times> sherman" where
  "find_leaf_loop 0 conf p k st = Inl OutOfFuel"
| "find_leaf_loop (Suc fuel) conf p k st =
     rbind (page_search conf p k False st) (\<lambda>(found, result, st1).
     if \<not> found then find_leaf_loop fuel conf (get_root_ptr st1) k st1
     else if is_leaf result then Inr (p, st1)
     else rbind (check (res_level result \<noteq> 0) AssertFail) (\<lambda>_.
     if \<not> addr_eq (slibing result) Null then find_leaf_loop fuel conf (slibing result) k st1
     else if res_level result \<noteq> 1 then find_leaf_loop fuel conf (next_level result) k st1
     else Inr (next_level result, st1)))"

definition tree_insert :: "nat \<Rightarrow> tree_conf \<Rightarrow> Key \<Rightarrow> Value \<Rightarrow> sherman \<Rightarrow> sherman_error + sherman" where
  "tree_insert fuel conf k v st0 =
     (let st = before_operation st0;
          from_root = (\<lambda>st. let root = get_root_ptr st in
            rbind (find_leaf_loop fuel conf root k st) (\<lambda>(p, st1).
            rbind (leaf_page_store fuel conf p k v root 0 False st1) (\<lambda>(b, st2). Inr st2))) in
      if enable_cache (globals st) then
        (case search_from_cache (index_cache st) k (thread_id conf = 0) of
           (Some (entry, cache_addr), c) \<Rightarrow>
             (let st1 = st\<lparr>index_cache := c\<rparr> in
              rbind (leaf_page_store fuel conf cache_addr k v (get_root_ptr st1) 0 True st1) (\<lambda>(stored, st2).
              if stored then Inr (st2\<lparr>cache_hit := cache_hit st2 + 1\<rparr>)
              else from_root (st2\<lparr>index_cache := snd (invalidate (index_cache st2) entry),
                                  cache_miss := cache_miss st2 + 1\<rparr>)))
         | (None, c) \<Rightarrow> from_root (st\<lparr>index_cache := c, cache_miss := cache_miss st + 1\<rparr>))
      else from_root st)"

section \<open>Searching and deleting\<close>

text \<open>\<open>entry\<close> is the cache entry that gave \<open>p\<close>, when \<open>from_cache\<close>.\<close>

fun search_loop ::
  "nat \<Rightarrow> tree_conf \<Rightarrow> GlobalAddress \<Rightarrow> GlobalAddress \<Rightarrow> CacheEntry option \<Rightarrow> Key \<Rightarrow> sherman \<Rightarrow> sherman_error + Value option \<times> sherman" where
  "search_loop 0 conf root p from_cache k st = Inl OutOfFuel"
| "search_loop (Suc fuel) conf root p from_cache k st =
     rbind (page_search conf p k (from_cache \<noteq> None) st) (\<lambda>(found, result, st1).
     if \<not> found then
       (case from_cache of
          Some entry \<Rightarrow>
            search_loop fuel conf root root None k
              (st1\<lparr>index_cache := snd (invalidate (index_cache st1) entry),
                   cache_hit := cache_hit st1 - 1, cache_miss := cache_miss st1 + 1\<rparr>)
        | None \<Rightarrow> search_loop fuel conf root p None k st1)
     else if is_leaf result then
       (if res_val result \<noteq> kValueNull then Inr (Some (res_val result), st1)
        else if \<not> addr_eq (slibing result) Null then search_loop fuel conf root (slibing result) from_cache k st1
        else Inr (None, st1))
     else search_loop fuel conf root
       (if \<not> addr_eq (slibing result) Null then slibing result else next_level result) from_cache k st1)"

definition tree_search :: "nat \<Rightarrow> tree_conf \<Rightarrow> Key \<Rightarrow> sherman \<Rightarrow> sherman_error + Value option \<times> sherman" where
  "tree_search fuel conf k st =
     (let root = get_root_ptr st in
      if enable_cache (globals st) then
        (case search_from_cache (index_cache st) k (thread_id conf = 0) of
           (Some (entry, cache_addr), c) \<Rightarrow>
             search_loop fuel conf root cache_addr (Some entry) k (st\<lparr>index_cache := c, cache_hit := cache_hit st + 1\<rparr>)
         | (None, c) \<Rightarrow> search_loop fuel conf root root None k (st\<lparr>index_cache := c, cache_miss := cache_miss st + 1\<rparr>))
      else search_loop fuel conf root root None k st)"

fun leaf_page_del ::
  "nat \<Rightarrow> tree_conf \<Rightarrow> GlobalAddress \<Rightarrow> Key \<Rightarrow> nat \<Rightarrow> bool \<Rightarrow> sherman \<Rightarrow> sherman_error + bool \<times> sherman" where
  "leaf_page_del 0 conf page_addr k lev from_cache st = Inl OutOfFuel"
| "leaf_page_del (Suc fuel) conf page_addr k lev from_cache st =
     (let lock_addr = lock_addr_of conf page_addr in
      rbind (check (thread_tag conf \<noteq> 0) AssertFail) (\<lambda>_.
      rbind (lock_and_read_page conf page_addr st) (\<lambda>(p, st1).
      case p of Inner _ \<Rightarrow> Inl BadPage | Leaf page \<Rightarrow>
      rbind (check (unat (hlevel (lp_hdr page)) = lev) AssertFail) (\<lambda>_.
      rbind (check (LeafPage_check_consistent page) AssertFail) (\<lambda>_.
      if from_cache \<and> (k < lowest (lp_hdr page) \<or> k \<ge> highest (lp_hdr page)) then Inr (False, unlock_addr lock_addr st1)
      else if k \<ge> highest (lp_hdr page) then
        (let st2 = unlock_addr lock_addr st1 in
         rbind (check (\<not> addr_eq (sibling_ptr (lp_hdr page)) Null) AssertFail) (\<lambda>_.
         rbind (leaf_page_del fuel conf (sibling_ptr (lp_hdr page)) k lev False st2) (\<lambda>(b, st3). Inr (True, st3))))
      else
      rbind (check (k \<ge> lowest (lp_hdr page)) AssertFail) (\<lambda>_.
      case leaf_del_entry page k of
        (page1, Some i) \<Rightarrow>
          Inr (True, write_page_and_unlock (write_entry page_addr i (lp_records page1 ! i)) lock_addr st1)
      | (page1, None) \<Rightarrow> Inr (True, unlock_addr lock_addr st1)))))))"

definition tree_del :: "nat \<Rightarrow> tree_conf \<Rightarrow> Key \<Rightarrow> sherman \<Rightarrow> sherman_error + sherman" where
  "tree_del fuel conf k st0 =
     (let st = before_operation st0;
          from_root = (\<lambda>st. rbind (find_leaf_loop fuel conf (get_root_ptr st) k st) (\<lambda>(p, st1).
            rbind (leaf_page_del fuel conf p k 0 False st1) (\<lambda>(b, st2). Inr st2))) in
      if enable_cache (globals st) then
        (case search_from_cache (index_cache st) k (thread_id conf = 0) of
           (Some (entry, cache_addr), c) \<Rightarrow>
             rbind (leaf_page_del fuel conf cache_addr k 0 True (st\<lparr>index_cache := c\<rparr>)) (\<lambda>(deleted, st2).
             if deleted then Inr (st2\<lparr>cache_hit := cache_hit st2 + 1\<rparr>)
             else from_root (st2\<lparr>index_cache := snd (invalidate (index_cache st2) entry),
                                 cache_miss := cache_miss st2 + 1\<rparr>))
         | (None, c) \<Rightarrow> from_root (st\<lparr>index_cache := c, cache_miss := cache_miss st + 1\<rparr>))
      else from_root st)"

section \<open>Range queries\<close>

text \<open>The leaves of one cached page that may hold keys of \<open>[from, till]\<close>.\<close>

definition range_leaves :: "Key \<Rightarrow> Key \<Rightarrow> InternalPage \<Rightarrow> GlobalAddress list" where
  "range_leaves from till page =
     (let h = ip_hdr page; rs = ip_records page; cnt = nat (hdr_cnt h) in
      (if from > ie_key (rs ! 0) \<or> till < lowest h then [] else [leftmost_ptr h]) @
      concat (map (\<lambda>i. if from > ie_key (rs ! i) \<or> till < ie_key (rs ! (i - 1)) then []
                       else [ie_ptr (rs ! (i - 1))]) [1..<cnt]) @
      (if from > highest h \<or> till < ie_key (rs ! (cnt - 1)) then [] else [ie_ptr (rs ! (cnt - 1))]))"

text \<open>The pairs of one leaf; \<open>assert(counter <= 100)\<close> stands in front of each write to the buffer.\<close>

fun collect_leaf :: "Key \<Rightarrow> Key \<Rightarrow> LeafEntry list \<Rightarrow> (Key \<times> Value) list \<Rightarrow> sherman_error + (Key \<times> Value) list" where
  "collect_leaf from till [] buf = Inr buf"
| "collect_leaf from till (r # rs) buf =
     (if le_value r \<noteq> kValueNull \<and> f_version r = r_version r \<and> le_key r \<ge> from \<and> le_key r \<le> till
      then (if length buf \<le> 100 then collect_leaf from till rs (buf @ [(le_key r, le_value r)]) else Inl AssertFail)
      else collect_leaf from till rs buf)"

text \<open>The leaves are fetched in batches of 32 and read in the order they were asked for.\<close>

fun collect_leaves :: "Key \<Rightarrow> Key \<Rightarrow> (GlobalAddress \<Rightarrow> page option) \<Rightarrow> GlobalAddress list \<Rightarrow> (Key \<times> Value) list \<Rightarrow>
    sherman_error + (Key \<times> Value) list" where
  "collect_leaves from till mem [] buf = Inr buf"
| "collect_leaves from till mem (a # as) buf =
     (case mem a of
        Some (Leaf p) \<Rightarrow> rbind (collect_leaf from till (lp_records p) buf) (collect_leaves from till mem as)
      | _ \<Rightarrow> Inl BadPage)"

definition range_query :: "Key \<Rightarrow> Key \<Rightarrow> sherman \<Rightarrow> sherman_error + (Key \<times> Value) list" where
  "range_query from till st =
     collect_leaves from till (pages st)
       (concat (map (range_leaves from till) (search_range_from_cache (index_cache st) from till))) []"

end
