(* ===== verification/Sherman_Blink.thy ===== *)
theory Sherman_Blink
  imports Sherman_Tree
begin

text \<open>
  What a Sherman tree in remote memory looks like between page writes, and why the page writes of the
  handlers keep it: a B-link tree.  Every page covers a range of keys and links to the page on its
  right, pages of one level have disjoint ranges, and every child of an internal page starts at its
  separator.  A page that has been split off may be missing from its parent; searches still reach it
  through the link.
\<close>

section \<open>Headers in memory\<close>

type_synonym memory = "GlobalAddress \<Rightarrow> page option"

definition hdr_at :: "memory \<Rightarrow> GlobalAddress \<Rightarrow> Header" where
  "hdr_at mem a = page_hdr (the (mem a))"

abbreviation lo :: "memory \<Rightarrow> GlobalAddress \<Rightarrow> Key" where "lo mem a \<equiv> lowest (hdr_at mem a)"
abbreviation hi :: "memory \<Rightarrow> GlobalAddress \<Rightarrow> Key" where "hi mem a \<equiv> highest (hdr_at mem a)"
abbreviation sib :: "memory \<Rightarrow> GlobalAddress \<Rightarrow> GlobalAddress" where "sib mem a \<equiv> sibling_ptr (hdr_at mem a)"
abbreviation lv :: "memory \<Rightarrow> GlobalAddress \<Rightarrow> nat" where "lv mem a \<equiv> unat (hlevel (hdr_at mem a))"

fun page_ok :: "page \<Rightarrow> bool" where
  "page_ok (Leaf p) = leaf_page_wf p"
| "page_ok (Inner p) = internal_page_wf p"

fun kids :: "page \<Rightarrow> (Key \<times> GlobalAddress) set" where
  "kids (Leaf p) = {}"
| "kids (Inner p) = set (children_of p)"

definition kid_ok :: "GlobalAddress set \<Rightarrow> memory \<Rightarrow> nat \<Rightarrow> Key \<times> GlobalAddress \<Rightarrow> bool" where
  "kid_ok P mem l x \<longleftrightarrow> snd x \<in> P \<and> lo mem (snd x) = fst x \<and> Suc (lv mem (snd x)) = l"

definition blink :: "GlobalAddress set \<Rightarrow> memory \<Rightarrow> bool" where
  "blink P mem \<longleftrightarrow> finite P \<and> Null \<notin> P \<and>
     (\<forall>a \<in> P. \<exists>p. mem a = Some p \<and> page_ok p \<and> lo mem a < hi mem a \<and> (\<forall>x \<in> kids p. kid_ok P mem (lv mem a) x)) \<and>
     (\<forall>a \<in> P. hi mem a \<noteq> kKeyMax \<longrightarrow> sib mem a \<in> P \<and> lv mem (sib mem a) = lv mem a \<and> lo mem (sib mem a) = hi mem a) \<and>
     (\<forall>a \<in> P. \<forall>b \<in> P. lv mem a = lv mem b \<and> a \<noteq> b \<longrightarrow> hi mem a \<le> lo mem b \<or> hi mem b \<le> lo mem a)"

lemma blinkD:
  assumes "blink P mem"
  shows "finite P" "Null \<notin> P" "a \<in> P \<Longrightarrow> \<exists>p. mem a = Some p" "a \<in> P \<Longrightarrow> mem a = Some p \<Longrightarrow> page_ok p"
    "a \<in> P \<Longrightarrow> lo mem a < hi mem a" "a \<in> P \<Longrightarrow> mem a = Some p \<Longrightarrow> x \<in> kids p \<Longrightarrow> kid_ok P mem (lv mem a) x"
    "a \<in> P \<Longrightarrow> hi mem a \<noteq> kKeyMax \<Longrightarrow> sib mem a \<in> P" "a \<in> P \<Longrightarrow> hi mem a \<noteq> kKeyMax \<Longrightarrow> lv mem (sib mem a) = lv mem a"
    "a \<in> P \<Longrightarrow> hi mem a \<noteq> kKeyMax \<Longrightarrow> lo mem (sib mem a) = hi mem a"
    "a \<in> P \<Longrightarrow> b \<in> P \<Longrightarrow> lv mem a = lv mem b \<Longrightarrow> a \<noteq> b \<Longrightarrow> hi mem a \<le> lo mem b \<or> hi mem b \<le> lo mem a"
  using assms unfolding blink_def by fastforce+

lemma hdr_at_simps [simp]:
  "hdr_at (mem(a \<mapsto> p)) a = page_hdr p" "b \<noteq> a \<Longrightarrow> hdr_at (mem(a \<mapsto> p)) b = hdr_at mem b"
  by (simp_all add: hdr_at_def)

text \<open>A level-0 page is a leaf page and the other way round.\<close>

lemma page_leaf_iff: "page_ok p \<Longrightarrow> (\<exists>l. p = Leaf l) \<longleftrightarrow> unat (hlevel (page_hdr p)) = 0"
  by (cases p) (auto simp: leaf_page_wf_def unat_eq_0 dest: internal_okD(8))

lemma page_leftmost_iff: "page_ok p \<Longrightarrow> addr_eq (leftmost_ptr (page_hdr p)) Null \<longleftrightarrow> (\<exists>l. p = Leaf l)"
proof -
  have "addr_eq a Null \<longleftrightarrow> a = Null" for a by (metis addr_eq_def addr_eqI)
  then show "page_ok p \<Longrightarrow> ?thesis" by (cases p) (auto dest: leaf_page_wfD(3) internal_okD(7))
qed

lemma addr_eq_iff [simp]: "addr_eq a b \<longleftrightarrow> a = b"
  by (metis addr_eq_def addr_eqI)

text \<open>Two pages of one level that share a key are one page.\<close>

lemma blink_same:
  assumes "blink P mem" "a \<in> P" "b \<in> P" "lv mem a = lv mem b"
    and "lo mem a \<le> k" "k < hi mem a" "lo mem b \<le> k" "k < hi mem b"
  shows "a = b"
  using blinkD(10) [OF assms(1-4)] assms(5-8) by (metis leD order.strict_trans1)

section \<open>Changing pages\<close>

text \<open>A page with the same header fields in the same place.\<close>

lemma blink_update:
  assumes bl: "blink P mem" and a: "a \<in> P" and ok: "page_ok p"
    and h: "lowest (page_hdr p) = lo mem a" "highest (page_hdr p) = hi mem a" "sibling_ptr (page_hdr p) = sib mem a"
      "hlevel (page_hdr p) = hlevel (hdr_at mem a)"
    and kids: "\<And>x. x \<in> kids p \<Longrightarrow> kid_ok P mem (lv mem a) x"
  shows "blink P (mem(a \<mapsto> p))"
proof -
  let ?m = "mem(a \<mapsto> p)"
  have eq: "lo ?m b = lo mem b" "hi ?m b = hi mem b" "sib ?m b = sib mem b" "hlevel (hdr_at ?m b) = hlevel (hdr_at mem b)" for b
    using h by (cases "b = a"; simp)+
  have kid: "kid_ok P ?m l x = kid_ok P mem l x" for l x by (simp add: kid_ok_def eq)
  note D = blinkD [OF bl]
  have "\<exists>q. ?m b = Some q \<and> page_ok q \<and> lo ?m b < hi ?m b \<and> (\<forall>x \<in> kids q. kid_ok P ?m (lv ?m b) x)" if b: "b \<in> P" for b
  proof (cases "b = a")
    case True
    then show ?thesis unfolding eq kid using ok kids D(5) [OF b] by auto
  next
    case False
    then show ?thesis unfolding eq kid using D(3) [OF b] D(4) [OF b] D(5) [OF b] D(6) [OF b] by fastforce
  qed
  then show ?thesis using D(1,2) D(7-10) unfolding blink_def eq by blast
qed

text \<open>A page split in two: the left part in place, the right part on a new page linked behind it.\<close>

lemma blink_split:
  assumes bl: "blink P mem" and a: "a \<in> P" and b: "b \<notin> P" "b \<noteq> Null" and ok: "page_ok p" "page_ok r"
    and l: "lowest (page_hdr p) = lo mem a" "highest (page_hdr p) = key" "sibling_ptr (page_hdr p) = b"
      "hlevel (page_hdr p) = hlevel (hdr_at mem a)"
    and r: "lowest (page_hdr r) = key" "highest (page_hdr r) = hi mem a" "sibling_ptr (page_hdr r) = sib mem a"
      "hlevel (page_hdr r) = hlevel (hdr_at mem a)"
    and key: "lo mem a < key" "key < hi mem a"
    and kids: "\<And>x. x \<in> kids p \<union> kids r \<Longrightarrow> kid_ok P mem (lv mem a) x"
  shows "blink (insert b P) (mem(b \<mapsto> r, a \<mapsto> p))"
proof -
  let ?m = "mem(b \<mapsto> r, a \<mapsto> p)"
  note D = blinkD [OF bl]
  have ab: "a \<noteq> b" using a b by auto
  have atP: "lo ?m x = lo mem x" "hlevel (hdr_at ?m x) = hlevel (hdr_at mem x)"
      "hi ?m x = (if x = a then key else hi mem x)" "sib ?m x = (if x = a then b else sib mem x)" if "x \<in> P" for x
    using that b(1) l by (cases "x = a"; simp; metis hdr_at_simps(2))+
  have atB: "lo ?m b = key" "hlevel (hdr_at ?m b) = hlevel (hdr_at mem a)" "hi ?m b = hi mem a" "sib ?m b = sib mem a"
    using ab r by simp_all
  have kid: "kid_ok (insert b P) ?m n x" if "kid_ok P mem n x" for n x using that atP by (auto simp: kid_ok_def)
  have pages: "\<exists>q. ?m x = Some q \<and> page_ok q \<and> lo ?m x < hi ?m x \<and> (\<forall>y \<in> kids q. kid_ok (insert b P) ?m (lv ?m x) y)"
    if x: "x \<in> insert b P" for x
  proof (cases "x = a \<or> x = b")
    case True
    then show ?thesis using ab ok kids kid key l r atB atP [OF a] by auto
  next
    case False
    then have "x \<in> P" "?m x = mem x" using x by auto
    then show ?thesis using False D(3) [of x] D(4-6) [of x] kid atP [of x] by fastforce
  qed
  have sibs: "sib ?m x \<in> insert b P \<and> lv ?m (sib ?m x) = lv ?m x \<and> lo ?m (sib ?m x) = hi ?m x"
    if x: "x \<in> insert b P" "hi ?m x \<noteq> kKeyMax" for x
  proof -
    have via: ?thesis if "sib ?m x = sib mem y" "hi ?m x = hi mem y" "hlevel (hdr_at ?m x) = hlevel (hdr_at mem y)" "y \<in> P" for y
      using D(7-9) [OF that(4)] x(2) atP [of "sib mem y"] unfolding that(1-3) by simp
    consider "x = a" | "x = b" | "x \<in> P" "x \<noteq> a" using x(1) by blast
    then show ?thesis
    proof cases
      case 1
      then show ?thesis using atP [OF a] atB by simp
    next
      case 2
      then show ?thesis using via [of a] atB a by simp
    next
      case 3
      then have "x \<noteq> b" using b(1) by auto
      then show ?thesis using 3 by (intro via [of x]) simp_all
    qed
  qed
  have neb: "x \<noteq> b" if "x \<in> P" for x using that b(1) by auto
  have near: "(key \<le> lo mem y \<or> hi mem y \<le> lo mem a) \<and> (hi mem a \<le> lo mem y \<or> hi mem y \<le> key)"
    if y: "y \<in> P" "y \<noteq> a" "lv mem y = lv mem a" for y
  proof -
    have "hi mem a \<le> lo mem y \<or> hi mem y \<le> lo mem a" using D(10) [OF a y(1)] y(2,3) by simp
    then show ?thesis
    proof
      assume "hi mem a \<le> lo mem y"
      moreover from this have "key \<le> lo mem y" using key by order
      ultimately show ?thesis by simp
    next
      assume "hi mem y \<le> lo mem a"
      moreover from this have "hi mem y \<le> key" using key by order
      ultimately show ?thesis by simp
    qed
  qed
  have disj: "hi ?m x \<le> lo ?m y \<or> hi ?m y \<le> lo ?m x"
    if xy: "x \<in> insert b P" "y \<in> insert b P" "lv ?m x = lv ?m y" "x \<noteq> y" for x y
  proof -
    consider "x \<in> P" "y \<in> P" "x \<noteq> a" "y \<noteq> a" | "{x, y} = {a, b}"
      | "x \<in> {a, b}" "y \<in> P" "y \<noteq> a" | "y \<in> {a, b}" "x \<in> P" "x \<noteq> a"
      using xy a by auto
    then show ?thesis
    proof cases
      case 1
      then show ?thesis using D(10) [of x y] xy neb [of x] neb [of y] by simp
    next
      case 2
      then show ?thesis using l r ab by (auto simp: doubleton_eq_iff)
    next
      case 3
      then show ?thesis using near [of y] xy(3) neb [of y] l r ab by auto
    next
      case 4
      then show ?thesis using near [of x] xy(3) neb [of x] l r ab by auto
    qed
  qed
  show ?thesis
    unfolding blink_def using D(1,2) b(2) pages sibs disj by (metis finite.insertI insertE)
qed

text \<open>A page for a new level above all others, over the whole range of keys.\<close>

lemma blink_add:
  assumes bl: "blink P mem" and c: "c \<notin> P" "c \<noteq> Null" and ok: "page_ok p"
    and h: "lowest (page_hdr p) < highest (page_hdr p)" "highest (page_hdr p) = kKeyMax"
    and new: "\<And>a. a \<in> P \<Longrightarrow> lv mem a \<noteq> unat (hlevel (page_hdr p))"
    and kids: "\<And>x. x \<in> kids p \<Longrightarrow> kid_ok P mem (unat (hlevel (page_hdr p))) x"
  shows "blink (insert c P) (mem(c \<mapsto> p))"
proof -
  let ?m = "mem(c \<mapsto> p)"
  note D = blinkD [OF bl]
  have at: "hdr_at ?m x = hdr_at mem x" "?m x = mem x" "x \<noteq> c" if "x \<in> P" for x
    using that c(1) by (cases "x = c"; simp)+
  have kid: "kid_ok (insert c P) ?m n x" if "kid_ok P mem n x" for n x using that at by (auto simp: kid_ok_def)
  have pages: "\<exists>q. ?m x = Some q \<and> page_ok q \<and> lo ?m x < hi ?m x \<and> (\<forall>y \<in> kids q. kid_ok (insert c P) ?m (lv ?m x) y)"
    if x: "x \<in> insert c P" for x
  proof (cases "x = c")
    case True
    then show ?thesis using ok h kids kid by auto
  next
    case False
    then have "x \<in> P" using x by simp
    then show ?thesis using D(3) [of x] D(4-6) [of x] kid at [of x] by fastforce
  qed
  have sibs: "sib ?m x \<in> insert c P \<and> lv ?m (sib ?m x) = lv ?m x \<and> lo ?m (sib ?m x) = hi ?m x"
    if x: "x \<in> insert c P" "hi ?m x \<noteq> kKeyMax" for x
  proof -
    have "x \<noteq> c" using x(2) h(2) by auto
    then have "x \<in> P" using x(1) by simp
    then show ?thesis using D(7-9) [of x] x(2) at [of x] at [of "sib mem x"] by simp
  qed
  have disj: "hi ?m x \<le> lo ?m y \<or> hi ?m y \<le> lo ?m x"
    if xy: "x \<in> insert c P" "y \<in> insert c P" "lv ?m x = lv ?m y" "x \<noteq> y" for x y
  proof -
    have "x \<in> P \<and> y \<in> P" using xy new at(1) by (metis hdr_at_simps(1) insertE)
    then show ?thesis using D(10) [of x y] xy(3,4) at [of x] at [of y] by simp
  qed
  show ?thesis
    unfolding blink_def using D(1,2) c(2) pages sibs disj by (metis finite.insertI insertE)
qed

section \<open>How far a traversal still has to go\<close>

text \<open>Upwards and to the right, for the stores; downwards and to the right, for the searches.\<close>

definition up_left :: "GlobalAddress set \<Rightarrow> memory \<Rightarrow> GlobalAddress \<Rightarrow> nat" where
  "up_left P mem a = card {b \<in> P. lv mem a < lv mem b \<or> lv mem a = lv mem b \<and> lo mem a \<le> lo mem b}"

definition down_left :: "GlobalAddress set \<Rightarrow> memory \<Rightarrow> GlobalAddress \<Rightarrow> nat" where
  "down_left P mem a = card {b \<in> P. lv mem b < lv mem a \<or> lv mem a = lv mem b \<and> lo mem a \<le> lo mem b}"

lemma card_less: "finite A \<Longrightarrow> B \<subseteq> A \<Longrightarrow> a \<in> A \<Longrightarrow> a \<notin> B \<Longrightarrow> card B < card A"
  by (rule psubset_card_mono) auto

lemma up_left_right:
  assumes "blink P mem" "a \<in> P" "hi mem a \<noteq> kKeyMax"
  shows "up_left P mem (sib mem a) < up_left P mem a"
proof -
  note D = blinkD [OF assms(1)]
  have "lo mem a < lo mem (sib mem a)" "lv mem (sib mem a) = lv mem a" using D(5,8,9) assms(2,3) by auto
  then show ?thesis
    unfolding up_left_def using D(1) assms(2) by (intro card_less [of _ _ a]) auto
qed

lemma up_left_up:
  assumes "blink P mem" "a \<in> P" "lv mem a < lv mem u"
  shows "up_left P mem u < up_left P mem a"
  unfolding up_left_def using blinkD(1) [OF assms(1)] assms(2,3) by (intro card_less [of _ _ a]) auto

lemma down_left_right:
  assumes "blink P mem" "a \<in> P" "hi mem a \<noteq> kKeyMax"
  shows "down_left P mem (sib mem a) < down_left P mem a"
proof -
  note D = blinkD [OF assms(1)]
  have "lo mem a < lo mem (sib mem a)" "lv mem (sib mem a) = lv mem a" using D(5,8,9) assms(2,3) by auto
  then show ?thesis
    unfolding down_left_def using D(1) assms(2) by (intro card_less [of _ _ a]) auto
qed

lemma down_left_down:
  assumes "blink P mem" "a \<in> P" "lv mem u < lv mem a"
  shows "down_left P mem u < down_left P mem a"
  unfolding down_left_def using blinkD(1) [OF assms(1)] assms(2,3) by (intro card_less [of _ _ a]) auto

lemma down_left_le: "finite P \<Longrightarrow> down_left P mem a \<le> card P"
  unfolding down_left_def by (intro card_mono) auto

lemma down_left_pos: "finite P \<Longrightarrow> a \<in> P \<Longrightarrow> 0 < down_left P mem a"
  unfolding down_left_def card_gt_0_iff by auto

lemma up_left_le: "finite P \<Longrightarrow> up_left P mem a \<le> card P"
  unfolding up_left_def by (intro card_mono) auto

section \<open>The contents of the tree\<close>

text \<open>What the tree holds: the pairs of the leaf that covers the key.\<close>

definition tree_map :: "GlobalAddress set \<Rightarrow> memory \<Rightarrow> Key \<Rightarrow> Value \<Rightarrow> bool" where
  "tree_map P mem k v \<longleftrightarrow>
     (\<exists>a \<in> P. \<exists>p. mem a = Some (Leaf p) \<and> lo mem a \<le> k \<and> k < hi mem a \<and> leaf_page_map p k = Some v)"

lemma tree_map_at:
  assumes "blink P mem" "a \<in> P" "mem a = Some (Leaf p)" "lo mem a \<le> k" "k < hi mem a"
  shows "tree_map P mem k v \<longleftrightarrow> leaf_page_map p k = Some v"
proof
  assume "tree_map P mem k v"
  then obtain b q where b: "b \<in> P" "mem b = Some (Leaf q)" "lo mem b \<le> k" "k < hi mem b" "leaf_page_map q k = Some v"
    by (auto simp: tree_map_def)
  note D = blinkD(4) [OF assms(1)]
  have "lv mem a = 0" "lv mem b = 0"
    using D [OF assms(2,3)] D [OF b(1,2)] assms(3) b(2) by (auto simp: hdr_at_def leaf_page_wf_def)
  then have "a = b" using blink_same [OF assms(1,2) b(1) _ assms(4,5) b(3,4)] by simp
  then show "leaf_page_map p k = Some v" using b(2,5) assms(3) by simp
qed (use assms in \<open>auto simp: tree_map_def\<close>)

section \<open>One page visited\<close>

text \<open>What a search needs to know of the state: the tree, no lock set, no cache.\<close>

definition quiet :: "tree_conf \<Rightarrow> sherman \<Rightarrow> bool" where
  "quiet conf st \<longleftrightarrow> (\<forall>a. chip st (lock_addr_of conf a) = 0) \<and> \<not> enable_cache (globals st) \<and>
     length (path_stack st) = kMaxLevelOfTree"

abbreviation visit :: "sherman \<Rightarrow> GlobalAddress \<Rightarrow> sherman" where
  "visit st a \<equiv> st\<lparr>path_stack := (path_stack st)[lv (pages st) a := a]\<rparr>"

lemma quiet_visit [simp]: "quiet conf (visit st a) = quiet conf st"
  by (simp add: quiet_def)

definition result_at :: "memory \<Rightarrow> GlobalAddress \<Rightarrow> SearchResult" where
  "result_at mem a = empty_result\<lparr>is_leaf := (lv mem a = 0), res_level := hlevel (hdr_at mem a)\<rparr>"

lemma page_search_leaf:
  assumes bl: "blink P (pages st)" and a: "a \<in> P" and q: "quiet conf st" and leaf: "pages st a = Some (Leaf p)"
    and k: "lo (pages st) a \<le> k"
  shows "page_search conf a k False st = Inr (True,
    if hi (pages st) a \<le> k then (result_at (pages st) a)\<lparr>slibing := sib (pages st) a\<rparr>
    else (result_at (pages st) a)\<lparr>res_val := (case leaf_page_map p k of None \<Rightarrow> kValueNull | Some v \<Rightarrow> v)\<rparr>, visit st a)"
proof -
  have ok: "leaf_page_wf p" using blinkD(4) [OF bl a leaf] by simp
  note D = leaf_page_wfD [OF ok]
  have h: "hdr_at (pages st) a = lp_hdr p" by (simp add: hdr_at_def leaf)
  have "leaf_page_search p k (result_at (pages st) a) =
      (result_at (pages st) a)\<lparr>res_val := (case leaf_page_map p k of None \<Rightarrow> kValueNull | Some v \<Rightarrow> v)\<rparr>"
    by (rule leaf_page_search_val [OF D(1)]) (simp add: result_at_def empty_result_def)
  then show ?thesis
    using q D(3,4) k
    by (simp add: page_search_def page_search_attempt_def leaf h quiet_def kMaxLevelOfTree_def must_re_read_def
        result_at_def Let_def not_less not_le)
qed

lemma page_search_inner:
  assumes bl: "blink P (pages st)" and a: "a \<in> P" and q: "quiet conf st" and inner: "pages st a = Some (Inner p)"
    and k: "lo (pages st) a \<le> k" and lv: "lv (pages st) a < kMaxLevelOfTree"
  shows "\<exists>b. page_search conf a k False st = Inr (True,
    if hi (pages st) a \<le> k then (result_at (pages st) a)\<lparr>slibing := sib (pages st) a\<rparr>
    else (result_at (pages st) a)\<lparr>next_level := b\<rparr>, visit st a) \<and>
    (k < hi (pages st) a \<longrightarrow> (\<exists>x \<le> k. (x, b) \<in> kids (Inner p)))"
proof -
  have ok: "internal_page_wf p" using blinkD(4) [OF bl a inner] by simp
  note D = internal_okD [OF ok]
  have h: "hdr_at (pages st) a = ip_hdr p" by (simp add: hdr_at_def inner)
  have nl: "unat (hlevel (ip_hdr p)) \<noteq> 0" using D(8) by (simp add: unat_eq_0)
  have pre: "page_search conf a k False st =
      (if hi (pages st) a \<le> k then Inr (True, (result_at (pages st) a)\<lparr>slibing := sib (pages st) a\<rparr>, visit st a)
       else rbind (internal_page_search p k (result_at (pages st) a)) (\<lambda>r. Inr (True, r, visit st a)))"
    using q D(7,8) k lv nl
    by (simp add: page_search_def page_search_attempt_def inner h quiet_def must_re_read_def result_at_def Let_def not_less not_le)
      (auto dest: leD)
  show ?thesis
  proof (cases "hi (pages st) a \<le> k")
    case True
    then show ?thesis using pre by auto
  next
    case False
    have n: "kInternalCardinality - 1 \<le> kInternalCardinality" by simp
    obtain b where b: "internal_page_search p k (result_at (pages st) a) = Inr ((result_at (pages st) a)\<lparr>next_level := b\<rparr>)"
        "routes p k b"
      using internal_page_search_correct [OF ok n] k False unfolding h by force
    then obtain i where "i < length (children_of p)" "snd (children_of p ! i) = b" "fst (children_of p ! i) \<le> k"
      by (auto simp: routes_def)
    then have "\<exists>x \<le> k. (x, b) \<in> kids (Inner p)" by (metis kids.simps(2) nth_mem prod.collapse)
    then show ?thesis using pre b(1) False by auto
  qed
qed

section \<open>Search\<close>

text \<open>Moving right is possible whenever it is needed, and never for the greatest key.\<close>

lemma hi_not_max: "hi mem a \<le> k \<Longrightarrow> k < kKeyMax \<Longrightarrow> hi mem a \<noteq> kKeyMax"
  by auto

lemma sib_step:
  assumes bl: "blink P mem" and a: "a \<in> P" and k: "hi mem a \<le> k" "k < kKeyMax"
  shows "sib mem a \<in> P" "sib mem a \<noteq> Null" "lo mem (sib mem a) \<le> k" "lv mem (sib mem a) = lv mem a"
    "down_left P mem (sib mem a) < down_left P mem a" "up_left P mem (sib mem a) < up_left P mem a"
    "lo mem a < lo mem (sib mem a)"
proof -
  note D = blinkD [OF bl] and m = hi_not_max [OF k]
  show "sib mem a \<in> P" "lv mem (sib mem a) = lv mem a" using D(7,8) [OF a m] by auto
  then show "sib mem a \<noteq> Null" using D(2) by auto
  show "lo mem (sib mem a) \<le> k" "lo mem a < lo mem (sib mem a)" using D(9) [OF a m] D(5) [OF a] k by auto
  show "down_left P mem (sib mem a) < down_left P mem a" by (rule down_left_right [OF bl a m])
  show "up_left P mem (sib mem a) < up_left P mem a" by (rule up_left_right [OF bl a m])
qed

lemma kid_step:
  assumes bl: "blink P mem" and a: "a \<in> P" "mem a = Some (Inner p)" and x: "(x, b) \<in> kids (Inner p)" "x \<le> k"
  shows "b \<in> P" "lo mem b \<le> k" "Suc (lv mem b) = lv mem a" "down_left P mem b < down_left P mem a" "lo mem b = x"
proof -
  have "kid_ok P mem (lv mem a) (x, b)" using blinkD(6) [OF bl a x(1)] .
  then show b: "b \<in> P" "lo mem b \<le> k" "Suc (lv mem b) = lv mem a" "lo mem b = x" using x(2) by (auto simp: kid_ok_def)
  then show "down_left P mem b < down_left P mem a" by (intro down_left_down [OF bl a(1)]) simp
qed

lemma search_loop_ok:
  assumes "blink P (pages st)" "a \<in> P" "quiet conf st" "lo (pages st) a \<le> k" "k < kKeyMax"
    and "lv (pages st) a < kMaxLevelOfTree" "down_left P (pages st) a \<le> fuel"
  shows "\<exists>r path. search_loop fuel conf root a None k st = Inr (r, st\<lparr>path_stack := path\<rparr>) \<and>
    (\<forall>v. r = Some v \<longleftrightarrow> tree_map P (pages st) k v)"
  using assms
proof (induction fuel arbitrary: a st)
  case 0
  then show ?case using down_left_pos [OF blinkD(1)] by (metis le_zero_eq less_irrefl)
next
  case (Suc fuel)
  note a = Suc.prems(2) and q = Suc.prems(3) and k = Suc.prems(4,5)
  have next_page: ?case if b: "b \<in> P" "lo (pages st) b \<le> k" "lv (pages st) b < kMaxLevelOfTree"
      "down_left P (pages st) b < down_left P (pages st) a"
    and eq: "search_loop (Suc fuel) conf root a None k st = search_loop fuel conf root b None k (visit st a)" for b
    using Suc.IH [of "visit st a" b] Suc.prems b eq by auto
  obtain p where p: "pages st a = Some p" using blinkD(3) [OF Suc.prems(1) a] by blast
  note right = sib_step [OF Suc.prems(1) a _ k(2)]
  show ?case
  proof (cases p)
    case (Leaf l)
    note ps = page_search_leaf [OF Suc.prems(1) a q p [unfolded Leaf] k(1)]
    have l0: "lv (pages st) a = 0"
      using page_leaf_iff [OF blinkD(4) [OF Suc.prems(1) a p]] Leaf by (simp add: hdr_at_def p)
    show ?thesis
    proof (cases "hi (pages st) a \<le> k")
      case True
      have "search_loop (Suc fuel) conf root a None k st = search_loop fuel conf root (sib (pages st) a) None k (visit st a)"
        using ps True right(2) l0 by (simp add: result_at_def empty_result_def kValueNull_def)
      then show ?thesis using right True Suc.prems(6) by (intro next_page) auto
    next
      case False
      note tm = tree_map_at [OF Suc.prems(1) a p [unfolded Leaf] k(1), unfolded not_le [symmetric], OF False]
      have "search_loop (Suc fuel) conf root a None k st = Inr (leaf_page_map l k, visit st a)"
        using ps False l0 leaf_page_map_value [of l k]
        by (cases "leaf_page_map l k") (auto simp: result_at_def empty_result_def Null_def)
      then show ?thesis using tm by auto
    qed
  next
    case (Inner i)
    obtain b where ps: "page_search conf a k False st = Inr (True,
        if hi (pages st) a \<le> k then (result_at (pages st) a)\<lparr>slibing := sib (pages st) a\<rparr>
        else (result_at (pages st) a)\<lparr>next_level := b\<rparr>, visit st a)"
      and b: "k < hi (pages st) a \<longrightarrow> (\<exists>x \<le> k. (x, b) \<in> kids (Inner i))"
      using page_search_inner [OF Suc.prems(1) a q p [unfolded Inner] k(1) Suc.prems(6)] by blast
    have l0: "lv (pages st) a \<noteq> 0"
      using page_leaf_iff [OF blinkD(4) [OF Suc.prems(1) a p]] Inner by (auto simp: hdr_at_def p)
    show ?thesis
    proof (cases "hi (pages st) a \<le> k")
      case True
      then show ?thesis
        using ps right Suc.prems(6) l0 by (intro next_page [of "sib (pages st) a"]) (auto simp: result_at_def)
    next
      case False
      then obtain x where x: "x \<le> k" "(x, b) \<in> kids (Inner i)" using b by auto
      note kid = kid_step [OF Suc.prems(1) a p [unfolded Inner] x(2,1)]
      show ?thesis
        using ps False kid Suc.prems(6) l0 by (intro next_page [of b]) (auto simp: result_at_def empty_result_def)
    qed
  qed
qed

lemma tree_search_ok:
  assumes bl: "blink P (pages st)" and root: "get_root_ptr st \<in> P" "lo (pages st) (get_root_ptr st) = 0"
    and lv: "lv (pages st) (get_root_ptr st) < kMaxLevelOfTree" and q: "quiet conf st"
    and k: "k < kKeyMax" and fuel: "card P \<le> fuel"
  shows "\<exists>r path. tree_search fuel conf k st = Inr (r, st\<lparr>path_stack := path\<rparr>) \<and>
    (\<forall>v. r = Some v \<longleftrightarrow> tree_map P (pages st) k v)"
proof -
  have "down_left P (pages st) (get_root_ptr st) \<le> fuel"
    using down_left_le [OF blinkD(1) [OF bl]] fuel order_trans by blast
  moreover have "tree_search fuel conf k st = search_loop fuel conf (get_root_ptr st) (get_root_ptr st) None k st"
    using q by (simp add: tree_search_def quiet_def Let_def)
  ultimately show ?thesis using search_loop_ok [OF bl root(1) q _ k lv] root(2) by simp
qed

text \<open>A root over two leaves, for the witnesses.\<close>

definition sample_leaf :: "Key \<Rightarrow> Key \<Rightarrow> GlobalAddress \<Rightarrow> Key \<Rightarrow> Value \<Rightarrow> page" where
  "sample_leaf l h s k v = Leaf \<lparr>lp_front_version = 1,
     lp_hdr = \<lparr>leftmost_ptr = Null, sibling_ptr = s, hlevel = 0, last_index = - 1, lowest = l, highest = h\<rparr>,
     lp_records = (replicate kLeafCardinality LeafEntry_new)[3 := \<lparr>f_version = 1, le_key = k, le_value = v, r_version = 1\<rparr>],
     lp_rear_version = 1\<rparr>"

definition sample_pages :: memory where
  "sample_pages = [64 \<mapsto> sample_leaf 0 100 128 7 70, 128 \<mapsto> sample_leaf 100 kKeyMax Null 150 1500,
     192 \<mapsto> Inner (InternalPage_grow 64 100 128 1)]"

lemma sample_hdrs:
  "hdr_at sample_pages 64 = \<lparr>leftmost_ptr = 0, sibling_ptr = 128, hlevel = 0, last_index = - 1, lowest = 0, highest = 100\<rparr>"
  "hdr_at sample_pages 128 = \<lparr>leftmost_ptr = 0, sibling_ptr = 0, hlevel = 0, last_index = - 1, lowest = 100, highest = kKeyMax\<rparr>"
  "hdr_at sample_pages 192 = \<lparr>leftmost_ptr = 64, sibling_ptr = 0, hlevel = 1, last_index = 0, lowest = 0, highest = kKeyMax\<rparr>"
  by (simp_all add: sample_pages_def hdr_at_def sample_leaf_def InternalPage_grow_def Header_new_def Null_def kKeyMin_def)

lemma sample_ok: "page_ok (sample_leaf 0 100 128 7 70)" "page_ok (sample_leaf 100 kKeyMax Null 150 1500)"
  "page_ok (Inner (InternalPage_grow 64 100 128 1))" "children_of (InternalPage_grow 64 100 128 1) = [(0, 64), (100, 128)]"
  by code_simp+

lemma sample_at: "sample_pages 64 = Some (sample_leaf 0 100 128 7 70)"
  "sample_pages 128 = Some (sample_leaf 100 kKeyMax Null 150 1500)"
  "sample_pages 192 = Some (Inner (InternalPage_grow 64 100 128 1))"
  by (simp_all add: sample_pages_def)

lemma sample_blink: "blink {64, 128, 192} sample_pages"
proof -
  have m: "0 < kKeyMax" "100 < kKeyMax" "100 \<noteq> kKeyMax" by code_simp+
  have lk: "kids (sample_leaf l h s k v) = {}" for l h s k v by (simp add: sample_leaf_def)
  have ok: "internal_page_wf (InternalPage_grow 64 100 128 1)" using sample_ok(3) by simp
  show ?thesis
    unfolding blink_def
    by (simp add: sample_hdrs sample_at sample_ok(1,2,4) m lk kid_ok_def) (use ok m in \<open>simp add: Null_def\<close>)
qed

definition sample_tree_conf :: tree_conf where
  "sample_tree_conf = \<lparr>t_dsm = sample_conf, thread_id = 0, thread_tag = 1, CityHash64 = (\<lambda>a. a)\<rparr>"

definition sample_tree :: sherman where
  "sample_tree = \<lparr>pages = sample_pages, root_cell = 192, chip = (\<lambda>_. 0), local_locks = (\<lambda>_ _. LocalLockNode_new),
     sdsm = sample_dsm, globals = sample_directory\<lparr>g_root_ptr := Null, enable_cache := False\<rparr>,
     path_stack = replicate kMaxLevelOfTree Null, index_cache = IndexCache_new 1 [] 0, cache_hit = 0, cache_miss = 0,
     outbox = []\<rparr>"

section \<open>Properties\<close>

text \<open>
  C5: \<open>Tree::search\<close> on a B-link tree with no lock set and the cache off returns what the leaf
  that covers the key holds: it ends after at most one visit to each page, also where a split is not
  yet in the parent, changes nothing but its path stack and never hits an assertion.
\<close>

theorem tree_search_correct:
  assumes "blink P (pages st)" "get_root_ptr st \<in> P" "lo (pages st) (get_root_ptr st) = 0"
    and "lv (pages st) (get_root_ptr st) < kMaxLevelOfTree" "quiet conf st" "k < kKeyMax" "card P \<le> fuel"
  shows "\<exists>r path. tree_search fuel conf k st = Inr (r, st\<lparr>path_stack := path\<rparr>) \<and>
    (\<forall>v. r = Some v \<longleftrightarrow> tree_map P (pages st) k v)"
  by (rule tree_search_ok [OF assms])

theorem tree_search_correct_witness:
  "\<exists>path. tree_search 3 sample_tree_conf 150 sample_tree = Inr (Some 1500, sample_tree\<lparr>path_stack := path\<rparr>)"
proof -
  have st: "pages sample_tree = sample_pages" "get_root_ptr sample_tree = 192"
    by (simp_all add: sample_tree_def get_root_ptr_def)
  have q: "quiet sample_tree_conf sample_tree" by (simp add: quiet_def sample_tree_def)
  have k: "150 < kKeyMax" "card {64::GlobalAddress, 128, 192} \<le> 3" by code_simp+
  have "leaf_page_map (case sample_leaf 100 kKeyMax Null 150 1500 of Leaf p \<Rightarrow> p) 150 = Some 1500" by code_simp
  then have "tree_map {64, 128, 192} sample_pages 150 1500"
    using k by (auto simp: tree_map_def sample_at sample_hdrs sample_leaf_def)
  then show ?thesis
    using tree_search_correct [of "{64, 128, 192}" sample_tree sample_tree_conf 150 3] sample_blink q k
    unfolding st sample_hdrs by (auto simp: kMaxLevelOfTree_def)
qed

end
