(* ===== verification/Sherman_Store.thy ===== *)
theory Sherman_Store
  imports Sherman_Blink
begin

text \<open>
  The handlers of the Sherman tree that write: \<open>Tree::del\<close> and \<open>Tree::insert\<close> of one client on a B-link
  tree nobody else is changing.  Every page is locked, read, written and unlocked before the next one
  is locked, the tree stays a B-link tree after every write, and its contents change at one key.
\<close>

section \<open>The locks of an undisturbed client\<close>

text \<open>A local lock nobody waits for, which can still be taken \<open>N\<close> times; and one the client holds.\<close>

definition idle_lock :: "nat \<Rightarrow> LocalLockNode \<Rightarrow> bool" where
  "idle_lock N nd \<longleftrightarrow> serving nd = next_ticket nd \<and> next_ticket nd + N < 2 ^ 32 \<and> \<not> hand_over nd \<and> hand_time nd = 0"

definition busy_lock :: "nat \<Rightarrow> LocalLockNode \<Rightarrow> bool" where
  "busy_lock N nd \<longleftrightarrow> Suc (serving nd) = next_ticket nd \<and> next_ticket nd + N < 2 ^ 32 \<and> \<not> hand_over nd \<and> hand_time nd = 1"

lemma acquire_idle:
  assumes "idle_lock (Suc N) nd"
  shows "\<exists>nd'. acquire_local_lock nd = Inr (False, nd') \<and> busy_lock N nd'"
proof -
  obtain ticket nd1 where t: "take_ticket nd = (ticket, nd1)" by (cases "take_ticket nd")
  have h: "next_ticket nd + 1 < 2 ^ 32" "serving nd = next_ticket nd" "\<not> hand_over nd" "hand_time nd = 0"
    using assms by (auto simp: idle_lock_def)
  note H = halves_take [OF h(1) t]
  have "ticket = current_of (ticket_lock nd)"
    using H(1) h(2) by (metis serving_def unat_current_of word_unat_eq_iff)
  moreover have "busy_lock N (nd1\<lparr>hand_time := hand_time nd1 + 1\<rparr>)"
    using H h assms by (simp add: busy_lock_def idle_lock_def serving_def next_ticket_def)
  ultimately show ?thesis
    using t H(4) h(3) by (simp add: acquire_local_lock_def enter_local_def)
qed

lemma release_busy:
  assumes "busy_lock N nd"
  shows "\<exists>nd'. can_hand_over nd = (False, nd') \<and> idle_lock N (releases_local_lock nd')"
proof -
  obtain b nd' where c: "can_hand_over nd = (b, nd')" by (cases "can_hand_over nd")
  have h: "Suc (serving nd) = next_ticket nd" "next_ticket nd + N < 2 ^ 32" using assms by (auto simp: busy_lock_def)
  note C = can_hand_over_cases [OF c]
  have b: "\<not> b" using C(1) h(1) by simp
  have nd': "nd' = nd\<lparr>hand_over := False, hand_time := 0\<rparr>" using C(2) h(1) b by simp
  have same: "serving nd' = serving nd" "next_ticket nd' = next_ticket nd" by (simp_all add: nd' serving_def next_ticket_def)
  have "serving nd' + 1 < 2 ^ 32" using h same by simp
  note R = halves_release [OF this]
  show ?thesis using c b R same h nd' by (simp add: idle_lock_def)
qed

lemma lock_slot:
  obtains i where "i < 8192" "offset (lock_addr_of conf a) = i * 16 + 8" "unat (offset (lock_addr_of conf a)) = unat i * 16 + 8"
    "nodeID (lock_addr_of conf a) = nodeID a" "(offset (lock_addr_of conf a) - 8) div 16 = i"
proof -
  define i where "i = CityHash64 conf a mod kNumOfLock"
  have n: "kNumOfLock = 8192" by (simp add: kNumOfLock_def kLockChipMemSize_def)
  have "i < 8192" unfolding i_def n by (rule word_mod_less_divisor) simp
  then have i: "unat i < 8192" by (simp add: word_less_nat_alt)
  have u: "unat (i * 16) = unat i * 16" using i by (subst unat_mult_lt) simp_all
  then have u8: "unat (i * 16 + 8) = unat i * 16 + 8" using i by (subst unat_add_lt) simp_all
  have la: "lock_addr_of conf a = mk_GlobalAddress (nodeID a) (i * 16 + 8)"
    by (simp add: lock_addr_of_def Let_def i_def mult.assoc)
  have "unat (offset (lock_addr_of conf a)) = unat i * 16 + 8"
    unfolding la unat_offset_mk u8 using i by simp
  moreover from this have "offset (lock_addr_of conf a) = i * 16 + 8" by (metis u8 word_unat_eq_iff)
  moreover from this have "(offset (lock_addr_of conf a) - 8) div 16 = i"
    by (simp only: add_diff_cancel_right') (simp add: word_unat_eq_iff unat_div u)
  ultimately show ?thesis using that \<open>i < 8192\<close> by (simp add: la)
qed

text \<open>Lock words and version words of different locks never meet.\<close>

lemma lock_addr_inj:
  assumes "nodeID (lock_addr_of conf a) = nodeID (lock_addr_of conf b)"
    "(offset (lock_addr_of conf a) - 8) div 16 = (offset (lock_addr_of conf b) - 8) div 16"
  shows "lock_addr_of conf a = lock_addr_of conf b"
  using assms by (metis lock_slot addr_eqI)

lemma version_addr_apart: "version_addr_of (lock_addr_of conf a) \<noteq> lock_addr_of conf b"
proof -
  obtain i where i: "i < 8192" "offset (lock_addr_of conf a) = i * 16 + 8" "unat (offset (lock_addr_of conf a)) = unat i * 16 + 8"
    by (rule lock_slot [of conf a])
  obtain j :: u64 where j: "unat (offset (lock_addr_of conf b)) = unat j * 16 + 8" by (rule lock_slot [of conf b])
  have "unat (i * 16) = unat i * 16" using i(1) by (subst unat_mult_lt) (simp_all add: word_less_nat_alt)
  then have "unat (offset (version_addr_of (lock_addr_of conf a))) mod 8 = 0 \<and>
      unat (offset (version_addr_of (lock_addr_of conf a))) mod 16 = 0"
    using i by (simp add: version_addr_of_def word_less_nat_alt)
  moreover have "unat (offset (lock_addr_of conf b)) mod 16 = 8" by (simp add: j mod_mult_self3)
  ultimately show ?thesis by (metis zero_neq_numeral)
qed

definition locks_idle :: "tree_conf \<Rightarrow> nat \<Rightarrow> sherman \<Rightarrow> bool" where
  "locks_idle conf N st \<longleftrightarrow>
     (\<forall>a. idle_lock N (local_lock st (lock_addr_of conf a)) \<and> chip st (lock_addr_of conf a) = 0)"

definition lock_held :: "tree_conf \<Rightarrow> nat \<Rightarrow> GlobalAddress \<Rightarrow> sherman \<Rightarrow> bool" where
  "lock_held conf N l st \<longleftrightarrow> busy_lock N (local_lock st l) \<and>
     (\<forall>a. lock_addr_of conf a \<noteq> l \<longrightarrow> idle_lock N (local_lock st (lock_addr_of conf a)) \<and> chip st (lock_addr_of conf a) = 0)"

lemma idle_lock_mono: "idle_lock N nd \<Longrightarrow> M \<le> N \<Longrightarrow> idle_lock M nd"
  by (auto simp: idle_lock_def)

lemma locks_idle_mono: "locks_idle conf N st \<Longrightarrow> M \<le> N \<Longrightarrow> locks_idle conf M st"
  by (auto simp: locks_idle_def intro: idle_lock_mono)

lemma local_lock_set:
  "local_lock (set_local_lock st (lock_addr_of conf a) nd) (lock_addr_of conf b) =
     (if lock_addr_of conf b = lock_addr_of conf a then nd else local_lock st (lock_addr_of conf b))"
  using lock_addr_inj [of conf b a] by (auto simp: local_lock_def set_local_lock_def)

text \<open>The three ways the handlers use a lock, each with what it leaves of the state.\<close>

lemma lock_and_read_ok:
  assumes "locks_idle conf (Suc N) st" "pages st a = Some p"
  shows "\<exists>c l. lock_and_read_page conf a st = Inr (p, st\<lparr>chip := c, local_locks := l\<rparr>) \<and>
    lock_held conf N (lock_addr_of conf a) (st\<lparr>chip := c, local_locks := l\<rparr>)"
proof -
  let ?l = "lock_addr_of conf a"
  obtain nd where nd: "acquire_local_lock (local_lock st ?l) = Inr (False, nd)" "busy_lock N nd"
    using acquire_idle assms(1) by (metis locks_idle_def)
  define st1 where "st1 = (set_local_lock st ?l nd)\<lparr>chip := (chip st)(?l := thread_tag conf)\<rparr>"
  have "lock_and_read_page conf a st = Inr (p, st1)"
    using nd(1) assms by (simp add: lock_and_read_page_def try_lock_addr_def Let_def st1_def set_local_lock_def locks_idle_def)
  moreover have "local_lock st1 (lock_addr_of conf b) = local_lock (set_local_lock st ?l nd) (lock_addr_of conf b)" for b
    by (simp add: st1_def local_lock_def)
  then have "lock_held conf N ?l st1"
    using assms(1) nd(2) idle_lock_mono [of "Suc N" _ N] by (auto simp: lock_held_def local_lock_set locks_idle_def st1_def)
  moreover have "st1 = st\<lparr>chip := chip st1, local_locks := local_locks st1\<rparr>" by (simp add: st1_def set_local_lock_def)
  ultimately show ?thesis by metis
qed

lemma unlock_ok:
  assumes "lock_held conf N (lock_addr_of conf a) st"
  shows "\<exists>c l. unlock_addr (lock_addr_of conf a) st = st\<lparr>chip := c, local_locks := l\<rparr> \<and>
    locks_idle conf N (st\<lparr>chip := c, local_locks := l\<rparr>)"
proof -
  let ?l = "lock_addr_of conf a"
  obtain nd where nd: "can_hand_over (local_lock st ?l) = (False, nd)" "idle_lock N (releases_local_lock nd)"
    using release_busy assms by (metis lock_held_def)
  define st1 where "st1 = set_local_lock (st\<lparr>chip := (chip st)(?l := 0)\<rparr>) ?l (releases_local_lock nd)"
  have "unlock_addr ?l st = st1" using nd(1) by (simp add: unlock_addr_def st1_def)
  moreover have "chip st1 = (chip st)(?l := 0)" by (simp add: st1_def set_local_lock_def)
  then have "locks_idle conf N st1"
    using assms nd(2) by (auto simp: locks_idle_def lock_held_def st1_def local_lock_set) (simp_all add: local_lock_def)
  moreover have "st1 = st\<lparr>chip := chip st1, local_locks := local_locks st1\<rparr>" by (simp add: st1_def set_local_lock_def)
  ultimately show ?thesis by metis
qed

lemma write_and_unlock_ok:
  assumes "lock_held conf N (lock_addr_of conf a) st"
  shows "\<exists>c l. write_page_and_unlock upd (lock_addr_of conf a) st = st\<lparr>pages := upd (pages st), chip := c, local_locks := l\<rparr> \<and>
    locks_idle conf N (st\<lparr>pages := upd (pages st), chip := c, local_locks := l\<rparr>)"
proof -
  let ?l = "lock_addr_of conf a"
  obtain nd where nd: "can_hand_over (local_lock st ?l) = (False, nd)" "idle_lock N (releases_local_lock nd)"
    using release_busy assms by (metis lock_held_def)
  define st1 where "st1 = set_local_lock (st\<lparr>pages := upd (pages st),
    chip := (chip st)(version_addr_of ?l := chip st (version_addr_of ?l) + 1, ?l := 0)\<rparr>) ?l (releases_local_lock nd)"
  have "write_page_and_unlock upd ?l st = st1" using nd(1) by (simp add: write_page_and_unlock_def st1_def Let_def)
  moreover have "chip st1 (lock_addr_of conf b) = (if lock_addr_of conf b = ?l then 0 else chip st (lock_addr_of conf b))" for b
    using version_addr_apart [of conf a b] by (simp add: st1_def set_local_lock_def)
  then have "locks_idle conf N st1"
    using assms nd(2) by (auto simp: locks_idle_def lock_held_def st1_def local_lock_set) (simp_all add: local_lock_def)
  moreover have "st1 = st\<lparr>pages := upd (pages st), chip := chip st1, local_locks := local_locks st1\<rparr>"
    by (simp add: st1_def set_local_lock_def)
  ultimately show ?thesis by metis
qed

section \<open>The path to the leaf\<close>

text \<open>The pages remembered above level \<open>l\<close> up to the root, each starting no later than the one below it.\<close>

definition path_ok :: "GlobalAddress set \<Rightarrow> memory \<Rightarrow> nat \<Rightarrow> GlobalAddress list \<Rightarrow> nat \<Rightarrow> Key \<Rightarrow> bool" where
  "path_ok P mem rl path l x \<longleftrightarrow> rl < length path \<and>
     (\<forall>j. l < j \<and> j \<le> rl \<longrightarrow> path ! j \<in> P \<and> lv mem (path ! j) = j) \<and>
     (\<forall>j. l < j \<and> j < rl \<longrightarrow> lo mem (path ! Suc j) \<le> lo mem (path ! j)) \<and>
     (l < rl \<longrightarrow> lo mem (path ! Suc l) \<le> x)"

lemma path_okD:
  assumes "path_ok P mem rl path l x"
  shows "rl < length path" "l < j \<Longrightarrow> j \<le> rl \<Longrightarrow> path ! j \<in> P" "l < j \<Longrightarrow> j \<le> rl \<Longrightarrow> lv mem (path ! j) = j"
    "l < j \<Longrightarrow> j < rl \<Longrightarrow> lo mem (path ! Suc j) \<le> lo mem (path ! j)" "l < rl \<Longrightarrow> lo mem (path ! Suc l) \<le> x"
  using assms unfolding path_ok_def by blast+

lemma path_ok_right: "path_ok P mem rl path l x \<Longrightarrow> x \<le> y \<Longrightarrow> path_ok P mem rl path l y"
  unfolding path_ok_def using order_trans by blast

lemma path_ok_visit: "path_ok P mem rl path l x \<Longrightarrow> path_ok P mem rl (path[l := a]) l x"
  by (simp add: path_ok_def)

lemma path_ok_down:
  assumes "path_ok P mem rl path (Suc l) (lo mem a)" "Suc l \<le> rl" "a \<in> P" "lv mem a = Suc l" "lo mem a \<le> y"
  shows "path_ok P mem rl (path[Suc l := a]) l y"
proof -
  note D = path_okD [OF assms(1)]
  let ?p = "path[Suc l := a]"
  have "?p ! j \<in> P \<and> lv mem (?p ! j) = j" if "l < j" "j \<le> rl" for j
    using that D(1) D(2,3) [of j] assms(3,4) by (cases "j = Suc l") auto
  moreover have "lo mem (?p ! Suc j) \<le> lo mem (?p ! j)" if "l < j" "j < rl" for j
    using that D(1,5) D(4) [of j] by (cases "j = Suc l") auto
  ultimately show ?thesis using D(1) assms(2,5) by (auto simp: path_ok_def)
qed

lemma path_ok_up:
  assumes "path_ok P mem rl path l x" "l < rl"
  shows "path_ok P mem rl path (Suc l) (lo mem (path ! Suc l))"
  using assms unfolding path_ok_def by (simp add: Suc_lessD)

lemma kid_lowest:
  assumes "blink P mem" "a \<in> P" "mem a = Some (Inner p)" "(x, b) \<in> kids (Inner p)"
  shows "lo mem a \<le> x"
proof -
  have "internal_page_wf p" using blinkD(4) [OF assms(1-3)] by simp
  from internal_okD(5) [OF this, of "(x, b)"] show ?thesis
    using assms(3,4) by (auto simp: hdr_at_def children_of_def)
qed

lemma find_leaf_ok:
  assumes "blink P (pages st)" "a \<in> P" "quiet conf st" "lo (pages st) a \<le> k" "k < kKeyMax"
    and "lv (pages st) a \<le> rl" "rl < kMaxLevelOfTree" "down_left P (pages st) a \<le> fuel"
    and "path_ok P (pages st) rl (path_stack st) (lv (pages st) a) (lo (pages st) a)"
  shows "\<exists>p path. find_leaf_loop fuel conf a k st = Inr (p, st\<lparr>path_stack := path\<rparr>) \<and> p \<in> P \<and> lv (pages st) p = 0 \<and>
    lo (pages st) p \<le> k \<and> path_ok P (pages st) rl path 0 (lo (pages st) p) \<and> length path = kMaxLevelOfTree"
  using assms
proof (induction fuel arbitrary: a st)
  case 0
  then show ?case using down_left_pos [OF blinkD(1)] by (metis le_zero_eq less_irrefl)
next
  case (Suc fuel)
  note bl = Suc.prems(1) and a = Suc.prems(2) and q = Suc.prems(3) and k = Suc.prems(4,5) and rl = Suc.prems(6,7)
  have len: "length (path_stack st) = kMaxLevelOfTree" using q by (simp add: quiet_def)
  have next_page: ?case if b: "b \<in> P" "lo (pages st) b \<le> k" "lv (pages st) b \<le> rl"
      "down_left P (pages st) b < down_left P (pages st) a"
      "path_ok P (pages st) rl (path_stack (visit st a)) (lv (pages st) b) (lo (pages st) b)"
    and eq: "find_leaf_loop (Suc fuel) conf a k st = find_leaf_loop fuel conf b k (visit st a)" for b
    using Suc.IH [of "visit st a" b] Suc.prems b eq by auto
  obtain p where p: "pages st a = Some p" using blinkD(3) [OF bl a] by blast
  note right = sib_step [OF bl a _ k(2)]
  show ?case
  proof (cases p)
    case (Leaf l)
    have l0: "lv (pages st) a = 0" using page_leaf_iff [OF blinkD(4) [OF bl a p]] Leaf by (simp add: hdr_at_def p)
    have "find_leaf_loop (Suc fuel) conf a k st = Inr (a, visit st a)"
      using page_search_leaf [OF bl a q p [unfolded Leaf] k(1)] l0 by (simp add: result_at_def)
    then show ?thesis using a l0 k(1) Suc.prems(9) len path_ok_visit by fastforce
  next
    case (Inner i)
    obtain b where ps: "page_search conf a k False st = Inr (True,
        if hi (pages st) a \<le> k then (result_at (pages st) a)\<lparr>slibing := sib (pages st) a\<rparr>
        else (result_at (pages st) a)\<lparr>next_level := b\<rparr>, visit st a)"
      and b: "k < hi (pages st) a \<longrightarrow> (\<exists>x \<le> k. (x, b) \<in> kids (Inner i))"
      using page_search_inner [OF bl a q p [unfolded Inner] k(1)] rl by fastforce
    have l0: "lv (pages st) a \<noteq> 0" "hlevel (hdr_at (pages st) a) \<noteq> 0"
      using page_leaf_iff [OF blinkD(4) [OF bl a p]] Inner by (auto simp: hdr_at_def p)
    show ?thesis
    proof (cases "hi (pages st) a \<le> k")
      case True
      have "path_ok P (pages st) rl (path_stack (visit st a)) (lv (pages st) a) (lo (pages st) (sib (pages st) a))"
        using path_ok_right [OF path_ok_visit [OF Suc.prems(9)], of "lo (pages st) (sib (pages st) a)" a] right(7) [OF True] by simp
      then show ?thesis
        using ps right True rl l0 by (intro next_page [of "sib (pages st) a"]) (auto simp: result_at_def)
    next
      case False
      then obtain x where x: "x \<le> k" "(x, b) \<in> kids (Inner i)" using b by auto
      note kid = kid_step [OF bl a p [unfolded Inner] x(2,1)]
      have pth: "path_ok P (pages st) rl (path_stack (visit st a)) (lv (pages st) b) (lo (pages st) b)"
        using path_ok_down [of P "pages st" rl "path_stack st" "lv (pages st) b" a "lo (pages st) b", unfolded kid(3)]
          Suc.prems(9) rl(1) a kid_lowest [OF bl a p [unfolded Inner] x(2)] kid(5) by simp
      show ?thesis
      proof (cases "hlevel (hdr_at (pages st) a) = 1")
        case True
        then have "find_leaf_loop (Suc fuel) conf a k st = Inr (b, visit st a)"
          using ps False l0 by (simp add: result_at_def empty_result_def)
        moreover have "lv (pages st) b = 0" using kid(3) True by simp
        ultimately show ?thesis using kid pth len by force
      next
        case lev: False
        then show ?thesis
          using ps False kid rl l0 pth by (intro next_page [of b]) (auto simp: result_at_def empty_result_def)
      qed
    qed
  qed
qed

section \<open>Writing one entry of a leaf\<close>

text \<open>The memory after the leaf that covers \<open>k\<close> got a new entry for it, or lost it.\<close>

definition leaf_written :: "GlobalAddress set \<Rightarrow> memory \<Rightarrow> Key \<Rightarrow> Value option \<Rightarrow> memory \<Rightarrow> bool" where
  "leaf_written P mem k m mem' \<longleftrightarrow>
     (\<exists>b \<in> P. \<exists>p p'. mem b = Some (Leaf p) \<and> lo mem b \<le> k \<and> k < hi mem b \<and> leaf_page_wf p' \<and> lp_hdr p' = lp_hdr p \<and>
        leaf_page_map p' = (leaf_page_map p)(k := m) \<and> mem' = mem(b \<mapsto> Leaf p'))"

lemma leaf_written_hdr: "leaf_written P mem k m mem' \<Longrightarrow> hdr_at mem' a = hdr_at mem a"
  by (auto simp: leaf_written_def hdr_at_def)

lemma leaf_written_blink:
  assumes "blink P mem" "leaf_written P mem k m mem'"
  shows "blink P mem'"
proof -
  obtain b p p' where b: "b \<in> P" "mem b = Some (Leaf p)" "leaf_page_wf p'" "lp_hdr p' = lp_hdr p" "mem' = mem(b \<mapsto> Leaf p')"
    using assms(2) by (auto simp: leaf_written_def)
  then show ?thesis using blink_update [OF assms(1) b(1), of "Leaf p'"] by (simp add: hdr_at_def)
qed

lemma leaf_written_map:
  assumes bl: "blink P mem" and w: "leaf_written P mem k m mem'"
  shows "tree_map P mem' j v \<longleftrightarrow> (if j = k then m = Some v else tree_map P mem j v)"
proof -
  obtain b p p' where b: "b \<in> P" "mem b = Some (Leaf p)" "lo mem b \<le> k" "k < hi mem b" "leaf_page_wf p'"
      "leaf_page_map p' = (leaf_page_map p)(k := m)" and mem': "mem' = mem(b \<mapsto> Leaf p')"
    using w by (auto simp: leaf_written_def)
  note hdr = leaf_written_hdr [OF w] and bl' = leaf_written_blink [OF bl w]
  show ?thesis
  proof (cases "lo mem b \<le> j \<and> j < hi mem b")
    case True
    have "mem' b = Some (Leaf p')" by (simp add: mem')
    from tree_map_at [OF bl' b(1) this, of j v] tree_map_at [OF bl b(1,2), of j v] show ?thesis
      using True b(6) unfolding hdr by auto
  next
    case False
    then have "tree_map P mem' j v \<longleftrightarrow> tree_map P mem j v"
      using b(2) unfolding tree_map_def hdr by (auto simp: mem' split: if_splits)
    then show ?thesis using False b(3,4) by auto
  qed
qed

text \<open>The write of the entry is the write of the page.\<close>

lemma write_entry_page:
  assumes "mem a = Some (Leaf p)" "p' = p\<lparr>lp_records := (lp_records p)[i := lp_records p' ! i]\<rparr>"
  shows "write_entry a i (lp_records p' ! i) mem = mem(a \<mapsto> Leaf p')"
  using assms by (simp add: write_entry_def)

lemma leaf_hdr:
  assumes "blink P mem" "a \<in> P" "lv mem a = 0"
  obtains p where "mem a = Some (Leaf p)" "leaf_page_wf p" "hdr_at mem a = lp_hdr p" "hlevel (lp_hdr p) = 0"
    "LeafPage_check_consistent p"
proof -
  obtain q where q: "mem a = Some q" using blinkD(3) [OF assms(1,2)] by blast
  then obtain p where p: "q = Leaf p" using page_leaf_iff [OF blinkD(4) [OF assms(1,2) q]] assms(3) by (auto simp: hdr_at_def)
  then have "leaf_page_wf p" using blinkD(4) [OF assms(1,2) q] by simp
  then show ?thesis using that [of p] q p leaf_page_wfD(4,6) by (simp add: hdr_at_def)
qed

section \<open>Deleting\<close>

lemma up_left_pos: "finite P \<Longrightarrow> a \<in> P \<Longrightarrow> 0 < up_left P mem a"
  unfolding up_left_def card_gt_0_iff by auto


lemma leaf_page_del_ok:
  assumes "blink P (pages st)" "a \<in> P" "lv (pages st) a = 0" "lo (pages st) a \<le> k" "k < kKeyMax" "thread_tag conf \<noteq> 0"
    and "locks_idle conf (N + fuel) st" "up_left P (pages st) a \<le> fuel"
  shows "\<exists>mem c l. leaf_page_del fuel conf a k 0 False st = Inr (True, st\<lparr>pages := mem, chip := c, local_locks := l\<rparr>) \<and>
    leaf_written P (pages st) k None mem \<and> locks_idle conf N (st\<lparr>pages := mem, chip := c, local_locks := l\<rparr>)"
  using assms
proof (induction fuel arbitrary: a st)
  case 0
  then show ?case using up_left_pos [OF blinkD(1)] by (metis le_zero_eq less_irrefl)
next
  case (Suc fuel)
  note bl = Suc.prems(1) and a = Suc.prems(2) and k = Suc.prems(4,5)
  obtain p where p: "pages st a = Some (Leaf p)" "leaf_page_wf p" "hdr_at (pages st) a = lp_hdr p" "hlevel (lp_hdr p) = 0"
      "LeafPage_check_consistent p"
    using leaf_hdr [OF bl a Suc.prems(3)] .
  obtain c l where lk: "lock_and_read_page conf a st = Inr (Leaf p, st\<lparr>chip := c, local_locks := l\<rparr>)"
      "lock_held conf (N + fuel) (lock_addr_of conf a) (st\<lparr>chip := c, local_locks := l\<rparr>)"
    using lock_and_read_ok [of conf "N + fuel" st a, OF _ p(1)] Suc.prems(7) by auto
  show ?case
  proof (cases "hi (pages st) a \<le> k")
    case True
    note right = sib_step [OF bl a True k(2)]
    obtain c' l' where un: "unlock_addr (lock_addr_of conf a) (st\<lparr>chip := c, local_locks := l\<rparr>) = st\<lparr>chip := c', local_locks := l'\<rparr>"
        "locks_idle conf (N + fuel) (st\<lparr>chip := c', local_locks := l'\<rparr>)"
      using unlock_ok [OF lk(2)] by auto
    obtain mem c2 l2 where rec: "leaf_page_del fuel conf (sib (pages st) a) k 0 False (st\<lparr>chip := c', local_locks := l'\<rparr>) =
        Inr (True, st\<lparr>pages := mem, chip := c2, local_locks := l2\<rparr>)"
        "leaf_written P (pages st) k None mem" "locks_idle conf N (st\<lparr>pages := mem, chip := c2, local_locks := l2\<rparr>)"
      using Suc.IH [of "st\<lparr>chip := c', local_locks := l'\<rparr>" "sib (pages st) a"] right Suc.prems un(2) by auto
    have "leaf_page_del (Suc fuel) conf a k 0 False st = Inr (True, st\<lparr>pages := mem, chip := c2, local_locks := l2\<rparr>)"
      using lk(1) un(1) rec(1) True right(2) Suc.prems(6) p by simp
    then show ?thesis using rec(2,3) by blast
  next
    case False
    obtain p' w where d: "leaf_del_entry p k = (p', w)" by (metis surj_pair)
    note D = leaf_del_entry_correct [OF leaf_page_wfD(1) [OF p(2)] d]
    have p': "leaf_page_wf p'" "lp_hdr p' = lp_hdr p"
      using leaf_page_remove_correct [OF p(2), of k] d
      by (auto simp: leaf_page_remove_def leaf_del_entry_def Let_def split: option.splits)
    then have written: "leaf_written P (pages st) k None ((pages st)(a \<mapsto> Leaf p'))"
      unfolding leaf_written_def using a p(1) k False D by (intro bexI [of _ a]) auto
    have pre: "leaf_page_del (Suc fuel) conf a k 0 False st = (case leaf_del_entry p k of
        (page1, Some i) \<Rightarrow> Inr (True, write_page_and_unlock (write_entry a i (lp_records page1 ! i)) (lock_addr_of conf a)
          (st\<lparr>chip := c, local_locks := l\<rparr>))
      | (page1, None) \<Rightarrow> Inr (True, unlock_addr (lock_addr_of conf a) (st\<lparr>chip := c, local_locks := l\<rparr>)))"
      using lk(1) p False k(1) Suc.prems(6) by (simp add: Let_def)
    show ?thesis
    proof (cases w)
      case None
      then have "p' = p" using D by simp
      then have "(pages st)(a \<mapsto> Leaf p') = pages st" using p(1) by auto
      then show ?thesis
        using pre d None unlock_ok [OF lk(2)] written locks_idle_mono [of conf "N + fuel" _ N] by force
    next
      case (Some i)
      then have "write_entry a i (lp_records p' ! i) (pages st) = (pages st)(a \<mapsto> Leaf p')"
        using write_entry_page [of "pages st" a p p' i] D p(1) by simp
      then show ?thesis
        using pre d Some write_and_unlock_ok [OF lk(2), of "write_entry a i (lp_records p' ! i)"] written
          locks_idle_mono [of conf "N + fuel" _ N] by force
    qed
  qed
qed

text \<open>
  What holds of the tree between operations: a B-link tree under the root, which covers every key and
  lies above all other pages, on pages the allocator has given out.
\<close>

definition pages_ok :: "tree_conf \<Rightarrow> GlobalAddress set \<Rightarrow> nat \<Rightarrow> sherman \<Rightarrow> bool" where
  "pages_ok conf P rl st \<longleftrightarrow> blink P (pages st) \<and> (\<forall>a \<in> P. lv (pages st) a \<le> rl) \<and>
     dsm_conf_ok (t_dsm conf) \<and> dsm_inv (t_dsm conf) (sdsm st) \<and> (\<forall>a \<in> P. (a, 1024) \<in> set (blocks (sdsm st)))"

definition tree_ok :: "tree_conf \<Rightarrow> GlobalAddress set \<Rightarrow> sherman \<Rightarrow> bool" where
  "tree_ok conf P st \<longleftrightarrow> pages_ok conf P (lv (pages st) (root_cell st)) st \<and> root_cell st \<in> P \<and>
     lo (pages st) (root_cell st) = 0 \<and> hi (pages st) (root_cell st) = kKeyMax"

lemma pages_okD:
  assumes "pages_ok conf P rl st"
  shows "blink P (pages st)" "a \<in> P \<Longrightarrow> lv (pages st) a \<le> rl" "dsm_conf_ok (t_dsm conf)" "dsm_inv (t_dsm conf) (sdsm st)"
    "a \<in> P \<Longrightarrow> (a, 1024) \<in> set (blocks (sdsm st))"
  using assms unfolding pages_ok_def by blast+

lemma tree_okD:
  assumes "tree_ok conf P st"
  shows "blink P (pages st)" "root_cell st \<in> P" "lo (pages st) (root_cell st) = 0" "hi (pages st) (root_cell st) = kKeyMax"
    "a \<in> P \<Longrightarrow> lv (pages st) a \<le> lv (pages st) (root_cell st)" "pages_ok conf P (lv (pages st) (root_cell st)) st"
  using assms unfolding tree_ok_def by (auto dest: pages_okD)

lemma tree_ok_written:
  assumes "tree_ok conf P st" "leaf_written P (pages st) k m (pages st')" "root_cell st' = root_cell st" "sdsm st' = sdsm st"
  shows "tree_ok conf P st'"
  using assms leaf_written_blink [OF tree_okD(1) [OF assms(1)] assms(2)] leaf_written_hdr [OF assms(2)]
  unfolding tree_ok_def pages_ok_def by simp

text \<open>From any root a process may have cached, the descent ends at a leaf at or left of the key.\<close>

lemma find_leaf_from_root:
  assumes ok: "tree_ok conf P st" and root: "get_root_ptr st \<in> P" "lo (pages st) (get_root_ptr st) = 0"
    and lvl: "lv (pages st) (root_cell st) < kMaxLevelOfTree" and lk: "locks_idle conf N st"
    and off: "\<not> enable_cache (globals st)" and k: "k < kKeyMax" and fuel: "card P \<le> fuel"
  shows "\<exists>p path. find_leaf_loop fuel conf (get_root_ptr st) k (before_operation st) = Inr (p, st\<lparr>path_stack := path\<rparr>) \<and>
    p \<in> P \<and> lv (pages st) p = 0 \<and> lo (pages st) p \<le> k \<and>
    path_ok P (pages st) (lv (pages st) (get_root_ptr st)) path 0 (lo (pages st) p) \<and> length path = kMaxLevelOfTree"
proof -
  let ?st = "before_operation st" and ?r = "get_root_ptr st"
  have st: "pages ?st = pages st" "?st\<lparr>path_stack := path\<rparr> = st\<lparr>path_stack := path\<rparr>" for path by (simp_all add: before_operation_def)
  have q: "quiet conf ?st" using lk off by (simp add: quiet_def before_operation_def locks_idle_def)
  have lr: "lv (pages st) ?r < kMaxLevelOfTree" using tree_okD(5) [OF ok root(1)] lvl by simp
  then have pth: "path_ok P (pages st) (lv (pages st) ?r) (path_stack ?st) (lv (pages st) ?r) (lo (pages st) ?r)"
    by (auto simp: path_ok_def before_operation_def)
  have "down_left P (pages st) ?r \<le> fuel"
    using down_left_le [OF blinkD(1) [OF tree_okD(1) [OF ok]]] fuel order_trans by blast
  then show ?thesis
    using find_leaf_ok [of P ?st ?r conf k, unfolded st] tree_okD(1) [OF ok] root q k lr pth by simp
qed

lemma tree_del_ok:
  assumes ok: "tree_ok conf P st" and root: "get_root_ptr st \<in> P" "lo (pages st) (get_root_ptr st) = 0"
    and lvl: "lv (pages st) (root_cell st) < kMaxLevelOfTree" and lk: "locks_idle conf (N + fuel) st"
    and off: "\<not> enable_cache (globals st)" and tag: "thread_tag conf \<noteq> 0" and k: "k < kKeyMax" and fuel: "card P \<le> fuel"
  shows "\<exists>st'. tree_del fuel conf k st = Inr st' \<and> tree_ok conf P st' \<and> locks_idle conf N st' \<and>
    globals st' = globals st \<and> root_cell st' = root_cell st \<and>
    (\<forall>j v. tree_map P (pages st') j v \<longleftrightarrow> j \<noteq> k \<and> tree_map P (pages st) j v)"
proof -
  obtain p path where f: "find_leaf_loop fuel conf (get_root_ptr st) k (before_operation st) = Inr (p, st\<lparr>path_stack := path\<rparr>)"
      "p \<in> P" "lv (pages st) p = 0" "lo (pages st) p \<le> k"
    using find_leaf_from_root [OF ok root lvl lk off k fuel] by blast
  have "up_left P (pages st) p \<le> fuel"
    using up_left_le [OF blinkD(1) [OF tree_okD(1) [OF ok]]] fuel order_trans by blast
  moreover have "locks_idle conf (N + fuel) (st\<lparr>path_stack := path\<rparr>)" using lk by (simp add: locks_idle_def local_lock_def)
  ultimately obtain mem c l where d: "leaf_page_del fuel conf p k 0 False (st\<lparr>path_stack := path\<rparr>) =
      Inr (True, st\<lparr>path_stack := path, pages := mem, chip := c, local_locks := l\<rparr>)"
      "leaf_written P (pages st) k None mem" "locks_idle conf N (st\<lparr>path_stack := path, pages := mem, chip := c, local_locks := l\<rparr>)"
    using leaf_page_del_ok [of P "st\<lparr>path_stack := path\<rparr>" p k conf N fuel] tree_okD(1) [OF ok] f(2-4) k tag by auto
  have g: "get_root_ptr (before_operation st) = get_root_ptr st" "globals (before_operation st) = globals st"
    by (simp_all add: before_operation_def get_root_ptr_def)
  let ?st' = "st\<lparr>path_stack := path, pages := mem, chip := c, local_locks := l\<rparr>"
  have "tree_del fuel conf k st = Inr ?st'" using off f(1) d(1) by (simp add: tree_del_def Let_def g)
  moreover have "tree_ok conf P ?st'" by (rule tree_ok_written [OF ok, of k None]) (simp_all add: d(2))
  moreover have "tree_map P mem j v \<longleftrightarrow> j \<noteq> k \<and> tree_map P (pages st) j v" for j v
    using leaf_written_map [OF tree_okD(1) [OF ok] d(2)] by simp
  ultimately show ?thesis using d(3) by (intro exI [of _ ?st']) simp
qed

section \<open>Fresh pages\<close>

lemma blocks_cons:
  assumes "DSM_alloc conf s t sz = Inr (a, s')"
  shows "blocks s' = (a, sz) # blocks s"
  using assms by (auto simp: DSM_alloc_def Let_def rpc_malloc_def split: prod.splits if_splits sum.splits)

lemma block_not_null:
  assumes "dsm_conf_ok conf" "dsm_inv conf s" "(a, sz) \<in> set (blocks s)"
  shows "a \<noteq> Null"
proof -
  have "(loc_of a, unat sz) \<in> set (blks (dsm_bump conf s))" using assms(3) by (force simp: dsm_bump_def)
  from bump_invD(6) [OF dsm_invD(4) [OF assms(2)] this] obtain c where
    c: "c \<in> issued_chunks conf s" "in_chunk chunk_bytes c (loc_of a, unat sz)" by (auto simp: dsm_bump_def)
  have "0 < unat (offset a)" using issued_bound(2) [OF assms(1,2) c(1)] c(2) by (simp add: in_chunk_def loc_of_def)
  then show ?thesis by (auto simp: Null_def offset_def)
qed

lemma tree_alloc_ok:
  assumes ok: "pages_ok conf P rl st" and al: "tree_alloc conf 1024 st = r"
  shows "r = Inl AllocError \<or> (\<exists>a d. r = Inr (a, st\<lparr>sdsm := d\<rparr>) \<and> a \<notin> P \<and> a \<noteq> Null \<and>
    dsm_inv (t_dsm conf) d \<and> set (blocks d) = insert (a, 1024) (set (blocks (sdsm st))))"
proof (cases "DSM_alloc (t_dsm conf) (sdsm st) (thread_id conf) 1024")
  case (Inl e)
  then show ?thesis using al by (simp add: tree_alloc_def)
next
  case (Inr x)
  obtain a d where x: "x = (a, d)" by (cases x)
  note b = blocks_cons [OF Inr [unfolded x]]
  have sz: "(1024 :: u64) \<le> kChunkSize - 8" by (simp add: kChunkSize_def)
  note inv = DSM_alloc_inv [OF pages_okD(3,4) [OF ok] sz Inr [unfolded x]]
  have "sorted_wrt disjoint_blocks (blks (dsm_bump (t_dsm conf) d))" using bump_invD(7) [OF dsm_invD(4) [OF inv]] .
  then have "disjoint_blocks (loc_of a, 1024) (loc_of c, 1024)" if "c \<in> P" for c
    using pages_okD(5) [OF ok that] by (auto simp: dsm_bump_def b sorted_wrt_map)
  then have "a \<notin> P" by fastforce
  moreover have "a \<noteq> Null" using block_not_null [OF pages_okD(3) [OF ok] inv, of a 1024] b by simp
  ultimately show ?thesis using al Inr x inv b by (intro disjI2 exI [of _ a] exI [of _ d]) (simp add: tree_alloc_def)
qed

section \<open>Splits\<close>

definition leaves :: "GlobalAddress set \<Rightarrow> memory \<Rightarrow> (GlobalAddress \<times> LeafPage) set" where
  "leaves P mem = {(a, p). a \<in> P \<and> mem a = Some (Leaf p)}"

lemma tree_map_leaves:
  "tree_map P mem k v \<longleftrightarrow> (\<exists>(a, p) \<in> leaves P mem. lowest (lp_hdr p) \<le> k \<and> k < highest (lp_hdr p) \<and> leaf_page_map p k = Some v)"
  by (force simp: tree_map_def leaves_def hdr_at_def)

text \<open>No page points down to \<open>v\<close> yet.\<close>

definition unref :: "GlobalAddress set \<Rightarrow> memory \<Rightarrow> GlobalAddress \<Rightarrow> bool" where
  "unref P mem v \<longleftrightarrow> (\<forall>a \<in> P. \<forall>p. mem a = Some p \<longrightarrow> v \<notin> snd ` kids p)"

text \<open>
  A page \<open>a\<close> split into \<open>p\<close> and the new page \<open>b\<close>, as the stores write them: the new page first, then
  the old one.
\<close>

definition split_into ::
  "GlobalAddress set \<Rightarrow> memory \<Rightarrow> GlobalAddress \<Rightarrow> GlobalAddress \<Rightarrow> page \<Rightarrow> page \<Rightarrow> Key \<Rightarrow> bool" where
  "split_into P mem a b p r key \<longleftrightarrow> a \<in> P \<and> b \<notin> P \<and> b \<noteq> Null \<and> page_ok p \<and> page_ok r \<and>
     lowest (page_hdr p) = lo mem a \<and> highest (page_hdr p) = key \<and> sibling_ptr (page_hdr p) = b \<and>
     hlevel (page_hdr p) = hlevel (hdr_at mem a) \<and>
     lowest (page_hdr r) = key \<and> highest (page_hdr r) = hi mem a \<and> sibling_ptr (page_hdr r) = sib mem a \<and>
     hlevel (page_hdr r) = hlevel (hdr_at mem a) \<and> lo mem a < key \<and> key < hi mem a \<and>
     (\<forall>x \<in> kids p \<union> kids r. kid_ok P mem (lv mem a) x)"

lemma split_hdrs:
  assumes "split_into P mem a b p r key"
  defines "mem' \<equiv> mem(b \<mapsto> r, a \<mapsto> p)"
  shows "x \<in> P \<Longrightarrow> lo mem' x = lo mem x" "x \<in> P \<Longrightarrow> hlevel (hdr_at mem' x) = hlevel (hdr_at mem x)"
    "x \<in> P \<Longrightarrow> x \<noteq> a \<Longrightarrow> hdr_at mem' x = hdr_at mem x"
    "lo mem' b = key" "hlevel (hdr_at mem' b) = hlevel (hdr_at mem a)" "hi mem' a = key" "hi mem' b = hi mem a"
proof -
  have ab: "a \<noteq> b" "b \<notin> P" using assms(1) by (auto simp: split_into_def)
  show "lo mem' b = key" "hlevel (hdr_at mem' b) = hlevel (hdr_at mem a)" "hi mem' a = key" "hi mem' b = hi mem a"
    using assms(1) ab by (simp_all add: split_into_def mem'_def)
  assume x: "x \<in> P"
  then have "x \<noteq> b" using ab by auto
  then show "lo mem' x = lo mem x" "hlevel (hdr_at mem' x) = hlevel (hdr_at mem x)" "x \<noteq> a \<Longrightarrow> hdr_at mem' x = hdr_at mem x"
    using assms(1) by (cases "x = a"; simp add: split_into_def mem'_def)+
qed

lemma split_pages_ok:
  assumes ok: "pages_ok conf P rl st" and sp: "split_into P (pages st) a b p r key"
    and d: "dsm_inv (t_dsm conf) d" "set (blocks d) = insert (b, 1024) (set (blocks (sdsm st)))"
    and st': "pages st' = (pages st)(b \<mapsto> r, a \<mapsto> p)" "sdsm st' = d"
  shows "pages_ok conf (insert b P) rl st'" "unref (insert b P) (pages st') b"
proof -
  note D = pages_okD [OF ok]
  have s: "a \<in> P" "b \<notin> P" "b \<noteq> Null" "page_ok p" "page_ok r" using sp by (auto simp: split_into_def)
  have "blink (insert b P) (pages st')"
    unfolding st' using sp by (intro blink_split [OF D(1) s]) (auto simp: split_into_def)
  moreover have "lv (pages st') x \<le> rl" if "x \<in> insert b P" for x
    using that split_hdrs(2,5) [OF sp] D(2) [of x] D(2) [OF s(1)] st'(1) by auto
  ultimately show "pages_ok conf (insert b P) rl st'"
    using D(3,5) d by (auto simp: pages_ok_def st'(2))
  have "b \<noteq> snd x" if "kid_ok P (pages st) n x" for n x using that s(2) by (auto simp: kid_ok_def)
  moreover have "kid_ok P (pages st) (lv (pages st) a) x" if "x \<in> kids p \<union> kids r" for x
    using that sp by (auto simp: split_into_def)
  moreover have "kid_ok P (pages st) (lv (pages st) c) x" if "c \<in> P" "pages st c = Some q" "x \<in> kids q" for c q x
    using blinkD(6) [OF D(1) that] .
  ultimately show "unref (insert b P) (pages st') b"
    unfolding unref_def st' by (fastforce split: if_splits)
qed

lemma split_tree_ok:
  assumes ok: "tree_ok conf P st" and sp: "split_into P (pages st) a b p r key" and ne: "a \<noteq> root_cell st"
    and d: "dsm_inv (t_dsm conf) d" "set (blocks d) = insert (b, 1024) (set (blocks (sdsm st)))"
    and st': "pages st' = (pages st)(b \<mapsto> r, a \<mapsto> p)" "sdsm st' = d" "root_cell st' = root_cell st"
  shows "tree_ok conf (insert b P) st'"
proof -
  note D = tree_okD [OF ok]
  have h: "hdr_at (pages st') (root_cell st) = hdr_at (pages st) (root_cell st)"
    unfolding st' using split_hdrs(3) [OF sp D(2)] ne by simp
  show ?thesis
    unfolding tree_ok_def st'(3) h using split_pages_ok(1) [OF D(6) sp d st'(1,2)] D(2-4) by simp
qed

lemma path_ok_split:
  assumes "path_ok P mem rl path l x" "split_into P mem a b p r key"
  shows "path_ok (insert b P) (mem(b \<mapsto> r, a \<mapsto> p)) rl path l x"
proof -
  note D = path_okD [OF assms(1)] and H = split_hdrs(1,2) [OF assms(2)]
  have "path ! j \<in> P" if "l < j" "j \<le> rl" for j using D(2) that .
  then show ?thesis unfolding path_ok_def using D H by (simp add: Suc_leI less_SucI)
qed

lemma up_left_split:
  assumes "split_into P mem a b p r key" "u \<in> P" "lv mem a < lv mem u"
  shows "up_left (insert b P) (mem(b \<mapsto> r, a \<mapsto> p)) u = up_left P mem u"
proof -
  define mem' where "mem' = mem(b \<mapsto> r, a \<mapsto> p)"
  note H = split_hdrs [OF assms(1), folded mem'_def]
  have P: "lo mem' c = lo mem c" "lv mem' c = lv mem c" if "c \<in> P" for c using H(1,2) [OF that] by simp_all
  have b: "lv mem' b = lv mem a" using H(5) by simp
  have "{c \<in> insert b P. lv mem' u < lv mem' c \<or> lv mem' u = lv mem' c \<and> lo mem' u \<le> lo mem' c} =
    {c \<in> P. lv mem u < lv mem c \<or> lv mem u = lv mem c \<and> lo mem u \<le> lo mem c}"
    unfolding P [OF assms(2)] using b assms(3) P by auto
  then show ?thesis by (simp add: up_left_def mem'_def)
qed

section \<open>A new root\<close>

lemma leaves_inner:
  assumes "mem' = mem(c \<mapsto> Inner q)" "c \<notin> P \<or> (\<exists>p. mem c = Some (Inner p))"
  shows "leaves (insert c P) mem' = leaves P mem" "c \<in> P \<Longrightarrow> leaves P mem' = leaves P mem"
  using assms by (auto simp: leaves_def split: if_splits)

lemma grow_page:
  assumes "0 < key" "key < kKeyMax" "a \<noteq> Null" "lev \<noteq> 0"
  shows "internal_page_wf (InternalPage_set_consistent (InternalPage_grow a key b lev))"
    "children_of (InternalPage_set_consistent (InternalPage_grow a key b lev)) = [(0, a), (key, b)]"
proof -
  have c: "hdr_cnt (ip_hdr (InternalPage_grow a key b lev)) = 1" by (simp add: hdr_cnt_def InternalPage_grow_def)
  have r: "take 1 (ip_records (InternalPage_grow a key b lev)) = [\<lparr>ie_key = key, ie_ptr = b\<rparr>]"
    "length (ip_records (InternalPage_grow a key b lev)) = 61"
    by (simp_all add: InternalPage_grow_def take_Suc hd_conv_nth take_update_swap numeral_eq_Suc)
  have s: "seps_of (InternalPage_grow a key b lev) = [(key, b)]" using c r(1) by (simp add: seps_of_def)
  have h: "lowest (ip_hdr (InternalPage_grow a key b lev)) = 0" "highest (ip_hdr (InternalPage_grow a key b lev)) = kKeyMax"
    "leftmost_ptr (ip_hdr (InternalPage_grow a key b lev)) = a" "hlevel (ip_hdr (InternalPage_grow a key b lev)) = lev"
    "InternalPage_check_consistent (InternalPage_grow a key b lev)"
    by (simp_all add: InternalPage_grow_def Header_new_def kKeyMin_def InternalPage_check_consistent_def)
  have "internal_page_wf (InternalPage_grow a key b lev)" unfolding internal_ok_def using c r s h assms by simp
  then show "internal_page_wf (InternalPage_set_consistent (InternalPage_grow a key b lev))" by simp
  show "children_of (InternalPage_set_consistent (InternalPage_grow a key b lev)) = [(0, a), (key, b)]"
    using s h by (simp add: children_of_def)
qed

lemma update_new_root_ok:
  assumes ok: "pages_ok conf P rl st" and a: "a \<in> P" "lv (pages st) a = rl" "lo (pages st) a = 0"
    and b: "b \<in> P" "lv (pages st) b = rl" "lo (pages st) b = key" and key: "0 < key" "key < kKeyMax"
    and root: "root_cell st = a" and rl: "rl < 255" and r: "update_new_root conf a key b (int rl + 1) a st = r"
  shows "r = Inl AllocError \<or> (\<exists>c st'. r = Inr (True, st') \<and> tree_ok conf (insert c P) st' \<and>
    leaves (insert c P) (pages st') = leaves P (pages st) \<and> (\<forall>x \<in> P. hdr_at (pages st') x = hdr_at (pages st) x) \<and>
    chip st' = chip st \<and> local_locks st' = local_locks st \<and> globals st' = globals st)"
proof -
  note D = pages_okD [OF ok]
  define q where "q = InternalPage_set_consistent (InternalPage_grow a key b (word_of_int (int rl + 1)))"
  have u: "unat (word_of_int (int rl + 1) :: u8) = Suc rl"
  proof -
    have "(word_of_int (int rl + 1) :: u8) = of_nat (Suc rl)" by simp
    then show ?thesis using rl by (simp only: unat_of_nat_lt) (simp add: unat_of_nat_lt del: of_nat_Suc)
  qed
  have nz: "(word_of_int (int rl + 1) :: u8) \<noteq> 0" using u by (metis nat.distinct(1) unat_0)
  have an: "a \<noteq> Null" using a(1) blinkD(2) [OF D(1)] by auto
  note q = grow_page [OF key an nz, of b, folded q_def]
  have h: "lowest (ip_hdr q) = 0" "highest (ip_hdr q) = kKeyMax" "hlevel (ip_hdr q) = word_of_int (int rl + 1)"
    by (simp_all add: q_def InternalPage_grow_def Header_new_def kKeyMin_def)
  have sz: "kInternalPageSize = 1024" by (simp add: kInternalPageSize_def)
  from tree_alloc_ok [OF ok refl] show ?thesis
  proof
    assume "tree_alloc conf 1024 st = Inl AllocError"
    then show ?thesis using r by (simp add: update_new_root_def Let_def sz)
  next
    assume "\<exists>c d. tree_alloc conf 1024 st = Inr (c, st\<lparr>sdsm := d\<rparr>) \<and> c \<notin> P \<and> c \<noteq> Null \<and> dsm_inv (t_dsm conf) d \<and>
      set (blocks d) = insert (c, 1024) (set (blocks (sdsm st)))"
    then obtain c d where al: "tree_alloc conf 1024 st = Inr (c, st\<lparr>sdsm := d\<rparr>)" and c: "c \<notin> P" "c \<noteq> Null"
      and d: "dsm_inv (t_dsm conf) d" "set (blocks d) = insert (c, 1024) (set (blocks (sdsm st)))" by blast
    define st' where "st' = broadcast_new_root conf c (int rl + 1)
      (st\<lparr>sdsm := d, pages := (pages st)(c \<mapsto> Inner q), root_cell := c\<rparr>)"
    have res: "r = Inr (True, st')"
      using r al root by (simp add: update_new_root_def Let_def sz q_def st'_def)
    have f: "pages st' = (pages st)(c \<mapsto> Inner q)" "sdsm st' = d" "root_cell st' = c" "chip st' = chip st"
      "local_locks st' = local_locks st" "globals st' = globals st"
      by (simp_all add: st'_def broadcast_new_root_def Let_def)
    have hd: "hdr_at (pages st') x = hdr_at (pages st) x" if "x \<in> P" for x
      unfolding f using that c(1) by (intro hdr_at_simps(2)) auto
    have bl: "blink (insert c P) (pages st')"
      unfolding f using q h u a b key D(2)
      by (intro blink_add [OF D(1) c]) (auto simp: kid_ok_def dest: D(2))
    have "pages_ok conf (insert c P) (Suc rl) st'"
      using bl D(2,3,5) d hd h(3) u by (auto simp: pages_ok_def f(1,2) le_SucI)
    then have "tree_ok conf (insert c P) st'" using h u by (simp add: tree_ok_def f)
    moreover have "leaves (insert c P) (pages st') = leaves P (pages st)" using leaves_inner(1) [OF f(1)] c by blast
    ultimately show ?thesis using res hd f by blast
  qed
qed

section \<open>Storing a separator\<close>

lemma inner_hdr:
  assumes "blink P mem" "a \<in> P" "lv mem a \<noteq> 0"
  obtains p where "mem a = Some (Inner p)" "internal_page_wf p" "hdr_at mem a = ip_hdr p" "InternalPage_check_consistent p"
proof -
  obtain q where q: "mem a = Some q" using blinkD(3) [OF assms(1,2)] by blast
  note ok = blinkD(4) [OF assms(1,2) q]
  show ?thesis
  proof (cases q)
    case (Leaf p)
    then show ?thesis using page_leaf_iff [OF ok] assms(3) q by (auto simp: hdr_at_def)
  next
    case (Inner p)
    then show ?thesis using that [of p] ok q internal_okD(9) [of "kInternalCardinality - 1" p] by (simp add: hdr_at_def)
  qed
qed

lemma inner_store_page:
  assumes bl: "blink P mem" and a: "a \<in> P" "mem a = Some (Inner p)" and k: "lo mem a < k" "k < hi mem a"
    and v: "kid_ok P mem (lv mem a) (k, v)"
  obtains q where "internal_store_entry p k v = Inr q"
    "hdr_cnt (ip_hdr q) \<noteq> int kInternalCardinality \<Longrightarrow> blink P (mem(a \<mapsto> Inner (InternalPage_set_consistent q)))"
    "\<And>x. lo (mem(a \<mapsto> Inner (InternalPage_set_consistent q))) x = lo mem x"
    "\<And>x. hi (mem(a \<mapsto> Inner (InternalPage_set_consistent q))) x = hi mem x"
    "\<And>x. lv (mem(a \<mapsto> Inner (InternalPage_set_consistent q))) x = lv mem x"
    "\<And>b. hdr_cnt (ip_hdr q) = int kInternalCardinality \<Longrightarrow> b \<notin> P \<Longrightarrow> b \<noteq> Null \<Longrightarrow>
      \<exists>q' s key. internal_split_page q b = Inr (q', s, key) \<and>
        split_into P mem a b (Inner (InternalPage_set_consistent q')) (Inner s) key"
proof -
  have wf: "internal_page_wf p" using blinkD(4) [OF bl a] by simp
  have h: "hdr_at mem a = ip_hdr p" by (simp add: hdr_at_def a)
  obtain q where q: "internal_store_entry p k v = Inr q" "internal_ok kInternalCardinality q"
      "map_of (seps_of q) = (map_of (seps_of p))(k \<mapsto> v)"
      "lowest (ip_hdr q) = lowest (ip_hdr p)" "highest (ip_hdr q) = highest (ip_hdr p)"
      "leftmost_ptr (ip_hdr q) = leftmost_ptr (ip_hdr p)" "sibling_ptr (ip_hdr q) = sibling_ptr (ip_hdr p)"
      "hlevel (ip_hdr q) = hlevel (ip_hdr p)"
    using internal_store_entry_correct [OF wf, of k v] k unfolding h by blast
  have seps: "x = (k, v) \<or> x \<in> set (seps_of p)" if "x \<in> set (seps_of q)" for x
  proof -
    have "map_of (seps_of q) (fst x) = Some (snd x)"
      using that sorted_keys_distinct [OF internal_okD(4) [OF q(2)]] by (simp add: map_of_eq_Some_iff)
    then show ?thesis unfolding q(3) by (cases x) (auto split: if_splits dest: map_of_SomeD)
  qed
  have kid: "kid_ok P mem (lv mem a) x" if "x \<in> set (children_of q)" for x
  proof -
    have "x = (k, v) \<or> x \<in> kids (Inner p)" using that seps [of x] q(4,6) by (auto simp: children_of_def)
    then show ?thesis using v blinkD(6) [OF bl a] by blast
  qed
  have nn: "snd x \<noteq> Null" if "x \<in> set (seps_of q)" for x
    using kid [of x] that blinkD(2) [OF bl] by (auto simp: children_of_def kid_ok_def)
  let ?m = "mem(a \<mapsto> Inner (InternalPage_set_consistent q))"
  show thesis
  proof (rule that [OF q(1)])
    assume "hdr_cnt (ip_hdr q) \<noteq> int kInternalCardinality"
    then have "internal_page_wf q" using q(2) unfolding internal_ok_def by auto
    then show "blink P ?m"
      using kid q h by (intro blink_update [OF bl a(1)]) (auto simp: children_of_def)
  next
    show "lo ?m x = lo mem x" "hi ?m x = hi mem x" "lv ?m x = lv mem x" for x
      using q(4,5,8) h by (cases "x = a"; simp)+
  next
    fix b assume full: "hdr_cnt (ip_hdr q) = int kInternalCardinality" and b: "b \<notin> P" "b \<noteq> Null"
    obtain q' s key ptr where sp: "internal_split_page q b = Inr (q', s, key)"
        "lowest (ip_hdr q) < key" "key < highest (ip_hdr q)" "internal_page_wf q'" "internal_page_wf s"
        "lowest (ip_hdr q') = lowest (ip_hdr q)" "highest (ip_hdr q') = key" "sibling_ptr (ip_hdr q') = b"
        "leftmost_ptr (ip_hdr q') = leftmost_ptr (ip_hdr q)" "hlevel (ip_hdr q') = hlevel (ip_hdr q)"
        "lowest (ip_hdr s) = key" "highest (ip_hdr s) = highest (ip_hdr q)" "sibling_ptr (ip_hdr s) = sibling_ptr (ip_hdr q)"
        "leftmost_ptr (ip_hdr s) = ptr" "hlevel (ip_hdr s) = hlevel (ip_hdr q)"
        "seps_of q = seps_of q' @ (key, ptr) # seps_of s"
      using internal_split_page_correct [OF q(2) full nn] by blast
    have "kids (Inner (InternalPage_set_consistent q')) \<union> kids (Inner s) \<subseteq> set (children_of q)"
      using sp(6,9,11,14,16) by (auto simp: children_of_def)
    then have "\<forall>x \<in> kids (Inner (InternalPage_set_consistent q')) \<union> kids (Inner s). kid_ok P mem (lv mem a) x"
      using kid by blast
    then have "split_into P mem a b (Inner (InternalPage_set_consistent q')) (Inner s) key"
      unfolding split_into_def using a b sp q h by simp
    then show "\<exists>q' s key. internal_split_page q b = Inr (q', s, key) \<and>
        split_into P mem a b (Inner (InternalPage_set_consistent q')) (Inner s) key" using sp(1) by blast
  qed
qed

text \<open>
  What a store above the leaves leaves behind: the pages of the tree may be more, the leaves are the
  same.  The only error is an exhausted memory node.
\<close>

definition stored :: "tree_conf \<Rightarrow> nat \<Rightarrow> GlobalAddress set \<Rightarrow> sherman \<Rightarrow> sherman_error + sherman \<Rightarrow> bool" where
  "stored conf N P st r \<longleftrightarrow> r = Inl AllocError \<or>
     (\<exists>P' st'. r = Inr st' \<and> P \<subseteq> P' \<and> tree_ok conf P' st' \<and> leaves P' (pages st') = leaves P (pages st) \<and>
        (\<forall>x \<in> P. lo (pages st') x = lo (pages st) x) \<and> locks_idle conf N st' \<and> globals st' = globals st)"

lemma stored_trans:
  assumes "stored conf N P1 st1 r" "P \<subseteq> P1" "leaves P1 (pages st1) = leaves P (pages st)"
    "\<And>x. x \<in> P \<Longrightarrow> lo (pages st1) x = lo (pages st) x" "globals st1 = globals st"
  shows "stored conf N P st r"
  using assms unfolding stored_def by (metis subset_eq)

lemma leaves_split_inner:
  assumes "split_into P mem a b (Inner q) (Inner s) key" "mem a = Some (Inner p)"
  shows "leaves (insert b P) (mem(b \<mapsto> Inner s, a \<mapsto> Inner q)) = leaves P mem"
  using assms by (auto simp: leaves_def split_into_def split: if_splits)

text \<open>A page on the level of the root is the root.\<close>

lemma below_root:
  assumes "tree_ok conf P st" "a \<in> P" "a \<noteq> root_cell st"
  shows "lv (pages st) a < lv (pages st) (root_cell st)"
proof (rule ccontr)
  note D = tree_okD [OF assms(1)]
  assume "\<not> ?thesis"
  then have "lv (pages st) a = lv (pages st) (root_cell st)" using D(5) [OF assms(2)] by simp
  then have "hi (pages st) a \<le> 0 \<or> kKeyMax \<le> lo (pages st) a"
    using blinkD(10) [OF D(1) assms(2) D(2)] assms(3) D(3,4) by simp
  moreover have lt: "lo (pages st) a < hi (pages st) a" using blinkD(5) [OF D(1) assms(2)] .
  moreover have "hi (pages st) a \<le> kKeyMax" "0 \<le> lo (pages st) a" by (simp_all add: kKeyMax_def)
  ultimately show False by (metis leD order.strict_trans1 order.trans)
qed

text \<open>The writes of a split: the two pages, then the lock is free again.\<close>

abbreviation write_split :: "GlobalAddress \<Rightarrow> GlobalAddress \<Rightarrow> GlobalAddress \<Rightarrow> page \<Rightarrow> page \<Rightarrow> sherman \<Rightarrow> sherman" where
  "write_split lock a b p r st \<equiv> write_page_and_unlock (write_page a p) lock (st\<lparr>pages := write_page b r (pages st)\<rparr>)"

lemma write_split_ok:
  assumes "lock_held conf N (lock_addr_of conf a) (st\<lparr>chip := c, local_locks := l\<rparr>)"
  shows "\<exists>c' l'. write_split (lock_addr_of conf a) a b p r (st\<lparr>chip := c, local_locks := l, sdsm := d\<rparr>) =
      st\<lparr>sdsm := d, pages := (pages st)(b \<mapsto> r, a \<mapsto> p), chip := c', local_locks := l'\<rparr> \<and>
    locks_idle conf N (st\<lparr>sdsm := d, pages := (pages st)(b \<mapsto> r, a \<mapsto> p), chip := c', local_locks := l'\<rparr>)"
proof -
  let ?st = "st\<lparr>chip := c, local_locks := l, sdsm := d, pages := write_page b r (pages st)\<rparr>"
  have "lock_held conf N (lock_addr_of conf a) ?st" using assms by (simp add: lock_held_def local_lock_def)
  from write_and_unlock_ok [OF this, of "write_page a p"] show ?thesis by (auto simp: write_page_def)
qed

text \<open>
  After a split: the tree grows when the page was the root; else the new page goes to the parent,
  which the path remembers.
\<close>

lemma after_split:
  assumes ok: "tree_ok conf P st" and sp: "split_into P (pages st) a b p r key"
    and d: "dsm_inv (t_dsm conf) d" "set (blocks d) = insert (b, 1024) (set (blocks (sdsm st)))"
    and st': "pages st' = (pages st)(b \<mapsto> r, a \<mapsto> p)" "sdsm st' = d" "root_cell st' = root_cell st" "globals st' = globals st"
    and lk: "locks_idle conf N st'" and rl: "lv (pages st) (root_cell st) < 255" and root: "a = root_cell st"
    and g: "update_new_root conf a key b (int (lv (pages st) a) + 1) a st' = g"
  shows "g = Inl AllocError \<or> (\<exists>P' st2. g = Inr (True, st2) \<and> P \<subseteq> P' \<and> tree_ok conf P' st2 \<and>
    leaves P' (pages st2) = leaves (insert b P) (pages st') \<and> (\<forall>x \<in> P. lo (pages st2) x = lo (pages st) x) \<and>
    locks_idle conf N st2 \<and> globals st2 = globals st)"
proof -
  note D = tree_okD [OF ok] and H = split_hdrs [OF sp, folded st'(1)]
  note pok = split_pages_ok(1) [OF D(6) sp d st'(1,2)]
  have key: "0 < key" "key < kKeyMax"
    using sp D(3,4) root by (auto simp: split_into_def)
  have a: "a \<in> insert b P" "lv (pages st') a = lv (pages st) (root_cell st)" "lo (pages st') a = 0"
    using H(1,2) [OF D(2)] D(2,3) root by simp_all
  have b: "b \<in> insert b P" "lv (pages st') b = lv (pages st) (root_cell st)" "lo (pages st') b = key"
    using H(4,5) root by simp_all
  have eq: "update_new_root conf a key b (int (lv (pages st) (root_cell st)) + 1) a st' = g" using g root by simp
  have lo: "lo (pages st') x = lo (pages st) x" if "x \<in> P" for x using H(1) [OF that] .
  have r': "root_cell st' = a" using root st'(3) by simp
  from update_new_root_ok [OF pok a b key r' rl eq] show ?thesis
  proof
    assume "\<exists>c st2. g = Inr (True, st2) \<and> tree_ok conf (insert c (insert b P)) st2 \<and>
      leaves (insert c (insert b P)) (pages st2) = leaves (insert b P) (pages st') \<and>
      (\<forall>x \<in> insert b P. hdr_at (pages st2) x = hdr_at (pages st') x) \<and>
      chip st2 = chip st' \<and> local_locks st2 = local_locks st' \<and> globals st2 = globals st'"
    then obtain c st2 where g: "g = Inr (True, st2)" "tree_ok conf (insert c (insert b P)) st2"
      "leaves (insert c (insert b P)) (pages st2) = leaves (insert b P) (pages st')"
      "\<And>x. x \<in> insert b P \<Longrightarrow> hdr_at (pages st2) x = hdr_at (pages st') x"
      "chip st2 = chip st'" "local_locks st2 = local_locks st'" "globals st2 = globals st'" by blast
    have "locks_idle conf N st2" using lk g(5,6) by (simp add: locks_idle_def local_lock_def)
    then show ?thesis
      using g(1-3) g(4) lo g(7) st'(4) by (intro disjI2 exI [of _ "insert c (insert b P)"] exI [of _ st2]) auto
  qed blast
qed

text \<open>The page right of \<open>a\<close> cannot start at \<open>k\<close>: its first child would be \<open>v\<close>.\<close>

lemma sib_below:
  assumes bl: "blink P mem" and a: "a \<in> P" "lv mem a \<noteq> 0" and k: "hi mem a \<le> k" "k < kKeyMax"
    and v: "kid_ok P mem (lv mem a) (k, v)" "unref P mem v"
  shows "lo mem (sib mem a) < k"
proof (rule ccontr)
  note s = sib_step [OF bl a(1) k]
  assume "\<not> ?thesis"
  then have eq: "lo mem (sib mem a) = k" using s(3) by simp
  obtain p where p: "mem (sib mem a) = Some (Inner p)" "hdr_at mem (sib mem a) = ip_hdr p"
    using inner_hdr [OF bl s(1)] a(2) s(4) by metis
  have "(k, leftmost_ptr (ip_hdr p)) \<in> kids (Inner p)" using eq p(2) by (simp add: children_of_def)
  then have "kid_ok P mem (lv mem a) (k, leftmost_ptr (ip_hdr p))" "leftmost_ptr (ip_hdr p) \<noteq> v"
    using blinkD(6) [OF bl s(1) p(1)] s(1,4) v(2) p(1) by (auto simp: unref_def simp del: kids.simps) force
  then show False
    using blink_same [OF bl, of "leftmost_ptr (ip_hdr p)" v k] v(1) blinkD(5) [OF bl, of v]
      blinkD(5) [OF bl, of "leftmost_ptr (ip_hdr p)"] by (simp add: kid_ok_def)
qed

text \<open>The parent of a page that was split is ready for the separator.\<close>

lemma split_goes_up:
  assumes ok: "tree_ok conf P st" and sp: "split_into P (pages st) a b p r key" and ne: "a \<noteq> root_cell st"
    and d: "dsm_inv (t_dsm conf) d" "set (blocks d) = insert (b, 1024) (set (blocks (sdsm st)))"
    and st': "pages st' = (pages st)(b \<mapsto> r, a \<mapsto> p)" "sdsm st' = d" "root_cell st' = root_cell st" "path_stack st' = path_stack st"
    and pth: "path_ok P (pages st) (lv (pages st) (root_cell st)) (path_stack st) (lv (pages st) a) (lo (pages st) a)"
  defines "u \<equiv> path_stack st ! Suc (lv (pages st) a)"
  shows "Suc (lv (pages st) a) < length (path_stack st)" "u \<noteq> Null" "tree_ok conf (insert b P) st'" "u \<in> insert b P"
    "lv (pages st') u = Suc (lv (pages st) a)" "lo (pages st') u < key" "key < kKeyMax"
    "kid_ok (insert b P) (pages st') (Suc (lv (pages st) a)) (key, b)" "unref (insert b P) (pages st') b"
    "lv (pages st') (root_cell st') = lv (pages st) (root_cell st)"
    "path_ok (insert b P) (pages st') (lv (pages st) (root_cell st)) (path_stack st') (Suc (lv (pages st) a)) (lo (pages st') u)"
    "up_left (insert b P) (pages st') u < up_left P (pages st) a"
proof -
  note D = tree_okD [OF ok] and H = split_hdrs [OF sp, folded st'(1)]
  have a: "a \<in> P" "lo (pages st) a < key" "key < hi (pages st) a" using sp by (auto simp: split_into_def)
  note low = below_root [OF ok a(1) ne] and T = path_okD [OF pth]
  have u: "u \<in> P" "lv (pages st) u = Suc (lv (pages st) a)" "lo (pages st) u \<le> lo (pages st) a"
    unfolding u_def using T(2,3,5) low by auto
  show "Suc (lv (pages st) a) < length (path_stack st)" using T(1) low by simp
  show "u \<noteq> Null" using u(1) blinkD(2) [OF D(1)] by auto
  show "tree_ok conf (insert b P) st'" by (rule split_tree_ok [OF ok sp ne d st'(1-3)])
  show "u \<in> insert b P" using u(1) by simp
  show lvu: "lv (pages st') u = Suc (lv (pages st) a)" using H(2) [OF u(1)] u(2) by simp
  show "lo (pages st') u < key" using H(1) [OF u(1)] u(3) a(2) by (metis order.strict_trans1)
  have "hi (pages st) a \<le> kKeyMax" by (simp add: kKeyMax_def)
  then show "key < kKeyMax" using a(3) by (metis order.strict_trans2)
  show "kid_ok (insert b P) (pages st') (Suc (lv (pages st) a)) (key, b)" using H(4,5) by (simp add: kid_ok_def)
  show "unref (insert b P) (pages st') b" by (rule split_pages_ok(2) [OF D(6) sp d st'(1,2)])
  show "lv (pages st') (root_cell st') = lv (pages st) (root_cell st)" using H(2) [OF D(2)] st'(3) by simp
  show "path_ok (insert b P) (pages st') (lv (pages st) (root_cell st)) (path_stack st') (Suc (lv (pages st) a)) (lo (pages st') u)"
    using path_ok_split [OF path_ok_up [OF pth low] sp] H(1) [OF u(1)] unfolding u_def st'(1,4) by simp
  show "up_left (insert b P) (pages st') u < up_left P (pages st) a"
    using up_left_split [OF sp u(1)] up_left_up [OF D(1) a(1), of u] u(2) unfolding st'(1) by simp
qed

text \<open>What \<open>internal_page_store\<close> does with a page \<open>q\<close> that has become full.\<close>

abbreviation split_inner ::
  "nat \<Rightarrow> tree_conf \<Rightarrow> GlobalAddress \<Rightarrow> GlobalAddress \<Rightarrow> nat \<Rightarrow> InternalPage \<Rightarrow> sherman \<Rightarrow> sherman_error + sherman" where
  "split_inner fuel conf root a lev q st \<equiv>
     rbind (tree_alloc conf kInternalPageSize st) (\<lambda>(b, st2).
     rbind (internal_split_page q b) (\<lambda>(q', s, key).
     let st4 = write_split (lock_addr_of conf a) a b (Inner (InternalPage_set_consistent q')) (Inner s) st2 in
     rbind (if root = a then update_new_root conf a key b (int lev + 1) root st4 else Inr (False, st4)) (\<lambda>(grown, st5).
     if grown then Inr st5
     else if lev + 1 \<ge> length (path_stack st5) then Inl PathOverflow
     else if addr_eq (path_stack st5 ! (lev + 1)) Null then Inl AssertFail
     else internal_page_store fuel conf (path_stack st5 ! (lev + 1)) key b root (lev + 1) st5)))"

lemma split_inner_ok:
  assumes ok: "tree_ok conf P st" and a: "a \<in> P" "pages st a = Some (Inner p)" and lev: "lv (pages st) a = lev"
    and q: "\<And>b. b \<notin> P \<Longrightarrow> b \<noteq> Null \<Longrightarrow> \<exists>q' s key. internal_split_page q b = Inr (q', s, key) \<and>
            split_into P (pages st) a b (Inner (InternalPage_set_consistent q')) (Inner s) key"
    and held: "lock_held conf (N + fuel) (lock_addr_of conf a) (st\<lparr>chip := c, local_locks := l\<rparr>)"
    and rl: "lv (pages st) (root_cell st) < 255"
    and pth: "path_ok P (pages st) (lv (pages st) (root_cell st)) (path_stack st) lev (lo (pages st) a)"
    and up: "up_left P (pages st) a \<le> Suc fuel"
    and IH: "\<And>P st a k v lev. tree_ok conf P st \<Longrightarrow> a \<in> P \<Longrightarrow> lv (pages st) a = lev \<Longrightarrow> lo (pages st) a < k \<Longrightarrow> k < kKeyMax \<Longrightarrow>
      kid_ok P (pages st) lev (k, v) \<Longrightarrow> unref P (pages st) v \<Longrightarrow> lv (pages st) (root_cell st) < 255 \<Longrightarrow>
      path_ok P (pages st) (lv (pages st) (root_cell st)) (path_stack st) lev (lo (pages st) a) \<Longrightarrow>
      locks_idle conf (N + fuel) st \<Longrightarrow> up_left P (pages st) a \<le> fuel \<Longrightarrow>
      stored conf N P st (internal_page_store fuel conf a k v (root_cell st) lev st)"
  shows "stored conf N P st (split_inner fuel conf (root_cell st) a lev q (st\<lparr>chip := c, local_locks := l\<rparr>))"
proof -
  have sz: "kInternalPageSize = 1024" by (simp add: kInternalPageSize_def)
  have "pages_ok conf P (lv (pages st) (root_cell st)) (st\<lparr>chip := c, local_locks := l\<rparr>)"
    using tree_okD(6) [OF ok] by (simp add: pages_ok_def)
  from tree_alloc_ok [OF this refl] consider "tree_alloc conf 1024 (st\<lparr>chip := c, local_locks := l\<rparr>) = Inl AllocError"
    | b d where "tree_alloc conf 1024 (st\<lparr>chip := c, local_locks := l\<rparr>) = Inr (b, st\<lparr>chip := c, local_locks := l, sdsm := d\<rparr>)"
      "b \<notin> P" "b \<noteq> Null" "dsm_inv (t_dsm conf) d" "set (blocks d) = insert (b, 1024) (set (blocks (sdsm st)))" by auto
  then show ?thesis
  proof cases
    case 1
    then show ?thesis by (simp add: stored_def sz)
  next
    case 2
    obtain q' s key where sp: "internal_split_page q b = Inr (q', s, key)"
        "split_into P (pages st) a b (Inner (InternalPage_set_consistent q')) (Inner s) key"
      using q [OF 2(2,3)] by blast
    let ?mem = "(pages st)(b \<mapsto> Inner s, a \<mapsto> Inner (InternalPage_set_consistent q'))"
    obtain c' l' where w: "write_split (lock_addr_of conf a) a b (Inner (InternalPage_set_consistent q')) (Inner s)
          (st\<lparr>chip := c, local_locks := l, sdsm := d\<rparr>) = st\<lparr>sdsm := d, pages := ?mem, chip := c', local_locks := l'\<rparr>"
        "locks_idle conf (N + fuel) (st\<lparr>sdsm := d, pages := ?mem, chip := c', local_locks := l'\<rparr>)"
      using write_split_ok [OF held] by blast
    define st4 where "st4 = st\<lparr>sdsm := d, pages := ?mem, chip := c', local_locks := l'\<rparr>"
    have f: "pages st4 = ?mem" "sdsm st4 = d" "root_cell st4 = root_cell st" "path_stack st4 = path_stack st" "globals st4 = globals st"
      by (simp_all add: st4_def)
    have lo: "lo (pages st4) x = lo (pages st) x" if "x \<in> P" for x unfolding f by (rule split_hdrs(1) [OF sp(2) that])
    have lvs: "leaves (insert b P) (pages st4) = leaves P (pages st)" unfolding f by (rule leaves_split_inner [OF sp(2) a(2)])
    have code: "split_inner fuel conf (root_cell st) a lev q (st\<lparr>chip := c, local_locks := l\<rparr>) =
        rbind (if root_cell st = a then update_new_root conf a key b (int lev + 1) (root_cell st) st4 else Inr (False, st4)) (\<lambda>(grown, st5).
        if grown then Inr st5
        else if lev + 1 \<ge> length (path_stack st5) then Inl PathOverflow
        else if addr_eq (path_stack st5 ! (lev + 1)) Null then Inl AssertFail
        else internal_page_store fuel conf (path_stack st5 ! (lev + 1)) key b (root_cell st) (lev + 1) st5)"
      using 2(1) sp(1) w(1) by (simp add: sz st4_def Let_def)
    show ?thesis
    proof (cases "root_cell st = a")
      case True
      note g = after_split [OF ok sp(2) 2(4,5) f(1-3,5) _ rl True [symmetric] refl, of "N + fuel"]
      show ?thesis
        using g w(2) locks_idle_mono [of conf "N + fuel" _ N] lvs code True lev unfolding stored_def st4_def [symmetric]
        by (auto simp: lvs)
    next
      case False
      note g = split_goes_up [OF ok sp(2) False [symmetric] 2(4,5) f(1-4), unfolded lev, OF pth]
      have "stored conf N (insert b P) st4 (internal_page_store fuel conf (path_stack st ! Suc lev) key b (root_cell st4) (Suc lev) st4)"
        using g(3-12) rl up w(2) f(4) by (intro IH) (simp_all add: st4_def [symmetric] f(4))
      then show ?thesis
        using stored_trans [OF _ subset_insertI lvs lo f(5)] code False g(1,2) by (simp add: f(3,4))
    qed
  qed
qed

lemma internal_store_ok:
  assumes "tree_ok conf P st" "a \<in> P" "lv (pages st) a = lev" "lo (pages st) a < k" "k < kKeyMax"
    and "kid_ok P (pages st) lev (k, v)" "unref P (pages st) v" "lv (pages st) (root_cell st) < 255" "thread_tag conf \<noteq> 0"
    and "path_ok P (pages st) (lv (pages st) (root_cell st)) (path_stack st) lev (lo (pages st) a)"
    and "locks_idle conf (N + fuel) st" "up_left P (pages st) a \<le> fuel"
  shows "stored conf N P st (internal_page_store fuel conf a k v (root_cell st) lev st)"
  using assms
proof (induction fuel arbitrary: P a k v lev st)
  case 0
  then show ?case using up_left_pos [OF blinkD(1) [OF tree_okD(1)]] by (metis le_zero_eq less_irrefl)
next
  case (Suc fuel)
  note ok = Suc.prems(1) and a = Suc.prems(2) and k = Suc.prems(4,5) and v = Suc.prems(6,7) and rl = Suc.prems(8)
    and pth = Suc.prems(10)
  note D = tree_okD [OF ok]
  have lev: "lv (pages st) a \<noteq> 0" using v(1) Suc.prems(3) by (auto simp: kid_ok_def)
  obtain p where p: "pages st a = Some (Inner p)" "internal_page_wf p" "hdr_at (pages st) a = ip_hdr p" "InternalPage_check_consistent p"
    using inner_hdr [OF D(1) a lev] .
  obtain c l where lk: "lock_and_read_page conf a st = Inr (Inner p, st\<lparr>chip := c, local_locks := l\<rparr>)"
      "lock_held conf (N + fuel) (lock_addr_of conf a) (st\<lparr>chip := c, local_locks := l\<rparr>)"
    using lock_and_read_ok [of conf "N + fuel" st a, OF _ p(1)] Suc.prems(11) by auto
  have lv: "unat (hlevel (ip_hdr p)) = lev" using p(3) Suc.prems(3) by simp
  show ?case
  proof (cases "hi (pages st) a \<le> k")
    case True
    note right = sib_step [OF D(1) a True k(2)]
    obtain c' l' where un: "unlock_addr (lock_addr_of conf a) (st\<lparr>chip := c, local_locks := l\<rparr>) = st\<lparr>chip := c', local_locks := l'\<rparr>"
        "locks_idle conf (N + fuel) (st\<lparr>chip := c', local_locks := l'\<rparr>)"
      using unlock_ok [OF lk(2)] by auto
    have "stored conf N P (st\<lparr>chip := c', local_locks := l'\<rparr>) (internal_page_store fuel conf (sib (pages st) a) k v
        (root_cell (st\<lparr>chip := c', local_locks := l'\<rparr>)) lev (st\<lparr>chip := c', local_locks := l'\<rparr>))"
      using Suc.prems un(2) right sib_below [OF D(1) a lev True k(2)] path_ok_right [OF pth less_imp_le [OF right(7)]]
      by (intro Suc.IH) (simp_all add: tree_ok_def pages_ok_def)
    moreover have "internal_page_store (Suc fuel) conf a k v (root_cell st) lev st =
        internal_page_store fuel conf (sib (pages st) a) k v (root_cell st) lev (st\<lparr>chip := c', local_locks := l'\<rparr>)"
      using lk(1) un(1) True right(2) Suc.prems(9) p lv by simp
    ultimately show ?thesis by (simp add: stored_def)
  next
    case False
    then have kh: "k < hi (pages st) a" by simp
    obtain q where q: "internal_store_entry p k v = Inr q"
        "hdr_cnt (ip_hdr q) \<noteq> int kInternalCardinality \<Longrightarrow> blink P ((pages st)(a \<mapsto> Inner (InternalPage_set_consistent q)))"
        "\<And>x. lo ((pages st)(a \<mapsto> Inner (InternalPage_set_consistent q))) x = lo (pages st) x"
        "\<And>x. hi ((pages st)(a \<mapsto> Inner (InternalPage_set_consistent q))) x = hi (pages st) x"
        "\<And>x. lv ((pages st)(a \<mapsto> Inner (InternalPage_set_consistent q))) x = lv (pages st) x"
        "\<And>b. hdr_cnt (ip_hdr q) = int kInternalCardinality \<Longrightarrow> b \<notin> P \<Longrightarrow> b \<noteq> Null \<Longrightarrow>
          \<exists>q' s key. internal_split_page q b = Inr (q', s, key) \<and>
            split_into P (pages st) a b (Inner (InternalPage_set_consistent q')) (Inner s) key"
      using inner_store_page [OF D(1) a p(1) k(1) kh] v(1) Suc.prems(3) by (metis (no_types, lifting))
    show ?thesis
    proof (cases "hdr_cnt (ip_hdr q) = int kInternalCardinality")
      case full: False
      let ?mem = "(pages st)(a \<mapsto> Inner (InternalPage_set_consistent q))"
      obtain c' l' where w: "write_page_and_unlock (write_page a (Inner (InternalPage_set_consistent q))) (lock_addr_of conf a)
          (st\<lparr>chip := c, local_locks := l\<rparr>) = st\<lparr>pages := ?mem, chip := c', local_locks := l'\<rparr>"
          "locks_idle conf (N + fuel) (st\<lparr>pages := ?mem, chip := c', local_locks := l'\<rparr>)"
        using write_and_unlock_ok [OF lk(2), of "write_page a (Inner (InternalPage_set_consistent q))"] by (auto simp: write_page_def)
      have "internal_page_store (Suc fuel) conf a k v (root_cell st) lev st = Inr (st\<lparr>pages := ?mem, chip := c', local_locks := l'\<rparr>)"
        using lk(1) w(1) False Suc.prems(9) k(1) p lv q(1) full by (simp add: Let_def)
      moreover have "tree_ok conf P (st\<lparr>pages := ?mem, chip := c', local_locks := l'\<rparr>)"
        using D(2-4) pages_okD [OF D(6)] q(2) [OF full] by (simp add: tree_ok_def pages_ok_def q(3-5) del: fun_upd_apply)
      moreover have "leaves P ?mem = leaves P (pages st)" using leaves_inner(2) [OF refl] p(1) a by blast
      ultimately show ?thesis
        using locks_idle_mono [OF w(2), of N] q(3) unfolding stored_def by (intro disjI2 exI [of _ P]) auto
    next
      case full: True
      have "internal_page_store (Suc fuel) conf a k v (root_cell st) lev st =
        split_inner fuel conf (root_cell st) a lev q (st\<lparr>chip := c, local_locks := l\<rparr>)"
        using lk(1) False Suc.prems(9) k(1) p lv q(1) full by (simp add: Let_def cong: if_cong)
      then show ?thesis
        using split_inner_ok [OF ok a p(1) Suc.prems(3) q(6) [OF full] lk(2) rl pth Suc.prems(12)] Suc.IH Suc.prems(9) by simp
    qed
  qed
qed

section \<open>Storing a pair\<close>

text \<open>The leaf for \<open>k\<close> has one free slot left: the store of a new key fills it.\<close>

definition leaf_full :: "GlobalAddress set \<Rightarrow> memory \<Rightarrow> Key \<Rightarrow> bool" where
  "leaf_full P mem k \<longleftrightarrow> (\<exists>a \<in> P. \<exists>p. mem a = Some (Leaf p) \<and> lo mem a \<le> k \<and> k < hi mem a \<and>
     Suc (length (slot_pairs (lp_records p))) = kLeafCardinality)"

lemma leaf_store_page:
  assumes bl: "blink P mem" and a: "a \<in> P" "mem a = Some (Leaf p)" and k: "lo mem a \<le> k" "k < hi mem a"
    and v: "v \<noteq> kValueNull"
  obtains q i cnt where "leaf_store_entry p k v = Inr (q, i, cnt)" "q = p\<lparr>lp_records := (lp_records p)[i := lp_records q ! i]\<rparr>"
    "cnt \<noteq> kLeafCardinality \<longrightarrow> leaf_written P mem k (Some v) (mem(a \<mapsto> Leaf q))"
    "cnt = kLeafCardinality \<longrightarrow> leaf_full P mem k"
    "\<forall>b. cnt = kLeafCardinality \<longrightarrow> b \<notin> P \<longrightarrow> b \<noteq> Null \<longrightarrow>
      (\<exists>l r key. leaf_split_page q cnt b = Inr (l, r, key) \<and> split_into P mem a b (Leaf l) (Leaf r) key \<and>
        leaf_page_map l = (\<lambda>j. if j < key then ((leaf_page_map p)(k \<mapsto> v)) j else None) \<and>
        leaf_page_map r = (\<lambda>j. if key \<le> j then ((leaf_page_map p)(k \<mapsto> v)) j else None))"
proof -
  have wf: "leaf_page_wf p" using blinkD(4) [OF bl a] by simp
  note W = leaf_page_wfD [OF wf]
  have h: "hdr_at mem a = lp_hdr p" by (simp add: hdr_at_def a)
  obtain q i cnt where q: "leaf_store_entry p k v = Inr (q, i, cnt)"
      "q = p\<lparr>lp_records := (lp_records p)[i := lp_records q ! i]\<rparr>" "i < kLeafCardinality"
      "slots_ok (lowest (lp_hdr p)) (highest (lp_hdr p)) (lp_records q)" "leaf_page_map q = (leaf_page_map p)(k \<mapsto> v)"
      "cnt = kLeafCardinality \<longleftrightarrow> length (slot_pairs (lp_records q)) = kLeafCardinality"
      "length (slot_pairs (lp_records q)) \<le> kLeafCardinality"
      "cnt = kLeafCardinality \<longleftrightarrow> leaf_page_map p k = None \<and> Suc (length (slot_pairs (lp_records p))) = kLeafCardinality"
    by (rule leaf_store_entry_correct [OF W(1,2) k [unfolded h] v])
  have hq: "lp_hdr q = lp_hdr p" by (subst q(2)) simp
  show thesis
  proof (rule that [OF q(1,2)]; intro impI allI)
    assume "cnt \<noteq> kLeafCardinality"
    then have "length (slot_pairs (lp_records q)) < kLeafCardinality" using q(6,7) by simp
    then have "leaf_page_wf q"
      using leaf_page_wf_records [OF wf, of q "lp_records q"] q(2,4) by (metis LeafPage.surjective LeafPage.update_convs(3))
    then show "leaf_written P mem k (Some v) (mem(a \<mapsto> Leaf q))"
      unfolding leaf_written_def using a k q(5) hq by blast
  next
    assume "cnt = kLeafCardinality"
    then show "leaf_full P mem k" unfolding leaf_full_def using q(8) a k by blast
  next
    fix b assume full: "cnt = kLeafCardinality" and b: "b \<notin> P" "b \<noteq> Null"
    have pre: "slots_ok (lowest (lp_hdr q)) (highest (lp_hdr q)) (lp_records q)" "length (slot_pairs (lp_records q)) = kLeafCardinality"
        "leftmost_ptr (lp_hdr q) = Null" "hlevel (lp_hdr q) = 0"
      unfolding hq using q(4,6) full W(3,4) by blast+
    obtain l r key where sp: "leaf_split_page q kLeafCardinality b = Inr (l, r, key)"
        "lowest (lp_hdr q) < key" "key < highest (lp_hdr q)" "leaf_page_wf l" "leaf_page_wf r"
        "lowest (lp_hdr l) = lowest (lp_hdr q)" "highest (lp_hdr l) = key" "sibling_ptr (lp_hdr l) = b"
        "lowest (lp_hdr r) = key" "highest (lp_hdr r) = highest (lp_hdr q)" "sibling_ptr (lp_hdr r) = sibling_ptr (lp_hdr q)"
        "leaf_page_map l = (\<lambda>j. if j < key then leaf_page_map q j else None)"
        "leaf_page_map r = (\<lambda>j. if key \<le> j then leaf_page_map q j else None)"
      by (rule leaf_split_page_correct [OF pre])
    have "split_into P mem a b (Leaf l) (Leaf r) key"
      unfolding split_into_def using sp a b h hq W(4) leaf_page_wfD(4) [OF sp(4)] leaf_page_wfD(4) [OF sp(5)] by simp
    then show "\<exists>l r key. leaf_split_page q cnt b = Inr (l, r, key) \<and> split_into P mem a b (Leaf l) (Leaf r) key \<and>
        leaf_page_map l = (\<lambda>j. if j < key then ((leaf_page_map p)(k \<mapsto> v)) j else None) \<and>
        leaf_page_map r = (\<lambda>j. if key \<le> j then ((leaf_page_map p)(k \<mapsto> v)) j else None)"
      unfolding full q(5) [symmetric] using sp(1,12,13) by blast
  qed
qed

lemma split_leaf_map:
  assumes bl: "blink P mem" and a: "mem a = Some (Leaf p)" and k: "lo mem a \<le> k" "k < hi mem a"
    and sp: "split_into P mem a b (Leaf l) (Leaf r) key"
    and l: "leaf_page_map l = (\<lambda>j. if j < key then ((leaf_page_map p)(k \<mapsto> v)) j else None)"
    and r: "leaf_page_map r = (\<lambda>j. if key \<le> j then ((leaf_page_map p)(k \<mapsto> v)) j else None)"
    and bl': "blink (insert b P) (mem(b \<mapsto> Leaf r, a \<mapsto> Leaf l))"
  shows "tree_map (insert b P) (mem(b \<mapsto> Leaf r, a \<mapsto> Leaf l)) j w \<longleftrightarrow> (if j = k then w = v else tree_map P mem j w)"
proof -
  define m where "m = mem(b \<mapsto> Leaf r, a \<mapsto> Leaf l)"
  note H = split_hdrs [OF sp, folded m_def] and blm = bl' [folded m_def]
  have ab: "a \<in> P" "b \<notin> P" "a \<noteq> b" "m a = Some (Leaf l)" "m b = Some (Leaf r)"
    using sp by (auto simp: split_into_def m_def)
  have old: "tree_map P mem j w \<longleftrightarrow> leaf_page_map p j = Some w" if "lo mem a \<le> j" "j < hi mem a"
    by (rule tree_map_at [OF bl ab(1) a that])
  consider "lo mem a \<le> j" "j < key" | "key \<le> j" "j < hi mem a" | "\<not> (lo mem a \<le> j \<and> j < hi mem a)" by fastforce
  then have "tree_map (insert b P) m j w \<longleftrightarrow> (if j = k then w = v else tree_map P mem j w)"
  proof cases
    case 1
    have "tree_map (insert b P) m j w \<longleftrightarrow> leaf_page_map l j = Some w"
      using tree_map_at [OF blm _ ab(4), of j w] H(1) [OF ab(1)] H(6) 1 ab(1) by simp
    moreover have "j < hi mem a" using 1 sp by (metis order.strict_trans split_into_def)
    ultimately show ?thesis using old 1 l by auto
  next
    case 2
    have "tree_map (insert b P) m j w \<longleftrightarrow> leaf_page_map r j = Some w"
      using tree_map_at [OF blm _ ab(5), of j w] H(4,7) 2 by simp
    moreover have "lo mem a \<le> j" using 2 sp by (metis order.trans less_imp_le split_into_def)
    ultimately show ?thesis using old 2 r by auto
  next
    case 3
    have s: "lo mem a < key" "key < hi mem a" using sp by (simp_all add: split_into_def)
    have here: "c \<noteq> a \<and> c \<noteq> b" if "lo m c \<le> j" "j < hi m c" for c
      using that H(1) [OF ab(1)] H(4,6,7) 3 s by (metis less_imp_le order.strict_trans order.trans)
    have same: "m c = mem c" "hdr_at m c = hdr_at mem c" if "c \<in> P" "c \<noteq> a" for c
      using that H(3) ab(2) by (auto simp: m_def)
    have "tree_map (insert b P) m j w \<longleftrightarrow> tree_map P mem j w"
    proof
      assume "tree_map (insert b P) m j w"
      then show "tree_map P mem j w" unfolding tree_map_def using here same by (metis insertE)
    next
      assume "tree_map P mem j w"
      then show "tree_map (insert b P) m j w" unfolding tree_map_def using 3 same by (metis insertI2)
    qed
    then show ?thesis using 3 k by auto
  qed
  then show ?thesis unfolding m_def .
qed

text \<open>What \<open>leaf_page_store\<close> leaves behind.\<close>

definition inserted ::
  "tree_conf \<Rightarrow> nat \<Rightarrow> GlobalAddress set \<Rightarrow> sherman \<Rightarrow> Key \<Rightarrow> Value \<Rightarrow> sherman_error + bool \<times> sherman \<Rightarrow> bool" where
  "inserted conf N P st k v r \<longleftrightarrow> r = Inl AllocError \<and> leaf_full P (pages st) k \<or>
     (\<exists>P' st'. r = Inr (True, st') \<and> P \<subseteq> P' \<and> tree_ok conf P' st' \<and>
        (\<forall>j w. tree_map P' (pages st') j w \<longleftrightarrow> (if j = k then w = v else tree_map P (pages st) j w)) \<and>
        (\<forall>x \<in> P. lo (pages st') x = lo (pages st) x) \<and> locks_idle conf N st' \<and> globals st' = globals st)"

lemma inserted_from:
  assumes "inserted conf N P st1 k v r" "pages st1 = pages st" "globals st1 = globals st"
  shows "inserted conf N P st k v r"
  using assms(1) unfolding inserted_def assms(2,3) .

lemma inserted_true: "inserted conf N P st k v r \<Longrightarrow> rbind r (\<lambda>(b, st3). Inr (True, st3)) = r"
  by (auto simp: inserted_def)

lemma inserted_above:
  assumes "stored conf N P1 st1 r" "P \<subseteq> P1" "\<And>x. x \<in> P \<Longrightarrow> lo (pages st1) x = lo (pages st) x" "globals st1 = globals st"
    and "leaf_full P (pages st) k" "\<And>j w. tree_map P1 (pages st1) j w \<longleftrightarrow> (if j = k then w = v else tree_map P (pages st) j w)"
  shows "inserted conf N P st k v (rbind r (\<lambda>st. Inr (True, st)))"
proof (cases r)
  case (Inl e)
  then show ?thesis using assms(1,5) by (simp add: stored_def inserted_def)
next
  case (Inr st')
  then obtain P' where P': "P1 \<subseteq> P'" "tree_ok conf P' st'" "leaves P' (pages st') = leaves P1 (pages st1)"
      "\<forall>x \<in> P1. lo (pages st') x = lo (pages st1) x" "locks_idle conf N st'" "globals st' = globals st1"
    using assms(1) by (auto simp: stored_def)
  have "tree_map P' (pages st') j w \<longleftrightarrow> tree_map P1 (pages st1) j w" for j w by (simp add: tree_map_leaves P'(3))
  then show ?thesis
    unfolding inserted_def using P' assms(2-4,6) Inr by (intro disjI2 exI [of _ P'] exI [of _ st']) auto
qed

text \<open>What \<open>leaf_page_store\<close> does with a page that has become full, away from the cache.\<close>

abbreviation split_leaf ::
  "nat \<Rightarrow> tree_conf \<Rightarrow> GlobalAddress \<Rightarrow> GlobalAddress \<Rightarrow> LeafPage \<Rightarrow> nat \<Rightarrow> sherman \<Rightarrow> sherman_error + bool \<times> sherman" where
  "split_leaf fuel conf root a q cnt st \<equiv>
     rbind (tree_alloc conf kLeafPageSize st) (\<lambda>(b, st2).
     rbind (leaf_split_page q cnt b) (\<lambda>(q', s, key).
     let st4 = write_split (lock_addr_of conf a) a b (Leaf q') (Leaf s) st2 in
     rbind (if root = a then update_new_root conf a key b (int 0 + 1) root st4 else Inr (False, st4)) (\<lambda>(grown, st5).
     if grown then Inr (True, st5)
     else if 0 + 1 \<ge> length (path_stack st5) then Inl PathOverflow
     else if \<not> addr_eq (path_stack st5 ! (0 + 1)) Null then
       rbind (internal_page_store fuel conf (path_stack st5 ! (0 + 1)) key b root (0 + 1) st5) (\<lambda>st6. Inr (True, st6))
     else rbind (check False AssertFail) (\<lambda>_.
       rbind (insert_internal fuel conf key b (0 + 1) st5) (\<lambda>st6. Inr (True, st6))))))"

lemma split_leaf_ok:
  assumes ok: "tree_ok conf P st" and a: "pages st a = Some (Leaf p)" "lv (pages st) a = 0"
    and k: "lo (pages st) a \<le> k" "k < hi (pages st) a"
    and q: "\<And>b. b \<notin> P \<Longrightarrow> b \<noteq> Null \<Longrightarrow> \<exists>l r key. leaf_split_page q cnt b = Inr (l, r, key) \<and>
        split_into P (pages st) a b (Leaf l) (Leaf r) key \<and>
        leaf_page_map l = (\<lambda>j. if j < key then ((leaf_page_map p)(k \<mapsto> v)) j else None) \<and>
        leaf_page_map r = (\<lambda>j. if key \<le> j then ((leaf_page_map p)(k \<mapsto> v)) j else None)"
    and held: "lock_held conf (N + fuel) (lock_addr_of conf a) (st\<lparr>chip := c, local_locks := l\<rparr>)"
    and rl: "lv (pages st) (root_cell st) < 255" and tag: "thread_tag conf \<noteq> 0"
    and pth: "path_ok P (pages st) (lv (pages st) (root_cell st)) (path_stack st) 0 (lo (pages st) a)"
    and up: "up_left P (pages st) a \<le> Suc fuel" and full: "leaf_full P (pages st) k"
  shows "inserted conf N P st k v (split_leaf fuel conf (root_cell st) a q cnt (st\<lparr>chip := c, local_locks := l\<rparr>))"
proof -
  have sz: "kLeafPageSize = 1024" by (simp add: kLeafPageSize_def)
  have "pages_ok conf P (lv (pages st) (root_cell st)) (st\<lparr>chip := c, local_locks := l\<rparr>)"
    using tree_okD(6) [OF ok] by (simp add: pages_ok_def)
  from tree_alloc_ok [OF this refl] consider "tree_alloc conf 1024 (st\<lparr>chip := c, local_locks := l\<rparr>) = Inl AllocError"
    | b d where "tree_alloc conf 1024 (st\<lparr>chip := c, local_locks := l\<rparr>) = Inr (b, st\<lparr>chip := c, local_locks := l, sdsm := d\<rparr>)"
      "b \<notin> P" "b \<noteq> Null" "dsm_inv (t_dsm conf) d" "set (blocks d) = insert (b, 1024) (set (blocks (sdsm st)))" by auto
  then show ?thesis
  proof cases
    case 1
    then show ?thesis using full by (simp add: inserted_def sz)
  next
    case 2
    obtain q' s key where sp: "leaf_split_page q cnt b = Inr (q', s, key)" "split_into P (pages st) a b (Leaf q') (Leaf s) key"
        "leaf_page_map q' = (\<lambda>j. if j < key then ((leaf_page_map p)(k \<mapsto> v)) j else None)"
        "leaf_page_map s = (\<lambda>j. if key \<le> j then ((leaf_page_map p)(k \<mapsto> v)) j else None)"
      using q [OF 2(2,3)] by blast
    let ?mem = "(pages st)(b \<mapsto> Leaf s, a \<mapsto> Leaf q')"
    obtain c' l' where w: "write_split (lock_addr_of conf a) a b (Leaf q') (Leaf s)
          (st\<lparr>chip := c, local_locks := l, sdsm := d\<rparr>) = st\<lparr>sdsm := d, pages := ?mem, chip := c', local_locks := l'\<rparr>"
        "locks_idle conf (N + fuel) (st\<lparr>sdsm := d, pages := ?mem, chip := c', local_locks := l'\<rparr>)"
      using write_split_ok [OF held] by blast
    define st4 where "st4 = st\<lparr>sdsm := d, pages := ?mem, chip := c', local_locks := l'\<rparr>"
    have f: "pages st4 = ?mem" "sdsm st4 = d" "root_cell st4 = root_cell st" "path_stack st4 = path_stack st" "globals st4 = globals st"
      by (simp_all add: st4_def)
    have lo: "lo (pages st4) x = lo (pages st) x" if "x \<in> P" for x unfolding f by (rule split_hdrs(1) [OF sp(2) that])
    note bl4 = pages_okD(1) [OF split_pages_ok(1) [OF tree_okD(6) [OF ok] sp(2) 2(4,5) f(1,2)]]
    note tm = split_leaf_map [OF tree_okD(1) [OF ok] a(1) k sp(2-4) bl4 [unfolded f(1)], folded f(1)]
    have code: "split_leaf fuel conf (root_cell st) a q cnt (st\<lparr>chip := c, local_locks := l\<rparr>) =
        rbind (if root_cell st = a then update_new_root conf a key b 1 (root_cell st) st4 else Inr (False, st4)) (\<lambda>(grown, st5).
        if grown then Inr (True, st5)
        else if 0 + 1 \<ge> length (path_stack st5) then Inl PathOverflow
        else if \<not> addr_eq (path_stack st5 ! (0 + 1)) Null then
          rbind (internal_page_store fuel conf (path_stack st5 ! (0 + 1)) key b (root_cell st) (0 + 1) st5) (\<lambda>st6. Inr (True, st6))
        else Inl AssertFail)"
      using 2(1) sp(1) w(1) by (simp add: sz st4_def Let_def cong: if_cong)
    show ?thesis
    proof (cases "root_cell st = a")
      case True
      have "locks_idle conf N st4" using locks_idle_mono [OF w(2), of N] by (simp add: st4_def)
      from after_split [OF ok sp(2) 2(4,5) f(1-3,5) this rl True [symmetric] refl] consider
          "update_new_root conf a key b 1 a st4 = Inl AllocError"
        | P' st2 where "update_new_root conf a key b 1 a st4 = Inr (True, st2)" "P \<subseteq> P'" "tree_ok conf P' st2"
          "leaves P' (pages st2) = leaves (insert b P) (pages st4)" "\<forall>x \<in> P. lo (pages st2) x = lo (pages st) x"
          "locks_idle conf N st2" "globals st2 = globals st" by (auto simp: a(2))
      then show ?thesis
      proof cases
        case 1
        then show ?thesis using code True full by (simp add: inserted_def)
      next
        case 2
        have "tree_map P' (pages st2) j w \<longleftrightarrow> tree_map (insert b P) (pages st4) j w" for j w by (simp add: tree_map_leaves 2(4))
        then show ?thesis using code True 2 tm unfolding inserted_def by (intro disjI2 exI [of _ P'] exI [of _ st2]) simp
      qed
    next
      case False
      note g = split_goes_up [OF ok sp(2) False [symmetric] 2(4,5) f(1-4), unfolded a(2), OF pth]
      have "stored conf N (insert b P) st4 (internal_page_store fuel conf (path_stack st ! Suc 0) key b (root_cell st4) (Suc 0) st4)"
        using g(3-12) rl tag up w(2) f(4) by (intro internal_store_ok) (simp_all add: st4_def [symmetric] f(4))
      from inserted_above [OF this subset_insertI lo f(5) full tm]
      show ?thesis using code False g(1,2) by (simp add: f(3,4))
    qed
  qed
qed

lemma leaf_store_ok:
  assumes "tree_ok conf P st" "a \<in> P" "lv (pages st) a = 0" "lo (pages st) a \<le> k" "k < kKeyMax" "v \<noteq> kValueNull"
    and "lv (pages st) (root_cell st) < 255" "thread_tag conf \<noteq> 0"
    and "path_ok P (pages st) (lv (pages st) (root_cell st)) (path_stack st) 0 (lo (pages st) a)"
    and "locks_idle conf (N + fuel) st" "up_left P (pages st) a \<le> fuel"
  shows "inserted conf N P st k v (leaf_page_store fuel conf a k v (root_cell st) 0 False st)"
  using assms
proof (induction fuel arbitrary: a st)
  case 0
  then show ?case using up_left_pos [OF blinkD(1) [OF tree_okD(1)]] by (metis le_zero_eq less_irrefl)
next
  case (Suc fuel)
  note ok = Suc.prems(1) and a = Suc.prems(2,3) and k = Suc.prems(4,5) and rl = Suc.prems(7) and tag = Suc.prems(8)
    and pth = Suc.prems(9)
  note D = tree_okD [OF ok]
  obtain p where p: "pages st a = Some (Leaf p)" "leaf_page_wf p" "hdr_at (pages st) a = lp_hdr p" "hlevel (lp_hdr p) = 0"
      "LeafPage_check_consistent p"
    using leaf_hdr [OF D(1) a] .
  obtain c l where lk: "lock_and_read_page conf a st = Inr (Leaf p, st\<lparr>chip := c, local_locks := l\<rparr>)"
      "lock_held conf (N + fuel) (lock_addr_of conf a) (st\<lparr>chip := c, local_locks := l\<rparr>)"
    using lock_and_read_ok [of conf "N + fuel" st a, OF _ p(1)] Suc.prems(10) by auto
  show ?case
  proof (cases "hi (pages st) a \<le> k")
    case True
    note right = sib_step [OF D(1) a(1) True k(2)]
    obtain c' l' where un: "unlock_addr (lock_addr_of conf a) (st\<lparr>chip := c, local_locks := l\<rparr>) = st\<lparr>chip := c', local_locks := l'\<rparr>"
        "locks_idle conf (N + fuel) (st\<lparr>chip := c', local_locks := l'\<rparr>)"
      using unlock_ok [OF lk(2)] by auto
    let ?r = "leaf_page_store fuel conf (sib (pages st) a) k v (root_cell st) 0 False (st\<lparr>chip := c', local_locks := l'\<rparr>)"
    have "inserted conf N P (st\<lparr>chip := c', local_locks := l'\<rparr>) k v (leaf_page_store fuel conf (sib (pages st) a) k v
        (root_cell (st\<lparr>chip := c', local_locks := l'\<rparr>)) 0 False (st\<lparr>chip := c', local_locks := l'\<rparr>))"
      using Suc.prems un(2) right path_ok_right [OF pth less_imp_le [OF right(7)]]
      by (intro Suc.IH) (simp_all add: tree_ok_def pages_ok_def)
    then have ins: "inserted conf N P st k v ?r" using inserted_from by simp
    have "leaf_page_store (Suc fuel) conf a k v (root_cell st) 0 False st = rbind ?r (\<lambda>(b, st3). Inr (True, st3))"
      using lk(1) un(1) True right(2) tag p by simp
    then show ?thesis using ins inserted_true [OF ins] by simp
  next
    case False
    then have kh: "k < hi (pages st) a" by simp
    obtain q i cnt where q: "leaf_store_entry p k v = Inr (q, i, cnt)" "q = p\<lparr>lp_records := (lp_records p)[i := lp_records q ! i]\<rparr>"
        "cnt \<noteq> kLeafCardinality \<longrightarrow> leaf_written P (pages st) k (Some v) ((pages st)(a \<mapsto> Leaf q))"
        "cnt = kLeafCardinality \<longrightarrow> leaf_full P (pages st) k"
        "\<forall>b. cnt = kLeafCardinality \<longrightarrow> b \<notin> P \<longrightarrow> b \<noteq> Null \<longrightarrow>
          (\<exists>l r key. leaf_split_page q cnt b = Inr (l, r, key) \<and> split_into P (pages st) a b (Leaf l) (Leaf r) key \<and>
            leaf_page_map l = (\<lambda>j. if j < key then ((leaf_page_map p)(k \<mapsto> v)) j else None) \<and>
            leaf_page_map r = (\<lambda>j. if key \<le> j then ((leaf_page_map p)(k \<mapsto> v)) j else None))"
      by (rule leaf_store_page [OF D(1) a(1) p(1) k(1) kh Suc.prems(6)])
    show ?thesis
    proof (cases "cnt = kLeafCardinality")
      case full: False
      have we: "write_entry a i (lp_records q ! i) (pages st) = (pages st)(a \<mapsto> Leaf q)" by (rule write_entry_page [of "pages st", OF p(1) q(2)])
      obtain c' l' where w: "write_page_and_unlock (write_entry a i (lp_records q ! i)) (lock_addr_of conf a)
          (st\<lparr>chip := c, local_locks := l\<rparr>) = st\<lparr>pages := (pages st)(a \<mapsto> Leaf q), chip := c', local_locks := l'\<rparr>"
          "locks_idle conf (N + fuel) (st\<lparr>pages := (pages st)(a \<mapsto> Leaf q), chip := c', local_locks := l'\<rparr>)"
        using write_and_unlock_ok [OF lk(2), of "write_entry a i (lp_records q ! i)"] we by auto
      let ?st' = "st\<lparr>pages := (pages st)(a \<mapsto> Leaf q), chip := c', local_locks := l'\<rparr>"
      have "leaf_page_store (Suc fuel) conf a k v (root_cell st) 0 False st = Inr (True, ?st')"
        using lk(1) w(1) False tag k(1) p q(1) full by (simp add: Let_def)
      moreover have "tree_ok conf P ?st'" by (rule tree_ok_written [OF ok, of k "Some v"]) (simp_all add: q(3) [rule_format, OF full])
      moreover have "hdr_at ((pages st)(a \<mapsto> Leaf q)) x = hdr_at (pages st) x" for x by (rule leaf_written_hdr [OF q(3) [rule_format, OF full]])
      ultimately show ?thesis
        using locks_idle_mono [OF w(2), of N] leaf_written_map [OF D(1) q(3) [rule_format, OF full]]
        unfolding inserted_def by (intro disjI2 exI [of _ P] exI [of _ ?st']) auto
    next
      case full: True
      have "leaf_page_store (Suc fuel) conf a k v (root_cell st) 0 False st =
        split_leaf fuel conf (root_cell st) a q cnt (st\<lparr>chip := c, local_locks := l\<rparr>)"
        using lk(1) False tag k(1) p q(1) full by (simp add: Let_def cong: if_cong)
      then show ?thesis using split_leaf_ok [OF ok p(1) a(2) k(1) kh q(5) [rule_format, OF full] lk(2) rl tag pth Suc.prems(11) q(4) [rule_format, OF full]] by simp
    qed
  qed
qed

lemma tree_insert_ok:
  assumes ok: "tree_ok conf P st" and root: "get_root_ptr st = root_cell st"
    and lvl: "lv (pages st) (root_cell st) < kMaxLevelOfTree" and lk: "locks_idle conf (N + fuel) st"
    and off: "\<not> enable_cache (globals st)" and tag: "thread_tag conf \<noteq> 0" and k: "k < kKeyMax" and v: "v \<noteq> kValueNull"
    and fuel: "card P \<le> fuel"
  shows "tree_insert fuel conf k v st = Inl AllocError \<and> leaf_full P (pages st) k \<or>
    (\<exists>P' st'. tree_insert fuel conf k v st = Inr st' \<and> P \<subseteq> P' \<and> tree_ok conf P' st' \<and> locks_idle conf N st' \<and>
      globals st' = globals st \<and> (\<forall>x \<in> P. lo (pages st') x = lo (pages st) x) \<and>
      (\<forall>j w. tree_map P' (pages st') j w \<longleftrightarrow> (if j = k then w = v else tree_map P (pages st) j w)))"
proof -
  note D = tree_okD [OF ok]
  obtain p path where f: "find_leaf_loop fuel conf (get_root_ptr st) k (before_operation st) = Inr (p, st\<lparr>path_stack := path\<rparr>)"
      "p \<in> P" "lv (pages st) p = 0" "lo (pages st) p \<le> k" "path_ok P (pages st) (lv (pages st) (root_cell st)) path 0 (lo (pages st) p)"
    using find_leaf_from_root [OF ok _ _ lvl lk off k fuel] D(2,3) unfolding root by blast
  have up: "up_left P (pages st) p \<le> fuel" using up_left_le [OF blinkD(1) [OF D(1)]] fuel order_trans by blast
  let ?st = "st\<lparr>path_stack := path\<rparr>"
  let ?r = "leaf_page_store fuel conf p k v (root_cell st) 0 False ?st"
  have "inserted conf N P ?st k v (leaf_page_store fuel conf p k v (root_cell ?st) 0 False ?st)"
    using ok f(2-5) k v lvl tag lk up
    by (intro leaf_store_ok) (simp_all add: tree_ok_def pages_ok_def locks_idle_def local_lock_def kMaxLevelOfTree_def)
  then have ins: "inserted conf N P st k v ?r" using inserted_from by simp
  have g: "get_root_ptr (before_operation st) = get_root_ptr st" "globals (before_operation st) = globals st"
    by (simp_all add: before_operation_def get_root_ptr_def)
  have code: "tree_insert fuel conf k v st = rbind ?r (\<lambda>(b, st2). Inr st2)"
    using off f(1) root by (simp add: tree_insert_def Let_def g)
  show ?thesis
  proof (cases ?r)
    case (Inl e)
    then show ?thesis using ins code by (simp add: inserted_def)
  next
    case (Inr x)
    then obtain P' st' where "x = (True, st')" "P \<subseteq> P'" "tree_ok conf P' st'" "locks_idle conf N st'" "globals st' = globals st"
        "\<forall>x \<in> P. lo (pages st') x = lo (pages st) x"
        "\<forall>j w. tree_map P' (pages st') j w \<longleftrightarrow> (if j = k then w = v else tree_map P (pages st) j w)"
      using ins by (fastforce simp: inserted_def)
    then show ?thesis using code Inr by (intro disjI2 exI [of _ P'] exI [of _ st']) simp
  qed
qed

section \<open>A new tree\<close>

lemma new_lock_idle: "N < 2 ^ 32 \<Longrightarrow> idle_lock N LocalLockNode_new"
  by (simp add: idle_lock_def LocalLockNode_new_def serving_def next_ticket_def)

lemma Tree_new_ok:
  assumes conf: "dsm_conf_ok (t_dsm conf)" "dsm_inv (t_dsm conf) (sdsm st)" and root: "root_cell st = 0"
    and chip: "\<And>a. chip st (lock_addr_of conf a) = 0" and N: "N < 2 ^ 32"
  shows "Tree_new conf n st = Inl AllocError \<or> (\<exists>a st'. Tree_new conf n st = Inr st' \<and> tree_ok conf {a} st' \<and>
    locks_idle conf N st' \<and> globals st' = globals st \<and> lv (pages st') (root_cell st') = 0 \<and>
    (\<forall>k v. \<not> tree_map {a} (pages st') k v) \<and> (\<forall>k. \<not> leaf_full {a} (pages st') k))"
proof -
  define st0 where "st0 = st\<lparr>local_locks := (\<lambda>_ _. LocalLockNode_new),
    index_cache := IndexCache_new n (rand_in (index_cache st)) (rdtsc_in (index_cache st))\<rparr>"
  let ?p = "LeafPage_set_consistent (LeafPage_new 0)"
  have sz: "kLeafPageSize = 1024" by (simp add: kLeafPageSize_def)
  have code: "Tree_new conf n st = rbind (tree_alloc conf 1024 st0) (\<lambda>(a, st1).
      let st2 = st1\<lparr>pages := (pages st1)(a \<mapsto> Leaf ?p)\<rparr> in Inr (if root_cell st2 = 0 then st2\<lparr>root_cell := a\<rparr> else st2))"
    by (simp add: Tree_new_def st0_def sz Let_def)
  have "pages_ok conf {} 0 st0" using conf by (simp add: pages_ok_def blink_def st0_def)
  from tree_alloc_ok [OF this refl] consider "tree_alloc conf 1024 st0 = Inl AllocError"
    | a d where "tree_alloc conf 1024 st0 = Inr (a, st0\<lparr>sdsm := d\<rparr>)" "a \<noteq> Null" "dsm_inv (t_dsm conf) d"
      "set (blocks d) = insert (a, 1024) (set (blocks (sdsm st0)))" by auto
  then show ?thesis
  proof cases
    case 1
    then show ?thesis using code by simp
  next
    case 2
    define st' where "st' = st0\<lparr>sdsm := d, pages := (pages st0)(a \<mapsto> Leaf ?p), root_cell := a\<rparr>"
    have res: "Tree_new conf n st = Inr st'" using code 2(1) root by (simp add: st'_def st0_def Let_def)
    have wf: "leaf_page_wf ?p" by (rule new_leaf_page_wf)
    have h: "hdr_at (pages st') a = Header_new 0" by (simp add: st'_def)
    have "0 < kKeyMax" by code_simp
    then have "blink {a} (pages st')"
      using 2(2) wf unfolding blink_def by (simp add: h) (simp add: st'_def Header_new_def kKeyMin_def)
    then have "tree_ok conf {a} st'"
      using conf(1) 2(3,4) by (simp add: tree_ok_def pages_ok_def h) (simp add: st'_def h Header_new_def kKeyMin_def)
    moreover have "locks_idle conf N st'"
      using chip new_lock_idle [OF N] by (simp add: locks_idle_def st'_def st0_def local_lock_def)
    moreover have "\<not> tree_map {a} (pages st') k v" for k v
      by (simp add: tree_map_def st'_def leaf_page_map_def slot_pairs_dead)
    moreover have "\<not> leaf_full {a} (pages st') k" for k by (simp add: leaf_full_def st'_def slot_pairs_dead)
    moreover have "lv (pages st') (root_cell st') = 0" using h by (simp add: st'_def Header_new_def)
    ultimately show ?thesis using res by (intro disjI2 exI [of _ a] exI [of _ st']) (simp add: st'_def st0_def)
  qed
qed

section \<open>Properties\<close>

text \<open>
  C4: \<open>Tree::insert\<close> with the cache off and the current root returns, unless the leaf is full and the
  memory node has no chunk left: it never fails an assertion, walks at most once over each page, keeps the B-link tree
  and every page it had, releases every lock it takes, and changes the contents at the key alone,
  however many pages it splits on the way up and also when it grows a new root.
\<close>

theorem tree_insert_correct:
  assumes "tree_ok conf P st" "get_root_ptr st = root_cell st" "lv (pages st) (root_cell st) < kMaxLevelOfTree"
    and "locks_idle conf (N + fuel) st" "\<not> enable_cache (globals st)" "thread_tag conf \<noteq> 0"
    and "k < kKeyMax" "v \<noteq> kValueNull" "card P \<le> fuel"
  shows "tree_insert fuel conf k v st = Inl AllocError \<and> leaf_full P (pages st) k \<or>
    (\<exists>P' st'. tree_insert fuel conf k v st = Inr st' \<and> P \<subseteq> P' \<and> tree_ok conf P' st' \<and> locks_idle conf N st' \<and>
      globals st' = globals st \<and> (\<forall>x \<in> P. lo (pages st') x = lo (pages st) x) \<and>
      (\<forall>j w. tree_map P' (pages st') j w \<longleftrightarrow> (if j = k then w = v else tree_map P (pages st) j w)))"
  by (rule tree_insert_ok [OF assms])

text \<open>
  C6: \<open>Tree::del\<close> with the cache off returns from any root the process may have cached: it never
  fails an assertion, keeps the B-link tree, releases every lock it takes, and removes the key and
  nothing else.
\<close>

theorem tree_del_correct:
  assumes "tree_ok conf P st" "get_root_ptr st \<in> P" "lo (pages st) (get_root_ptr st) = 0"
    and "lv (pages st) (root_cell st) < kMaxLevelOfTree" "locks_idle conf (N + fuel) st"
    and "\<not> enable_cache (globals st)" "thread_tag conf \<noteq> 0" "k < kKeyMax" "card P \<le> fuel"
  shows "\<exists>st'. tree_del fuel conf k st = Inr st' \<and> tree_ok conf P st' \<and> locks_idle conf N st' \<and>
    globals st' = globals st \<and> root_cell st' = root_cell st \<and>
    (\<forall>j v. tree_map P (pages st') j v \<longleftrightarrow> j \<noteq> k \<and> tree_map P (pages st) j v)"
  by (rule tree_del_ok [OF assms])

text \<open>A tree just made, for the witnesses.\<close>

definition first_tree :: sherman where
  "first_tree = projr (Tree_new sample_tree_conf 1 (sample_tree\<lparr>pages := Map.empty, root_cell := 0\<rparr>))"

lemma first_tree_ok:
  obtains a where "tree_ok sample_tree_conf {a} first_tree" "locks_idle sample_tree_conf 8 first_tree"
    "lv (pages first_tree) (root_cell first_tree) = 0" "get_root_ptr first_tree = root_cell first_tree"
    "\<not> enable_cache (globals first_tree)" "\<forall>k. \<not> leaf_full {a} (pages first_tree) k"
proof -
  let ?st = "sample_tree\<lparr>pages := Map.empty, root_cell := 0\<rparr>"
  have c: "dsm_conf_ok (t_dsm sample_tree_conf)"
    by (simp add: dsm_conf_ok_def sample_tree_conf_def sample_conf_def per_directory_dsm_size_def kChunkSize_def)
  have "\<not> isl (Directory_chunckAlloc sample_conf n d)" for n d
    by (simp add: Directory_chunckAlloc_def GlobalAllocator_new_def Let_def sample_conf_def per_directory_dsm_size_def kChunkSize_def)
  then have "dsm_init (t_dsm sample_tree_conf) (sdsm ?st)"
    by (auto simp: dsm_init_def sample_dsm_def sample_tree_def sample_tree_conf_def isl_def split: sum.splits)
  note inv = dsm_inv_init [OF c this]
  have "tree_alloc sample_tree_conf 1024 sample_tree \<noteq> Inl AllocError"
  proof -
    have "isl (DSM_alloc sample_conf sample_dsm 0 1024) = False" by code_simp
    then show ?thesis by (auto simp: tree_alloc_def sample_tree_conf_def sample_tree_def isl_def split: sum.splits)
  qed
  then have "Tree_new sample_tree_conf 1 ?st \<noteq> Inl AllocError"
    by (auto simp: Tree_new_def tree_alloc_def kLeafPageSize_def Let_def split: sum.splits)
  then obtain a st' where n: "Tree_new sample_tree_conf 1 ?st = Inr st'" "tree_ok sample_tree_conf {a} st'"
      "locks_idle sample_tree_conf 8 st'" "globals st' = globals ?st" "lv (pages st') (root_cell st') = 0"
      "\<forall>k. \<not> leaf_full {a} (pages st') k"
    using Tree_new_ok [OF c inv, of 8 1] by (auto simp: sample_tree_def)
  have "first_tree = st'" using n(1) by (simp add: first_tree_def)
  then show ?thesis using that [of a] n by (auto simp: get_root_ptr_def sample_tree_def)
qed

theorem tree_insert_correct_witness:
  "\<exists>P P' st'. tree_ok sample_tree_conf P first_tree \<and> tree_insert 4 sample_tree_conf 7 70 first_tree = Inr st' \<and>
     tree_ok sample_tree_conf P' st' \<and> tree_map P' (pages st') 7 70"
proof -
  obtain a where a: "tree_ok sample_tree_conf {a} first_tree" "locks_idle sample_tree_conf 8 first_tree"
    "lv (pages first_tree) (root_cell first_tree) = 0" "get_root_ptr first_tree = root_cell first_tree"
    "\<not> enable_cache (globals first_tree)" "\<forall>k. \<not> leaf_full {a} (pages first_tree) k" by (rule first_tree_ok)
  have s: "lv (pages first_tree) (root_cell first_tree) < kMaxLevelOfTree" "locks_idle sample_tree_conf (4 + 4) first_tree"
    "thread_tag sample_tree_conf \<noteq> 0" "(7 :: Key) < kKeyMax" "(70 :: Value) \<noteq> kValueNull" "card {a} \<le> 4"
    using a(2,3) by (simp_all add: kMaxLevelOfTree_def sample_tree_conf_def kKeyMax_def kValueNull_def)
  from tree_insert_correct [OF a(1,4) s(1,2) a(5) s(3-6)] obtain P' st' where
      "tree_insert 4 sample_tree_conf 7 70 first_tree = Inr st'" "tree_ok sample_tree_conf P' st'"
      "\<forall>j w. tree_map P' (pages st') j w \<longleftrightarrow> (if j = 7 then w = 70 else tree_map {a} (pages first_tree) j w)"
    using a(6) by blast
  then show ?thesis using a(1) by (intro exI [of _ "{a}"] exI [of _ P'] exI [of _ st']) simp
qed

theorem tree_del_correct_witness:
  "\<exists>P st'. tree_ok sample_tree_conf P first_tree \<and> tree_del 4 sample_tree_conf 7 first_tree = Inr st' \<and>
     tree_ok sample_tree_conf P st' \<and> (\<forall>v. \<not> tree_map P (pages st') 7 v)"
proof -
  obtain a where a: "tree_ok sample_tree_conf {a} first_tree" "locks_idle sample_tree_conf 8 first_tree"
    "lv (pages first_tree) (root_cell first_tree) = 0" "get_root_ptr first_tree = root_cell first_tree"
    "\<not> enable_cache (globals first_tree)" by (rule first_tree_ok)
  have s: "lv (pages first_tree) (root_cell first_tree) < kMaxLevelOfTree" "locks_idle sample_tree_conf (4 + 4) first_tree"
    "thread_tag sample_tree_conf \<noteq> 0" "(7 :: Key) < kKeyMax" "card {a} \<le> 4"
    "get_root_ptr first_tree \<in> {a}" "lo (pages first_tree) (get_root_ptr first_tree) = 0"
    using a(2,3) tree_okD(2,3) [OF a(1)] by (simp_all add: kMaxLevelOfTree_def sample_tree_conf_def kKeyMax_def a(4))
  from tree_del_correct [OF a(1) s(6,7,1,2) a(5) s(3-5)] a(1) show ?thesis by blast
qed

text \<open>
  C40: \<open>page_search\<close> accepts a page it read while the page was being split, once the lock is free
  again: the version has changed, but the test asks for a set lock as well.  With the header as it was
  before the split and the slots as they are after it, a key that was stored before and is stored
  after is reported as absent, without a sibling to go on to.
\<close>

theorem torn_split_read_accepted:
  assumes "leaf_page_wf p" "leaf_store_entry p k v = Inr (q, i, kLeafCardinality)"
    and "lowest (lp_hdr p) \<le> k" "k < highest (lp_hdr p)" "v \<noteq> kValueNull"
    and "leaf_split_page q kLeafCardinality b = Inr (l, r, key)" "key \<le> j" "leaf_page_map p j = Some w"
    and "length (path_stack st) = kMaxLevelOfTree"
  shows "leaf_page_map r j \<noteq> None \<and>
    (\<exists>res st'. page_search_attempt (version, 0) (Leaf (l\<lparr>lp_hdr := lp_hdr p\<rparr>)) (version + 1, 0) a j False st =
       Some (Inr (True, res, st')) \<and> is_leaf res \<and> res_val res = kValueNull \<and> slibing res = Null)"
proof -
  note W = leaf_page_wfD [OF assms(1)]
  obtain q' i' cnt where q: "leaf_store_entry p k v = Inr (q', i', cnt)"
      "q' = p\<lparr>lp_records := (lp_records p)[i' := lp_records q' ! i']\<rparr>" "i' < kLeafCardinality"
      "slots_ok (lowest (lp_hdr p)) (highest (lp_hdr p)) (lp_records q')" "leaf_page_map q' = (leaf_page_map p)(k \<mapsto> v)"
      "cnt = kLeafCardinality \<longleftrightarrow> length (slot_pairs (lp_records q')) = kLeafCardinality"
      "length (slot_pairs (lp_records q')) \<le> kLeafCardinality"
      "cnt = kLeafCardinality \<longleftrightarrow> leaf_page_map p k = None \<and> Suc (length (slot_pairs (lp_records p))) = kLeafCardinality"
    by (rule leaf_store_entry_correct [OF W(1,2) assms(3-5)])
  then have eq: "q' = q" "cnt = kLeafCardinality" using assms(2) by simp_all
  have hq: "lp_hdr q = lp_hdr p" using q(2) unfolding eq(1) by (metis LeafPage.select_convs(2) LeafPage.surjective LeafPage.update_convs(3))
  have pre: "slots_ok (lowest (lp_hdr q)) (highest (lp_hdr q)) (lp_records q)" "length (slot_pairs (lp_records q)) = kLeafCardinality"
      "leftmost_ptr (lp_hdr q) = Null" "hlevel (lp_hdr q) = 0"
    unfolding hq using q(4,6) eq W(3,4) by blast+
  obtain l' r' key' where sp: "leaf_split_page q kLeafCardinality b = Inr (l', r', key')"
      "lowest (lp_hdr q) < key'" "key' < highest (lp_hdr q)" "leaf_page_wf l'" "leaf_page_wf r'"
      "lowest (lp_hdr l') = lowest (lp_hdr q)" "highest (lp_hdr l') = key'" "sibling_ptr (lp_hdr l') = b"
      "lowest (lp_hdr r') = key'" "highest (lp_hdr r') = highest (lp_hdr q)" "sibling_ptr (lp_hdr r') = sibling_ptr (lp_hdr q)"
      "leaf_page_map l' = (\<lambda>k. if k < key' then leaf_page_map q k else None)"
      "leaf_page_map r' = (\<lambda>k. if key' \<le> k then leaf_page_map q k else None)"
    by (rule leaf_split_page_correct [OF pre])
  then have lr: "l' = l" "r' = r" "key' = key" using assms(6) by simp_all
  have "leaf_page_map r j \<noteq> None" using sp(13) lr q(5) eq(1) assms(7,8) by simp
  moreover have "leaf_page_map (l\<lparr>lp_hdr := lp_hdr p\<rparr>) j = None"
    using sp(12) lr assms(7) by (simp add: leaf_page_map_def leD)
  moreover have rng: "lowest (lp_hdr p) \<le> j" "j < highest (lp_hdr p)"
    using slot_pairs_range [OF W(1)] assms(8) map_of_SomeD by (fastforce simp: leaf_page_map_def)+
  moreover have "slots_ok (lowest (lp_hdr l)) (highest (lp_hdr l)) (lp_records (l\<lparr>lp_hdr := lp_hdr p\<rparr>))"
    using leaf_page_wfD(1) [OF sp(4)] lr by simp
  ultimately show ?thesis
    using W(3,4) assms(9) leaf_page_search_val [of _ _ "l\<lparr>lp_hdr := lp_hdr p\<rparr>" "empty_result\<lparr>is_leaf := True\<rparr>" j]
    by (simp add: page_search_attempt_def must_re_read_def kMaxLevelOfTree_def empty_result_def Null_def not_le not_less leD Let_def)
      (auto dest: leD)
qed

theorem torn_split_read_accepted_witness:
  "\<exists>p l r res st'. leaf_page_map p 100 \<noteq> None \<and> leaf_page_map r 100 \<noteq> None \<and>
     page_search_attempt (5, 0) (Leaf (l\<lparr>lp_hdr := lp_hdr p\<rparr>)) (6, 0) 64 100 False sample_tree = Some (Inr (True, res, st')) \<and>
     res_val res = kValueNull \<and> slibing res = Null"
proof -
  define q where "q = fst (projr (leaf_store_entry sample_leaf_page 200 7))"
  have st: "leaf_store_entry sample_leaf_page 200 7 = Inr (q, 53, kLeafCardinality)"
    unfolding q_def by code_simp
  have rng: "lowest (lp_hdr sample_leaf_page) \<le> 200" "200 < highest (lp_hdr sample_leaf_page)" "(7::Value) \<noteq> kValueNull"
    "leaf_page_map sample_leaf_page 100 = Some 1" by code_simp+
  define x where "x = projr (leaf_split_page (fst (projr (leaf_store_entry sample_leaf_page 200 7))) kLeafCardinality 4096)"
  have "\<not> isl (leaf_split_page (fst (projr (leaf_store_entry sample_leaf_page 200 7))) kLeafCardinality 4096)" by code_simp
  then have sp: "leaf_split_page q kLeafCardinality 4096 = Inr (fst x, fst (snd x), snd (snd x))"
    by (simp add: q_def x_def)
  have key: "snd (snd x) \<le> 100" unfolding x_def by code_simp
  have len: "length (path_stack sample_tree) = kMaxLevelOfTree" by (simp add: sample_tree_def)
  from torn_split_read_accepted [OF sample_leaf_page_wf st rng(1-3) sp key rng(4) len, of 5 64] rng(4)
  show ?thesis by fastforce
qed

end
