(* ===== verification/Chime_Key.thy ===== *)
theory Chime_Key
  imports Dex_Prelude "HOL-Library.List_Lexorder"
begin

text \<open>
  Keys of CHIME (\<open>CHIME/include/Key.h\<close>, \<open>Common.h\<close>): arrays of eight bytes, most significant byte
  first, compared lexicographically as \<open>std::array\<close> does.  The theory has the arithmetic of
  \<open>Key.h\<close> byte by byte and shows that it is the arithmetic of the numbers the keys denote.
\<close>

type_synonym key = "u8 list"

definition keyLen :: nat where
  "keyLen = 8"

definition kkeyNull :: key where
  "kkeyNull = replicate keyLen 0"

section \<open>Byte arithmetic\<close>

text \<open>\<open>add_one\<close>: the loop from the last byte on, \<open>n\<close> bytes to go.\<close>

fun add_one_loop :: "nat \<Rightarrow> key \<Rightarrow> key" where
  "add_one_loop 0 a = a"
| "add_one_loop (Suc n) a =
     (if unat (a ! n) + 1 < 2 ^ 8 then a[n := a ! n + 1] else add_one_loop n (a[n := 0]))"

definition add_one :: "key \<Rightarrow> key" where
  "add_one a = add_one_loop keyLen a"

text \<open>\<open>operator+(const Key&, uint8_t)\<close>.\<close>

fun key_add_loop :: "nat \<Rightarrow> key \<Rightarrow> u8 \<Rightarrow> key" where
  "key_add_loop 0 res b = res"
| "key_add_loop (Suc n) res b =
     (let partial = unat (res ! n) in
      if partial + unat b < 2 ^ 8 then res[n := res ! n + b]
      else let tmp = partial + unat b in
        key_add_loop n (res[n := of_nat (tmp mod 2 ^ 8)]) (of_nat (tmp div 2 ^ 8)))"

definition key_add :: "key \<Rightarrow> u8 \<Rightarrow> key" where
  "key_add a b = key_add_loop keyLen a b"

text \<open>\<open>operator-(const Key&, uint8_t)\<close>, with the loop that counts the borrowed 256s.\<close>

function borrow :: "nat \<Rightarrow> nat \<Rightarrow> nat \<Rightarrow> nat" where
  "borrow tmp b carry = (if tmp < b then borrow (tmp + 2 ^ 8) b (carry + 1) else carry)"
  by auto
termination by (relation "measure (\<lambda>(tmp, b, carry). b - tmp)") auto

declare borrow.simps [simp del]

fun key_sub_loop :: "nat \<Rightarrow> key \<Rightarrow> u8 \<Rightarrow> key" where
  "key_sub_loop 0 res b = res"
| "key_sub_loop (Suc n) res b =
     (let partial = unat (res ! n) in
      if unat b \<le> partial then res[n := res ! n - b]
      else let carry = borrow partial (unat b) 0 in
        key_sub_loop n (res[n := of_nat (partial + carry * 2 ^ 8 - unat b)]) (of_nat carry))"

definition key_sub :: "key \<Rightarrow> u8 \<Rightarrow> key" where
  "key_sub a b = key_sub_loop keyLen a b"

section \<open>Keys and integers\<close>

definition key2int :: "key \<Rightarrow> u64" where
  "key2int key = fold (\<lambda>a res. push_bit 8 res + ucast a) key 0"

text \<open>\<open>int2key\<close> as it is built, without \<open>KEY_SPACE_LIMIT\<close>: the null key is avoided.\<close>

definition kKeyMin :: u64 where
  "kKeyMin = 1"

definition int2key :: "u64 \<Rightarrow> key" where
  "int2key k0 = (let key = (if k0 = key2int kkeyNull then kKeyMin else k0) in
     map (\<lambda>i. let shr = (keyLen - i) * 8 in
       if 64 \<le> shr then 0 else ucast (drop_bit shr key AND 0xFF)) [1..<keyLen + 1])"

definition str2key :: "u8 list \<Rightarrow> key" where
  "str2key s = take keyLen s @ replicate (keyLen - length s) 0"

definition key2fp :: "key \<Rightarrow> u16" where
  "key2fp key = push_bit 8 (ucast (key ! (keyLen - 1))) + ucast (key ! (keyLen - 2))"

section \<open>The number a key denotes\<close>

fun key_val :: "key \<Rightarrow> nat" where
  "key_val [] = 0"
| "key_val (a # as) = unat a * 256 ^ length as + key_val as"

lemma key_val_bound: "key_val k < 256 ^ length k"
proof (induction k)
  case (Cons a k)
  have "unat a < 256" using unsigned_less [of a] by simp
  then have "unat a * 256 ^ length k + key_val k < (unat a + 1) * 256 ^ length k"
    using Cons by simp
  also have "\<dots> \<le> 256 * 256 ^ length k"
    using \<open>unat a < 256\<close> by (intro mult_right_mono) auto
  finally show ?case by simp
qed simp

lemma key_val_append: "key_val (xs @ ys) = key_val xs * 256 ^ length ys + key_val ys"
  by (induction xs) (simp_all add: algebra_simps power_add)

text \<open>The lexicographic order of equally long keys is the order of their numbers.\<close>

lemma key_less_val: "length a = length b \<Longrightarrow> a < b \<longleftrightarrow> key_val a < key_val b"
proof (induction a b rule: list_induct2)
  case (Cons x xs y ys)
  let ?n = "256 ^ length xs :: nat"
  have v: "key_val xs < ?n" "key_val ys < ?n"
    using key_val_bound [of xs] key_val_bound [of ys] Cons.hyps by simp_all
  consider "x < y" | "x = y" | "y < x" by force
  then show ?case
  proof cases
    case 1
    then have "(unat x + 1) * ?n \<le> unat y * ?n"
      by (intro mult_right_mono) (auto simp: word_less_nat_alt)
    with 1 v show ?thesis using Cons.hyps by (simp add: algebra_simps)
  next
    case 3
    then have "(unat y + 1) * ?n \<le> unat x * ?n"
      by (intro mult_right_mono) (auto simp: word_less_nat_alt)
    with 3 v show ?thesis using Cons.hyps by (auto simp: algebra_simps)
  qed (use Cons in simp)
qed simp

lemma key_val_inj: "length a = length b \<Longrightarrow> key_val a = key_val b \<Longrightarrow> a = b"
  using key_less_val [of a b] key_less_val [of b a] by force

lemma key_null_least: "length k = keyLen \<Longrightarrow> k \<noteq> kkeyNull \<Longrightarrow> kkeyNull < k"
proof -
  assume k: "length k = keyLen" "k \<noteq> kkeyNull"
  have "key_val (replicate n 0) = 0" for n by (induction n) auto
  with k key_val_inj [of kkeyNull k] have "key_val k \<noteq> 0" by (auto simp: kkeyNull_def)
  with k \<open>\<And>n. key_val (replicate n 0) = 0\<close> show ?thesis
    by (simp add: key_less_val kkeyNull_def)
qed

lemma take_Suc_val:
  "n < length k \<Longrightarrow> key_val (take (Suc n) k) = key_val (take n k) * 256 + unat (k ! n)"
  by (simp add: take_Suc_conv_app_nth key_val_append)

lemma drop_eq_Suc:
  "drop n xs = drop n ys \<Longrightarrow> length xs = length ys \<Longrightarrow> n < length ys \<Longrightarrow>
   xs ! n = ys ! n \<and> drop (Suc n) xs = drop (Suc n) ys"
  by (metis Cons_nth_drop_Suc list.inject)

lemma mod_carry: "(256 * v + p :: nat) mod (256 * q) = 256 * ((v + p div 256) mod q) + p mod 256"
  by (simp add: mod_mult2_eq)

lemma key_add_loop_val:
  assumes "n \<le> length res"
  shows "length (key_add_loop n res b) = length res \<and>
    drop n (key_add_loop n res b) = drop n res \<and>
    key_val (take n (key_add_loop n res b)) = (key_val (take n res) + unat b) mod 256 ^ n"
  using assms
proof (induction n arbitrary: res b)
  case (Suc n)
  let ?v = "key_val (take n res)" and ?p = "unat (res ! n)"
  have v: "?v < 256 ^ n" using key_val_bound [of "take n res"] Suc.prems by simp
  show ?case
  proof (cases "?p + unat b < 2 ^ 8")
    case True
    have "256 * ?v + (?p + unat b) < 256 * (?v + 1)" using True by simp
    also have "\<dots> \<le> 256 * 256 ^ n" using v by (intro mult_left_mono) auto
    finally have "(256 * ?v + (?p + unat b)) mod 256 ^ Suc n = 256 * ?v + (?p + unat b)" by simp
    with True Suc.prems show ?thesis
      by (simp add: take_Suc_val unat_add_lt algebra_simps drop_update_cancel)
  next
    case False
    let ?c = "(?p + unat b) div 256" and ?r = "res[n := of_nat ((?p + unat b) mod 256)]"
    have "?p < 256" "unat b < 256" using unsigned_less [of "res ! n"] unsigned_less [of b] by simp_all
    then have c: "unat (of_nat ?c :: u8) = ?c"
      by (intro unat_of_nat_lt) auto
    have m: "unat (of_nat ((?p + unat b) mod 256) :: u8) = (?p + unat b) mod 256"
      by (rule unat_of_nat_lt) simp
    have ih: "length (key_add_loop n ?r (of_nat ?c)) = length ?r \<and>
        drop n (key_add_loop n ?r (of_nat ?c)) = drop n ?r \<and>
        key_val (take n (key_add_loop n ?r (of_nat ?c))) = (?v + ?c) mod 256 ^ n"
      using Suc.IH [of ?r "of_nat ?c"] Suc.prems c by simp
    then have "key_add_loop n ?r (of_nat ?c) ! n = ?r ! n"
        "drop (Suc n) (key_add_loop n ?r (of_nat ?c)) = drop (Suc n) res"
      using Suc.prems drop_eq_Suc [of n "key_add_loop n ?r (of_nat ?c)" ?r] by auto
    then show ?thesis
      using False Suc.prems ih mod_carry [of ?v "?p + unat b" "256 ^ n"] m
      by (simp add: take_Suc_val Let_def algebra_simps)
  qed
qed simp


text \<open>Borrowing 256 once is enough: the borrow loop runs at most one round.\<close>

lemma borrow_once: "p < b \<Longrightarrow> b \<le> 2 ^ 8 \<Longrightarrow> borrow p b 0 = 1"
  by (simp add: borrow.simps [of p] borrow.simps [of "p + 256"])

lemma key_sub_loop_val:
  assumes "n \<le> length res"
  shows "length (key_sub_loop n res b) = length res \<and>
    drop n (key_sub_loop n res b) = drop n res \<and>
    (key_val (take n (key_sub_loop n res b)) + unat b) mod 256 ^ n = key_val (take n res)"
  using assms
proof (induction n arbitrary: res b)
  case (Suc n)
  let ?v = "key_val (take n res)" and ?p = "unat (res ! n)"
  have v: "?v < 256 ^ n" using key_val_bound [of "take n res"] Suc.prems by simp
  have p: "?p < 256" "unat b < 256" using unsigned_less [of "res ! n"] unsigned_less [of b] by simp_all
  have total: "?v * 256 + ?p < 256 ^ Suc n"
    using key_val_bound [of "take (Suc n) res"] Suc.prems by (simp add: take_Suc_val)
  show ?case
  proof (cases "unat b \<le> ?p")
    case True
    then have "unat (res ! n - b) = ?p - unat b" by (simp add: unat_sub word_le_nat_alt)
    with True total Suc.prems show ?thesis
      by (simp add: take_Suc_val drop_update_cancel)
  next
    case False
    let ?r = "res[n := of_nat (?p + 256 - unat b)]"
    have m: "unat (of_nat (?p + 256 - unat b) :: u8) = ?p + 256 - unat b"
      using False by (intro unat_of_nat_lt) auto
    have c: "borrow ?p (unat b) 0 = 1" using False p by (intro borrow_once) auto
    have ih: "length (key_sub_loop n ?r 1) = length ?r \<and>
        drop n (key_sub_loop n ?r 1) = drop n ?r \<and>
        (key_val (take n (key_sub_loop n ?r 1)) + 1) mod 256 ^ n = ?v"
      using Suc.IH [of ?r 1] Suc.prems by simp
    then have d: "key_sub_loop n ?r 1 ! n = ?r ! n"
        "drop (Suc n) (key_sub_loop n ?r 1) = drop (Suc n) res"
      using Suc.prems drop_eq_Suc [of n "key_sub_loop n ?r 1" ?r] by auto
    let ?w = "key_val (take n (key_sub_loop n ?r 1))"
    have "(256 * ?w + (?p + 256)) mod (256 * 256 ^ n) = 256 * ?v + ?p"
    proof -
      have "(?p + 256) div 256 = 1" using p by simp
      then show ?thesis using mod_carry [of ?w "?p + 256" "256 ^ n"] p ih by simp
    qed
    moreover have "?w * 256 + (?p + 256 - unat b) + unat b = 256 * ?w + (?p + 256)"
      using False p by simp
    ultimately show ?thesis
      using False Suc.prems ih d m c by (simp add: take_Suc_val Let_def mult.commute)
  qed
qed simp

text \<open>The operators of \<open>Key.h\<close> compute modulo \<open>2 ^ 64\<close>.\<close>

lemma key_add_val:
  assumes "length k = keyLen"
  shows "length (key_add k b) = keyLen" "key_val (key_add k b) = (key_val k + unat b) mod 256 ^ 8"
  using key_add_loop_val [of keyLen k b] assms by (auto simp: key_add_def keyLen_def)

lemma key_sub_val:
  assumes "length k = keyLen"
  shows "length (key_sub k b) = keyLen" "(key_val (key_sub k b) + unat b) mod 256 ^ 8 = key_val k"
  using key_sub_loop_val [of keyLen k b] assms by (auto simp: key_sub_def keyLen_def)

text \<open>
  Off the top of the key space, \<open>k + 1\<close> is the next key: it is above exactly the keys up to \<open>k\<close>,
  which is what a split key built as \<open>max_key + 1\<close> relies on.
\<close>

lemma key_add_one_next:
  assumes "length k = keyLen" "length x = keyLen" "k < replicate keyLen 0xFF"
  shows "x < key_add k 1 \<longleftrightarrow> x \<le> k"
proof -
  have "key_val k < key_val (replicate keyLen 0xFF)"
    using assms by (simp add: key_less_val)
  then have "key_val k + 1 < 256 ^ 8"
    using key_val_bound [of "replicate keyLen 0xFF :: key"] by (simp add: keyLen_def)
  then have "key_val (key_add k 1) = key_val k + 1" using key_add_val [of k 1] assms by simp
  moreover have "x \<le> k \<longleftrightarrow> key_val x \<le> key_val k"
    using assms key_less_val [of k x] by (simp add: not_less [symmetric])
  ultimately show ?thesis
    using key_less_val [of x "key_add k 1"] key_add_val(1) [of k 1] assms by auto
qed

end
