(* ===== verification/Chime_Leaf.thy ===== *)
theory Chime_Leaf
  imports Chime_Key
begin

text \<open>
  The hopscotch leaf of CHIME (\<open>CHIME/include/LeafNode.h\<close>, \<open>CHIME/src/Tree.cpp\<close>): 64 entries; a key lives
  within 8 entries of the one its hash names, its \<^emph>\<open>home\<close>, and the home's bitmap says which of these
  8 entries hold keys of the home.  \<open>CityHash64\<close> is a function the definitions take as an
  argument.  A failed assertion is \<open>None\<close>.
\<close>

section \<open>Entries and leaves\<close>

definition leafSpanSize :: nat where
  "leafSpanSize = 64"

definition neighborSize :: nat where
  "neighborSize = 8"

record PackedVersion =
  node_version :: "4 word"
  entry_version :: "4 word"

record LeafEntry =
  h_version :: PackedVersion
  hop_bitmap :: "8 word"
  ekey :: key
  evalue :: u64

definition LeafEntry_Null :: LeafEntry where
  "LeafEntry_Null = \<lparr>h_version = \<lparr>node_version = 0, entry_version = 0\<rparr>, hop_bitmap = 0,
     ekey = kkeyNull, evalue = 0\<rparr>"

definition entry_update :: "key \<Rightarrow> u64 \<Rightarrow> LeafEntry \<Rightarrow> LeafEntry" where
  "entry_update k v e = e\<lparr>ekey := k, evalue := v\<rparr>"

text \<open>The bit for the offset \<open>idx\<close> is the one at \<open>neighborSize - idx - 1\<close>.\<close>

definition hop_mask :: "int \<Rightarrow> 8 word" where
  "hop_mask idx = push_bit (nat (int neighborSize - idx - 1)) 1"

definition set_hop_bit :: "int \<Rightarrow> LeafEntry \<Rightarrow> LeafEntry option" where
  "set_hop_bit idx e =
     (if 0 \<le> idx \<and> idx < int neighborSize \<and> hop_bitmap e AND hop_mask idx = 0
      then Some (e\<lparr>hop_bitmap := hop_bitmap e OR hop_mask idx\<rparr>) else None)"

definition unset_hop_bit :: "int \<Rightarrow> LeafEntry \<Rightarrow> LeafEntry option" where
  "unset_hop_bit idx e =
     (if 0 \<le> idx \<and> idx < int neighborSize \<and> hop_bitmap e AND hop_mask idx \<noteq> 0
      then Some (e\<lparr>hop_bitmap := hop_bitmap e AND NOT (hop_mask idx)\<rparr>) else None)"

definition get_hashed_leaf_entry_index :: "(key \<Rightarrow> u64) \<Rightarrow> key \<Rightarrow> nat" where
  "get_hashed_leaf_entry_index city k = unat (city k mod 64)"

text \<open>\<open>get_entry\<close>: a logical index runs past the end of the array and wraps around.\<close>

definition slot :: "int \<Rightarrow> nat" where
  "slot logical_idx = nat ((logical_idx + int leafSpanSize) mod int leafSpanSize)"

definition get_entry :: "LeafEntry list \<Rightarrow> int \<Rightarrow> LeafEntry" where
  "get_entry records logical_idx = records ! slot logical_idx"

definition on_entry :: "int \<Rightarrow> (LeafEntry \<Rightarrow> LeafEntry option) \<Rightarrow> LeafEntry list \<Rightarrow> LeafEntry list option" where
  "on_entry i f records = map_option (\<lambda>e. records[slot i := e]) (f (get_entry records i))"

section \<open>Inserting\<close>

text \<open>The search for an empty entry, \<open>n\<close> entries from \<open>i\<close> on.\<close>

fun find_empty :: "LeafEntry list \<Rightarrow> int \<Rightarrow> nat \<Rightarrow> int option" where
  "find_empty records i 0 = None"
| "find_empty records i (Suc n) =
     (if ekey (get_entry records i) = kkeyNull then Some i else find_empty records (i + 1) n)"

text \<open>
  The home of the entry \<open>h\<close> if it may hop to \<open>j\<close>, found with the bitmaps; \<open>-1\<close> if there is none.
  \<open>h_home\<close> is the candidate \<open>z\<close> entries before \<open>h\<close>, brought back next to \<open>h\<close> after the remainder.
\<close>

definition h_home :: "int \<Rightarrow> int \<Rightarrow> int" where
  "h_home h z = (let b = (h - z + int leafSpanSize) mod int leafSpanSize in
     if h - b < 0 then b - int leafSpanSize
     else if int neighborSize \<le> h - b then b + int leafSpanSize else b)"

fun find_home :: "LeafEntry list \<Rightarrow> int \<Rightarrow> int \<Rightarrow> nat \<Rightarrow> int option" where
  "find_home records h j 0 = Some (- 1)"
| "find_home records h j (Suc z) =
     (let b = h_home h (int z) in
      if \<not> b \<le> h then None
      else if j < b + int neighborSize \<and> hop_bitmap (get_entry records b) AND hop_mask (int z) \<noteq> 0
      then Some b else find_home records h j z)"

text \<open>The entry that hops to \<open>j\<close>, with its home: the farthest one that may.\<close>

fun hop_source :: "LeafEntry list \<Rightarrow> int \<Rightarrow> nat \<Rightarrow> (int \<times> int) option option" where
  "hop_source records j 0 = Some None"
| "hop_source records j (Suc n) =
     (let h = j - int (Suc n) in
      case find_home records h j neighborSize of
        None \<Rightarrow> None
      | Some h_hash_idx \<Rightarrow>
          if h_hash_idx < 0 then hop_source records j n else Some (Some (h, h_hash_idx)))"

definition hop_move :: "LeafEntry list \<Rightarrow> int \<Rightarrow> int \<Rightarrow> int \<Rightarrow> LeafEntry list option" where
  "hop_move records j h h_hash_idx =
     (let rs = records[slot j := entry_update (ekey (get_entry records h)) (evalue (get_entry records h))
                (get_entry records j)] in
      Option.bind (on_entry h_hash_idx (unset_hop_bit (h - h_hash_idx)) rs)
        (on_entry h_hash_idx (set_hop_bit (j - h_hash_idx))))"

lemma hop_source_less: "hop_source records j n = Some (Some (h, b)) \<Longrightarrow> h < j"
  by (induction n) (auto simp: Let_def split: option.splits if_splits)

text \<open>
  The loop at \<open>next_hop\<close>: \<open>j\<close> is the hole.  \<open>Some None\<close> is the \<open>return false\<close> after the loop over the
  offsets, \<open>Some (Some (records, hopped_idxes))\<close> a finished insertion.
\<close>

function hop_loop :: "int \<Rightarrow> key \<Rightarrow> u64 \<Rightarrow> LeafEntry list \<Rightarrow> int \<Rightarrow> nat list \<Rightarrow>
    (LeafEntry list \<times> nat list) option option" where
  "hop_loop hash_idx k v records j hopped_idxes =
     (let hopped = hopped_idxes @ [slot j] in
      if j < hash_idx + int neighborSize then
        (case on_entry hash_idx (set_hop_bit (j - hash_idx))
               (records[slot j := entry_update k v (get_entry records j)]) of
           None \<Rightarrow> None
         | Some rs \<Rightarrow> Some (Some (rs, hopped)))
      else
        (case hop_source records j (neighborSize - 1) of
           None \<Rightarrow> None
         | Some None \<Rightarrow> Some None
         | Some (Some (h, h_hash_idx)) \<Rightarrow>
             (case hop_move records j h h_hash_idx of
                None \<Rightarrow> None
              | Some rs \<Rightarrow> hop_loop hash_idx k v rs h hopped)))"
  by pat_completeness auto
termination
  by (relation "measure (\<lambda>(hash_idx, k, v, records, j, hopped). nat (j - hash_idx))")
    (auto simp: neighborSize_def dest: hop_source_less)

declare hop_loop.simps [simp del]

text \<open>
  \<open>hopscotch_insert_and_unlock\<close> up to the write of the segment: the new records, the position that was
  empty and the entries written, or \<open>Some None\<close> when the leaf has to be split.
\<close>

definition hopscotch_insert :: "(key \<Rightarrow> u64) \<Rightarrow> LeafEntry list \<Rightarrow> key \<Rightarrow> u64 \<Rightarrow> nat \<Rightarrow>
    (LeafEntry list \<times> nat \<times> nat list) option option" where
  "hopscotch_insert city records k v entry_num =
     (let hash_idx = int (get_hashed_leaf_entry_index city k) in
      case find_empty records hash_idx entry_num of
        None \<Rightarrow> Some None
      | Some empty_idx \<Rightarrow>
          map_option (map_option (\<lambda>(rs, hopped). (rs, slot empty_idx, hopped)))
            (hop_loop hash_idx k v records empty_idx []))"

text \<open>\<open>hopscotch_insert_locally\<close>: no empty entry and no hop are failed assertions.\<close>

definition hopscotch_insert_locally :: "(key \<Rightarrow> u64) \<Rightarrow> LeafEntry list \<Rightarrow> key \<Rightarrow> u64 \<Rightarrow>
    (LeafEntry list \<times> nat) option" where
  "hopscotch_insert_locally city records k v =
     (let hash_idx = int (get_hashed_leaf_entry_index city k) in
      case find_empty records hash_idx leafSpanSize of
        None \<Rightarrow> None
      | Some j \<Rightarrow>
          (case hop_loop hash_idx k v records j [] of
             Some (Some (rs, hopped)) \<Rightarrow> Some (rs, last hopped)
           | _ \<Rightarrow> None))"

section \<open>Searching\<close>

text \<open>
  The part of \<open>leaf_node_search\<close> that looks at the neighbourhood: it finds the value, or rebuilds
  the bitmap of the home and compares it with the stored one.
\<close>

datatype search_result = Found u64 nat | Absent | Re_read

fun search_neighbors :: "(key \<Rightarrow> u64) \<Rightarrow> LeafEntry list \<Rightarrow> nat \<Rightarrow> key \<Rightarrow> nat \<Rightarrow> 8 word \<Rightarrow> search_result" where
  "search_neighbors city records hash_idx k 0 bitmap =
     (if bitmap \<noteq> hop_bitmap (records ! hash_idx) then Re_read else Absent)"
| "search_neighbors city records hash_idx k (Suc n) bitmap =
     (let i = neighborSize - Suc n; pos = (hash_idx + i) mod leafSpanSize; e = records ! pos in
      if ekey e \<noteq> kkeyNull \<and> get_hashed_leaf_entry_index city (ekey e) = hash_idx then
        if ekey e = k then Found (evalue e) pos
        else search_neighbors city records hash_idx k n (bitmap OR hop_mask (int i))
      else search_neighbors city records hash_idx k n bitmap)"

definition leaf_search :: "(key \<Rightarrow> u64) \<Rightarrow> LeafEntry list \<Rightarrow> key \<Rightarrow> search_result" where
  "leaf_search city records k =
     search_neighbors city records (get_hashed_leaf_entry_index city k) k neighborSize 0"

text \<open>The search of \<open>leaf_node_update\<close> for an existing key.\<close>

fun update_position :: "(key \<Rightarrow> u64) \<Rightarrow> LeafEntry list \<Rightarrow> key \<Rightarrow> nat \<Rightarrow> nat option" where
  "update_position city records k 0 = None"
| "update_position city records k (Suc n) =
     (let i = (get_hashed_leaf_entry_index city k + (neighborSize - Suc n)) mod leafSpanSize in
      if ekey (records ! i) = k then Some i else update_position city records k n)"

section \<open>The invariant and the contents\<close>

declare leafSpanSize_def [simp] neighborSize_def [simp]

text \<open>Entry \<open>i\<close> holds a key whose home is \<open>b\<close>.\<close>

definition homed :: "(key \<Rightarrow> u64) \<Rightarrow> LeafEntry list \<Rightarrow> nat \<Rightarrow> nat \<Rightarrow> bool" where
  "homed city rs i b \<longleftrightarrow> ekey (rs ! i) \<noteq> kkeyNull \<and> get_hashed_leaf_entry_index city (ekey (rs ! i)) = b"

definition leaf_ok :: "(key \<Rightarrow> u64) \<Rightarrow> LeafEntry list \<Rightarrow> bool" where
  "leaf_ok city rs \<longleftrightarrow> length rs = leafSpanSize \<and>
     (\<forall>b < leafSpanSize. \<forall>z < neighborSize.
        bit (hop_bitmap (rs ! b)) (neighborSize - z - 1) \<longleftrightarrow> homed city rs ((b + z) mod leafSpanSize) b) \<and>
     (\<forall>i < leafSpanSize. \<forall>b. homed city rs i b \<longrightarrow> (i + leafSpanSize - b) mod leafSpanSize < neighborSize) \<and>
     (\<forall>i < leafSpanSize. \<forall>j < leafSpanSize.
        ekey (rs ! i) = ekey (rs ! j) \<longrightarrow> ekey (rs ! i) \<noteq> kkeyNull \<longrightarrow> i = j)"

definition leaf_map :: "LeafEntry list \<Rightarrow> key \<rightharpoonup> u64" where
  "leaf_map rs = map_of (map (\<lambda>e. (ekey e, evalue e)) (filter (\<lambda>e. ekey e \<noteq> kkeyNull) rs))"

end
