(* ===== verification/Chime_Hop.thy ===== *)
theory Chime_Hop
  imports Chime_Leaf Kv_Store
begin

text \<open>
  Correctness of the hopscotch leaf: an insertion keeps the invariant of the leaf and changes its
  contents at the key alone, a search reports the contents, and a search of a leaf that is caught
  in the middle of an insertion either finds its key or asks for another read.
\<close>

section \<open>Positions and bitmaps\<close>

lemma slot_mod: "slot i = nat (i mod 64)"
  by (simp add: slot_def)

lemma slot_less [simp]: "slot i < 64"
  by (simp add: slot_mod nat_less_iff)

lemma slot_int [simp]: "n < 64 \<Longrightarrow> slot (int n) = n"
  by (simp add: slot_mod)

lemma int_slot: "int (slot i) = i mod 64"
  by (simp add: slot_mod)

lemma slot_inj: "slot i = slot j \<Longrightarrow> \<bar>i - j\<bar> < 64 \<Longrightarrow> i = j"
proof -
  assume "slot i = slot j" and d: "\<bar>i - j\<bar> < 64"
  then have "i mod 64 = j mod 64" using int_slot by metis
  then obtain q where "i - j = 64 * q" by (metis mod_eq_dvd_iff dvdE)
  with d show "i = j" by arith
qed

lemma slot_add: "(slot b + z) mod 64 = slot (b + int z)"
  by (rule int_int_eq [THEN iffD1]) (simp add: int_slot of_nat_mod mod_add_left_eq)

text \<open>The distance from a home to an entry of its neighbourhood.\<close>

lemma offset_cases: "b < 64 \<Longrightarrow> i < 64 \<Longrightarrow> (i + 64 - b) mod 64 = (if b \<le> i then i - b else i + 64 - b)"
  for b i :: nat
  by (auto simp: mod_if)

lemma offset_iff:
  assumes "b < 64" "i < 64" "z < 64"
  shows "(b + z) mod 64 = i \<longleftrightarrow> z = (i + 64 - b) mod (64 :: nat)"
proof -
  have "(b + z) mod 64 = (if b + z < 64 then b + z else b + z - 64)" using assms by (simp add: mod_if)
  then show ?thesis using assms by (auto simp: offset_cases)
qed

lemma offset_slot: "0 \<le> d \<Longrightarrow> d < 64 \<Longrightarrow> (slot (b + d) + 64 - slot b) mod 64 = nat d"
  using offset_iff [of "slot b" "slot (b + d)" "nat d"] slot_add [of b "nat d"] by simp

lemma hop_mask_bit: "z < 8 \<Longrightarrow> w AND hop_mask (int z) = 0 \<longleftrightarrow> \<not> bit w (7 - z)"
proof -
  assume "z < 8"
  then have "nat (8 - int z - 1) = 7 - z" by auto
  then show ?thesis by (simp add: hop_mask_def push_bit_of_1 and_exp_eq_0_iff_not_bit)
qed

lemma bit_or_hop_mask: "z < 8 \<Longrightarrow> n < 8 \<Longrightarrow> bit (w OR hop_mask (int z)) n \<longleftrightarrow> bit w n \<or> n = 7 - z"
proof -
  assume "z < 8" and n: "n < 8"
  then have "nat (8 - int z - 1) = 7 - z" by auto
  with n show ?thesis
    by (auto simp: hop_mask_def push_bit_of_1 bit_or_iff bit_exp_iff)
qed

lemma bit_andnot_hop_mask:
  "z < 8 \<Longrightarrow> n < 8 \<Longrightarrow> bit (w AND NOT (hop_mask (int z))) n \<longleftrightarrow> bit w n \<and> n \<noteq> 7 - z"
proof -
  assume "z < 8" and n: "n < 8"
  then have "nat (8 - int z - 1) = 7 - z" by auto
  with n show ?thesis
    by (auto simp: hop_mask_def push_bit_of_1 bit_and_iff bit_not_iff bit_exp_iff)
qed

section \<open>Reading the invariant\<close>

abbreviation home :: "(key \<Rightarrow> u64) \<Rightarrow> key \<Rightarrow> nat" where
  "home \<equiv> get_hashed_leaf_entry_index"

lemma home_less [simp]: "home city k < 64"
proof -
  have "unat (city k mod 64) < unat (64 :: u64)"
    by (rule unat_mono [OF word_mod_less_divisor]) simp
  then show ?thesis by (simp add: get_hashed_leaf_entry_index_def)
qed

lemma leaf_okD:
  assumes "leaf_ok city rs"
  shows "length rs = 64"
    "b < 64 \<Longrightarrow> z < 8 \<Longrightarrow> bit (hop_bitmap (rs ! b)) (7 - z) \<longleftrightarrow> homed city rs ((b + z) mod 64) b"
    "i < 64 \<Longrightarrow> homed city rs i b \<Longrightarrow> (i + 64 - b) mod 64 < 8"
    "i < 64 \<Longrightarrow> j < 64 \<Longrightarrow> ekey (rs ! i) = ekey (rs ! j) \<Longrightarrow> ekey (rs ! i) \<noteq> kkeyNull \<Longrightarrow> i = j"
  using assms unfolding leaf_ok_def by (simp_all add: diff_diff_add)

lemma leaf_okI:
  assumes "length rs = 64"
    "\<And>b z. b < 64 \<Longrightarrow> z < 8 \<Longrightarrow> bit (hop_bitmap (rs ! b)) (7 - z) \<longleftrightarrow> homed city rs ((b + z) mod 64) b"
    "\<And>i b. i < 64 \<Longrightarrow> homed city rs i b \<Longrightarrow> (i + 64 - b) mod 64 < 8"
    "\<And>i j. i < 64 \<Longrightarrow> j < 64 \<Longrightarrow> ekey (rs ! i) = ekey (rs ! j) \<Longrightarrow> ekey (rs ! i) \<noteq> kkeyNull \<Longrightarrow> i = j"
  shows "leaf_ok city rs"
  using assms unfolding leaf_ok_def by (simp add: diff_diff_add)

lemma homed_home_less: "homed city rs i b \<Longrightarrow> b < 64"
  by (auto simp: homed_def)

lemma leaf_map_iff:
  assumes "leaf_ok city rs"
  shows "leaf_map rs k = Some v \<longleftrightarrow>
    k \<noteq> kkeyNull \<and> (\<exists>i < 64. ekey (rs ! i) = k \<and> evalue (rs ! i) = v)"
proof -
  let ?ps = "map (\<lambda>e. (ekey e, evalue e)) (filter (\<lambda>e. ekey e \<noteq> kkeyNull) rs)"
  have u: "a = b" if "a \<in> set rs" "b \<in> set rs" "ekey a = ekey b" "ekey a \<noteq> kkeyNull" for a b
    using that leaf_okD(1,4) [OF assms] by (metis in_set_conv_nth)
  have in_ps: "(k, v) \<in> set ?ps \<longleftrightarrow> k \<noteq> kkeyNull \<and> (\<exists>i < 64. ekey (rs ! i) = k \<and> evalue (rs ! i) = v)"
    using leaf_okD(1) [OF assms] by (auto simp: in_set_conv_nth)
  have "map_of ?ps k = Some v" if "(k, v) \<in> set ?ps"
  proof -
    from weak_map_of_SomeI [OF that] obtain w where w: "map_of ?ps k = Some w" ..
    then have "(k, w) \<in> set ?ps" by (rule map_of_SomeD)
    with that u have "w = v" by auto
    with w show ?thesis by simp
  qed
  then show ?thesis using in_ps map_of_SomeD [of ?ps k v] unfolding leaf_map_def by blast
qed

lemma map_eqI: "(\<And>k v. f k = Some v \<longleftrightarrow> g k = Some v) \<Longrightarrow> f = g"
  by (rule ext) (metis option.exhaust)

lemma leaf_map_None: "leaf_ok city rs \<Longrightarrow> leaf_map rs k = None \<longleftrightarrow>
    k = kkeyNull \<or> (\<forall>i < 64. ekey (rs ! i) \<noteq> k)"
  using leaf_map_iff [of city rs k] by (metis not_None_eq)


section \<open>Filling and emptying an entry\<close>

text \<open>
  The two changes every operation of the leaf is made of: a key is written to an empty entry and its
  bit set at its home, or an entry is emptied and its bit cleared.
\<close>

definition occupy :: "(key \<Rightarrow> u64) \<Rightarrow> nat \<Rightarrow> key \<Rightarrow> u64 \<Rightarrow> LeafEntry list \<Rightarrow> LeafEntry list" where
  "occupy city i k v rs = (let b = home city k; rs1 = rs[i := entry_update k v (rs ! i)] in
     rs1[b := (rs1 ! b)\<lparr>hop_bitmap := hop_bitmap (rs1 ! b) OR hop_mask (int ((i + 64 - b) mod 64))\<rparr>])"

definition vacate :: "(key \<Rightarrow> u64) \<Rightarrow> nat \<Rightarrow> LeafEntry list \<Rightarrow> LeafEntry list" where
  "vacate city i rs = (let b = home city (ekey (rs ! i)); rs1 = rs[i := entry_update kkeyNull 0 (rs ! i)] in
     rs1[b := (rs1 ! b)\<lparr>hop_bitmap := hop_bitmap (rs1 ! b) AND NOT (hop_mask (int ((i + 64 - b) mod 64)))\<rparr>])"

lemma length_occupy [simp]: "length (occupy city i k v rs) = length rs"
  and length_vacate [simp]: "length (vacate city i rs) = length rs"
  by (simp_all add: occupy_def vacate_def Let_def)

lemma occupy_nth:
  assumes "length rs = 64" "i < 64" "n < 64" "(i + 64 - home city k) mod 64 < 8"
  shows "ekey (occupy city i k v rs ! n) = (if n = i then k else ekey (rs ! n))"
    "evalue (occupy city i k v rs ! n) = (if n = i then v else evalue (rs ! n))"
    "m < 8 \<Longrightarrow> bit (hop_bitmap (occupy city i k v rs ! n)) m \<longleftrightarrow>
       bit (hop_bitmap (rs ! n)) m \<or> n = home city k \<and> m = 7 - (i + 64 - home city k) mod 64"
  using assms by (auto simp: occupy_def Let_def nth_list_update entry_update_def bit_or_hop_mask
      bit_or_hop_mask [of 0, simplified])

lemma vacate_nth:
  assumes "length rs = 64" "i < 64" "n < 64" "(i + 64 - home city (ekey (rs ! i))) mod 64 < 8"
  shows "ekey (vacate city i rs ! n) = (if n = i then kkeyNull else ekey (rs ! n))"
    "evalue (vacate city i rs ! n) = (if n = i then 0 else evalue (rs ! n))"
    "m < 8 \<Longrightarrow> bit (hop_bitmap (vacate city i rs ! n)) m \<longleftrightarrow>
       bit (hop_bitmap (rs ! n)) m \<and>
       \<not> (n = home city (ekey (rs ! i)) \<and> m = 7 - (i + 64 - home city (ekey (rs ! i))) mod 64)"
  using assms by (auto simp: vacate_def Let_def nth_list_update entry_update_def bit_andnot_hop_mask
      bit_andnot_hop_mask [of 0, simplified])

lemma homed_occupy:
  assumes "length rs = 64" "i < 64" "n < 64" "(i + 64 - home city k) mod 64 < 8" "k \<noteq> kkeyNull"
  shows "homed city (occupy city i k v rs) n b \<longleftrightarrow> (if n = i then b = home city k else homed city rs n b)"
  using occupy_nth(1) [OF assms(1-4), of v] assms(5) by (auto simp: homed_def)

lemma homed_vacate:
  assumes "length rs = 64" "i < 64" "n < 64" "(i + 64 - home city (ekey (rs ! i))) mod 64 < 8"
  shows "homed city (vacate city i rs) n b \<longleftrightarrow> n \<noteq> i \<and> homed city rs n b"
  using vacate_nth(1) [OF assms] by (auto simp: homed_def)

lemma offset_eq_iff: "b < 64 \<Longrightarrow> i < 64 \<Longrightarrow> z < 8 \<Longrightarrow> (i + 64 - b) mod 64 < 8 \<Longrightarrow>
    7 - z = 7 - (i + 64 - b) mod 64 \<longleftrightarrow> (b + z) mod 64 = (i :: nat)"
  using offset_iff [of b i z] by auto

lemma occupy_ok:
  assumes ok: "leaf_ok city rs" and i: "i < 64" "ekey (rs ! i) = kkeyNull"
    and near: "(i + 64 - home city k) mod 64 < 8"
    and k: "k \<noteq> kkeyNull" "leaf_map rs k = None"
  shows "leaf_ok city (occupy city i k v rs)"
    and "leaf_map (occupy city i k v rs) = (leaf_map rs)(k \<mapsto> v)"
proof -
  note len = leaf_okD(1) [OF ok]
  note nth = occupy_nth [where v = v, OF len i(1) _ near]
  note hom = homed_occupy [where v = v, OF len i(1) _ near k(1)]
  have new: "ekey (rs ! n) \<noteq> k" if "n < 64" for n
    using leaf_map_None [OF ok] k that by auto
  show ok': "leaf_ok city (occupy city i k v rs)"
  proof (rule leaf_okI)
    fix b z :: nat assume bz: "b < 64" "z < 8"
    have "\<not> homed city rs i b" using i by (simp add: homed_def)
    with bz show "bit (hop_bitmap (occupy city i k v rs ! b)) (7 - z) \<longleftrightarrow>
        homed city (occupy city i k v rs) ((b + z) mod 64) b"
      using leaf_okD(2) [OF ok bz] offset_eq_iff [OF _ i(1) bz(2) near] by (auto simp: nth hom)
  qed (use leaf_okD(1,3,4) [OF ok] near i in \<open>auto simp: nth hom new new [THEN not_sym] split: if_splits\<close>)
  show "leaf_map (occupy city i k v rs) = (leaf_map rs)(k \<mapsto> v)"
  proof (rule map_eqI)
    fix x w
    show "leaf_map (occupy city i k v rs) x = Some w \<longleftrightarrow> ((leaf_map rs)(k \<mapsto> v)) x = Some w"
      using i new k by (auto simp: leaf_map_iff [OF ok'] leaf_map_iff [OF ok] nth cong: conj_cong split: if_splits) metis
  qed
qed

lemma vacate_ok:
  assumes ok: "leaf_ok city rs" and i: "i < 64" "ekey (rs ! i) \<noteq> kkeyNull"
  shows "leaf_ok city (vacate city i rs)"
    and "leaf_map (vacate city i rs) = (leaf_map rs)(ekey (rs ! i) := None)"
proof -
  note len = leaf_okD(1) [OF ok]
  have near: "(i + 64 - home city (ekey (rs ! i))) mod 64 < 8"
    using leaf_okD(3) [OF ok i(1)] i(2) by (simp add: homed_def)
  note nth = vacate_nth [OF len i(1) _ near]
  note hom = homed_vacate [OF len i(1) _ near]
  show ok': "leaf_ok city (vacate city i rs)"
  proof (rule leaf_okI)
    fix b z :: nat assume bz: "b < 64" "z < 8"
    have "homed city rs i b \<longleftrightarrow> b = home city (ekey (rs ! i))" using i by (auto simp: homed_def)
    with bz show "bit (hop_bitmap (vacate city i rs ! b)) (7 - z) \<longleftrightarrow>
        homed city (vacate city i rs) ((b + z) mod 64) b"
      using leaf_okD(2) [OF ok bz] offset_eq_iff [OF _ i(1) bz(2) near] by (auto simp: nth hom)
  qed (use leaf_okD(1,3,4) [OF ok] near i in \<open>auto simp: nth hom split: if_splits\<close>)
  show "leaf_map (vacate city i rs) = (leaf_map rs)(ekey (rs ! i) := None)"
  proof (rule map_eqI)
    fix x w
    show "leaf_map (vacate city i rs) x = Some w \<longleftrightarrow> ((leaf_map rs)(ekey (rs ! i) := None)) x = Some w"
      using i leaf_okD(4) [OF ok _ i(1)]
      by (auto simp: leaf_map_iff [OF ok'] leaf_map_iff [OF ok] nth cong: conj_cong split: if_splits) metis
  qed
qed

section \<open>Choosing the entry that hops\<close>

text \<open>Entry \<open>h\<close> may hop to \<open>j\<close>: it belongs to the home \<open>z\<close> entries before it, which still covers \<open>j\<close>.\<close>

definition may_hop :: "LeafEntry list \<Rightarrow> int \<Rightarrow> int \<Rightarrow> nat \<Rightarrow> bool" where
  "may_hop rs j h z \<longleftrightarrow> z < 8 \<and> j < h - int z + 8 \<and> bit (hop_bitmap (get_entry rs (h - int z))) (7 - z)"

lemma h_home_eq: "- 57 \<le> h \<Longrightarrow> h < 128 \<Longrightarrow> z < 8 \<Longrightarrow> h_home h (int z) = h - int z"
proof -
  assume h: "- 57 \<le> h" "h < 128" and z: "z < 8"
  let ?x = "h - int z"
  have "(?x + 64) mod 64 = (if ?x < 0 then ?x + 64 else if ?x < 64 then ?x else ?x - 64)"
  proof -
    consider "?x < 0" | "0 \<le> ?x" "?x < 64" | "64 \<le> ?x" by arith
    then show ?thesis
    proof cases
      case 1
      then have "(?x + 64) mod 64 = ?x + 64" using h z by (intro mod_pos_pos_trivial) auto
      with 1 show ?thesis by simp
    next
      case 3
      then have "(?x - 64) mod 64 = ?x - 64" using h z by (intro mod_pos_pos_trivial) auto
      with 3 show ?thesis by (simp add: minus_mod_self2)
    qed simp
  qed
  then show ?thesis using z by (auto simp: h_home_def Let_def)
qed

lemma find_home_cases:
  assumes "- 57 \<le> h" "h < 128" "n \<le> 8"
  shows "(find_home rs h j n = Some (- 1) \<and> (\<forall>z < n. \<not> may_hop rs j h z)) \<or>
    (\<exists>z < n. find_home rs h j n = Some (h - int z) \<and> may_hop rs j h z)"
  using assms
proof (induction n)
  case (Suc z)
  then have "h_home h (int z) = h - int z" by (simp add: h_home_eq)
  then have "find_home rs h j (Suc z) = (if may_hop rs j h z then Some (h - int z) else find_home rs h j z)"
    using Suc.prems hop_mask_bit [of z] by (simp add: may_hop_def Let_def)
  then show ?case using Suc by (auto simp: less_Suc_eq)
qed simp

lemma hop_source_cases:
  assumes "8 \<le> j" "j < 128" "n < 8"
  shows "(hop_source rs j n = Some None \<and> (\<forall>h z. j - int n \<le> h \<and> h < j \<longrightarrow> \<not> may_hop rs j h z)) \<or>
    (\<exists>h z. hop_source rs j n = Some (Some (h, h - int z)) \<and> j - int n \<le> h \<and> h < j \<and> may_hop rs j h z \<and>
       (\<forall>h' z'. j - int n \<le> h' \<and> h' < h \<longrightarrow> \<not> may_hop rs j h' z'))"
  using assms
proof (induction n)
  case (Suc n)
  let ?h = "j - int (Suc n)"
  have eq: "hop_source rs j (Suc n) = (case find_home rs ?h j 8 of None \<Rightarrow> None
      | Some b \<Rightarrow> if b < 0 then hop_source rs j n else Some (Some (?h, b)))"
    by (simp only: hop_source.simps Let_def neighborSize_def)
  consider "find_home rs ?h j 8 = Some (- 1)" "\<forall>z < 8. \<not> may_hop rs j ?h z"
    | z where "find_home rs ?h j 8 = Some (?h - int z)" "may_hop rs j ?h z"
    using find_home_cases [of ?h 8 rs j] Suc.prems by auto
  then show ?case
  proof cases
    case 1
    then have none: "\<not> may_hop rs j ?h z" for z by (auto simp: may_hop_def)
    have "h = ?h \<or> j - int n \<le> h" if "j - int (Suc n) \<le> h" for h :: int using that by auto
    moreover have "hop_source rs j (Suc n) = hop_source rs j n" using 1 eq by simp
    ultimately show ?thesis using Suc none by (smt (verit) Suc_lessD of_nat_Suc)
  next
    case 2
    then have "0 \<le> ?h - int z" using Suc.prems by (simp add: may_hop_def)
    then have "hop_source rs j (Suc n) = Some (Some (?h, ?h - int z))" using 2 eq by simp
    with 2 show ?thesis by (intro disjI2 exI [of _ ?h] exI [of _ z]) auto
  qed
qed auto

section \<open>Moving the hole\<close>

text \<open>The leaf with its hole emptied: what the array stands for while entries hop.\<close>

definition clear :: "nat \<Rightarrow> LeafEntry list \<Rightarrow> LeafEntry list" where
  "clear i rs = rs[i := entry_update kkeyNull 0 (rs ! i)]"

lemma length_clear [simp]: "length (clear i rs) = length rs"
  by (simp add: clear_def)

lemma clear_nth:
  assumes "length rs = 64" "n < 64"
  shows "ekey (clear i rs ! n) = (if n = i then kkeyNull else ekey (rs ! n))"
    "evalue (clear i rs ! n) = (if n = i then 0 else evalue (rs ! n))"
    "hop_bitmap (clear i rs ! n) = hop_bitmap (rs ! n)"
  using assms by (cases "n = i"; simp add: clear_def entry_update_def)+

lemma homed_clear: "length rs = 64 \<Longrightarrow> n < 64 \<Longrightarrow> homed city (clear i rs) n b \<longleftrightarrow> n \<noteq> i \<and> homed city rs n b"
  by (auto simp: homed_def clear_nth)

lemma clear_empty:
  assumes "leaf_ok city rs" "i < 64" "ekey (rs ! i) = kkeyNull"
  shows "leaf_ok city (clear i rs)" "leaf_map (clear i rs) = leaf_map rs"
proof -
  note len = leaf_okD(1) [OF assms(1)]
  have key: "ekey (clear i rs ! n) = ekey (rs ! n)" if "n < 64" for n
    using that len assms(3) by (auto simp: clear_nth)
  have hom: "homed city (clear i rs) n b \<longleftrightarrow> homed city rs n b" if "n < 64" for n b
    using that key by (auto simp: homed_def)
  show ok: "leaf_ok city (clear i rs)"
    by (rule leaf_okI) (use leaf_okD [OF assms(1)] in \<open>auto simp: clear_nth(3) hom key\<close>)
  show "leaf_map (clear i rs) = leaf_map rs"
  proof (rule map_eqI)
    fix k v show "leaf_map (clear i rs) k = Some v \<longleftrightarrow> leaf_map rs k = Some v"
      using assms(3) by (auto simp: leaf_map_iff [OF ok] leaf_map_iff [OF assms(1)] key clear_nth [OF len]
          cong: conj_cong)
  qed
qed

lemma on_entry_set:
  assumes "0 \<le> d" "d < 8" "\<not> bit (hop_bitmap (get_entry rs b)) (7 - nat d)"
  shows "on_entry b (set_hop_bit d) rs = Some (rs[slot b := (get_entry rs b)\<lparr>hop_bitmap :=
    hop_bitmap (get_entry rs b) OR hop_mask d\<rparr>])"
  using assms hop_mask_bit [of "nat d"] by (simp add: on_entry_def set_hop_bit_def)

lemma on_entry_unset:
  assumes "0 \<le> d" "d < 8" "bit (hop_bitmap (get_entry rs b)) (7 - nat d)"
  shows "on_entry b (unset_hop_bit d) rs = Some (rs[slot b := (get_entry rs b)\<lparr>hop_bitmap :=
    hop_bitmap (get_entry rs b) AND NOT (hop_mask d)\<rparr>])"
  using assms hop_mask_bit [of "nat d"] by (simp add: on_entry_def unset_hop_bit_def)

text \<open>An entry that may hop holds a key of the home its bit is found at.\<close>

lemma may_hop_homed:
  assumes "length rs = 64" "leaf_ok city (clear (slot j) rs)" "may_hop rs j h z"
  shows "homed city (clear (slot j) rs) (slot h) (slot (h - int z))"
  using leaf_okD(2) [OF assms(2), of "slot (h - int z)" z] slot_add [of "h - int z" z] assms(3)
  by (simp add: may_hop_def get_entry_def clear_nth(3) [OF assms(1)])

lemma hop_lists:
  fixes rs :: "LeafEntry list" and x :: key and v :: u64 and m m' :: "8 word"
  assumes "length rs = 64" "sh < 64" "sb < 64" "sj < 64" "sh \<noteq> sj" "sb \<noteq> sj"
  defines "r1 \<equiv> rs[sj := entry_update x v (rs ! sj)]"
  defines "r2 \<equiv> r1[sb := (r1 ! sb)\<lparr>hop_bitmap := hop_bitmap (r1 ! sb) AND NOT m\<rparr>]"
  defines "c1 \<equiv> (clear sj rs)[sh := entry_update kkeyNull 0 (clear sj rs ! sh)]"
  defines "c2 \<equiv> c1[sb := (c1 ! sb)\<lparr>hop_bitmap := hop_bitmap (c1 ! sb) AND NOT m\<rparr>]"
  defines "c3 \<equiv> c2[sj := entry_update x v (c2 ! sj)]"
  shows "clear sh (r2[sb := (r2 ! sb)\<lparr>hop_bitmap := hop_bitmap (r2 ! sb) OR m'\<rparr>]) =
    c3[sb := (c3 ! sb)\<lparr>hop_bitmap := hop_bitmap (c3 ! sb) OR m'\<rparr>]"
proof (rule nth_equalityI)
  fix n assume "n < length (clear sh (r2[sb := (r2 ! sb)\<lparr>hop_bitmap := hop_bitmap (r2 ! sb) OR m'\<rparr>]))"
  then have "n < 64" using assms by (simp add: r1_def r2_def)
  consider "n = sj" | "n = sh" "n = sb" | "n = sh" "n \<noteq> sb" | "n = sb" "n \<noteq> sh"
    | "n \<noteq> sj" "n \<noteq> sh" "n \<noteq> sb" by blast
  then show "clear sh (r2[sb := (r2 ! sb)\<lparr>hop_bitmap := hop_bitmap (r2 ! sb) OR m'\<rparr>]) ! n =
      c3[sb := (c3 ! sb)\<lparr>hop_bitmap := hop_bitmap (c3 ! sb) OR m'\<rparr>] ! n"
    using assms(1-6) assms(5,6) [symmetric] \<open>n < 64\<close>
    by cases (simp_all add: r1_def r2_def c1_def c2_def c3_def clear_def entry_update_def nth_list_update)
qed (simp add: r1_def r2_def c1_def c2_def c3_def)

text \<open>A hop fills the hole with the key of \<open>h\<close> and leaves the hole at \<open>h\<close>.\<close>

lemma hop_move_step:
  assumes len: "length rs = 64" and ok: "leaf_ok city (clear (slot j) rs)"
    and hop: "may_hop rs j h z" and h: "h < j"
  obtains rs' where "hop_move rs j h (h - int z) = Some rs'" "length rs' = 64"
    "clear (slot h) rs' = occupy city (slot j) (ekey (rs ! slot h)) (evalue (rs ! slot h))
       (vacate city (slot h) (clear (slot j) rs))"
proof -
  let ?b = "h - int z" and ?c = "clear (slot j) rs"
  let ?x = "ekey (rs ! slot h)"
  have z: "z < 8" and jb: "j < ?b + 8" and bit: "bit (hop_bitmap (rs ! slot ?b)) (7 - z)"
    using hop by (auto simp: may_hop_def get_entry_def)
  have ne: "slot h \<noteq> slot j" "slot ?b \<noteq> slot j"
    using slot_inj [of h j] slot_inj [of ?b j] z jb h by auto
  have x: "home city ?x = slot ?b"
    using may_hop_homed [OF len ok hop] ne by (auto simp: homed_def clear_nth [OF len])
  have hz: "(slot h + 64 - slot ?b) mod 64 = z"
    using offset_slot [of "int z" ?b] z by simp
  have jz: "(slot j + 64 - slot ?b) mod 64 = nat (j - ?b)"
    using offset_slot [of "j - ?b" ?b] h jb by simp
  have nbit: "\<not> bit (hop_bitmap (rs ! slot ?b)) (7 - nat (j - ?b))"
    using leaf_okD(2) [OF ok, of "slot ?b" "nat (j - ?b)"] slot_add [of ?b "nat (j - ?b)"] h jb
    by (simp add: clear_nth [OF len] homed_def)
  let ?r1 = "rs[slot j := entry_update ?x (evalue (rs ! slot h)) (rs ! slot j)]"
  let ?r2 = "?r1[slot ?b := (?r1 ! slot ?b)\<lparr>hop_bitmap := hop_bitmap (?r1 ! slot ?b) AND NOT (hop_mask (int z))\<rparr>]"
  let ?r3 = "?r2[slot ?b := (?r2 ! slot ?b)\<lparr>hop_bitmap := hop_bitmap (?r2 ! slot ?b) OR hop_mask (j - ?b)\<rparr>]"
  have r1: "?r1 ! slot ?b = rs ! slot ?b" using ne by (metis nth_list_update_neq)
  have "on_entry ?b (unset_hop_bit (int z)) ?r1 = Some ?r2"
    using on_entry_unset [of "int z" ?r1 ?b] z bit r1 by (simp add: get_entry_def)
  moreover have "on_entry ?b (set_hop_bit (j - ?b)) ?r2 = Some ?r3"
  proof -
    have "?r2 ! slot ?b = (rs ! slot ?b)\<lparr>hop_bitmap := hop_bitmap (rs ! slot ?b) AND NOT (hop_mask (int z))\<rparr>"
      using len r1 by simp
    then show ?thesis
      using on_entry_set [of "j - ?b" ?r2 ?b] h jb nbit z
      by (simp add: get_entry_def bit_andnot_hop_mask)
  qed
  ultimately have mv: "hop_move rs j h ?b = Some ?r3"
    by (simp add: hop_move_def get_entry_def Let_def)
  have cx: "ekey (?c ! slot h) = ?x" using ne len by (simp add: clear_nth)
  have d: "int (nat (j - ?b)) = j - ?b" using h jb by simp
  have "clear (slot h) ?r3 = occupy city (slot j) ?x (evalue (rs ! slot h)) (vacate city (slot h) ?c)"
    unfolding occupy_def vacate_def cx x hz jz d Let_def
    by (rule hop_lists) (use ne len in simp_all)
  with mv that len show ?thesis by simp
qed

section \<open>A leaf in the middle of an insertion\<close>

text \<open>
  How the entries of a leaf move during one insertion into the home \<open>hash\<close>: a key that has moved
  from \<open>i\<close> to \<open>i'\<close> leaves no key of its home at \<open>i\<close> and found none at \<open>i'\<close>, so at most one key
  of every home moves; \<open>far\<close> says that the hole \<open>j\<close> has passed the keys of its home.
\<close>

definition key_at :: "LeafEntry list \<Rightarrow> nat \<Rightarrow> key \<Rightarrow> bool" where
  "key_at rs i x \<longleftrightarrow> i < 64 \<and> ekey (rs ! i) = x \<and> x \<noteq> kkeyNull"

definition moved :: "LeafEntry list \<Rightarrow> LeafEntry list \<Rightarrow> key \<Rightarrow> nat \<Rightarrow> nat \<Rightarrow> bool" where
  "moved rs0 rs x i i' \<longleftrightarrow> key_at rs0 i x \<and> key_at rs i' x \<and> i \<noteq> i'"

definition apart :: "(key \<Rightarrow> u64) \<Rightarrow> LeafEntry list \<Rightarrow> LeafEntry list \<Rightarrow> bool" where
  "apart city rs0 rs \<longleftrightarrow> (\<forall>x i i'. moved rs0 rs x i i' \<longrightarrow>
     \<not> homed city rs0 i' (home city x) \<and> \<not> homed city rs i (home city x))"

definition passed :: "(key \<Rightarrow> u64) \<Rightarrow> int \<Rightarrow> LeafEntry list \<Rightarrow> int \<Rightarrow> nat \<Rightarrow> bool" where
  "passed city hash rs j b \<longleftrightarrow> b \<noteq> slot hash \<and>
     (\<forall>p. hash + (int b - hash) mod 64 \<le> p \<and> p < j \<longrightarrow> \<not> homed city rs (slot p) b)"

definition hopping :: "(key \<Rightarrow> u64) \<Rightarrow> int \<Rightarrow> LeafEntry list \<Rightarrow> LeafEntry list \<Rightarrow> int \<Rightarrow> bool" where
  "hopping city hash rs0 rs j \<longleftrightarrow> apart city rs0 rs \<and>
     (\<forall>x i i'. moved rs0 rs x i i' \<longrightarrow> passed city hash rs j (home city x)) \<and>
     (\<forall>b. (\<forall>x i i'. moved rs0 rs x i i' \<longrightarrow> home city x \<noteq> b) \<longrightarrow>
        (\<forall>i < 64. homed city rs0 i b \<longleftrightarrow> homed city rs i b))"

lemma hopping_refl: "leaf_ok city rs \<Longrightarrow> hopping city hash rs rs j"
  using leaf_okD(4) [of city rs] by (auto simp: hopping_def apart_def moved_def key_at_def)

text \<open>Keys of the same home are never hopped over: the farthest one is taken first.\<close>

lemma none_below:
  assumes len: "length rs = 64" and ok: "leaf_ok city (clear (slot j) rs)"
    and hop: "may_hop rs j h z" and h: "h < j"
    and first: "\<And>h' z'. j - 7 \<le> h' \<Longrightarrow> h' < h \<Longrightarrow> \<not> may_hop rs j h' z'"
    and p: "h - int z \<le> p" "p < h"
  shows "\<not> homed city (clear (slot j) rs) (slot p) (slot (h - int z))"
proof
  let ?b = "h - int z" and ?z = "nat (p - (h - int z))"
  assume "homed city (clear (slot j) rs) (slot p) (slot ?b)"
  moreover have "z < 8" "j < ?b + 8" using hop by (auto simp: may_hop_def)
  moreover have "slot (?b + int ?z) = slot p" using p by simp
  ultimately have "bit (hop_bitmap (rs ! slot ?b)) (7 - ?z)"
    using leaf_okD(2) [OF ok, of "slot ?b" ?z] slot_add [of ?b ?z] p by (simp add: clear_nth(3) [OF len])
  then have "may_hop rs j p ?z"
    using p \<open>z < 8\<close> \<open>j < ?b + 8\<close> h by (auto simp: may_hop_def get_entry_def)
  then show False using first [of p ?z] p \<open>j < ?b + 8\<close> by simp
qed

lemma logical_home: "hash \<le> b \<Longrightarrow> b < hash + 64 \<Longrightarrow> hash + (int (slot b) - hash) mod 64 = b"
  for hash b :: int
  by (simp add: int_slot mod_diff_left_eq)

lemma key_at_in_map: "leaf_ok city rs \<Longrightarrow> (\<exists>i. key_at rs i x) \<longleftrightarrow> leaf_map rs x \<noteq> None"
  using leaf_map_None [of city rs x] by (auto simp: key_at_def)

lemma homed_key_at: "i < 64 \<Longrightarrow> homed city rs i b \<longleftrightarrow> (\<exists>x. key_at rs i x \<and> home city x = b)"
  by (auto simp: homed_def key_at_def)

lemma hopping_step:
  fixes v :: u64
  assumes len: "length rs = 64" and ok0: "leaf_ok city rs0" and ok: "leaf_ok city (clear (slot j) rs)"
    and map: "leaf_map (clear (slot j) rs) = leaf_map rs0"
    and rel: "hopping city hash rs0 (clear (slot j) rs) j"
    and hop: "may_hop rs j h z" and first: "\<And>h' z'. j - 7 \<le> h' \<Longrightarrow> h' < h \<Longrightarrow> \<not> may_hop rs j h' z'"
    and j: "hash + 8 \<le> j" "j < hash + 64" "j - 7 \<le> h" "h < j"
  defines "y \<equiv> ekey (rs ! slot h)"
  defines "c' \<equiv> occupy city (slot j) y v (vacate city (slot h) (clear (slot j) rs))"
  shows "hopping city hash rs0 c' h"
proof -
  let ?c = "clear (slot j) rs" and ?b = "h - int z"
  have z: "z < 8" "j < ?b + 8" using hop by (auto simp: may_hop_def)
  have ne: "slot h \<noteq> slot j" using slot_inj [of h j] j by auto
  have y: "key_at ?c (slot h) y" and hy: "home city y = slot ?b"
    using may_hop_homed [OF len ok hop] ne by (auto simp: homed_def key_at_def clear_nth [OF len] y_def)
  have near_h: "(slot h + 64 - home city (ekey (?c ! slot h))) mod 64 < 8"
    using leaf_okD(3) [OF ok, of "slot h"] may_hop_homed [OF len ok hop] by (simp add: homed_def)
  have near_j: "(slot j + 64 - home city y) mod 64 < 8"
    using offset_slot [of "j - ?b" ?b] hy z j by simp
  have key': "key_at c' n x \<longleftrightarrow> (if n = slot j then x = y else n \<noteq> slot h \<and> key_at ?c n x)" for n x
    using occupy_nth(1) [where v = v, of "vacate city (slot h) ?c", OF _ _ _ near_j, of n]
      vacate_nth(1) [OF _ _ _ near_h, of n] len y
    by (auto simp: key_at_def c'_def)
  have hom': "homed city c' n b \<longleftrightarrow> (if n = slot j then b = slot ?b else n \<noteq> slot h \<and> homed city ?c n b)"
    if "n < 64" for n b
    using that hy by (auto simp: homed_key_at key')
  have y_still: "home city x \<noteq> slot ?b" if "moved rs0 ?c x i i'" for x i i'
  proof
    assume "home city x = slot ?b"
    then have "passed city hash ?c j (slot ?b)" using rel that unfolding hopping_def by metis
    moreover have "hash + (int (slot ?b) - hash) mod 64 \<le> h" "h < j"
      using logical_home [of hash ?b] z j by auto
    ultimately have "\<not> homed city ?c (slot h) (slot ?b)" unfolding passed_def by blast
    then show False using may_hop_homed [OF len ok hop] by simp
  qed
  have same_b: "homed city rs0 i (slot ?b) \<longleftrightarrow> homed city ?c i (slot ?b)" if "i < 64" for i
    using rel y_still that unfolding hopping_def by metis
  have y0: "key_at rs0 i y \<longleftrightarrow> i = slot h" for i
  proof -
    obtain i0 where i0: "key_at rs0 i0 y" using key_at_in_map [OF ok0] key_at_in_map [OF ok] map y by metis
    then have "i0 = slot h" using y_still [of y i0 "slot h"] y hy unfolding moved_def by metis
    with i0 show ?thesis using leaf_okD(4) [OF ok0] by (auto simp: key_at_def)
  qed
  have y1: "key_at ?c n y \<longleftrightarrow> n = slot h" for n
    using y leaf_okD(4) [OF ok, of "slot h" n] unfolding key_at_def by metis
  have h1: "x = y" if "key_at ?c (slot h) x" for x using y that by (simp add: key_at_def)
  have empty_j: "\<not> key_at ?c (slot j) x" for x by (simp add: key_at_def clear_nth [OF len])
  have moved': "moved rs0 c' x i i' \<longleftrightarrow> x = y \<and> i = slot h \<and> i' = slot j \<or> x \<noteq> y \<and> moved rs0 ?c x i i'" for x i i'
    using ne empty_j h1 by (auto simp: moved_def key' y0 y1 split: if_splits)
  have far: "passed city hash c' h (slot ?b)"
  proof -
    have "\<not> homed city c' (slot p) (slot ?b)" if "?b \<le> p" "p < h" for p
      using none_below [OF len ok hop j(4) first that] that slot_inj [of p j] z j by (auto simp: hom')
    moreover have "slot ?b \<noteq> slot hash" using slot_inj [of ?b hash] z j by auto
    ultimately show ?thesis using logical_home [of hash ?b] z j by (auto simp: passed_def)
  qed
  have "apart city rs0 c'"
    unfolding apart_def
  proof (intro allI impI)
    fix x i i' assume m: "moved rs0 c' x i i'"
    show "\<not> homed city rs0 i' (home city x) \<and> \<not> homed city c' i (home city x)"
    proof (cases "x = y")
      case True
      then have "i = slot h" "i' = slot j" using m moved' by auto
      then show ?thesis
        using True same_b [of "slot j"] hy ne by (simp add: hom' homed_clear [OF len])
    next
      case False
      then have old: "moved rs0 ?c x i i'" using m moved' by auto
      then have "i < 64" "i' < 64" by (auto simp: moved_def key_at_def)
      moreover have "\<not> homed city rs0 i' (home city x) \<and> \<not> homed city ?c i (home city x)"
        using rel old unfolding hopping_def apart_def by blast
      ultimately show ?thesis using y_still [OF old] by (auto simp: hom')
    qed
  qed
  moreover have "passed city hash c' h (home city x)" if m: "moved rs0 c' x i i'" for x i i'
  proof (cases "x = y")
    case False
    then have old: "moved rs0 ?c x i i'" using m moved' by auto
    then have "passed city hash ?c j (home city x)" using rel unfolding hopping_def by blast
    moreover have "slot p \<noteq> slot j" if "hash \<le> p" "p < h" for p
      using slot_inj [of p j] that j by auto
    moreover have "hash \<le> hash + (int (home city x) - hash) mod 64" by simp
    ultimately show ?thesis
      unfolding passed_def using j(4) by (smt (verit) hom' slot_less)
  qed (use far hy in simp)
  moreover have "homed city rs0 i b \<longleftrightarrow> homed city c' i b"
    if free: "\<forall>x i i'. moved rs0 c' x i i' \<longrightarrow> home city x \<noteq> b" and i: "i < 64" for b i
  proof -
    have b: "b \<noteq> slot ?b" using free moved' hy by metis
    have "home city x \<noteq> b" if "moved rs0 ?c x i i'" for x i i'
      using free moved' that b hy by metis
    then have "homed city rs0 i b \<longleftrightarrow> homed city ?c i b" using rel i unfolding hopping_def by metis
    moreover have "\<not> homed city ?c (slot h) b" using y b hy by (auto simp: homed_def key_at_def)
    ultimately show ?thesis using b i by (auto simp: hom' homed_clear [OF len])
  qed
  ultimately show ?thesis unfolding hopping_def by blast
qed

lemma hop_keeps:
  assumes len: "length rs = 64" and ok: "leaf_ok city (clear (slot j) rs)"
    and hop: "may_hop rs j h z" and h: "h < j"
  defines "c \<equiv> clear (slot j) rs"
  shows "leaf_ok city (occupy city (slot j) (ekey (rs ! slot h)) (evalue (rs ! slot h)) (vacate city (slot h) c))"
    and "leaf_map (occupy city (slot j) (ekey (rs ! slot h)) (evalue (rs ! slot h)) (vacate city (slot h) c)) = leaf_map c"
proof -
  let ?x = "ekey (rs ! slot h)" and ?w = "evalue (rs ! slot h)" and ?b = "h - int z" and ?v = "vacate city (slot h) c"
  have okc: "leaf_ok city c" using ok by (simp add: c_def)
  have z: "z < 8" "j < ?b + 8" using hop by (auto simp: may_hop_def)
  have ne: "slot h \<noteq> slot j" using slot_inj [of h j] h z by auto
  have x: "ekey (c ! slot h) = ?x" "evalue (c ! slot h) = ?w" using ne len by (simp_all add: c_def clear_nth)
  have hx: "?x \<noteq> kkeyNull" "home city ?x = slot ?b"
    using may_hop_homed [OF len ok hop] x by (auto simp: homed_def c_def)
  have near: "(slot j + 64 - home city ?x) mod 64 < 8" using offset_slot [of "j - ?b" ?b] hx z h by simp
  have near_h: "(slot h + 64 - home city (ekey (c ! slot h))) mod 64 < 8"
    using leaf_okD(3) [OF okc, of "slot h" "slot ?b"] x hx by (simp add: homed_def)
  note v = vacate_ok [OF okc slot_less, of h, unfolded x, OF hx(1)]
  have "ekey (?v ! slot j) = kkeyNull"
    using vacate_nth(1) [OF _ slot_less slot_less near_h, of j] len ne by (simp add: c_def clear_nth)
  moreover have "leaf_map ?v ?x = None" using v(2) by simp
  ultimately show "leaf_ok city (occupy city (slot j) ?x ?w ?v)" "leaf_map (occupy city (slot j) ?x ?w ?v) = leaf_map c"
    using occupy_ok [OF v(1) slot_less _ near hx(1)] v(2) leaf_map_iff [OF okc, of ?x ?w] x hx(1)
    by (auto simp: fun_upd_idem intro: exI [of _ "slot h"])
qed

section \<open>The insertion\<close>

lemma place_key:
  assumes len: "length rs = 64" and ok: "leaf_ok city (clear (slot j) rs)"
    and hash: "hash = int (home city k)" and j: "hash \<le> j" "j < hash + 8"
  shows "on_entry hash (set_hop_bit (j - hash)) (rs[slot j := entry_update k v (get_entry rs j)]) =
    Some (occupy city (slot j) k v (clear (slot j) rs))"
proof -
  let ?c = "clear (slot j) rs" and ?r = "rs[slot j := entry_update k v (rs ! slot j)]"
  have r: "?r = ?c[slot j := entry_update k v (?c ! slot j)]"
    using len by (simp add: clear_def entry_update_def)
  have sh: "slot hash = home city k" using hash by simp
  have d: "(slot j + 64 - home city k) mod 64 = nat (j - hash)" "int (nat (j - hash)) = j - hash"
    using offset_slot [of "j - hash" hash] j sh by simp_all
  have "hop_bitmap (?r ! slot hash) = hop_bitmap (?c ! slot hash)"
    using len by (cases "slot hash = slot j") (simp_all add: clear_def entry_update_def)
  moreover have "\<not> bit (hop_bitmap (?c ! slot hash)) (7 - nat (j - hash))"
    using leaf_okD(2) [OF ok, of "slot hash" "nat (j - hash)"] slot_add [of hash "nat (j - hash)"] j
    by (simp add: homed_clear [OF len])
  ultimately have "on_entry hash (set_hop_bit (j - hash)) ?r = Some (?r[slot hash := (?r ! slot hash)\<lparr>hop_bitmap :=
      hop_bitmap (?r ! slot hash) OR hop_mask (j - hash)\<rparr>])"
    using on_entry_set [of "j - hash" ?r hash] j by (simp add: get_entry_def)
  then show ?thesis by (simp only: get_entry_def occupy_def Let_def d sh r)
qed

lemma hopping_place:
  assumes len: "length rs = 64" and ok0: "leaf_ok city rs0" and k: "k \<noteq> kkeyNull" "leaf_map rs0 k = None"
    and rel: "hopping city hash rs0 (clear (slot j) rs) j"
    and hash: "hash = int (home city k)" and j: "hash \<le> j" "j < hash + 8"
  shows "apart city rs0 (occupy city (slot j) k v (clear (slot j) rs))"
  unfolding apart_def
proof (intro allI impI)
  let ?c = "clear (slot j) rs" and ?f = "occupy city (slot j) k v (clear (slot j) rs)"
  fix x i i' assume m: "moved rs0 ?f x i i'"
  have near: "(slot j + 64 - home city k) mod 64 < 8"
    using offset_slot [of "j - hash" hash] j hash by simp
  have new: "\<not> key_at rs0 n k" for n using key_at_in_map [OF ok0] k by blast
  note nth = occupy_nth(1) [where v = v, OF _ _ _ near, of ?c] and hom = homed_occupy [where v = v, OF _ _ _ near k(1), of ?c]
  have old: "moved rs0 ?c x i i'" and lt: "i < 64" "i' < 64"
    using m new nth len by (auto simp: moved_def key_at_def split: if_splits)
  then have "passed city hash ?c j (home city x)" "\<not> homed city rs0 i' (home city x)" "\<not> homed city ?c i (home city x)"
    using rel unfolding hopping_def apart_def by blast+
  then show "\<not> homed city rs0 i' (home city x) \<and> \<not> homed city ?f i (home city x)"
    using lt hom [of i] len hash by (auto simp: passed_def)
qed

lemma hop_loop_ok:
  assumes "length rs = 64" "leaf_ok city rs0" "leaf_ok city (clear (slot j) rs)"
    "leaf_map (clear (slot j) rs) = leaf_map rs0" "hopping city hash rs0 (clear (slot j) rs) j"
    "k \<noteq> kkeyNull" "leaf_map rs0 k = None" "hash = int (home city k)" "hash \<le> j" "j < hash + 64"
  shows "hop_loop hash k v rs j hopped = Some None \<or>
    (\<exists>rs' hopped'. hop_loop hash k v rs j hopped = Some (Some (rs', hopped')) \<and>
       leaf_ok city rs' \<and> leaf_map rs' = (leaf_map rs0)(k \<mapsto> v) \<and> apart city rs0 rs')"
  using assms
proof (induction hash k v rs j hopped rule: hop_loop.induct)
  case (1 hash k v rs j hopped)
  let ?c = "clear (slot j) rs"
  have j: "0 \<le> hash" "hash < 64" using 1 by simp_all
  show ?case
  proof (cases "j < hash + 8")
    case True
    have "on_entry hash (set_hop_bit (j - hash)) (rs[slot j := entry_update k v (get_entry rs j)]) =
        Some (occupy city (slot j) k v ?c)"
      using place_key [of rs city j hash k v] 1 True by blast
    moreover have "leaf_ok city (occupy city (slot j) k v ?c) \<and>
        leaf_map (occupy city (slot j) k v ?c) = (leaf_map rs0)(k \<mapsto> v)"
      using occupy_ok [of city ?c "slot j" k v] 1 True offset_slot [of "j - hash" hash]
      by (simp add: clear_nth)
    ultimately show ?thesis
      using hopping_place [of rs city rs0 k hash j v] 1 True
      by (subst (1 2) hop_loop.simps) (simp add: Let_def)
  next
    case False
    consider "hop_source rs j 7 = Some None"
      | h z where "hop_source rs j 7 = Some (Some (h, h - int z))" "j - 7 \<le> h" "h < j" "may_hop rs j h z"
          "\<forall>h' z'. j - 7 \<le> h' \<and> h' < h \<longrightarrow> \<not> may_hop rs j h' z'"
      using hop_source_cases [of j 7 rs] False 1 j by auto
    then show ?thesis
    proof cases
      case 1
      with False show ?thesis by (subst (1 2) hop_loop.simps) (simp add: Let_def)
    next
      case (2 h z)
      obtain rs' where mv: "hop_move rs j h (h - int z) = Some rs'" "length rs' = 64"
        and c': "clear (slot h) rs' = occupy city (slot j) (ekey (rs ! slot h)) (evalue (rs ! slot h))
          (vacate city (slot h) ?c)"
        using hop_move_step [of rs city j h z] 1 2 by blast
      have eq: "hop_loop hash k v rs j hopped = hop_loop hash k v rs' h (hopped @ [slot j])"
        using False 2 mv by (subst hop_loop.simps) (simp add: Let_def)
      have ok': "leaf_ok city (clear (slot h) rs') \<and> leaf_map (clear (slot h) rs') = leaf_map rs0"
        using hop_keeps [of rs city j h z] 1 2 unfolding c' by metis
      have "hopping city hash rs0 (clear (slot h) rs') h"
        using hopping_step [of rs city rs0 j hash h z] 1 2 False unfolding c' by auto
      then show ?thesis
        unfolding eq using 1(1) 1(2-) 2 mv False ok' by simp
    qed
  qed
qed

lemma find_empty_Some:
  "find_empty rs i n = Some e \<Longrightarrow> i \<le> e \<and> e < i + int n \<and> ekey (get_entry rs e) = kkeyNull \<and>
   (\<forall>p. i \<le> p \<and> p < e \<longrightarrow> ekey (get_entry rs p) \<noteq> kkeyNull)"
proof (induction n arbitrary: i)
  case (Suc n)
  show ?case
  proof (cases "ekey (get_entry rs i) = kkeyNull")
    case False
    then have "find_empty rs (i + 1) n = Some e" using Suc.prems by simp
    with Suc.IH [of "i + 1"] False show ?thesis by (auto, smt (verit))
  qed (use Suc.prems in auto)
qed simp

lemma find_empty_None:
  "find_empty rs i n = None \<longleftrightarrow> (\<forall>p. i \<le> p \<and> p < i + int n \<longrightarrow> ekey (get_entry rs p) \<noteq> kkeyNull)"
proof (induction n arbitrary: i)
  case (Suc n)
  have "(\<forall>p. i \<le> p \<and> p < i + int (Suc n) \<longrightarrow> Q p) \<longleftrightarrow> Q i \<and> (\<forall>p. i + 1 \<le> p \<and> p < i + 1 + int n \<longrightarrow> Q p)"
    for Q :: "int \<Rightarrow> bool" by (auto, smt (verit))
  then show ?case using Suc by simp
qed auto

text \<open>What an insertion that finds an empty entry does, for the insertion under the lock and the one of a split.\<close>

lemma insert_at_empty:
  assumes "leaf_ok city rs" "k \<noteq> kkeyNull" "leaf_map rs k = None"
    "find_empty rs (int (home city k)) n = Some e" "n \<le> 64"
  shows "hop_loop (int (home city k)) k v rs e hopped = Some None \<or>
    (\<exists>rs' hopped'. hop_loop (int (home city k)) k v rs e hopped = Some (Some (rs', hopped')) \<and>
       leaf_ok city rs' \<and> leaf_map rs' = (leaf_map rs)(k \<mapsto> v) \<and> apart city rs rs')"
proof -
  have e: "int (home city k) \<le> e" "e < int (home city k) + 64" "ekey (rs ! slot e) = kkeyNull"
    using find_empty_Some [OF assms(4)] assms(5) by (auto simp: get_entry_def)
  note c = clear_empty [OF assms(1) slot_less e(3)]
  have "hopping city (int (home city k)) rs (clear (slot e) rs) e"
  proof -
    have same: "ekey (clear (slot e) rs ! n) = ekey (rs ! n)" if "n < 64" for n
      using leaf_okD(1) [OF assms(1)] e(3) that by (simp add: clear_nth)
    then have "key_at (clear (slot e) rs) n = key_at rs n" for n by (auto simp: key_at_def)
    moreover have "n < 64 \<Longrightarrow> homed city (clear (slot e) rs) n b = homed city rs n b" for n b
      using same by (simp add: homed_def)
    moreover have "\<not> moved rs rs x i i'" for x i i'
      using leaf_okD(4) [OF assms(1), of i i'] by (auto simp: moved_def key_at_def)
    ultimately show ?thesis by (auto simp: hopping_def apart_def moved_def)
  qed
  then show ?thesis
    using hop_loop_ok [OF leaf_okD(1) [OF assms(1)] assms(1) c _ assms(2,3) refl e(1,2)] by blast
qed

section \<open>Searching\<close>

text \<open>
  The search as a scan: the first entry of the neighbourhood with the key, or the comparison of the
  stored bitmap with the one built from the keys of the home.
\<close>

definition home_bits :: "(key \<Rightarrow> u64) \<Rightarrow> LeafEntry list \<Rightarrow> nat \<Rightarrow> nat list \<Rightarrow> 8 word \<Rightarrow> 8 word" where
  "home_bits city rs hash is w =
     fold (\<lambda>i w. if homed city rs ((hash + i) mod 64) hash then w OR hop_mask (int i) else w) is w"

lemma bit_home_bits:
  "\<forall>i \<in> set is. i < 8 \<Longrightarrow> m < 8 \<Longrightarrow> bit (home_bits city rs hash is w) m \<longleftrightarrow>
     bit w m \<or> (\<exists>i \<in> set is. m = 7 - i \<and> homed city rs ((hash + i) mod 64) hash)"
  by (induction "is" arbitrary: w) (auto simp: home_bits_def bit_or_hop_mask)

lemma search_neighbors_scan:
  assumes "n \<le> 8" "home city k = hash" "k \<noteq> kkeyNull"
  shows "search_neighbors city rs hash k n w =
    (case find (\<lambda>i. ekey (rs ! ((hash + i) mod 64)) = k) [8 - n..<8] of
       Some i \<Rightarrow> Found (evalue (rs ! ((hash + i) mod 64))) ((hash + i) mod 64)
     | None \<Rightarrow> if home_bits city rs hash [8 - n..<8] w \<noteq> hop_bitmap (rs ! hash) then Re_read else Absent)"
  using assms(1)
proof (induction n arbitrary: w)
  case (Suc n)
  have "[8 - Suc n..<8] = (8 - Suc n) # [8 - n..<8]"
  proof -
    have "Suc (8 - Suc n) = 8 - n" "8 - Suc n < 8" using Suc.prems by auto
    then show ?thesis by (metis upt_conv_Cons)
  qed
  then show ?case using Suc assms(2,3) by (auto simp: Let_def home_bits_def homed_def)
qed (simp add: home_bits_def)

lemma leaf_search_found:
  assumes "k \<noteq> kkeyNull" "z < 8" "ekey (rs ! ((home city k + z) mod 64)) = k"
  shows "\<exists>i < 64. ekey (rs ! i) = k \<and> leaf_search city rs k = Found (evalue (rs ! i)) i"
proof -
  let ?P = "\<lambda>i. ekey (rs ! ((home city k + i) mod 64)) = k"
  obtain i where i: "find ?P [0..<8] = Some i"
    using assms by (cases "find ?P [0..<8]") (auto simp: find_None_iff)
  then have "?P i" by (auto simp: find_Some_iff)
  then show ?thesis
    using i assms(1) by (intro exI [of _ "(home city k + i) mod 64"])
      (simp add: leaf_search_def search_neighbors_scan)
qed

lemma leaf_search_scan:
  assumes "k \<noteq> kkeyNull" "\<And>z. z < 8 \<Longrightarrow> ekey (rs ! ((home city k + z) mod 64)) \<noteq> k"
  shows "leaf_search city rs k =
    (if \<exists>z < 8. bit (hop_bitmap (rs ! home city k)) (7 - z) \<noteq>
         homed city rs ((home city k + z) mod 64) (home city k) then Re_read else Absent)"
proof -
  let ?w = "home_bits city rs (home city k) [0..<8] 0" and ?u = "hop_bitmap (rs ! home city k)"
  have "find (\<lambda>i. ekey (rs ! ((home city k + i) mod 64)) = k) [0..<8] = None"
    using assms(2) by (auto simp: find_None_iff)
  then have "leaf_search city rs k = (if ?w \<noteq> ?u then Re_read else Absent)"
    using assms(1) by (simp add: leaf_search_def search_neighbors_scan)
  moreover have w: "bit ?w (7 - z) \<longleftrightarrow> homed city rs ((home city k + z) mod 64) (home city k)" if "z < 8" for z
  proof -
    have "7 - z = 7 - i \<longleftrightarrow> i = z" if "i < 8" for i using that \<open>z < 8\<close> by auto
    then show ?thesis using that by (auto simp: bit_home_bits)
  qed
  moreover have "?w = ?u \<longleftrightarrow> (\<forall>z < 8. bit ?w (7 - z) = bit ?u (7 - z))"
  proof
    assume eq: "\<forall>z < 8. bit ?w (7 - z) = bit ?u (7 - z)"
    show "?w = ?u"
    proof (rule bit_word_eqI)
      fix n assume "n < LENGTH(8)"
      then show "bit ?w n = bit ?u n" using eq [rule_format, of "7 - n"] by simp
    qed
  qed simp
  ultimately show ?thesis by auto
qed

section \<open>The leaf as a map\<close>

lemma neighbor_of:
  assumes "leaf_ok city rs" "key_at rs i k"
  obtains z where "z < 8" "i = (home city k + z) mod 64"
proof -
  have i: "i < 64" "homed city rs i (home city k)" using assms(2) by (auto simp: key_at_def homed_def)
  let ?z = "(i + 64 - home city k) mod 64"
  have "?z < 8" using leaf_okD(3) [OF assms(1) i] .
  moreover have "(home city k + ?z) mod 64 = i"
    using offset_iff [of "home city k" i ?z] i \<open>?z < 8\<close> by simp
  ultimately show ?thesis using that by metis
qed

lemma leaf_map_key_at:
  assumes "leaf_ok city rs" "leaf_map rs k = Some v"
  obtains i where "key_at rs i k" "evalue (rs ! i) = v"
  using leaf_map_iff [OF assms(1), of k v] assms(2) unfolding key_at_def by blast

lemma leaf_search_ok:
  assumes ok: "leaf_ok city rs" and k: "k \<noteq> kkeyNull"
  shows "leaf_map rs k = None \<Longrightarrow> leaf_search city rs k = Absent"
    "leaf_map rs k = Some v \<Longrightarrow> \<exists>i. leaf_search city rs k = Found v i"
proof -
  show "leaf_search city rs k = Absent" if "leaf_map rs k = None"
    using leaf_search_scan [of k rs city] leaf_okD(2) [OF ok, of "home city k"] leaf_map_None [OF ok] that k
    by simp
  show "\<exists>i. leaf_search city rs k = Found v i" if m: "leaf_map rs k = Some v"
  proof -
    obtain i where i: "key_at rs i k" "evalue (rs ! i) = v"
      using leaf_map_key_at [OF ok m] .
    then obtain z where "z < 8" "i = (home city k + z) mod 64" using neighbor_of [OF ok] by blast
    then obtain i' where "i' < 64" "ekey (rs ! i') = k" "leaf_search city rs k = Found (evalue (rs ! i')) i'"
      using leaf_search_found [OF k] i(1) by (metis key_at_def)
    moreover have "i' = i" using leaf_okD(4) [OF ok, of i' i] calculation i k by (auto simp: key_at_def)
    ultimately show ?thesis using i by blast
  qed
qed

lemma hopscotch_insert_cases:
  assumes "leaf_ok city rs" "k \<noteq> kkeyNull" "leaf_map rs k = None" "8 \<le> n" "n \<le> 64"
  obtains (refused) "hopscotch_insert city rs k v n = Some None"
      "\<And>z. z < 8 \<Longrightarrow> ekey (rs ! ((home city k + z) mod 64)) \<noteq> kkeyNull"
    | (placed) rs' e hopped where "hopscotch_insert city rs k v n = Some (Some (rs', e, hopped))"
        "leaf_ok city rs'" "leaf_map rs' = (leaf_map rs)(k \<mapsto> v)"
proof (cases "find_empty rs (int (home city k)) n")
  case None
  have "ekey (rs ! ((home city k + z) mod 64)) \<noteq> kkeyNull" if "z < 8" for z
    using None that assms(4) slot_add [of "int (home city k)" z]
    by (simp add: find_empty_None get_entry_def)
  then show ?thesis using None by (intro refused) (auto simp: hopscotch_insert_def)
next
  case (Some e)
  let ?h = "int (home city k)"
  have e: "?h \<le> e" "\<And>p. ?h \<le> p \<Longrightarrow> p < e \<Longrightarrow> ekey (get_entry rs p) \<noteq> kkeyNull"
    using find_empty_Some [OF Some] by auto
  consider "hop_loop ?h k v rs e [] = Some None"
    | rs' hopped where "hop_loop ?h k v rs e [] = Some (Some (rs', hopped))" "leaf_ok city rs'"
        "leaf_map rs' = (leaf_map rs)(k \<mapsto> v)"
    using insert_at_empty [OF assms(1-3) Some assms(5), of v "[]"] by blast
  then show ?thesis
  proof cases
    case 1
    then have "\<not> e < ?h + 8" by (subst (asm) hop_loop.simps) (auto simp: Let_def split: option.splits)
    then have "ekey (rs ! ((home city k + z) mod 64)) \<noteq> kkeyNull" if "z < 8" for z
      using e(2) [of "?h + int z"] that slot_add [of ?h z] by (simp add: get_entry_def)
    then show ?thesis using 1 Some by (intro refused) (auto simp: hopscotch_insert_def)
  next
    case (2 rs' hopped)
    then show ?thesis using Some by (intro placed) (auto simp: hopscotch_insert_def)
  qed
qed

text \<open>
  C17: Inserting a new key into a well-formed hopscotch leaf fails no assertion.  When the code finds a
  place, the leaf stays well-formed, holds the new pair and the old ones, and a search finds exactly
  these; it reports that the leaf must be split only when the neighbourhood of the key is full.
\<close>

theorem hopscotch_insert_correct:
  assumes "leaf_ok city rs" "k \<noteq> kkeyNull" "leaf_map rs k = None" "8 \<le> n" "n \<le> 64"
  shows "(hopscotch_insert city rs k v n = Some None \<and>
      (\<forall>z < 8. ekey (rs ! ((home city k + z) mod 64)) \<noteq> kkeyNull)) \<or>
    (\<exists>rs' e hopped. hopscotch_insert city rs k v n = Some (Some (rs', e, hopped)) \<and> leaf_ok city rs' \<and>
      leaf_map rs' = (leaf_map rs)(k \<mapsto> v) \<and>
      (\<forall>x. x \<noteq> kkeyNull \<longrightarrow> (leaf_search city rs' x = Absent \<longleftrightarrow> x \<noteq> k \<and> leaf_map rs x = None)))"
  using assms
proof (rule hopscotch_insert_cases [where v = v])
  fix rs' e hopped
  assume r: "hopscotch_insert city rs k v n = Some (Some (rs', e, hopped))"
    "leaf_ok city rs'" "leaf_map rs' = (leaf_map rs)(k \<mapsto> v)"
  have "leaf_search city rs' x = Absent \<longleftrightarrow> x \<noteq> k \<and> leaf_map rs x = None" if "x \<noteq> kkeyNull" for x
    using leaf_search_ok [OF r(2) that] r(3) by (cases "leaf_map rs' x") (auto split: if_splits)
  with r show ?thesis by blast
qed blast

text \<open>
  C15: A search that reads some entries of a leaf before and others after an insertion is not misled: a
  key that was in the leaf is found with its value, or the comparison with the stored bitmap asks for
  another read.
\<close>

theorem torn_search_safe:
  assumes ok: "leaf_ok city rs" and k: "k \<noteq> kkeyNull" "leaf_map rs k = None" and n: "n \<le> 64"
    and ins: "hopscotch_insert city rs k v n = Some (Some (rs', e, hopped))"
    and x: "leaf_map rs x = Some w"
    and mix: "length mixed = 64" "\<forall>i < 64. mixed ! i = rs ! i \<or> mixed ! i = rs' ! i"
  shows "leaf_search city mixed x = Re_read \<or> (\<exists>i. leaf_search city mixed x = Found w i)"
proof -
  obtain e' where fe: "find_empty rs (int (home city k)) n = Some e'"
      and hl: "hop_loop (int (home city k)) k v rs e' [] = Some (Some (rs', hopped))"
    using ins by (auto simp: hopscotch_insert_def Let_def split: option.splits)
  have ok': "leaf_ok city rs'" and map': "leaf_map rs' = (leaf_map rs)(k \<mapsto> v)" and ap: "apart city rs rs'"
    using insert_at_empty [OF ok k fe n, of v "[]"] hl by auto
  have x0: "x \<noteq> kkeyNull" using leaf_map_iff [OF ok] x by blast
  have x': "leaf_map rs' x = Some w" using map' x k by auto
  obtain i where i: "key_at rs i x" "evalue (rs ! i) = w" using leaf_map_key_at [OF ok x] .
  obtain i' where i': "key_at rs' i' x" "evalue (rs' ! i') = w"
    using leaf_map_key_at [OF ok' x'] .
  obtain z where z: "z < 8" "i = (home city x + z) mod 64" using neighbor_of [OF ok i(1)] .
  obtain z' where z': "z' < 8" "i' = (home city x + z') mod 64" using neighbor_of [OF ok' i'(1)] .
  have val: "evalue (mixed ! p) = w" if "p < 64" "ekey (mixed ! p) = x" for p
    using mix(2) that leaf_okD(4) [OF ok, of p i] leaf_okD(4) [OF ok', of p i'] i i' x0
    by (metis key_at_def)
  show ?thesis
  proof (cases "\<exists>y < 8. ekey (mixed ! ((home city x + y) mod 64)) = x")
    case True
    then obtain p where "p < 64" "ekey (mixed ! p) = x" "leaf_search city mixed x = Found (evalue (mixed ! p)) p"
      using leaf_search_found [OF x0] by blast
    then show ?thesis using val by metis
  next
    case False
    have lt: "i < 64" "i' < 64" using i i' by (auto simp: key_at_def)
    have mi: "mixed ! i = rs' ! i" "mixed ! i' = rs ! i'" and ne: "i \<noteq> i'"
      using False mix(2) lt z z' i(1) i'(1) by (metis key_at_def)+
    have "moved rs rs' x i i'" using i(1) i'(1) ne by (simp add: moved_def)
    then have "\<not> homed city mixed i (home city x)" "\<not> homed city mixed i' (home city x)"
      using ap mi unfolding apart_def by (auto simp: homed_def)
    moreover have "bit (hop_bitmap (mixed ! home city x)) (7 - z) \<or> bit (hop_bitmap (mixed ! home city x)) (7 - z')"
    proof -
      have "bit (hop_bitmap (rs ! home city x)) (7 - z)" "bit (hop_bitmap (rs' ! home city x)) (7 - z')"
        using leaf_okD(2) [OF ok home_less z(1)] leaf_okD(2) [OF ok' home_less z'(1)] z z' i(1) i'(1)
        by (auto simp: homed_def key_at_def)
      then show ?thesis using mix(2) [rule_format, OF home_less, of city x] by auto
    qed
    ultimately show ?thesis
      using leaf_search_scan [OF x0, of mixed city] False z z' by auto
  qed
qed


section \<open>A leaf with seven keys of one home\<close>

text \<open>
  Seven keys with home 0 fill the entries 0 to 6 and a key with home 3 the entry 7; the hash is the last
  byte.  An eighth key with home 0 makes the entry 7 hop to 8.
\<close>

definition sample_city :: "key \<Rightarrow> u64" where
  "sample_city k = ucast (k ! 7)"

definition sample_key :: "u8 \<Rightarrow> u8 \<Rightarrow> key" where
  "sample_key n b = [0, 0, 0, 0, 0, 0, n, b]"

fun fill :: "(key \<Rightarrow> u64) \<Rightarrow> (nat \<times> key \<times> u64) list \<Rightarrow> LeafEntry list \<Rightarrow> LeafEntry list" where
  "fill city [] rs = rs"
| "fill city ((i, k, v) # ps) rs = fill city ps (occupy city i k v rs)"

lemma ekey_Null [simp]: "ekey LeafEntry_Null = kkeyNull"
  by (simp add: LeafEntry_Null_def)

lemma empty_leaf_ok: "leaf_ok city (replicate 64 LeafEntry_Null)"
  and empty_leaf_map: "leaf_map (replicate 64 LeafEntry_Null) = Map.empty"
proof -
  show "leaf_ok city (replicate 64 LeafEntry_Null)"
    by (rule leaf_okI) (simp_all add: LeafEntry_Null_def homed_def)
  show "leaf_map (replicate 64 LeafEntry_Null) = Map.empty"
    by (simp add: leaf_map_def LeafEntry_Null_def filter_replicate)
qed

lemma fill_ok:
  assumes "leaf_ok city rs" "distinct (map fst ps)" "distinct (map (fst \<circ> snd) ps)"
    "\<forall>(i, k, v) \<in> set ps. i < 64 \<and> k \<noteq> kkeyNull \<and> (i + 64 - home city k) mod 64 < 8 \<and>
       ekey (rs ! i) = kkeyNull \<and> leaf_map rs k = None"
  shows "leaf_ok city (fill city ps rs) \<and>
    leaf_map (fill city ps rs) = fold (\<lambda>(i, k, v) m. m(k \<mapsto> v)) ps (leaf_map rs)"
  using assms
proof (induction ps arbitrary: rs)
  case (Cons p ps)
  obtain i k v where p: "p = (i, k, v)" by (cases p) auto
  have h: "i < 64" "k \<noteq> kkeyNull" "(i + 64 - home city k) mod 64 < 8" "ekey (rs ! i) = kkeyNull" "leaf_map rs k = None"
    using Cons.prems(4) p by auto
  note o = occupy_ok [OF Cons.prems(1) h(1,4,3,2,5), of v]
  have "j < 64 \<and> k' \<noteq> kkeyNull \<and> (j + 64 - home city k') mod 64 < 8 \<and>
      ekey (occupy city i k v rs ! j) = kkeyNull \<and> leaf_map (occupy city i k v rs) k' = None"
    if "(j, k', v') \<in> set ps" for j k' v'
  proof -
    have "j \<noteq> i" "k' \<noteq> k" using that Cons.prems(2,3) p by (force simp: image_iff)+
    moreover have "j < 64 \<and> k' \<noteq> kkeyNull \<and> (j + 64 - home city k') mod 64 < 8 \<and>
        ekey (rs ! j) = kkeyNull \<and> leaf_map rs k' = None" using that Cons.prems(4) by auto
    ultimately show ?thesis
      using o(2) occupy_nth(1) [OF leaf_okD(1) [OF Cons.prems(1)] h(1) _ h(3), of j v] by simp
  qed
  then have all: "\<forall>(j, k', v') \<in> set ps. j < 64 \<and> k' \<noteq> kkeyNull \<and> (j + 64 - home city k') mod 64 < 8 \<and>
      ekey (occupy city i k v rs ! j) = kkeyNull \<and> leaf_map (occupy city i k v rs) k' = None" by blast
  show ?case using Cons.IH [OF o(1) _ _ all] Cons.prems(2,3) o(2) p by simp
qed simp

definition sample_pairs :: "(nat \<times> key \<times> u64) list" where
  "sample_pairs = map (\<lambda>i. (i, sample_key (of_nat i) 64, of_nat i + 1)) [0..<7] @ [(7, sample_key 9 3, 90)]"

definition sample_leaf :: "LeafEntry list" where
  "sample_leaf = fill sample_city sample_pairs (replicate 64 LeafEntry_Null)"


lemma sample_leaf_ok: "leaf_ok sample_city sample_leaf"
  and sample_leaf_map: "leaf_map sample_leaf = fold (\<lambda>(i, k, v) m. m(k \<mapsto> v)) sample_pairs Map.empty"
proof -
  have "leaf_ok sample_city sample_leaf \<and>
      leaf_map sample_leaf = fold (\<lambda>(i, k, v) m. m(k \<mapsto> v)) sample_pairs (leaf_map (replicate 64 LeafEntry_Null))"
    unfolding sample_leaf_def
  proof (rule fill_ok [OF empty_leaf_ok])
    show "distinct (map fst sample_pairs)" by code_simp
    show "distinct (map (fst \<circ> snd) sample_pairs)" by code_simp
    have "\<forall>(i, k, v) \<in> set sample_pairs. i < 64 \<and> k \<noteq> kkeyNull \<and> (i + 64 - home sample_city k) mod 64 < 8" by code_simp
    then show "\<forall>(i, k, v) \<in> set sample_pairs. i < 64 \<and> k \<noteq> kkeyNull \<and> (i + 64 - home sample_city k) mod 64 < 8 \<and>
        ekey (replicate 64 LeafEntry_Null ! i) = kkeyNull \<and> leaf_map (replicate 64 LeafEntry_Null) k = None"
      by (auto simp: empty_leaf_map)
  qed
  then show "leaf_ok sample_city sample_leaf"
    "leaf_map sample_leaf = fold (\<lambda>(i, k, v) m. m(k \<mapsto> v)) sample_pairs Map.empty"
    by (simp_all add: empty_leaf_map)
qed

definition sample_after :: "LeafEntry list" where
  "sample_after = (case hopscotch_insert sample_city sample_leaf (sample_key 8 64) 80 64 of
     Some (Some (rs, _)) \<Rightarrow> rs | _ \<Rightarrow> [])"

lemma sample_hop: "hopscotch_insert sample_city sample_leaf (sample_key 8 64) 80 64 = Some (Some (sample_after, 8, [8, 7]))"
  by code_simp


lemma sample_new: "sample_key 8 64 \<noteq> kkeyNull" "leaf_map sample_leaf (sample_key 8 64) = None"
  and sample_old: "leaf_map sample_leaf (sample_key 9 3) = Some 90"
proof -
  show "sample_key 8 64 \<noteq> kkeyNull" by code_simp
  show "leaf_map sample_leaf (sample_key 8 64) = None" unfolding sample_leaf_map by code_simp
  show "leaf_map sample_leaf (sample_key 9 3) = Some 90" unfolding sample_leaf_map by code_simp
qed

theorem hopscotch_insert_correct_witness:
  "leaf_ok sample_city sample_after \<and> leaf_map sample_after (sample_key 8 64) = Some 80 \<and>
   leaf_search sample_city sample_after (sample_key 9 3) \<noteq> Absent"
proof -
  have "sample_key 9 3 \<noteq> kkeyNull" by code_simp
  then show ?thesis
    using hopscotch_insert_correct [OF sample_leaf_ok sample_new, of 64 80] sample_hop sample_old by auto
qed

theorem torn_search_safe_witness:
  "leaf_search sample_city (sample_leaf[7 := sample_after ! 7]) (sample_key 9 3) = Re_read"
proof -
  let ?m = "sample_leaf[7 := sample_after ! 7]"
  have "leaf_search sample_city ?m (sample_key 9 3) = Re_read \<or>
      (\<exists>i. leaf_search sample_city ?m (sample_key 9 3) = Found 90 i)"
    by (rule torn_search_safe [OF sample_leaf_ok sample_new _ sample_hop sample_old])
      (use leaf_okD(1) [OF sample_leaf_ok] in \<open>auto simp: nth_list_update\<close>)
  moreover have "case leaf_search sample_city ?m (sample_key 9 3) of Found v i \<Rightarrow> False | _ \<Rightarrow> True" by code_simp
  ultimately show ?thesis by auto
qed

end
