(* ===== verification/Chime_Split.thy ===== *)
theory Chime_Split
  imports Chime_Hop
begin

text \<open>
  Splitting a hopscotch leaf (\<open>hopscotch_get_split_key\<close> and \<open>hopscotch_split_and_unlock\<close> of
  \<open>CHIME/src/Tree.cpp\<close>).  The split key is chosen so that the key that did not fit has a place
  afterwards; the theory shows that it always has, so that the assertion at the end of
  \<open>hopscotch_insert_locally\<close> never fails.
\<close>

section \<open>The split key\<close>

text \<open>The home of the entry \<open>h\<close> computed from its key, brought next to \<open>h\<close>.\<close>

definition key_home :: "(key \<Rightarrow> u64) \<Rightarrow> LeafEntry list \<Rightarrow> int \<Rightarrow> int" where
  "key_home city records h = (let b = int (get_hashed_leaf_entry_index city (ekey (get_entry records h))) in
     if h - b < 0 then b - int leafSpanSize
     else if int neighborSize \<le> h - b then b + int leafSpanSize else b)"

fun split_source :: "(key \<Rightarrow> u64) \<Rightarrow> LeafEntry list \<Rightarrow> int \<Rightarrow> nat \<Rightarrow> int option" where
  "split_source city records j 0 = None"
| "split_source city records j (Suc n) =
     (let h = j - int (Suc n) in
      if j < key_home city records h + int neighborSize then Some h else split_source city records j n)"

lemma split_source_less: "split_source city records j n = Some h \<Longrightarrow> h < j"
  by (induction n) (auto simp: Let_def split: if_splits)

text \<open>The loop at \<open>next_hop\<close>: would a hole at \<open>j\<close> reach the neighbourhood of \<open>hash_idx\<close>?\<close>

function hole_reaches :: "(key \<Rightarrow> u64) \<Rightarrow> LeafEntry list \<Rightarrow> int \<Rightarrow> int \<Rightarrow> bool" where
  "hole_reaches city records hash_idx j =
     (if j < hash_idx + int neighborSize then True
      else (case split_source city records j (neighborSize - 1) of
              None \<Rightarrow> False
            | Some h \<Rightarrow> hole_reaches city records hash_idx h))"
  by pat_completeness auto
termination
  by (relation "measure (\<lambda>(city, records, hash_idx, j). nat (j - hash_idx))")
    (auto dest: split_source_less)

declare hole_reaches.simps [simp del]

fun critical_keys :: "(key \<Rightarrow> u64) \<Rightarrow> LeafEntry list \<Rightarrow> int \<Rightarrow> int \<Rightarrow> nat \<Rightarrow> key list" where
  "critical_keys city records hash_idx empty_idx 0 = []"
| "critical_keys city records hash_idx empty_idx (Suc n) =
     (if ekey (get_entry records empty_idx) = kkeyNull then []
      else (if hole_reaches city records hash_idx empty_idx then [ekey (get_entry records empty_idx)] else []) @
        critical_keys city records hash_idx (empty_idx + 1) n)"

definition hopscotch_get_split_key :: "(key \<Rightarrow> u64) \<Rightarrow> LeafEntry list \<Rightarrow> key \<Rightarrow> key option" where
  "hopscotch_get_split_key city records k =
     (let hash_idx = int (get_hashed_leaf_entry_index city k);
          crit = critical_keys city records hash_idx hash_idx leafSpanSize in
      if crit = [] then None
      else let sorted = sort (crit @ [k]) in Some (sorted ! (length sorted div 2)))"

section \<open>The split\<close>

text \<open>The loop that moves the entries from \<open>split_key\<close> on to the sibling, at the same positions.\<close>

fun split_entries :: "(key \<Rightarrow> u64) \<Rightarrow> key \<Rightarrow> nat \<Rightarrow> LeafEntry list \<Rightarrow> LeafEntry list \<Rightarrow>
    (LeafEntry list \<times> LeafEntry list) option" where
  "split_entries city split_key 0 records sibling = Some (records, sibling)"
| "split_entries city split_key (Suc n) records sibling =
     (let i = leafSpanSize - Suc n; old_e = records ! i in
      if ekey old_e \<noteq> kkeyNull \<and> split_key \<le> ekey old_e then
        (let hash_idx = get_hashed_leaf_entry_index city (ekey old_e);
             offset = (if hash_idx \<le> i then int i - int hash_idx else int i + int leafSpanSize - int hash_idx);
             sib = sibling[i := entry_update (ekey old_e) (evalue old_e) (sibling ! i)];
             recs = records[i := entry_update kkeyNull 0 old_e] in
         case on_entry (int hash_idx) (set_hop_bit offset) sib of
           None \<Rightarrow> None
         | Some sib' \<Rightarrow>
             (case on_entry (int hash_idx) (unset_hop_bit offset) recs of
                None \<Rightarrow> None
              | Some recs' \<Rightarrow> split_entries city split_key n recs' sib'))
      else split_entries city split_key n records sibling)"

fun max_key_loop :: "LeafEntry list \<Rightarrow> nat \<Rightarrow> nat \<Rightarrow> key \<Rightarrow> nat \<Rightarrow> nat" where
  "max_key_loop records i 0 max_key ret_idx = ret_idx"
| "max_key_loop records i (Suc n) max_key ret_idx =
     (if max_key < ekey (records ! i) then max_key_loop records (Suc i) n (ekey (records ! i)) i
      else max_key_loop records (Suc i) n max_key ret_idx)"

definition get_max_key_idx :: "LeafEntry list \<Rightarrow> nat" where
  "get_max_key_idx records = max_key_loop records 0 leafSpanSize kkeyNull 0"

record LeafNode =
  valid :: u8
  sibling_ptr :: u64
  fence_lowest :: key
  fence_highest :: key
  records :: "LeafEntry list"

definition Widest :: u64 where
  "Widest = NOT 0"

definition new_LeafNode :: LeafNode where
  "new_LeafNode = \<lparr>valid = 1, sibling_ptr = 0, fence_lowest = key_add (replicate keyLen 0) 1,
     fence_highest = replicate keyLen 0xFF, records = replicate leafSpanSize LeafEntry_Null\<rparr>"

definition is_root :: "LeafNode \<Rightarrow> bool" where
  "is_root leaf \<longleftrightarrow> sibling_ptr leaf = Widest"

text \<open>
  \<open>hopscotch_split_and_unlock\<close> up to the writes, with \<open>SIBLING_BASED_VALIDATION\<close>: the leaf, its new
  sibling at \<open>sibling_addr\<close> and the key that goes to the parent.
\<close>

definition hopscotch_split :: "(key \<Rightarrow> u64) \<Rightarrow> LeafNode \<Rightarrow> key \<Rightarrow> u64 \<Rightarrow> u64 \<Rightarrow>
    (LeafNode \<times> LeafNode \<times> key) option" where
  "hopscotch_split city leaf k v sibling_addr =
     (case hopscotch_get_split_key city (records leaf) k of
        None \<Rightarrow> None
      | Some split_key \<Rightarrow>
          (case split_entries city split_key leafSpanSize (records leaf) (records new_LeafNode) of
             None \<Rightarrow> None
           | Some (recs, sib) \<Rightarrow>
               (case (if k < split_key
                      then map_option (\<lambda>(r, _). (r, sib)) (hopscotch_insert_locally city recs k v)
                      else map_option (\<lambda>(r, _). (recs, r)) (hopscotch_insert_locally city sib k v)) of
                  None \<Rightarrow> None
                | Some (recs', sib') \<Rightarrow>
                    (let max_key = ekey (recs' ! get_max_key_idx recs'); split_key' = key_add max_key 1;
                         old_sibling = (if sibling_ptr leaf = Widest then 0 else sibling_ptr leaf) in
                     Some (leaf\<lparr>records := recs', fence_highest := split_key', sibling_ptr := sibling_addr\<rparr>,
                       new_LeafNode\<lparr>records := sib', fence_lowest := split_key',
                         fence_highest := fence_highest leaf, sibling_ptr := old_sibling\<rparr>,
                       split_key')))))"

section \<open>When a hole can travel\<close>

text \<open>
  Some entry may hop to \<open>j\<close>; \<open>free\<close>: this is so at every position between the neighbourhood of \<open>hash\<close>
  and \<open>e\<close>.  A hole at \<open>e\<close> reaches the neighbourhood exactly then, because no hop jumps over a
  position that no entry may hop to.
\<close>

definition hops :: "(key \<Rightarrow> u64) \<Rightarrow> LeafEntry list \<Rightarrow> int \<Rightarrow> int \<Rightarrow> bool" where
  "hops city rs j h \<longleftrightarrow> j - 7 \<le> h \<and> h < j \<and>
     (\<exists>z < 8. j < h - int z + 8 \<and> homed city rs (slot h) (slot (h - int z)))"

definition free :: "(key \<Rightarrow> u64) \<Rightarrow> LeafEntry list \<Rightarrow> int \<Rightarrow> int \<Rightarrow> bool" where
  "free city rs hash e \<longleftrightarrow> (\<forall>j. hash + 8 \<le> j \<and> j \<le> e \<longrightarrow> (\<exists>h. hops city rs j h))"

lemma free_mono: "free city rs hash e \<Longrightarrow> e' \<le> e \<Longrightarrow> free city rs hash e'"
  by (simp add: free_def)

lemma free_step: "free city rs hash h \<Longrightarrow> hops city rs e h \<Longrightarrow> free city rs hash e"
  unfolding free_def
proof (intro allI impI)
  fix j assume h: "\<forall>j. hash + 8 \<le> j \<and> j \<le> h \<longrightarrow> (\<exists>h. hops city rs j h)"
    and e: "hops city rs e h" and j: "hash + 8 \<le> j \<and> j \<le> e"
  show "\<exists>h. hops city rs j h"
  proof (cases "j \<le> h")
    case False
    then have "hops city rs j h" using e j by (auto simp: hops_def)
    then show ?thesis ..
  qed (use h j in blast)
qed

lemma may_hop_hops:
  assumes "length rs = 64" "leaf_ok city (clear (slot j0) rs)"
  shows "may_hop rs j h z \<longleftrightarrow>
    z < 8 \<and> j < h - int z + 8 \<and> homed city (clear (slot j0) rs) (slot h) (slot (h - int z))"
proof (cases "z < 8")
  case True
  then show ?thesis
    using leaf_okD(2) [OF assms(2), of "slot (h - int z)" z] slot_add [of "h - int z" z]
    by (simp add: may_hop_def get_entry_def clear_nth(3) [OF assms(1)])
qed (simp add: may_hop_def)

text \<open>A hop changes the homes at its two positions only.\<close>

lemma hop_untouched:
  assumes len: "length rs = 64" and ok: "leaf_ok city (clear (slot j) rs)"
    and hop: "may_hop rs j h z" and h: "h < j" and p: "p < h" "j < p + 64"
  shows "homed city (occupy city (slot j) (ekey (rs ! slot h)) w (vacate city (slot h) (clear (slot j) rs))) (slot p) b \<longleftrightarrow>
    homed city (clear (slot j) rs) (slot p) b"
proof -
  let ?c = "clear (slot j) rs" and ?b = "h - int z"
  have z: "z < 8" "j < ?b + 8" using hop by (auto simp: may_hop_def)
  have ne: "slot p \<noteq> slot j" "slot p \<noteq> slot h" "slot h \<noteq> slot j"
    using slot_inj [of p j] slot_inj [of p h] slot_inj [of h j] p h z by auto
  have hx: "homed city ?c (slot h) (slot ?b)" by (rule may_hop_homed [OF len ok hop])
  have "(slot h + 64 - home city (ekey (?c ! slot h))) mod 64 < 8"
    using leaf_okD(3) [OF ok slot_less hx] hx by (simp add: homed_def)
  moreover have "(slot j + 64 - home city (ekey (rs ! slot h))) mod 64 < 8"
    using offset_slot [of "j - ?b" ?b] hx z h ne by (simp add: homed_def clear_nth [OF len])
  ultimately show ?thesis
    using ne len by (simp add: homed_def occupy_nth vacate_nth)
qed

text \<open>A hole with a free way is moved home: the loop does not give up.\<close>

lemma hop_loop_free:
  assumes "length rs = 64" "leaf_ok city (clear (slot j) rs)" "leaf_map (clear (slot j) rs) k = None"
    "k \<noteq> kkeyNull" "hash = int (home city k)" "hash \<le> j" "j < hash + 64" "free city rs0 hash j"
    "\<And>p b. hash \<le> p \<Longrightarrow> p < j \<Longrightarrow> homed city (clear (slot j) rs) (slot p) b \<longleftrightarrow> homed city rs0 (slot p) b"
  shows "hop_loop hash k v rs j hopped \<noteq> Some None"
  using assms
proof (induction hash k v rs j hopped rule: hop_loop.induct)
  case (1 hash k v rs j hopped)
  let ?c = "clear (slot j) rs"
  have j: "0 \<le> hash" "hash < 64" using 1 by simp_all
  show ?case
  proof (cases "j < hash + 8")
    case True
    then show ?thesis by (subst hop_loop.simps) (auto simp: Let_def split: option.splits)
  next
    case False
    obtain h0 z0 where "j - 7 \<le> h0" "h0 < j" "may_hop rs j h0 z0"
    proof -
      obtain h z where h: "j - 7 \<le> h" "h < j" "z < 8" "j < h - int z + 8" "homed city rs0 (slot h) (slot (h - int z))"
      proof -
        have "\<exists>h. hops city rs0 j h" using "1.prems"(8) False by (simp add: free_def)
        then show thesis unfolding hops_def using that by blast
      qed
      then have "homed city ?c (slot h) (slot (h - int z))" using 1(10) [of h] False by simp
      then show ?thesis using that h may_hop_hops [OF "1.prems"(1,2)] by blast
    qed
    then obtain h z where h: "hop_source rs j 7 = Some (Some (h, h - int z))" "j - 7 \<le> h" "h < j" "may_hop rs j h z"
      using hop_source_cases [of j 7 rs] False 1 j by auto
    obtain rs' where mv: "hop_move rs j h (h - int z) = Some rs'" "length rs' = 64"
      and c': "clear (slot h) rs' = occupy city (slot j) (ekey (rs ! slot h)) (evalue (rs ! slot h))
        (vacate city (slot h) ?c)"
      using hop_move_step [of rs city j h z] 1 h by blast
    have eq: "hop_loop hash k v rs j hopped = hop_loop hash k v rs' h (hopped @ [slot j])"
      using False h mv by (subst hop_loop.simps) (simp add: Let_def)
    have ok': "leaf_ok city (clear (slot h) rs')" "leaf_map (clear (slot h) rs') = leaf_map ?c"
      using hop_keeps [of rs city j h z] 1 h unfolding c' by metis+
    have "homed city (clear (slot h) rs') (slot p) b \<longleftrightarrow> homed city rs0 (slot p) b" if "hash \<le> p" "p < h" for p b
      using hop_untouched [of rs city j h z p] 1 h that False unfolding c' by auto
    moreover have "free city rs0 hash h" using free_mono [OF "1.prems"(8)] h by simp
    ultimately show ?thesis
      unfolding eq using 1(1) 1(2-) h mv False ok' by simp
  qed
qed

lemma slot_unshift: "slot (int b + int z) = slot h \<Longrightarrow> b < 64 \<Longrightarrow> slot (h - int z) = b"
proof -
  assume s: "slot (int b + int z) = slot h" and b: "b < 64"
  have "(int b + int z) mod 64 = h mod 64" using s int_slot by metis
  then have "(h - int z) mod 64 = int b mod 64" by (metis add_diff_cancel_right' mod_diff_left_eq)
  then show ?thesis using b by (simp add: slot_mod)
qed

section \<open>The critical keys\<close>

lemma key_home_near:
  assumes ok: "leaf_ok city rs" and h: "0 \<le> h" "h < 128" and key: "ekey (get_entry rs h) \<noteq> kkeyNull"
  obtains z where "z < 8" "key_home city rs h = h - int z" "homed city rs (slot h) (slot (h - int z))"
proof -
  define b s where "b = home city (ekey (rs ! slot h))" and "s = slot h"
  let ?z = "(s + 64 - b) mod 64"
  have lt: "b < 64" "s < 64" by (simp_all add: b_def s_def)
  have hb: "homed city rs s b" using key by (simp add: homed_def get_entry_def b_def s_def)
  have z: "?z < 8" using leaf_okD(3) [OF ok lt(2) hb] .
  have "h = int s \<or> h = int s + 64"
    using h unfolding s_def int_slot by presburger
  moreover have "key_home city rs h = (if h - int b < 0 then int b - 64 else if 8 \<le> h - int b then int b + 64 else int b)"
    by (simp add: key_home_def Let_def get_entry_def b_def)
  ultimately have "key_home city rs h = h - int ?z"
    using z lt offset_cases [OF lt] by (auto split: if_splits)
  moreover have "slot (h - int ?z) = b"
    using offset_iff [of b s ?z] z slot_add [of "int b" ?z] slot_unshift [of b ?z h] lt
    by (simp add: s_def)
  ultimately show ?thesis using that [of ?z] z hb by (simp add: s_def)
qed

lemma split_source_hops:
  assumes ok: "leaf_ok city rs" and j: "8 \<le> j" "j < 128" "n < 8"
    and full: "\<And>p. j - 7 \<le> p \<Longrightarrow> p < j \<Longrightarrow> ekey (get_entry rs p) \<noteq> kkeyNull"
    and s: "split_source city rs j n = Some h"
  shows "hops city rs j h"
  using j(3) s
proof (induction n)
  case (Suc n)
  show ?case
  proof (cases "j < key_home city rs (j - int (Suc n)) + 8")
    case True
    then have h: "h = j - int (Suc n)" using Suc.prems by (simp add: Let_def)
    have nn: "ekey (get_entry rs h) \<noteq> kkeyNull" using full [of h] h Suc.prems by simp
    obtain z where "z < 8" "key_home city rs h = h - int z" "homed city rs (slot h) (slot (h - int z))"
      using key_home_near [OF ok _ _ nn] h j Suc.prems by auto
    then show ?thesis unfolding hops_def using True h Suc.prems by (intro conjI exI [of _ z]) auto
  next
    case False
    then have "split_source city rs j n = Some h" using Suc.prems by (simp add: Let_def)
    then show ?thesis using Suc by simp
  qed
qed simp

lemma hole_reaches_free:
  assumes "leaf_ok city rs" "0 \<le> hash" "hash < 64" "j < hash + 64"
    "\<And>p. hash \<le> p \<Longrightarrow> p < j \<Longrightarrow> ekey (get_entry rs p) \<noteq> kkeyNull" "hole_reaches city rs hash j"
  shows "free city rs hash j"
  using assms
proof (induction city rs hash j rule: hole_reaches.induct)
  case (1 city rs hash j)
  show ?case
  proof (cases "j < hash + 8")
    case False
    then obtain h where h: "split_source city rs j 7 = Some h" "hole_reaches city rs hash h"
      using 1(7) by (subst (asm) hole_reaches.simps) (auto split: option.splits)
    then have hop: "hops city rs j h"
      using split_source_hops [OF 1(2) _ _ _ _ h(1)] 1(3-6) False by auto
    then have "h < j" by (simp add: hops_def)
    then show ?thesis using 1 False h hop by (intro free_step [OF _ hop]) simp
  qed (auto simp: free_def)
qed

lemma critical_keysD:
  assumes "x \<in> set (critical_keys city rs hash i n)"
  obtains e where "i \<le> e" "e < i + int n" "x = ekey (get_entry rs e)" "hole_reaches city rs hash e"
    "\<And>p. i \<le> p \<Longrightarrow> p \<le> e \<Longrightarrow> ekey (get_entry rs p) \<noteq> kkeyNull"
proof -
  have "\<exists>e. i \<le> e \<and> e < i + int n \<and> x = ekey (get_entry rs e) \<and> hole_reaches city rs hash e \<and>
      (\<forall>p. i \<le> p \<and> p \<le> e \<longrightarrow> ekey (get_entry rs p) \<noteq> kkeyNull)"
    using assms
  proof (induction n arbitrary: i)
    case (Suc n)
    then have nn: "ekey (get_entry rs i) \<noteq> kkeyNull" by (auto split: if_splits)
    show ?case
    proof (cases "x \<in> set (critical_keys city rs hash (i + 1) n)")
      case True
      then obtain e where "i + 1 \<le> e" "e < i + 1 + int n" "x = ekey (get_entry rs e)" "hole_reaches city rs hash e"
        "\<forall>p. i + 1 \<le> p \<and> p \<le> e \<longrightarrow> ekey (get_entry rs p) \<noteq> kkeyNull" using Suc.IH by blast
      with nn show ?thesis by (intro exI [of _ e]) (auto, smt (verit))
    next
      case False
      then show ?thesis using Suc.prems nn by (intro exI [of _ i]) (auto split: if_splits)
    qed
  qed simp
  then show ?thesis using that by blast
qed

lemma critical_keys_distinct:
  assumes ok: "leaf_ok city rs" and "n \<le> 64"
  shows "distinct (critical_keys city rs hash i n)"
  using assms(2)
proof (induction n arbitrary: i)
  case (Suc n)
  have "ekey (get_entry rs i) \<notin> set (critical_keys city rs hash (i + 1) n)"
  proof
    assume "ekey (get_entry rs i) \<in> set (critical_keys city rs hash (i + 1) n)"
    then obtain e where e: "i + 1 \<le> e" "e < i + 1 + int n" "ekey (get_entry rs i) = ekey (get_entry rs e)"
      "ekey (get_entry rs e) \<noteq> kkeyNull" by (rule critical_keysD) simp
    then have "slot i = slot e" using leaf_okD(4) [OF ok, of "slot i" "slot e"] by (simp add: get_entry_def)
    then show False using slot_inj [of i e] e Suc.prems by simp
  qed
  then show ?case using Suc by simp
qed simp

lemma sort_middle_above_least:
  fixes xs :: "'a::linorder list"
  assumes "distinct xs" "2 \<le> length xs"
  shows "sort xs ! (length xs div 2) \<in> set xs" "sort xs ! 0 \<in> set xs" "sort xs ! 0 < sort xs ! (length xs div 2)"
proof -
  have len: "length (sort xs) = length xs" by simp
  have m: "length xs div 2 < length xs" "0 < length xs div 2" using assms(2) by auto
  then show "sort xs ! (length xs div 2) \<in> set xs" "sort xs ! 0 \<in> set xs"
    using nth_mem [of _ "sort xs"] by (metis len set_sort gr_implies_not0 neq0_conv)+
  have "sorted_wrt (<) (sort xs)" using assms(1) by (simp add: strict_sorted_iff)
  then show "sort xs ! 0 < sort xs ! (length xs div 2)"
    using sorted_wrt_nth_less [of "(<)" "sort xs" 0 "length xs div 2"] m by simp
qed

text \<open>
  The split key separates the new key from an entry whose position, once empty, the new key can
  use, and it leaves a key below it.
\<close>

lemma split_key_separates:
  assumes ok: "leaf_ok city rs" and k: "k \<noteq> kkeyNull" "leaf_map rs k = None"
    and full: "ekey (rs ! home city k) \<noteq> kkeyNull"
  defines "hash \<equiv> int (home city k)"
  obtains sk e where "hopscotch_get_split_key city rs k = Some sk" "sk \<noteq> kkeyNull"
    "\<exists>x. x \<noteq> kkeyNull \<and> x < sk \<and> (x = k \<or> leaf_map rs x \<noteq> None)"
    "hash \<le> e" "e < hash + 64" "free city rs hash e" "ekey (get_entry rs e) \<noteq> kkeyNull"
    "k < sk \<longleftrightarrow> sk \<le> ekey (get_entry rs e)"
proof -
  let ?crit = "critical_keys city rs hash hash 64" and ?sk = "sort (critical_keys city rs hash hash 64 @ [k]) !
    (length (critical_keys city rs hash hash 64 @ [k]) div 2)"
  have inleaf: "c \<noteq> kkeyNull \<and> leaf_map rs c \<noteq> None" if c: "c \<in> set ?crit" for c
  proof -
    obtain e where "c = ekey (get_entry rs e)" "c \<noteq> kkeyNull" using c by (rule critical_keysD) simp
    then show ?thesis using leaf_map_None [OF ok, of c] slot_less unfolding get_entry_def by metis
  qed
  have d: "distinct (?crit @ [k])" using critical_keys_distinct [OF ok] inleaf [of k] k by auto
  have "hole_reaches city rs hash hash" by (simp add: hole_reaches.simps)
  then have "critical_keys city rs hash hash (Suc 63) \<noteq> []"
    using full unfolding critical_keys.simps by (simp add: get_entry_def hash_def)
  then have ne: "?crit \<noteq> []" by simp
  then have two: "2 \<le> length (?crit @ [k])" by (cases ?crit) auto
  note m = sort_middle_above_least [OF d two]
  have sk: "hopscotch_get_split_key city rs k = Some ?sk"
    using ne by (simp add: hopscotch_get_split_key_def Let_def hash_def)
  have nn: "?sk \<noteq> kkeyNull" using m(1) inleaf k by auto
  have low: "\<exists>x. x \<noteq> kkeyNull \<and> x < ?sk \<and> (x = k \<or> leaf_map rs x \<noteq> None)"
    using m(2,3) inleaf k by (intro exI [of _ "sort (?crit @ [k]) ! 0"]) auto
  obtain c where c: "c \<in> set ?crit" "k < ?sk \<longleftrightarrow> ?sk \<le> c"
  proof (cases "k < ?sk")
    case True
    then show ?thesis using that [of ?sk] m(1) by auto
  next
    case False
    then have "sort (?crit @ [k]) ! 0 \<in> set ?crit" using m(2,3) by auto
    then show ?thesis using that m(3) False by (meson leD)
  qed
  obtain e where e: "hash \<le> e" "e < hash + int 64" "c = ekey (get_entry rs e)" "hole_reaches city rs hash e"
    "\<And>p. hash \<le> p \<Longrightarrow> p \<le> e \<Longrightarrow> ekey (get_entry rs p) \<noteq> kkeyNull"
    using c(1) by (rule critical_keysD) blast
  have "free city rs hash e" using hole_reaches_free [OF ok, of hash e] e by (simp add: hash_def)
  then show ?thesis using that [OF sk nn low e(1)] e c by simp
qed

section \<open>Moving the upper entries\<close>

lemma on_entry_occupy:
  assumes ok: "leaf_ok city rs" and i: "i < 64" "ekey (rs ! i) = kkeyNull"
    and near: "(i + 64 - home city x) mod 64 < 8"
  shows "on_entry (int (home city x)) (set_hop_bit (int ((i + 64 - home city x) mod 64)))
    (rs[i := entry_update x v (rs ! i)]) = Some (occupy city i x v rs)"
proof -
  let ?z = "(i + 64 - home city x) mod 64" and ?r = "rs[i := entry_update x v (rs ! i)]"
  have "hop_bitmap (?r ! home city x) = hop_bitmap (rs ! home city x)"
    using leaf_okD(1) [OF ok] i(1) by (cases "home city x = i") (simp_all add: entry_update_def)
  moreover have "\<not> bit (hop_bitmap (rs ! home city x)) (7 - ?z)"
    using leaf_okD(2) [OF ok home_less near] offset_iff [of "home city x" i ?z] i near by (simp add: homed_def)
  ultimately show ?thesis
    using on_entry_set [of "int ?z" ?r "int (home city x)"] near
    by (simp add: get_entry_def occupy_def Let_def)
qed

lemma on_entry_vacate:
  assumes ok: "leaf_ok city rs" and i: "i < 64" "ekey (rs ! i) \<noteq> kkeyNull"
  defines "x \<equiv> ekey (rs ! i)"
  shows "on_entry (int (home city x)) (unset_hop_bit (int ((i + 64 - home city x) mod 64)))
    (rs[i := entry_update kkeyNull 0 (rs ! i)]) = Some (vacate city i rs)"
    and "(i + 64 - home city x) mod 64 < 8"
proof -
  let ?z = "(i + 64 - home city x) mod 64" and ?r = "rs[i := entry_update kkeyNull 0 (rs ! i)]"
  have hx: "homed city rs i (home city x)" using i by (simp add: homed_def x_def)
  show near: "?z < 8" using leaf_okD(3) [OF ok i(1) hx] .
  have "hop_bitmap (?r ! home city x) = hop_bitmap (rs ! home city x)"
    using leaf_okD(1) [OF ok] i(1) by (cases "home city x = i") (simp_all add: entry_update_def)
  moreover have "bit (hop_bitmap (rs ! home city x)) (7 - ?z)"
    using leaf_okD(2) [OF ok home_less near] offset_iff [of "home city x" i ?z] i near hx by simp
  ultimately show "on_entry (int (home city x)) (unset_hop_bit (int ?z)) ?r = Some (vacate city i rs)"
    using on_entry_unset [of "int ?z" ?r "int (home city x)"] near
    by (simp add: get_entry_def vacate_def Let_def x_def)
qed

definition upper :: "key \<Rightarrow> LeafEntry list \<Rightarrow> nat \<Rightarrow> bool" where
  "upper sk rs p \<longleftrightarrow> ekey (rs ! p) \<noteq> kkeyNull \<and> sk \<le> ekey (rs ! p)"

lemma split_entries_keep:
  "\<not> upper sk rs (64 - Suc n) \<Longrightarrow> split_entries city sk (Suc n) rs sib = split_entries city sk n rs sib"
  by (auto simp: Let_def upper_def)

lemma split_entries_move:
  assumes "leaf_ok city rs" "leaf_ok city sib" "Suc n \<le> 64" "upper sk rs (64 - Suc n)"
    "ekey (sib ! (64 - Suc n)) = kkeyNull"
  shows "split_entries city sk (Suc n) rs sib = split_entries city sk n (vacate city (64 - Suc n) rs)
    (occupy city (64 - Suc n) (ekey (rs ! (64 - Suc n))) (evalue (rs ! (64 - Suc n))) sib)"
proof -
  define i where "i = 64 - Suc n"
  let ?x = "ekey (rs ! i)"
  have i: "i < 64" using assms(3) by (simp add: i_def)
  have u: "?x \<noteq> kkeyNull" "sk \<le> ?x" using assms(4) by (auto simp: upper_def i_def)
  define off where "off = (if home city ?x \<le> i then int i - int (home city ?x) else int i + 64 - int (home city ?x))"
  have off: "off = int ((i + 64 - home city ?x) mod 64)"
  proof -
    have "int (i + 64 - home city ?x) = int i + 64 - int (home city ?x)"
      by (subst of_nat_diff) (use home_less [of city ?x] in linarith, simp)
    then show ?thesis using i offset_cases [of "home city ?x" i] by (auto simp: off_def)
  qed
  note v = on_entry_vacate [OF assms(1) i u(1)]
  note o = on_entry_occupy [OF assms(2) i assms(5) [folded i_def] v(2)]
  have "split_entries city sk (Suc n) rs sib =
      (case on_entry (int (home city ?x)) (set_hop_bit off) (sib[i := entry_update ?x (evalue (rs ! i)) (sib ! i)]) of
         None \<Rightarrow> None
       | Some sib' \<Rightarrow> (case on_entry (int (home city ?x)) (unset_hop_bit off) (rs[i := entry_update kkeyNull 0 (rs ! i)]) of
           None \<Rightarrow> None | Some rs' \<Rightarrow> split_entries city sk n rs' sib'))"
    using u unfolding split_entries.simps Let_def leafSpanSize_def i_def [symmetric] off_def of_nat_numeral by simp
  then show ?thesis unfolding off v(1) o by (simp add: i_def)
qed

lemma next_position: "Suc n \<le> 64 \<Longrightarrow> p \<noteq> 64 - Suc n \<Longrightarrow> 64 - Suc n \<le> p \<longleftrightarrow> 64 - n \<le> p"
  for n p :: nat
  by arith

text \<open>The entries from position \<open>i\<close> on with keys from \<open>sk\<close> on have gone from \<open>rs\<close> to the sibling.\<close>

definition parted :: "key \<Rightarrow> nat \<Rightarrow> LeafEntry list \<Rightarrow> LeafEntry list \<Rightarrow> LeafEntry list \<Rightarrow> LeafEntry list \<Rightarrow> bool" where
  "parted sk i rs sib rs' sib' \<longleftrightarrow> (\<forall>p < 64. let u = i \<le> p \<and> upper sk rs p in
       ekey (rs' ! p) = (if u then kkeyNull else ekey (rs ! p)) \<and>
       evalue (rs' ! p) = (if u then 0 else evalue (rs ! p)) \<and>
       ekey (sib' ! p) = (if u then ekey (rs ! p) else ekey (sib ! p)) \<and>
       evalue (sib' ! p) = (if u then evalue (rs ! p) else evalue (sib ! p)))"

lemma split_entries_ok:
  assumes "leaf_ok city rs" "leaf_ok city sib" "n \<le> 64"
    "\<And>p. 64 - n \<le> p \<Longrightarrow> p < 64 \<Longrightarrow> ekey (sib ! p) = kkeyNull"
    "\<And>x. leaf_map sib x \<noteq> None \<Longrightarrow> leaf_map rs x = None"
  shows "\<exists>rs' sib'. split_entries city sk n rs sib = Some (rs', sib') \<and> leaf_ok city rs' \<and> leaf_ok city sib' \<and>
    parted sk (64 - n) rs sib rs' sib'"
  using assms
proof (induction n arbitrary: rs sib)
  case (Suc n)
  let ?i = "64 - Suc n"
  have i: "?i < 64" "64 - n = Suc ?i" using Suc.prems(3) by auto
  show ?case
  proof (cases "upper sk rs ?i")
    case False
    have p: "64 - Suc n \<le> p \<and> upper sk rs p \<longleftrightarrow> 64 - n \<le> p \<and> upper sk rs p" for p
      using False next_position [OF Suc.prems(3), of p] by (cases "p = 64 - Suc n") auto
    have "\<And>p. 64 - n \<le> p \<Longrightarrow> p < 64 \<Longrightarrow> ekey (sib ! p) = kkeyNull" using Suc.prems(4) i(2) by simp
    with Suc.IH [OF Suc.prems(1,2) _ _ Suc.prems(5)] Suc.prems(3) show ?thesis
      unfolding split_entries_keep [OF False] parted_def p by simp
  next
    case True
    let ?x = "ekey (rs ! ?i)" and ?w = "evalue (rs ! ?i)"
    let ?rs = "vacate city ?i rs" and ?sib = "occupy city ?i ?x ?w sib"
    have x: "?x \<noteq> kkeyNull" using True by (simp add: upper_def)
    have empty: "ekey (sib ! ?i) = kkeyNull" using Suc.prems(4) i by simp
    note near = on_entry_vacate(2) [OF Suc.prems(1) i(1) x]
    have "leaf_map rs ?x \<noteq> None" using leaf_map_None [OF Suc.prems(1)] i x by metis
    then have nx: "leaf_map sib ?x = None" using Suc.prems(5) [of ?x] by metis
    note v = vacate_ok [OF Suc.prems(1) i(1) x] and o = occupy_ok [OF Suc.prems(2) i(1) empty near x nx]
    note nth = vacate_nth [OF leaf_okD(1) [OF Suc.prems(1)] i(1) _ near]
      occupy_nth [where v = ?w, OF leaf_okD(1) [OF Suc.prems(2)] i(1) _ near]
    have e: "\<And>p. 64 - n \<le> p \<Longrightarrow> p < 64 \<Longrightarrow> ekey (?sib ! p) = kkeyNull"
      using Suc.prems(4) i(2) nth by simp
    have d: "\<And>y. leaf_map ?sib y \<noteq> None \<Longrightarrow> leaf_map ?rs y = None"
      using Suc.prems(5) unfolding v(2) o(2) by (auto split: if_splits)
    obtain rs' sib' where r: "split_entries city sk n ?rs ?sib = Some (rs', sib')" "leaf_ok city rs'" "leaf_ok city sib'"
      and "parted sk (64 - n) ?rs ?sib rs' sib'"
    proof -
      have "\<exists>rs' sib'. split_entries city sk n ?rs ?sib = Some (rs', sib') \<and> leaf_ok city rs' \<and> leaf_ok city sib' \<and>
          parted sk (64 - n) ?rs ?sib rs' sib'"
        by (rule Suc.IH [OF v(1) o(1)]) (use Suc.prems(3) in simp, rule e, assumption+, rule d, assumption)
      then show thesis using that by blast
    qed
    note r4 = this(4) [unfolded parted_def, rule_format]
    have "let u = ?i \<le> p \<and> upper sk rs p in
         ekey (rs' ! p) = (if u then kkeyNull else ekey (rs ! p)) \<and>
         evalue (rs' ! p) = (if u then 0 else evalue (rs ! p)) \<and>
         ekey (sib' ! p) = (if u then ekey (rs ! p) else ekey (sib ! p)) \<and>
         evalue (sib' ! p) = (if u then evalue (rs ! p) else evalue (sib ! p))" if p: "p < 64" for p
    proof (cases "p = ?i")
      case True
      then show ?thesis
        using r4 [OF p] nth [OF p] i(2) \<open>upper sk rs ?i\<close> by (simp add: Let_def)
    next
      case False
      then have "?i \<le> p \<longleftrightarrow> 64 - n \<le> p" by (rule next_position [OF Suc.prems(3)])
      moreover have "upper sk ?rs p = upper sk rs p" using False nth p by (simp add: upper_def)
      ultimately show ?thesis
        using r4 [OF p] nth [OF p] False by (simp add: Let_def)
    qed
    then show ?thesis
      using r unfolding split_entries_move [OF Suc.prems(1-3) True empty] parted_def by blast
  qed
qed (auto simp: Let_def parted_def)

section \<open>The largest key\<close>

lemma max_key_loop_cases:
  fixes mk :: key and rs :: "LeafEntry list" and i n idx :: nat
  defines "r \<equiv> max_key_loop rs i n mk idx"
  shows "(r = idx \<and> (\<forall>p. i \<le> p \<and> p < i + n \<longrightarrow> ekey (rs ! p) \<le> mk)) \<or>
    (i \<le> r \<and> r < i + n \<and> mk < ekey (rs ! r) \<and> (\<forall>p. i \<le> p \<and> p < i + n \<longrightarrow> ekey (rs ! p) \<le> ekey (rs ! r)))"
  unfolding r_def
proof (induction n arbitrary: i mk idx)
  case (Suc n)
  have split: "(\<forall>p. i \<le> p \<and> p < i + Suc n \<longrightarrow> Q p) \<longleftrightarrow> Q i \<and> (\<forall>p. Suc i \<le> p \<and> p < Suc i + n \<longrightarrow> Q p)"
    for Q :: "nat \<Rightarrow> bool" by (auto, metis Suc_leI le_neq_implies_less)
  show ?case
  proof (cases "mk < ekey (rs ! i)")
    case True
    then have eq: "max_key_loop rs i (Suc n) mk idx = max_key_loop rs (Suc i) n (ekey (rs ! i)) i" by simp
    from Suc.IH [of "Suc i" "ekey (rs ! i)" i] True show ?thesis
      unfolding eq split by (auto intro: less_imp_le)
  next
    case False
    then have eq: "max_key_loop rs i (Suc n) mk idx = max_key_loop rs (Suc i) n mk idx" by simp
    from Suc.IH [of "Suc i" mk idx] False show ?thesis
      unfolding eq split by (auto simp: not_less)
  qed
qed auto

lemma get_max_key_idx_max:
  assumes "\<And>p. p < 64 \<Longrightarrow> length (ekey (rs ! p)) = keyLen" "p0 < 64" "ekey (rs ! p0) \<noteq> kkeyNull"
  shows "get_max_key_idx rs < 64" "\<And>p. p < 64 \<Longrightarrow> ekey (rs ! p) \<le> ekey (rs ! get_max_key_idx rs)"
    "ekey (rs ! get_max_key_idx rs) \<noteq> kkeyNull"
proof -
  have "kkeyNull < ekey (rs ! p0)" using assms by (simp add: key_null_least)
  then have "get_max_key_idx rs < 64 \<and> kkeyNull < ekey (rs ! get_max_key_idx rs) \<and>
      (\<forall>p < 64. ekey (rs ! p) \<le> ekey (rs ! get_max_key_idx rs))"
    using max_key_loop_cases [of rs 0 64 kkeyNull 0] assms(2) by (auto simp: get_max_key_idx_def dest!: spec [of _ p0])
  then show "get_max_key_idx rs < 64" "\<And>p. p < 64 \<Longrightarrow> ekey (rs ! p) \<le> ekey (rs ! get_max_key_idx rs)"
    "ekey (rs ! get_max_key_idx rs) \<noteq> kkeyNull" by auto
qed

section \<open>The split is correct\<close>

text \<open>A half that keeps only entries of \<open>rs\<close> and has an empty entry a hole can travel from takes the key.\<close>

lemma insert_half:
  assumes half: "leaf_ok city half" "\<And>p. p < 64 \<Longrightarrow> ekey (half ! p) = kkeyNull \<or> ekey (half ! p) = ekey (rs ! p)"
    and k: "k \<noteq> kkeyNull" "leaf_map half k = None"
    and e: "int (home city k) \<le> e" "e < int (home city k) + 64" "ekey (half ! slot e) = kkeyNull"
      "free city rs (int (home city k)) e"
  obtains r i where "hopscotch_insert_locally city half k v = Some (r, i)" "leaf_ok city r"
    "leaf_map r = (leaf_map half)(k \<mapsto> v)"
proof -
  let ?h = "int (home city k)"
  obtain e1 where e1: "find_empty half ?h 64 = Some e1"
    using find_empty_None [of half ?h 64] e by (cases "find_empty half ?h 64") (auto simp: get_entry_def)
  have f: "?h \<le> e1" "e1 < ?h + 64" "ekey (half ! slot e1) = kkeyNull"
    "\<And>p. ?h \<le> p \<Longrightarrow> p < e1 \<Longrightarrow> ekey (half ! slot p) \<noteq> kkeyNull"
    using find_empty_Some [OF e1] by (auto simp: get_entry_def)
  have "e1 \<le> e" using f(4) [of e] e by force
  then have fr: "free city rs ?h e1" using free_mono e(4) by blast
  note len = leaf_okD(1) [OF half(1)]
  note c = clear_empty [OF half(1) slot_less f(3)]
  have "homed city (clear (slot e1) half) (slot p) b \<longleftrightarrow> homed city rs (slot p) b" if "?h \<le> p" "p < e1" for p b
    using f(3) f(4) [of p] half(2) [of "slot p"] that len by (auto simp: homed_def clear_nth)
  then have "hop_loop ?h k v half e1 [] \<noteq> Some None"
    using hop_loop_free [OF len c(1) _ k(1) refl f(1,2) fr] c(2) k(2) by simp
  then obtain r hopped where "hop_loop ?h k v half e1 [] = Some (Some (r, hopped))" "leaf_ok city r"
      "leaf_map r = (leaf_map half)(k \<mapsto> v)"
    using insert_at_empty [OF half(1) k e1, of v "[]"] by auto
  then show ?thesis using that e1 by (simp add: hopscotch_insert_locally_def)
qed

lemma if_mapI: "(\<And>w. a = Some w \<longleftrightarrow> P \<and> b = Some w) \<Longrightarrow> a = (if P then b else None)"
  by (cases a; cases b) auto

lemma parted_maps:
  assumes ok: "leaf_ok city rs" "leaf_ok city rs'" "leaf_ok city sib'"
    and p: "parted sk 0 rs (replicate 64 LeafEntry_Null) rs' sib'"
  shows "leaf_map rs' x = (if x < sk then leaf_map rs x else None)"
    "leaf_map sib' x = (if x < sk then None else leaf_map rs x)"
proof -
  have r: "ekey (rs' ! q) = (if upper sk rs q then kkeyNull else ekey (rs ! q))"
      "evalue (rs' ! q) = (if upper sk rs q then 0 else evalue (rs ! q))"
      "ekey (sib' ! q) = (if upper sk rs q then ekey (rs ! q) else kkeyNull)"
      "upper sk rs q \<Longrightarrow> evalue (sib' ! q) = evalue (rs ! q)" if "q < 64" for q
    using p that by (auto simp: parted_def Let_def LeafEntry_Null_def)
  have "leaf_map rs' x = Some w \<longleftrightarrow> x < sk \<and> leaf_map rs x = Some w" for w
    unfolding leaf_map_iff [OF ok(1)] leaf_map_iff [OF ok(2)]
    by (auto simp: r upper_def not_le cong: conj_cong split: if_splits)
  moreover have "leaf_map sib' x = Some w \<longleftrightarrow> \<not> x < sk \<and> leaf_map rs x = Some w" for w
    unfolding leaf_map_iff [OF ok(1)] leaf_map_iff [OF ok(3)]
    by (auto simp: r upper_def not_less cong: conj_cong split: if_splits)
  ultimately show "leaf_map rs' x = (if x < sk then leaf_map rs x else None)"
    "leaf_map sib' x = (if x < sk then None else leaf_map rs x)"
    using if_mapI [of "leaf_map rs' x" "x < sk" "leaf_map rs x"] if_mapI [of "leaf_map sib' x" "\<not> x < sk" "leaf_map rs x"]
    by simp_all
qed

lemma insert_halves:
  assumes ok: "leaf_ok city rs" and k: "k \<noteq> kkeyNull" "leaf_map rs k = None"
    and rs: "leaf_ok city r" "leaf_ok city s" "parted sk 0 rs (replicate 64 LeafEntry_Null) r s"
    and e: "int (home city k) \<le> e" "e < int (home city k) + 64" "free city rs (int (home city k)) e"
      "ekey (get_entry rs e) \<noteq> kkeyNull" "k < sk \<longleftrightarrow> sk \<le> ekey (get_entry rs e)"
  shows "\<exists>r' s'. (if k < sk then map_option (\<lambda>(a, _). (a, s)) (hopscotch_insert_locally city r k v)
        else map_option (\<lambda>(a, _). (r, a)) (hopscotch_insert_locally city s k v)) = Some (r', s') \<and>
    leaf_ok city r' \<and> leaf_ok city s' \<and>
    (\<forall>x. leaf_map r' x = (if x < sk then ((leaf_map rs)(k \<mapsto> v)) x else None)) \<and>
    (\<forall>x. leaf_map s' x = (if x < sk then None else ((leaf_map rs)(k \<mapsto> v)) x))"
proof -
  note maps = parted_maps [OF ok rs]
  have nth: "ekey (r ! q) = (if upper sk rs q then kkeyNull else ekey (rs ! q))"
      "ekey (s ! q) = (if upper sk rs q then ekey (rs ! q) else kkeyNull)" if "q < 64" for q
    using rs(3) that by (auto simp: parted_def Let_def LeafEntry_Null_def)
  have up: "upper sk rs (slot e) \<longleftrightarrow> k < sk" using e(4,5) by (auto simp: upper_def get_entry_def)
  show ?thesis
  proof (cases "k < sk")
    case True
    obtain a i where "hopscotch_insert_locally city r k v = Some (a, i)" "leaf_ok city a" "leaf_map a = (leaf_map r)(k \<mapsto> v)"
      using insert_half [OF rs(1) _ k(1) _ e(1,2) _ e(3)] maps(1) k(2) up True nth by (metis slot_less)
    then show ?thesis using True rs maps by auto
  next
    case False
    obtain a i where "hopscotch_insert_locally city s k v = Some (a, i)" "leaf_ok city a" "leaf_map a = (leaf_map s)(k \<mapsto> v)"
      using insert_half [OF rs(2) _ k(1) _ e(1,2) _ e(3)] maps(2) k(2) up False nth by (metis slot_less)
    then show ?thesis using False rs maps by auto
  qed
qed

text \<open>One above the largest key of the left half separates the halves like the split key does.\<close>

lemma split_key_above:
  assumes ok: "leaf_ok city rs" "leaf_ok city r'" "leaf_ok city s'"
    and r: "\<And>x. leaf_map r' x = (if x < sk then ((leaf_map rs)(k \<mapsto> v)) x else None)"
    and len: "\<forall>e \<in> set rs. length (ekey e) = keyLen \<and> ekey e < replicate keyLen 0xFF"
    and k: "k \<noteq> kkeyNull" "length k = keyLen" "k < replicate keyLen 0xFF"
    and low: "\<exists>x. x \<noteq> kkeyNull \<and> x < sk \<and> (x = k \<or> leaf_map rs x \<noteq> None)"
    and x: "((leaf_map rs)(k \<mapsto> v)) x \<noteq> None"
  shows "x < key_add (ekey (r' ! get_max_key_idx r')) 1 \<longleftrightarrow> x < sk"
proof -
  have old: "length y = keyLen \<and> y < replicate keyLen 0xFF" if y: "((leaf_map rs)(k \<mapsto> v)) y \<noteq> None" for y
  proof (cases "y = k")
    case False
    then have "leaf_map rs y \<noteq> None" using y by simp
    then obtain i where "i < 64" "ekey (rs ! i) = y" using leaf_map_None [OF ok(1), of y] by metis
    then show ?thesis using len leaf_okD(1) [OF ok(1)] nth_mem by metis
  qed (use k in simp)
  have key: "ekey (r' ! p) = kkeyNull \<or>
      ekey (r' ! p) < sk \<and> ((leaf_map rs)(k \<mapsto> v)) (ekey (r' ! p)) \<noteq> None" if "p < 64" for p
    using r [of "ekey (r' ! p)"] leaf_map_None [OF ok(2), of "ekey (r' ! p)"] that by (auto split: if_splits)
  have l: "length (ekey (r' ! p)) = keyLen" if "p < 64" for p
    using key [OF that] old by (auto simp: kkeyNull_def)
  obtain y where "y \<noteq> kkeyNull" "y < sk" "y = k \<or> leaf_map rs y \<noteq> None" using low by blast
  then have "leaf_map r' y \<noteq> None" using r [of y] by auto
  then obtain p0 where "p0 < 64" "ekey (r' ! p0) \<noteq> kkeyNull" using leaf_map_None [OF ok(2), of y] by auto
  note m = get_max_key_idx_max [OF l this]
  let ?m = "ekey (r' ! get_max_key_idx r')"
  have mm: "?m < sk" "((leaf_map rs)(k \<mapsto> v)) ?m \<noteq> None" using key [OF m(1)] m(3) by auto
  have "x < key_add ?m 1 \<longleftrightarrow> x \<le> ?m"
    using key_add_one_next [of ?m x] old [OF mm(2)] old [OF x] by simp
  also have "\<dots> \<longleftrightarrow> x < sk"
  proof
    assume "x < sk"
    then have "leaf_map r' x \<noteq> None" using r [of x] x by simp
    then obtain p where "p < 64" "ekey (r' ! p) = x" using leaf_map_None [OF ok(2), of x] by auto
    then show "x \<le> ?m" using m(2) by blast
  qed (use mm in simp)
  finally show ?thesis .
qed

lemma hopscotch_split_ok:
  fixes leaf :: LeafNode
  defines "rs \<equiv> records leaf"
  assumes ok: "leaf_ok city rs" and len: "\<forall>e \<in> set rs. length (ekey e) = keyLen \<and> ekey e < replicate keyLen 0xFF"
    and k: "k \<noteq> kkeyNull" "length k = keyLen" "k < replicate keyLen 0xFF" "leaf_map rs k = None"
    and full: "hopscotch_insert city rs k v 64 = Some None"
  shows "\<exists>leaf' sib sk. hopscotch_split city leaf k v addr = Some (leaf', sib, sk) \<and>
    leaf_ok city (records leaf') \<and> leaf_ok city (records sib) \<and>
    (\<forall>x. leaf_map (records leaf') x = (if x < sk then ((leaf_map rs)(k \<mapsto> v)) x else None)) \<and>
    (\<forall>x. leaf_map (records sib) x = (if x < sk then None else ((leaf_map rs)(k \<mapsto> v)) x)) \<and>
    sibling_ptr leaf' = addr \<and> sibling_ptr sib = (if is_root leaf then 0 else sibling_ptr leaf) \<and>
    fence_highest leaf' = sk \<and> fence_lowest sib = sk \<and> fence_highest sib = fence_highest leaf \<and>
    sk = key_add (ekey (records leaf' ! get_max_key_idx (records leaf'))) 1 \<and> valid leaf' = valid leaf \<and> valid sib = 1 \<and>
    fence_lowest leaf' = fence_lowest leaf \<and>
    leaf_map (records leaf') \<noteq> Map.empty \<and> leaf_map (records sib) \<noteq> Map.empty"
proof -
  have home_full: "ekey (rs ! home city k) \<noteq> kkeyNull"
  proof (rule hopscotch_insert_cases [OF ok k(1,4), of 64 v])
    assume "\<And>z. z < 8 \<Longrightarrow> ekey (rs ! ((home city k + z) mod 64)) \<noteq> kkeyNull"
    from this [of 0] show ?thesis by simp
  qed (use full in simp_all)
  obtain sk e where sk: "hopscotch_get_split_key city rs k = Some sk" "sk \<noteq> kkeyNull"
      "\<exists>x. x \<noteq> kkeyNull \<and> x < sk \<and> (x = k \<or> leaf_map rs x \<noteq> None)"
    and e: "int (home city k) \<le> e" "e < int (home city k) + 64" "free city rs (int (home city k)) e"
      "ekey (get_entry rs e) \<noteq> kkeyNull" "k < sk \<longleftrightarrow> sk \<le> ekey (get_entry rs e)"
    using split_key_separates [OF ok k(1,4) home_full] by blast
  obtain r s where rs: "split_entries city sk 64 rs (records new_LeafNode) = Some (r, s)" "leaf_ok city r" "leaf_ok city s"
      "parted sk 0 rs (replicate 64 LeafEntry_Null) r s"
  proof -
    have "\<exists>r s. split_entries city sk 64 rs (replicate 64 LeafEntry_Null) = Some (r, s) \<and> leaf_ok city r \<and>
        leaf_ok city s \<and> parted sk (64 - 64) rs (replicate 64 LeafEntry_Null) r s"
      by (rule split_entries_ok [OF ok empty_leaf_ok]) (simp_all add: empty_leaf_map LeafEntry_Null_def [THEN arg_cong [of _ _ ekey]])
    then show thesis using that by (auto simp: new_LeafNode_def)
  qed
  note maps = parted_maps [OF ok rs(2-4)]
  obtain r' s' where ins: "(if k < sk then map_option (\<lambda>(a, _). (a, s)) (hopscotch_insert_locally city r k v)
        else map_option (\<lambda>(a, _). (r, a)) (hopscotch_insert_locally city s k v)) = Some (r', s')"
      and ok': "leaf_ok city r'" "leaf_ok city s'"
      and map': "\<And>x. leaf_map r' x = (if x < sk then ((leaf_map rs)(k \<mapsto> v)) x else None)"
        "\<And>x. leaf_map s' x = (if x < sk then None else ((leaf_map rs)(k \<mapsto> v)) x)"
    using insert_halves [OF ok k(1,4) rs(2-4) e, of v] that by blast
  define sk' where "sk' = key_add (ekey (r' ! get_max_key_idx r')) 1"
  have sep: "x < sk' \<longleftrightarrow> x < sk" if "((leaf_map rs)(k \<mapsto> v)) x \<noteq> None" for x
    using split_key_above [OF ok ok' map'(1) len k(1-3) sk(3) that] unfolding sk'_def .
  have "hopscotch_split city leaf k v addr = Some
      (leaf\<lparr>records := r', fence_highest := sk', sibling_ptr := addr\<rparr>,
       new_LeafNode\<lparr>records := s', fence_lowest := sk', fence_highest := fence_highest leaf,
         sibling_ptr := if sibling_ptr leaf = Widest then 0 else sibling_ptr leaf\<rparr>, sk')"
    using sk rs ins unfolding hopscotch_split_def rs_def [symmetric] by (simp add: Let_def sk'_def)
  moreover have "leaf_map r' x = (if x < sk' then ((leaf_map rs)(k \<mapsto> v)) x else None)"
      "leaf_map s' x = (if x < sk' then None else ((leaf_map rs)(k \<mapsto> v)) x)" for x
    unfolding map' using sep [of x] by (cases "((leaf_map rs)(k \<mapsto> v)) x = None"; simp del: fun_upd_apply)+
  moreover have "leaf_map r' \<noteq> Map.empty"
  proof -
    obtain x where "x < sk" "x = k \<or> leaf_map rs x \<noteq> None" using sk(3) by blast
    then have "leaf_map r' x \<noteq> None" unfolding map' by auto
    then show ?thesis by auto
  qed
  moreover have "leaf_map s' \<noteq> Map.empty"
  proof -
    have "\<not> k < sk \<or> \<not> ekey (get_entry rs e) < sk" using e(5) by auto
    moreover have "leaf_map rs (ekey (get_entry rs e)) \<noteq> None"
      using leaf_map_None [OF ok, of "ekey (get_entry rs e)"] e(4) slot_less [of e] unfolding get_entry_def by metis
    ultimately have "leaf_map s' k \<noteq> None \<or> leaf_map s' (ekey (get_entry rs e)) \<noteq> None" unfolding map' by auto
    then show ?thesis by auto
  qed
  ultimately show ?thesis using ok' by (simp add: is_root_def sk'_def new_LeafNode_def)
qed

text \<open>
  C14: A leaf that an insertion reports as full is split without a failed assertion, although the new
  key is only ever tried at the first empty entry: both halves are well-formed, together they hold the old
  pairs and the new one, the keys of the left half are exactly those below the separator handed to the
  parent, and the sibling pointers keep the order of the leaves.
\<close>

theorem hopscotch_split_correct:
  fixes leaf :: LeafNode
  defines "rs \<equiv> records leaf"
  assumes ok: "leaf_ok city rs" and len: "\<forall>e \<in> set rs. length (ekey e) = keyLen \<and> ekey e < replicate keyLen 0xFF"
    and k: "k \<noteq> kkeyNull" "length k = keyLen" "k < replicate keyLen 0xFF" "leaf_map rs k = None"
    and full: "hopscotch_insert city rs k v 64 = Some None"
  shows "\<exists>leaf' sib sk. hopscotch_split city leaf k v addr = Some (leaf', sib, sk) \<and>
    leaf_ok city (records leaf') \<and> leaf_ok city (records sib) \<and>
    (\<forall>x. leaf_map (records leaf') x = (if x < sk then ((leaf_map rs)(k \<mapsto> v)) x else None)) \<and>
    (\<forall>x. leaf_map (records sib) x = (if x < sk then None else ((leaf_map rs)(k \<mapsto> v)) x)) \<and>
    sibling_ptr leaf' = addr \<and> sibling_ptr sib = (if is_root leaf then 0 else sibling_ptr leaf) \<and>
    fence_highest leaf' = sk \<and> fence_lowest sib = sk \<and> fence_highest sib = fence_highest leaf"
proof -
  note r = hopscotch_split_ok [OF ok [unfolded rs_def] len [unfolded rs_def] k(1-3) k(4) [unfolded rs_def] full [unfolded rs_def], of addr]
  then show ?thesis unfolding rs_def by (elim exE conjE) (intro exI conjI; assumption)
qed

text \<open>Eight keys of one home: the ninth does not fit, and the leaf is split.\<close>

definition crowded_pairs :: "(nat \<times> key \<times> u64) list" where
  "crowded_pairs = map (\<lambda>i. (i, sample_key (of_nat i) 64, of_nat i + 1)) [0..<8]"

definition crowded_leaf :: LeafNode where
  "crowded_leaf = new_LeafNode\<lparr>sibling_ptr := Widest,
     records := fill sample_city crowded_pairs (replicate 64 LeafEntry_Null)\<rparr>"

lemma crowded_ok: "leaf_ok sample_city (records crowded_leaf)"
  and crowded_map: "leaf_map (records crowded_leaf) = fold (\<lambda>(i, k, v) m. m(k \<mapsto> v)) crowded_pairs Map.empty"
proof -
  have "leaf_ok sample_city (records crowded_leaf) \<and> leaf_map (records crowded_leaf) =
      fold (\<lambda>(i, k, v) m. m(k \<mapsto> v)) crowded_pairs (leaf_map (replicate 64 LeafEntry_Null))"
    unfolding crowded_leaf_def LeafNode.select_convs LeafNode.update_convs new_LeafNode_def
  proof (rule fill_ok [OF empty_leaf_ok])
    show "distinct (map fst crowded_pairs)" by code_simp
    show "distinct (map (fst \<circ> snd) crowded_pairs)" by code_simp
    have "\<forall>(i, k, v) \<in> set crowded_pairs. i < 64 \<and> k \<noteq> kkeyNull \<and> (i + 64 - home sample_city k) mod 64 < 8" by code_simp
    then show "\<forall>(i, k, v) \<in> set crowded_pairs. i < 64 \<and> k \<noteq> kkeyNull \<and> (i + 64 - home sample_city k) mod 64 < 8 \<and>
        ekey (replicate 64 LeafEntry_Null ! i) = kkeyNull \<and> leaf_map (replicate 64 LeafEntry_Null) k = None"
      by (auto simp: empty_leaf_map)
  qed
  then show "leaf_ok sample_city (records crowded_leaf)"
    "leaf_map (records crowded_leaf) = fold (\<lambda>(i, k, v) m. m(k \<mapsto> v)) crowded_pairs Map.empty"
    by (simp_all add: empty_leaf_map)
qed

theorem hopscotch_split_correct_witness:
  "\<exists>leaf' sib sk. hopscotch_split sample_city crowded_leaf (sample_key 5 0) 50 4096 = Some (leaf', sib, sk) \<and>
     leaf_ok sample_city (records leaf') \<and> leaf_ok sample_city (records sib) \<and>
     sibling_ptr leaf' = 4096 \<and> sibling_ptr sib = 0"
proof -
  have "\<exists>leaf' sib sk. hopscotch_split sample_city crowded_leaf (sample_key 5 0) 50 4096 = Some (leaf', sib, sk) \<and>
    leaf_ok sample_city (records leaf') \<and> leaf_ok sample_city (records sib) \<and>
    (\<forall>x. leaf_map (records leaf') x =
       (if x < sk then ((leaf_map (records crowded_leaf))(sample_key 5 0 \<mapsto> 50)) x else None)) \<and>
    (\<forall>x. leaf_map (records sib) x =
       (if x < sk then None else ((leaf_map (records crowded_leaf))(sample_key 5 0 \<mapsto> 50)) x)) \<and>
    sibling_ptr leaf' = 4096 \<and> sibling_ptr sib = (if is_root crowded_leaf then 0 else sibling_ptr crowded_leaf) \<and>
    fence_highest leaf' = sk \<and> fence_lowest sib = sk \<and> fence_highest sib = fence_highest crowded_leaf"
  proof (rule hopscotch_split_correct [OF crowded_ok])
    show "\<forall>e \<in> set (records crowded_leaf). length (ekey e) = keyLen \<and> ekey e < replicate keyLen 0xFF" by code_simp
    show "sample_key 5 0 \<noteq> kkeyNull" by code_simp
    show "length (sample_key 5 0) = keyLen" by code_simp
    show "sample_key 5 0 < replicate keyLen 0xFF" by code_simp
    show "leaf_map (records crowded_leaf) (sample_key 5 0) = None" unfolding crowded_map by code_simp
    show "hopscotch_insert sample_city (records crowded_leaf) (sample_key 5 0) 50 64 = Some None" by code_simp
  qed
  moreover have "is_root crowded_leaf" by code_simp
  ultimately show ?thesis by auto
qed

end
