(* ===== verification/Chime_Vacancy.thy ===== *)
theory Chime_Vacancy
  imports Chime_Split
begin

text \<open>
  The vacancy-aware lock of a CHIME leaf (\<open>VALOCK\<close> in \<open>CHIME/include/Metadata.h\<close>) and the insertion
  that uses it (\<open>leaf_node_insert\<close>, \<open>segment_write_and_unlock\<close> and \<open>entry_write_and_unlock\<close> of
  \<open>CHIME/src/Tree.cpp\<close>).  The lock word carries a bitmap of the full buckets and the position of
  the largest key, so that the owner of the lock reads only a window of the leaf.
\<close>

section \<open>The lock word\<close>

text \<open>With 64 entries per node, \<open>vacancyMapBit\<close> is 57 and \<open>maxKeyIdxBit\<close> is 6.\<close>

definition vacancyMapBit :: nat where
  "vacancyMapBit = 57"

record VALOCK =
  vacancy_bitmap :: "57 word"
  max_key_idx :: "6 word"

text \<open>
  \<open>find_bucket\<close> and \<open>get_idx_range_in_bucket\<close>: the source divides doubles and takes the floor.  The
  quotients are at least 1/64 away from every integer they do not equal, so that the floor is the one of
  the exact quotient.
\<close>

definition find_bucket :: "nat \<Rightarrow> nat" where
  "find_bucket kv_idx = (kv_idx * vacancyMapBit div leafSpanSize) mod vacancyMapBit"

definition get_first :: "nat \<Rightarrow> nat" where
  "get_first bucket_id = bucket_id * leafSpanSize div vacancyMapBit +
     (if leafSpanSize * bucket_id mod vacancyMapBit \<noteq> 0 then 1 else 0)"

definition get_idx_range_in_bucket :: "nat \<Rightarrow> nat \<times> nat" where
  "get_idx_range_in_bucket bucket =
     (let r_idx = get_first (bucket + 1) - 1 in
      (get_first bucket, if leafSpanSize \<le> r_idx then leafSpanSize - 1 else r_idx))"

definition set_buckets :: "nat list \<Rightarrow> 57 word \<Rightarrow> 57 word" where
  "set_buckets bs w = fold (\<lambda>i w. w OR push_bit i 1) bs w"

fun clear_buckets :: "(nat \<Rightarrow> bool) \<Rightarrow> nat list \<Rightarrow> 57 word \<Rightarrow> 57 word option" where
  "clear_buckets allowed [] w = Some w"
| "clear_buckets allowed (empty_idx # es) w =
     (let i = find_bucket empty_idx in
      if allowed i then clear_buckets allowed es (w AND NOT (push_bit i 1)) else None)"

definition update_vacancy :: "nat \<Rightarrow> nat \<Rightarrow> nat list \<Rightarrow> VALOCK \<Rightarrow> VALOCK option" where
  "update_vacancy l r empty_idxes lock =
     (let l_bit = find_bucket l; r_bit = find_bucket r;
          bs = (if l_bit \<le> r_bit then [l_bit..<r_bit + 1] else [0..<r_bit + 1] @ [l_bit..<vacancyMapBit]);
          allowed = (\<lambda>i. if l_bit \<le> r_bit then l_bit \<le> i \<and> i \<le> r_bit
                         else i \<le> r_bit \<or> l_bit \<le> i \<and> i < vacancyMapBit) in
      map_option (\<lambda>w. lock\<lparr>vacancy_bitmap := w\<rparr>)
        (clear_buckets allowed empty_idxes (set_buckets bs (vacancy_bitmap lock))))"

text \<open>The loop over the buckets, \<open>n\<close> of them still to look at.\<close>

fun read_entry_num_loop :: "57 word \<Rightarrow> nat \<Rightarrow> nat \<Rightarrow> nat" where
  "read_entry_num_loop bitmap start_idx 0 = leafSpanSize"
| "read_entry_num_loop bitmap start_idx (Suc n) =
     (let e_bit = (find_bucket start_idx + (vacancyMapBit - Suc n)) mod vacancyMapBit;
          (l_idx, r_idx) = get_idx_range_in_bucket e_bit in
      if \<not> bit bitmap e_bit \<and> \<not> l_idx < start_idx then
        (let entry_num = (r_idx + leafSpanSize - start_idx + 1) mod leafSpanSize in
         if entry_num \<noteq> 0 then entry_num else leafSpanSize)
      else read_entry_num_loop bitmap start_idx n)"

definition get_read_entry_num_from_bitmap :: "VALOCK \<Rightarrow> nat \<Rightarrow> nat" where
  "get_read_entry_num_from_bitmap lock start_idx =
     read_entry_num_loop (vacancy_bitmap lock) start_idx vacancyMapBit"

section \<open>Writing back\<close>

definition bump_entry_version :: "LeafEntry \<Rightarrow> LeafEntry" where
  "bump_entry_version e = e\<lparr>h_version := (h_version e)\<lparr>entry_version := entry_version (h_version e) + 1\<rparr>\<rparr>"

definition bump_node_versions :: "LeafEntry list \<Rightarrow> LeafEntry list" where
  "bump_node_versions rs = map (\<lambda>e. e\<lparr>h_version := (h_version e)\<lparr>node_version :=
     node_version (h_version (rs ! 0)) + 1\<rparr>\<rparr>) rs"

text \<open>The entries from \<open>l_idx\<close> to \<open>r_idx\<close>, past the end of the array if need be.\<close>

definition in_segment :: "nat \<Rightarrow> nat \<Rightarrow> nat \<Rightarrow> bool" where
  "in_segment l_idx r_idx i \<longleftrightarrow> (if l_idx \<le> r_idx then l_idx \<le> i \<and> i \<le> r_idx else i \<le> r_idx \<or> l_idx \<le> i)"

definition segment_write :: "LeafEntry list \<Rightarrow> LeafEntry list \<Rightarrow> nat \<Rightarrow> nat \<Rightarrow> nat list \<Rightarrow> LeafEntry list" where
  "segment_write remote local l_idx r_idx hopped_idxes =
     map (\<lambda>i. if in_segment l_idx r_idx i
              then if i \<in> set hopped_idxes then bump_entry_version (local ! i) else local ! i
              else remote ! i) [0..<leafSpanSize]"

fun new_max_key_loop :: "LeafEntry list \<Rightarrow> nat list \<Rightarrow> key \<Rightarrow> nat \<Rightarrow> nat" where
  "new_max_key_loop rs [] new_max_key max_idx = max_idx"
| "new_max_key_loop rs (idx # idxs) new_max_key max_idx =
     (if new_max_key < ekey (rs ! idx) then new_max_key_loop rs idxs (ekey (rs ! idx)) idx
      else new_max_key_loop rs idxs new_max_key max_idx)"

text \<open>The part of \<open>segment_write_and_unlock\<close> that brings the lock word up to date.\<close>

definition segment_lock :: "LeafEntry list \<Rightarrow> nat \<Rightarrow> nat \<Rightarrow> nat list \<Rightarrow> VALOCK \<Rightarrow> VALOCK option" where
  "segment_lock rs l_idx r_idx hopped_idxes lock =
     (let mi = unat (max_key_idx lock);
          lock1 = (if mi \<in> set hopped_idxes
                   then lock\<lparr>max_key_idx := of_nat (new_max_key_loop rs hopped_idxes kkeyNull mi)\<rparr> else lock);
          is_empty = (\<lambda>i. ekey (rs ! i) = kkeyNull);
          empties = (if l_idx \<le> r_idx then filter is_empty [l_idx..<r_idx + 1]
                     else filter is_empty ([0..<r_idx + 1] @ [l_idx..<leafSpanSize])) in
      update_vacancy l_idx r_idx empties lock1)"

text \<open>The lock words \<open>hopscotch_split_and_unlock\<close> writes for the leaf and its sibling.\<close>

definition split_lock :: "LeafEntry list \<Rightarrow> VALOCK \<Rightarrow> VALOCK option" where
  "split_lock rs lock =
     update_vacancy 0 (leafSpanSize - 1) (filter (\<lambda>i. ekey (rs ! i) = kkeyNull) [0..<leafSpanSize])
       (lock\<lparr>max_key_idx := of_nat (get_max_key_idx rs)\<rparr>)"

section \<open>Inserting into a leaf\<close>

text \<open>
  The window the owner of the lock reads: its first entry is the home of the key; it is widened when
  no replica of the metadata would lie in it.
\<close>

definition read_window :: "VALOCK \<Rightarrow> nat \<Rightarrow> nat \<times> nat" where
  "read_window lock l_idx =
     (let n = get_read_entry_num_from_bitmap lock l_idx; r = l_idx + n in
      if n < neighborSize \<and> l_idx mod neighborSize \<noteq> 0 \<and> l_idx div neighborSize = (r - 1) div neighborSize
      then let r' = (r - 1 + neighborSize) div neighborSize * neighborSize + 1 in (r' - l_idx, r' mod leafSpanSize)
      else (n, r mod leafSpanSize))"

text \<open>\<open>hopscotch_search\<close> into a cleared buffer: the entries of the window, zeros elsewhere.\<close>

definition window_read :: "LeafEntry list \<Rightarrow> nat \<Rightarrow> nat \<Rightarrow> LeafEntry list" where
  "window_read remote l_idx n =
     map (\<lambda>i. if (i + leafSpanSize - l_idx) mod leafSpanSize < n then remote ! i else LeafEntry_Null) [0..<leafSpanSize]"

definition window_idxes :: "nat \<Rightarrow> nat \<Rightarrow> nat list" where
  "window_idxes l_idx r_idx =
     (if l_idx < r_idx then [l_idx..<r_idx] else [0..<r_idx] @ [l_idx..<leafSpanSize])"

datatype insert_result =
    Invalid
  | TurnRight u64
  | Written LeafNode VALOCK
  | Splitted LeafNode VALOCK LeafNode VALOCK key

definition leaf_split_and_unlock :: "(key \<Rightarrow> u64) \<Rightarrow> LeafNode \<Rightarrow> VALOCK \<Rightarrow> key \<Rightarrow> u64 \<Rightarrow> u64 \<Rightarrow> insert_result option" where
  "leaf_split_and_unlock city leaf lock k v sibling_addr =
     (case hopscotch_split city leaf k v sibling_addr of
        None \<Rightarrow> None
      | Some (leaf', sib, split_key) \<Rightarrow>
          (case (split_lock (records leaf') lock,
                 split_lock (records sib) \<lparr>vacancy_bitmap = 0, max_key_idx = 0\<rparr>) of
             (Some lock', Some sib_lock) \<Rightarrow>
               Some (Splitted (leaf'\<lparr>records := bump_node_versions (records leaf')\<rparr>) lock'
                 (sib\<lparr>records := bump_node_versions (records sib)\<rparr>) sib_lock split_key)
           | _ \<Rightarrow> None))"

text \<open>
  \<open>leaf_node_insert\<close> on one locked leaf: \<open>Invalid\<close> is the \<open>return false\<close> after a failed validation,
  \<open>TurnRight\<close> the call on the sibling, \<open>None\<close> a failed assertion; \<open>new_addr\<close> is where a sibling
  would be allocated.
\<close>

definition leaf_node_insert :: "(key \<Rightarrow> u64) \<Rightarrow> LeafNode \<Rightarrow> VALOCK \<Rightarrow> u64 \<Rightarrow> key \<Rightarrow> u64 \<Rightarrow> bool \<Rightarrow> u64 \<Rightarrow>
    insert_result option" where
  "leaf_node_insert city leaf lock sibling_addr k v from_cache new_addr =
     (let l_idx = get_hashed_leaf_entry_index city k;
          (n, r_idx) = read_window lock l_idx;
          remote = records leaf;
          local = (if n < leafSpanSize then window_read remote l_idx n else remote);
          sib = (if sibling_ptr leaf = Widest then 0 else sibling_ptr leaf);
          mi = unat (max_key_idx lock);
          turn_check = (sibling_addr \<noteq> sib);
          has_large = list_ex (\<lambda>i. k \<le> ekey (local ! i)) (window_idxes l_idx r_idx);
          read_max = turn_check \<and> \<not> is_root leaf \<and> \<not> has_large \<and>
            (l_idx < r_idx \<and> (mi < l_idx \<or> r_idx \<le> mi) \<or> r_idx \<le> l_idx \<and> r_idx \<le> mi \<and> mi < l_idx);
          local1 = (if read_max then local[mi := remote ! mi] else local);
          split_key = (if is_root leaf then replicate keyLen 0xFF
                       else if has_large then key_add k 1 else key_add (ekey (local1 ! mi)) 1) in
      if valid leaf = 0 \<or> from_cache \<and> turn_check then Some Invalid
      else if turn_check \<and> split_key \<le> k then
        (if sibling_ptr leaf = 0 then None else Some (TurnRight (sibling_ptr leaf)))
      else if \<not> (n = leafSpanSize \<or>
          list_ex (\<lambda>i. ekey (local1 ! ((l_idx + i) mod leafSpanSize)) = kkeyNull) [0..<n]) then None
      else
        (case find (\<lambda>i. ekey (local1 ! i) = k) [0..<leafSpanSize] of
           Some i \<Rightarrow>
             Some (Written (leaf\<lparr>records := remote[i := bump_entry_version (entry_update k v (local1 ! i))]\<rparr>) lock)
         | None \<Rightarrow>
             (case hopscotch_insert city local1 k v n of
                None \<Rightarrow> None
              | Some (Some (rs, empty_idx, hopped)) \<Rightarrow>
                  (case segment_lock rs l_idx empty_idx hopped lock of
                     None \<Rightarrow> None
                   | Some lock' \<Rightarrow>
                       Some (Written (leaf\<lparr>records := segment_write remote rs l_idx empty_idx hopped\<rparr>) lock'))
              | Some None \<Rightarrow> leaf_split_and_unlock city leaf lock k v new_addr)))"

declare vacancyMapBit_def [simp]

end
