(* ===== verification/Chime_Insert.thy ===== *)
theory Chime_Insert
  imports Chime_Vacancy
begin

text \<open>
  Correctness of the insertion under the vacancy-aware lock: the window read with the help of the
  lock word holds an empty entry, working on the window is the same as working on the leaf, and the
  lock word keeps describing the leaf.  The last section shows what goes wrong when the key is
  already in the leaf.
\<close>

section \<open>Buckets\<close>

lemma find_bucket_iff: "i < 64 \<Longrightarrow> find_bucket i = b \<longleftrightarrow> 64 * b \<le> 57 * i \<and> 57 * i < 64 * (b + 1)"
proof -
  assume "i < 64"
  then have "i * 57 div 64 < 57" by simp
  then have "find_bucket i = 57 * i div 64" by (simp add: find_bucket_def mult.commute)
  moreover have "57 * i div 64 = b \<longleftrightarrow> 64 * b \<le> 57 * i \<and> 57 * i < 64 * (b + 1)"
    using div_nat_eqI [of 64 b "57 * i"] mult_div_mod_eq [of 64 "57 * i"] by auto
  ultimately show ?thesis by simp
qed

lemma find_bucket_less: "i < 64 \<Longrightarrow> find_bucket i < 57"
  by (simp add: find_bucket_def)

lemma get_first_le: "get_first b \<le> i \<longleftrightarrow> 64 * b \<le> 57 * i"
proof -
  define q m where "q = 64 * b div 57" and "m = 64 * b mod 57"
  have qm: "57 * q + m = 64 * b" "m < 57" by (simp_all add: q_def m_def)
  have g: "get_first b = q + (if m \<noteq> 0 then 1 else 0)" by (simp add: get_first_def mult.commute q_def m_def)
  show ?thesis
  proof (cases "m = 0")
    case False
    have "q + 1 \<le> i \<longleftrightarrow> 57 * q + m \<le> 57 * i" using False qm(2) by auto
    then show ?thesis using g False qm(1) by simp
  qed (use g qm(1) in auto)
qed

lemma get_idx_range:
  assumes "b < 57" "get_idx_range_in_bucket b = (l, r)"
  shows "l \<le> r" "r < 64" "i < 64 \<Longrightarrow> find_bucket i = b \<longleftrightarrow> l \<le> i \<and> i \<le> r"
proof -
  have l: "l = get_first b" and r0: "r = (if 64 \<le> get_first (b + 1) - 1 then 63 else get_first (b + 1) - 1)"
    using assms(2) by (auto simp: get_idx_range_in_bucket_def Let_def)
  have first: "get_first (b + 1) \<le> 64" using assms(1) get_first_le [of "b + 1" 64] by simp
  have pos: "\<not> get_first (b + 1) \<le> 0" using get_first_le [of "b + 1" 0] by simp
  have r: "r = get_first (b + 1) - 1" using r0 first by simp
  have "\<not> get_first (b + 1) \<le> get_first b"
  proof
    assume "get_first (b + 1) \<le> get_first b"
    then have "64 * (b + 1) \<le> 57 * get_first b" by (simp only: get_first_le)
    then have "64 * b \<le> 57 * (get_first b - 1)" by (simp add: diff_mult_distrib2)
    then have "get_first b \<le> get_first b - 1" by (simp only: get_first_le)
    then have "get_first b = 0" by simp
    then show False using \<open>64 * (b + 1) \<le> 57 * get_first b\<close> by simp
  qed
  then show "l \<le> r" "r < 64" using l r first pos by auto
  show "find_bucket i = b \<longleftrightarrow> l \<le> i \<and> i \<le> r" if "i < 64"
  proof -
    have "i \<le> r \<longleftrightarrow> \<not> get_first (b + 1) \<le> i" using r pos by auto
    then show ?thesis unfolding find_bucket_iff [OF that] l get_first_le by (simp add: not_le)
  qed
qed

section \<open>The window\<close>

text \<open>A clear bit promises an empty entry in the bucket.\<close>

definition vacancy_ok :: "VALOCK \<Rightarrow> LeafEntry list \<Rightarrow> bool" where
  "vacancy_ok lock rs \<longleftrightarrow> (\<forall>b < 57. \<not> bit (vacancy_bitmap lock) b \<longrightarrow>
     (\<exists>i < 64. find_bucket i = b \<and> ekey (rs ! i) = kkeyNull))"

lemma read_entry_num_cases:
  assumes "start < 64" "n \<le> 57"
  shows "read_entry_num_loop w start n = 64 \<or>
    (\<exists>b < 57. \<exists>l r. \<not> bit w b \<and> get_idx_range_in_bucket b = (l, r) \<and> start \<le> l \<and>
       read_entry_num_loop w start n = r + 1 - start)"
  using assms(2)
proof (induction n)
  case (Suc n)
  let ?b = "(find_bucket start + (57 - Suc n)) mod 57"
  obtain l r where lr: "get_idx_range_in_bucket ?b = (l, r)" by (cases "get_idx_range_in_bucket ?b")
  show ?case
  proof (cases "\<not> bit w ?b \<and> start \<le> l")
    case True
    have "l \<le> r" "r < 64" using get_idx_range [OF _ lr] by auto
    then have e: "(r + 64 - start + 1) mod 64 = (if r + 1 - start = 64 then 0 else r + 1 - start)"
      using True by (auto simp: mod_if)
    have "read_entry_num_loop w start (Suc n) = r + 1 - start"
      using True lr e \<open>l \<le> r\<close> by (simp add: Let_def not_less)
    then show ?thesis using True lr by (intro disjI2 exI [of _ ?b]) auto
  next
    case False
    then have "read_entry_num_loop w start (Suc n) = read_entry_num_loop w start n"
      using lr by (auto simp: Let_def)
    then show ?thesis using Suc by simp
  qed
qed simp

lemma read_entry_num:
  assumes "vacancy_ok lock rs" "start < 64"
  defines "n \<equiv> get_read_entry_num_from_bitmap lock start"
  shows "0 < n" "n = 64 \<or> start + n \<le> 64 \<and> (\<exists>i < n. ekey (rs ! (start + i)) = kkeyNull)"
proof -
  have "n = 64 \<or> 0 < n \<and> start + n \<le> 64 \<and> (\<exists>i < n. ekey (rs ! (start + i)) = kkeyNull)"
  proof (rule disjE [OF read_entry_num_cases [OF assms(2), of 57 "vacancy_bitmap lock"]])
    assume "\<exists>b < 57. \<exists>l r. \<not> bit (vacancy_bitmap lock) b \<and> get_idx_range_in_bucket b = (l, r) \<and> start \<le> l \<and>
       read_entry_num_loop (vacancy_bitmap lock) start 57 = r + 1 - start"
    then obtain b l r where b: "b < 57" "\<not> bit (vacancy_bitmap lock) b" "get_idx_range_in_bucket b = (l, r)"
      "start \<le> l" "n = r + 1 - start" by (auto simp: n_def get_read_entry_num_from_bitmap_def)
    note range = get_idx_range [OF b(1,3)]
    obtain i where i: "i < 64" "find_bucket i = b" "ekey (rs ! i) = kkeyNull"
      using assms(1) b by (auto simp: vacancy_ok_def)
    then have "l \<le> i" "i \<le> r" using range(3) by auto
    then have "ekey (rs ! (start + (i - start))) = kkeyNull" "i - start < n" using i b by auto
    then show ?thesis using b range by auto
  qed (simp_all add: n_def get_read_entry_num_from_bitmap_def)
  then show "0 < n" "n = 64 \<or> start + n \<le> 64 \<and> (\<exists>i < n. ekey (rs ! (start + i)) = kkeyNull)" by auto
qed

lemma read_window_ok:
  assumes "vacancy_ok lock rs" "l < 64" "read_window lock l = (n, r)"
  shows "n \<le> 64" "r = (l + n) mod 64" "n = 64 \<or> (\<exists>i < n. ekey (rs ! ((l + i) mod 64)) = kkeyNull)"
proof -
  let ?m = "get_read_entry_num_from_bitmap lock l"
  note m = read_entry_num [OF assms(1,2)]
  have hit: "\<exists>i < n. ekey (rs ! ((l + i) mod 64)) = kkeyNull" if "?m \<le> n" "?m \<noteq> 64"
  proof -
    obtain i where "i < ?m" "ekey (rs ! (l + i)) = kkeyNull" "l + ?m \<le> 64" using m(2) \<open>?m \<noteq> 64\<close> by auto
    then show ?thesis using \<open>?m \<le> n\<close> by (intro exI [of _ i]) simp
  qed
  define q where "q = (l + ?m - 1 + 8) div 8"
  have q: "8 * q \<le> l + ?m + 7" "l + ?m \<le> 8 * q + 1" using m(1) mult_div_mod_eq [of 8 "l + ?m - 1 + 8"] by (auto simp: q_def)
  have "read_window lock l = (if ?m < 8 \<and> l mod 8 \<noteq> 0 \<and> l div 8 = (l + ?m - 1) div 8
      then (q * 8 + 1 - l, (q * 8 + 1) mod 64) else (?m, (l + ?m) mod 64))"
    by (simp only: read_window_def Let_def neighborSize_def leafSpanSize_def q_def)
  then consider "n = ?m" "r = (l + ?m) mod 64" | "?m < 8" "n = q * 8 + 1 - l" "r = (q * 8 + 1) mod 64"
    using assms(3) by (metis prod.inject)
  then have "n \<le> 64 \<and> r = (l + n) mod 64 \<and> (n = 64 \<or> (\<exists>i < n. ekey (rs ! ((l + i) mod 64)) = kkeyNull))"
  proof cases
    case 1
    then show ?thesis using m(2) hit by auto
  next
    case 2
    then have "?m \<le> n" "l + n = q * 8 + 1" "n \<le> 64" using q m(1) by auto
    then show ?thesis using 2 hit by auto
  qed
  then show "n \<le> 64" "r = (l + n) mod 64" "n = 64 \<or> (\<exists>i < n. ekey (rs ! ((l + i) mod 64)) = kkeyNull)" by auto
qed

section \<open>What an insertion leaves alone\<close>

lemma on_entry_hop_bit:
  assumes "on_entry i (set_hop_bit d) rs = Some rs' \<or> on_entry i (unset_hop_bit d) rs = Some rs'" "length rs = 64"
  shows "length rs' = 64" "n < 64 \<Longrightarrow> ekey (rs' ! n) = ekey (rs ! n)"
    "n < 64 \<Longrightarrow> n \<noteq> slot i \<Longrightarrow> rs' ! n = rs ! n"
  using assms by (auto simp: on_entry_def get_entry_def set_hop_bit_def unset_hop_bit_def nth_list_update split: if_splits)

lemma hop_move_frame:
  assumes "hop_move rs j h b = Some rs'" "length rs = 64"
  shows "length rs' = 64" "n < 64 \<Longrightarrow> ekey (rs' ! n) = (if n = slot j then ekey (rs ! slot h) else ekey (rs ! n))"
    "n < 64 \<Longrightarrow> n \<noteq> slot j \<Longrightarrow> n \<noteq> slot b \<Longrightarrow> rs' ! n = rs ! n"
proof -
  let ?r = "rs[slot j := entry_update (ekey (rs ! slot h)) (evalue (rs ! slot h)) (rs ! slot j)]"
  obtain r2 where r2: "on_entry b (unset_hop_bit (h - b)) ?r = Some r2" "on_entry b (set_hop_bit (j - b)) r2 = Some rs'"
    using assms(1) by (auto simp: hop_move_def get_entry_def Let_def split: bind_splits)
  have l: "length ?r = 64" using assms(2) by simp
  note f1 = on_entry_hop_bit [OF disjI2 [OF r2(1)] l]
  note f2 = on_entry_hop_bit [OF disjI1 [OF r2(2)] f1(1)]
  show "length rs' = 64" by (rule f2(1))
  show "n < 64 \<Longrightarrow> ekey (rs' ! n) = (if n = slot j then ekey (rs ! slot h) else ekey (rs ! n))"
    using f1(2) f2(2) assms(2) by (simp add: entry_update_def nth_list_update)
  show "n < 64 \<Longrightarrow> n \<noteq> slot j \<Longrightarrow> n \<noteq> slot b \<Longrightarrow> rs' ! n = rs ! n"
    using f1(3) f2(3) by simp
qed

lemma hop_source_range:
  assumes "hop_source rs j 7 = Some (Some (h, b))" "8 \<le> j" "j < 128"
  shows "j - 7 \<le> h" "h < j" "j - 8 < b" "b \<le> h"
  using hop_source_cases [of j 7 rs] assms by (auto simp: may_hop_def)

abbreviation slots :: "int \<Rightarrow> int \<Rightarrow> nat set" where
  "slots a b \<equiv> slot ` {a..b}"

lemma slot_notin: "hash \<le> p \<Longrightarrow> h < p \<Longrightarrow> p < hash + 64 \<Longrightarrow> slot p \<notin> slots hash h"
  using slot_inj by fastforce

text \<open>
  An insertion changes nothing outside the entries from its home to the empty entry, changes keys
  only at the entries it reports as hopped, and leaves no empty entry among the first.
\<close>

lemma hop_loop_frame:
  assumes "hop_loop hash k v rs j hopped = Some (Some (rs', hopped'))" "length rs = 64"
    "0 \<le> hash" "hash < 64" "hash \<le> j" "j < hash + 64" "k \<noteq> kkeyNull"
    "\<And>p. hash \<le> p \<Longrightarrow> p < j \<Longrightarrow> ekey (rs ! slot p) \<noteq> kkeyNull"
  shows "length rs' = 64 \<and> (\<forall>n < 64. n \<notin> slots hash j \<longrightarrow> rs' ! n = rs ! n) \<and>
    set hopped \<subseteq> set hopped' \<and> set hopped' \<subseteq> set hopped \<union> slots hash j \<and>
    (\<forall>n < 64. n \<notin> set hopped' \<longrightarrow> ekey (rs' ! n) = ekey (rs ! n)) \<and>
    (\<forall>p. hash \<le> p \<and> p \<le> j \<longrightarrow> ekey (rs' ! slot p) \<noteq> kkeyNull)"
  using assms
proof (induction hash k v rs j hopped rule: hop_loop.induct)
  case (1 hash k v rs j hopped)
  show ?case
  proof (cases "j < hash + 8")
    case True
    let ?r = "rs[slot j := entry_update k v (get_entry rs j)]"
    have r: "on_entry hash (set_hop_bit (j - hash)) ?r = Some rs'" "hopped' = hopped @ [slot j]"
      using 1(2) True by (subst (asm) hop_loop.simps, auto simp: Let_def split: option.splits)+
    have l: "length ?r = 64" using 1(3) by simp
    note f = on_entry_hop_bit [OF disjI1 [OF r(1)] l]
    have key: "ekey (rs' ! n) = (if n = slot j then k else ekey (rs ! n))" if "n < 64" for n
      using f(2) [OF that] 1(3) that by (simp add: nth_list_update entry_update_def)
    have "rs' ! n = rs ! n" if "n < 64" "n \<notin> slots hash j" for n
      using f(3) [OF that(1)] that 1(6) by (metis atLeastAtMost_iff imageI nth_list_update_neq order_refl)
    moreover have "slot j \<in> slots hash j" using 1(6) by simp
    moreover have "ekey (rs' ! slot p) \<noteq> kkeyNull" if "hash \<le> p" "p \<le> j" for p
      using key [of "slot p"] 1(8) 1(9) [of p] that by (cases "p = j") auto
    ultimately show ?thesis using f(1) key r(2) by auto
  next
    case False
    obtain h b r where s: "hop_source rs j 7 = Some (Some (h, b))" "hop_move rs j h b = Some r"
        "hop_loop hash k v r h (hopped @ [slot j]) = Some (Some (rs', hopped'))"
      using 1(2) False by (subst (asm) hop_loop.simps) (auto simp: Let_def split: option.splits)
    have range: "hash < h" "h < j" "hash < b" "b \<le> h" using hop_source_range [OF s(1)] False 1(4-7) by auto
    note f = hop_move_frame [OF s(2) 1(3)]
    have full: "ekey (r ! slot p) \<noteq> kkeyNull" if "hash \<le> p" "p \<le> j" for p
      using f(2) [of "slot p"] 1(9) [of p] 1(9) [of h] that range by (cases "p = j") auto
    have ih: "length rs' = 64 \<and> (\<forall>n < 64. n \<notin> slots hash h \<longrightarrow> rs' ! n = r ! n) \<and>
        set (hopped @ [slot j]) \<subseteq> set hopped' \<and> set hopped' \<subseteq> set (hopped @ [slot j]) \<union> slots hash h \<and>
        (\<forall>n < 64. n \<notin> set hopped' \<longrightarrow> ekey (rs' ! n) = ekey (r ! n)) \<and>
        (\<forall>p. hash \<le> p \<and> p \<le> h \<longrightarrow> ekey (rs' ! slot p) \<noteq> kkeyNull)"
      using 1(1) [OF refl, of "Some (h, b)" "(h, b)" h b r] False s f(1) range 1(4-8) full by simp
    have sub: "slots hash h \<subseteq> slots hash j" "slot j \<in> slots hash j" "slot b \<in> slots hash j" using range 1(6) by auto
    have "rs' ! n = rs ! n" if "n < 64" "n \<notin> slots hash j" for n
      using ih f(3) [OF that(1)] that sub by (metis subsetD)
    moreover have "ekey (rs' ! slot p) \<noteq> kkeyNull" if "hash \<le> p" "p \<le> j" for p
      using ih full [OF that] slot_notin [of hash p h] that 1(7) by (cases "p \<le> h") auto
    moreover have "ekey (rs' ! n) = ekey (rs ! n)" if "n < 64" "n \<notin> set hopped'" for n
      using ih f(2) [OF that(1)] that by auto
    moreover have "set hopped' \<subseteq> set hopped \<union> slots hash j"
    proof -
      have "set hopped' \<subseteq> set (hopped @ [slot j]) \<union> slots hash h" using ih by blast
      also have "\<dots> \<subseteq> set hopped \<union> slots hash j" using sub by (simp only: set_append list.set) blast
      finally show ?thesis .
    qed
    moreover have "length rs' = 64" "set hopped \<subseteq> set hopped'" using ih by auto
    ultimately show ?thesis by blast
  qed
qed

section \<open>Working on a window\<close>

text \<open>The entries \<open>S\<close> of one array in place of those of another.\<close>

definition over :: "nat set \<Rightarrow> LeafEntry list \<Rightarrow> LeafEntry list \<Rightarrow> LeafEntry list" where
  "over S base rs = map (\<lambda>i. if i \<in> S then rs ! i else base ! i) [0..<64]"

lemma length_over [simp]: "length (over S base rs) = 64"
  by (simp add: over_def)

lemma over_nth: "i < 64 \<Longrightarrow> over S base rs ! i = (if i \<in> S then rs ! i else base ! i)"
  by (simp add: over_def)

lemma over_update:
  assumes "i \<in> S" "i < 64" "length rs = 64"
  shows "(over S base rs)[i := x] = over S base (rs[i := x])"
  by (rule nth_equalityI) (use assms in \<open>auto simp: over_nth nth_list_update\<close>)

lemma get_entry_over: "slot i \<in> S \<Longrightarrow> get_entry (over S base rs) i = get_entry rs i"
  by (simp add: get_entry_def over_nth)

lemma on_entry_over:
  "slot i \<in> S \<Longrightarrow> length rs = 64 \<Longrightarrow> on_entry i f (over S base rs) = map_option (over S base) (on_entry i f rs)"
  by (cases "f (get_entry rs i)") (simp_all add: on_entry_def get_entry_over over_update)

lemma on_entry_length: "on_entry i f rs = Some rs' \<Longrightarrow> length rs' = length rs"
  by (auto simp: on_entry_def)

lemma hop_move_over:
  assumes "slot j \<in> S" "slot h \<in> S" "slot b \<in> S" "length rs = 64"
  shows "hop_move (over S base rs) j h b = map_option (over S base) (hop_move rs j h b)"
proof -
  let ?r = "rs[slot j := entry_update (ekey (get_entry rs h)) (evalue (get_entry rs h)) (get_entry rs j)]"
  have "hop_move (over S base rs) j h b =
      Option.bind (on_entry b (unset_hop_bit (h - b)) (over S base ?r)) (on_entry b (set_hop_bit (j - b)))"
    using assms by (simp add: hop_move_def get_entry_over over_update)
  also have "\<dots> = map_option (over S base) (hop_move rs j h b)"
    using assms on_entry_length [of b "unset_hop_bit (h - b)" ?r]
    by (cases "on_entry b (unset_hop_bit (h - b)) ?r") (simp_all add: hop_move_def on_entry_over)
  finally show ?thesis .
qed

lemma find_home_cong:
  assumes "\<And>b. j - 8 < b \<Longrightarrow> b \<le> h \<Longrightarrow> get_entry rs b = get_entry rs' b"
  shows "find_home rs h j n = find_home rs' h j n"
proof (induction n)
  case (Suc n)
  have "get_entry rs (h_home h (int n)) = get_entry rs' (h_home h (int n))"
    if "h_home h (int n) \<le> h" "j < h_home h (int n) + 8" using assms that by simp
  then show ?case using Suc by (auto simp: Let_def)
qed simp

lemma hop_source_cong:
  assumes "\<And>b. j - 8 < b \<Longrightarrow> b < j \<Longrightarrow> get_entry rs b = get_entry rs' b"
  shows "hop_source rs j n = hop_source rs' j n"
proof (induction n)
  case (Suc n)
  have "find_home rs (j - int (Suc n)) j 8 = find_home rs' (j - int (Suc n)) j 8"
    by (rule find_home_cong) (use assms in simp)
  then show ?case using Suc by (simp add: Let_def split: option.split)
qed simp

lemma hop_loop_over:
  assumes "length rs = 64" "0 \<le> hash" "hash < 64" "hash \<le> j" "j < hash + 64" "slots hash j \<subseteq> S"
  shows "hop_loop hash k v (over S base rs) j hopped =
    map_option (map_option (\<lambda>(r, h). (over S base r, h))) (hop_loop hash k v rs j hopped)"
  using assms
proof (induction hash k v rs j hopped rule: hop_loop.induct)
  case (1 hash k v rs j hopped)
  have inS: "slot p \<in> S" if "hash \<le> p" "p \<le> j" for p using 1(7) that by auto
  show ?case
  proof (cases "j < hash + 8")
    case True
    have "(over S base rs)[slot j := entry_update k v (get_entry (over S base rs) j)] =
        over S base (rs[slot j := entry_update k v (get_entry rs j)])"
      using inS [of j] 1(2,5) by (simp add: get_entry_over over_update)
    then show ?thesis using True inS [of hash] 1(2,5)
      by (subst (1 2) hop_loop.simps) (simp add: Let_def on_entry_over split: option.split)
  next
    case False
    have src: "hop_source (over S base rs) j 7 = hop_source rs j 7"
      by (rule hop_source_cong) (use False inS get_entry_over in auto)
    show ?thesis
    proof (cases "hop_source rs j 7")
      case None
      then show ?thesis using False src by (subst (1 2) hop_loop.simps) (simp add: Let_def)
    next
      case (Some s)
      show ?thesis
      proof (cases s)
        case None
        then show ?thesis using False src Some by (subst (1 2) hop_loop.simps) (simp add: Let_def)
      next
        case s: (Some hb)
        obtain h b where hb: "hb = (h, b)" by (cases hb)
        have range: "hash < h" "h < j" "hash < b" "b \<le> h"
          using hop_source_range [of rs j h b] Some s hb False 1(3-6) by auto
        have move: "hop_move (over S base rs) j h b = map_option (over S base) (hop_move rs j h b)"
          by (rule hop_move_over) (use inS range 1(2,5) in auto)
        show ?thesis
        proof (cases "hop_move rs j h b")
          case None
          then show ?thesis using False src Some s hb move by (subst (1 2) hop_loop.simps) (simp add: Let_def)
        next
          case r: (Some r)
          have "slots hash h \<subseteq> S" using inS range by auto
          then have "hop_loop hash k v (over S base r) h (hopped @ [slot j]) =
              map_option (map_option (\<lambda>(r, h). (over S base r, h))) (hop_loop hash k v r h (hopped @ [slot j]))"
            by (intro 1(1) [OF refl, of s hb h b r]) (use False Some s hb r hop_move_frame(1) [OF r 1(2)] range 1(3-6) in auto)
          moreover have "hop_loop hash k v (over S base rs) j hopped =
              hop_loop hash k v (over S base r) h (hopped @ [slot j])"
            by (subst hop_loop.simps) (simp add: Let_def False src Some s hb move r)
          moreover have "hop_loop hash k v rs j hopped = hop_loop hash k v r h (hopped @ [slot j])"
            by (subst hop_loop.simps) (simp add: Let_def False Some s hb r)
          ultimately show ?thesis by simp
        qed
      qed
    qed
  qed
qed

lemma find_empty_cong:
  "(\<And>p. i \<le> p \<Longrightarrow> p < i + int n \<Longrightarrow> get_entry rs p = get_entry rs' p) \<Longrightarrow> find_empty rs i n = find_empty rs' i n"
proof (induction n arbitrary: i)
  case (Suc n)
  have "find_empty rs (i + 1) n = find_empty rs' (i + 1) n" by (rule Suc.IH) (use Suc.prems in auto)
  then show ?case using Suc.prems [of i] by simp
qed simp

lemma find_empty_more: "find_empty rs i n = Some e \<Longrightarrow> n \<le> m \<Longrightarrow> find_empty rs i m = Some e"
proof (induction n arbitrary: i m)
  case (Suc n)
  then show ?case by (cases m) (auto split: if_splits)
qed simp

lemma slot_home: "l < 64 \<Longrightarrow> slot (int l + int i) = (l + i) mod 64"
  using slot_add [of "int l" i] by simp

lemma in_slots: "l < 64 \<Longrightarrow> int l \<le> p \<Longrightarrow> i < 64 \<Longrightarrow> p < int l + 64 \<Longrightarrow>
    i \<in> slots (int l) p \<longleftrightarrow> (i + 64 - l) mod 64 \<le> nat (p - int l)"
proof -
  assume a: "l < 64" "int l \<le> p" "i < 64" "p < int l + 64"
  let ?z = "(i + 64 - l) mod 64"
  have i: "i = slot (int l + int ?z)" using offset_iff [of l i ?z] slot_home [of l ?z] a by simp
  show ?thesis
  proof
    assume "i \<in> slots (int l) p"
    then obtain q where q: "i = slot q" "int l \<le> q" "q \<le> p" by auto
    then have "q = int l + int ?z" using a i by (intro slot_inj) auto
    then show "?z \<le> nat (p - int l)" using q by simp
  next
    assume "?z \<le> nat (p - int l)"
    then show "i \<in> slots (int l) p" using i a by (intro image_eqI [of i slot "int l + int ?z"]) auto
  qed
qed

lemma in_segment_iff:
  assumes "l < 64" "int l \<le> p" "p < int l + 64" "i < 64"
  shows "in_segment l (slot p) i \<longleftrightarrow> i \<in> slots (int l) p"
proof -
  define m where "m = nat (p - int l)"
  have p: "p = int l + int m" "m < 64" using assms by (auto simp: m_def)
  have "slot p = (if l + m < 64 then l + m else l + m - 64)"
    using p assms(1) slot_home [of l m] by (simp add: mod_if)
  moreover have "(i + 64 - l) mod 64 = (if l \<le> i then i - l else i + 64 - l)"
    by (rule offset_cases [OF assms(1,4)])
  ultimately show ?thesis using in_slots [OF assms(1,2,4,3)] p assms(1,4)
    by (auto simp: in_segment_def simp flip: m_def split: if_splits)
qed

text \<open>The entries of a window of \<open>n\<close> entries from \<open>l\<close> on.\<close>

abbreviation window :: "nat \<Rightarrow> nat \<Rightarrow> nat set" where
  "window l n \<equiv> slot ` {int l..<int l + int n}"

lemma hopscotch_insert_window:
  assumes "length rs = 64" "n \<le> 64" "loc = over (window (home city k) n) loc rs"
  shows "hopscotch_insert city loc k v n =
    map_option (map_option (\<lambda>(r, e, h). (over (window (home city k) n) loc r, e, h))) (hopscotch_insert city rs k v n)"
proof -
  let ?W = "window (home city k) n" and ?l = "int (home city k)"
  have "find_empty (over ?W loc rs) ?l n = find_empty rs ?l n"
    by (rule find_empty_cong) (auto intro!: get_entry_over)
  then have empty: "find_empty loc ?l n = find_empty rs ?l n" using assms(3) by simp
  show ?thesis
  proof (cases "find_empty rs ?l n")
    case (Some e)
    then have e: "?l \<le> e" "e < ?l + int n" using find_empty_Some [of rs ?l n e] by auto
    have "hop_loop ?l k v (over ?W loc rs) e [] =
        map_option (map_option (\<lambda>(r, h). (over ?W loc r, h))) (hop_loop ?l k v rs e [])"
      by (rule hop_loop_over) (use assms e in auto)
    then have "hop_loop ?l k v loc e [] =
        map_option (map_option (\<lambda>(r, h). (over ?W loc r, h))) (hop_loop ?l k v rs e [])"
      using assms(3) by simp
    then show ?thesis using Some empty
      by (simp add: hopscotch_insert_def Let_def option.map_comp comp_def case_prod_unfold)
  qed (use empty in \<open>simp add: hopscotch_insert_def\<close>)
qed

lemma hopscotch_insert_more:
  assumes "find_empty rs (int (home city k)) n \<noteq> None" "n \<le> 64"
  shows "hopscotch_insert city rs k v n = hopscotch_insert city rs k v 64"
  using assms find_empty_more [of rs _ n _ 64] by (auto simp: hopscotch_insert_def)

lemma insert_frame:
  assumes "hopscotch_insert city rs k v n = Some (Some (r, e, hopped))" "length rs = 64" "k \<noteq> kkeyNull" "n \<le> 64"
  obtains p where "int (home city k) \<le> p" "p < int (home city k) + int n" "e = slot p" "length r = 64"
    "\<And>m. m < 64 \<Longrightarrow> m \<notin> slots (int (home city k)) p \<Longrightarrow> r ! m = rs ! m"
    "set hopped \<subseteq> slots (int (home city k)) p"
    "\<And>m. m < 64 \<Longrightarrow> m \<notin> set hopped \<Longrightarrow> ekey (r ! m) = ekey (rs ! m)"
    "\<And>m. m \<in> slots (int (home city k)) p \<Longrightarrow> ekey (r ! m) \<noteq> kkeyNull"
    "\<And>m. m \<in> slots (int (home city k)) p \<Longrightarrow> ekey (rs ! m) = kkeyNull \<Longrightarrow> m = e"
proof -
  let ?l = "int (home city k)"
  obtain p where p: "find_empty rs ?l n = Some p" "hop_loop ?l k v rs p [] = Some (Some (r, hopped))" "e = slot p"
    using assms(1) by (auto simp: hopscotch_insert_def Let_def split: option.splits)
  have e: "?l \<le> p" "p < ?l + int n" "\<And>q. ?l \<le> q \<Longrightarrow> q < p \<Longrightarrow> ekey (rs ! slot q) \<noteq> kkeyNull"
    using find_empty_Some [OF p(1)] by (auto simp: get_entry_def)
  have "length r = 64 \<and> (\<forall>m < 64. m \<notin> slots ?l p \<longrightarrow> r ! m = rs ! m) \<and>
      set [] \<subseteq> set hopped \<and> set hopped \<subseteq> set [] \<union> slots ?l p \<and>
      (\<forall>m < 64. m \<notin> set hopped \<longrightarrow> ekey (r ! m) = ekey (rs ! m)) \<and>
      (\<forall>q. ?l \<le> q \<and> q \<le> p \<longrightarrow> ekey (r ! slot q) \<noteq> kkeyNull)"
    by (rule hop_loop_frame [OF p(2) assms(2) _ _ _ _ assms(3)]) (use e assms(4) in auto)
  moreover from this have "ekey (r ! m) \<noteq> kkeyNull" if "m \<in> slots ?l p" for m using that by auto
  moreover have "m = e" if "m \<in> slots ?l p" "ekey (rs ! m) = kkeyNull" for m
    using that e(3) p(3) by (force simp: le_less)
  ultimately show thesis using that [OF e(1,2) p(3)] by auto
qed

section \<open>Entries that differ in their versions only\<close>

definition same_contents :: "LeafEntry list \<Rightarrow> LeafEntry list \<Rightarrow> bool" where
  "same_contents rs rs' \<longleftrightarrow> length rs = 64 \<and> length rs' = 64 \<and>
     (\<forall>i < 64. ekey (rs' ! i) = ekey (rs ! i) \<and> evalue (rs' ! i) = evalue (rs ! i) \<and> hop_bitmap (rs' ! i) = hop_bitmap (rs ! i))"

lemma same_contents_ok:
  assumes "same_contents rs rs'" "leaf_ok city rs"
  shows "leaf_ok city rs'" "leaf_map rs' = leaf_map rs"
proof -
  have s: "length rs' = 64" "\<And>i. i < 64 \<Longrightarrow> ekey (rs' ! i) = ekey (rs ! i)" "\<And>i. i < 64 \<Longrightarrow> evalue (rs' ! i) = evalue (rs ! i)"
    "\<And>i. i < 64 \<Longrightarrow> hop_bitmap (rs' ! i) = hop_bitmap (rs ! i)"
    using assms(1) by (auto simp: same_contents_def)
  have h: "homed city rs' i b = homed city rs i b" if "i < 64" for i b using s that by (simp add: homed_def)
  show ok: "leaf_ok city rs'"
  proof (rule leaf_okI)
    fix i j assume "i < 64" "j < 64" "ekey (rs' ! i) = ekey (rs' ! j)" "ekey (rs' ! i) \<noteq> kkeyNull"
    then show "i = j" using leaf_okD(4) [OF assms(2), of i j] s(2) by metis
  qed (use leaf_okD [OF assms(2)] s h in auto)
  show "leaf_map rs' = leaf_map rs"
    by (rule map_eqI) (use leaf_map_iff [OF ok] leaf_map_iff [OF assms(2)] s in metis)
qed

lemma same_contents_vacancy: "same_contents rs rs' \<Longrightarrow> vacancy_ok lock rs' = vacancy_ok lock rs"
  by (simp add: same_contents_def vacancy_ok_def cong: conj_cong)

lemma same_contents_bump: "length rs = 64 \<Longrightarrow> same_contents rs (bump_node_versions rs)"
  by (simp add: same_contents_def bump_node_versions_def)

text \<open>Writing the segment of the window is writing the entries of the leaf.\<close>

lemma segment_write_contents:
  assumes "length rs = 64" "length r = 64" "l < 64" "int l \<le> p" "p < int l + int n" "n \<le> 64"
    "\<And>m. m < 64 \<Longrightarrow> m \<notin> slots (int l) p \<Longrightarrow> r ! m = rs ! m"
  shows "same_contents r (segment_write rs (over (window l n) loc r) l (slot p) hopped)"
proof -
  have "slots (int l) p \<subseteq> window l n" using assms(5) by auto
  then have "m \<in> slots (int l) p \<Longrightarrow> over (window l n) loc r ! m = r ! m" for m by (auto simp: over_nth)
  then show ?thesis using assms in_segment_iff [of l p]
    by (auto simp: same_contents_def segment_write_def bump_entry_version_def)
qed

section \<open>The lock word after an insertion\<close>

lemma bit_set_buckets: "b < 57 \<Longrightarrow> bit (set_buckets bs w) b \<longleftrightarrow> bit w b \<or> b \<in> set bs"
proof (induction bs arbitrary: w)
  case (Cons a bs)
  have "bit (w OR push_bit a 1) b \<longleftrightarrow> bit w b \<or> a = b" using Cons.prems by (auto simp: bit_simps)
  then show ?case using Cons.IH [OF Cons.prems, of "w OR push_bit a 1"] by (auto simp: set_buckets_def)
qed (simp add: set_buckets_def)

lemma clear_buckets_bit:
  assumes "clear_buckets allowed es w = Some w'" "b < 57"
  shows "bit w' b \<longleftrightarrow> bit w b \<and> b \<notin> find_bucket ` set es"
  using assms(1)
proof (induction es arbitrary: w)
  case (Cons a es)
  then have w: "clear_buckets allowed es (w AND NOT (push_bit (find_bucket a) 1)) = Some w'"
    by (simp add: Let_def split: if_splits)
  have "bit (w AND NOT (push_bit (find_bucket a) 1)) b \<longleftrightarrow> bit w b \<and> b \<noteq> find_bucket a"
    using assms(2) by (auto simp: bit_simps)
  then show ?case using Cons.IH [OF w] by auto
qed simp

lemma clear_buckets_all: "(\<And>e. e \<in> set es \<Longrightarrow> allowed (find_bucket e)) \<Longrightarrow> \<exists>w'. clear_buckets allowed es w = Some w'"
  by (induction es arbitrary: w) (auto simp: Let_def)

lemma segment_lock_ok:
  assumes "vacancy_ok lock rs" "l < 64" "e < 64"
    "\<And>i. i < 64 \<Longrightarrow> in_segment l e i \<Longrightarrow> ekey (loc ! i) \<noteq> kkeyNull"
    "\<And>i. i < 64 \<Longrightarrow> \<not> in_segment l e i \<Longrightarrow> ekey (r ! i) = ekey (rs ! i)"
    "\<And>i. i < 64 \<Longrightarrow> in_segment l e i \<Longrightarrow> ekey (rs ! i) = kkeyNull \<Longrightarrow> i = e"
  shows "\<exists>lock'. segment_lock loc l e hopped lock = Some lock' \<and> vacancy_ok lock' r \<and>
    max_key_idx lock' = (if unat (max_key_idx lock) \<in> set hopped
      then of_nat (new_max_key_loop loc hopped kkeyNull (unat (max_key_idx lock))) else max_key_idx lock)"
proof -
  define bs where "bs = (if find_bucket l \<le> find_bucket e then [find_bucket l..<find_bucket e + 1]
    else [0..<find_bucket e + 1] @ [find_bucket l..<57])"
  define lock1 where "lock1 = (if unat (max_key_idx lock) \<in> set hopped
    then lock\<lparr>max_key_idx := of_nat (new_max_key_loop loc hopped kkeyNull (unat (max_key_idx lock)))\<rparr> else lock)"
  have no: "(if l \<le> e then filter (\<lambda>i. ekey (loc ! i) = kkeyNull) [l..<e + 1]
      else filter (\<lambda>i. ekey (loc ! i) = kkeyNull) ([0..<e + 1] @ [l..<64])) = []"
    using assms(2-4) by (auto simp: in_segment_def filter_empty_conv)
  have eq: "segment_lock loc l e hopped lock = Some (lock1\<lparr>vacancy_bitmap := set_buckets bs (vacancy_bitmap lock1)\<rparr>)"
  proof -
    have "segment_lock loc l e hopped lock = update_vacancy l e [] lock1"
      using no unfolding segment_lock_def Let_def lock1_def leafSpanSize_def by (simp only:)
    then show ?thesis by (simp add: update_vacancy_def bs_def Let_def)
  qed
  have "vacancy_ok (lock1\<lparr>vacancy_bitmap := set_buckets bs (vacancy_bitmap lock1)\<rparr>) r"
    unfolding vacancy_ok_def
  proof (intro allI impI)
    fix b :: nat assume b: "b < 57" "\<not> bit (vacancy_bitmap (lock1\<lparr>vacancy_bitmap := set_buckets bs (vacancy_bitmap lock1)\<rparr>)) b"
    then have "\<not> bit (vacancy_bitmap lock) b" and nb: "b \<notin> set bs" by (auto simp: bit_set_buckets lock1_def split: if_splits)
    then obtain i where i: "i < 64" "find_bucket i = b" "ekey (rs ! i) = kkeyNull"
      using assms(1) b(1) by (auto simp: vacancy_ok_def)
    have "find_bucket e \<in> set bs" using find_bucket_less [OF assms(3)] by (auto simp: bs_def)
    then have "i \<noteq> e" using i nb by auto
    then have "\<not> in_segment l e i" using assms(6) i by blast
    then show "\<exists>i < 64. find_bucket i = b \<and> ekey (r ! i) = kkeyNull" using i assms(5) by auto
  qed
  then show ?thesis using eq by (auto simp: lock1_def)
qed

section \<open>A locked leaf\<close>

text \<open>
  What holds of a leaf and its lock word between insertions: the leaf is well-formed, the bitmap promises
  empty entries only where there are some, and the position of the largest key is right; the largest key is
  the last below the next leaf, which for the last leaf is the ghost key of the constructor.
\<close>

definition last_leaf :: "LeafNode \<Rightarrow> bool" where
  "last_leaf leaf \<longleftrightarrow> sibling_ptr leaf = 0 \<or> is_root leaf"

definition proper_key :: "key \<Rightarrow> bool" where
  "proper_key k \<longleftrightarrow> length k = keyLen \<and> k < replicate keyLen 0xFF"

definition max_ok :: "LeafNode \<Rightarrow> VALOCK \<Rightarrow> bool" where
  "max_ok leaf lock \<longleftrightarrow> (let mi = unat (max_key_idx lock) in
     (\<forall>e \<in> set (records leaf). ekey e \<le> ekey (records leaf ! mi)) \<and>
     key_add (ekey (records leaf ! mi)) 1 = fence_highest leaf)"

definition node_ok :: "(key \<Rightarrow> u64) \<Rightarrow> LeafNode \<Rightarrow> VALOCK \<Rightarrow> bool" where
  "node_ok city leaf lock \<longleftrightarrow> leaf_ok city (records leaf) \<and> (\<forall>e \<in> set (records leaf). proper_key (ekey e)) \<and>
     vacancy_ok lock (records leaf) \<and> max_ok leaf lock \<and>
     (last_leaf leaf \<longrightarrow> fence_highest leaf = replicate keyLen 0xFF)"

lemma max_idx_less [simp]: "unat (m :: 6 word) < 64"
  using unsigned_less [where ?'a = nat, of m] by simp

lemma proper_Null: "proper_key kkeyNull"
  by code_simp

lemma key_in_map: "leaf_ok city rs \<Longrightarrow> i < 64 \<Longrightarrow> ekey (rs ! i) \<noteq> kkeyNull \<Longrightarrow> leaf_map rs (ekey (rs ! i)) \<noteq> None"
  using leaf_map_None by metis

lemma null_le: "proper_key k \<Longrightarrow> kkeyNull \<le> k"
  using key_null_least [of k] by (cases "k = kkeyNull") (auto simp: proper_key_def)

text \<open>The keys of a leaf are those of its contents, and the null key.\<close>

lemma keys_all:
  assumes "leaf_ok city rs" "P kkeyNull" "\<And>x. leaf_map rs x \<noteq> None \<Longrightarrow> P x"
  shows "\<forall>e \<in> set rs. P (ekey e)"
proof
  fix e assume "e \<in> set rs"
  then obtain i where "e = rs ! i" "i < 64" using leaf_okD(1) [OF assms(1)] by (metis in_set_conv_nth)
  then show "P (ekey e)" using assms key_in_map by (cases "ekey e = kkeyNull") auto
qed

lemma key_of_map:
  assumes "leaf_ok city rs" "leaf_map rs x \<noteq> None"
  obtains i where "i < 64" "ekey (rs ! i) = x" "x \<noteq> kkeyNull"
  using assms leaf_map_None by metis

lemma new_max_key_loop_max:
  "(new_max_key_loop rs idxs mk mi = mi \<and> (\<forall>x \<in> set idxs. ekey (rs ! x) \<le> mk)) \<or>
   (new_max_key_loop rs idxs mk mi \<in> set idxs \<and> mk < ekey (rs ! new_max_key_loop rs idxs mk mi) \<and>
    (\<forall>x \<in> set idxs. ekey (rs ! x) \<le> ekey (rs ! new_max_key_loop rs idxs mk mi)))"
proof (induction idxs arbitrary: mk mi)
  case (Cons a idxs)
  show ?case
  proof (cases "mk < ekey (rs ! a)")
    case True
    then show ?thesis using Cons [of "ekey (rs ! a)" a] by (auto intro: less_imp_le order.strict_trans)
  next
    case False
    then show ?thesis using Cons [of mk mi] by auto
  qed
qed simp

lemma insert_outcome:
  assumes "leaf_ok city rs" "k \<noteq> kkeyNull" "leaf_map rs k = None" "n \<le> 64"
  obtains (refused) "hopscotch_insert city rs k v n = Some None"
    | (placed) r e hopped where "hopscotch_insert city rs k v n = Some (Some (r, e, hopped))"
        "leaf_ok city r" "leaf_map r = (leaf_map rs)(k \<mapsto> v)"
proof (cases "find_empty rs (int (home city k)) n")
  case None
  then show ?thesis by (intro refused) (simp add: hopscotch_insert_def)
next
  case (Some e)
  then show ?thesis using insert_at_empty [OF assms(1-3) Some assms(4), of v "[]"] refused placed
    by (auto simp: hopscotch_insert_def Let_def)
qed

lemma max_key_kept:
  assumes ok: "leaf_ok city rs" "leaf_ok city r" and map: "leaf_map r = (leaf_map rs)(k \<mapsto> v)"
    and keep: "\<And>m. m < 64 \<Longrightarrow> m \<notin> set hopped \<Longrightarrow> ekey (r ! m) = ekey (rs ! m)"
    and full: "\<And>m. m \<in> set hopped \<Longrightarrow> m < 64 \<and> ekey (r ! m) \<noteq> kkeyNull"
    and proper: "\<forall>e \<in> set rs. proper_key (ekey e)" "proper_key k" "k \<noteq> kkeyNull"
    and mi: "mi < 64" "\<forall>e \<in> set rs. ekey e \<le> ekey (rs ! mi)" "k \<le> ekey (rs ! mi)"
  defines "mi' \<equiv> if mi \<in> set hopped then new_max_key_loop r hopped kkeyNull mi else mi"
  shows "mi' < 64" "ekey (r ! mi') = ekey (rs ! mi)" "\<forall>e \<in> set r. ekey e \<le> ekey (rs ! mi)"
proof -
  let ?M = "ekey (rs ! mi)"
  have len: "length rs = 64" using leaf_okD(1) [OF ok(1)] .
  have pM: "proper_key ?M" using proper(1) mi(1) len by auto
  have M0: "?M \<noteq> kkeyNull" using mi(3) key_null_least [of k] proper(2,3) by (auto simp: proper_key_def)
  have in_rs: "x \<le> ?M" if "leaf_map rs x \<noteq> None" for x
    using key_of_map [OF ok(1) that] mi(2) len by (metis nth_mem)
  show le: "\<forall>e \<in> set r. ekey e \<le> ?M"
  proof (rule keys_all [OF ok(2)])
    show "kkeyNull \<le> ?M" by (rule null_le [OF pM])
    show "x \<le> ?M" if "leaf_map r x \<noteq> None" for x using that in_rs [of x] mi(3) unfolding map by (auto split: if_splits)
  qed
  have "mi' < 64 \<and> ekey (r ! mi') = ?M"
  proof (cases "mi \<in> set hopped")
    case True
    have "leaf_map r ?M \<noteq> None" using key_in_map [OF ok(1) mi(1) M0] unfolding map by auto
    then obtain q where q: "q < 64" "ekey (r ! q) = ?M" using key_of_map [OF ok(2)] by blast
    have "q \<in> set hopped"
    proof (rule ccontr)
      assume "q \<notin> set hopped"
      then have "ekey (rs ! q) = ?M" using keep q by simp
      then have "q = mi" using leaf_okD(4) [OF ok(1) q(1) mi(1)] M0 by simp
      then show False using True \<open>q \<notin> set hopped\<close> by simp
    qed
    moreover have "kkeyNull < ?M" using key_null_least [of ?M] pM M0 by (simp add: proper_key_def)
    ultimately have "mi' \<in> set hopped" "?M \<le> ekey (r ! mi')"
      using new_max_key_loop_max [of r hopped kkeyNull mi] q(2) True by (auto simp: mi'_def dest!: bspec [of _ _ q])
    moreover have "ekey (r ! mi') \<le> ?M" using le full [OF calculation(1)] leaf_okD(1) [OF ok(2)] by auto
    ultimately show ?thesis using full by auto
  qed (use mi keep in \<open>simp add: mi'_def\<close>)
  then show "mi' < 64" "ekey (r ! mi') = ?M" by auto
qed

lemma proper_kept:
  assumes "leaf_ok city rs" "\<forall>e \<in> set rs. proper_key (ekey e)" "leaf_ok city r" "proper_key k"
    "\<And>x. leaf_map r x \<noteq> None \<Longrightarrow> x = k \<or> leaf_map rs x \<noteq> None"
  shows "\<forall>e \<in> set r. proper_key (ekey e)"
proof (rule keys_all [OF assms(3), where P = proper_key])
  show "proper_key x" if "leaf_map r x \<noteq> None" for x
    using assms(5) [OF that] key_of_map [OF assms(1), of x] assms(2,4) leaf_okD(1) [OF assms(1)] by (metis nth_mem)
qed (rule proper_Null)

lemma new_max_key_loop_cong:
  "(\<And>x. x \<in> set idxs \<Longrightarrow> rs ! x = rs' ! x) \<Longrightarrow> new_max_key_loop rs idxs mk mi = new_max_key_loop rs' idxs mk mi"
  by (induction idxs arbitrary: mk mi) auto

lemma below_fence:
  assumes "node_ok city leaf lock" "proper_key k"
  shows "k < fence_highest leaf \<longleftrightarrow> k \<le> ekey (records leaf ! unat (max_key_idx lock))"
proof -
  let ?M = "ekey (records leaf ! unat (max_key_idx lock))"
  have "length (records leaf) = 64" using assms(1) leaf_okD(1) by (auto simp: node_ok_def)
  then have "proper_key ?M" using assms(1) by (auto simp: node_ok_def)
  moreover have "fence_highest leaf = key_add ?M 1" using assms(1) by (simp add: node_ok_def max_ok_def Let_def)
  ultimately show ?thesis using key_add_one_next [of ?M k] assms(2) by (simp add: proper_key_def)
qed

lemma written_ok:
  fixes leaf :: LeafNode and loc :: "LeafEntry list"
  defines "rs \<equiv> records leaf"
  assumes node: "node_ok city leaf lock" and k: "k \<noteq> kkeyNull" "proper_key k" "leaf_map rs k = None"
    and below: "k < fence_highest leaf"
    and ins: "hopscotch_insert city rs k v n = Some (Some (r, e, hopped))" "n \<le> 64"
  defines "loc' \<equiv> over (window (home city k) n) loc r"
  defines "leaf' \<equiv> leaf\<lparr>records := segment_write rs loc' (home city k) e hopped\<rparr>"
  shows "\<exists>lock'. segment_lock loc' (home city k) e hopped lock = Some lock' \<and> node_ok city leaf' lock' \<and>
    leaf_map (records leaf') = (leaf_map rs)(k \<mapsto> v)"
proof -
  let ?l = "home city k" and ?mi = "unat (max_key_idx lock)"
  have ok: "leaf_ok city rs" "vacancy_ok lock rs" "\<forall>e \<in> set rs. proper_key (ekey e)"
    using node by (auto simp: node_ok_def rs_def)
  have r: "leaf_ok city r" "leaf_map r = (leaf_map rs)(k \<mapsto> v)"
    by (rule insert_outcome [OF ok(1) k(1,3) ins(2), of v]; use ins(1) in simp)+
  obtain p where p: "int ?l \<le> p" "p < int ?l + int n" "e = slot p" "length r = 64"
    and frame: "\<And>m. m < 64 \<Longrightarrow> m \<notin> slots (int ?l) p \<Longrightarrow> r ! m = rs ! m"
      "set hopped \<subseteq> slots (int ?l) p" "\<And>m. m < 64 \<Longrightarrow> m \<notin> set hopped \<Longrightarrow> ekey (r ! m) = ekey (rs ! m)"
      "\<And>m. m \<in> slots (int ?l) p \<Longrightarrow> ekey (r ! m) \<noteq> kkeyNull"
      "\<And>m. m \<in> slots (int ?l) p \<Longrightarrow> ekey (rs ! m) = kkeyNull \<Longrightarrow> m = e"
    using insert_frame [OF ins(1) leaf_okD(1) [OF ok(1)] k(1) ins(2)] by metis
  have seg: "in_segment ?l e i \<longleftrightarrow> i \<in> slots (int ?l) p" if "i < 64" for i
    using in_segment_iff [of ?l p i] p ins(2) that by simp
  have loc: "loc' ! i = r ! i" if "i \<in> slots (int ?l) p" for i
    using that p(2) by (auto simp: loc'_def over_nth)
  have same: "same_contents r (records leaf')"
    using segment_write_contents [of rs r ?l p n loc hopped] leaf_okD(1) [OF ok(1)] p ins(2) frame(1)
    by (simp add: leaf'_def loc'_def)
  note ok' = same_contents_ok [OF same r(1)]
  define mi' where "mi' = (if ?mi \<in> set hopped then new_max_key_loop r hopped kkeyNull ?mi else ?mi)"
  have "\<exists>lock'. segment_lock loc' ?l e hopped lock = Some lock' \<and> vacancy_ok lock' r \<and>
      max_key_idx lock' = (if ?mi \<in> set hopped then of_nat (new_max_key_loop loc' hopped kkeyNull ?mi) else max_key_idx lock)"
    by (rule segment_lock_ok [OF ok(2) home_less]) (use p(3) seg loc frame in auto)
  then obtain lock' where lock': "segment_lock loc' ?l e hopped lock = Some lock'" "vacancy_ok lock' r"
      "max_key_idx lock' = (if ?mi \<in> set hopped then of_nat (new_max_key_loop loc' hopped kkeyNull ?mi) else max_key_idx lock)"
    by blast
  have eqk: "ekey (records leaf' ! i) = ekey (r ! i)" if "i < 64" for i using same that by (simp add: same_contents_def)
  have vac: "vacancy_ok lock' (records leaf')" using lock'(2) same_contents_vacancy [OF same] by simp
  have proper: "\<forall>e \<in> set (records leaf'). proper_key (ekey e)"
    by (rule proper_kept [OF ok(1,3) ok'(1) k(2)]) (use ok'(2) r(2) in \<open>auto split: if_splits\<close>)
  have "max_ok leaf' lock'"
  proof -
    have old: "\<forall>e \<in> set rs. ekey e \<le> ekey (rs ! ?mi)" "key_add (ekey (rs ! ?mi)) 1 = fence_highest leaf"
      using node by (auto simp: node_ok_def max_ok_def Let_def rs_def)
    have "k \<le> ekey (rs ! ?mi)" using below_fence [OF node k(2)] below by (simp add: rs_def)
    have "mi' < 64 \<and> ekey (r ! mi') = ekey (rs ! ?mi) \<and> (\<forall>e \<in> set r. ekey e \<le> ekey (rs ! ?mi))"
      unfolding mi'_def
      by (intro conjI max_key_kept [OF ok(1) r frame(3) _ ok(3) k(2,1) max_idx_less old(1) \<open>k \<le> _\<close>])
        (use frame(2,4) in auto)
    then have mi': "mi' < 64" "ekey (r ! mi') = ekey (rs ! ?mi)" "\<And>i. i < 64 \<Longrightarrow> ekey (r ! i) \<le> ekey (rs ! ?mi)"
      using p(4) by auto
    have "new_max_key_loop loc' hopped kkeyNull ?mi = new_max_key_loop r hopped kkeyNull ?mi"
      by (rule new_max_key_loop_cong) (use loc frame(2) in blast)
    then have "unat (max_key_idx lock') = mi'"
      using lock'(3) mi'(1) by (auto simp: mi'_def unat_of_nat split: if_splits)
    then show ?thesis using old(2) mi' eqk same
      by (auto simp: max_ok_def in_set_conv_nth same_contents_def leaf'_def)
  qed
  moreover have "last_leaf leaf' \<longrightarrow> fence_highest leaf' = replicate keyLen 0xFF"
    using node by (simp add: node_ok_def leaf'_def last_leaf_def is_root_def)
  ultimately have "node_ok city leaf' lock'" unfolding node_ok_def using ok'(1) vac proper by blast
  then show ?thesis using lock'(1) ok'(2) r(2) by auto
qed

lemma split_lock_ok: "\<exists>lock'. split_lock rs lock = Some lock' \<and> vacancy_ok lock' rs \<and> max_key_idx lock' = of_nat (get_max_key_idx rs)"
proof -
  let ?es = "filter (\<lambda>i. ekey (rs ! i) = kkeyNull) [0..<64]"
  define allowed where "allowed = (\<lambda>i. find_bucket 0 \<le> i \<and> i \<le> find_bucket 63)"
  define w where "w = set_buckets [find_bucket 0..<find_bucket 63 + 1] (vacancy_bitmap lock)"
  have b: "find_bucket 0 = 0" "find_bucket 63 = 56" by (simp_all add: find_bucket_def)
  have "allowed (find_bucket e)" if "e \<in> set ?es" for e
    using find_bucket_less [of e] that by (simp add: allowed_def b)
  then obtain w' where w': "clear_buckets allowed ?es w = Some w'" using clear_buckets_all by blast
  have eq: "split_lock rs lock = Some (lock\<lparr>max_key_idx := of_nat (get_max_key_idx rs), vacancy_bitmap := w'\<rparr>)"
  proof -
    have "split_lock rs lock = map_option (\<lambda>w. lock\<lparr>max_key_idx := of_nat (get_max_key_idx rs), vacancy_bitmap := w\<rparr>)
        (clear_buckets allowed ?es w)"
      by (simp add: split_lock_def update_vacancy_def Let_def allowed_def w_def b del: upt_Suc)
    then show ?thesis using w' by simp
  qed
  have "vacancy_ok (lock\<lparr>max_key_idx := of_nat (get_max_key_idx rs), vacancy_bitmap := w'\<rparr>) rs"
    unfolding vacancy_ok_def
  proof (intro allI impI)
    fix x :: nat assume x: "x < 57" "\<not> bit (vacancy_bitmap (lock\<lparr>max_key_idx := of_nat (get_max_key_idx rs), vacancy_bitmap := w'\<rparr>)) x"
    then have "bit w x" using bit_set_buckets [of x] by (auto simp: w_def b)
    then have "x \<in> find_bucket ` set ?es" using clear_buckets_bit [OF w' x(1)] x(2) by simp
    then show "\<exists>i < 64. find_bucket i = x \<and> ekey (rs ! i) = kkeyNull" by auto
  qed
  then show ?thesis using eq by auto
qed

text \<open>Both leaves of a split satisfy the invariant of their own lock words.\<close>

lemma half_ok:
  fixes leaf :: LeafNode and lock :: VALOCK
  assumes "leaf_ok city (records leaf)" "\<forall>e \<in> set (records leaf). proper_key (ekey e)"
    "split_lock (records leaf) lock0 = Some lock"
    "key_add (ekey (records leaf ! get_max_key_idx (records leaf))) 1 = fence_highest leaf"
    "leaf_map (records leaf) \<noteq> Map.empty" "last_leaf leaf \<longrightarrow> fence_highest leaf = replicate keyLen 0xFF"
  shows "node_ok city (leaf\<lparr>records := bump_node_versions (records leaf)\<rparr>) lock"
proof -
  let ?rs = "records leaf" and ?b = "bump_node_versions (records leaf)"
  have len: "length ?rs = 64" using leaf_okD(1) [OF assms(1)] .
  have same: "same_contents ?rs ?b" using same_contents_bump [OF len] .
  have eqk: "ekey (?b ! i) = ekey (?rs ! i)" if "i < 64" for i using same that by (simp add: same_contents_def)
  have lock: "vacancy_ok lock ?rs" "max_key_idx lock = of_nat (get_max_key_idx ?rs)"
    using split_lock_ok [of ?rs lock0] assms(3) by auto
  obtain x where "leaf_map ?rs x \<noteq> None" using assms(5) by (auto simp: fun_eq_iff)
  then obtain i where "i < 64" "ekey (?rs ! i) \<noteq> kkeyNull" using key_of_map [OF assms(1)] by metis
  then have "\<exists>p < 64. ekey (?rs ! p) \<noteq> kkeyNull" by blast
  moreover have "length (ekey (?rs ! p)) = keyLen" if "p < 64" for p
    using assms(2) that len by (auto simp: proper_key_def)
  ultimately have m: "get_max_key_idx ?rs < 64" "\<And>p. p < 64 \<Longrightarrow> ekey (?rs ! p) \<le> ekey (?rs ! get_max_key_idx ?rs)"
    using get_max_key_idx_max [of ?rs] by blast+
  have u: "unat (max_key_idx lock) = get_max_key_idx ?rs" using lock(2) m(1) by (simp add: unat_of_nat)
  have "length ?b = 64" using same by (simp add: same_contents_def)
  then have "(\<forall>e \<in> set ?b. proper_key (ekey e)) \<and> (\<forall>e \<in> set ?b. ekey e \<le> ekey (?b ! get_max_key_idx ?rs))"
    using assms(2) len eqk m by (simp add: all_set_conv_all_nth)
  then show ?thesis
    using same_contents_ok(1) [OF same assms(1)] same_contents_vacancy [OF same] lock(1) assms(4,6) eqk [OF m(1)]
    by (auto simp: node_ok_def max_ok_def last_leaf_def is_root_def u)
qed

lemma max_moves:
  assumes ok: "leaf_ok city rs" "\<forall>e \<in> set rs. proper_key (ekey e)" "leaf_ok city s"
    and map: "\<And>x. leaf_map s x = (if x < sk then None else ((leaf_map rs)(k \<mapsto> v)) x)"
    and k: "k \<noteq> kkeyNull" "proper_key k" and proper: "\<forall>e \<in> set s. proper_key (ekey e)" and some: "leaf_map s \<noteq> Map.empty"
    and mi: "mi < 64" "\<forall>e \<in> set rs. ekey e \<le> ekey (rs ! mi)" "k \<le> ekey (rs ! mi)"
  shows "ekey (s ! get_max_key_idx s) = ekey (rs ! mi)"
proof -
  let ?M = "ekey (rs ! mi)" and ?m = "get_max_key_idx s"
  note len = leaf_okD(1) [OF ok(1)] leaf_okD(1) [OF ok(3)]
  have le: "x \<le> ?M" if "leaf_map s x \<noteq> None" for x
  proof (cases "x = k")
    case False
    then have "leaf_map rs x \<noteq> None" using that unfolding map by (auto split: if_splits)
    then show ?thesis using key_of_map [OF ok(1)] mi(2) len(1) by (metis nth_mem)
  qed (use mi in simp)
  have M0: "?M \<noteq> kkeyNull" using mi(3) key_null_least [of k] k by (auto simp: proper_key_def)
  obtain x where x: "leaf_map s x \<noteq> None" using some by (auto simp: fun_eq_iff)
  then have "\<not> x < sk" unfolding map by (auto split: if_splits)
  then have "\<not> ?M < sk" using le [OF x] by auto
  then have "leaf_map s ?M \<noteq> None" using key_in_map [OF ok(1) mi(1) M0] unfolding map by auto
  then obtain i where i: "i < 64" "ekey (s ! i) = ?M" using key_of_map [OF ok(3)] by metis
  have "length (ekey (s ! p)) = keyLen" if "p < 64" for p using proper that len(2) by (auto simp: proper_key_def)
  note m = get_max_key_idx_max [OF this i(1)]
  have "?M \<le> ekey (s ! ?m)" using m(2) [OF _ _ i(1)] i M0 by auto
  moreover have "ekey (s ! ?m) \<le> ?M" using le [OF key_in_map [OF ok(3)]] m i M0 by auto
  ultimately show ?thesis by simp
qed

lemma splitted_ok:
  fixes leaf :: LeafNode
  defines "rs \<equiv> records leaf"
  assumes node: "node_ok city leaf lock" and k: "k \<noteq> kkeyNull" "proper_key k" "leaf_map rs k = None"
    and below: "k < fence_highest leaf"
    and full: "hopscotch_insert city rs k v 64 = Some None" and new: "new_addr \<noteq> 0" "new_addr \<noteq> Widest"
  shows "\<exists>leaf' lock' sib sib_lock sk.
    leaf_split_and_unlock city leaf lock k v new_addr = Some (Splitted leaf' lock' sib sib_lock sk) \<and>
    node_ok city leaf' lock' \<and> node_ok city sib sib_lock \<and>
    (\<forall>x. leaf_map (records leaf') x = (if x < sk then ((leaf_map rs)(k \<mapsto> v)) x else None)) \<and>
    (\<forall>x. leaf_map (records sib) x = (if x < sk then None else ((leaf_map rs)(k \<mapsto> v)) x)) \<and>
    sibling_ptr leaf' = new_addr \<and> sibling_ptr sib = (if is_root leaf then 0 else sibling_ptr leaf) \<and>
    fence_highest leaf' = sk \<and> fence_lowest sib = sk \<and> fence_highest sib = fence_highest leaf \<and>
    valid leaf' = valid leaf \<and> valid sib = 1 \<and> fence_lowest leaf' = fence_lowest leaf \<and>
    leaf_map (records leaf') \<noteq> Map.empty \<and> leaf_map (records sib) \<noteq> Map.empty"
proof -
  have ok: "leaf_ok city rs" "\<forall>e \<in> set rs. proper_key (ekey e)" using node by (auto simp: node_ok_def rs_def)
  have k': "length k = keyLen" "k < replicate keyLen 0xFF" using k(2) by (simp_all add: proper_key_def)
  have len: "\<forall>e \<in> set (records leaf). length (ekey e) = keyLen \<and> ekey e < replicate keyLen 0xFF"
    using ok(2) by (simp add: rs_def proper_key_def)
  obtain leaf' sib sk where split: "hopscotch_split city leaf k v new_addr = Some (leaf', sib, sk)"
      and halves: "leaf_ok city (records leaf')" "leaf_ok city (records sib)"
      and map: "\<And>x. leaf_map (records leaf') x = (if x < sk then ((leaf_map rs)(k \<mapsto> v)) x else None)"
        "\<And>x. leaf_map (records sib) x = (if x < sk then None else ((leaf_map rs)(k \<mapsto> v)) x)"
      and meta: "sibling_ptr leaf' = new_addr" "sibling_ptr sib = (if is_root leaf then 0 else sibling_ptr leaf)"
        "fence_highest leaf' = sk" "fence_lowest sib = sk" "fence_highest sib = fence_highest leaf"
        "sk = key_add (ekey (records leaf' ! get_max_key_idx (records leaf'))) 1"
        "valid leaf' = valid leaf" "valid sib = 1" "fence_lowest leaf' = fence_lowest leaf"
      and some: "leaf_map (records leaf') \<noteq> Map.empty" "leaf_map (records sib) \<noteq> Map.empty"
    using hopscotch_split_ok [OF ok(1) [unfolded rs_def] len k(1) k' k(3) [unfolded rs_def] full [unfolded rs_def], of new_addr,
      folded rs_def] by blast
  have proper: "\<forall>e \<in> set (records leaf'). proper_key (ekey e)" "\<forall>e \<in> set (records sib). proper_key (ekey e)"
    by (rule proper_kept [OF ok halves(1) k(2)] proper_kept [OF ok halves(2) k(2)]; simp add: map split: if_splits)+
  obtain lock' sib_lock where locks: "split_lock (records leaf') lock = Some lock'"
      "split_lock (records sib) \<lparr>vacancy_bitmap = 0, max_key_idx = 0\<rparr> = Some sib_lock"
    using split_lock_ok by metis
  let ?l = "leaf'\<lparr>records := bump_node_versions (records leaf')\<rparr>"
    and ?s = "sib\<lparr>records := bump_node_versions (records sib)\<rparr>"
  have "leaf_split_and_unlock city leaf lock k v new_addr = Some (Splitted ?l lock' ?s sib_lock sk)"
    using split locks by (simp add: leaf_split_and_unlock_def)
  moreover have "node_ok city ?l lock'"
    by (rule half_ok [OF halves(1) proper(1) locks(1) _ some(1)]) (use meta new in \<open>simp_all add: last_leaf_def is_root_def\<close>)
  moreover have "node_ok city ?s sib_lock"
  proof (rule half_ok [OF halves(2) proper(2) locks(2) _ some(2)])
    show "key_add (ekey (records sib ! get_max_key_idx (records sib))) 1 = fence_highest sib"
    proof -
      have old: "\<forall>e \<in> set rs. ekey e \<le> ekey (rs ! unat (max_key_idx lock))"
          "key_add (ekey (rs ! unat (max_key_idx lock))) 1 = fence_highest leaf"
        using node by (auto simp: node_ok_def max_ok_def Let_def rs_def)
      have "k \<le> ekey (rs ! unat (max_key_idx lock))"
        using below_fence [OF node k(2)] below by (simp add: rs_def)
      then show ?thesis using max_moves [OF ok halves(2) map(2) k(1,2) proper(2) some(2) max_idx_less old(1)] old(2) meta(5) by simp
    qed
    show "last_leaf sib \<longrightarrow> fence_highest sib = replicate keyLen 0xFF"
      using node meta(2,5) by (auto simp: node_ok_def last_leaf_def is_root_def split: if_splits)
  qed
  moreover have "leaf_map (records ?l) = leaf_map (records leaf')" "leaf_map (records ?s) = leaf_map (records sib)"
    using same_contents_ok(2) [OF same_contents_bump] halves leaf_okD(1) by simp_all
  ultimately show ?thesis using map meta some by auto
qed

section \<open>The insertion\<close>

lemma in_window: "l < 64 \<Longrightarrow> i < 64 \<Longrightarrow> n \<le> 64 \<Longrightarrow> i \<in> window l n \<longleftrightarrow> (i + 64 - l) mod 64 < n"
proof (cases n)
  case (Suc m)
  assume a: "l < 64" "i < 64" "n \<le> 64"
  have "window l n = slots (int l) (int l + int m)" using Suc by (intro arg_cong [of _ _ "image slot"]) auto
  then show ?thesis using in_slots [of l "int l + int m" i] a Suc by simp auto
qed simp

lemma window_read_nth:
  assumes "l < 64" "n \<le> 64" "i < 64"
  shows "window_read rs l n ! i = (if i \<in> window l n then rs ! i else LeafEntry_Null)"
  using assms in_window [OF assms(1,3,2)] by (simp add: window_read_def)

lemma window_idxes_less: "l < 64 \<Longrightarrow> r < 64 \<Longrightarrow> i \<in> set (window_idxes l r) \<Longrightarrow> i < 64"
  by (auto simp: window_idxes_def split: if_splits)

text \<open>The largest key lies in the window, or the code reads it.\<close>

lemma outside_window:
  assumes "l < 64" "mi < 64" "n < 64" "0 < n" "mi \<notin> window l n"
  defines "r \<equiv> (l + n) mod 64"
  shows "l < r \<and> (mi < l \<or> r \<le> mi) \<or> r \<le> l \<and> r \<le> mi \<and> mi < l"
proof -
  have "r = (if l + n < 64 then l + n else l + n - 64)" using assms(1,3) by (simp add: r_def mod_if)
  moreover have "\<not> (mi + 64 - l) mod 64 < n" using in_window [of l mi n] assms by simp
  moreover have "(mi + 64 - l) mod 64 = (if l \<le> mi then mi - l else mi + 64 - l)"
    by (rule offset_cases [OF assms(1,2)])
  ultimately show ?thesis using assms(1-4) by (auto split: if_splits)
qed

text \<open>What the owner of the lock has read when it decides: \<open>loc\<close>, with or without the largest key.\<close>

definition reads_window :: "LeafEntry list \<Rightarrow> nat \<Rightarrow> nat \<Rightarrow> LeafEntry list \<Rightarrow> bool" where
  "reads_window rs l n loc \<longleftrightarrow> length loc = 64 \<and>
     (\<forall>i < 64. loc ! i = rs ! i \<or> i \<notin> window l n \<and> loc ! i = LeafEntry_Null)"

lemma reads_window_read: "l < 64 \<Longrightarrow> n \<le> 64 \<Longrightarrow> length rs = 64 \<Longrightarrow>
    reads_window rs l n (if n < 64 then window_read rs l n else rs)"
  using window_read_nth [of l n] by (auto simp: reads_window_def) (simp add: window_read_def)

lemma reads_window_max: "reads_window rs l n loc \<Longrightarrow> reads_window rs l n (loc[mi := rs ! mi])"
  unfolding reads_window_def by (metis length_list_update nth_list_update_eq nth_list_update_neq)

lemma reads_window_over: "reads_window rs l n loc \<Longrightarrow> loc = over (window l n) loc rs"
  by (rule nth_equalityI) (auto simp: reads_window_def over_nth)

lemma turn_right:
  fixes leaf :: LeafNode and mi :: nat
  defines "rs \<equiv> records leaf"
  assumes node: "node_ok city leaf lock" and k: "k \<noteq> kkeyNull" "proper_key k"
    and loc: "reads_window rs l n loc" "l < 64" "n \<le> 64" "0 < n"
  defines "mi \<equiv> unat (max_key_idx lock)" and "r \<equiv> (l + n) mod 64"
  defines "has_large \<equiv> list_ex (\<lambda>i. k \<le> ekey (loc ! i)) (window_idxes l r)"
  defines "loc' \<equiv> if \<not> is_root leaf \<and> \<not> has_large \<and> (l < r \<and> (mi < l \<or> r \<le> mi) \<or> r \<le> l \<and> r \<le> mi \<and> mi < l)
    then loc[mi := rs ! mi] else loc"
  defines "split_key \<equiv> if is_root leaf then replicate keyLen 0xFF
    else if has_large then key_add k 1 else key_add (ekey (loc' ! mi)) 1"
  shows "split_key \<le> k \<longleftrightarrow> fence_highest leaf \<le> k"
proof (cases "is_root leaf")
  case True
  then show ?thesis using node by (simp add: split_key_def last_leaf_def node_ok_def)
next
  case False
  have len: "length rs = 64" using node leaf_okD(1) by (auto simp: node_ok_def rs_def)
  have max: "\<forall>e \<in> set rs. ekey e \<le> ekey (rs ! mi)" "key_add (ekey (rs ! mi)) 1 = fence_highest leaf"
    using node by (auto simp: node_ok_def max_ok_def Let_def rs_def mi_def)
  note fence = below_fence [OF node k(2), folded rs_def mi_def]
  show ?thesis
  proof (cases has_large)
    case True
    then obtain i where i: "i \<in> set (window_idxes l r)" "k \<le> ekey (loc ! i)" by (auto simp: has_large_def list_ex_iff)
    then have "i < 64" using window_idxes_less [OF loc(2), of r i] by (simp add: r_def)
    moreover have "loc ! i \<noteq> LeafEntry_Null" using i(2) key_null_least [of k] k by (auto simp: proper_key_def)
    ultimately have "k \<le> ekey (rs ! i)" using loc(1) i(2) by (auto simp: reads_window_def)
    also have "\<dots> \<le> ekey (rs ! mi)" using max(1) len \<open>i < 64\<close> by simp
    finally have "k < fence_highest leaf" using fence by simp
    moreover have "k < key_add k 1" using key_add_one_next [of k k] k(2) by (simp add: proper_key_def)
    ultimately show ?thesis using False True by (auto simp: split_key_def)
  next
    case nlarge: False
    have "loc' ! mi = rs ! mi"
    proof (cases "mi \<in> window l n \<or> n = 64")
      case True
      have "mi \<in> window l n" using True in_window [OF loc(2), of mi 64] by (auto simp: mi_def)
      then have "loc ! mi = rs ! mi" using loc(1) max_idx_less unfolding reads_window_def mi_def by blast
      then show ?thesis using loc(1) by (auto simp: loc'_def reads_window_def mi_def)
    next
      case False
      then have "l < r \<and> (mi < l \<or> r \<le> mi) \<or> r \<le> l \<and> r \<le> mi \<and> mi < l"
        using outside_window [of l mi n] loc by (simp add: r_def mi_def)
      then show ?thesis using \<open>\<not> is_root leaf\<close> nlarge loc(1) by (simp add: loc'_def reads_window_def mi_def)
    qed
    then show ?thesis using False nlarge max(2) by (simp add: split_key_def)
  qed
qed

lemma insert_into_window:
  fixes leaf :: LeafNode
  defines "rs \<equiv> records leaf"
  assumes node: "node_ok city leaf lock" and k: "k \<noteq> kkeyNull" "proper_key k" "leaf_map rs k = None"
    and below: "k < fence_highest leaf"
    and loc: "reads_window rs (home city k) n loc" "n \<le> 64"
    and empty: "n = 64 \<or> (\<exists>i < n. ekey (rs ! ((home city k + i) mod 64)) = kkeyNull)"
    and new: "new_addr \<noteq> 0" "new_addr \<noteq> Widest"
  obtains (Written) r e hopped lock' where "hopscotch_insert city loc k v n = Some (Some (r, e, hopped))"
      "segment_lock r (home city k) e hopped lock = Some lock'"
      "node_ok city (leaf\<lparr>records := segment_write rs r (home city k) e hopped\<rparr>) lock'"
      "leaf_map (segment_write rs r (home city k) e hopped) = (leaf_map rs)(k \<mapsto> v)"
    | (Splitted) leaf' lock' sib sib_lock sk where "hopscotch_insert city loc k v n = Some None"
      "leaf_split_and_unlock city leaf lock k v new_addr = Some (Splitted leaf' lock' sib sib_lock sk)"
      "node_ok city leaf' lock'" "node_ok city sib sib_lock"
      "\<forall>x. leaf_map (records leaf') x = (if x < sk then ((leaf_map rs)(k \<mapsto> v)) x else None)"
      "\<forall>x. leaf_map (records sib) x = (if x < sk then None else ((leaf_map rs)(k \<mapsto> v)) x)"
      "sibling_ptr leaf' = new_addr" "sibling_ptr sib = (if is_root leaf then 0 else sibling_ptr leaf)"
      "fence_highest leaf' = sk" "fence_lowest sib = sk" "fence_highest sib = fence_highest leaf"
      "valid leaf' = valid leaf" "valid sib = 1" "fence_lowest leaf' = fence_lowest leaf"
      "leaf_map (records leaf') \<noteq> Map.empty" "leaf_map (records sib) \<noteq> Map.empty"
proof -
  have ok: "leaf_ok city rs" using node by (simp add: node_ok_def rs_def)
  note window = hopscotch_insert_window [OF leaf_okD(1) [OF ok] loc(2) reads_window_over [OF loc(1)], of v]
  show thesis
  proof (rule insert_outcome [OF ok k(1,3) loc(2), of v])
    assume refused: "hopscotch_insert city rs k v n = Some None"
    have "hopscotch_insert city rs k v 64 = Some None"
    proof (cases "n = 64")
      case False
      then obtain i where "i < n" "ekey (get_entry rs (int (home city k) + int i)) = kkeyNull"
        using empty slot_home [of "home city k"] by (auto simp: get_entry_def)
      then have "find_empty rs (int (home city k)) n \<noteq> None"
        by (auto simp: find_empty_None intro!: exI [of _ "int (home city k) + int i"])
      then show ?thesis using refused hopscotch_insert_more [of rs city k n v] loc(2) by simp
    qed (use refused in simp)
    note split = splitted_ok [OF node k [unfolded rs_def] below this [unfolded rs_def] new, folded rs_def]
    have "hopscotch_insert city loc k v n = Some None" using window refused by simp
    from split show thesis by (elim exE conjE) (rule Splitted [OF \<open>hopscotch_insert city loc k v n = Some None\<close>])
  next
    fix r e hopped
    assume placed: "hopscotch_insert city rs k v n = Some (Some (r, e, hopped))"
    show thesis
      using written_ok [OF node k [unfolded rs_def] below placed [unfolded rs_def] loc(2), of loc] window placed Written
      by (simp add: rs_def) blast
  qed
qed

text \<open>The sibling of a leaf, with the mark of the root removed.\<close>

definition right_of :: "LeafNode \<Rightarrow> u64" where
  "right_of leaf = (if sibling_ptr leaf = Widest then 0 else sibling_ptr leaf)"

text \<open>Inserting a new key into a leaf: what each result of the code promises.\<close>

definition same_place :: "LeafNode \<Rightarrow> LeafNode \<Rightarrow> bool" where
  "same_place leaf leaf' \<longleftrightarrow> sibling_ptr leaf' = sibling_ptr leaf \<and> fence_lowest leaf' = fence_lowest leaf \<and>
     fence_highest leaf' = fence_highest leaf \<and> valid leaf' = valid leaf"

definition split_place :: "LeafNode \<Rightarrow> LeafNode \<Rightarrow> LeafNode \<Rightarrow> key \<Rightarrow> u64 \<Rightarrow> bool" where
  "split_place leaf leaf' sib sk new_addr \<longleftrightarrow> sibling_ptr leaf' = new_addr \<and> sibling_ptr sib = right_of leaf \<and>
     fence_lowest leaf' = fence_lowest leaf \<and> fence_highest leaf' = sk \<and> fence_lowest sib = sk \<and>
     fence_highest sib = fence_highest leaf \<and> valid leaf' = valid leaf \<and> valid sib = 1"

definition insert_promise :: "(key \<Rightarrow> u64) \<Rightarrow> LeafNode \<Rightarrow> u64 \<Rightarrow> key \<Rightarrow> u64 \<Rightarrow> bool \<Rightarrow> u64 \<Rightarrow> insert_result \<Rightarrow> bool" where
  "insert_promise city leaf sibling_addr k v from_cache new_addr res \<longleftrightarrow> (case res of
      Invalid \<Rightarrow> from_cache \<and> sibling_addr \<noteq> right_of leaf
    | TurnRight a \<Rightarrow> a = sibling_ptr leaf \<and> \<not> last_leaf leaf \<and> fence_highest leaf \<le> k
    | Written leaf' lock' \<Rightarrow> node_ok city leaf' lock' \<and> same_place leaf leaf' \<and>
        leaf_map (records leaf') = (leaf_map (records leaf))(k \<mapsto> v)
    | Splitted leaf' lock' sib sib_lock sk \<Rightarrow> node_ok city leaf' lock' \<and> node_ok city sib sib_lock \<and>
        split_place leaf leaf' sib sk new_addr \<and>
        leaf_map (records leaf') \<noteq> Map.empty \<and> leaf_map (records sib) \<noteq> Map.empty \<and>
        (\<forall>x. leaf_map (records leaf') x = (if x < sk then ((leaf_map (records leaf))(k \<mapsto> v)) x else None)) \<and>
        (\<forall>x. leaf_map (records sib) x = (if x < sk then None else ((leaf_map (records leaf))(k \<mapsto> v)) x)))"

lemma leaf_node_insert_ok:
  assumes node: "node_ok city leaf lock" and valid: "valid leaf \<noteq> 0"
    and k: "k \<noteq> kkeyNull" "proper_key k" "leaf_map (records leaf) k = None"
    and route: "sibling_addr = right_of leaf \<longrightarrow> k < fence_highest leaf"
    and new: "new_addr \<noteq> 0" "new_addr \<noteq> Widest"
  shows "\<exists>res. leaf_node_insert city leaf lock sibling_addr k v from_cache new_addr = Some res \<and>
    insert_promise city leaf sibling_addr k v from_cache new_addr res"
proof -
  define rs where "rs = records leaf"
  define l where "l = home city k"
  obtain n r where nr: "read_window lock l = (n, r)" by (cases "read_window lock l")
  define loc where "loc = (if n < 64 then window_read rs l n else rs)"
  define mi where "mi = unat (max_key_idx lock)"
  define turn where "turn \<longleftrightarrow> sibling_addr \<noteq> right_of leaf"
  define large where "large = list_ex (\<lambda>i. k \<le> ekey (loc ! i)) (window_idxes l r)"
  define out where "out \<longleftrightarrow> l < r \<and> (mi < l \<or> r \<le> mi) \<or> r \<le> l \<and> r \<le> mi \<and> mi < l"
  define loc1 where "loc1 = (if turn \<and> \<not> is_root leaf \<and> \<not> large \<and> out then loc[mi := rs ! mi] else loc)"
  define sk where "sk = (if is_root leaf then replicate keyLen 0xFF else if large then key_add k 1 else key_add (ekey (loc1 ! mi)) 1)"
  have eq: "leaf_node_insert city leaf lock sibling_addr k v from_cache new_addr =
     (if valid leaf = 0 \<or> from_cache \<and> turn then Some Invalid
      else if turn \<and> sk \<le> k then (if sibling_ptr leaf = 0 then None else Some (TurnRight (sibling_ptr leaf)))
      else if \<not> (n = 64 \<or> list_ex (\<lambda>i. ekey (loc1 ! ((l + i) mod 64)) = kkeyNull) [0..<n]) then None
      else case find (\<lambda>i. ekey (loc1 ! i) = k) [0..<64] of
           Some i \<Rightarrow> Some (Written (leaf\<lparr>records := rs[i := bump_entry_version (entry_update k v (loc1 ! i))]\<rparr>) lock)
         | None \<Rightarrow>
             (case hopscotch_insert city loc1 k v n of
                None \<Rightarrow> None
              | Some (Some (rs', empty_idx, hopped)) \<Rightarrow>
                  (case segment_lock rs' l empty_idx hopped lock of
                     None \<Rightarrow> None
                   | Some lock' \<Rightarrow> Some (Written (leaf\<lparr>records := segment_write rs rs' l empty_idx hopped\<rparr>) lock'))
              | Some None \<Rightarrow> leaf_split_and_unlock city leaf lock k v new_addr))"
    unfolding leaf_node_insert_def Let_def leafSpanSize_def l_def [symmetric] nr prod.case rs_def [symmetric]
      right_of_def [symmetric] mi_def [symmetric] loc_def [symmetric] turn_def [symmetric] large_def [symmetric]
      out_def [symmetric] loc1_def [symmetric] sk_def [symmetric] by (rule refl)
  have ok: "leaf_ok city rs" "vacancy_ok lock rs" using node by (auto simp: node_ok_def rs_def)
  note len = leaf_okD(1) [OF ok(1)]
  have l: "l < 64" by (simp add: l_def)
  note w = read_window_ok [OF ok(2) l nr]
  have n0: "0 < n" using w(3) by auto
  have win: "reads_window rs l n loc1"
    using reads_window_read [OF l w(1) len] reads_window_max unfolding loc1_def loc_def by simp
  have turn: "turn \<and> sk \<le> k \<longleftrightarrow> turn \<and> fence_highest leaf \<le> k"
  proof (cases turn)
    case True
    note tr = turn_right [OF node k(1,2) reads_window_read [OF l w(1) len, folded loc_def, unfolded rs_def] l w(1) n0]
    show ?thesis
      using tr True unfolding sk_def loc1_def large_def out_def w(2) mi_def rs_def by (simp only: simp_thms)
  qed simp
  show ?thesis
  proof (cases "from_cache \<and> turn \<or> turn \<and> sk \<le> k")
    case True
    moreover have "\<not> last_leaf leaf" if "fence_highest leaf \<le> k"
      using that node k(2) by (auto simp: node_ok_def proper_key_def)
    ultimately show ?thesis using valid turn unfolding eq by (auto simp: turn_def last_leaf_def insert_promise_def)
  next
    case False
    have below: "k < fence_highest leaf"
      using False turn route by (cases turn) (auto simp: turn_def not_le)
    have "n = 64 \<or> list_ex (\<lambda>i. ekey (loc1 ! ((l + i) mod 64)) = kkeyNull) [0..<n]"
    proof (cases "n = 64")
      case False
      then obtain i where i: "i < n" "ekey (rs ! ((l + i) mod 64)) = kkeyNull" using w(3) by auto
      have "loc1 ! ((l + i) mod 64) = rs ! ((l + i) mod 64) \<or> ekey (loc1 ! ((l + i) mod 64)) = kkeyNull"
        using win mod_less_divisor [of 64 "l + i"] unfolding reads_window_def by (metis ekey_Null zero_less_numeral)
      then show ?thesis using i by (intro disjI2) (auto simp: list_ex_iff intro!: bexI [of _ i])
    qed simp
    moreover have "find (\<lambda>i. ekey (loc1 ! i) = k) [0..<64] = None"
    proof -
      have "ekey (loc1 ! i) \<noteq> k" if "i < 64" for i
        using win that k(1,3) leaf_map_None [OF ok(1), of k] unfolding reads_window_def rs_def by (metis ekey_Null)
      then show ?thesis by (simp add: find_None_iff)
    qed
    ultimately have eq': "leaf_node_insert city leaf lock sibling_addr k v from_cache new_addr =
       (case hopscotch_insert city loc1 k v n of
          None \<Rightarrow> None
        | Some (Some (rs', empty_idx, hopped)) \<Rightarrow>
            (case segment_lock rs' l empty_idx hopped lock of
               None \<Rightarrow> None
             | Some lock' \<Rightarrow> Some (Written (leaf\<lparr>records := segment_write rs rs' l empty_idx hopped\<rparr>) lock'))
        | Some None \<Rightarrow> leaf_split_and_unlock city leaf lock k v new_addr)"
      using valid False unfolding eq by auto
    show ?thesis
      by (rule insert_into_window [OF node k below win [unfolded rs_def l_def] w(1) w(3) [unfolded rs_def l_def] new,
        where v = v])
      (simp_all add: eq' insert_promise_def same_place_def split_place_def right_of_def is_root_def flip: rs_def l_def)
  qed
qed

end
