(* ===== verification/Chime_Chain.thy ===== *)
theory Chime_Chain
  imports Chime_Insert
begin

text \<open>
  The leaves of a CHIME tree as a chain: the constructor \<open>Tree::Tree\<close> makes the first one, an insertion
  starts at the leaf its parent or a cache entry names and moves right (the recursion of
  \<open>leaf_node_insert\<close> in \<open>CHIME/src/Tree.cpp\<close>), and a split adds a leaf.  The abstract value of the chain is a map.
\<close>

section \<open>The model\<close>

definition ghost_key :: key where
  "ghost_key = key_sub (replicate keyLen 0xFF) 1"

definition init_root :: "(key \<Rightarrow> u64) \<Rightarrow> (LeafNode \<times> VALOCK) option" where
  "init_root city =
     (case hopscotch_insert_locally city (records new_LeafNode) ghost_key 0 of
        None \<Rightarrow> None
      | Some (rs, idx) \<Rightarrow>
          map_option (Pair (new_LeafNode\<lparr>sibling_ptr := Widest, records := rs\<rparr>))
            (update_vacancy idx idx [] \<lparr>vacancy_bitmap = 0, max_key_idx = of_nat idx\<rparr>))"

type_synonym leaf_heap = "u64 \<rightharpoonup> LeafNode \<times> VALOCK"

text \<open>
  \<open>leaf_node_insert\<close> with its recursion, at most \<open>n\<close> leaves far.  The result is the value the code
  returns, the memory, and the separator and address that go to the parent after a split.
\<close>

fun insert_from :: "(key \<Rightarrow> u64) \<Rightarrow> nat \<Rightarrow> leaf_heap \<Rightarrow> u64 \<Rightarrow> u64 \<Rightarrow> key \<Rightarrow> u64 \<Rightarrow> bool \<Rightarrow> u64 \<Rightarrow>
    (bool \<times> leaf_heap \<times> (key \<times> u64) option) option" where
  "insert_from city 0 h node_addr sibling_addr k v from_cache new_addr = None"
| "insert_from city (Suc n) h node_addr sibling_addr k v from_cache new_addr =
     (case h node_addr of
        None \<Rightarrow> None
      | Some (leaf, lock) \<Rightarrow>
          (case leaf_node_insert city leaf lock sibling_addr k v from_cache new_addr of
             None \<Rightarrow> None
           | Some Invalid \<Rightarrow> Some (False, h, None)
           | Some (TurnRight a) \<Rightarrow> insert_from city n h a 0 k v False new_addr
           | Some (Written leaf' lock') \<Rightarrow> Some (True, h(node_addr \<mapsto> (leaf', lock')), None)
           | Some (Splitted leaf' lock' sib sib_lock sk) \<Rightarrow>
               Some (True, h(new_addr \<mapsto> (sib, sib_lock), node_addr \<mapsto> (leaf', lock')), Some (sk, new_addr))))"

section \<open>The chain\<close>

definition good_leaf :: "(key \<Rightarrow> u64) \<Rightarrow> key \<Rightarrow> LeafNode \<times> VALOCK \<Rightarrow> bool" where
  "good_leaf city lo = (\<lambda>(leaf, lock). node_ok city leaf lock \<and> valid leaf \<noteq> 0 \<and> fence_lowest leaf = lo \<and>
     lo < fence_highest leaf \<and> (\<forall>x \<in> dom (leaf_map (records leaf)). lo \<le> x))"

fun chain :: "(key \<Rightarrow> u64) \<Rightarrow> leaf_heap \<Rightarrow> key \<Rightarrow> u64 list \<Rightarrow> bool" where
  "chain city h lo [] \<longleftrightarrow> True"
| "chain city h lo (a # as) \<longleftrightarrow> (case h a of
     None \<Rightarrow> False
   | Some (leaf, lock) \<Rightarrow> good_leaf city lo (leaf, lock) \<and>
       (if as = [] then last_leaf leaf else \<not> last_leaf leaf \<and> sibling_ptr leaf = hd as) \<and>
       chain city h (fence_highest leaf) as)"

fun contents :: "leaf_heap \<Rightarrow> u64 list \<Rightarrow> key \<rightharpoonup> u64" where
  "contents h [] = Map.empty"
| "contents h (a # as) = contents h as ++ (case h a of None \<Rightarrow> Map.empty | Some (leaf, lock) \<Rightarrow> leaf_map (records leaf))"

lemma chain_cong: "(\<And>a. a \<in> set as \<Longrightarrow> h a = h' a) \<Longrightarrow> chain city h lo as = chain city h' lo as"
  by (induction as arbitrary: lo) (auto split: option.split)

lemma contents_cong: "(\<And>a. a \<in> set as \<Longrightarrow> h a = h' a) \<Longrightarrow> contents h as = contents h' as"
  by (induction as) auto

text \<open>An insertion that starts at the first leaf of a chain.\<close>

definition inserted :: "(key \<Rightarrow> u64) \<Rightarrow> leaf_heap \<Rightarrow> key \<Rightarrow> u64 list \<Rightarrow> key \<Rightarrow> u64 \<Rightarrow> u64 \<Rightarrow> leaf_heap \<Rightarrow> u64 list \<Rightarrow>
    (key \<times> u64) option \<Rightarrow> bool" where
  "inserted city h lo as k v new_addr h' as' sep \<longleftrightarrow>
     chain city h' lo as' \<and> contents h' as' = (contents h as)(k \<mapsto> v) \<and> distinct as' \<and> hd as' = hd as \<and> as' \<noteq> [] \<and>
     (\<forall>a. a \<notin> set as \<and> a \<noteq> new_addr \<longrightarrow> h' a = h a) \<and>
     (case sep of None \<Rightarrow> as' = as \<and> h' new_addr = h new_addr
      | Some (sk, a) \<Rightarrow> a = new_addr \<and> set as' = insert new_addr (set as) \<and>
          (\<exists>leaf lock. h' new_addr = Some (leaf, lock) \<and> fence_lowest leaf = sk))"

lemma last_right: "last_leaf leaf \<longleftrightarrow> right_of leaf = 0"
  by (auto simp: last_leaf_def right_of_def is_root_def)

lemma written_step:
  assumes chain: "chain city h lo (a # as)" "distinct (a # as)" "h a = Some (leaf, lock)" and k: "lo \<le> k" and new: "new_addr \<noteq> a"
    and res: "insert_promise city leaf sibling_addr k v from_cache new_addr (Written leaf' lock')"
  shows "inserted city h lo (a # as) k v new_addr (h(a \<mapsto> (leaf', lock'))) (a # as) None"
proof -
  have leaf': "node_ok city leaf' lock'" "same_place leaf leaf'" "leaf_map (records leaf') = (leaf_map (records leaf))(k \<mapsto> v)"
    using res by (auto simp: insert_promise_def)
  have old: "chain city (h(a \<mapsto> (leaf', lock'))) m as = chain city h m as"
      "contents (h(a \<mapsto> (leaf', lock'))) as = contents h as" for m
    by (rule chain_cong contents_cong; use chain(2) in auto)+
  have "good_leaf city lo (leaf', lock')"
    using chain(1,3) leaf' k by (auto simp: good_leaf_def same_place_def)
  moreover have "last_leaf leaf' = last_leaf leaf" "fence_highest leaf' = fence_highest leaf" "sibling_ptr leaf' = sibling_ptr leaf"
    using leaf'(2) by (auto simp: same_place_def last_leaf_def is_root_def)
  ultimately show ?thesis using chain leaf'(3) new by (simp add: inserted_def old map_add_upd)
qed

lemma below_own_fence:
  assumes "node_ok city leaf lock" "leaf_map (records leaf) x \<noteq> None"
  shows "x < fence_highest leaf"
proof -
  have ok: "leaf_ok city (records leaf)" "max_ok leaf lock" "\<forall>e \<in> set (records leaf). proper_key (ekey e)"
    using assms(1) by (auto simp: node_ok_def)
  obtain i where "i < 64" "ekey (records leaf ! i) = x" using key_of_map [OF ok(1) assms(2)] .
  then have "records leaf ! i \<in> set (records leaf)" "ekey (records leaf ! i) = x" using leaf_okD(1) [OF ok(1)] by auto
  then show ?thesis using below_fence [OF assms(1), of x] ok(2,3) by (auto simp: max_ok_def Let_def)
qed

lemma split_bounds:
  assumes "chain city h lo (a # as)" "h a = Some (leaf, lock)" "lo \<le> k"
    "insert_promise city leaf sibling_addr k v from_cache new_addr (Splitted leaf' lock' sib sib_lock sk)"
  shows "lo < sk" "sk < fence_highest leaf"
proof -
  have halves: "node_ok city sib sib_lock" "fence_highest sib = fence_highest leaf" "leaf_map (records leaf') \<noteq> Map.empty"
      "leaf_map (records sib) \<noteq> Map.empty"
      "\<And>x. leaf_map (records leaf') x = (if x < sk then ((leaf_map (records leaf))(k \<mapsto> v)) x else None)"
      "\<And>x. leaf_map (records sib) x = (if x < sk then None else ((leaf_map (records leaf))(k \<mapsto> v)) x)"
    using assms(4) by (auto simp: insert_promise_def split_place_def)
  obtain x where x: "leaf_map (records leaf') x \<noteq> None" using halves(3) by (auto simp: fun_eq_iff)
  then have "x < sk" "x = k \<or> leaf_map (records leaf) x \<noteq> None" unfolding halves(5) by (auto split: if_splits)
  moreover have "lo \<le> x" if "leaf_map (records leaf) x \<noteq> None"
    using assms(1,2) that by (auto simp: good_leaf_def)
  ultimately show "lo < sk" using assms(3) by auto
  obtain y where y: "leaf_map (records sib) y \<noteq> None" using halves(4) by (auto simp: fun_eq_iff)
  then have "\<not> y < sk" unfolding halves(6) by (auto split: if_splits)
  then show "sk < fence_highest leaf" using below_own_fence [OF halves(1) y] halves(2) by auto
qed

lemma splitted_step:
  assumes chain: "chain city h lo (a # as)" "distinct (a # as)" "h a = Some (leaf, lock)" and k: "lo \<le> k"
    and new: "new_addr \<noteq> 0" "new_addr \<noteq> Widest" "new_addr \<notin> set (a # as)"
    and res: "insert_promise city leaf sibling_addr k v from_cache new_addr (Splitted leaf' lock' sib sib_lock sk)"
  shows "inserted city h lo (a # as) k v new_addr (h(new_addr \<mapsto> (sib, sib_lock), a \<mapsto> (leaf', lock'))) (a # new_addr # as)
    (Some (sk, new_addr))"
proof -
  let ?h = "h(new_addr \<mapsto> (sib, sib_lock), a \<mapsto> (leaf', lock'))"
  have halves: "node_ok city leaf' lock'" "node_ok city sib sib_lock" "split_place leaf leaf' sib sk new_addr"
      "\<And>x. leaf_map (records leaf') x = (if x < sk then ((leaf_map (records leaf))(k \<mapsto> v)) x else None)"
      "\<And>x. leaf_map (records sib) x = (if x < sk then None else ((leaf_map (records leaf))(k \<mapsto> v)) x)"
    using res by (auto simp: insert_promise_def)
  have old: "chain city ?h m as = chain city h m as" "contents ?h as = contents h as" for m
    by (rule chain_cong contents_cong; use chain(2) new(3) in auto)+
  have "lo < sk" "sk < fence_highest leaf" using split_bounds [OF chain(1,3) k res] by auto
  then have "good_leaf city lo (leaf', lock')" "good_leaf city sk (sib, sib_lock)"
    using chain(1,3) halves k by (auto simp: good_leaf_def split_place_def split: if_splits)
  moreover have "\<not> last_leaf leaf'" "last_leaf sib = last_leaf leaf" "\<not> last_leaf leaf \<Longrightarrow> sibling_ptr sib = sibling_ptr leaf"
    using halves(3) new by (auto simp: split_place_def last_leaf_def is_root_def right_of_def split: if_splits)
  moreover have "leaf_map (records sib) ++ leaf_map (records leaf') = (leaf_map (records leaf))(k \<mapsto> v)"
    by (rule ext) (simp add: map_add_def halves(4,5) split: option.split)
  then have "(contents h as ++ leaf_map (records sib)) ++ leaf_map (records leaf') = (contents h as ++ leaf_map (records leaf))(k \<mapsto> v)"
    by (metis map_add_assoc map_add_upd)
  moreover have "sibling_ptr leaf' = new_addr" "fence_lowest sib = sk" "fence_highest sib = fence_highest leaf" "fence_highest leaf' = sk"
    using halves(3) by (simp_all add: split_place_def)
  ultimately show ?thesis using chain new by (auto simp: inserted_def old simp del: map_add_assoc map_add_upd)
qed

lemma turn_step:
  assumes chain: "chain city h lo (a # b # as)" "distinct (a # b # as)" "h a = Some (leaf, lock)"
    and k: "leaf_map (records leaf) k = None" and new: "new_addr \<notin> set (a # b # as)"
    and ins: "inserted city h (fence_highest leaf) (b # as) k v new_addr h' as' sep"
  shows "inserted city h lo (a # b # as) k v new_addr h' (a # as') sep"
proof -
  have same: "h' a = h a" using ins chain(2) new by (auto simp: inserted_def)
  have "set as' \<subseteq> insert new_addr (set (b # as))" using ins by (auto simp: inserted_def split: option.splits)
  then have a: "a \<notin> set as'" using chain(2) new by auto
  have ins': "chain city h' (fence_highest leaf) as'" "contents h' as' = (contents h (b # as))(k \<mapsto> v)" "distinct as'" "hd as' = b"
      "as' \<noteq> []" "\<forall>a. a \<notin> set (b # as) \<and> a \<noteq> new_addr \<longrightarrow> h' a = h a"
    using ins by (auto simp: inserted_def)
  have "contents h' (a # as') = (contents h (a # b # as))(k \<mapsto> v)"
  proof -
    have "contents h' (a # as') = (contents h (b # as))(k \<mapsto> v) ++ leaf_map (records leaf)"
      using ins'(2) same chain(3) by (simp del: contents.simps) (simp add: contents.simps(2) [of _ a])
    also have "\<dots> = (contents h (b # as) ++ leaf_map (records leaf))(k \<mapsto> v)"
      using k by (auto simp: map_add_def fun_eq_iff split: option.split)
    also have "contents h (b # as) ++ leaf_map (records leaf) = contents h (a # b # as)" using chain(3) by simp
    finally show ?thesis .
  qed
  moreover have "chain city h' lo (a # as')" using ins'(1,4,5) chain(1,3) same by simp
  moreover have "case sep of None \<Rightarrow> a # as' = a # b # as \<and> h' new_addr = h new_addr
      | Some (sk, x) \<Rightarrow> x = new_addr \<and> set (a # as') = insert new_addr (set (a # b # as)) \<and>
          (\<exists>leaf lock. h' new_addr = Some (leaf, lock) \<and> fence_lowest leaf = sk)"
    using ins by (auto simp: inserted_def split: option.splits)
  ultimately show ?thesis unfolding inserted_def using a ins'(3,6) by simp
qed

lemma insert_from_first:
  assumes "chain city h lo (a # as)" "distinct (a # as)" "contents h (a # as) k = None" "lo \<le> k"
    "\<And>leaf lock. h a = Some (leaf, lock) \<Longrightarrow> sibling_addr = right_of leaf \<Longrightarrow> k < fence_highest leaf"
    "new_addr \<notin> set (a # as)" "length as < n"
    and k: "k \<noteq> kkeyNull" "proper_key k" and new: "new_addr \<noteq> 0" "new_addr \<noteq> Widest"
  shows "insert_from city n h a sibling_addr k v from_cache new_addr = Some (False, h, None) \<and> from_cache \<or>
    (\<exists>h' as' sep. insert_from city n h a sibling_addr k v from_cache new_addr = Some (True, h', sep) \<and>
       inserted city h lo (a # as) k v new_addr h' as' sep)"
  using assms(1-7)
proof (induction n arbitrary: lo a as sibling_addr from_cache)
  case (Suc n)
  obtain leaf lock where a: "h a = Some (leaf, lock)" using Suc.prems(1) by (auto split: option.splits)
  have good: "node_ok city leaf lock" "valid leaf \<noteq> 0" "leaf_map (records leaf) k = None"
      "as = [] \<longrightarrow> last_leaf leaf" "as \<noteq> [] \<longrightarrow> sibling_ptr leaf = hd as" "chain city h (fence_highest leaf) as"
    using Suc.prems(1,3) a by (auto simp: good_leaf_def split: if_splits)
  obtain res where res: "leaf_node_insert city leaf lock sibling_addr k v from_cache new_addr = Some res"
      "insert_promise city leaf sibling_addr k v from_cache new_addr res"
    using leaf_node_insert_ok [OF good(1,2) k good(3) _ new, of sibling_addr] Suc.prems(5) [OF a] by blast
  show ?case
  proof (cases res)
    case Invalid
    then show ?thesis using a res by (auto simp: insert_promise_def)
  next
    case (TurnRight x)
    then have t: "x = sibling_ptr leaf" "\<not> last_leaf leaf" "fence_highest leaf \<le> k" using res by (auto simp: insert_promise_def)
    then obtain b bs where as: "as = b # bs" "x = b" using good(4,5) by (cases as) auto
    have eq: "insert_from city (Suc n) h a sibling_addr k v from_cache new_addr = insert_from city n h b 0 k v False new_addr"
      using a res TurnRight as by simp
    have "contents h (b # bs) k = None" using Suc.prems(3) as by (auto simp: map_add_None)
    moreover have "k < fence_highest l" if "h b = Some (l, lk)" "0 = right_of l" for l lk
      using that good(6) as k(2) last_right [of l] by (auto simp: good_leaf_def node_ok_def proper_key_def)
    ultimately have "\<exists>h' as' sep. insert_from city n h b 0 k v False new_addr = Some (True, h', sep) \<and>
        inserted city h (fence_highest leaf) (b # bs) k v new_addr h' as' sep"
      using Suc.IH [of "fence_highest leaf" b bs 0 False] Suc.prems(2,6,7) good(6) as t(3) by auto
    then show ?thesis using turn_step [of city h lo a b bs leaf lock k new_addr v] Suc.prems(1,2,6) a good(3) as eq by metis
  next
    case (Written leaf' lock')
    then have "inserted city h lo (a # as) k v new_addr (h(a \<mapsto> (leaf', lock'))) (a # as) None"
      by (intro written_step [OF Suc.prems(1,2) a Suc.prems(4)]) (use Suc.prems(6) res in auto)
    then show ?thesis using Written res a by auto
  next
    case (Splitted leaf' lock' sib sib_lock sk)
    then have "inserted city h lo (a # as) k v new_addr (h(new_addr \<mapsto> (sib, sib_lock), a \<mapsto> (leaf', lock'))) (a # new_addr # as)
        (Some (sk, new_addr))"
      by (intro splitted_step [OF Suc.prems(1,2) a Suc.prems(4) new Suc.prems(6)]) (use res in auto)
    then show ?thesis using Splitted res a by auto
  qed
qed simp

text \<open>
  C13: The leaves of a CHIME tree behave as one map.  An insertion of a new key that enters the chain of
  leaves at any leaf not beyond the key, with whatever sibling its parent names, moves right as far as needed
  and ends (one step per leaf is enough fuel): it fails no assertion, keeps the chain of leaves and lock
  words consistent and adds exactly the new pair; it changes nothing and reports failure only for a pointer from a cache.
  A separator goes to the parent exactly when the new leaf was linked in.
\<close>

theorem insert_refines_map:
  assumes "chain city h lo (xs @ a # ys)" "distinct (xs @ a # ys)" "contents h (xs @ a # ys) k = None"
    "h a = Some (leaf, lock)" "fence_lowest leaf \<le> k" "sibling_addr = right_of leaf \<longrightarrow> k < fence_highest leaf"
    "new_addr \<notin> set (xs @ a # ys)" "length ys < n"
    and k: "k \<noteq> kkeyNull" "proper_key k" and new: "new_addr \<noteq> 0" "new_addr \<noteq> Widest"
  shows "insert_from city n h a sibling_addr k v from_cache new_addr = Some (False, h, None) \<and> from_cache \<or>
    (\<exists>h' as' sep. insert_from city n h a sibling_addr k v from_cache new_addr = Some (True, h', sep) \<and>
       inserted city h lo (xs @ a # ys) k v new_addr h' as' sep)"
  using assms(1-3,7)
proof (induction xs arbitrary: lo)
  case Nil
  then show ?case using insert_from_first [of city h lo a ys k sibling_addr new_addr n v from_cache] assms(4-6,8) k new
    by (simp add: good_leaf_def)
next
  case (Cons x xs)
  obtain b bs where bs: "xs @ a # ys = b # bs" by (cases "xs @ a # ys") auto
  obtain l lk where x: "h x = Some (l, lk)" using Cons.prems(1) by (auto split: option.splits)
  have "chain city h (fence_highest l) (xs @ a # ys)" "contents h (xs @ a # ys) k = None" "leaf_map (records l) k = None"
    using Cons.prems(1,3) x by auto
  moreover from this have "inserted city h lo (x # xs @ a # ys) k v new_addr h' (x # as') sep"
    if "inserted city h (fence_highest l) (xs @ a # ys) k v new_addr h' as' sep" for h' as' sep
    using turn_step [of city h lo x b bs l lk k new_addr v h' as' sep] Cons.prems(1,2,4) x bs that by simp
  ultimately show ?case using Cons.IH [of "fence_highest l"] Cons.prems(2,4) by (simp del: chain.simps contents.simps) blast
qed

section \<open>The first leaf\<close>

lemma ghost_key_facts: "ghost_key \<noteq> kkeyNull" "proper_key ghost_key" "key_add ghost_key 1 = replicate keyLen 0xFF"
  by code_simp+

lemma init_records:
  obtains r where "hopscotch_insert_locally city (replicate 64 LeafEntry_Null) ghost_key 0 = Some (r, home city ghost_key)"
    "leaf_ok city r" "leaf_map r = [ghost_key \<mapsto> 0]"
    "\<And>i. i < 64 \<Longrightarrow> ekey (r ! i) = (if i = home city ghost_key then ghost_key else kkeyNull)"
proof -
  let ?e = "replicate 64 LeafEntry_Null" and ?h = "home city ghost_key"
  have null: "ekey (get_entry ?e i) = kkeyNull" for i by (simp add: get_entry_def)
  have "64 = Suc 63" by simp
  then have fe: "find_empty ?e (int ?h) 64 = Some (int ?h)" using null find_empty.simps(2) by metis
  have new: "leaf_map ?e ghost_key = None" by (simp add: empty_leaf_map)
  obtain r hopped where hl: "hop_loop (int ?h) ghost_key 0 ?e (int ?h) [] = Some (Some (r, hopped))" and hop: "hopped = [?h]"
      and ok: "leaf_ok city r" "leaf_map r = [ghost_key \<mapsto> 0]"
  proof (cases "on_entry (int ?h) (set_hop_bit 0) (?e[?h := entry_update ghost_key 0 (get_entry ?e (int ?h))])")
    case None
    then have "hop_loop (int ?h) ghost_key 0 ?e (int ?h) [] = None" by (subst hop_loop.simps) (simp add: Let_def)
    then show ?thesis using insert_at_empty [OF empty_leaf_ok ghost_key_facts(1) new fe, of 0 "[]"] by auto
  next
    case (Some r)
    then have "hop_loop (int ?h) ghost_key 0 ?e (int ?h) [] = Some (Some (r, [?h]))" by (subst hop_loop.simps) (simp add: Let_def)
    then show ?thesis using insert_at_empty [OF empty_leaf_ok ghost_key_facts(1) new fe, of 0 "[]"] that
      by (auto simp: empty_leaf_map)
  qed
  have frame: "\<forall>n < 64. n \<notin> set hopped \<longrightarrow> ekey (r ! n) = ekey (?e ! n)"
    using hop_loop_frame [OF hl _ _ _ _ _ ghost_key_facts(1)] by simp
  have "\<exists>i < 64. ekey (r ! i) = ghost_key" using key_of_map [OF ok(1), of ghost_key] ok(2) by auto
  then have "ekey (r ! ?h) = ghost_key" using frame hop ghost_key_facts(1) by (metis ekey_Null empty_iff empty_set nth_replicate set_ConsD)
  then show thesis using that [of r] fe hl hop ok frame by (simp add: hopscotch_insert_locally_def Let_def)
qed

text \<open>The constructor leaves a chain of one leaf, which holds the ghost key only.\<close>

lemma init_root_ok:
  obtains leaf lock where "init_root city = Some (leaf, lock)" "node_ok city leaf lock" "valid leaf \<noteq> 0" "is_root leaf"
    "fence_lowest leaf = key_add (replicate keyLen 0) 1" "leaf_map (records leaf) = [ghost_key \<mapsto> 0]"
proof -
  let ?h = "home city ghost_key"
  obtain r where r: "hopscotch_insert_locally city (replicate 64 LeafEntry_Null) ghost_key 0 = Some (r, ?h)"
      "leaf_ok city r" "leaf_map r = [ghost_key \<mapsto> 0]"
      and key: "\<And>i. i < 64 \<Longrightarrow> ekey (r ! i) = (if i = ?h then ghost_key else kkeyNull)"
    using init_records by blast
  define lock where "lock = \<lparr>vacancy_bitmap = set_buckets [find_bucket ?h] 0, max_key_idx = of_nat ?h\<rparr>"
  define leaf where "leaf = new_LeafNode\<lparr>sibling_ptr := Widest, records := r\<rparr>"
  have init: "init_root city = Some (leaf, lock)"
    using r(1) by (simp add: init_root_def new_LeafNode_def update_vacancy_def leaf_def lock_def)
  have "vacancy_ok lock r"
    unfolding vacancy_ok_def
  proof (intro allI impI)
    fix b :: nat assume b: "b < 57" "\<not> bit (vacancy_bitmap lock) b"
    then have nb: "b \<noteq> find_bucket ?h" by (auto simp: lock_def bit_set_buckets)
    obtain l u where lu: "get_idx_range_in_bucket b = (l, u)" by (cases "get_idx_range_in_bucket b")
    note range = get_idx_range [OF b(1) lu]
    have "find_bucket l = b" "l < 64" using range(1,2) range(3) [of l] by auto
    then show "\<exists>i < 64. find_bucket i = b \<and> ekey (r ! i) = kkeyNull" using nb key [of l] by auto
  qed
  moreover have "\<forall>e \<in> set r. proper_key (ekey e) \<and> ekey e \<le> ghost_key"
    using key leaf_okD(1) [OF r(2)] ghost_key_facts(2) null_le proper_Null by (auto simp: all_set_conv_all_nth)
  moreover have "unat (max_key_idx lock) = ?h" by (simp add: lock_def unat_of_nat)
  ultimately have "node_ok city leaf lock"
    using r(2) key [of ?h] ghost_key_facts(3)
    by (simp add: node_ok_def max_ok_def leaf_def new_LeafNode_def)
  moreover have "valid leaf \<noteq> 0" "is_root leaf" "fence_lowest leaf = key_add (replicate keyLen 0) 1" "leaf_map (records leaf) = [ghost_key \<mapsto> 0]"
    using r(3) by (simp_all add: leaf_def new_LeafNode_def is_root_def)
  ultimately show thesis using that init by blast
qed

theorem insert_refines_map_witness:
  "\<exists>h' as' sep. insert_from sample_city 1 [4096 \<mapsto> the (init_root sample_city)] 4096 0 (sample_key 1 1) 7 False 8192 =
     Some (True, h', sep) \<and> contents h' as' = [ghost_key \<mapsto> 0, sample_key 1 1 \<mapsto> 7]"
proof -
  obtain leaf lock where init: "init_root sample_city = Some (leaf, lock)" "node_ok sample_city leaf lock" "valid leaf \<noteq> 0"
      "is_root leaf" "fence_lowest leaf = key_add (replicate keyLen 0) 1" "leaf_map (records leaf) = [ghost_key \<mapsto> 0]"
    using init_root_ok by blast
  have keys: "key_add (replicate keyLen 0) 1 \<le> sample_key 1 1" "key_add (replicate keyLen 0) 1 \<le> ghost_key"
      "sample_key 1 1 < replicate keyLen 0xFF" "sample_key 1 1 \<noteq> ghost_key" "sample_key 1 1 \<noteq> kkeyNull" "proper_key (sample_key 1 1)"
    by code_simp+
  have fence: "fence_highest leaf = replicate keyLen 0xFF" using init(2,4) by (simp add: node_ok_def last_leaf_def)
  have last: "last_leaf leaf" using init(4) by (simp add: last_leaf_def)
  have c: "contents [4096 \<mapsto> (leaf, lock)] [4096] = [ghost_key \<mapsto> 0]" using init(6) by simp
  have "insert_from sample_city 1 [4096 \<mapsto> (leaf, lock)] 4096 0 (sample_key 1 1) 7 False 8192 =
      Some (False, [4096 \<mapsto> (leaf, lock)], None) \<and> False \<or>
    (\<exists>h' as' sep. insert_from sample_city 1 [4096 \<mapsto> (leaf, lock)] 4096 0 (sample_key 1 1) 7 False 8192 = Some (True, h', sep) \<and>
       inserted sample_city [4096 \<mapsto> (leaf, lock)] (fence_lowest leaf) ([] @ 4096 # []) (sample_key 1 1) 7 8192 h' as' sep)"
  proof (rule insert_refines_map)
    show "chain sample_city [4096 \<mapsto> (leaf, lock)] (fence_lowest leaf) ([] @ 4096 # [])"
      using init(2,3,5,6) last keys(2) below_own_fence [OF init(2), of ghost_key] by (simp add: good_leaf_def)
    show "contents [4096 \<mapsto> (leaf, lock)] ([] @ 4096 # []) (sample_key 1 1) = None" using c keys(4) by (simp del: contents.simps)
    show "(8192 :: u64) \<noteq> Widest" by code_simp
    show "fence_lowest leaf \<le> sample_key 1 1" unfolding init(5) by (rule keys(1))
    show "0 = right_of leaf \<longrightarrow> sample_key 1 1 < fence_highest leaf" unfolding fence using keys(3) by (rule impI)
  qed (use keys in simp_all)
  then show ?thesis using init(1) c unfolding inserted_def by (auto simp del: contents.simps)
qed

section \<open>Inserting a key that is there\<close>

lemma leaf_node_insert_direct:
  assumes "valid leaf \<noteq> 0" "read_window lock (home city k) = (n, r)" "n < 64"
    "list_ex (\<lambda>i. ekey (window_read (records leaf) (home city k) n ! ((home city k + i) mod 64)) = kkeyNull) [0..<n]"
    "find (\<lambda>i. ekey (window_read (records leaf) (home city k) n ! i) = k) [0..<64] = None"
    "hopscotch_insert city (window_read (records leaf) (home city k) n) k v n = Some (Some (rs, e, hopped))"
    "segment_lock rs (home city k) e hopped lock = Some lock'"
  shows "leaf_node_insert city leaf lock (right_of leaf) k v from_cache new_addr =
    Some (Written (leaf\<lparr>records := segment_write (records leaf) rs (home city k) e hopped\<rparr>) lock')"
  using assms by (simp add: leaf_node_insert_def Let_def right_of_def)

lemma vacancy_okI:
  assumes "\<And>b. b < 57 \<Longrightarrow> bit (vacancy_bitmap lock) b \<or> ekey (rs ! get_first b) = kkeyNull \<or>
    ekey (rs ! (get_first (b + 1) - 1)) = kkeyNull"
  shows "vacancy_ok lock rs"
  unfolding vacancy_ok_def
proof (intro allI impI)
  fix b :: nat assume b: "b < 57" "\<not> bit (vacancy_bitmap lock) b"
  obtain l u where lu: "get_idx_range_in_bucket b = (l, u)" by (cases "get_idx_range_in_bucket b")
  note range = get_idx_range [OF b(1) lu]
  have "l = get_first b" "u = get_first (b + 1) - 1"
    using lu get_first_le [of "b + 1" 64] b(1) by (auto simp: get_idx_range_in_bucket_def Let_def split: if_splits)
  then have "ekey (rs ! l) = kkeyNull \<or> ekey (rs ! u) = kkeyNull" using assms [OF b(1)] b(2) by auto
  then show "\<exists>i < 64. find_bucket i = b \<and> ekey (rs ! i) = kkeyNull"
    using range(1,2) range(3) [of l] range(3) [of u] by (meson le_less_trans order_refl)
qed

text \<open>
  A leaf as a split leaves it: the entry 9, behind the full entry 8, has lost its key to the sibling, and the
  key of the entry 11 has the home 8.
\<close>

definition gap_pairs :: "(nat \<times> key \<times> u64) list" where
  "gap_pairs = map (\<lambda>i. (i, sample_key (of_nat i) 1, of_nat i)) [1..<8] @
     [(8, sample_key 20 2, 20), (10, sample_key 10 8, 10), (11, sample_key 11 8, 11)]"

definition gap_leaf :: LeafNode where
  "gap_leaf = new_LeafNode\<lparr>sibling_ptr := 4096, fence_highest := key_add (sample_key 20 2) 1,
     records := fill sample_city gap_pairs (replicate 64 LeafEntry_Null)\<rparr>"

definition gap_lock :: VALOCK where
  "gap_lock = \<lparr>vacancy_bitmap = 766, max_key_idx = 8\<rparr>"

lemma gap_ok: "node_ok sample_city gap_leaf gap_lock" and gap_map: "leaf_map (records gap_leaf) (sample_key 11 8) = Some 11"
proof -
  have fill: "leaf_ok sample_city (records gap_leaf) \<and> leaf_map (records gap_leaf) =
      fold (\<lambda>(i, k, v) m. m(k \<mapsto> v)) gap_pairs (leaf_map (replicate 64 LeafEntry_Null))"
    unfolding gap_leaf_def LeafNode.select_convs LeafNode.update_convs new_LeafNode_def
  proof (rule fill_ok [OF empty_leaf_ok])
    show "distinct (map fst gap_pairs)" by code_simp
    show "distinct (map (fst \<circ> snd) gap_pairs)" by code_simp
    have "\<forall>(i, k, v) \<in> set gap_pairs. i < 64 \<and> k \<noteq> kkeyNull \<and> (i + 64 - home sample_city k) mod 64 < 8" by code_simp
    then show "\<forall>(i, k, v) \<in> set gap_pairs. i < 64 \<and> k \<noteq> kkeyNull \<and> (i + 64 - home sample_city k) mod 64 < 8 \<and>
        ekey (replicate 64 LeafEntry_Null ! i) = kkeyNull \<and> leaf_map (replicate 64 LeafEntry_Null) k = None"
      by (auto simp: empty_leaf_map)
  qed
  have "fold (\<lambda>(i, k, v) m. m(k \<mapsto> v)) gap_pairs Map.empty (sample_key 11 8) = Some 11" by code_simp
  then show "leaf_map (records gap_leaf) (sample_key 11 8) = Some 11" using fill by (simp only: empty_leaf_map)
  have "\<forall>e \<in> set (records gap_leaf). proper_key (ekey e) \<and> ekey e \<le> ekey (records gap_leaf ! 8)" by code_simp
  moreover have "key_add (ekey (records gap_leaf ! 8)) 1 = fence_highest gap_leaf" "\<not> last_leaf gap_leaf" by code_simp+
  moreover have "vacancy_ok gap_lock (records gap_leaf)"
  proof -
    let ?full = "[1, 2, 3, 4, 5, 6, 7, 8, 10, 11]"
    have eq: "map (\<lambda>e. ekey e = kkeyNull) (records gap_leaf) = map (\<lambda>i. i \<notin> set ?full) [0..<64]" by code_simp
    have "length (records gap_leaf) = 64" using arg_cong [OF eq, of length] by simp
    then have null: "ekey (records gap_leaf ! i) = kkeyNull \<longleftrightarrow> i \<notin> set ?full" if "i < 64" for i
      using arg_cong [OF eq, of "\<lambda>xs. xs ! i"] that nth_map [of i "records gap_leaf" "\<lambda>e. ekey e = kkeyNull"]
        nth_map [of i "[0..<64]" "\<lambda>i. i \<notin> set ?full"] by (simp only: length_upt nth_upt diff_zero plus_nat.add_0)
    have bits: "\<forall>b < 10. bit (vacancy_bitmap gap_lock) b \<or> b = 0 \<or> b = 8" by code_simp
    show ?thesis
    proof (rule vacancy_okI)
      fix b :: nat assume b: "b < 57"
      consider "bit (vacancy_bitmap gap_lock) b" | "b = 0" | "b = 8" | "10 \<le> b" using bits not_less [of b 10] by metis
      then show "bit (vacancy_bitmap gap_lock) b \<or> ekey (records gap_leaf ! get_first b) = kkeyNull \<or>
          ekey (records gap_leaf ! (get_first (b + 1) - 1)) = kkeyNull"
      proof cases
        case 4
        have "\<not> get_first b \<le> 11" "get_first b \<le> 63" using get_first_le [of b 11] get_first_le [of b 63] 4 b by auto
        then show ?thesis using null [of "get_first b"] by auto
      qed (use null [of 0] null [of 9] in \<open>auto simp: get_first_def\<close>)
    qed
  qed
  ultimately show "node_ok sample_city gap_leaf gap_lock" using fill by (simp add: node_ok_def max_ok_def gap_lock_def)
qed

text \<open>The entries after the insertion of the key that is there, and after one more insertion.\<close>

definition gap_written :: "LeafEntry list \<Rightarrow> nat \<Rightarrow> key \<Rightarrow> u64 \<Rightarrow> LeafEntry list" where
  "gap_written rs n k v = (let l = home sample_city k in
     case hopscotch_insert sample_city (window_read rs l n) k v n of
       Some (Some (r, e, hopped)) \<Rightarrow> segment_write rs r l e hopped | _ \<Rightarrow> [])"

definition gap_records1 :: "LeafEntry list" where
  "gap_records1 = gap_written (records gap_leaf) 3 (sample_key 11 8) 99"

definition gap_records2 :: "LeafEntry list" where
  "gap_records2 = gap_written gap_records1 12 (sample_key 8 1) 8"

lemma gap_step:
  assumes "valid leaf \<noteq> 0" "read_window lock l = (n, r)" "n < 64" "home sample_city k = l"
    "list_ex (\<lambda>i. ekey (window_read (records leaf) l n ! ((l + i) mod 64)) = kkeyNull) [0..<n]"
    "find (\<lambda>i. ekey (window_read (records leaf) l n ! i) = k) [0..<64] = None"
    "(case hopscotch_insert sample_city (window_read (records leaf) l n) k v n of
        Some (Some (rs, e, hopped)) \<Rightarrow> segment_lock rs l e hopped lock | _ \<Rightarrow> None) = Some lock'"
  shows "leaf_node_insert sample_city leaf lock (right_of leaf) k v from_cache new_addr =
    Some (Written (leaf\<lparr>records := gap_written (records leaf) n k v\<rparr>) lock')"
proof -
  obtain rs e hopped where "hopscotch_insert sample_city (window_read (records leaf) l n) k v n = Some (Some (rs, e, hopped))"
      "segment_lock rs l e hopped lock = Some lock'"
    using assms(7) by (auto split: option.splits)
  then show ?thesis using leaf_node_insert_direct [of leaf lock sample_city k n r v rs e hopped lock'] assms(1-6)
    by (simp add: gap_written_def)
qed

lemma gap_step1: "leaf_node_insert sample_city gap_leaf gap_lock 4096 (sample_key 11 8) 99 False 8192 =
    Some (Written (gap_leaf\<lparr>records := gap_records1\<rparr>) \<lparr>vacancy_bitmap = 1022, max_key_idx = 8\<rparr>)"
proof -
  have "leaf_node_insert sample_city gap_leaf gap_lock (right_of gap_leaf) (sample_key 11 8) 99 False 8192 =
    Some (Written (gap_leaf\<lparr>records := gap_written (records gap_leaf) 3 (sample_key 11 8) 99\<rparr>) \<lparr>vacancy_bitmap = 1022, max_key_idx = 8\<rparr>)"
  proof (rule gap_step)
    show "read_window gap_lock 8 = (3, 11)" by code_simp
  qed code_simp+
  moreover have "right_of gap_leaf = 4096" by code_simp
  ultimately show ?thesis by (simp add: gap_records1_def)
qed

lemma gap_step2: "leaf_node_insert sample_city (gap_leaf\<lparr>records := gap_records1\<rparr>) \<lparr>vacancy_bitmap = 1022, max_key_idx = 8\<rparr> 4096
      (sample_key 8 1) 8 False 8192 =
    Some (Written (gap_leaf\<lparr>records := gap_records2\<rparr>) \<lparr>vacancy_bitmap = 2047, max_key_idx = 9\<rparr>)"
proof -
  have "leaf_node_insert sample_city (gap_leaf\<lparr>records := gap_records1\<rparr>) \<lparr>vacancy_bitmap = 1022, max_key_idx = 8\<rparr>
      (right_of (gap_leaf\<lparr>records := gap_records1\<rparr>)) (sample_key 8 1) 8 False 8192 =
    Some (Written (gap_leaf\<lparr>records := gap_records1, records := gap_written (records (gap_leaf\<lparr>records := gap_records1\<rparr>)) 12 (sample_key 8 1) 8\<rparr>)
      \<lparr>vacancy_bitmap = 2047, max_key_idx = 9\<rparr>)"
  proof (rule gap_step)
    show "read_window \<lparr>vacancy_bitmap = 1022, max_key_idx = 8\<rparr> 1 = (12, 13)" by code_simp
  qed code_simp+
  moreover have "right_of (gap_leaf\<lparr>records := gap_records1\<rparr>) = 4096" by (simp add: right_of_def gap_leaf_def Widest_def)
  ultimately show ?thesis by (simp add: gap_records2_def)
qed


end
