(* ===== verification/Chime_Internal.thy ===== *)
theory Chime_Internal
  imports Chime_Leaf
begin

text \<open>
  The internal nodes of CHIME (\<open>CHIME/include/InternalNode.h\<close>; \<open>internal_node_search\<close>, \<open>internal_node_insert\<close>
  and the internal case of \<open>node_split_and_unlock\<close> in \<open>CHIME/src/Tree.cpp\<close>, with ordered nodes).  A node is a
  leftmost pointer and up to 64 pairs of a separator and a pointer; it also knows the leftmost
  pointer of its sibling, from which a client learns which leaf follows the one it is sent to.
\<close>

section \<open>The model\<close>

definition internalSpanSize :: nat where
  "internalSpanSize = 64"

record InternalEntry =
  i_version :: PackedVersion
  ikey :: key
  iptr :: u64

definition InternalEntry_new :: "key \<Rightarrow> u64 \<Rightarrow> InternalEntry" where
  "InternalEntry_new k p = \<lparr>i_version = \<lparr>node_version = 0, entry_version = 0\<rparr>, ikey = k, iptr = p\<rparr>"

definition InternalEntry_Null :: InternalEntry where
  "InternalEntry_Null = InternalEntry_new kkeyNull 0"

record InternalNode =
  ilevel :: u8
  ivalid :: u8
  isibling_ptr :: u64
  leftmost_ptr :: u64
  sibling_leftmost_ptr :: u64
  ilowest :: key
  ihighest :: key
  irecords :: "InternalEntry list"

definition new_InternalNode :: InternalNode where
  "new_InternalNode = \<lparr>ilevel = 1, ivalid = 1, isibling_ptr = 0, leftmost_ptr = 0, sibling_leftmost_ptr = 0,
     ilowest = key_add (replicate keyLen 0) 1, ihighest = replicate keyLen 0xFF,
     irecords = replicate internalSpanSize InternalEntry_Null\<rparr>"

text \<open>The scan of \<open>internal_node_search\<close> over the entries from \<open>i\<close> on, \<open>n\<close> of them.\<close>

fun search_records :: "InternalNode \<Rightarrow> key \<Rightarrow> nat \<Rightarrow> nat \<Rightarrow> u64 \<times> u64" where
  "search_records node k i 0 = (iptr (irecords node ! (internalSpanSize - 1)), sibling_leftmost_ptr node)"
| "search_records node k i (Suc n) =
     (let e = irecords node ! i in
      if k < ikey e \<or> ikey e = kkeyNull then
        (iptr (irecords node ! (i - 1)), if ikey e = kkeyNull then sibling_leftmost_ptr node else iptr e)
      else search_records node k (i + 1) n)"

datatype route = Outdated | Rightwards u64 | Child u64 u64

definition internal_node_search :: "InternalNode \<Rightarrow> key \<Rightarrow> bool \<Rightarrow> route option" where
  "internal_node_search node k from_cache =
     (if from_cache \<and> (ivalid node = 0 \<or> k < ilowest node \<or> ihighest node \<le> k) then Some Outdated
      else if ihighest node \<le> k then Some (Rightwards (isibling_ptr node))
      else if k < ilowest node then None
      else if k < ikey (irecords node ! 0) then Some (Child (leftmost_ptr node) (iptr (irecords node ! 0)))
      else Some (case search_records node k 1 (internalSpanSize - 1) of (p, s) \<Rightarrow> Child p s))"

text \<open>\<open>shift_and_insert\<close>: the entries up to \<open>num\<close> move up by one, the last one first.\<close>

fun insert_idx :: "InternalEntry list \<Rightarrow> key \<Rightarrow> nat \<Rightarrow> nat \<Rightarrow> nat" where
  "insert_idx recs k i 0 = i"
| "insert_idx recs k i (Suc n) = (if k < ikey (recs ! i) then i else insert_idx recs k (i + 1) n)"

fun shift_loop :: "InternalEntry list \<Rightarrow> nat \<Rightarrow> nat \<Rightarrow> InternalEntry list" where
  "shift_loop recs idx 0 = recs"
| "shift_loop recs idx (Suc n) = shift_loop (recs[idx + n + 1 := recs ! (idx + n)]) idx n"

definition shift_and_insert :: "InternalEntry list \<Rightarrow> nat \<Rightarrow> key \<Rightarrow> u64 \<Rightarrow> InternalEntry list" where
  "shift_and_insert recs num k v =
     (let idx = insert_idx recs k 0 num; recs' = shift_loop recs idx (num - idx) in
      recs'[idx := (recs' ! idx)\<lparr>ikey := k, iptr := v\<rparr>])"

definition sort_records :: "InternalEntry list \<Rightarrow> InternalEntry list" where
  "sort_records recs = sort_key ikey (filter (\<lambda>e. ikey e \<noteq> kkeyNull) recs) @ filter (\<lambda>e. ikey e = kkeyNull) recs"

text \<open>\<open>node_split_and_unlock\<close> for an internal node, up to the writes.\<close>

definition internal_split :: "InternalNode \<Rightarrow> key \<Rightarrow> u64 \<Rightarrow> u8 \<Rightarrow> u64 \<Rightarrow> (InternalNode \<times> InternalNode \<times> key) option" where
  "internal_split node k v level sibling_addr =
     (let recs = sort_records (irecords node);
          cnt = length (filter (\<lambda>e. ikey e \<noteq> kkeyNull) recs);
          m = cnt div 2;
          split_key = ikey (recs ! m);
          sib_recs = drop (m + 1) recs @ replicate (m + 1) InternalEntry_Null;
          sib_leftmost = iptr (recs ! m);
          recs1 = take m recs @ replicate (internalSpanSize - m) InternalEntry_Null;
          recs2 = (if k < split_key then shift_and_insert recs1 m k v else recs1);
          sib_recs2 = (if k < split_key then sib_recs else shift_and_insert sib_recs (internalSpanSize - m - 1) k v);
          sib = new_InternalNode\<lparr>ilevel := level, ilowest := split_key, ihighest := ihighest node,
            isibling_ptr := isibling_ptr node, leftmost_ptr := sib_leftmost,
            sibling_leftmost_ptr := sibling_leftmost_ptr node, irecords := sib_recs2\<rparr> in
      if split_key = kkeyNull then None
      else Some (node\<lparr>ihighest := split_key, isibling_ptr := sibling_addr, sibling_leftmost_ptr := sib_leftmost,
             irecords := recs2\<rparr>, sib, split_key))"

datatype internal_result =
    IOutdated
  | IRight u64
  | IWritten InternalNode
  | ISplit InternalNode InternalNode key

definition internal_node_insert :: "InternalNode \<Rightarrow> key \<Rightarrow> u64 \<Rightarrow> bool \<Rightarrow> u8 \<Rightarrow> u64 \<Rightarrow> internal_result option" where
  "internal_node_insert node k v from_cache level new_addr =
     (if from_cache \<and> (ivalid node = 0 \<or> k < ilowest node \<or> ihighest node \<le> k) then Some IOutdated
      else if ihighest node \<le> k then
        (if isibling_ptr node = 0 then None else Some (IRight (isibling_ptr node)))
      else if k < ilowest node then None
      else if list_ex (\<lambda>e. ikey e = k) (irecords node) then None
      else (case find (\<lambda>i. ikey (irecords node ! i) = kkeyNull) [0..<internalSpanSize] of
              Some i \<Rightarrow> Some (IWritten (node\<lparr>irecords := shift_and_insert (irecords node) i k v\<rparr>))
            | None \<Rightarrow> map_option (\<lambda>(n, s, sk). ISplit n s sk) (internal_split node k v level new_addr)))"

declare internalSpanSize_def [simp]

section \<open>The pairs of a node\<close>

definition pairs :: "InternalEntry list \<Rightarrow> (key \<times> u64) list" where
  "pairs recs = map (\<lambda>e. (ikey e, iptr e)) (takeWhile (\<lambda>e. ikey e \<noteq> kkeyNull) recs)"

definition node_pairs :: "InternalNode \<Rightarrow> (key \<times> u64) list" where
  "node_pairs node = pairs (irecords node)"

text \<open>The child for a key and the pointer that follows it.\<close>

fun route_from :: "u64 \<Rightarrow> (key \<times> u64) list \<Rightarrow> u64 \<Rightarrow> key \<Rightarrow> u64 \<times> u64" where
  "route_from p [] nxt k = (p, nxt)"
| "route_from p ((x, q) # ps) nxt k = (if k < x then (p, q) else route_from q ps nxt k)"

definition inode_ok :: "InternalNode \<Rightarrow> bool" where
  "inode_ok node \<longleftrightarrow> length (irecords node) = internalSpanSize \<and>
     list_all (\<lambda>e. ikey e = kkeyNull) (dropWhile (\<lambda>e. ikey e \<noteq> kkeyNull) (irecords node)) \<and>
     sorted_wrt (<) (map fst (node_pairs node)) \<and> node_pairs node \<noteq> [] \<and>
     list_all (\<lambda>(x, p). ilowest node < x \<and> x < ihighest node) (node_pairs node)"

abbreviation pair_of :: "InternalEntry \<Rightarrow> key \<times> u64" where
  "pair_of e \<equiv> (ikey e, iptr e)"

text \<open>A node with its entries split into the full and the empty ones.\<close>

definition split_at :: "InternalEntry list \<Rightarrow> InternalEntry list \<Rightarrow> InternalEntry list \<Rightarrow> bool" where
  "split_at recs es ns \<longleftrightarrow> recs = es @ ns \<and> (\<forall>e \<in> set es. ikey e \<noteq> kkeyNull) \<and> (\<forall>e \<in> set ns. ikey e = kkeyNull)"

lemma split_at_pairs: "split_at recs es ns \<Longrightarrow> pairs recs = map pair_of es"
  unfolding split_at_def pairs_def by (cases ns) (auto simp: takeWhile_append2 takeWhile_eq_all_conv [THEN iffD2])

lemma split_at_dropWhile: "split_at recs es ns \<Longrightarrow> dropWhile (\<lambda>e. ikey e \<noteq> kkeyNull) recs = ns"
  unfolding split_at_def by (cases ns) (auto simp: dropWhile_append2)

lemma inode_okE:
  assumes "inode_ok node"
  obtains es ns where "split_at (irecords node) es ns" "node_pairs node = map pair_of es" "length es + length ns = 64" "es \<noteq> []"
proof -
  let ?es = "takeWhile (\<lambda>e. ikey e \<noteq> kkeyNull) (irecords node)" and ?ns = "dropWhile (\<lambda>e. ikey e \<noteq> kkeyNull) (irecords node)"
  have "split_at (irecords node) ?es ?ns"
    using assms set_takeWhileD unfolding split_at_def inode_ok_def list_all_iff takeWhile_dropWhile_id by fast
  moreover have "length ?es + length ?ns = 64" using assms by (metis inode_ok_def internalSpanSize_def length_append takeWhile_dropWhile_id)
  ultimately show thesis using that assms split_at_pairs by (auto simp: node_pairs_def inode_ok_def)
qed

section \<open>Searching\<close>

lemma search_records_route:
  assumes "split_at (irecords node) es ns" "length es + length ns = 64" "0 < i" "i \<le> length es" "i + n = 64"
  shows "search_records node k i n =
    route_from (iptr (es ! (i - 1))) (map pair_of (drop i es)) (sibling_leftmost_ptr node) k"
  using assms(3-5)
proof (induction n arbitrary: i)
  case 0
  then have "length es = 64" using assms(2) by simp
  then show ?case using 0 assms(1) by (simp add: split_at_def nth_append)
next
  case (Suc n)
  have prev: "irecords node ! (i - 1) = es ! (i - 1)" using Suc.prems assms(1) by (simp add: split_at_def nth_append)
  show ?case
  proof (cases "i < length es")
    case True
    then have e: "irecords node ! i = es ! i" "ikey (es ! i) \<noteq> kkeyNull" "drop i es = es ! i # drop (Suc i) es"
      using assms(1) by (auto simp: split_at_def nth_append Cons_nth_drop_Suc)
    then show ?thesis using Suc.IH [of "i + 1"] Suc.prems True prev by (simp add: Let_def)
  next
    case False
    then have i: "i = length es" "i < 64" using Suc.prems by auto
    then have "ikey (irecords node ! i) = kkeyNull" using assms(1,2) by (cases ns) (auto simp: split_at_def nth_append)
    then show ?thesis using i prev by (simp add: Let_def)
  qed
qed

text \<open>The node sends a key to the child whose separators enclose it, and names the child that follows.\<close>

lemma internal_node_search_ok:
  assumes "inode_ok node" "ivalid node \<noteq> 0" "ilowest node \<le> k" "k < ihighest node"
  shows "internal_node_search node k from_cache =
    Some (case route_from (leftmost_ptr node) (node_pairs node) (sibling_leftmost_ptr node) k of (p, s) \<Rightarrow> Child p s)"
proof -
  obtain es ns where es: "split_at (irecords node) es ns" "node_pairs node = map pair_of es" "length es + length ns = 64" "es \<noteq> []"
    using inode_okE [OF assms(1)] .
  then obtain e es' where e: "es = e # es'" by (cases es) auto
  have "irecords node ! 0 = e" using es(1) e by (simp add: split_at_def)
  then show ?thesis using search_records_route [OF es(1,3), of 1 63 k] assms(2-4) es(2,3) e
    by (auto simp: internal_node_search_def Let_def)
qed

section \<open>Inserting\<close>

lemma insert_idx_takeWhile:
  "i + n \<le> length recs \<Longrightarrow> insert_idx recs k i n = i + length (takeWhile (\<lambda>e. \<not> k < ikey e) (take n (drop i recs)))"
proof (induction n arbitrary: i)
  case (Suc n)
  then have "drop i recs = recs ! i # drop (Suc i) recs" by (simp add: Cons_nth_drop_Suc)
  then show ?case using Suc by simp
qed simp

lemma internal_shift_nth:
  "idx + n < length recs \<Longrightarrow> length (shift_loop recs idx n) = length recs \<and>
   (\<forall>j < length recs. shift_loop recs idx n ! j = (if idx < j \<and> j \<le> idx + n then recs ! (j - 1) else recs ! j))"
proof (induction n arbitrary: recs)
  case (Suc n)
  let ?r = "recs[idx + n + 1 := recs ! (idx + n)]"
  have "length (shift_loop ?r idx n) = length recs \<and>
      (\<forall>j < length recs. shift_loop ?r idx n ! j = (if idx < j \<and> j \<le> idx + n then ?r ! (j - 1) else ?r ! j))"
    using Suc.IH [of ?r] Suc.prems by simp
  then show ?case using Suc.prems by (auto simp: nth_list_update le_Suc_eq)
qed auto

lemma shift_and_insert_eq:
  fixes k :: key
  assumes "split_at recs es (x # ns)"
  defines "idx \<equiv> length (takeWhile (\<lambda>e. \<not> k < ikey e) es)"
  shows "shift_and_insert recs (length es) k v = take idx es @ (recs ! idx)\<lparr>ikey := k, iptr := v\<rparr> # drop idx es @ ns"
proof -
  have recs: "recs = es @ x # ns" using assms(1) by (simp add: split_at_def)
  have le: "idx \<le> length es" unfolding idx_def by (rule length_takeWhile_le)
  define r where "r = shift_loop recs idx (length es - idx)"
  have r: "length r = length recs" "\<And>j. j < length recs \<Longrightarrow> r ! j = (if idx < j \<and> j \<le> length es then recs ! (j - 1) else recs ! j)"
    using internal_shift_nth [of idx "length es - idx" recs] le by (auto simp: r_def recs)
  have "insert_idx recs k 0 (length es) = idx"
    using insert_idx_takeWhile [of 0 "length es" recs k] by (simp add: recs idx_def)
  then have "shift_and_insert recs (length es) k v = r[idx := (r ! idx)\<lparr>ikey := k, iptr := v\<rparr>]"
    by (simp add: shift_and_insert_def r_def Let_def)
  also have "r ! idx = recs ! idx" using r(2) [of idx] le by (simp add: recs)
  also have "r[idx := (recs ! idx)\<lparr>ikey := k, iptr := v\<rparr>] = take idx es @ (recs ! idx)\<lparr>ikey := k, iptr := v\<rparr> # drop idx es @ ns"
  proof (rule nth_equalityI)
    show "length (r[idx := (recs ! idx)\<lparr>ikey := k, iptr := v\<rparr>]) =
        length (take idx es @ (recs ! idx)\<lparr>ikey := k, iptr := v\<rparr> # drop idx es @ ns)"
      using le r(1) by (simp add: recs)
    fix j assume "j < length (r[idx := (recs ! idx)\<lparr>ikey := k, iptr := v\<rparr>])"
    then have j: "j < length es + 1 + length ns" using r(1) by (simp add: recs)
    consider "j < idx" | "j = idx" | "idx < j" "j \<le> length es" | "length es < j" by linarith
    then show "r[idx := (recs ! idx)\<lparr>ikey := k, iptr := v\<rparr>] ! j =
        (take idx es @ (recs ! idx)\<lparr>ikey := k, iptr := v\<rparr> # drop idx es @ ns) ! j"
    proof cases
      case 3
      then have "r ! j = es ! (j - 1)" "j - idx = Suc (j - idx - 1)" "j - idx - 1 < length es - idx"
        using r(2) [of j] j by (auto simp: recs nth_append)
      then show ?thesis using 3 le by (simp add: nth_append)
    next
      case 4
      then have "r ! j = ns ! (j - length es - 1)" "j - idx = Suc (j - idx - 1)"
        using r(2) [of j] j le by (auto simp: recs nth_append nth_Cons' )
      then show ?thesis using 4 le by (simp add: nth_append)
    qed (use r j le in \<open>auto simp: recs nth_append\<close>)
  qed
  finally show ?thesis .
qed

lemma insort_takeWhile:
  "k \<notin> fst ` set ps \<Longrightarrow> insort_key fst (k, v) ps =
     (let n = length (takeWhile (\<lambda>p. \<not> k < fst p) ps) in take n ps @ (k, v) # drop n ps)"
  by (induction ps) (auto simp: Let_def not_less)

lemma shift_and_insert_ok:
  assumes "split_at recs es (x # ns)" "k \<noteq> kkeyNull" "k \<notin> ikey ` set es"
  obtains es' where "split_at (shift_and_insert recs (length es) k v) es' ns" "map pair_of es' = insort_key fst (k, v) (map pair_of es)"
    "length es' = Suc (length es)"
proof -
  define idx where "idx = length (takeWhile (\<lambda>e. \<not> k < ikey e) es)"
  let ?y = "(recs ! idx)\<lparr>ikey := k, iptr := v\<rparr>" and ?es' = "take idx es @ (recs ! idx)\<lparr>ikey := k, iptr := v\<rparr> # drop idx es"
  have eq: "shift_and_insert recs (length es) k v = ?es' @ ns"
    using shift_and_insert_eq [OF assms(1), of k v] by (simp add: idx_def)
  have "length (takeWhile (\<lambda>p. \<not> k < fst p) (map pair_of es)) = idx" by (simp add: idx_def takeWhile_map comp_def)
  moreover have "k \<notin> fst ` set (map pair_of es)" using assms(3) by auto
  ultimately have "map pair_of ?es' = insort_key fst (k, v) (map pair_of es)"
    using insort_takeWhile [of k "map pair_of es" v] by (simp add: Let_def take_map drop_map)
  moreover have "split_at (shift_and_insert recs (length es) k v) ?es' ns"
    using assms(1,2) unfolding eq by (auto simp: split_at_def dest: in_set_takeD in_set_dropD)
  moreover have "length ?es' = Suc (length es)" using length_takeWhile_le [of "\<lambda>e. \<not> k < ikey e" es] by (simp add: idx_def)
  ultimately show thesis using that by blast
qed

lemma insort_left: "k < sk \<Longrightarrow> insort_key fst (k, v) (xs @ (sk, q) # ys) = insort_key fst (k, v) xs @ (sk, q) # ys"
  by (induction xs) auto

lemma insort_right: "\<forall>p \<in> set xs. fst p < k \<Longrightarrow> insort_key fst (k, v) (xs @ ys) = xs @ insort_key fst (k, v) ys"
  by (induction xs) auto

lemma sorted_insort_strict:
  "sorted_wrt (<) (map fst ps) \<Longrightarrow> k \<notin> fst ` set ps \<Longrightarrow> sorted_wrt (<) (map fst (insort_key fst (k, v) ps))"
  by (induction ps) (auto simp: set_insort_key)

lemma route_append:
  assumes "sorted_wrt (<) (map fst (xs @ (sk, q) # ys))"
  shows "route_from p (xs @ (sk, q) # ys) nxt x = (if x < sk then route_from p xs q x else route_from q ys nxt x)"
  using assms by (induction xs arbitrary: p) auto

lemma split_records:
  assumes "split_at recs es []" "length es = 64" "sorted_wrt (<) (map ikey es)"
  shows "sort_records recs = es" "length (filter (\<lambda>e. ikey e \<noteq> kkeyNull) es) = 64"
proof -
  have f: "filter (\<lambda>e. ikey e \<noteq> kkeyNull) es = es" "filter (\<lambda>e. ikey e = kkeyNull) es = []" "recs = es"
    using assms(1) by (auto simp: split_at_def filter_empty_conv)
  moreover have "sorted (map ikey es)" using assms(3) strict_sorted_imp_sorted by blast
  ultimately show "sort_records recs = es" "length (filter (\<lambda>e. ikey e \<noteq> kkeyNull) es) = 64"
    using assms(2) by (simp_all add: sort_records_def sort_key_id_if_sorted)
qed

lemma inode_okI:
  assumes "split_at (irecords node) es ns" "length es + length ns = 64" "es \<noteq> []" "sorted_wrt (<) (map fst (map pair_of es))"
    "\<forall>x \<in> fst ` set (map pair_of es). ilowest node < x \<and> x < ihighest node"
  shows "inode_ok node" "node_pairs node = map pair_of es"
proof -
  show p: "node_pairs node = map pair_of es" using split_at_pairs [OF assms(1)] by (simp add: node_pairs_def)
  have "length (irecords node) = 64" "\<forall>e \<in> set ns. ikey e = kkeyNull" using assms(1,2) by (auto simp: split_at_def)
  then show "inode_ok node" using assms(3-5) split_at_dropWhile [OF assms(1)] unfolding inode_ok_def p by (auto simp: list_all_iff)
qed

lemma inode_okD:
  assumes "inode_ok node"
  shows "sorted_wrt (<) (map fst (node_pairs node))" "\<forall>x \<in> fst ` set (node_pairs node). ilowest node < x \<and> x < ihighest node"
proof -
  show "sorted_wrt (<) (map fst (node_pairs node))" using assms unfolding inode_ok_def by blast
  have "\<forall>p \<in> set (node_pairs node). (\<lambda>(x, p). ilowest node < x \<and> x < ihighest node) p"
    using assms unfolding inode_ok_def list_all_iff by blast
  then show "\<forall>x \<in> fst ` set (node_pairs node). ilowest node < x \<and> x < ihighest node" by fastforce
qed

lemma fst_pairs: "fst ` set (map pair_of es) = ikey ` set es"
  by (simp add: image_image)

lemma written_inode:
  fixes v :: u64
  assumes node: "inode_ok node" and k: "k \<noteq> kkeyNull" "ilowest node < k" "k < ihighest node" "k \<notin> fst ` set (node_pairs node)"
    and i: "find (\<lambda>i. ikey (irecords node ! i) = kkeyNull) [0..<64] = Some i"
  defines "node' \<equiv> node\<lparr>irecords := shift_and_insert (irecords node) i k v\<rparr>"
  shows "inode_ok node' \<and> node_pairs node' = insort_key fst (k, v) (node_pairs node)"
proof -
  obtain es ns where es: "split_at (irecords node) es ns" "node_pairs node = map pair_of es" "length es + length ns = 64" "es \<noteq> []"
    using inode_okE [OF node] .
  obtain x ns' where ns: "ns = x # ns'"
  proof (cases ns)
    case Nil
    then have "ikey (irecords node ! j) \<noteq> kkeyNull" if "j < 64" for j using es(1,3) that by (auto simp: split_at_def)
    then show ?thesis using i by (auto simp: find_Some_iff)
  qed auto
  have "i = length es"
  proof (rule antisym)
    have "ikey (irecords node ! i) = kkeyNull" using i by (auto simp: find_Some_iff)
    then show "length es \<le> i" using es(1) by (metis split_at_def nth_append nth_mem not_le)
    have "ikey (irecords node ! length es) = kkeyNull" using es(1) ns by (simp add: split_at_def nth_append)
    then show "i \<le> length es" using i es(3) ns by (auto simp: find_Some_iff) (metis add_less_cancel_left less_add_same_cancel1 linorder_not_less zero_less_Suc)
  qed
  moreover have "k \<notin> ikey ` set es" using k(4) unfolding es(2) fst_pairs .
  ultimately obtain es' where es': "split_at (irecords node') es' ns'" "map pair_of es' = insort_key fst (k, v) (map pair_of es)"
      "length es' = Suc (length es)"
    using shift_and_insert_ok [of "irecords node" es x ns' k v] es(1) ns k(1) by (auto simp: node'_def)
  have old: "sorted_wrt (<) (map fst (map pair_of es))" "\<forall>x \<in> fst ` set (map pair_of es). ilowest node < x \<and> x < ihighest node"
    using inode_okD [OF node] unfolding es(2) by simp_all
  have "sorted_wrt (<) (map fst (map pair_of es'))" unfolding es'(2) using sorted_insort_strict [OF old(1)] k(4) es(2) by simp
  moreover have "\<forall>x \<in> fst ` set (map pair_of es'). ilowest node' < x \<and> x < ihighest node'"
    unfolding es'(2) set_insort_key using old(2) k(2,3) by (auto simp: node'_def)
  moreover have "length es' + length ns' = 64" "es' \<noteq> []" using es'(3) es(3) ns by auto
  ultimately show ?thesis using inode_okI [OF es'(1)] es'(2) es(2) by simp
qed

lemma half_pairs:
  assumes "\<forall>e \<in> set es. ikey e \<noteq> kkeyNull" "k \<noteq> kkeyNull" "k \<notin> ikey ` set es" "0 < n"
  obtains es' where "split_at (shift_and_insert (es @ replicate n InternalEntry_Null) (length es) k v) es' (replicate (n - 1) InternalEntry_Null)"
    "map pair_of es' = insort_key fst (k, v) (map pair_of es)" "length es' = Suc (length es)"
proof -
  have "split_at (es @ replicate n InternalEntry_Null) es (InternalEntry_Null # replicate (n - 1) InternalEntry_Null)"
    using assms(1,4) by (cases n) (auto simp: split_at_def InternalEntry_Null_def InternalEntry_new_def)
  then show thesis using shift_and_insert_ok assms(2,3) that by blast
qed

lemma half_inode:
  assumes recs: "irecords node = (if ins then shift_and_insert (es @ replicate n InternalEntry_Null) (length es) k v
      else es @ replicate n InternalEntry_Null)"
    and len: "length es + n = 64" "0 < n" "es \<noteq> []" and k: "k \<noteq> kkeyNull" "k \<notin> ikey ` set es" "ins \<longrightarrow> ilowest node < k \<and> k < ihighest node"
    and es: "\<forall>e \<in> set es. ikey e \<noteq> kkeyNull" "sorted_wrt (<) (map ikey es)" "\<forall>e \<in> set es. ilowest node < ikey e \<and> ikey e < ihighest node"
  shows "inode_ok node \<and> node_pairs node = (if ins then insort_key fst (k, v) (map pair_of es) else map pair_of es)"
proof (cases ins)
  case True
  obtain es' where es': "split_at (irecords node) es' (replicate (n - 1) InternalEntry_Null)"
      "map pair_of es' = insort_key fst (k, v) (map pair_of es)" "length es' = Suc (length es)"
    using half_pairs [OF es(1) k(1,2) len(2), of v] recs True by auto
  have "sorted_wrt (<) (map fst (map pair_of es'))"
    unfolding es'(2) by (rule sorted_insort_strict) (use es(2) k(2) in \<open>auto simp: comp_def\<close>)
  moreover have "\<forall>x \<in> fst ` set (map pair_of es'). ilowest node < x \<and> x < ihighest node"
    unfolding es'(2) set_insort_key using es(3) k(3) True by auto
  moreover have "length es' + length (replicate (n - 1) InternalEntry_Null) = 64" "es' \<noteq> []" using es'(3) len by auto
  ultimately show ?thesis using inode_okI [OF es'(1)] es'(2) True by simp
next
  case False
  have s: "split_at (irecords node) es (replicate n InternalEntry_Null)"
    using recs False es(1) by (auto simp: split_at_def InternalEntry_Null_def InternalEntry_new_def)
  have "\<forall>x \<in> fst ` set (map pair_of es). ilowest node < x \<and> x < ihighest node" unfolding fst_pairs using es(3) by auto
  moreover have "sorted_wrt (<) (map fst (map pair_of es))" using es(2) by (simp add: comp_def)
  ultimately show ?thesis using inode_okI [OF s] len False by simp
qed

lemma split_inode:
  assumes node: "inode_ok node" and k: "k \<noteq> kkeyNull" "ilowest node < k" "k < ihighest node" "k \<notin> fst ` set (node_pairs node)"
    and full: "find (\<lambda>i. ikey (irecords node ! i) = kkeyNull) [0..<64] = None"
  shows "\<exists>node' sib sk. internal_split node k v level new_addr = Some (node', sib, sk) \<and> inode_ok node' \<and> inode_ok sib \<and>
    node_pairs node' @ (sk, leftmost_ptr sib) # node_pairs sib = insort_key fst (k, v) (node_pairs node) \<and>
    ilowest node' = ilowest node \<and> ihighest node' = sk \<and> ilowest sib = sk \<and> ihighest sib = ihighest node \<and>
    leftmost_ptr node' = leftmost_ptr node \<and> sibling_leftmost_ptr node' = leftmost_ptr sib \<and>
    sibling_leftmost_ptr sib = sibling_leftmost_ptr node \<and> isibling_ptr node' = new_addr \<and> isibling_ptr sib = isibling_ptr node \<and>
    ivalid node' = ivalid node \<and> ivalid sib = 1"
proof -
  obtain es ns where es: "split_at (irecords node) es ns" "node_pairs node = map pair_of es" "length es + length ns = 64" "es \<noteq> []"
    using inode_okE [OF node] .
  have "ns = []"
  proof (rule ccontr)
    assume "ns \<noteq> []"
    then have "ikey (irecords node ! length es) = kkeyNull" "length es < 64" using es(1,3) by (cases ns; auto simp: split_at_def nth_append)+
    then show False using full by (auto simp: find_None_iff)
  qed
  then have recs: "irecords node = es" "length es = 64" and nn: "\<forall>e \<in> set es. ikey e \<noteq> kkeyNull" using es by (auto simp: split_at_def)
  have old: "sorted_wrt (<) (map ikey es)" "\<forall>e \<in> set es. ilowest node < ikey e \<and> ikey e < ihighest node"
    using inode_okD [OF node] unfolding es(2) fst_pairs by (simp_all add: comp_def)
  have kn: "k \<notin> ikey ` set es" using k(4) unfolding es(2) fst_pairs .
  define xs y zs where "xs = take 32 es" and "y = es ! 32" and "zs = drop 33 es"
  have cut: "es = xs @ y # zs" "length xs = 32" "length zs = 31"
    using recs(2) id_take_nth_drop [of 32 es] by (simp_all add: xs_def y_def zs_def)
  note sorted = split_records [OF es(1) [unfolded \<open>ns = []\<close>] recs(2) old(1)]
  have ord: "sorted_wrt (<) (map ikey xs)" "sorted_wrt (<) (map ikey zs)" "\<forall>e \<in> set xs. ikey e < ikey y" "\<forall>e \<in> set zs. ikey y < ikey e"
    using old(1) unfolding cut(1) by (auto simp: sorted_wrt_append)
  let ?R = "if k < ikey y then shift_and_insert (xs @ replicate 32 InternalEntry_Null) 32 k v else xs @ replicate 32 InternalEntry_Null"
    and ?S = "if k < ikey y then zs @ replicate 33 InternalEntry_Null else shift_and_insert (zs @ replicate 33 InternalEntry_Null) 31 k v"
  define node' where "node' = node\<lparr>ihighest := ikey y, isibling_ptr := new_addr, sibling_leftmost_ptr := iptr y, irecords := ?R\<rparr>"
  define sib where "sib = new_InternalNode\<lparr>ilevel := level, ilowest := ikey y, ihighest := ihighest node,
    isibling_ptr := isibling_ptr node, leftmost_ptr := iptr y, sibling_leftmost_ptr := sibling_leftmost_ptr node, irecords := ?S\<rparr>"
  have eq: "internal_split node k v level new_addr = Some (node', sib, ikey y)"
  proof -
    have m: "length (filter (\<lambda>e. ikey e \<noteq> kkeyNull) es) div 2 = 32" using sorted(2) by simp
    have nums: "(32 + 1 :: nat) = 33" "internalSpanSize - 32 = 32" "(32 - 1 :: nat) = 31" "ikey y \<noteq> kkeyNull"
      using nn by (simp_all add: cut(1))
    show ?thesis unfolding internal_split_def Let_def sorted(1) m node'_def sib_def xs_def [symmetric] y_def [symmetric]
      by (simp only: nums if_False flip: zs_def)
  qed
  have kn': "k \<notin> ikey ` set xs" "k \<notin> ikey ` set zs" "k \<noteq> ikey y" "\<forall>e \<in> set xs. ikey e \<noteq> kkeyNull" "\<forall>e \<in> set zs. ikey e \<noteq> kkeyNull"
    using kn nn unfolding cut(1) by auto
  have left: "inode_ok node' \<and> node_pairs node' = (if k < ikey y then insort_key fst (k, v) (map pair_of xs) else map pair_of xs)"
    by (rule half_inode [of _ _ _ 32]) (use old(2) ord(1,3) k kn' cut(2) in \<open>auto simp: node'_def cut(1)\<close>)
  have right: "inode_ok sib \<and> node_pairs sib = (if \<not> k < ikey y then insort_key fst (k, v) (map pair_of zs) else map pair_of zs)"
    by (rule half_inode [of _ _ _ 33]) (use old(2) ord(2,4) k kn' cut(3) in \<open>auto simp: sib_def cut(1)\<close>)
  have "node_pairs node' @ (ikey y, leftmost_ptr sib) # node_pairs sib = insort_key fst (k, v) (node_pairs node)"
  proof (cases "k < ikey y")
    case True
    then show ?thesis using left right insort_left [of k "ikey y" v "map pair_of xs" "iptr y" "map pair_of zs"]
      by (simp add: es(2) cut(1) sib_def)
  next
    case False
    then have "insort_key fst (k, v) (map pair_of xs @ (ikey y, iptr y) # map pair_of zs) =
        (map pair_of xs @ [(ikey y, iptr y)]) @ insort_key fst (k, v) (map pair_of zs)"
      using insort_right [of "map pair_of xs @ [(ikey y, iptr y)]" k v "map pair_of zs"] ord(3) kn'(3) by force
    then show ?thesis using left right False by (simp add: es(2) cut(1) sib_def)
  qed
  then show ?thesis using eq left right by (simp add: node'_def sib_def new_InternalNode_def)
qed

text \<open>
  C16: Adding a separator to an internal node of CHIME keeps the node well-formed and routes by it.  When the
  node has room it is written back; a full node is split in two without a failed assertion.  Afterwards a search
  (in the half the separator of the split selects) sends every key of the node's range to the child that
  the ordered list of separators with the new one names, together with the child that follows, also
  across the boundary of the two halves.
\<close>

theorem internal_insert_routes:
  fixes v :: u64
  assumes node: "inode_ok node" "ivalid node \<noteq> 0"
    and k: "k \<noteq> kkeyNull" "ilowest node < k" "k < ihighest node" "k \<notin> fst ` set (node_pairs node)"
    and x: "ilowest node \<le> x" "x < ihighest node"
  defines "child \<equiv> (case route_from (leftmost_ptr node) (insort_key fst (k, v) (node_pairs node)) (sibling_leftmost_ptr node) x of
    (p, s) \<Rightarrow> Child p s)"
  shows "case internal_node_insert node k v from_cache level new_addr of
      Some (IWritten node') \<Rightarrow> inode_ok node' \<and> internal_node_search node' x True = Some child
    | Some (ISplit node' sib sk) \<Rightarrow> inode_ok node' \<and> inode_ok sib \<and> isibling_ptr node' = new_addr \<and>
        internal_node_search (if x < sk then node' else sib) x True = Some child
    | _ \<Rightarrow> False"
proof -
  have "ikey e \<noteq> k" if "e \<in> set (irecords node)" for e
  proof -
    obtain es ns where es: "split_at (irecords node) es ns" "node_pairs node = map pair_of es" using inode_okE [OF node(1)] .
    show ?thesis
    proof (cases "e \<in> set es")
      case True
      then show ?thesis using k(4) unfolding es(2) fst_pairs by auto
    qed (use that es(1) k(1) in \<open>auto simp: split_at_def\<close>)
  qed
  then have eq: "internal_node_insert node k v from_cache level new_addr =
      (case find (\<lambda>i. ikey (irecords node ! i) = kkeyNull) [0..<64] of
         Some i \<Rightarrow> Some (IWritten (node\<lparr>irecords := shift_and_insert (irecords node) i k v\<rparr>))
       | None \<Rightarrow> map_option (\<lambda>(n, s, sk). ISplit n s sk) (internal_split node k v level new_addr))"
    using node(2) k by (auto simp: internal_node_insert_def list_ex_iff)
  show ?thesis
  proof (cases "find (\<lambda>i. ikey (irecords node ! i) = kkeyNull) [0..<64]")
    case (Some i)
    let ?n = "node\<lparr>irecords := shift_and_insert (irecords node) i k v\<rparr>"
    have n: "inode_ok ?n" "node_pairs ?n = insort_key fst (k, v) (node_pairs node)"
      using written_inode [OF node(1) k Some, of v] by auto
    then show ?thesis using internal_node_search_ok [OF n(1), of x True] node(2) x unfolding eq Some by (simp add: child_def)
  next
    case None
    obtain node' sib sk where s: "internal_split node k v level new_addr = Some (node', sib, sk)" "inode_ok node'" "inode_ok sib"
        "node_pairs node' @ (sk, leftmost_ptr sib) # node_pairs sib = insort_key fst (k, v) (node_pairs node)"
        "ilowest node' = ilowest node" "ihighest node' = sk" "ilowest sib = sk" "ihighest sib = ihighest node"
        "leftmost_ptr node' = leftmost_ptr node" "sibling_leftmost_ptr node' = leftmost_ptr sib"
        "sibling_leftmost_ptr sib = sibling_leftmost_ptr node" "isibling_ptr node' = new_addr"
        "ivalid node' = ivalid node" "ivalid sib = 1"
      using split_inode [OF node(1) k None, of v level new_addr] by blast
    have "sorted_wrt (<) (map fst (node_pairs node' @ (sk, leftmost_ptr sib) # node_pairs sib))"
      unfolding s(4) by (rule sorted_insort_strict [OF inode_okD(1) [OF node(1)] k(4)])
    note r = route_append [OF this, of "leftmost_ptr node" "sibling_leftmost_ptr node" x, unfolded s(4)]
    have "internal_node_search (if x < sk then node' else sib) x True = Some child"
      using internal_node_search_ok [OF s(2), of x True] internal_node_search_ok [OF s(3), of x True] node(2) x s(5-14)
      unfolding child_def r by simp
    then show ?thesis using s(1-3,12) unfolding eq None by simp
  qed
qed

definition sample_inode :: InternalNode where
  "sample_inode = new_InternalNode\<lparr>leftmost_ptr := 1, sibling_leftmost_ptr := 9,
     irecords := [InternalEntry_new [0, 0, 0, 0, 0, 0, 5, 0] 5, InternalEntry_new [0, 0, 0, 0, 0, 0, 7, 0] 7] @
       replicate 62 InternalEntry_Null\<rparr>"

theorem internal_insert_routes_witness:
  "\<exists>node'. internal_node_insert sample_inode [0, 0, 0, 0, 0, 0, 6, 0] 6 True 1 4096 = Some (IWritten node') \<and>
     internal_node_search node' [0, 0, 0, 0, 0, 0, 6, 3] True = Some (Child 6 7)"
proof -
  have "case internal_node_insert sample_inode [0, 0, 0, 0, 0, 0, 6, 0] 6 True 1 4096 of
      Some (IWritten node') \<Rightarrow> inode_ok node' \<and> internal_node_search node' [0, 0, 0, 0, 0, 0, 6, 3] True =
        Some (case route_from (leftmost_ptr sample_inode) (insort_key fst ([0, 0, 0, 0, 0, 0, 6, 0], 6) (node_pairs sample_inode))
          (sibling_leftmost_ptr sample_inode) [0, 0, 0, 0, 0, 0, 6, 3] of (p, s) \<Rightarrow> Child p s)
    | Some (ISplit node' sib sk) \<Rightarrow> inode_ok node' \<and> inode_ok sib \<and> isibling_ptr node' = 4096 \<and>
        internal_node_search (if [0, 0, 0, 0, 0, 0, 6, 3] < sk then node' else sib) [0, 0, 0, 0, 0, 0, 6, 3] True =
        Some (case route_from (leftmost_ptr sample_inode) (insort_key fst ([0, 0, 0, 0, 0, 0, 6, 0], 6) (node_pairs sample_inode))
          (sibling_leftmost_ptr sample_inode) [0, 0, 0, 0, 0, 0, 6, 3] of (p, s) \<Rightarrow> Child p s)
    | _ \<Rightarrow> False"
    by (rule internal_insert_routes) code_simp+
  moreover have "route_from (leftmost_ptr sample_inode) (insort_key fst ([0, 0, 0, 0, 0, 0, 6, 0], 6) (node_pairs sample_inode))
      (sibling_leftmost_ptr sample_inode) [0, 0, 0, 0, 0, 0, 6, 3] = (6, 7)" by code_simp
  moreover have "find (\<lambda>i. ikey (irecords sample_inode ! i) = kkeyNull) [0..<64] = Some 2" by code_simp
  moreover have "\<not> (ihighest sample_inode \<le> [0, 0, 0, 0, 0, 0, 6, 0])" "\<not> [0, 0, 0, 0, 0, 0, 6, 0] < ilowest sample_inode"
      "ivalid sample_inode \<noteq> 0" "\<not> list_ex (\<lambda>e. ikey e = [0, 0, 0, 0, 0, 0, 6, 0]) (irecords sample_inode)"
    by code_simp+
  ultimately show ?thesis by (simp add: internal_node_insert_def)
qed

end
