(* ===== verification/Spec2Isabelle.thy ===== *)
theory Spec2Isabelle
  imports Dex_Hot Sherman_Store Chime_Chain Chime_Internal
begin

text \<open>
  \<^bold>\<open>What this is.\<close>  A verification of the indexes for disaggregated memory in this repository: DEX, a
  B+-tree whose pages are cached on compute nodes and whose operations can be pushed down to memory
  nodes (\<open>dex/include/cache\<close>, \<open>dex/include/tree\<close>), and the two indexes it is compared with: Sherman, a B-link tree
  (\<open>dex/src/Tree.cpp\<close>, \<open>dex/include/Tree.h\<close>, \<open>dex/include/IndexCache.h\<close>), and CHIME, a B-link tree whose leaves are
  hopscotch hash tables (\<open>CHIME/src/Tree.cpp\<close>, \<open>CHIME/include\<close>), with the services they share:
  global addresses, locks, memory allocation and the messages to the directory of a memory node.

  \<^bold>\<open>How the program fits together.\<close>  A \<^emph>\<open>memory node\<close> owns a region of bytes and a small on-chip memory.
  Its directories hand out 32 MB chunks on request and run the operations that are pushed down to
  them.  A \<^emph>\<open>compute node\<close> cuts its chunks into pages with a bump allocator per thread and reaches pages
  by one-sided reads, writes and compare-and-swaps.  DEX swizzles: a child pointer in a cached inner
  node is either a global address or a tagged local pointer, and a bitmap says which.  The page table
  maps addresses to cached pages, the cooling table holds pages on their way out, and the eviction walk
  picks a page without swizzled children.  Sherman locks a page with a word in on-chip memory, queues
  local threads at a ticket lock in front of it, and keeps copies of level-1 pages in an index cache.
  A CHIME leaf has 64 entries; a key lives within 8 entries of its hash, and a bitmap at that place says
  which of them hold its keys.  The lock word of a leaf carries a bitmap of full buckets and the place of the
  largest key, so that the owner of the lock reads a part of the leaf only; a reader takes no lock and
  compares bitmaps, and clients follow sibling pointers where a parent does not know of a split yet.

  \<^bold>\<open>Theories.\<close>
  \<^item> \<open>Dex_Prelude\<close>: error binding, copies inside arrays, sorted association lists, word lemmas.
  \<^item> \<open>Kv_Store\<close>: the contract of a bounded key-value store as a locale, and what follows from it for any
    sequence of operations.  It is interpreted on the DEX leaf, the chains of the page table, the
    pushed-down operations of a memory node, the hot DEX tree and the Sherman leaf.
  \<^item> \<open>Global_Addr\<close> (\<open>GlobalAddress.h\<close>): 16 bits of node and 48 bits of offset in a 64-bit word.
  \<^item> \<open>Version_Lock\<close> (\<open>util/lock.h\<close>, \<open>WRLock.h\<close>, \<open>OptLock\<close> in \<open>btree_node.h\<close>): the lock words at their
    width, and every interleaving of the threads that use them as a step relation.  Exclusion and the
    validation of optimistic readers hold below the number of releases at which a version repeats; that
    bound is a hypothesis where the code has it.
  \<^item> \<open>Btree_Node\<close> (\<open>cache/btree_node.h\<close>): leaf and inner node of DEX, all operations; sortedness, contents,
    swizzle bitmap, splits.
  \<^item> \<open>Dex_Alloc\<close> (\<open>GlobalAllocator.h\<close>, \<open>LocalAllocator.h\<close>, \<open>MultiAllocator.h\<close>, \<open>Directory.cpp\<close>, \<open>DSM.h\<close>): chunks,
    bump allocators and both \<open>DSM::alloc\<close>; they refine an abstract allocator whose blocks are disjoint.
  \<^item> \<open>Btree_Rpc\<close> (\<open>cache/btree_rpc.h\<close>, \<open>Directory.cpp\<close>, \<open>DSM.h\<close>): traversal of a memory pool, the handler
    of the directory's messages and the client calls.
  \<^item> \<open>Page_Table\<close> (\<open>tree/page_table.h\<close>) and \<open>Cooling_Table\<close> (\<open>tree/hash_table.h\<close>): buckets, chains, locks.
  \<^item> \<open>Node_Wr\<close> (\<open>cache/node_wr.h\<close>): reads and writes of remote pages, unswizzling, the eviction walk.
  \<^item> \<open>Cache_Monad\<close>: programs that return, fail or wait, with rules for total (\<open>ok\<close>) and partial (\<open>safe\<close>)
    correctness; the cache and the tree are written in it.
  \<^item> \<open>Latency_Window\<close> (\<open>cache/latency_collector.h\<close>): the windows of measured latencies and the decision
    between caching a page and pushing the operation down.
  \<^item> \<open>Cache_Manager\<close> (\<open>cache/leanstore_cache.h\<close>, \<open>util/cache_allocator.h\<close>): the page cache with its pool,
    sampling, misses, hits, replacement, flush and reset, every operation.
  \<^item> \<open>Cache_View\<close>: the invariant of cached pages, remote memory and tables, the contents every global
    address has for the tree (the view), and the single steps that keep both.
  \<^item> \<open>Cache_Steps\<close> and \<open>Cache_Load\<close>: sampling, eviction, taking an empty page and loading a page keep the
    invariant and the view; a load with an empty page at hand returns.
  \<^item> \<open>Dex_Tree\<close> (\<open>tree/leanstore_tree.h\<close>): the tree on top of the cache: constructors, root, remote locks,
    refresh from the root, lookup, insert, update, remove, range scan and bulk loading.
  \<^item> \<open>Dex_Hot\<close>: the operations of the tree on hot paths; a hot tree is one more key-value store in the
    sense of \<open>Kv_Store\<close>.
  \<^item> \<open>Sherman_Page\<close>, \<open>Sherman_Lock\<close>, \<open>Index_Cache\<close>: the pages, locks and cache of Sherman, each on its own.
  \<^item> \<open>Sherman_Tree\<close> (\<open>Tree.cpp\<close>): the handlers of one client as functions on an explicit state of remote
    pages, on-chip words, local locks, allocator, root cell and cache.
  \<^item> \<open>Sherman_Blink\<close>: the invariant of the tree in remote memory, a B-link tree, the page writes that keep
    it, and the correctness of \<open>search\<close>.
  \<^item> \<open>Sherman_Store\<close>: \<open>del\<close> and \<open>insert\<close> keep the invariant and change the contents at one key.
  \<^item> \<open>Chime_Key\<close> (\<open>CHIME/include/Key.h\<close>): the byte arithmetic of keys is that of the numbers they denote.
  \<^item> \<open>Chime_Leaf\<close>, \<open>Chime_Hop\<close> (\<open>LeafNode.h\<close>, \<open>hopscotch_insert_and_unlock\<close>, \<open>leaf_node_search\<close>): entries, hops
    and the search; an insertion keeps the leaf well-formed, and a search that overlaps with it is not misled.
  \<^item> \<open>Chime_Split\<close> (\<open>hopscotch_get_split_key\<close>, \<open>hopscotch_split_and_unlock\<close>): the key that did not fit has a place
    after the split.
  \<^item> \<open>Chime_Vacancy\<close>, \<open>Chime_Insert\<close> (\<open>VALOCK\<close> in \<open>Metadata.h\<close>, \<open>leaf_node_insert\<close>, \<open>segment_write_and_unlock\<close>): the lock
    word, the window it selects and the whole insertion into a locked leaf; working on the window is
    working on the leaf, and the lock word stays true to it.
  \<^item> \<open>Chime_Chain\<close>: the leaves of a tree from the constructor on, as a chain of sibling pointers whose abstract
    value is a map; insertion with its moves to the right.
  \<^item> \<open>Chime_Internal\<close> (\<open>InternalNode.h\<close>, \<open>internal_node_search\<close>, \<open>internal_node_insert\<close>, \<open>node_split_and_unlock\<close>):
    internal nodes as ordered lists of separators.

  \<^bold>\<open>State and errors.\<close>  A struct is a record with the fields of the source, memory a map from addresses to
  pages, and a w-bit integer a word.  A function that can fail an assertion, run out of memory or follow
  a pointer to nothing returns a sum whose left side names the error.  A loop is a recursive function; a
  loop that follows pointers takes fuel, and its theorems say how much is enough and that it then
  returns: one unit for each page of the tree (\<open>card P \<le> fuel\<close>).  Loops whose end depends on other threads
  are step relations, or, for a client alone, end in \<open>Spin\<close> or \<open>Deadlock\<close> where the program would wait
  for ever.  In the programs of the cache and the tree \<open>None\<close> is a thread that does not return; the loops
  around \<open>goto restart\<close> have a bound, and 256 rounds are enough on a hot path, one for each level.

  \<^bold>\<open>Parameters.\<close>  \<open>CityHash64\<close> is vendored and stands as a function of the configuration; nothing is
  assumed of it.  The random numbers and time stamps of the index cache are inputs of its state.  The hash
  of the page table and the floating-point comparison of the latency collector are in \<open>cm_env\<close>; the random
  numbers and clock readings of the page cache are the stream \<open>rnd\<close>.  The definitions of CHIME take
  \<open>CityHash64\<close> as the argument \<open>city\<close>.

  \<^bold>\<open>What the theorems show.\<close>  Contents: each component that stores pairs is a map under its operations
  (DEX leaf, page-table chain, memory pool, hot DEX tree, Sherman leaf, Sherman tree, CHIME leaves).  Structure: splits and inserts
  of pages lose nothing and keep order, ranges, bitmaps and links.  Memory: no two blocks overlap, in any
  interleaving.  Locks: exclusion and validation in every interleaving, bounded hand-over.  Eviction: no
  dirty page is dropped, the walk ends and finds a page.  Cache: sampling and misses keep the invariant
  and are invisible in what the addresses hold.  Errors: where a counter wraps, a reply is
  stale, a frame is removed twice, a torn page is accepted, a scan overwrites its results, an update is
  lost or a draw does not end, a theorem shows it.

  \<^bold>\<open>Bounds.\<close>  Levels of a Sherman tree stay below \<open>kMaxLevelOfTree\<close>; ticket counters below \<open>2 ^ 32\<close>; a
  deployment has at most 128 machines and 48-bit addresses (\<open>dsm_conf_ok\<close>).  Keys are below \<open>kKeyMax\<close>,
  which bounds the last page of a level, and values are not \<open>kValueNull\<close>, which marks an empty slot.

  \<^bold>\<open>Not modelled.\<close>  RDMA verbs, completion queues and memcached rendezvous (pure I/O); coroutines, which
  only interleave handlers of one thread; statistics and debugging output; CRC checks and embedded
  locks, which \<open>Common.h\<close> switches off; the benchmarks; \<open>validate\<close> of the DEX tree.  Of CHIME: the byte layout
  of versions and replicated metadata, the caches, the speculative read, range queries and the update of the
  root pointer; it is modelled with the default options of its build.  Other indexes of the repository, SMART
  and DART, are not modelled.  The programs of the page cache and the DEX tree are those of one thread, with the
  locks of others as they stand in the state, and a page in an RDMA buffer is the value that was read.
  The theorems on the tree are for hot paths, those on the cache for sampling, eviction and misses;
  refresh, replacement and bulk loading are modelled without a theorem on the whole operation.  The
  handlers of \<open>Sherman_Tree\<close> are total models with the index cache on as well; the theorems on whole
  operations are for the cache switched off, as it is below level 3.  The models of CHIME take a leaf
  as it stands under its lock; the interleaving of a search with an insertion is the mixture of the entries
  before and after.  Fence keys of a leaf are fields of the model that no decision of the code reads.
\<close>

end
